(* ===== verification/Uboot_Prelude.thy ===== *)
theory Uboot_Prelude
  imports Main "HOL-Library.Word" "HOL-Library.Monad_Syntax"
begin

text \<open>
  The shared ground of the development: the machine types of the 32-bit ARM target
  (am57xx_evm: \<open>int\<close>, \<open>long\<close>, \<open>size_t\<close> and \<open>phys_addr_t\<close> are 32 bits wide, \<open>char\<close> is
  unsigned), fixed-size arrays whose out-of-range accesses are undefined behaviour, and the
  lemmas on words and lists that the component theories share.

  Undefined behaviour is a value: an operation of type \<open>'a option\<close> returns \<open>None\<close> exactly
  where the C code would read or write outside an array.
\<close>

unbundle bit_operations_syntax

section \<open>Machine types\<close>

type_synonym u8 = "8 word"
type_synonym u16 = "16 word"
type_synonym u32 = "32 word"
type_synonym u64 = "64 word"

named_theorems nowrap \<open>unsigned word arithmetic that does not wrap, read through \<open>unat\<close>\<close>

lemma unat_plus_nowrap [nowrap]:
  "unat a + unat b < 2 ^ LENGTH('a) \<Longrightarrow> unat (a + b) = unat a + unat (b :: 'a::len word)"
  by (simp add: unat_add_lem)

lemma unat_minus_nowrap [nowrap]:
  "unat b \<le> unat a \<Longrightarrow> unat (a - b) = unat a - unat (b :: 'a::len word)"
  by (simp add: unat_sub word_le_nat_alt)

lemma unat_mult_nowrap [nowrap]:
  "unat a * unat b < 2 ^ LENGTH('a) \<Longrightarrow> unat (a * b) = unat a * unat (b :: 'a::len word)"
  by (simp add: unat_mult_lem)

lemma unat_of_nat_u32: "k < 2 ^ 32 \<Longrightarrow> unat (of_nat k :: u32) = k"
  by (simp add: unat_of_nat take_bit_nat_eq_self)

lemma unat_of_nat_u64: "k < 2 ^ 64 \<Longrightarrow> unat (of_nat k :: u64) = k"
  by (simp add: unat_of_nat take_bit_nat_eq_self)

lemma unat_ucast_mod: "unat (ucast (x :: 'a::len word) :: 'b::len word) = unat x mod 2 ^ LENGTH('b)"
  by (simp add: unsigned_ucast_eq take_bit_eq_mod)

lemma unat_u32_less: "unat (x :: u32) < 2 ^ 32"
  using unsigned_less[of x] by simp

section \<open>Fixed-size arrays\<close>

definition arr_get :: "'a list \<Rightarrow> nat \<Rightarrow> 'a option" where
  "arr_get xs i = (if i < length xs then Some (xs ! i) else None)"

definition arr_set :: "'a list \<Rightarrow> nat \<Rightarrow> 'a \<Rightarrow> 'a list option" where
  "arr_set xs i v = (if i < length xs then Some (xs[i := v]) else None)"

lemma arr_get_in [simp]: "i < length xs \<Longrightarrow> arr_get xs i = Some (xs ! i)"
  by (simp add: arr_get_def)

lemma arr_set_in [simp]: "i < length xs \<Longrightarrow> arr_set xs i v = Some (xs[i := v])"
  by (simp add: arr_set_def)

lemma arr_get_out [simp]: "length xs \<le> i \<Longrightarrow> arr_get xs i = None"
  by (simp add: arr_get_def)

lemma arr_set_out [simp]: "length xs \<le> i \<Longrightarrow> arr_set xs i v = None"
  by (simp add: arr_set_def)

section \<open>Search loops\<close>

text \<open>
  The loop \<open>for (; i < n; i++) if (P (xs[i])) break;\<close>: the index where it stops, \<open>n\<close> when
  no element of the range satisfies \<open>P\<close>, \<open>None\<close> when it reads past the array.
\<close>

function array_find :: "('a \<Rightarrow> bool) \<Rightarrow> 'a list \<Rightarrow> nat \<Rightarrow> nat \<Rightarrow> nat option" where
  "array_find P xs i n =
     (if i < n then
        (case arr_get xs i of
           None \<Rightarrow> None
         | Some x \<Rightarrow> (if P x then Some i else array_find P xs (i + 1) n))
      else Some i)"
  by pat_completeness auto
termination
  by (relation "measure (\<lambda>(P, xs, i, n). n - i)") auto

declare array_find.simps [simp del]

lemma array_find_hit:
  "array_find P xs i n = Some j \<Longrightarrow> j < n \<Longrightarrow> i \<le> j \<and> j < length xs \<and> P (xs ! j)"
proof (induction P xs i n rule: array_find.induct)
  case (1 P xs i n)
  then show ?case
    by (subst (asm) (2) array_find.simps) (force simp: arr_get_def split: if_splits)
qed

lemma array_find_first:
  "i \<le> n \<Longrightarrow> n \<le> length xs \<Longrightarrow>
     \<exists>j. array_find P xs i n = Some j \<and> i \<le> j \<and> j \<le> n \<and>
         (\<forall>k. i \<le> k \<and> k < j \<longrightarrow> \<not> P (xs ! k)) \<and> (j < n \<longrightarrow> P (xs ! j))"
proof (induction P xs i n rule: array_find.induct)
  case (1 P xs i n)
  show ?case
  proof (cases "i < n \<and> \<not> P (xs ! i)")
    case True
    with 1 obtain j where j: "array_find P xs (i + 1) n = Some j" "i + 1 \<le> j" "j \<le> n"
      "\<forall>k. i + 1 \<le> k \<and> k < j \<longrightarrow> \<not> P (xs ! k)" "j < n \<longrightarrow> P (xs ! j)"
      by (auto simp: arr_get_def)
    have "\<not> P (xs ! k)" if "i \<le> k" "k < j" for k
      using that True j(4) by (cases "k = i") auto
    moreover have "array_find P xs i n = array_find P xs (i + 1) n"
      using True 1(3) by (simp add: array_find.simps[of P xs i n])
    ultimately show ?thesis
      using j by (intro exI[of _ j]) auto
  next
    case False
    with 1(2,3) show ?thesis
      by (intro exI[of _ i]) (auto simp: array_find.simps[of P xs i n])
  qed
qed

lemma array_find_eq:
  assumes "i \<le> j" "j \<le> n" "n \<le> length xs"
    and "\<And>k. i \<le> k \<Longrightarrow> k < j \<Longrightarrow> \<not> P (xs ! k)" and "j < n \<Longrightarrow> P (xs ! j)"
  shows "array_find P xs i n = Some j"
proof -
  from assms(1-3) obtain m where m: "array_find P xs i n = Some m" "i \<le> m" "m \<le> n"
    "\<forall>k. i \<le> k \<and> k < m \<longrightarrow> \<not> P (xs ! k)" "m < n \<longrightarrow> P (xs ! m)"
    using array_find_first[of i n xs P] by auto
  have "\<not> m < j" using m assms by auto
  moreover have "\<not> j < m" using m assms by auto
  ultimately have "m = j" by simp
  with m show ?thesis by simp
qed

end
