(* ===== verification/Alloc_Spec.thy ===== *)
theory Alloc_Spec
  imports Uboot_Prelude
begin

text \<open>
  The contract a block allocator offers its clients, and what follows from it for a whole
  sequence of requests. The logical memory block allocator and the pre-relocation
  \<open>malloc_simple\<close> interpret it in their own theories.
\<close>

text \<open>Serve requests in order; the blocks handed out, in order, and the final state.\<close>

fun alloc_run :: "('r \<Rightarrow> 's \<Rightarrow> nat set option \<times> 's) \<Rightarrow> 'r list \<Rightarrow> 's \<Rightarrow> nat set list \<times> 's" where
  "alloc_run alloc [] s = ([], s)"
| "alloc_run alloc (r # rs) s =
     (case alloc r s of (b, s1) \<Rightarrow>
        (case alloc_run alloc rs s1 of (bs, s2) \<Rightarrow>
           (case b of None \<Rightarrow> bs | Some blk \<Rightarrow> blk # bs, s2)))"

locale block_allocator =
  fixes alloc :: "'r \<Rightarrow> 's \<Rightarrow> nat set option \<times> 's"
    and used :: "'s \<Rightarrow> nat set"
    and inv :: "'s \<Rightarrow> bool"
    and ok :: "'r \<Rightarrow> bool"
  assumes alloc_inv: "inv s \<Longrightarrow> ok r \<Longrightarrow> inv (snd (alloc r s))"
    and alloc_fail: "inv s \<Longrightarrow> ok r \<Longrightarrow> fst (alloc r s) = None \<Longrightarrow> used (snd (alloc r s)) = used s"
    and alloc_fresh: "inv s \<Longrightarrow> ok r \<Longrightarrow> fst (alloc r s) = Some b \<Longrightarrow> b \<inter> used s = {}"
    and alloc_used: "inv s \<Longrightarrow> ok r \<Longrightarrow> fst (alloc r s) = Some b \<Longrightarrow> used (snd (alloc r s)) = used s \<union> b"
begin

lemma run_step:
  assumes "inv s" and "ok r" and "alloc r s = (b, s1)"
  shows "inv s1" and "b = None \<Longrightarrow> used s1 = used s"
    and "b = Some blk \<Longrightarrow> blk \<inter> used s = {} \<and> used s1 = used s \<union> blk"
  using alloc_inv[OF assms(1,2)] alloc_fail[OF assms(1,2)] alloc_fresh[OF assms(1,2)]
    alloc_used[OF assms(1,2)] assms(3) by auto

lemma run_disjoint:
  "inv s \<Longrightarrow> \<forall>r\<in>set rs. ok r \<Longrightarrow> alloc_run alloc rs s = (bs, s') \<Longrightarrow>
     inv s' \<and> used s' = used s \<union> \<Union> (set bs) \<and> (\<forall>b\<in>set bs. b \<inter> used s = {}) \<and>
     sorted_wrt (\<lambda>a b. a \<inter> b = {}) bs"
proof (induction rs arbitrary: s bs s')
  case Nil
  then show ?case by auto
next
  case (Cons r rs)
  obtain b s1 where b: "alloc r s = (b, s1)" by (cases "alloc r s")
  obtain cs s2 where cs: "alloc_run alloc rs s1 = (cs, s2)" by (cases "alloc_run alloc rs s1")
  note step = run_step[OF Cons.prems(1) _ b]
  have IH: "inv s2 \<and> used s2 = used s1 \<union> \<Union> (set cs) \<and> (\<forall>b\<in>set cs. b \<inter> used s1 = {}) \<and>
     sorted_wrt (\<lambda>a b. a \<inter> b = {}) cs"
    using Cons.IH[OF step(1) _ cs] Cons.prems(2) by simp
  have r: "ok r" using Cons.prems(2) by simp
  show ?case
  proof (cases b)
    case None
    with IH step(2)[OF r] b cs Cons.prems(3) show ?thesis by auto
  next
    case (Some blk)
    then have "bs = blk # cs" "s' = s2" using b cs Cons.prems(3) by auto
    with IH step(3)[OF r Some] show ?thesis by (simp add: disjoint_iff) blast
  qed
qed

end

end
