(* ===== verification/Lmb.thy ===== *)
theory Lmb
  imports Alloc_Spec
begin

text \<open>
  Logical memory blocks, \<open>lib/lmb.c\<close> and \<open>include/lmb.h\<close>: the two tables of at most eight
  regions (nine slots) that \<open>bootm\<close> uses to place kernels, ramdisks and device trees. Every
  function of the file is modelled on 32-bit words, with the array accesses checked; addresses
  are read as naturals for the statements. The interpretation \<open>lmb_alloc\<close> shows that the
  allocator satisfies the contract of \<open>Alloc_Spec\<close>.
\<close>

record lmb_property =
  pbase :: u32
  psize :: u32

record lmb_region =
  cnt :: u32
  rsize :: u32
  region :: "lmb_property list"

record lmb =
  memory :: lmb_region
  reserved :: lmb_region

definition MAX_LMB_REGIONS :: u32 where
  "MAX_LMB_REGIONS = 8"

definition lmb_addrs_overlap :: "u32 \<Rightarrow> u32 \<Rightarrow> u32 \<Rightarrow> u32 \<Rightarrow> bool" where
  "lmb_addrs_overlap base1 size1 base2 size2 \<longleftrightarrow>
     base1 < base2 + size2 \<and> base2 < base1 + size1"

definition lmb_addrs_adjacent :: "u32 \<Rightarrow> u32 \<Rightarrow> u32 \<Rightarrow> u32 \<Rightarrow> int" where
  "lmb_addrs_adjacent base1 size1 base2 size2 =
     (if base2 = base1 + size1 then 1
      else if base1 = base2 + size2 then -1
      else 0)"

definition lmb_regions_adjacent :: "lmb_region \<Rightarrow> nat \<Rightarrow> nat \<Rightarrow> int option" where
  "lmb_regions_adjacent rgn r1 r2 = do {
     p1 \<leftarrow> arr_get (region rgn) r1;
     p2 \<leftarrow> arr_get (region rgn) r2;
     Some (lmb_addrs_adjacent (pbase p1) (psize p1) (pbase p2) (psize p2))
   }"

text \<open>The loop of \<open>lmb_remove_region\<close>: move entries \<open>i+1..n\<close> one place down.\<close>

function lmb_remove_loop :: "lmb_property list \<Rightarrow> nat \<Rightarrow> nat \<Rightarrow> lmb_property list option" where
  "lmb_remove_loop rs i n =
     (if i < n then do {
        p \<leftarrow> arr_get rs (i + 1);
        rs' \<leftarrow> arr_set rs i p;
        lmb_remove_loop rs' (i + 1) n
      } else Some rs)"
  by pat_completeness auto
termination
  by (relation "measure (\<lambda>(rs, i, n). n - i)") auto

declare lmb_remove_loop.simps [simp del]

definition lmb_remove_region :: "lmb_region \<Rightarrow> nat \<Rightarrow> lmb_region option" where
  "lmb_remove_region rgn r = do {
     rs \<leftarrow> lmb_remove_loop (region rgn) r (unat (cnt rgn - 1));
     Some (rgn\<lparr>region := rs, cnt := cnt rgn - 1\<rparr>)
   }"

definition lmb_coalesce_regions :: "lmb_region \<Rightarrow> nat \<Rightarrow> nat \<Rightarrow> lmb_region option" where
  "lmb_coalesce_regions rgn r1 r2 = do {
     p1 \<leftarrow> arr_get (region rgn) r1;
     p2 \<leftarrow> arr_get (region rgn) r2;
     rs \<leftarrow> arr_set (region rgn) r1 (p1\<lparr>psize := psize p1 + psize p2\<rparr>);
     lmb_remove_region (rgn\<lparr>region := rs\<rparr>) r2
   }"

definition lmb_init :: "lmb \<Rightarrow> lmb option" where
  "lmb_init l = do {
     ms \<leftarrow> arr_set (region (memory l)) 0 \<lparr>pbase = 0, psize = 0\<rparr>;
     rs \<leftarrow> arr_set (region (reserved l)) 0 \<lparr>pbase = 0, psize = 0\<rparr>;
     Some (l\<lparr>memory := (memory l)\<lparr>region := ms, cnt := 1, rsize := 0\<rparr>,
             reserved := (reserved l)\<lparr>region := rs, cnt := 1, rsize := 0\<rparr>\<rparr>)
   }"

text \<open>
  The first loop of \<open>lmb_add_region\<close> stops at the first region that equals the new one or
  touches it. \<open>Inl ()\<close> is its early \<open>return 0\<close> (the region is already there),
  \<open>Inr (rs, i, coalesced)\<close> the array, the index it stopped at and the count.
\<close>

definition lmb_add_stop :: "u32 \<Rightarrow> u32 \<Rightarrow> lmb_property \<Rightarrow> bool" where
  "lmb_add_stop base sz p \<longleftrightarrow>
     pbase p = base \<and> psize p = sz \<or> lmb_addrs_adjacent base sz (pbase p) (psize p) \<noteq> 0"

definition lmb_add_scan ::
  "lmb_property list \<Rightarrow> nat \<Rightarrow> u32 \<Rightarrow> u32 \<Rightarrow> (unit + (lmb_property list \<times> nat \<times> nat)) option" where
  "lmb_add_scan rs n base sz = do {
     i \<leftarrow> array_find (lmb_add_stop base sz) rs 0 n;
     (if i < n then do {
        p \<leftarrow> arr_get rs i;
        (if pbase p = base \<and> psize p = sz then Some (Inl ())
         else if lmb_addrs_adjacent base sz (pbase p) (psize p) > 0 then do {
           rs' \<leftarrow> arr_set rs i \<lparr>pbase = pbase p - sz, psize = psize p + sz\<rparr>;
           Some (Inr (rs', i, 1))
         } else do {
           rs' \<leftarrow> arr_set rs i \<lparr>pbase = pbase p, psize = psize p + sz\<rparr>;
           Some (Inr (rs', i, 1))
         })
      } else Some (Inr (rs, i, 0)))
   }"

text \<open>The last loop of \<open>lmb_add_region\<close>, counting \<open>i\<close> down from \<open>cnt - 1\<close> to \<open>0\<close>.\<close>

fun lmb_insert_loop :: "lmb_property list \<Rightarrow> nat \<Rightarrow> u32 \<Rightarrow> u32 \<Rightarrow> lmb_property list option" where
  "lmb_insert_loop rs 0 base sz = Some rs"
| "lmb_insert_loop rs (Suc i) base sz = do {
     p \<leftarrow> arr_get rs i;
     (if base < pbase p then do {
        rs' \<leftarrow> arr_set rs (Suc i) p;
        lmb_insert_loop rs' i base sz
      } else arr_set rs (Suc i) \<lparr>pbase = base, psize = sz\<rparr>)
   }"

text \<open>
  The body of \<open>lmb_add_region\<close> in the three steps of the source: the merge with the next
  region after an extension, the insertion into the sorted table, and the whole function.
\<close>

definition lmb_coalesce_next :: "lmb_region \<Rightarrow> nat \<Rightarrow> nat \<Rightarrow> (lmb_region \<times> nat) option" where
  "lmb_coalesce_next rgn i coalesced =
     (if i < unat (cnt rgn - 1) then do {
        adj \<leftarrow> lmb_regions_adjacent rgn i (i + 1);
        (if adj \<noteq> 0 then do {
           r \<leftarrow> lmb_coalesce_regions rgn i (i + 1);
           Some (r, coalesced + 1)
         } else Some (rgn, coalesced))
      } else Some (rgn, coalesced))"

definition lmb_insert_sorted :: "lmb_region \<Rightarrow> u32 \<Rightarrow> u32 \<Rightarrow> lmb_region option" where
  "lmb_insert_sorted rgn base sz = do {
     rs \<leftarrow> lmb_insert_loop (region rgn) (unat (cnt rgn)) base sz;
     q0 \<leftarrow> arr_get rs 0;
     rs' \<leftarrow> (if base < pbase q0 then arr_set rs 0 \<lparr>pbase = base, psize = sz\<rparr> else Some rs);
     Some (rgn\<lparr>region := rs', cnt := cnt rgn + 1\<rparr>)
   }"

definition lmb_add_region :: "lmb_region \<Rightarrow> u32 \<Rightarrow> u32 \<Rightarrow> (int \<times> lmb_region) option" where
  "lmb_add_region rgn base sz = do {
     r0 \<leftarrow> arr_get (region rgn) 0;
     (if cnt rgn = 1 \<and> psize r0 = 0 then do {
        rs \<leftarrow> arr_set (region rgn) 0 \<lparr>pbase = base, psize = sz\<rparr>;
        Some (0, rgn\<lparr>region := rs\<rparr>)
      } else do {
        scan \<leftarrow> lmb_add_scan (region rgn) (unat (cnt rgn)) base sz;
        (case scan of
           Inl _ \<Rightarrow> Some (0, rgn)
         | Inr (rs, i, coalesced) \<Rightarrow> do {
             (rgn2, coalesced2) \<leftarrow> lmb_coalesce_next (rgn\<lparr>region := rs\<rparr>) i coalesced;
             (if coalesced2 \<noteq> 0 then Some (int coalesced2, rgn2)
              else if MAX_LMB_REGIONS \<le> cnt rgn2 then Some (-1, rgn2)
              else do {
                rgn3 \<leftarrow> lmb_insert_sorted rgn2 base sz;
                Some (0, rgn3)
              })
           })
      })
   }"

definition lmb_add :: "lmb \<Rightarrow> u32 \<Rightarrow> u32 \<Rightarrow> (int \<times> lmb) option" where
  "lmb_add l base sz = do {
     (rc, r) \<leftarrow> lmb_add_region (memory l) base sz;
     Some (rc, l\<lparr>memory := r\<rparr>)
   }"

definition lmb_reserve :: "lmb \<Rightarrow> u32 \<Rightarrow> u32 \<Rightarrow> (int \<times> lmb) option" where
  "lmb_reserve l base sz = do {
     (rc, r) \<leftarrow> lmb_add_region (reserved l) base sz;
     Some (rc, l\<lparr>reserved := r\<rparr>)
   }"

text \<open>The search loop of \<open>lmb_free\<close>: the index where it stops (\<open>n\<close> when nothing was found).\<close>

definition lmb_free_find :: "lmb_property list \<Rightarrow> nat \<Rightarrow> u32 \<Rightarrow> u32 \<Rightarrow> nat option" where
  "lmb_free_find rs n base end_addr =
     array_find (\<lambda>p. pbase p \<le> base \<and> end_addr \<le> pbase p + psize p) rs 0 n"

definition lmb_free_region :: "lmb_region \<Rightarrow> u32 \<Rightarrow> u32 \<Rightarrow> (int \<times> lmb_region) option" where
  "lmb_free_region rgn base sz = do {
     let end_addr = base + sz;
     i \<leftarrow> lmb_free_find (region rgn) (unat (cnt rgn)) base end_addr;
     (if i = unat (cnt rgn) then Some (-1, rgn)
      else do {
        p \<leftarrow> arr_get (region rgn) i;
        let rgnbegin = pbase p;
        let rgnend = rgnbegin + psize p;
        (if rgnbegin = base \<and> rgnend = end_addr then do {
           r \<leftarrow> lmb_remove_region rgn i;
           Some (0, r)
         } else if rgnbegin = base then do {
           rs \<leftarrow> arr_set (region rgn) i \<lparr>pbase = end_addr, psize = psize p - sz\<rparr>;
           Some (0, rgn\<lparr>region := rs\<rparr>)
         } else if rgnend = end_addr then do {
           rs \<leftarrow> arr_set (region rgn) i \<lparr>pbase = rgnbegin, psize = psize p - sz\<rparr>;
           Some (0, rgn\<lparr>region := rs\<rparr>)
         } else do {
           rs \<leftarrow> arr_set (region rgn) i \<lparr>pbase = rgnbegin, psize = base - rgnbegin\<rparr>;
           lmb_add_region (rgn\<lparr>region := rs\<rparr>) end_addr (rgnend - end_addr)
         })
      })
   }"

definition lmb_free :: "lmb \<Rightarrow> u32 \<Rightarrow> u32 \<Rightarrow> (int \<times> lmb) option" where
  "lmb_free l base sz = do {
     (rc, r) \<leftarrow> lmb_free_region (reserved l) base sz;
     Some (rc, l\<lparr>reserved := r\<rparr>)
   }"

definition lmb_overlaps_region :: "lmb_region \<Rightarrow> u32 \<Rightarrow> u32 \<Rightarrow> int option" where
  "lmb_overlaps_region rgn base sz = do {
     i \<leftarrow> array_find (\<lambda>p. lmb_addrs_overlap base sz (pbase p) (psize p))
           (region rgn) 0 (unat (cnt rgn));
     Some (if i < unat (cnt rgn) then int i else -1)
   }"

definition lmb_align_down :: "u32 \<Rightarrow> u32 \<Rightarrow> u32" where
  "lmb_align_down addr sz = addr AND NOT (sz - 1)"

definition lmb_align_up :: "u32 \<Rightarrow> u32 \<Rightarrow> u32" where
  "lmb_align_up addr sz = (addr + (sz - 1)) AND NOT (sz - 1)"

lemma lmb_align_down_le: "lmb_align_down a s \<le> a"
  by (simp add: lmb_align_down_def word_and_le2)

lemma lmb_overlap_below:
  assumes "lmb_addrs_overlap base sz rbase rsz" and "\<not> rbase < sz"
  shows "unat (lmb_align_down (rbase - sz) al) < unat base"
proof -
  have "unat rbase < unat (base + sz)"
    using assms(1) by (simp add: lmb_addrs_overlap_def word_less_nat_alt)
  also have "\<dots> \<le> unat base + unat sz"
    by (simp add: unat_word_ariths)
  finally have "unat rbase < unat base + unat sz" .
  moreover have "unat sz \<le> unat rbase"
    using assms(2) by (simp add: word_less_nat_alt)
  moreover have "unat (lmb_align_down (rbase - sz) al) \<le> unat (rbase - sz)"
    using lmb_align_down_le by (simp add: word_le_nat_alt)
  ultimately show ?thesis
    by (simp add: unat_minus_nowrap)
qed

text \<open>
  The inner loop of \<open>__lmb_alloc_base\<close>: \<open>Some None\<close> when the loop ends without a result and
  the next memory region is tried, \<open>Some (Some (ret, reserved))\<close> when the function returns.
  Each round tries a strictly lower address, so the loop ends on every input.
\<close>

function lmb_alloc_try ::
  "lmb_region \<Rightarrow> u32 \<Rightarrow> u32 \<Rightarrow> u32 \<Rightarrow> u32 \<Rightarrow> (u32 \<times> lmb_region) option option" where
  "lmb_alloc_try res lmbbase base sz align =
     (if base \<noteq> 0 \<and> lmbbase \<le> base then
        (case lmb_overlaps_region res base sz of
           None \<Rightarrow> None
         | Some j \<Rightarrow>
             (if j < 0 then
                (case lmb_add_region res base (lmb_align_up sz align) of
                   None \<Rightarrow> None
                 | Some (rc, res') \<Rightarrow> Some (Some (if rc < 0 then 0 else base, res')))
              else
                (case arr_get (region res) (nat j) of
                   None \<Rightarrow> None
                 | Some p \<Rightarrow>
                     (if pbase p < sz then Some None
                      else lmb_alloc_try res lmbbase (lmb_align_down (pbase p - sz) align) sz align))))
      else Some None)"
  by pat_completeness auto
termination
proof (relation "measure (\<lambda>(res, lmbbase, base, sz, align). unat base)", goal_cases)
  case 1
  show ?case by simp
next
  case (2 res lmbbase base sz align j p)
  then obtain i where i: "array_find (\<lambda>p. lmb_addrs_overlap base sz (pbase p) (psize p))
      (region res) 0 (unat (cnt res)) = Some i"
    and j: "j = (if i < unat (cnt res) then int i else -1)"
    by (auto simp: lmb_overlaps_region_def split: bind_splits)
  with 2 have "i < unat (cnt res)" "nat j = i" by (auto split: if_splits)
  with array_find_hit[OF i] 2 have "lmb_addrs_overlap base sz (pbase p) (psize p)"
    by (auto simp: arr_get_def split: if_splits)
  with 2 show ?case by (simp add: lmb_overlap_below)
qed

declare lmb_alloc_try.simps [simp del]

text \<open>The outer loop of \<open>__lmb_alloc_base\<close>, from the last memory region down to the first.\<close>

fun lmb_alloc_loop ::
  "lmb_region \<Rightarrow> lmb_region \<Rightarrow> nat \<Rightarrow> u32 \<Rightarrow> u32 \<Rightarrow> u32 \<Rightarrow> (u32 \<times> lmb_region) option" where
  "lmb_alloc_loop mem res 0 sz align max_addr = Some (0, res)"
| "lmb_alloc_loop mem res (Suc i) sz align max_addr = do {
     p \<leftarrow> arr_get (region mem) i;
     let lmbbase = pbase p;
     let lmbsize = psize p;
     (if lmbsize < sz then lmb_alloc_loop mem res i sz align max_addr
      else if max_addr \<noteq> 0 \<and> \<not> lmbbase < max_addr then
        lmb_alloc_loop mem res i sz align max_addr
      else do {
        let base =
          (if max_addr = 0 then lmb_align_down (lmbbase + lmbsize - sz) align
           else let e = lmbbase + lmbsize;
                    e1 = (if e < lmbbase then -1 else e);
                    e2 = min e1 max_addr
                in lmb_align_down (e2 - sz) align);
        r \<leftarrow> lmb_alloc_try res lmbbase base sz align;
        (case r of
           Some ret \<Rightarrow> Some ret
         | None \<Rightarrow> lmb_alloc_loop mem res i sz align max_addr)
      })
   }"

definition lmb_alloc_base_raw :: "lmb \<Rightarrow> u32 \<Rightarrow> u32 \<Rightarrow> u32 \<Rightarrow> (u32 \<times> lmb) option" where
  "lmb_alloc_base_raw l sz align max_addr = do {
     (ret, res) \<leftarrow> lmb_alloc_loop (memory l) (reserved l) (unat (cnt (memory l))) sz align max_addr;
     Some (ret, l\<lparr>reserved := res\<rparr>)
   }"

text \<open>\<open>lmb_alloc_base\<close> only adds an error message to \<open>__lmb_alloc_base\<close>.\<close>

definition lmb_alloc_base :: "lmb \<Rightarrow> u32 \<Rightarrow> u32 \<Rightarrow> u32 \<Rightarrow> (u32 \<times> lmb) option" where
  "lmb_alloc_base l sz align max_addr = lmb_alloc_base_raw l sz align max_addr"

definition LMB_ALLOC_ANYWHERE :: u32 where
  "LMB_ALLOC_ANYWHERE = 0"

definition lmb_alloc :: "lmb \<Rightarrow> u32 \<Rightarrow> u32 \<Rightarrow> (u32 \<times> lmb) option" where
  "lmb_alloc l sz align = lmb_alloc_base l sz align LMB_ALLOC_ANYWHERE"

definition lmb_is_reserved :: "lmb \<Rightarrow> u32 \<Rightarrow> int option" where
  "lmb_is_reserved l addr = do {
     i \<leftarrow> array_find (\<lambda>p. pbase p \<le> addr \<and> addr \<le> pbase p + psize p - 1)
           (region (reserved l)) 0 (unat (cnt (reserved l)));
     Some (if i < unat (cnt (reserved l)) then 1 else 0)
   }"

section \<open>Regions as address sets\<close>

abbreviation pb :: "lmb_property \<Rightarrow> nat" where
  "pb p \<equiv> unat (pbase p)"

abbreviation pe :: "lmb_property \<Rightarrow> nat" where
  "pe p \<equiv> unat (pbase p) + unat (psize p)"

definition addrs :: "lmb_property list \<Rightarrow> nat set" where
  "addrs ps = (\<Union>p\<in>set ps. {pb p..<pe p})"

definition valid_prop :: "lmb_property \<Rightarrow> bool" where
  "valid_prop p \<longleftrightarrow> psize p \<noteq> 0 \<and> pe p < 2 ^ 32"

definition valid_list :: "lmb_property list \<Rightarrow> bool" where
  "valid_list ps \<longleftrightarrow> sorted_wrt (\<lambda>p q. pe p \<le> pb q) ps \<and> (\<forall>p\<in>set ps. valid_prop p)"

definition fresh_region :: "lmb_region \<Rightarrow> bool" where
  "fresh_region rgn \<longleftrightarrow> cnt rgn = 1 \<and> psize (region rgn ! 0) = 0"

definition live :: "lmb_region \<Rightarrow> lmb_property list" where
  "live rgn = (if fresh_region rgn then [] else take (unat (cnt rgn)) (region rgn))"

definition lmb_region_inv :: "lmb_region \<Rightarrow> bool" where
  "lmb_region_inv rgn \<longleftrightarrow>
     length (region rgn) = 9 \<and> 1 \<le> unat (cnt rgn) \<and> unat (cnt rgn) \<le> 8 \<and> valid_list (live rgn)"

lemma addrs_simps [simp]:
  "addrs [] = {}" "addrs (p # ps) = {pb p..<pe p} \<union> addrs ps" "addrs (ps @ qs) = addrs ps \<union> addrs qs"
  by (auto simp: addrs_def)

lemma valid_prop_size: "valid_prop p \<Longrightarrow> pb p < pe p"
  by (simp add: valid_prop_def unat_gt_0)

lemma valid_prop_end: "valid_prop p \<Longrightarrow> unat (pbase p + psize p) = pe p"
  by (simp add: valid_prop_def nowrap)

lemma valid_list_simps [simp]:
  "valid_list []"
  "valid_list (p # ps) \<longleftrightarrow> valid_prop p \<and> (\<forall>q\<in>set ps. pe p \<le> pb q) \<and> valid_list ps"
  "valid_list (ps @ qs) \<longleftrightarrow> valid_list ps \<and> valid_list qs \<and> (\<forall>p\<in>set ps. \<forall>q\<in>set qs. pe p \<le> pb q)"
  by (auto simp: valid_list_def sorted_wrt_append)

lemma valid_list_props: "valid_list ps \<Longrightarrow> p \<in> set ps \<Longrightarrow> valid_prop p"
  by (simp add: valid_list_def)

lemma disjoint_side:
  assumes "valid_prop p" and "0 < s" and "{pb p..<pe p} \<inter> {b..<b + s} = {}"
  shows "pe p \<le> b \<or> b + s \<le> pb p"
proof (rule ccontr)
  assume "\<not> ?thesis"
  then have "max (pb p) b \<in> {pb p..<pe p} \<inter> {b..<b + s}"
    using valid_prop_size[OF assms(1)] assms(2) by auto
  with assms(3) show False by blast
qed

lemma addrs_sub: "q \<in> set ps \<Longrightarrow> {pb q..<pe q} \<subseteq> addrs ps"
  by (auto simp: addrs_def)

lemma disjoint_sides:
  assumes "valid_list ps" and "valid_prop p" and "addrs ps \<inter> {pb p..<pe p} = {}" and "q \<in> set ps"
  shows "pe q \<le> pb p \<or> pe p \<le> pb q"
proof -
  have "{pb q..<pe q} \<inter> {pb p..<pe p} = {}"
    using addrs_sub[OF assms(4)] assms(3) by blast
  then show ?thesis
    using disjoint_side[of q "unat (psize p)" "pb p"] valid_list_props[OF assms(1,4)]
      valid_prop_size[OF assms(2)] by auto
qed

text \<open>
  Three list-level facts carry the proofs: a disjoint region can be inserted at its place, a
  region can be extended to swallow an adjacent new one, and two adjacent neighbours can be
  merged.
\<close>

lemma valid_insert:
  assumes "valid_list (xs @ ys)" and "valid_prop p"
    and "addrs (xs @ ys) \<inter> {pb p..<pe p} = {}"
    and "\<forall>x\<in>set xs. pb x \<le> pb p" and "\<forall>y\<in>set ys. pb p < pb y"
  shows "valid_list (xs @ p # ys)"
proof -
  note sides = disjoint_sides[OF assms(1-3)]
  have "pe x \<le> pb p" if "x \<in> set xs" for x
    using sides[of x] that assms(4) valid_prop_size[OF assms(2)] by fastforce
  moreover have "pe p \<le> pb y" if "y \<in> set ys" for y
    using sides[of y] that assms(5) valid_list_props[OF assms(1), of y] by (force dest: valid_prop_size)
  ultimately show ?thesis
    using assms(1,2) by auto
qed

lemma valid_extend:
  assumes "valid_list (xs @ q # ys)" and "valid_prop p"
    and "addrs (xs @ q # ys) \<inter> {pb p..<pe p} = {}"
    and q': "pb q' = min (pb q) (pb p)" "pe q' = max (pe q) (pe p)"
    and adj: "pe p = pb q \<or> pe q = pb p"
  shows "valid_list (xs @ q' # ys) \<and> addrs (xs @ q' # ys) = addrs (xs @ q # ys) \<union> {pb p..<pe p}"
proof -
  have q: "valid_prop q" using assms(1) by simp
  note sides = disjoint_sides[OF assms(1-3)]
  have "pe x \<le> pb q'" if "x \<in> set xs" for x
    using sides[of x] that assms(1) adj q' valid_prop_size[OF q] valid_prop_size[OF assms(2)]
      valid_list_props[OF assms(1), of x] by (fastforce dest: valid_prop_size)
  moreover have "pe q' \<le> pb y" if "y \<in> set ys" for y
    using sides[of y] that assms(1) adj q' valid_prop_size[OF q] valid_prop_size[OF assms(2)]
      valid_list_props[OF assms(1), of y] by (fastforce dest: valid_prop_size)
  moreover have "valid_prop q'"
    using q assms(2) q' by (auto simp: valid_prop_def unat_eq_zero[symmetric] simp del: unat_eq_zero)
  moreover have "{pb q'..<pe q'} = {pb q..<pe q} \<union> {pb p..<pe p}"
    using adj q' valid_prop_size[OF q] valid_prop_size[OF assms(2)] by auto
  ultimately show ?thesis
    using assms(1) by auto
qed

lemma valid_merge:
  assumes "valid_list (xs @ p # q # ys)" and "pe p = pb q"
    and "pb r = pb p" "pe r = pe q"
  shows "valid_list (xs @ r # ys) \<and> addrs (xs @ r # ys) = addrs (xs @ p # q # ys)"
proof -
  have pq: "valid_prop p" "valid_prop q" using assms(1) by auto
  then have "{pb r..<pe r} = {pb p..<pe p} \<union> {pb q..<pe q}"
    using assms(2-) valid_prop_size[of p] valid_prop_size[of q] by auto
  moreover have "valid_prop r"
    using pq assms(2-) valid_prop_size[of p]
    by (auto simp: valid_prop_def unat_eq_zero[symmetric] simp del: unat_eq_zero)
  ultimately show ?thesis
    using assms by auto
qed

section \<open>The array operations on lists\<close>

lemma lmb_remove_loop_append:
  "lmb_remove_loop (xs @ p # ys @ zs) (length xs) (length xs + length ys) =
     Some (xs @ ys @ last (p # ys) # zs)"
proof (induction ys arbitrary: xs p)
  case Nil
  then show ?case by (simp add: lmb_remove_loop.simps)
next
  case (Cons y ys)
  from Cons.IH[of "xs @ [y]" y] show ?case
    by (subst lmb_remove_loop.simps) (simp add: nth_append)
qed

lemma lmb_remove_region_append:
  assumes "region rgn = xs @ p # ys @ zs" and "unat (cnt rgn) = length xs + Suc (length ys)"
  shows "\<exists>rgn'. lmb_remove_region rgn (length xs) = Some rgn' \<and> cnt rgn' = cnt rgn - 1 \<and>
     region rgn' = xs @ ys @ last (p # ys) # zs \<and> rsize rgn' = rsize rgn"
proof -
  have "unat (cnt rgn - 1) = length xs + length ys"
    using assms(2) by (simp add: unat_minus_nowrap)
  then show ?thesis
    using lmb_remove_loop_append[of xs p ys zs] assms(1) by (simp add: lmb_remove_region_def)
qed

lemma lmb_coalesce_regions_append:
  assumes "region rgn = xs @ p # q # ys @ zs" and "unat (cnt rgn) = length xs + 2 + length ys"
  shows "\<exists>rgn' w. lmb_coalesce_regions rgn (length xs) (length xs + 1) = Some rgn' \<and>
     cnt rgn' = cnt rgn - 1 \<and>
     region rgn' = xs @ p\<lparr>psize := psize p + psize q\<rparr> # ys @ w # zs \<and> rsize rgn' = rsize rgn"
  using lmb_remove_region_append[of
      "rgn\<lparr>region := (xs @ [p\<lparr>psize := psize p + psize q\<rparr>]) @ q # ys @ zs\<rparr>"
      "xs @ [p\<lparr>psize := psize p + psize q\<rparr>]" q ys zs] assms
  by (auto simp: lmb_coalesce_regions_def nth_append)

lemma lmb_insert_loop_append:
  assumes "\<forall>y\<in>set ys. b < pbase y" and "xs \<noteq> [] \<Longrightarrow> \<not> b < pbase (last xs)"
  shows "lmb_insert_loop (xs @ ys @ z # zs) (length xs + length ys) b s =
     Some (if xs = [] then hd (ys @ [z]) # ys @ zs else xs @ \<lparr>pbase = b, psize = s\<rparr> # ys @ zs)"
  using assms
proof (induction ys arbitrary: z zs rule: rev_induct)
  case Nil
  show ?case
  proof (cases xs rule: rev_cases)
    case (snoc us u)
    with Nil show ?thesis by (simp add: nth_append list_update_append)
  qed simp
next
  case (snoc y ys)
  from snoc.prems snoc.IH[of y "y # zs"] show ?case
    by (cases ys) (simp_all add: nth_append list_update_append)
qed

lemma lmb_insert_sorted_append:
  assumes "region rgn = xs @ ys @ z # zs" and "unat (cnt rgn) = length xs + length ys"
    and "\<forall>y\<in>set ys. b < pbase y" and "\<forall>x\<in>set xs. \<not> b < pbase x" and "xs @ ys \<noteq> []"
  shows "lmb_insert_sorted rgn b s =
     Some (rgn\<lparr>region := xs @ \<lparr>pbase = b, psize = s\<rparr> # ys @ zs, cnt := cnt rgn + 1\<rparr>)"
proof (cases xs)
  case Nil
  with assms lmb_insert_loop_append[of ys b "[]" z zs s] show ?thesis
    by (cases ys) (auto simp: lmb_insert_sorted_def)
next
  case (Cons x us)
  with assms lmb_insert_loop_append[OF assms(3), of xs z zs s] show ?thesis
    by (simp add: lmb_insert_sorted_def)
qed

section \<open>Adding a region\<close>

lemma lmb_adjacent_iff:
  assumes "valid_prop p" and "valid_prop q"
  shows "lmb_addrs_adjacent (pbase p) (psize p) (pbase q) (psize q) =
     (if pb q = pe p then 1 else if pb p = pe q then -1 else 0)"
  using valid_prop_end[OF assms(1)] valid_prop_end[OF assms(2)]
  by (auto simp: lmb_addrs_adjacent_def word_unat_eq_iff)

lemma live_append:
  assumes "lmb_region_inv rgn" and "\<not> fresh_region rgn"
  obtains z zs where "region rgn = live rgn @ z # zs" and "length (live rgn) = unat (cnt rgn)"
    and "live rgn \<noteq> []"
proof -
  have "region rgn = live rgn @ drop (unat (cnt rgn)) (region rgn)"
    using assms by (simp add: live_def)
  moreover have "drop (unat (cnt rgn)) (region rgn) \<noteq> []"
    using assms(1) by (simp add: lmb_region_inv_def)
  then obtain z zs where "drop (unat (cnt rgn)) (region rgn) = z # zs"
    by (meson neq_Nil_conv)
  moreover have "length (live rgn) = unat (cnt rgn)"
    using assms by (simp add: live_def lmb_region_inv_def)
  moreover have "live rgn \<noteq> []"
    using calculation(3) assms(1) by (auto simp: lmb_region_inv_def)
  ultimately show ?thesis using that by metis
qed

lemma region_invI:
  assumes "region rgn = ps @ zs" and "length (region rgn) = 9" and "unat (cnt rgn) = length ps"
    and "ps \<noteq> []" and "length ps \<le> 8" and "valid_list ps"
  shows "lmb_region_inv rgn \<and> live rgn = ps"
proof -
  have "psize (hd ps) \<noteq> 0"
    using assms(4,6) by (cases ps) (auto simp: valid_prop_def)
  then have "\<not> fresh_region rgn"
    using assms(1,4) by (cases ps) (auto simp: fresh_region_def)
  then have "live rgn = ps"
    using assms(1,3) by (simp add: live_def)
  with assms show ?thesis
    by (simp add: lmb_region_inv_def Suc_le_eq)
qed

text \<open>The four ways through \<open>lmb_add_region\<close>.\<close>

lemma lmb_add_region_fresh:
  assumes "lmb_region_inv rgn" and "fresh_region rgn" and "valid_prop \<lparr>pbase = b, psize = s\<rparr>"
  shows "\<exists>rgn'. lmb_add_region rgn b s = Some (0, rgn') \<and> lmb_region_inv rgn' \<and>
     live rgn' = [\<lparr>pbase = b, psize = s\<rparr>]"
proof -
  obtain r rs where r: "region rgn = r # rs"
    using assms(1) by (cases "region rgn") (auto simp: lmb_region_inv_def)
  have "lmb_add_region rgn b s = Some (0, rgn\<lparr>region := \<lparr>pbase = b, psize = s\<rparr> # rs\<rparr>)"
    using assms(2) r by (simp add: lmb_add_region_def fresh_region_def)
  moreover have "lmb_region_inv (rgn\<lparr>region := \<lparr>pbase = b, psize = s\<rparr> # rs\<rparr>) \<and>
      live (rgn\<lparr>region := \<lparr>pbase = b, psize = s\<rparr> # rs\<rparr>) = [\<lparr>pbase = b, psize = s\<rparr>]"
    using assms r by (intro region_invI[where zs = rs]) (auto simp: fresh_region_def lmb_region_inv_def)
  ultimately show ?thesis by blast
qed

lemma lmb_scan_nohit:
  assumes "n \<le> length rs" and "\<forall>p\<in>set (take n rs). \<not> lmb_add_stop b s p"
  shows "lmb_add_scan rs n b s = Some (Inr (rs, n, 0))"
proof -
  have "array_find (lmb_add_stop b s) rs 0 n = Some n"
    using assms by (intro array_find_eq) (auto simp: set_conv_nth)
  then show ?thesis by (simp add: lmb_add_scan_def)
qed

lemma lmb_add_region_insert:
  assumes inv: "lmb_region_inv rgn" and nf: "\<not> fresh_region rgn"
    and p: "p = \<lparr>pbase = b, psize = s\<rparr>" "valid_prop p" "addrs (live rgn) \<inter> {pb p..<pe p} = {}"
    and nohit: "\<forall>q\<in>set (live rgn). \<not> lmb_add_stop b s q"
  shows "if length (live rgn) = 8 then lmb_add_region rgn b s = Some (-1, rgn)
     else \<exists>rgn'. lmb_add_region rgn b s = Some (0, rgn') \<and> lmb_region_inv rgn' \<and>
       addrs (live rgn') = addrs (live rgn) \<union> {pb p..<pe p}"
proof -
  obtain z zs where rs: "region rgn = live rgn @ z # zs" and len: "length (live rgn) = unat (cnt rgn)"
    and ne: "live rgn \<noteq> []"
    using live_append[OF inv nf] .
  define xs where "xs = takeWhile (\<lambda>q. pbase q \<le> b) (live rgn)"
  define ys where "ys = dropWhile (\<lambda>q. pbase q \<le> b) (live rgn)"
  have xy: "live rgn = xs @ ys" by (simp add: xs_def ys_def)
  have val: "valid_list (xs @ ys)" using inv xy by (simp add: lmb_region_inv_def)
  have xs: "\<forall>x\<in>set xs. pb x \<le> pb p"
    using p(1) by (auto simp: xs_def word_le_nat_alt dest: set_takeWhileD)
  have ys: "pb p < pb y" if y: "y \<in> set ys" for y
  proof -
    obtain h ts where h: "ys = h # ts" using y by (cases ys) auto
    then have "\<not> pbase h \<le> b" unfolding ys_def by (metis dropWhile_eq_Cons_conv)
    then have "pb p < pb h" using p(1) by (simp add: word_le_nat_alt)
    then show ?thesis using y val h valid_prop_size[of h] by auto
  qed
  have scan: "lmb_add_scan (region rgn) (unat (cnt rgn)) b s = Some (Inr (region rgn, unat (cnt rgn), 0))"
    using rs len nohit by (intro lmb_scan_nohit) (auto simp flip: len)
  have c1: "unat (cnt rgn - 1) < unat (cnt rgn)"
  proof -
    have "1 \<le> unat (cnt rgn)" using inv by (simp add: lmb_region_inv_def)
    then show ?thesis by (simp add: unat_minus_nowrap)
  qed
  have max: "MAX_LMB_REGIONS \<le> cnt rgn \<longleftrightarrow> 8 \<le> length (live rgn)"
    by (simp add: MAX_LMB_REGIONS_def word_le_nat_alt len)
  have first: "\<not> (cnt rgn = 1 \<and> psize (hd (live rgn)) = 0)"
    using nf rs ne by (cases "live rgn") (auto simp: fresh_region_def)
  have hd0: "arr_get (region rgn) 0 = Some (hd (live rgn))"
    using rs ne by (cases "live rgn") auto
  note unfold = lmb_add_region_def lmb_coalesce_next_def hd0 scan
  show ?thesis
  proof (cases "length (live rgn) = 8")
    case True
    then show ?thesis
      using first c1 max by (auto simp: unfold)
  next
    case False
    then have lt: "length (live rgn) < 8" using inv len by (simp add: lmb_region_inv_def)
    have "\<forall>y\<in>set ys. b < pbase y" "\<forall>x\<in>set xs. \<not> b < pbase x"
      using xs ys p(1) by (auto simp: word_less_nat_alt)
    then have ins: "lmb_insert_sorted rgn b s =
        Some (rgn\<lparr>region := xs @ p # ys @ zs, cnt := cnt rgn + 1\<rparr>)"
      using rs len xy ne by (simp add: lmb_insert_sorted_append p(1))
    define rgn' where "rgn' = rgn\<lparr>region := xs @ p # ys @ zs, cnt := cnt rgn + 1\<rparr>"
    have "lmb_add_region rgn b s = Some (0, rgn')"
      using first c1 max lt ins by (auto simp: unfold rgn'_def)
    moreover have "unat (cnt rgn + 1) = Suc (unat (cnt rgn))"
      using lt len by (simp add: nowrap)
    then have "lmb_region_inv rgn' \<and> live rgn' = xs @ p # ys"
      using inv rs len xy lt val p xs ys
      by (intro region_invI[where zs = zs] valid_insert)
        (auto simp: rgn'_def lmb_region_inv_def)
    ultimately show ?thesis
      using False xy by auto
  qed
qed

lemma lmb_merge_next:
  assumes "region rgn = xs @ q # ys @ z # zs" and "length (region rgn) = 9"
    and "unat (cnt rgn) = length (xs @ q # ys)" and "length (xs @ q # ys) \<le> 8"
    and "valid_list (xs @ q # ys)"
  shows "\<exists>rgn' k. lmb_coalesce_next rgn (length xs) c = Some (rgn', c + k) \<and> k \<le> 1 \<and>
     lmb_region_inv rgn' \<and> addrs (live rgn') = addrs (xs @ q # ys)"
proof (cases "\<exists>y ts. ys = y # ts \<and> pe q = pb y")
  case False
  have "lmb_region_inv rgn \<and> live rgn = xs @ q # ys"
    using assms by (intro region_invI[where zs = "z # zs"]) auto
  moreover have "\<exists>y ts. ys = y # ts \<and> lmb_regions_adjacent rgn (length xs) (length xs + 1) = Some 0"
    if more: "length xs < unat (cnt rgn - 1)"
  proof -
    obtain y ts where y: "ys = y # ts"
      using more assms(3) by (cases ys) (auto simp: unat_minus_nowrap)
    then have v: "valid_prop q" "valid_prop y" "pe q \<le> pb y" using assms(5) by auto
    then have "pb y \<noteq> pe q \<and> pb q \<noteq> pe y"
      using False y valid_prop_size[of y] valid_prop_size[of q] by auto
    with v y assms(1) show ?thesis
      by (simp add: lmb_regions_adjacent_def lmb_adjacent_iff nth_append)
  qed
  ultimately show ?thesis
    by (intro exI[of _ rgn] exI[of _ 0]) (auto simp: lmb_coalesce_next_def)
next
  case True
  then obtain y ts where y: "ys = y # ts" and adj: "pe q = pb y" by blast
  then have v: "valid_prop q" "valid_prop y" using assms(5) by auto
  define m where "m = q\<lparr>psize := psize q + psize y\<rparr>"
  obtain rgn' w where co: "lmb_coalesce_regions rgn (length xs) (length xs + 1) = Some rgn'"
    and cnt': "cnt rgn' = cnt rgn - 1" and reg': "region rgn' = xs @ m # ts @ w # z # zs"
    using lmb_coalesce_regions_append[of rgn xs q y ts "z # zs"] assms(1,3) y by (auto simp: m_def)
  have ad: "lmb_regions_adjacent rgn (length xs) (length xs + 1) = Some 1"
    using v y adj assms(1) by (simp add: lmb_regions_adjacent_def lmb_adjacent_iff nth_append)
  have cm: "unat (cnt rgn - 1) = length xs + Suc (length ts)"
    using assms(3) y by (simp add: unat_minus_nowrap)
  have "pb m = pb q" "pe m = pe y"
    using adj v by (auto simp: m_def valid_prop_def nowrap)
  then have mrg: "valid_list (xs @ m # ts) \<and> addrs (xs @ m # ts) = addrs (xs @ q # ys)"
    using valid_merge[of xs q y ts m] assms(5) adj y by simp
  then have "lmb_region_inv rgn' \<and> live rgn' = xs @ m # ts"
    using reg' cnt' cm assms(1,2,4) y
    by (intro region_invI[where zs = "w # z # zs"]) auto
  with mrg co ad cm show ?thesis
    by (intro exI[of _ rgn'] exI[of _ 1]) (auto simp: lmb_coalesce_next_def)
qed

lemma lmb_scan_hit:
  assumes "rs = xs @ q # ys" and "length xs < n" and "n \<le> length rs"
    and "\<forall>x\<in>set xs. \<not> lmb_add_stop b s x" and "lmb_add_stop b s q" and "\<not> (pbase q = b \<and> psize q = s)"
  shows "lmb_add_scan rs n b s = Some (Inr (xs @
     (if lmb_addrs_adjacent b s (pbase q) (psize q) > 0
      then \<lparr>pbase = pbase q - s, psize = psize q + s\<rparr>
      else \<lparr>pbase = pbase q, psize = psize q + s\<rparr>) # ys, length xs, 1))"
proof -
  have "array_find (lmb_add_stop b s) rs 0 n = Some (length xs)"
    using assms by (intro array_find_eq) (auto simp: nth_append)
  then show ?thesis
    using assms by (auto simp: lmb_add_scan_def)
qed

lemma lmb_add_region_extend:
  assumes inv: "lmb_region_inv rgn" and nf: "\<not> fresh_region rgn"
    and p: "p = \<lparr>pbase = b, psize = s\<rparr>" "valid_prop p" "addrs (live rgn) \<inter> {pb p..<pe p} = {}"
    and hit: "q0 \<in> set (live rgn)" "lmb_add_stop b s q0"
  shows "\<exists>rc rgn'. lmb_add_region rgn b s = Some (rc, rgn') \<and> 0 < rc \<and> lmb_region_inv rgn' \<and>
     addrs (live rgn') = addrs (live rgn) \<union> {pb p..<pe p}"
proof -
  obtain z zs where rs: "region rgn = live rgn @ z # zs" and len: "length (live rgn) = unat (cnt rgn)"
    and ne: "live rgn \<noteq> []"
    using live_append[OF inv nf] .
  obtain xs q ys where xy: "live rgn = xs @ q # ys" and q: "lmb_add_stop b s q"
    and xs: "\<forall>x\<in>set xs. \<not> lmb_add_stop b s x"
    using split_list_first_prop[of "live rgn" "lmb_add_stop b s"] hit by blast
  have val: "valid_list (xs @ q # ys)" using inv xy by (simp add: lmb_region_inv_def)
  then have vq: "valid_prop q" by simp
  have ndup: "\<not> (pbase q = b \<and> psize q = s)"
    using disjoint_sides[OF val p(2) p(3)[unfolded xy], of q] valid_prop_size[OF vq] p(1) by auto
  have "lmb_addrs_adjacent b s (pbase q) (psize q) \<noteq> 0"
    using q ndup by (auto simp: lmb_add_stop_def)
  then have adj: "pe p = pb q \<or> pe q = pb p"
    "lmb_addrs_adjacent b s (pbase q) (psize q) > 0 \<longleftrightarrow> pe p = pb q"
    using lmb_adjacent_iff[OF p(2) vq] p(1) by (auto split: if_splits)
  define q' where "q' = (if lmb_addrs_adjacent b s (pbase q) (psize q) > 0
      then \<lparr>pbase = pbase q - s, psize = psize q + s\<rparr>
      else \<lparr>pbase = pbase q, psize = psize q + s\<rparr>)"
  have q': "pb q' = min (pb q) (pb p)" "pe q' = max (pe q) (pe p)"
  proof -
    have "unat (psize q + s) = unat (psize q) + unat s"
      using adj(1) p(1,2) vq by (auto simp: valid_prop_def nowrap)
    moreover have "pe p = pb q \<Longrightarrow> unat (pbase q - s) = unat b"
      using p(1) by (subst unat_minus_nowrap) auto
    ultimately show "pb q' = min (pb q) (pb p)" "pe q' = max (pe q) (pe p)"
      using adj p(1) by (auto simp: q'_def)
  qed
  note ext = valid_extend[OF val p(2) p(3)[unfolded xy] q' adj(1)]
  define rgn1 where "rgn1 = rgn\<lparr>region := xs @ q' # ys @ z # zs\<rparr>"
  have scan: "lmb_add_scan (region rgn) (unat (cnt rgn)) b s =
      Some (Inr (region rgn1, length xs, 1))"
    using lmb_scan_hit[of "region rgn" xs q "ys @ z # zs" "unat (cnt rgn)" b s] rs xy xs q ndup len
    by (simp add: rgn1_def q'_def)
  obtain rgn' k where nxt: "lmb_coalesce_next rgn1 (length xs) 1 = Some (rgn', 1 + k)" and "k \<le> 1"
    and inv': "lmb_region_inv rgn'" "addrs (live rgn') = addrs (xs @ q' # ys)"
    using lmb_merge_next[of rgn1 xs q' ys z zs 1] ext inv rs len xy
    by (auto simp: rgn1_def lmb_region_inv_def)
  have first: "\<not> (cnt rgn = 1 \<and> psize (hd (live rgn)) = 0)"
    using nf rs ne by (cases "live rgn") (auto simp: fresh_region_def)
  have hd0: "arr_get (region rgn) 0 = Some (hd (live rgn))"
    using rs ne by (cases "live rgn") auto
  have "lmb_add_region rgn b s = Some (int (1 + k), rgn')"
    using first nxt by (auto simp: lmb_add_region_def hd0 scan rgn1_def)
  with inv' ext xy show ?thesis by auto
qed

text \<open>Adding a region that is disjoint from every live one, in one statement.\<close>

lemma lmb_add_region_disjoint:
  assumes inv: "lmb_region_inv rgn" and s: "s \<noteq> 0" and fits: "unat b + unat s < 2 ^ 32"
    and disj: "addrs (live rgn) \<inter> {unat b..<unat b + unat s} = {}"
  shows "\<exists>rc rgn'. lmb_add_region rgn b s = Some (rc, rgn') \<and> lmb_region_inv rgn' \<and>
     (if rc = -1 then rgn' = rgn \<and> length (live rgn) = 8
      else 0 \<le> rc \<and> addrs (live rgn') = addrs (live rgn) \<union> {unat b..<unat b + unat s})"
proof -
  define p where "p = \<lparr>pbase = b, psize = s\<rparr>"
  have p: "valid_prop p" "addrs (live rgn) \<inter> {pb p..<pe p} = {}"
    using s fits disj by (auto simp: p_def valid_prop_def)
  consider "fresh_region rgn" | "\<not> fresh_region rgn" "\<forall>q\<in>set (live rgn). \<not> lmb_add_stop b s q"
    | q where "\<not> fresh_region rgn" "q \<in> set (live rgn)" "lmb_add_stop b s q"
    by blast
  then show ?thesis
  proof cases
    case 1
    then have "live rgn = []" by (simp add: live_def)
    with lmb_add_region_fresh[OF inv 1 p(1)[unfolded p_def]] show ?thesis by fastforce
  next
    case 2
    note ins = lmb_add_region_insert[OF inv 2(1) p_def p 2(2)]
    show ?thesis
    proof (cases "length (live rgn) = 8")
      case True
      with ins inv show ?thesis by simp
    next
      case False
      with ins obtain rgn' where "lmb_add_region rgn b s = Some (0, rgn')" "lmb_region_inv rgn'"
        "addrs (live rgn') = addrs (live rgn) \<union> {pb p..<pe p}" by auto
      then show ?thesis by (simp add: p_def)
    qed
  next
    case 3
    with lmb_add_region_extend[OF inv 3(1) p_def p 3(2,3)] show ?thesis
      by (fastforce simp: p_def)
  qed
qed

section \<open>No access leaves the table\<close>

text \<open>
  Whatever the arguments, adding to a table with one to eight regions stays inside the array
  and keeps that bound; a failed add changes nothing.
\<close>

definition lmb_bounded :: "lmb_region \<Rightarrow> bool" where
  "lmb_bounded rgn \<longleftrightarrow> length (region rgn) = 9 \<and> 1 \<le> unat (cnt rgn) \<and> unat (cnt rgn) \<le> 8"

lemma lmb_remove_loop_safe:
  assumes "i \<le> n" and "n < length rs"
  shows "\<exists>rs'. lmb_remove_loop rs i n = Some rs' \<and> length rs' = length rs"
  using assms
proof (induction "n - i" arbitrary: rs i)
  case 0
  then show ?case by (simp add: lmb_remove_loop.simps)
next
  case (Suc k)
  then have "\<exists>rs'. lmb_remove_loop (rs[i := rs ! (i + 1)]) (i + 1) n = Some rs' \<and> length rs' = length rs"
    using Suc.hyps(1)[of "i + 1" "rs[i := rs ! (i + 1)]"] by simp
  with Suc show ?case by (simp add: lmb_remove_loop.simps[of rs i n])
qed

lemma lmb_insert_loop_safe:
  "n < length rs \<Longrightarrow> \<exists>rs'. lmb_insert_loop rs n b s = Some rs' \<and> length rs' = length rs"
proof (induction n arbitrary: rs)
  case (Suc n)
  with Suc.IH[of "rs[Suc n := rs ! n]"] show ?case by simp
qed simp

lemma lmb_coalesce_next_safe:
  assumes "lmb_bounded rgn"
  shows "\<exists>rgn' c'. lmb_coalesce_next rgn i c = Some (rgn', c') \<and> lmb_bounded rgn' \<and> (c' = 0 \<longrightarrow> rgn' = rgn)"
proof (cases "i < unat (cnt rgn - 1)")
  case False
  with assms show ?thesis by (simp add: lmb_coalesce_next_def)
next
  case True
  then have lt: "i + 1 < unat (cnt rgn)" "unat (cnt rgn - 1) = unat (cnt rgn) - 1"
    using assms by (auto simp: lmb_bounded_def unat_minus_nowrap)
  then have "i + 1 \<le> unat (cnt rgn - 1)" "unat (cnt rgn - 1) < length (region rgn)"
    using assms by (auto simp: lmb_bounded_def)
  then obtain rs' where "lmb_remove_loop ((region rgn)[i := (region rgn ! i)
        \<lparr>psize := psize (region rgn ! i) + psize (region rgn ! (i + 1))\<rparr>]) (i + 1) (unat (cnt rgn - 1)) = Some rs'"
    "length rs' = length (region rgn)"
    using lmb_remove_loop_safe[of "i + 1" "unat (cnt rgn - 1)" "(region rgn)[i := (region rgn ! i)
        \<lparr>psize := psize (region rgn ! i) + psize (region rgn ! (i + 1))\<rparr>]"]
    by auto
  with lt assms show ?thesis
    by (auto simp: lmb_coalesce_next_def lmb_regions_adjacent_def lmb_coalesce_regions_def
        lmb_remove_region_def lmb_bounded_def)
qed

lemma lmb_add_scan_safe:
  assumes "n \<le> length rs"
  shows "lmb_add_scan rs n b s = Some (Inl ()) \<or>
    (\<exists>rs' i c. lmb_add_scan rs n b s = Some (Inr (rs', i, c)) \<and> length rs' = length rs \<and> (c = 0 \<longrightarrow> rs' = rs))"
proof -
  obtain j where "array_find (lmb_add_stop b s) rs 0 n = Some j" "j \<le> n"
    using array_find_first[of 0 n rs "lmb_add_stop b s"] assms by auto
  with assms show ?thesis
    by (cases "j < n") (auto simp: lmb_add_scan_def)
qed

lemma lmb_insert_sorted_safe:
  assumes "lmb_bounded rgn" and "\<not> MAX_LMB_REGIONS \<le> cnt rgn"
  shows "\<exists>rgn'. lmb_insert_sorted rgn b s = Some rgn' \<and> lmb_bounded rgn'"
proof -
  have lt: "unat (cnt rgn) < 8"
    using assms(2) by (simp add: MAX_LMB_REGIONS_def word_le_nat_alt)
  then obtain rs' where "lmb_insert_loop (region rgn) (unat (cnt rgn)) b s = Some rs'" "length rs' = 9"
    using lmb_insert_loop_safe[of "unat (cnt rgn)" "region rgn" b s] assms(1) by (auto simp: lmb_bounded_def)
  moreover have "unat (cnt rgn + 1) = unat (cnt rgn) + 1"
    using lt by (simp add: nowrap)
  ultimately show ?thesis
    using lt assms(1) by (auto simp: lmb_insert_sorted_def lmb_bounded_def)
qed

lemma lmb_add_region_safe:
  assumes "lmb_bounded rgn"
  shows "\<exists>rc rgn'. lmb_add_region rgn b s = Some (rc, rgn') \<and> lmb_bounded rgn' \<and> (rc < 0 \<longrightarrow> rgn' = rgn)"
proof (cases "cnt rgn = 1 \<and> psize (region rgn ! 0) = 0")
  case True
  with assms show ?thesis by (auto simp: lmb_add_region_def lmb_bounded_def)
next
  case False
  have r0: "arr_get (region rgn) 0 = Some (region rgn ! 0)"
    using assms by (simp add: lmb_bounded_def)
  from lmb_add_scan_safe[of "unat (cnt rgn)" "region rgn" b s] assms
  consider "lmb_add_scan (region rgn) (unat (cnt rgn)) b s = Some (Inl ())"
    | rs' i c where "lmb_add_scan (region rgn) (unat (cnt rgn)) b s = Some (Inr (rs', i, c))"
      "length rs' = length (region rgn)" "c = 0 \<longrightarrow> rs' = region rgn"
    by (auto simp: lmb_bounded_def)
  then show ?thesis
  proof cases
    case 1
    with False r0 assms show ?thesis by (auto simp: lmb_add_region_def)
  next
    case 2
    have "lmb_bounded (rgn\<lparr>region := rs'\<rparr>)" using assms 2(2) by (simp add: lmb_bounded_def)
    then obtain rgn2 c2 where co: "lmb_coalesce_next (rgn\<lparr>region := rs'\<rparr>) i c = Some (rgn2, c2)"
      "lmb_bounded rgn2" "c2 = 0 \<longrightarrow> rgn2 = rgn\<lparr>region := rs'\<rparr>"
      using lmb_coalesce_next_safe by blast
    have c0: "c = 0" if "c2 = 0"
      using co(1) that by (auto simp: lmb_coalesce_next_def split: if_splits bind_splits)
    show ?thesis
    proof (cases "c2 = 0 \<and> \<not> MAX_LMB_REGIONS \<le> cnt rgn2")
      case True
      with lmb_insert_sorted_safe[OF co(2), of b s] False r0 2(1) co(1) show ?thesis
        by (auto simp: lmb_add_region_def)
    next
      case False': False
      have "rgn2 = rgn" if "c2 = 0"
        using c0[OF that] that co(3) 2(3) by simp
      with False' False r0 2(1) co(1,2) show ?thesis
        by (auto simp: lmb_add_region_def)
    qed
  qed
qed

section \<open>Freeing a range\<close>

lemma lmb_region_inv_bounded: "lmb_region_inv rgn \<Longrightarrow> lmb_bounded rgn"
  by (simp add: lmb_region_inv_def lmb_bounded_def)

lemma addrs_around:
  assumes "valid_list (xs @ q # ys)"
  shows "addrs xs \<inter> {pb q..<pe q} = {}" and "addrs ys \<inter> {pb q..<pe q} = {}"
  using assms by (fastforce simp: addrs_def)+

lemma addrs_replace:
  assumes "valid_list (xs @ q # ys)" and "A \<subseteq> {pb q..<pe q}" and "addrs rs = {pb q..<pe q} - A"
  shows "addrs (xs @ rs @ ys) = addrs (xs @ q # ys) - A"
  using addrs_around[OF assms(1)] assms(2,3) by auto

lemma valid_shrink:
  assumes "valid_list (xs @ q # ys)" and "pb q \<le> pb r" and "pe r \<le> pe q" and "psize r \<noteq> 0"
  shows "valid_list (xs @ r # ys)"
  using assms by (fastforce simp: valid_prop_def)

lemma lmb_free_find_append:
  assumes val: "valid_list ps" and "q \<in> set ps" and "pb q \<le> unat b" and "unat b + unat s \<le> pe q"
    and "rs = ps @ zs"
  shows "\<exists>xs q ys. ps = xs @ q # ys \<and> pb q \<le> unat b \<and> unat b + unat s \<le> pe q \<and>
     lmb_free_find rs (length ps) b (b + s) = Some (length xs)"
proof -
  let ?P = "\<lambda>p. pbase p \<le> b \<and> b + s \<le> pbase p + psize p"
  have bs: "unat (b + s) = unat b + unat s"
    using assms(4) valid_list_props[OF assms(1,2)] by (intro unat_plus_nowrap) (simp add: valid_prop_def)
  have iff: "?P p \<longleftrightarrow> pb p \<le> unat b \<and> unat b + unat s \<le> pe p" if "p \<in> set ps" for p
    using valid_prop_end[OF valid_list_props[OF val that]] bs by (simp add: word_le_nat_alt)
  have "?P q" using iff[OF assms(2)] assms(3,4) by simp
  then obtain xs r ys where r: "ps = xs @ r # ys" "?P r" "\<forall>x\<in>set xs. \<not> ?P x"
    using split_list_first_prop[of ps ?P] assms(2) by blast
  have "array_find ?P rs 0 (length ps) = Some (length xs)"
    using r assms(5) by (intro array_find_eq) (auto simp: nth_append)
  then show ?thesis
    using r iff[of r] by (auto simp: lmb_free_find_def)
qed

lemma lmb_free_region_inside:
  assumes inv: "lmb_region_inv rgn" and s: "s \<noteq> 0" and only: "live rgn \<noteq> [\<lparr>pbase = b, psize = s\<rparr>]"
    and q0: "q0 \<in> set (live rgn)" "pb q0 \<le> unat b" "unat b + unat s \<le> pe q0"
  shows "\<exists>rc rgn' q. lmb_free_region rgn b s = Some (rc, rgn') \<and> lmb_region_inv rgn' \<and>
     q \<in> set (live rgn) \<and> pb q \<le> unat b \<and> unat b + unat s \<le> pe q \<and>
     (if rc = -1 then length (live rgn) = 8 \<and> addrs (live rgn') = addrs (live rgn) - {unat b..<pe q}
      else 0 \<le> rc \<and> addrs (live rgn') = addrs (live rgn) - {unat b..<unat b + unat s})"
proof -
  have nf: "\<not> fresh_region rgn" using q0 by (auto simp: live_def)
  obtain z zs where rs: "region rgn = live rgn @ z # zs" and len: "length (live rgn) = unat (cnt rgn)"
    using live_append[OF inv nf] by metis
  have vl: "valid_list (live rgn)" using inv by (simp add: lmb_region_inv_def)
  obtain xs q ys where xy: "live rgn = xs @ q # ys" and q: "pb q \<le> unat b" "unat b + unat s \<le> pe q"
    and find: "lmb_free_find (region rgn) (unat (cnt rgn)) b (b + s) = Some (length xs)"
    using lmb_free_find_append[OF vl q0 rs] len by auto
  have val: "valid_list (xs @ q # ys)" using vl xy by simp
  then have vq: "valid_prop q" by simp
  have bs: "unat (b + s) = unat b + unat s" "unat b + unat s < 2 ^ 32"
    using q vq by (auto intro!: unat_plus_nowrap simp: valid_prop_def)
  have s0: "0 < unat s" using s by (simp add: unat_gt_0)
  have e: "unat (pbase q + psize q) = pe q" by (rule valid_prop_end[OF vq])
  have sub: "{unat b..<unat b + unat s} \<subseteq> {pb q..<pe q}" using q by auto
  have lx: "length xs < unat (cnt rgn)" using len xy by simp
  have get: "arr_get (region rgn) (length xs) = Some q" using rs xy by simp
  have upd: "arr_set (region rgn) (length xs) r = Some (xs @ r # ys @ z # zs)" for r
    using rs xy by simp
  have len9: "length (region rgn) = 9" "length (live rgn) \<le> 8"
    using inv len by (auto simp: lmb_region_inv_def)
  have keep: "lmb_region_inv (rgn\<lparr>region := xs @ r # ys @ z # zs\<rparr>) \<and>
      live (rgn\<lparr>region := xs @ r # ys @ z # zs\<rparr>) = xs @ r # ys"
    if "pb q \<le> pb r" "pe r \<le> pe q" "psize r \<noteq> 0" for r
    using that val len9 rs xy len valid_shrink[OF val that]
    by (intro region_invI[where zs = "z # zs"]) auto
  note unfold = lmb_free_region_def find get upd
  have wq: "q \<in> set (live rgn)" using xy by simp
  consider (all) "pbase q = b" "pbase q + psize q = b + s"
    | (front) "pbase q = b" "pbase q + psize q \<noteq> b + s"
    | (tail) "pbase q \<noteq> b" "pbase q + psize q = b + s"
    | (split) "pbase q \<noteq> b" "pbase q + psize q \<noteq> b + s" by blast
  then show ?thesis
  proof cases
    case all
    then have "pb q = unat b" "pe q = unat b + unat s" using e bs by auto
    then have qbs: "q = \<lparr>pbase = b, psize = s\<rparr>" using all by simp
    then have ne: "xs @ ys \<noteq> []" using only xy by auto
    obtain rgn' where rm: "lmb_remove_region rgn (length xs) = Some rgn'" "cnt rgn' = cnt rgn - 1"
      "region rgn' = (xs @ ys) @ last (q # ys) # z # zs"
      using lmb_remove_region_append[of rgn xs q ys "z # zs"] rs xy len by auto
    have "unat (cnt rgn - 1) = length (xs @ ys)"
      using len xy by (simp add: unat_minus_nowrap flip: len)
    then have "lmb_region_inv rgn' \<and> live rgn' = xs @ ys"
      using rm val len9 rs xy ne by (intro region_invI[where zs = "last (q # ys) # z # zs"]) auto
    moreover have "addrs (xs @ ys) = addrs (live rgn) - {unat b..<unat b + unat s}"
      using addrs_replace[OF val sub, of "[]"] xy \<open>pb q = unat b\<close> \<open>pe q = unat b + unat s\<close> by simp
    moreover have "lmb_free_region rgn b s = Some (0, rgn')"
      using all lx rm(1) by (simp add: unfold)
    ultimately show ?thesis using q wq by auto
  next
    case front
    define r where "r = \<lparr>pbase = b + s, psize = psize q - s\<rparr>"
    have "pb q = unat b" using front by simp
    then have lt: "unat s < unat (psize q)" using front(2) e bs q by (auto simp: word_unat_eq_iff)
    then have r: "pb r = unat b + unat s" "pe r = pe q"
      using bs q \<open>pb q = unat b\<close> by (auto simp: r_def unat_minus_nowrap)
    have "psize r \<noteq> 0" using lt by (auto simp: r_def)
    then have k: "lmb_region_inv (rgn\<lparr>region := xs @ r # ys @ z # zs\<rparr>)"
      "live (rgn\<lparr>region := xs @ r # ys @ z # zs\<rparr>) = xs @ r # ys"
      using keep[of r] r q \<open>pb q = unat b\<close> by auto
    have "addrs (xs @ [r] @ ys) = addrs (xs @ q # ys) - {unat b..<unat b + unat s}"
      using r \<open>pb q = unat b\<close> by (intro addrs_replace[OF val sub]) auto
    moreover have "lmb_free_region rgn b s = Some (0, rgn\<lparr>region := xs @ r # ys @ z # zs\<rparr>)"
      using front lx by (simp add: unfold r_def)
    ultimately show ?thesis using q wq k xy by auto
  next
    case tail
    define r where "r = \<lparr>pbase = pbase q, psize = psize q - s\<rparr>"
    have "pe q = unat b + unat s" using tail e bs by simp
    moreover have "pb q < unat b" using tail q by (metis le_neq_implies_less word_unat_eq_iff)
    ultimately have r: "pb r = pb q" "pe r = unat b" "psize r \<noteq> 0" and q2: "pe q = unat b + unat s"
      using s by (auto simp: r_def unat_minus_nowrap)
    then have k: "lmb_region_inv (rgn\<lparr>region := xs @ r # ys @ z # zs\<rparr>)"
      "live (rgn\<lparr>region := xs @ r # ys @ z # zs\<rparr>) = xs @ r # ys"
      using keep[of r] q by auto
    have "addrs (xs @ [r] @ ys) = addrs (xs @ q # ys) - {unat b..<unat b + unat s}"
      using r q2 q by (intro addrs_replace[OF val sub]) auto
    moreover have "lmb_free_region rgn b s = Some (0, rgn\<lparr>region := xs @ r # ys @ z # zs\<rparr>)"
      using tail lx by (simp add: unfold r_def)
    ultimately show ?thesis using q wq k xy by auto
  next
    case split
    define r where "r = \<lparr>pbase = pbase q, psize = b - pbase q\<rparr>"
    define rgn1 where "rgn1 = rgn\<lparr>region := xs @ r # ys @ z # zs\<rparr>"
    let ?t = "pbase q + psize q - (b + s)"
    have lt: "pb q < unat b" "unat b + unat s < pe q"
      using split q e bs by (auto simp: word_unat_eq_iff)
    then have r: "pb r = pb q" "pe r = unat b" "psize r \<noteq> 0"
      by (auto simp: r_def unat_minus_nowrap)
    have t: "unat ?t = pe q - (unat b + unat s)" "?t \<noteq> 0"
      using lt e bs by (auto simp: unat_minus_nowrap)
    have k: "lmb_region_inv rgn1" "live rgn1 = xs @ r # ys"
      using keep[of r] r q unfolding rgn1_def by auto
    have cut: "addrs (live rgn1) = addrs (live rgn) - {unat b..<pe q}"
    proof -
      have "addrs (xs @ [r] @ ys) = addrs (xs @ q # ys) - {unat b..<pe q}"
        using r lt by (intro addrs_replace[OF val]) auto
      then show ?thesis using k(2) xy by simp
    qed
    have f: "unat (b + s) + unat ?t < 2 ^ 32"
      using t(1) bs lt vq by (simp add: valid_prop_def)
    have d: "addrs (live rgn1) \<inter> {unat (b + s)..<unat (b + s) + unat ?t} = {}"
      using cut t(1) bs lt by auto
    obtain rc rgn' where add: "lmb_add_region rgn1 (b + s) ?t = Some (rc, rgn')" "lmb_region_inv rgn'"
      "if rc = -1 then rgn' = rgn1 \<and> length (live rgn1) = 8
       else 0 \<le> rc \<and> addrs (live rgn') = addrs (live rgn1) \<union> {unat (b + s)..<unat (b + s) + unat ?t}"
      using lmb_add_region_disjoint[OF k(1) t(2) f d] by blast
    have res: "lmb_free_region rgn b s = Some (rc, rgn')"
      using split lx add(1) by (simp add: unfold r_def rgn1_def)
    have "{unat (b + s)..<unat (b + s) + unat ?t} = {unat b + unat s..<pe q}"
      using bs t(1) lt by simp
    moreover have "{pb q..<pe q} \<subseteq> addrs (live rgn)" by (rule addrs_sub[OF wq])
    ultimately have "addrs (live rgn) - {unat b..<pe q} \<union> {unat (b + s)..<unat (b + s) + unat ?t} =
        addrs (live rgn) - {unat b..<unat b + unat s}"
      using lt s0 by (auto simp: subset_iff)
    then have "if rc = -1 then length (live rgn) = 8 \<and> addrs (live rgn') = addrs (live rgn) - {unat b..<pe q}
      else 0 \<le> rc \<and> addrs (live rgn') = addrs (live rgn) - {unat b..<unat b + unat s}"
      using add(3) cut k(2) xy by (cases "rc = -1") simp_all
    with res add(2) wq q show ?thesis by blast
  qed
qed

section \<open>Allocation\<close>

lemma lmb_overlaps_region_none:
  assumes inv: "lmb_region_inv rgn" and fits: "unat b + unat s < 2 ^ 32"
    and none: "lmb_overlaps_region rgn b s = Some j" "j < 0"
  shows "addrs (live rgn) \<inter> {unat b..<unat b + unat s} = {}"
proof -
  have n: "unat (cnt rgn) \<le> length (region rgn)" using inv by (simp add: lmb_region_inv_def)
  let ?P = "\<lambda>p. lmb_addrs_overlap b s (pbase p) (psize p)"
  obtain i where i: "array_find ?P (region rgn) 0 (unat (cnt rgn)) = Some i"
    "\<forall>k. 0 \<le> k \<and> k < i \<longrightarrow> \<not> ?P (region rgn ! k)" "i \<le> unat (cnt rgn)"
    using array_find_first[of 0 "unat (cnt rgn)" "region rgn" ?P] n by auto
  then have "i = unat (cnt rgn)"
    using none by (auto simp: lmb_overlaps_region_def split: if_splits)
  then have no: "\<not> ?P p" if "p \<in> set (live rgn)" for p
    using i(2) that n by (auto simp: live_def in_set_conv_nth split: if_splits)
  have "pe p \<le> unat b \<or> unat b + unat s \<le> pb p" if p: "p \<in> set (live rgn)" for p
  proof -
    have "valid_prop p" using inv p valid_list_props by (auto simp: lmb_region_inv_def)
    from valid_prop_end[OF this] no[OF p] fits show ?thesis
      by (auto simp: lmb_addrs_overlap_def word_less_nat_alt unat_plus_nowrap)
  qed
  then show ?thesis by (fastforce simp: addrs_def)
qed

lemma lmb_overlaps_region_safe:
  assumes "lmb_bounded rgn"
  shows "\<exists>j. lmb_overlaps_region rgn b s = Some j \<and>
     (0 \<le> j \<longrightarrow> nat j < length (region rgn) \<and>
        lmb_addrs_overlap b s (pbase (region rgn ! nat j)) (psize (region rgn ! nat j)))"
proof -
  have n: "unat (cnt rgn) \<le> length (region rgn)" using assms by (simp add: lmb_bounded_def)
  let ?P = "\<lambda>p. lmb_addrs_overlap b s (pbase p) (psize p)"
  obtain i where i: "array_find ?P (region rgn) 0 (unat (cnt rgn)) = Some i"
    "i < unat (cnt rgn) \<longrightarrow> ?P (region rgn ! i)" "i \<le> unat (cnt rgn)"
    using array_find_first[of 0 "unat (cnt rgn)" "region rgn" ?P] n by auto
  with n show ?thesis by (auto simp: lmb_overlaps_region_def)
qed

lemma lmb_align_down_aligned [simp]: "lmb_align_down a al AND (al - 1) = 0"
  by (simp add: lmb_align_down_def word_bw_assocs)

lemma lmb_align_down_fits:
  assumes "unat s \<le> unat e"
  shows "unat (lmb_align_down (e - s) al) + unat s \<le> unat e"
proof -
  have "unat (lmb_align_down (e - s) al) \<le> unat (e - s)"
    using lmb_align_down_le by (simp add: word_le_nat_alt)
  with assms show ?thesis by (simp add: unat_minus_nowrap)
qed

lemma lmb_alloc_try_result:
  assumes "lmb_region_inv res" and "unat base + unat s \<le> lim" and "lim < 2 ^ 32"
    and "base AND (al - 1) = 0"
  shows "\<exists>r. lmb_alloc_try res lb base s al = Some r \<and>
     (\<forall>ret res'. r = Some (ret, res') \<longrightarrow>
        (if ret = 0 then res' = res
         else lb \<le> ret \<and> unat ret + unat s \<le> lim \<and> ret AND (al - 1) = 0 \<and>
           addrs (live res) \<inter> {unat ret..<unat ret + unat s} = {} \<and>
           (\<exists>rc\<ge>0. lmb_add_region res ret (lmb_align_up s al) = Some (rc, res'))))"
  using assms
proof (induction res lb base s al rule: lmb_alloc_try.induct)
  case (1 res lb base s al)
  note bounded = lmb_region_inv_bounded[OF 1(2)]
  obtain j where j: "lmb_overlaps_region res base s = Some j"
    "0 \<le> j \<longrightarrow> nat j < length (region res) \<and>
      lmb_addrs_overlap base s (pbase (region res ! nat j)) (psize (region res ! nat j))"
    using lmb_overlaps_region_safe[OF bounded] by blast
  note unfold = lmb_alloc_try.simps[of res lb base s al] j(1)
  consider (stop) "\<not> (base \<noteq> 0 \<and> lb \<le> base)" | (free) "base \<noteq> 0" "lb \<le> base" "j < 0"
    | (low) "base \<noteq> 0" "lb \<le> base" "0 \<le> j" "pbase (region res ! nat j) < s"
    | (again) "base \<noteq> 0" "lb \<le> base" "0 \<le> j" "\<not> pbase (region res ! nat j) < s"
    by linarith
  then show ?case
  proof cases
    case stop
    then show ?thesis by (auto simp: unfold)
  next
    case free
    obtain rc res' where "lmb_add_region res base (lmb_align_up s al) = Some (rc, res')" "rc < 0 \<longrightarrow> res' = res"
      using lmb_add_region_safe[OF bounded] by blast
    with free lmb_overlaps_region_none[OF 1(2) _ j(1)] 1(3,4,5) show ?thesis
      by (auto simp: unfold)
  next
    case low
    then show ?thesis using j(2) by (auto simp: unfold)
  next
    case again
    let ?p = "region res ! nat j"
    let ?b = "lmb_align_down (pbase ?p - s) al"
    have p: "arr_get (region res) (nat j) = Some ?p" using j(2) again by simp
    have "unat (pbase ?p) < unat base + unat s"
    proof -
      have "unat (pbase ?p) < unat (base + s)"
        using j(2) again by (simp add: lmb_addrs_overlap_def word_less_nat_alt)
      then show ?thesis using 1(3,4) by (simp add: unat_plus_nowrap)
    qed
    moreover have "unat ?b + unat s \<le> unat (pbase ?p)"
      using again by (intro lmb_align_down_fits) (simp add: word_less_nat_alt)
    ultimately have "unat ?b + unat s \<le> lim" using 1(3) by simp
    moreover have "lmb_alloc_try res lb base s al = lmb_alloc_try res lb ?b s al"
      using again p by (auto simp: unfold)
    ultimately show ?thesis
      using 1(1)[of j ?p] again p j(1) 1(2,4) by simp
  qed
qed

lemma lmb_alloc_loop_result:
  assumes inv: "lmb_region_inv mem" "lmb_region_inv res" and s: "s \<noteq> 0" and m: "m = 0 \<or> s \<le> m"
    and n: "n \<le> unat (cnt mem)"
  shows "\<exists>ret res'. lmb_alloc_loop mem res n s al m = Some (ret, res') \<and>
     (if ret = 0 then res' = res
      else (\<exists>p\<in>set (live mem). pb p \<le> unat ret \<and> unat ret + unat s \<le> pe p) \<and>
        (m \<noteq> 0 \<longrightarrow> unat ret + unat s \<le> unat m) \<and> ret AND (al - 1) = 0 \<and>
        addrs (live res) \<inter> {unat ret..<unat ret + unat s} = {} \<and>
        (\<exists>rc\<ge>0. lmb_add_region res ret (lmb_align_up s al) = Some (rc, res')))"
  using n
proof (induction n)
  case 0
  then show ?case by simp
next
  case (Suc i)
  then obtain ret0 res0 where IH: "lmb_alloc_loop mem res i s al m = Some (ret0, res0)"
    "if ret0 = 0 then res0 = res
      else (\<exists>p\<in>set (live mem). pb p \<le> unat ret0 \<and> unat ret0 + unat s \<le> pe p) \<and>
        (m \<noteq> 0 \<longrightarrow> unat ret0 + unat s \<le> unat m) \<and> ret0 AND (al - 1) = 0 \<and>
        addrs (live res) \<inter> {unat ret0..<unat ret0 + unat s} = {} \<and>
        (\<exists>rc\<ge>0. lmb_add_region res ret0 (lmb_align_up s al) = Some (rc, res0))"
    by (meson Suc_leD)
  have len: "i < length (region mem)" using Suc.prems inv(1) by (simp add: lmb_region_inv_def)
  let ?p = "region mem ! i"
  show ?case
  proof (cases "psize ?p < s \<or> (m \<noteq> 0 \<and> \<not> pbase ?p < m)")
    case True
    then have "lmb_alloc_loop mem res (Suc i) s al m = lmb_alloc_loop mem res i s al m"
      using len by (auto simp: Let_def)
    with IH show ?thesis by simp
  next
    case False
    have "\<not> fresh_region mem"
    proof
      assume "fresh_region mem"
      then have "psize ?p = 0" using Suc.prems by (simp add: fresh_region_def)
      with False s show False by (simp add: word_neq_0_conv)
    qed
    then have live: "?p \<in> set (live mem)"
      using Suc.prems len by (auto simp: live_def in_set_conv_nth intro!: exI[of _ i])
    then have vp: "valid_prop ?p" using inv(1) valid_list_props by (auto simp: lmb_region_inv_def)
    define e where "e = (if m = 0 then pbase ?p + psize ?p else min (pbase ?p + psize ?p) m)"
    have nw: "\<not> pbase ?p + psize ?p < pbase ?p"
      using valid_prop_end[OF vp] by (simp add: word_less_nat_alt)
    have e: "unat e \<le> pe ?p" "m \<noteq> 0 \<Longrightarrow> unat e \<le> unat m" "unat s \<le> unat e"
      using valid_prop_end[OF vp] m False
      by (auto simp: e_def min_def word_le_nat_alt word_less_nat_alt)
    let ?b = "lmb_align_down (e - s) al"
    have "unat ?b + unat s \<le> unat e" by (rule lmb_align_down_fits[OF e(3)])
    moreover have "unat e < 2 ^ 32" by (rule unat_u32_less)
    ultimately obtain r where r: "lmb_alloc_try res (pbase ?p) ?b s al = Some r"
      "\<forall>ret res'. r = Some (ret, res') \<longrightarrow>
        (if ret = 0 then res' = res
         else pbase ?p \<le> ret \<and> unat ret + unat s \<le> unat e \<and> ret AND (al - 1) = 0 \<and>
           addrs (live res) \<inter> {unat ret..<unat ret + unat s} = {} \<and>
           (\<exists>rc\<ge>0. lmb_add_region res ret (lmb_align_up s al) = Some (rc, res')))"
      using lmb_alloc_try_result[OF inv(2), of ?b s "unat e" al "pbase ?p"] lmb_align_down_aligned by blast
    have step: "lmb_alloc_loop mem res (Suc i) s al m =
        (case r of Some ret \<Rightarrow> Some ret | None \<Rightarrow> lmb_alloc_loop mem res i s al m)"
      using False nw r(1) len by (auto simp: e_def Let_def)
    show ?thesis
    proof (cases r)
      case None
      with step IH show ?thesis by simp
    next
      case (Some rr)
      obtain ret res' where rr: "rr = (ret, res')" by (cases rr)
      have "pb ?p \<le> unat ret \<and> unat ret + unat s \<le> pe ?p \<and> (m \<noteq> 0 \<longrightarrow> unat ret + unat s \<le> unat m)"
        if "ret \<noteq> 0"
        using r(2) Some rr that e by (auto simp: word_le_nat_alt split: if_splits)
      with r(2) Some rr step live show ?thesis by (auto split: if_splits)
    qed
  qed
qed

section \<open>The allocator contract\<close>

definition lmb_inv :: "lmb \<Rightarrow> bool" where
  "lmb_inv l \<longleftrightarrow> lmb_region_inv (memory l) \<and> lmb_region_inv (reserved l)"

lemma lmb_alloc_base_result:
  assumes "lmb_inv l" and "s \<noteq> 0" and "m = 0 \<or> s \<le> m"
  shows "\<exists>ret l'. lmb_alloc_base l s al m = Some (ret, l') \<and> memory l' = memory l \<and>
     (if ret = 0 then l' = l
      else (\<exists>p\<in>set (live (memory l)). pb p \<le> unat ret \<and> unat ret + unat s \<le> pe p) \<and>
        (m \<noteq> 0 \<longrightarrow> unat ret + unat s \<le> unat m) \<and> ret AND (al - 1) = 0 \<and>
        addrs (live (reserved l)) \<inter> {unat ret..<unat ret + unat s} = {} \<and>
        (\<exists>rc\<ge>0. lmb_add_region (reserved l) ret (lmb_align_up s al) = Some (rc, reserved l')))"
proof -
  obtain ret res' where
    "lmb_alloc_loop (memory l) (reserved l) (unat (cnt (memory l))) s al m = Some (ret, res')"
    "if ret = 0 then res' = reserved l
      else (\<exists>p\<in>set (live (memory l)). pb p \<le> unat ret \<and> unat ret + unat s \<le> pe p) \<and>
        (m \<noteq> 0 \<longrightarrow> unat ret + unat s \<le> unat m) \<and> ret AND (al - 1) = 0 \<and>
        addrs (live (reserved l)) \<inter> {unat ret..<unat ret + unat s} = {} \<and>
        (\<exists>rc\<ge>0. lmb_add_region (reserved l) ret (lmb_align_up s al) = Some (rc, res'))"
    using lmb_alloc_loop_result[of "memory l" "reserved l" s m "unat (cnt (memory l))" al] assms
    by (auto simp: lmb_inv_def)
  then show ?thesis
    by (intro exI[of _ ret] exI[of _ "l\<lparr>reserved := res'\<rparr>"])
      (simp add: lmb_alloc_base_def lmb_alloc_base_raw_def)
qed

text \<open>When the size is a multiple of the alignment, exactly the returned block becomes reserved.\<close>

lemma lmb_alloc_base_exact:
  assumes inv: "lmb_inv l" and s: "s \<noteq> 0" and m: "m = 0 \<or> s \<le> m" and al: "lmb_align_up s al = s"
    and alloc: "lmb_alloc_base l s al m = Some (ret, l')" and ret: "ret \<noteq> 0"
  shows "lmb_inv l' \<and>
     addrs (live (reserved l')) = addrs (live (reserved l)) \<union> {unat ret..<unat ret + unat s}"
proof -
  from lmb_alloc_base_result[OF inv s m, of al] alloc ret al obtain p rc where
    p: "p \<in> set (live (memory l))" "unat ret + unat s \<le> pe p" and mem: "memory l' = memory l"
    and d: "addrs (live (reserved l)) \<inter> {unat ret..<unat ret + unat s} = {}"
    and rc: "0 \<le> rc" "lmb_add_region (reserved l) ret s = Some (rc, reserved l')"
    by auto
  have "pe p < 2 ^ 32"
    using inv p(1) valid_list_props by (auto simp: lmb_inv_def lmb_region_inv_def valid_prop_def)
  then have "unat ret + unat s < 2 ^ 32" using p(2) by simp
  from lmb_add_region_disjoint[OF _ s this d] rc mem inv show ?thesis
    by (auto simp: lmb_inv_def split: if_splits)
qed

definition lmb_block :: "u32 \<times> u32 \<times> u32 \<Rightarrow> lmb \<Rightarrow> nat set option \<times> lmb" where
  "lmb_block r l = (case r of (s, al, m) \<Rightarrow>
     (case lmb_alloc_base l s al m of
        None \<Rightarrow> (None, l)
      | Some (ret, l') \<Rightarrow> (if ret = 0 then None else Some {unat ret..<unat ret + unat s}, l')))"

definition lmb_request_ok :: "u32 \<times> u32 \<times> u32 \<Rightarrow> bool" where
  "lmb_request_ok r = (case r of (s, al, m) \<Rightarrow> s \<noteq> 0 \<and> (m = 0 \<or> s \<le> m) \<and> lmb_align_up s al = s)"

lemma lmb_block_cases:
  assumes "lmb_inv l" and "lmb_request_ok (s, al, m)"
  obtains "lmb_block (s, al, m) l = (None, l)"
  | ret :: u32 and l' where "lmb_block (s, al, m) l = (Some {unat ret..<unat ret + unat s}, l')" "lmb_inv l'"
      "{unat ret..<unat ret + unat s} \<inter> addrs (live (reserved l)) = {}"
      "addrs (live (reserved l')) = addrs (live (reserved l)) \<union> {unat ret..<unat ret + unat s}"
proof -
  have ok: "s \<noteq> 0" "m = 0 \<or> s \<le> m" "lmb_align_up s al = s"
    using assms(2) by (auto simp: lmb_request_ok_def)
  obtain ret l' where a: "lmb_alloc_base l s al m = Some (ret, l')"
    "ret = 0 \<Longrightarrow> l' = l" "ret \<noteq> 0 \<Longrightarrow> addrs (live (reserved l)) \<inter> {unat ret..<unat ret + unat s} = {}"
    using lmb_alloc_base_result[OF assms(1) ok(1,2), of al] by (auto split: if_splits)
  show ?thesis
  proof (cases "ret = 0")
    case True
    with a show ?thesis by (intro that(1)) (simp add: lmb_block_def)
  next
    case False
    with a lmb_alloc_base_exact[OF assms(1) ok a(1) False] show ?thesis
      by (intro that(2)[of ret l']) (auto simp: lmb_block_def)
  qed
qed

interpretation lmb_alloc: block_allocator lmb_block "\<lambda>l. addrs (live (reserved l))" lmb_inv lmb_request_ok
proof
  fix l r b
  assume inv: "lmb_inv l" and ok: "lmb_request_ok r"
  obtain s al m where r: "r = (s, al, m)" by (cases r)
  note cases = lmb_block_cases[OF inv ok[unfolded r]]
  show "lmb_inv (snd (lmb_block r l))"
    by (rule cases) (simp_all add: r inv)
  show "addrs (live (reserved (snd (lmb_block r l)))) = addrs (live (reserved l))"
    if "fst (lmb_block r l) = None"
    by (rule cases) (use that in \<open>auto simp: r\<close>)
  show "b \<inter> addrs (live (reserved l)) = {}" if "fst (lmb_block r l) = Some b"
    by (rule cases) (use that in \<open>auto simp: r\<close>)
  show "addrs (live (reserved (snd (lmb_block r l)))) = addrs (live (reserved l)) \<union> b"
    if "fst (lmb_block r l) = Some b"
    by (rule cases) (use that in \<open>auto simp: r\<close>)
qed

section \<open>Properties\<close>

text \<open>A memory of 512 MiB at 0x80000000 with one page reserved at 0x80008000.\<close>

definition sample_lmb :: lmb where
  "sample_lmb =
     (let z = \<lparr>pbase = 0, psize = 0\<rparr> in
      \<lparr>memory = \<lparr>cnt = 1, rsize = 0, region = \<lparr>pbase = 0x80000000, psize = 0x20000000\<rparr> # replicate 8 z\<rparr>,
       reserved = \<lparr>cnt = 1, rsize = 0, region = \<lparr>pbase = 0x80008000, psize = 0x1000\<rparr> # replicate 8 z\<rparr>\<rparr>)"

lemma sample_lmb_inv: "lmb_inv sample_lmb"
  by (simp add: sample_lmb_def Let_def lmb_inv_def lmb_region_inv_def live_def fresh_region_def valid_prop_def)

lemma sample_lmb_reserved:
  "live (reserved sample_lmb) = [\<lparr>pbase = 0x80008000, psize = 0x1000\<rparr>]"
  by (simp add: sample_lmb_def Let_def live_def fresh_region_def)



text \<open>C8. Freeing a non-empty range that lies inside one reserved region (and is not the whole of the
  only region) keeps the table well formed and un-reserves exactly that range. The one exception
  is a split in a full table: then the code returns -1 although it has already cut the region, so
  the rest of the region after the freed range is lost from the reserved set too.
\<close>

theorem lmb_free_correct:
  assumes "lmb_inv l" and "sz \<noteq> 0" and "live (reserved l) \<noteq> [\<lparr>pbase = base, psize = sz\<rparr>]"
    and "p \<in> set (live (reserved l))" and "pb p \<le> unat base" and "unat base + unat sz \<le> pe p"
  shows "\<exists>rc l' q. lmb_free l base sz = Some (rc, l') \<and> lmb_inv l' \<and> memory l' = memory l \<and>
     q \<in> set (live (reserved l)) \<and> pb q \<le> unat base \<and> unat base + unat sz \<le> pe q \<and>
     (if rc = -1 then length (live (reserved l)) = 8 \<and>
        addrs (live (reserved l')) = addrs (live (reserved l)) - {unat base..<pe q}
      else 0 \<le> rc \<and>
        addrs (live (reserved l')) = addrs (live (reserved l)) - {unat base..<unat base + unat sz})"
proof -
  from assms(1) have r: "lmb_region_inv (reserved l)" by (simp add: lmb_inv_def)
  from lmb_free_region_inside[OF r assms(2-6)] obtain rc r' q where
    *: "lmb_free_region (reserved l) base sz = Some (rc, r')" "lmb_region_inv r'"
    "q \<in> set (live (reserved l))" "pb q \<le> unat base" "unat base + unat sz \<le> pe q"
    "if rc = -1 then length (live (reserved l)) = 8 \<and>
        addrs (live r') = addrs (live (reserved l)) - {unat base..<pe q}
      else 0 \<le> rc \<and> addrs (live r') = addrs (live (reserved l)) - {unat base..<unat base + unat sz}"
    by blast
  have "lmb_free l base sz = Some (rc, l\<lparr>reserved := r'\<rparr>)"
    using *(1) by (simp add: lmb_free_def)
  with * assms(1) show ?thesis
    by (intro exI[of _ rc] exI[of _ "l\<lparr>reserved := r'\<rparr>"] exI[of _ q]) (simp add: lmb_inv_def)
qed

theorem lmb_free_correct_witness:
  "\<exists>rc l' q. lmb_free sample_lmb 0x80008400 0x200 = Some (rc, l') \<and> lmb_inv l' \<and>
     memory l' = memory sample_lmb \<and>
     q \<in> set (live (reserved sample_lmb)) \<and> pb q \<le> unat (0x80008400 :: u32) \<and>
     unat (0x80008400 :: u32) + unat (0x200 :: u32) \<le> pe q \<and>
     (if rc = -1 then length (live (reserved sample_lmb)) = 8 \<and>
        addrs (live (reserved l')) = addrs (live (reserved sample_lmb)) - {unat (0x80008400 :: u32)..<pe q}
      else 0 \<le> rc \<and> addrs (live (reserved l')) =
        addrs (live (reserved sample_lmb)) - {unat (0x80008400 :: u32)..<unat (0x80008400 :: u32) + unat (0x200 :: u32)})"
  by (rule lmb_free_correct[OF sample_lmb_inv, where p = "\<lparr>pbase = 0x80008000, psize = 0x1000\<rparr>"])
    (simp_all add: sample_lmb_reserved)

text \<open>C4. An allocation always terminates without leaving the tables. Address 0 means failure and
  changes nothing; any other result is aligned, lies with its whole size inside one memory region,
  stays below \<open>max_addr\<close> when one is given, and overlaps nothing that was reserved. The limit
  must be at least the size: the code computes \<open>max_addr - size\<close> without checking it.
\<close>

theorem lmb_alloc_base_sound:
  assumes "lmb_inv l" and "sz \<noteq> 0" and "max_addr = 0 \<or> sz \<le> max_addr"
  shows "\<exists>ret l'. lmb_alloc_base l sz align max_addr = Some (ret, l') \<and> memory l' = memory l \<and>
     (if ret = 0 then l' = l
      else ret AND (align - 1) = 0 \<and>
        (\<exists>p\<in>set (live (memory l)). pb p \<le> unat ret \<and> unat ret + unat sz \<le> pe p) \<and>
        (max_addr \<noteq> 0 \<longrightarrow> unat ret + unat sz \<le> unat max_addr) \<and>
        addrs (live (reserved l)) \<inter> {unat ret..<unat ret + unat sz} = {})"
proof -
  from lmb_alloc_base_result[OF assms, of align] obtain ret l' where
    r: "lmb_alloc_base l sz align max_addr = Some (ret, l')" "memory l' = memory l" "ret = 0 \<Longrightarrow> l' = l"
    "ret \<noteq> 0 \<Longrightarrow> ret AND (align - 1) = 0 \<and>
        (\<exists>p\<in>set (live (memory l)). pb p \<le> unat ret \<and> unat ret + unat sz \<le> pe p) \<and>
        (max_addr \<noteq> 0 \<longrightarrow> unat ret + unat sz \<le> unat max_addr) \<and>
        addrs (live (reserved l)) \<inter> {unat ret..<unat ret + unat sz} = {}"
    by (auto split: if_splits)
  then show ?thesis by (intro exI[of _ ret] exI[of _ l']) simp
qed

theorem lmb_alloc_base_sound_witness:
  "\<exists>ret l'. lmb_alloc_base sample_lmb 0x2000 0x1000 0x8000A000 = Some (ret, l') \<and>
     memory l' = memory sample_lmb \<and>
     (if ret = 0 then l' = sample_lmb
      else ret AND (0x1000 - 1) = 0 \<and>
        (\<exists>p\<in>set (live (memory sample_lmb)). pb p \<le> unat ret \<and> unat ret + unat (0x2000 :: u32) \<le> pe p) \<and>
        ((0x8000A000 :: u32) \<noteq> 0 \<longrightarrow> unat ret + unat (0x2000 :: u32) \<le> unat (0x8000A000 :: u32)) \<and>
        addrs (live (reserved sample_lmb)) \<inter> {unat ret..<unat ret + unat (0x2000 :: u32)} = {})"
  by (rule lmb_alloc_base_sound[OF sample_lmb_inv]) simp_all




end
