(* ===== verification/Malloc_Simple.thy ===== *)
theory Malloc_Simple
  imports Lmb
begin

text \<open>
  The pre-relocation allocator of \<open>common/malloc_simple.c\<close>: a pointer that only grows inside an
  area described by three fields of the global data. \<open>map_sysmem\<close> is the identity on this target.
  The interpretation \<open>ms\<close> shows that it meets the contract of \<open>Alloc_Spec\<close>.
\<close>

record gd_malloc =
  malloc_base :: u32
  malloc_limit :: u32
  malloc_ptr :: u32

definition ALIGN :: "u32 \<Rightarrow> u32 \<Rightarrow> u32" where
  "ALIGN x a = (x + (a - 1)) AND NOT (a - 1)"

definition malloc_simple :: "gd_malloc \<Rightarrow> u32 \<Rightarrow> u32 \<times> gd_malloc" where
  "malloc_simple gd bytes =
     (let new_ptr = malloc_ptr gd + bytes in
      if new_ptr > malloc_limit gd then (0, gd)
      else (malloc_base gd + malloc_ptr gd, gd\<lparr>malloc_ptr := ALIGN new_ptr 4\<rparr>))"

definition memalign_simple :: "gd_malloc \<Rightarrow> u32 \<Rightarrow> u32 \<Rightarrow> u32 \<times> gd_malloc" where
  "memalign_simple gd align bytes =
     (let addr = ALIGN (malloc_base gd + malloc_ptr gd) align;
          new_ptr = addr + bytes - malloc_base gd
      in if new_ptr > malloc_limit gd then (0, gd)
         else (addr, gd\<lparr>malloc_ptr := ALIGN new_ptr 4\<rparr>))"

section \<open>Alignment\<close>

lemma and_not_mask_unat:
  "unat (y AND NOT (mask k) :: u32) = unat y - unat y mod 2 ^ k"
proof -
  have eq: "(y AND NOT (mask k)) = y - take_bit k y"
  proof -
    have "y AND NOT (mask k) = push_bit k (drop_bit k y)"
      by (rule bit_word_eqI) (auto simp: bit_simps)
    then show ?thesis using bits_ident[of k y] by (simp add: eq_diff_eq)
  qed
  have "unat (take_bit k y) = unat y mod 2 ^ k"
    by (simp only: unsigned_take_bit_eq) (simp add: take_bit_eq_mod)
  then show ?thesis unfolding eq by (subst unat_minus_nowrap) auto
qed

lemma unat_pow2: "k < 32 \<Longrightarrow> unat (2 ^ k :: u32) = 2 ^ k"
  using unat_of_nat[of "2 ^ k", where 'a = 32] power_strict_increasing[of k 32 "2 :: nat"]
  by (simp add: mod_less)

lemma ALIGN_result:
  assumes "k < 32" and "unat x + 2 ^ k \<le> 2 ^ 32"
  shows "unat x \<le> unat (ALIGN x (2 ^ k))" and "unat (ALIGN x (2 ^ k)) < unat x + 2 ^ k"
    and "unat (ALIGN x (2 ^ k)) mod 2 ^ k = 0"
    and "m mod 2 ^ k = 0 \<Longrightarrow> unat x \<le> m \<Longrightarrow> unat (ALIGN x (2 ^ k)) \<le> m"
proof -
  let ?a = "2 ^ k :: nat"
  have m: "(2 ^ k - 1 :: u32) = mask k" by (simp add: mask_eq_exp_minus_1)
  have um: "unat (mask k :: u32) = ?a - 1"
    using assms(1) unat_minus_nowrap[of 1 "2 ^ k :: u32"] by (simp add: mask_eq_exp_minus_1 unat_pow2)
  have pos: "0 < ?a" by simp
  have y: "unat (x + mask k) = unat x + (?a - 1)"
    using assms um pos by (subst unat_plus_nowrap) (simp_all del: zero_less_power)
  have al: "unat (ALIGN x (2 ^ k)) = (unat x + (?a - 1)) - (unat x + (?a - 1)) mod ?a"
    unfolding ALIGN_def m and_not_mask_unat y ..
  have md: "(unat x + (?a - 1)) mod ?a < ?a" by simp
  show "unat x \<le> unat (ALIGN x (2 ^ k))" "unat (ALIGN x (2 ^ k)) < unat x + 2 ^ k"
    unfolding al using md pos by linarith+
  show "unat (ALIGN x (2 ^ k)) mod 2 ^ k = 0" unfolding al by (simp add: minus_mod_eq_mult_div)
  show "unat (ALIGN x (2 ^ k)) \<le> m" if "m mod 2 ^ k = 0" "unat x \<le> m"
  proof -
    have "unat (ALIGN x (2 ^ k)) = ?a * ((unat x + (?a - 1)) div ?a)"
      unfolding al by (simp add: minus_mod_eq_mult_div)
    moreover have "(unat x + (?a - 1)) div ?a \<le> m div ?a"
    proof -
      have "m div ?a * ?a = m" using div_mult_mod_eq[of m ?a] that(1) by simp
      then have "unat x + (?a - 1) \<le> m div ?a * ?a + (?a - 1)" using that(2) by simp
      then have "(unat x + (?a - 1)) div ?a \<le> (m div ?a * ?a + (?a - 1)) div ?a" by (rule div_le_mono)
      also have "\<dots> = m div ?a"
        using div_mult_self1[of ?a "?a - 1" "m div ?a"] pos by (simp add: add.commute)
      finally show ?thesis .
    qed
    ultimately show ?thesis using that(1) by (metis mult.commute div_mult_mod_eq add_0_right mult_le_mono2)
  qed
qed

section \<open>The allocator contract\<close>

definition ms_inv :: "gd_malloc \<Rightarrow> bool" where
  "ms_inv gd \<longleftrightarrow>
     0 < malloc_base gd \<and> unat (malloc_base gd) + unat (malloc_limit gd) \<le> 2 ^ 31 \<and>
     unat (malloc_limit gd) mod 4 = 0 \<and> malloc_ptr gd \<le> malloc_limit gd"

definition ms_used :: "gd_malloc \<Rightarrow> nat set" where
  "ms_used gd = {unat (malloc_base gd) ..< unat (malloc_base gd) + unat (malloc_ptr gd)}"

text \<open>A request: the exponent of an alignment for \<open>memalign_simple\<close>, none for \<open>malloc_simple\<close>.\<close>

type_synonym ms_request = "nat option \<times> u32"

definition ms_call :: "ms_request \<Rightarrow> gd_malloc \<Rightarrow> u32 \<times> gd_malloc" where
  "ms_call r gd = (case r of (None, bytes) \<Rightarrow> malloc_simple gd bytes
     | (Some k, bytes) \<Rightarrow> memalign_simple gd (2 ^ k) bytes)"

definition ms_request_ok :: "ms_request \<Rightarrow> bool" where
  "ms_request_ok r \<longleftrightarrow> unat (snd r) \<le> 2 ^ 30 \<and> (case fst r of None \<Rightarrow> True | Some k \<Rightarrow> k \<le> 20)"

text \<open>The area a successful call takes: the block with the padding around it.\<close>

definition ms_alloc :: "ms_request \<Rightarrow> gd_malloc \<Rightarrow> nat set option \<times> gd_malloc" where
  "ms_alloc r gd =
     (case ms_call r gd of (p, gd') \<Rightarrow>
        (if p = 0 then None else Some (ms_used gd' - ms_used gd), gd'))"

lemma ms_call_result:
  assumes inv: "ms_inv gd" and ok: "ms_request_ok r" and call: "ms_call r gd = (p, gd')"
  shows "if p = 0 then gd' = gd
    else ms_inv gd' \<and> malloc_base gd' = malloc_base gd \<and> malloc_limit gd' = malloc_limit gd \<and>
      unat (malloc_base gd) + unat (malloc_ptr gd) \<le> unat p \<and>
      unat p + unat (snd r) \<le> unat (malloc_base gd) + unat (malloc_ptr gd') \<and>
      (\<forall>k. fst r = Some k \<longrightarrow> unat p mod 2 ^ k = 0)"
proof -
  let ?b = "unat (malloc_base gd)" and ?l = "unat (malloc_limit gd)" and ?p = "unat (malloc_ptr gd)"
  note i = inv[unfolded ms_inv_def word_le_nat_alt word_less_nat_alt]
  define a where "a = (case fst r of None \<Rightarrow> malloc_base gd + malloc_ptr gd
    | Some k \<Rightarrow> ALIGN (malloc_base gd + malloc_ptr gd) (2 ^ k))"
  have bp: "unat (malloc_base gd + malloc_ptr gd) = ?b + ?p" using i by (simp add: unat_plus_nowrap)
  have k20: "(2 :: nat) ^ k \<le> 2 ^ 20" if "k \<le> 20" for k using that by (intro power_increasing) auto
  have a: "?b + ?p \<le> unat a" "unat a \<le> ?b + ?p + 2 ^ 20" "\<forall>k. fst r = Some k \<longrightarrow> unat a mod 2 ^ k = 0"
  proof -
    have "?b + ?p \<le> unat a \<and> unat a \<le> ?b + ?p + 2 ^ 20 \<and> (\<forall>k. fst r = Some k \<longrightarrow> unat a mod 2 ^ k = 0)"
    proof (cases "fst r")
      case None
      then show ?thesis using bp by (simp add: a_def)
    next
      case (Some k)
      then have k: "k \<le> 20" using ok by (simp add: ms_request_ok_def)
      then have "?b + ?p + 2 ^ k \<le> 2 ^ 32" using k20[OF k] i by simp
      with k Some bp k20[OF k] show ?thesis
        using ALIGN_result(1-3)[of k "malloc_base gd + malloc_ptr gd"] by (simp add: a_def)
    qed
    then show "?b + ?p \<le> unat a" "unat a \<le> ?b + ?p + 2 ^ 20" "\<forall>k. fst r = Some k \<longrightarrow> unat a mod 2 ^ k = 0"
      by blast+
  qed
  define n where "n = a + snd r - malloc_base gd"
  have n: "unat n = unat a + unat (snd r) - ?b"
    using a i ok by (simp add: n_def unat_plus_nowrap unat_minus_nowrap ms_request_ok_def)
  have a0: "a \<noteq> 0" using a(1) i by (auto simp: unat_0_iff)
  have res: "(p, gd') = (if n > malloc_limit gd then (0, gd) else (a, gd\<lparr>malloc_ptr := ALIGN n 4\<rparr>))"
    using call by (auto simp: ms_call_def malloc_simple_def memalign_simple_def a_def n_def Let_def
        split: prod.splits option.splits)
  have al: "unat n \<le> unat (ALIGN n 4)" "unat n \<le> ?l \<Longrightarrow> unat (ALIGN n 4) \<le> ?l"
    using ALIGN_result(1)[of 2 n] ALIGN_result(4)[of 2 n ?l] i n a ok by (auto simp: ms_request_ok_def)
  show ?thesis
    using res a0 al a n i by (auto simp: ms_inv_def word_le_nat_alt word_less_nat_alt split: if_splits)
qed

interpretation ms: block_allocator ms_alloc ms_used ms_inv ms_request_ok
proof
  fix gd r b
  assume inv: "ms_inv gd" and ok: "ms_request_ok r"
  obtain p gd' where c: "ms_call r gd = (p, gd')" by (cases "ms_call r gd")
  note res = ms_call_result[OF inv ok c]
  show "ms_inv (snd (ms_alloc r gd))" using res inv by (simp add: ms_alloc_def c split: if_splits)
  show "ms_used (snd (ms_alloc r gd)) = ms_used gd" if "fst (ms_alloc r gd) = None"
    using res that by (simp add: ms_alloc_def c split: if_splits)
  show "b \<inter> ms_used gd = {}" if "fst (ms_alloc r gd) = Some b"
    using that by (auto simp: ms_alloc_def c split: if_splits)
  show "ms_used (snd (ms_alloc r gd)) = ms_used gd \<union> b" if "fst (ms_alloc r gd) = Some b"
  proof -
    have "ms_used gd \<subseteq> ms_used gd'" using res that by (auto simp: ms_alloc_def c ms_used_def split: if_splits)
    then show ?thesis using that by (auto simp: ms_alloc_def c split: if_splits)
  qed
qed

text \<open>A block that \<open>malloc_simple\<close> or \<open>memalign_simple\<close> returns lies inside the malloc area,
  above everything handed out before, has the alignment asked for, and the pointer moves past it; a
  failing call changes nothing.\<close>

theorem malloc_simple_sound:
  assumes "ms_inv gd" and "ms_request_ok r" and "ms_call r gd = (p, gd')"
  shows "if p = 0 then gd' = gd
    else ms_inv gd' \<and> unat (malloc_base gd) + unat (malloc_ptr gd) \<le> unat p \<and>
      unat p + unat (snd r) \<le> unat (malloc_base gd) + unat (malloc_ptr gd') \<and>
      unat p + unat (snd r) \<le> unat (malloc_base gd) + unat (malloc_limit gd) \<and>
      (\<forall>k. fst r = Some k \<longrightarrow> unat p mod 2 ^ k = 0)"
  using ms_call_result[OF assms] by (auto simp: ms_inv_def word_le_nat_alt)

definition sample_gd :: gd_malloc where
  "sample_gd = \<lparr>malloc_base = 0x8000, malloc_limit = 0x400, malloc_ptr = 0x14\<rparr>"

theorem malloc_simple_sound_witness:
  "\<exists>gd'. ms_call (Some 6, 10) sample_gd = (0x8040, gd') \<and> ms_inv gd'"
proof -
  have call: "ms_call (Some 6, 10) sample_gd = (0x8040, sample_gd\<lparr>malloc_ptr := 0x4c\<rparr>)"
    by code_simp
  have inv: "ms_inv sample_gd" by (simp add: ms_inv_def sample_gd_def)
  have ok: "ms_request_ok (Some 6, 10)" by (simp add: ms_request_ok_def)
  have "ms_inv (sample_gd\<lparr>malloc_ptr := 0x4c\<rparr>)"
    using malloc_simple_sound[OF inv ok call] by (simp split: if_splits)
  with call show ?thesis by blast
qed



end
