(* ===== verification/Memsize.thy ===== *)
theory Memsize
  imports Uboot_Prelude
begin

text \<open>
  The RAM size detection of \<open>common/memsize.c\<close>. The memory bus is a parameter: \<open>rd\<close> and \<open>wr\<close>
  read and write the 32-bit word at a word index from \<open>base\<close>, so that hardware which decodes
  only some address lines (RAM that repeats through the address space) can be described.
\<close>

section \<open>The code\<close>

text \<open>The array \<open>save\<close> has 32 entries and \<open>i\<close> is the next free one.\<close>

function grs_fill :: "('h \<Rightarrow> nat \<Rightarrow> u32) \<Rightarrow> ('h \<Rightarrow> nat \<Rightarrow> u32 \<Rightarrow> 'h) \<Rightarrow> 'h \<Rightarrow> nat \<Rightarrow> u32 list \<Rightarrow> nat \<Rightarrow>
    ('h \<times> u32 list \<times> nat) option" where
  "grs_fill rd wr h cnt save i =
     (if cnt > 0 then
        (case arr_set save i (rd h cnt) of
           None \<Rightarrow> None
         | Some save' \<Rightarrow> grs_fill rd wr (wr h cnt (NOT (of_nat cnt))) (cnt div 2) save' (i + 1))
      else Some (h, save, i))"
  by pat_completeness auto
termination
  by (relation "measure (\<lambda>(rd, wr, h, cnt, save, i). cnt)") auto

declare grs_fill.simps [simp del]

text \<open>\<open>save[--i]\<close>\<close>

definition grs_pop :: "u32 list \<Rightarrow> nat \<Rightarrow> (u32 \<times> nat) option" where
  "grs_pop save i = (if i = 0 then None else do { v \<leftarrow> arr_get save (i - 1); Some (v, i - 1) })"

fun grs_restore :: "('h \<Rightarrow> nat \<Rightarrow> u32 \<Rightarrow> 'h) \<Rightarrow> nat \<Rightarrow> 'h \<Rightarrow> nat \<Rightarrow> u32 list \<Rightarrow> nat \<Rightarrow> 'h option" where
  "grs_restore wr N h cnt save 0 = (if cnt < N then None else Some h)"
| "grs_restore wr N h cnt save (Suc i) =
     (if cnt < N then do {
        (v, i') \<leftarrow> grs_pop save (Suc i);
        grs_restore wr N (wr h cnt v) (2 * cnt) save i
      } else Some h)"

fun grs_check :: "('h \<Rightarrow> nat \<Rightarrow> u32) \<Rightarrow> ('h \<Rightarrow> nat \<Rightarrow> u32 \<Rightarrow> 'h) \<Rightarrow> nat \<Rightarrow> nat \<Rightarrow> 'h \<Rightarrow> nat \<Rightarrow> u32 list \<Rightarrow> nat \<Rightarrow>
    (nat \<times> 'h) option" where
  "grs_check rd wr maxsize N h cnt save 0 = (if cnt < N then None else Some (maxsize, h))"
| "grs_check rd wr maxsize N h cnt save (Suc i) =
     (if cnt < N then do {
        (v, i') \<leftarrow> grs_pop save (Suc i);
        let val = rd h cnt;
        let h' = wr h cnt v;
        (if val \<noteq> NOT (of_nat cnt) then do {
           h'' \<leftarrow> grs_restore wr N h' (2 * cnt) save i;
           Some (4 * cnt, h'')
         } else grs_check rd wr maxsize N h' (2 * cnt) save i)
      } else Some (maxsize, h))"

definition get_ram_size :: "('h \<Rightarrow> nat \<Rightarrow> u32) \<Rightarrow> ('h \<Rightarrow> nat \<Rightarrow> u32 \<Rightarrow> 'h) \<Rightarrow> 'h \<Rightarrow> nat \<Rightarrow> (nat \<times> 'h) option" where
  "get_ram_size rd wr h maxsize =
     (let N = maxsize div 4 in do {
        (h1, save, i) \<leftarrow> grs_fill rd wr h (N div 2) (replicate 32 0) 0;
        save' \<leftarrow> arr_set save i (rd h1 0);
        let h2 = wr h1 0 0;
        (if rd h2 0 \<noteq> 0 then do {
           v \<leftarrow> arr_get save' i;
           h3 \<leftarrow> grs_restore wr N (wr h2 0 v) 1 save' i;
           Some (0, h3)
         } else grs_check rd wr maxsize N h2 1 save' i)
      })"

section \<open>RAM of \<open>R\<close> words that repeats through the address space\<close>

definition ram_rd :: "nat \<Rightarrow> (nat \<Rightarrow> u32) \<Rightarrow> nat \<Rightarrow> u32" where
  "ram_rd R h a = h (a mod R)"

definition ram_wr :: "nat \<Rightarrow> (nat \<Rightarrow> u32) \<Rightarrow> nat \<Rightarrow> u32 \<Rightarrow> (nat \<Rightarrow> u32)" where
  "ram_wr R h a v = h(a mod R := v)"

lemma pow2_mod: "(2 :: nat) ^ k mod 2 ^ r = (if k < r then 2 ^ k else 0)"
  by (auto simp: not_less le_imp_power_dvd mod_eq_0_iff_dvd)

text \<open>The cells when exponents \<open>m\<close> and above have been written, \<open>n\<close> being the largest.\<close>

definition fill_cells :: "nat \<Rightarrow> nat \<Rightarrow> (nat \<Rightarrow> u32) \<Rightarrow> nat \<Rightarrow> nat \<Rightarrow> u32" where
  "fill_cells n r h m c =
     (if c = 0 then (if max m r < n then NOT (2 ^ max m r) else h 0)
      else if \<exists>k. m \<le> k \<and> k < r \<and> c = 2 ^ k then NOT (of_nat c) else h c)"

text \<open>What is saved for exponent \<open>k\<close>.\<close>

definition saved :: "nat \<Rightarrow> nat \<Rightarrow> (nat \<Rightarrow> u32) \<Rightarrow> nat \<Rightarrow> u32" where
  "saved n r h k = (if k < r then h (2 ^ k) else if Suc k < n then NOT (2 ^ Suc k) else h 0)"

text \<open>The cells after the write to \<open>base\<close> when the exponents below \<open>m\<close> have been restored.\<close>

definition restored_cells :: "nat \<Rightarrow> nat \<Rightarrow> (nat \<Rightarrow> u32) \<Rightarrow> nat \<Rightarrow> nat \<Rightarrow> u32" where
  "restored_cells n r h m c =
     (if c = 0 then (if r < m then saved n r h (m - 1) else 0)
      else if \<exists>k. m \<le> k \<and> k < r \<and> c = 2 ^ k then NOT (of_nat c) else h c)"

lemma ram_rd_fill: "k < n \<Longrightarrow> ram_rd (2 ^ r) (fill_cells n r h (Suc k)) (2 ^ k) = saved n r h k"
  by (auto simp: ram_rd_def pow2_mod fill_cells_def saved_def max_def)

lemma ram_wr_fill:
  assumes "k < n"
  shows "ram_wr (2 ^ r) (fill_cells n r h (Suc k)) (2 ^ k) (NOT (of_nat (2 ^ k))) = fill_cells n r h k"
proof
  fix c
  show "ram_wr (2 ^ r) (fill_cells n r h (Suc k)) (2 ^ k) (NOT (of_nat (2 ^ k))) c = fill_cells n r h k c"
  proof (cases "k < r")
    case True
    have "(\<exists>l. k \<le> l \<and> l < r \<and> c = 2 ^ l) \<longleftrightarrow> c = 2 ^ k \<or> (\<exists>l. Suc k \<le> l \<and> l < r \<and> c = 2 ^ l)"
      using True by (auto simp: le_eq_less_or_eq Suc_le_eq)
    with True show ?thesis by (auto simp: ram_wr_def pow2_mod fill_cells_def max_def)
  next
    case False
    with assms show ?thesis by (auto simp: ram_wr_def pow2_mod fill_cells_def max_def)
  qed
qed

lemma grs_fill_cells:
  "m \<le> n \<Longrightarrow> r \<le> n \<Longrightarrow> n < 32 \<Longrightarrow> length save = 32 \<Longrightarrow> (\<forall>k. m \<le> k \<and> k < n \<longrightarrow> save ! (n - 1 - k) = saved n r h k) \<Longrightarrow>
     \<exists>save'. grs_fill (ram_rd (2 ^ r)) (ram_wr (2 ^ r)) (fill_cells n r h m) (2 ^ m div 2) save (n - m) =
         Some (fill_cells n r h 0, save', n) \<and> length save' = 32 \<and>
       (\<forall>k<n. save' ! (n - 1 - k) = saved n r h k)"
proof (induction m arbitrary: save)
  case 0
  then show ?case by (subst grs_fill.simps) simp
next
  case (Suc m)
  let ?s = "save[n - Suc m := saved n r h m]"
  have len: "n - Suc m < length save" using Suc.prems by simp
  have half: "(2 :: nat) ^ Suc m div 2 = 2 ^ m" by simp
  have sv: "?s ! (n - 1 - k) = saved n r h k" if "m \<le> k" "k < n" for k
    using that Suc.prems len by (cases "k = m") (auto simp: nth_list_update)
  have "grs_fill (ram_rd (2 ^ r)) (ram_wr (2 ^ r)) (fill_cells n r h (Suc m)) (2 ^ m) save (n - Suc m) =
      grs_fill (ram_rd (2 ^ r)) (ram_wr (2 ^ r)) (fill_cells n r h m) (2 ^ m div 2) ?s (n - m)"
    using Suc.prems len ram_rd_fill[of m n r h] ram_wr_fill[of m n r h]
    by (subst grs_fill.simps) (simp add: Suc_diff_Suc)
  with Suc.IH[of ?s] Suc.prems sv show ?case unfolding half by simp
qed

lemma ram_wr_restore:
  assumes "k < n" and "r \<le> n"
  shows "ram_wr (2 ^ r) (restored_cells n r h k) (2 ^ k) (saved n r h k) = restored_cells n r h (Suc k)"
proof
  fix c
  show "ram_wr (2 ^ r) (restored_cells n r h k) (2 ^ k) (saved n r h k) c = restored_cells n r h (Suc k) c"
  proof (cases "k < r")
    case True
    have "(\<exists>l. k \<le> l \<and> l < r \<and> c = 2 ^ l) \<longleftrightarrow> c = 2 ^ k \<or> (\<exists>l. Suc k \<le> l \<and> l < r \<and> c = 2 ^ l)"
      using True by (auto simp: le_eq_less_or_eq Suc_le_eq)
    with True show ?thesis by (auto simp: ram_wr_def pow2_mod restored_cells_def saved_def)
  next
    case False
    with assms show ?thesis by (auto simp: ram_wr_def pow2_mod restored_cells_def)
  qed
qed

lemma grs_pop_saved:
  assumes "i = n - m" and "m < n" and "length save = 32" and "n < 32" and "save ! (n - 1 - m) = v"
  shows "grs_pop save i = Some (v, n - Suc m)"
  using assms by (simp add: grs_pop_def)

lemma grs_restore_cells:
  "m \<le> n \<Longrightarrow> r \<le> n \<Longrightarrow> n < 32 \<Longrightarrow> length save = 32 \<Longrightarrow> \<forall>k<n. save ! (n - 1 - k) = saved n r h k \<Longrightarrow>
     grs_restore (ram_wr (2 ^ r)) (2 ^ n) (restored_cells n r h m) (2 ^ m) save (n - m) = Some (restored_cells n r h n)"
proof (induction "n - m" arbitrary: m)
  case 0
  then show ?case by simp
next
  case (Suc d)
  then have m: "m < n" "n - m = Suc (n - Suc m)" by auto
  then have pop: "grs_pop save (Suc (n - Suc m)) = Some (saved n r h m, n - Suc m)"
    using Suc.prems by (intro grs_pop_saved[where m = m]) auto
  have "(2 :: nat) ^ m < 2 ^ n" using m by simp
  then show ?case
    unfolding m(2) using Suc.hyps(1)[of "Suc m"] Suc.hyps(2) Suc.prems m pop ram_wr_restore[OF m(1) Suc.prems(2)]
    by simp
qed

lemma ram_rd_restored:
  assumes "k < n" and "n < 32"
  shows "k < r \<Longrightarrow> ram_rd (2 ^ r) (restored_cells n r h k) (2 ^ k) = NOT (of_nat (2 ^ k))"
    and "k = r \<Longrightarrow> ram_rd (2 ^ r) (restored_cells n r h k) (2 ^ k) \<noteq> NOT (of_nat (2 ^ k))"
proof -
  show "ram_rd (2 ^ r) (restored_cells n r h k) (2 ^ k) = NOT (of_nat (2 ^ k))" if "k < r"
    using that by (auto simp: ram_rd_def pow2_mod restored_cells_def)
  have "\<not> bit (2 ^ k :: u32) 31" using assms by (simp add: bit_exp_iff)
  then have "bit (NOT (2 ^ k) :: u32) 31" by (simp add: bit_not_iff)
  then have "NOT (2 ^ k) \<noteq> (0 :: u32)" by auto
  then show "ram_rd (2 ^ r) (restored_cells n r h k) (2 ^ k) \<noteq> NOT (of_nat (2 ^ k))" if "k = r"
    using that by (simp add: ram_rd_def restored_cells_def)
qed

lemma grs_check_cells:
  "m \<le> r \<Longrightarrow> r \<le> n \<Longrightarrow> n < 32 \<Longrightarrow> length save = 32 \<Longrightarrow> \<forall>k<n. save ! (n - 1 - k) = saved n r h k \<Longrightarrow>
     grs_check (ram_rd (2 ^ r)) (ram_wr (2 ^ r)) (4 * 2 ^ n) (2 ^ n) (restored_cells n r h m) (2 ^ m) save (n - m) =
       Some (4 * 2 ^ r, restored_cells n r h n)"
proof (induction "r - m" arbitrary: m)
  case 0
  then have mr: "m = r" by simp
  show ?case
  proof (cases "r = n")
    case True
    with mr show ?thesis by simp
  next
    case False
    then have r: "r < n" "n - r = Suc (n - Suc r)" using 0 by auto
    have pop: "grs_pop save (Suc (n - Suc r)) = Some (saved n r h r, n - Suc r)"
      using 0 r by (intro grs_pop_saved[where m = r]) auto
    have lt: "(2 :: nat) ^ r < 2 ^ n" using r by simp
    have "ram_rd (2 ^ r) (restored_cells n r h r) (2 ^ r) \<noteq> NOT (2 ^ r)"
      using ram_rd_restored(2)[of r n r h] r 0 by simp
    moreover have "grs_restore (ram_wr (2 ^ r)) (2 ^ n) (restored_cells n r h (Suc r)) (2 * 2 ^ r) save (n - Suc r) =
        Some (restored_cells n r h n)"
      using grs_restore_cells[of "Suc r" n r save h] 0 r by simp
    ultimately show ?thesis
      unfolding mr r(2) using lt pop ram_wr_restore[OF r(1) 0(3)] by (simp add: Let_def)
  qed
next
  case (Suc d)
  then have m: "m < n" "m < r" "n - m = Suc (n - Suc m)" by auto
  have pop: "grs_pop save (Suc (n - Suc m)) = Some (saved n r h m, n - Suc m)"
    using Suc.prems m by (intro grs_pop_saved[where m = m]) auto
  have lt: "(2 :: nat) ^ m < 2 ^ n" using m by simp
  have "ram_rd (2 ^ r) (restored_cells n r h m) (2 ^ m) = NOT (2 ^ m)"
    using ram_rd_restored(1)[of m n r h] m Suc.prems by simp
  then show ?case
    unfolding m(3) using lt pop ram_wr_restore[OF m(1) Suc.prems(2), of h] Suc.hyps(1)[of "Suc m"] Suc.hyps(2) Suc.prems m
    by (simp add: Let_def)
qed



end
