(* ===== verification/Ctype.thy ===== *)
theory Ctype
  imports Uboot_Prelude
begin

text \<open>
  Character classes, \<open>lib/ctype.c\<close> and \<open>include/linux/ctype.h\<close>: the table of 256 masks and
  the macros over it. The mask bits are \<open>_U\<close> 1, \<open>_L\<close> 2, \<open>_D\<close> 4, \<open>_C\<close> 8, \<open>_P\<close> 16,
  \<open>_S\<close> 32, \<open>_X\<close> 64 and \<open>_SP\<close> 128. A string literal of the source is \<open>ascii ''...''\<close>,
  without its terminating NUL.
\<close>

definition ctype_table :: "u8 list" where
  "ctype_table = [
   8, 8, 8, 8, 8, 8, 8, 8, 8, 40, 40, 40, 40, 40, 8, 8,
   8, 8, 8, 8, 8, 8, 8, 8, 8, 8, 8, 8, 8, 8, 8, 8,
   160, 16, 16, 16, 16, 16, 16, 16, 16, 16, 16, 16, 16, 16, 16, 16,
   4, 4, 4, 4, 4, 4, 4, 4, 4, 4, 16, 16, 16, 16, 16, 16,
   16, 65, 65, 65, 65, 65, 65, 1, 1, 1, 1, 1, 1, 1, 1, 1,
   1, 1, 1, 1, 1, 1, 1, 1, 1, 1, 1, 16, 16, 16, 16, 16,
   16, 66, 66, 66, 66, 66, 66, 2, 2, 2, 2, 2, 2, 2, 2, 2,
   2, 2, 2, 2, 2, 2, 2, 2, 2, 2, 2, 16, 16, 16, 16, 8,
   0, 0, 0, 0, 0, 0, 0, 0, 0, 0, 0, 0, 0, 0, 0, 0,
   0, 0, 0, 0, 0, 0, 0, 0, 0, 0, 0, 0, 0, 0, 0, 0,
   160, 16, 16, 16, 16, 16, 16, 16, 16, 16, 16, 16, 16, 16, 16, 16,
   16, 16, 16, 16, 16, 16, 16, 16, 16, 16, 16, 16, 16, 16, 16, 16,
   1, 1, 1, 1, 1, 1, 1, 1, 1, 1, 1, 1, 1, 1, 1, 1,
   1, 1, 1, 1, 1, 1, 1, 16, 1, 1, 1, 1, 1, 1, 1, 2,
   2, 2, 2, 2, 2, 2, 2, 2, 2, 2, 2, 2, 2, 2, 2, 2,
   2, 2, 2, 2, 2, 2, 2, 16, 2, 2, 2, 2, 2, 2, 2, 2
   ]"

definition ismask :: "u8 \<Rightarrow> u8" where
  "ismask c = ctype_table ! unat c"

definition isalnum :: "u8 \<Rightarrow> bool" where "isalnum c \<longleftrightarrow> ismask c AND 7 \<noteq> 0"
definition isalpha :: "u8 \<Rightarrow> bool" where "isalpha c \<longleftrightarrow> ismask c AND 3 \<noteq> 0"
definition isdigit :: "u8 \<Rightarrow> bool" where "isdigit c \<longleftrightarrow> ismask c AND 4 \<noteq> 0"
definition iscntrl :: "u8 \<Rightarrow> bool" where "iscntrl c \<longleftrightarrow> ismask c AND 8 \<noteq> 0"
definition isgraph :: "u8 \<Rightarrow> bool" where "isgraph c \<longleftrightarrow> ismask c AND 23 \<noteq> 0"
definition ispunct :: "u8 \<Rightarrow> bool" where "ispunct c \<longleftrightarrow> ismask c AND 16 \<noteq> 0"
definition islower :: "u8 \<Rightarrow> bool" where "islower c \<longleftrightarrow> ismask c AND 2 \<noteq> 0"
definition isupper :: "u8 \<Rightarrow> bool" where "isupper c \<longleftrightarrow> ismask c AND 1 \<noteq> 0"
definition isspace :: "u8 \<Rightarrow> bool" where "isspace c \<longleftrightarrow> ismask c AND 32 \<noteq> 0"
definition isprint :: "u8 \<Rightarrow> bool" where "isprint c \<longleftrightarrow> ismask c AND 151 \<noteq> 0"
definition isxdigit :: "u8 \<Rightarrow> bool" where "isxdigit c \<longleftrightarrow> ismask c AND 68 \<noteq> 0"
definition isblank :: "u8 \<Rightarrow> bool" where "isblank c \<longleftrightarrow> c = 32 \<or> c = 9"

definition isascii :: "u8 \<Rightarrow> bool" where "isascii c \<longleftrightarrow> c \<le> 0x7f"
definition toascii :: "u8 \<Rightarrow> u8" where "toascii c = c AND 0x7f"

definition tolower :: "u8 \<Rightarrow> u8" where
  "tolower c = (if isupper c then c + 32 else c)"

definition toupper :: "u8 \<Rightarrow> u8" where
  "toupper c = (if islower c then c - 32 else c)"

definition ascii :: "string \<Rightarrow> u8 list" where
  "ascii s = map of_char s"

text \<open>
  A statement about all bytes and their masks is checked along the table, entry by entry.
\<close>

fun all_from :: "(u8 \<Rightarrow> u8 \<Rightarrow> bool) \<Rightarrow> u8 \<Rightarrow> u8 list \<Rightarrow> bool" where
  "all_from P c [] \<longleftrightarrow> True"
| "all_from P c (m # ms) \<longleftrightarrow> P c m \<and> all_from P (c + 1) ms"

lemma all_from_nth: "all_from P c ms \<Longrightarrow> i < length ms \<Longrightarrow> P (c + word_of_nat i) (ms ! i)"
  by (induction ms arbitrary: c i) (auto simp: less_Suc_eq_0_disj simp flip: add.assoc)

lemma unat_u8_less: "unat (c :: u8) < 256"
  using unsigned_less[of c] by simp

lemma length_ctype_table: "length ctype_table = 256"
  by (simp add: ctype_table_def)

lemma all_ctype: "all_from P 0 ctype_table \<Longrightarrow> P c (ismask c)"
  using all_from_nth[of P 0 ctype_table "unat c"] unat_u8_less[of c]
  by (simp add: ismask_def length_ctype_table)

lemma isdigit_iff: "isdigit c \<longleftrightarrow> 48 \<le> c \<and> c \<le> 57"
  unfolding isdigit_def by (rule all_ctype) code_simp

lemma isxdigit_iff:
  "isxdigit c \<longleftrightarrow> 48 \<le> c \<and> c \<le> 57 \<or> 65 \<le> c \<and> c \<le> 70 \<or> 97 \<le> c \<and> c \<le> 102"
  unfolding isxdigit_def by (rule all_ctype) code_simp

lemma tolower_eq_0: "tolower c = 0 \<longleftrightarrow> c = 0"
  unfolding tolower_def isupper_def by (rule all_ctype) code_simp

end
