(* ===== verification/Cstring.thy ===== *)
theory Cstring
  imports Ctype
begin

text \<open>
  The string and memory routines of \<open>lib/string.c\<close> over an explicit memory: a list of bytes
  indexed by address. Source and destination live in the same memory, so overlapping arguments
  behave as in the code, and a read or write outside the memory makes the result \<open>None\<close>. A
  pointer is an address, a NULL result is an inner \<open>None\<close>. Words are stored little-endian.
\<close>

type_synonym mem = "u8 list"

section \<open>Words in memory\<close>

definition word32_of_bytes :: "u8 \<Rightarrow> u8 \<Rightarrow> u8 \<Rightarrow> u8 \<Rightarrow> u32" where
  "word32_of_bytes b0 b1 b2 b3 =
     ucast b0 OR push_bit 8 (ucast b1) OR push_bit 16 (ucast b2) OR push_bit 24 (ucast b3)"

definition byte_of_word32 :: "nat \<Rightarrow> u32 \<Rightarrow> u8" where
  "byte_of_word32 i w = ucast (drop_bit (8 * i) w)"

definition load32 :: "mem \<Rightarrow> nat \<Rightarrow> u32 option" where
  "load32 m a = do {
     b0 \<leftarrow> arr_get m a;
     b1 \<leftarrow> arr_get m (a + 1);
     b2 \<leftarrow> arr_get m (a + 2);
     b3 \<leftarrow> arr_get m (a + 3);
     Some (word32_of_bytes b0 b1 b2 b3)
   }"

definition store32 :: "mem \<Rightarrow> nat \<Rightarrow> u32 \<Rightarrow> mem option" where
  "store32 m a w = do {
     m1 \<leftarrow> arr_set m a (byte_of_word32 0 w);
     m2 \<leftarrow> arr_set m1 (a + 1) (byte_of_word32 1 w);
     m3 \<leftarrow> arr_set m2 (a + 2) (byte_of_word32 2 w);
     arr_set m3 (a + 3) (byte_of_word32 3 w)
   }"

definition word64_of_words :: "u32 \<Rightarrow> u32 \<Rightarrow> u64" where
  "word64_of_words lo hi = ucast lo OR push_bit 32 (ucast hi)"

definition load64 :: "mem \<Rightarrow> nat \<Rightarrow> u64 option" where
  "load64 m a = do {
     lo \<leftarrow> load32 m a;
     hi \<leftarrow> load32 m (a + 4);
     Some (word64_of_words lo hi)
   }"

section \<open>Memory areas\<close>

fun memset_bytes :: "mem \<Rightarrow> nat \<Rightarrow> u8 \<Rightarrow> nat \<Rightarrow> mem option" where
  "memset_bytes m s c 0 = Some m"
| "memset_bytes m s c (Suc n) = do {
     m' \<leftarrow> arr_set m s c;
     memset_bytes m' (s + 1) c n
   }"

text \<open>The word loop of \<open>memset\<close>: the memory, the advanced pointer and the bytes left.\<close>

function memset_words :: "mem \<Rightarrow> nat \<Rightarrow> u32 \<Rightarrow> nat \<Rightarrow> (mem \<times> nat \<times> nat) option" where
  "memset_words m s cl n =
     (if 4 \<le> n then
        (case store32 m s cl of
           None \<Rightarrow> None
         | Some m' \<Rightarrow> memset_words m' (s + 4) cl (n - 4))
      else Some (m, s, n))"
  by pat_completeness auto
termination
  by (relation "measure (\<lambda>(m, s, cl, n). n)") auto

declare memset_words.simps [simp del]

fun memset_pattern :: "nat \<Rightarrow> u32 \<Rightarrow> u32 \<Rightarrow> u32" where
  "memset_pattern 0 c cl = cl"
| "memset_pattern (Suc i) c cl = memset_pattern i c (push_bit 8 cl OR (c AND 0xff))"

definition memset :: "mem \<Rightarrow> nat \<Rightarrow> u32 \<Rightarrow> nat \<Rightarrow> mem option" where
  "memset m s c count =
     (if s mod 4 = 0 then do {
        (m', s', n) \<leftarrow> memset_words m s (memset_pattern 4 c 0) count;
        memset_bytes m' s' (ucast c) n
      } else memset_bytes m s (ucast c) count)"

fun copy_up :: "mem \<Rightarrow> nat \<Rightarrow> nat \<Rightarrow> nat \<Rightarrow> mem option" where
  "copy_up m d s 0 = Some m"
| "copy_up m d s (Suc n) = do {
     c \<leftarrow> arr_get m s;
     m' \<leftarrow> arr_set m d c;
     copy_up m' (d + 1) (s + 1) n
   }"

fun copy_down :: "mem \<Rightarrow> nat \<Rightarrow> nat \<Rightarrow> nat \<Rightarrow> mem option" where
  "copy_down m d s 0 = Some m"
| "copy_down m d s (Suc n) = do {
     c \<leftarrow> arr_get m (s + n);
     m' \<leftarrow> arr_set m (d + n) c;
     copy_down m' d s n
   }"

definition bcopy :: "mem \<Rightarrow> nat \<Rightarrow> nat \<Rightarrow> nat \<Rightarrow> mem option" where
  "bcopy m src dest count = copy_up m dest src count"

function memcpy_words :: "mem \<Rightarrow> nat \<Rightarrow> nat \<Rightarrow> nat \<Rightarrow> (mem \<times> nat \<times> nat \<times> nat) option" where
  "memcpy_words m d s n =
     (if 4 \<le> n then
        (case load32 m s of
           None \<Rightarrow> None
         | Some w \<Rightarrow>
             (case store32 m d w of
                None \<Rightarrow> None
              | Some m' \<Rightarrow> memcpy_words m' (d + 4) (s + 4) (n - 4)))
      else Some (m, d, s, n))"
  by pat_completeness auto
termination
  by (relation "measure (\<lambda>(m, d, s, n). n)") auto

declare memcpy_words.simps [simp del]

definition memcpy :: "mem \<Rightarrow> nat \<Rightarrow> nat \<Rightarrow> nat \<Rightarrow> mem option" where
  "memcpy m dest src count =
     (if src = dest then Some m
      else if dest mod 4 = 0 \<and> src mod 4 = 0 then do {
        (m', d, s, n) \<leftarrow> memcpy_words m dest src count;
        copy_up m' d s n
      } else copy_up m dest src count)"

definition memmove :: "mem \<Rightarrow> nat \<Rightarrow> nat \<Rightarrow> nat \<Rightarrow> mem option" where
  "memmove m dest src count =
     (if src = dest then Some m
      else if dest \<le> src then copy_up m dest src count
      else copy_down m dest src count)"

fun memcmp :: "mem \<Rightarrow> nat \<Rightarrow> nat \<Rightarrow> nat \<Rightarrow> int option" where
  "memcmp m cs ct 0 = Some 0"
| "memcmp m cs ct (Suc n) = do {
     a \<leftarrow> arr_get m cs;
     b \<leftarrow> arr_get m ct;
     (if int (unat a) - int (unat b) \<noteq> 0 then Some (int (unat a) - int (unat b))
      else memcmp m (cs + 1) (ct + 1) n)
   }"

fun memscan :: "mem \<Rightarrow> nat \<Rightarrow> int \<Rightarrow> nat \<Rightarrow> nat option" where
  "memscan m p c 0 = Some p"
| "memscan m p c (Suc n) = do {
     x \<leftarrow> arr_get m p;
     (if int (unat x) = c then Some p else memscan m (p + 1) c n)
   }"

fun memchr :: "mem \<Rightarrow> nat \<Rightarrow> u8 \<Rightarrow> nat \<Rightarrow> nat option option" where
  "memchr m p c 0 = Some None"
| "memchr m p c (Suc n) = do {
     x \<leftarrow> arr_get m p;
     (if x = c then Some (Some p) else memchr m (p + 1) c n)
   }"

fun check_bytes8 :: "mem \<Rightarrow> nat \<Rightarrow> u8 \<Rightarrow> nat \<Rightarrow> nat option option" where
  "check_bytes8 m p v 0 = Some None"
| "check_bytes8 m p v (Suc n) = do {
     x \<leftarrow> arr_get m p;
     (if x \<noteq> v then Some (Some p) else check_bytes8 m (p + 1) v n)
   }"

fun memchr_inv_words :: "mem \<Rightarrow> nat \<Rightarrow> u8 \<Rightarrow> u64 \<Rightarrow> nat \<Rightarrow> nat \<Rightarrow> nat option option" where
  "memchr_inv_words m p v v64 bytes 0 = check_bytes8 m p v (bytes mod 8)"
| "memchr_inv_words m p v v64 bytes (Suc words) = do {
     w \<leftarrow> load64 m p;
     (if w \<noteq> v64 then check_bytes8 m p v 8
      else memchr_inv_words m (p + 8) v v64 bytes words)
   }"

definition memchr_inv_value64 :: "u8 \<Rightarrow> u64" where
  "memchr_inv_value64 v =
     (let w0 = ucast v :: u64;
          w1 = w0 OR push_bit 8 w0;
          w2 = w1 OR push_bit 16 w1
      in w2 OR push_bit 32 w2)"

definition memchr_inv :: "mem \<Rightarrow> nat \<Rightarrow> u8 \<Rightarrow> nat \<Rightarrow> nat option option" where
  "memchr_inv m start v bytes =
     (if bytes \<le> 16 then check_bytes8 m start v bytes
      else
        (let v64 = memchr_inv_value64 v; prefix = start mod 8 in
         if prefix \<noteq> 0 then do {
           r \<leftarrow> check_bytes8 m start v (8 - prefix);
           (case r of
              Some p \<Rightarrow> Some (Some p)
            | None \<Rightarrow>
                (let start' = start + (8 - prefix); bytes' = bytes - (8 - prefix) in
                 memchr_inv_words m start' v v64 bytes' (bytes' div 8)))
         } else memchr_inv_words m start v v64 bytes (bytes div 8)))"

section \<open>Strings\<close>

text \<open>The loop \<open>while (P ( *a )) ++a;\<close>.\<close>

function scan_while :: "(u8 \<Rightarrow> bool) \<Rightarrow> mem \<Rightarrow> nat \<Rightarrow> nat option" where
  "scan_while P m a =
     (case arr_get m a of
        None \<Rightarrow> None
      | Some c \<Rightarrow> (if P c then scan_while P m (a + 1) else Some a))"
  by pat_completeness auto
termination
  by (relation "measure (\<lambda>(P, m, a). length m - a)") (auto simp: arr_get_def split: if_splits)

declare scan_while.simps [simp del]

definition strlen :: "mem \<Rightarrow> nat \<Rightarrow> nat option" where
  "strlen m s = do {
     sc \<leftarrow> scan_while (\<lambda>c. c \<noteq> 0) m s;
     Some (sc - s)
   }"

fun strnlen_loop :: "mem \<Rightarrow> nat \<Rightarrow> nat \<Rightarrow> nat option" where
  "strnlen_loop m sc 0 = Some sc"
| "strnlen_loop m sc (Suc n) = do {
     c \<leftarrow> arr_get m sc;
     (if c \<noteq> 0 then strnlen_loop m (sc + 1) n else Some sc)
   }"

definition strnlen :: "mem \<Rightarrow> nat \<Rightarrow> nat \<Rightarrow> nat option" where
  "strnlen m s count = do {
     sc \<leftarrow> strnlen_loop m s count;
     Some (sc - s)
   }"

function strcpy :: "mem \<Rightarrow> nat \<Rightarrow> nat \<Rightarrow> mem option" where
  "strcpy m dest src =
     (case arr_get m src of
        None \<Rightarrow> None
      | Some c \<Rightarrow>
          (case arr_set m dest c of
             None \<Rightarrow> None
           | Some m' \<Rightarrow> (if c \<noteq> 0 then strcpy m' (dest + 1) (src + 1) else Some m')))"
  by pat_completeness auto
termination
  by (relation "measure (\<lambda>(m, dest, src). length m - src)")
    (auto simp: arr_get_def arr_set_def split: if_splits)

declare strcpy.simps [simp del]

fun strncpy :: "mem \<Rightarrow> nat \<Rightarrow> nat \<Rightarrow> nat \<Rightarrow> mem option" where
  "strncpy m dest src 0 = Some m"
| "strncpy m dest src (Suc n) = do {
     c \<leftarrow> arr_get m src;
     m' \<leftarrow> arr_set m dest c;
     (if c \<noteq> 0 then strncpy m' (dest + 1) (src + 1) n else Some m')
   }"

definition strlcpy :: "mem \<Rightarrow> nat \<Rightarrow> nat \<Rightarrow> nat \<Rightarrow> (nat \<times> mem) option" where
  "strlcpy m dest src sz = do {
     ret \<leftarrow> strlen m src;
     (if sz \<noteq> 0 then do {
        let len = (if ret \<ge> sz then sz - 1 else ret);
        m1 \<leftarrow> memcpy m dest src len;
        m2 \<leftarrow> arr_set m1 (dest + len) 0;
        Some (ret, m2)
      } else Some (ret, m))
   }"

definition strcat :: "mem \<Rightarrow> nat \<Rightarrow> nat \<Rightarrow> mem option" where
  "strcat m dest src = do {
     d \<leftarrow> scan_while (\<lambda>c. c \<noteq> 0) m dest;
     strcpy m d src
   }"

fun strncat_loop :: "mem \<Rightarrow> nat \<Rightarrow> nat \<Rightarrow> nat \<Rightarrow> mem option" where
  "strncat_loop m dest src 0 = Some m"
| "strncat_loop m dest src (Suc n) = do {
     c \<leftarrow> arr_get m src;
     m' \<leftarrow> arr_set m dest c;
     (if c = 0 then Some m'
      else if n = 0 then arr_set m' (dest + 1) 0
      else strncat_loop m' (dest + 1) (src + 1) n)
   }"

definition strncat :: "mem \<Rightarrow> nat \<Rightarrow> nat \<Rightarrow> nat \<Rightarrow> mem option" where
  "strncat m dest src count =
     (if count \<noteq> 0 then do {
        d \<leftarrow> scan_while (\<lambda>c. c \<noteq> 0) m dest;
        strncat_loop m d src count
      } else Some m)"

text \<open>
  The comparison loops keep the difference of two \<open>char\<close>s in a \<open>signed char\<close>, so the result
  is the difference modulo 256 read as a signed number.
\<close>

function strcmp :: "mem \<Rightarrow> nat \<Rightarrow> nat \<Rightarrow> int option" where
  "strcmp m cs ct =
     (case arr_get m cs of
        None \<Rightarrow> None
      | Some a \<Rightarrow>
          (case arr_get m ct of
             None \<Rightarrow> None
           | Some b \<Rightarrow>
               (if a - b \<noteq> 0 \<or> a = 0 then Some (sint (a - b)) else strcmp m (cs + 1) (ct + 1))))"
  by pat_completeness auto
termination
  by (relation "measure (\<lambda>(m, cs, ct). length m - cs)") (auto simp: arr_get_def split: if_splits)

declare strcmp.simps [simp del]

fun strncmp :: "mem \<Rightarrow> nat \<Rightarrow> nat \<Rightarrow> nat \<Rightarrow> int option" where
  "strncmp m cs ct 0 = Some 0"
| "strncmp m cs ct (Suc n) = do {
     a \<leftarrow> arr_get m cs;
     b \<leftarrow> arr_get m ct;
     (if a - b \<noteq> 0 \<or> a = 0 then Some (sint (a - b)) else strncmp m (cs + 1) (ct + 1) n)
   }"

text \<open>\<open>c1\<close> and \<open>c2\<close> as the loop leaves them; equal characters continue unfolded.\<close>

fun strncasecmp_loop :: "mem \<Rightarrow> nat \<Rightarrow> nat \<Rightarrow> nat \<Rightarrow> u8 \<Rightarrow> u8 \<Rightarrow> int option" where
  "strncasecmp_loop m s1 s2 0 c1 c2 = Some (int (unat c1) - int (unat c2))"
| "strncasecmp_loop m s1 s2 (Suc n) _ _ = do {
     c1 \<leftarrow> arr_get m s1;
     c2 \<leftarrow> arr_get m s2;
     (if c1 = 0 \<or> c2 = 0 then Some (int (unat c1) - int (unat c2))
      else if c1 = c2 then strncasecmp_loop m (s1 + 1) (s2 + 1) n c1 c2
      else if tolower c1 \<noteq> tolower c2 then Some (int (unat (tolower c1)) - int (unat (tolower c2)))
      else strncasecmp_loop m (s1 + 1) (s2 + 1) n (tolower c1) (tolower c2))
   }"

definition strncasecmp :: "mem \<Rightarrow> nat \<Rightarrow> nat \<Rightarrow> nat \<Rightarrow> int option" where
  "strncasecmp m s1 s2 len = strncasecmp_loop m s1 s2 len 0 0"

definition strcasecmp :: "mem \<Rightarrow> nat \<Rightarrow> nat \<Rightarrow> int option" where
  "strcasecmp m s1 s2 = strncasecmp m s1 s2 (2 ^ 32 - 1)"

definition strchr :: "mem \<Rightarrow> nat \<Rightarrow> u8 \<Rightarrow> nat option option" where
  "strchr m s c = do {
     p \<leftarrow> scan_while (\<lambda>x. x \<noteq> c \<and> x \<noteq> 0) m s;
     x \<leftarrow> arr_get m p;
     Some (if x = c then Some p else None)
   }"

fun strrchr_loop :: "mem \<Rightarrow> nat \<Rightarrow> u8 \<Rightarrow> nat \<Rightarrow> nat option option" where
  "strrchr_loop m s c 0 = do {
     x \<leftarrow> arr_get m s;
     Some (if x = c then Some s else None)
   }"
| "strrchr_loop m s c (Suc k) = do {
     x \<leftarrow> arr_get m (s + Suc k);
     (if x = c then Some (Some (s + Suc k)) else strrchr_loop m s c k)
   }"

definition strrchr :: "mem \<Rightarrow> nat \<Rightarrow> u8 \<Rightarrow> nat option option" where
  "strrchr m s c = do {
     n \<leftarrow> strlen m s;
     strrchr_loop m s c n
   }"

text \<open>The inner loops of \<open>strspn\<close> and \<open>strpbrk\<close>: does \<open>c\<close> occur in the string at \<open>a\<close>?\<close>

definition char_in :: "mem \<Rightarrow> nat \<Rightarrow> u8 \<Rightarrow> bool option" where
  "char_in m a c = do {
     p \<leftarrow> scan_while (\<lambda>x. x \<noteq> 0 \<and> x \<noteq> c) m a;
     x \<leftarrow> arr_get m p;
     Some (x \<noteq> 0)
   }"

function strspn_loop :: "mem \<Rightarrow> nat \<Rightarrow> nat \<Rightarrow> nat \<Rightarrow> nat option" where
  "strspn_loop m p accept count =
     (case arr_get m p of
        None \<Rightarrow> None
      | Some c \<Rightarrow>
          (if c = 0 then Some count
           else (case char_in m accept c of
                   None \<Rightarrow> None
                 | Some found \<Rightarrow>
                     (if \<not> found then Some count else strspn_loop m (p + 1) accept (count + 1)))))"
  by pat_completeness auto
termination
  by (relation "measure (\<lambda>(m, p, accept, count). length m - p)") (auto simp: arr_get_def split: if_splits)

declare strspn_loop.simps [simp del]

definition strspn :: "mem \<Rightarrow> nat \<Rightarrow> nat \<Rightarrow> nat option" where
  "strspn m s accept = strspn_loop m s accept 0"

function strpbrk :: "mem \<Rightarrow> nat \<Rightarrow> nat \<Rightarrow> nat option option" where
  "strpbrk m sc1 ct =
     (case arr_get m sc1 of
        None \<Rightarrow> None
      | Some c \<Rightarrow>
          (if c = 0 then Some None
           else (case char_in m ct c of
                   None \<Rightarrow> None
                 | Some found \<Rightarrow>
                     (if found then Some (Some sc1) else strpbrk m (sc1 + 1) ct))))"
  by pat_completeness auto
termination
  by (relation "measure (\<lambda>(m, sc1, ct). length m - sc1)") (auto simp: arr_get_def split: if_splits)

declare strpbrk.simps [simp del]

text \<open>
  \<open>strtok\<close> keeps its position in the global \<open>___strtok\<close>, \<open>strsep\<close> in its first argument;
  both are passed and returned explicitly: (result, new position, memory).
\<close>

definition strtok :: "mem \<Rightarrow> nat option \<Rightarrow> nat option \<Rightarrow> nat \<Rightarrow> (nat option \<times> nat option \<times> mem) option" where
  "strtok m saved s ct =
     (case (case s of Some a \<Rightarrow> Some a | None \<Rightarrow> saved) of
        None \<Rightarrow> Some (None, saved, m)
      | Some sbegin0 \<Rightarrow> do {
          n \<leftarrow> strspn m sbegin0 ct;
          let sbegin = sbegin0 + n;
          c \<leftarrow> arr_get m sbegin;
          (if c = 0 then Some (None, None, m)
           else do {
             send \<leftarrow> strpbrk m sbegin ct;
             (case send of
                None \<Rightarrow> Some (Some sbegin, None, m)
              | Some e \<Rightarrow> do {
                  x \<leftarrow> arr_get m e;
                  (if x \<noteq> 0 then do {
                     m' \<leftarrow> arr_set m e 0;
                     Some (Some sbegin, Some (e + 1), m')
                   } else Some (Some sbegin, Some e, m))
                })
           })
        })"

definition strsep :: "mem \<Rightarrow> nat option \<Rightarrow> nat \<Rightarrow> (nat option \<times> nat option \<times> mem) option" where
  "strsep m s ct =
     (case s of
        None \<Rightarrow> Some (None, None, m)
      | Some sbegin \<Rightarrow> do {
          e \<leftarrow> strpbrk m sbegin ct;
          (case e of
             None \<Rightarrow> Some (Some sbegin, None, m)
           | Some p \<Rightarrow> do {
               m' \<leftarrow> arr_set m p 0;
               Some (Some sbegin, Some (p + 1), m')
             })
        })"

function strswab_loop :: "mem \<Rightarrow> nat \<Rightarrow> mem option" where
  "strswab_loop m p =
     (case arr_get m p of
        None \<Rightarrow> None
      | Some a \<Rightarrow>
          (if a = 0 then Some m
           else (case arr_get m (p + 1) of
                   None \<Rightarrow> None
                 | Some b \<Rightarrow>
                     (if b = 0 then Some m
                      else strswab_loop (m[p := b, p + 1 := a]) (p + 2)))))"
  by pat_completeness auto
termination
  by (relation "measure (\<lambda>(m, p). length m - p)") (auto simp: arr_get_def split: if_splits)

declare strswab_loop.simps [simp del]

definition strswab :: "mem \<Rightarrow> nat option \<Rightarrow> (nat option \<times> mem) option" where
  "strswab m s =
     (case s of
        None \<Rightarrow> Some (None, m)
      | Some p \<Rightarrow> do {
          c \<leftarrow> arr_get m p;
          (if c = 0 then Some (None, m)
           else do {
             m' \<leftarrow> strswab_loop m p;
             Some (Some p, m')
           })
        })"

text \<open>\<open>strstr\<close>: \<open>k\<close> is \<open>l1 - l2\<close>, the number of further positions to try.\<close>

fun strstr_loop :: "mem \<Rightarrow> nat \<Rightarrow> nat \<Rightarrow> nat \<Rightarrow> nat \<Rightarrow> nat option option" where
  "strstr_loop m s1 s2 l2 0 = do {
     r \<leftarrow> memcmp m s1 s2 l2;
     Some (if r = 0 then Some s1 else None)
   }"
| "strstr_loop m s1 s2 l2 (Suc k) = do {
     r \<leftarrow> memcmp m s1 s2 l2;
     (if r = 0 then Some (Some s1) else strstr_loop m (s1 + 1) s2 l2 k)
   }"

definition strstr :: "mem \<Rightarrow> nat \<Rightarrow> nat \<Rightarrow> nat option option" where
  "strstr m s1 s2 = do {
     l2 \<leftarrow> strlen m s2;
     (if l2 = 0 then Some (Some s1)
      else do {
        l1 \<leftarrow> strlen m s1;
        (if l1 < l2 then Some None else strstr_loop m s1 s2 l2 (l1 - l2))
      })
   }"

section \<open>Areas of memory\<close>

definition slice :: "mem \<Rightarrow> nat \<Rightarrow> nat \<Rightarrow> u8 list" where
  "slice m a n = take n (drop a m)"

definition blit :: "mem \<Rightarrow> nat \<Rightarrow> u8 list \<Rightarrow> mem" where
  "blit m a xs = take a m @ xs @ drop (a + length xs) m"

lemma length_slice [simp]: "a + n \<le> length m \<Longrightarrow> length (slice m a n) = n"
  by (simp add: slice_def)

lemma nth_slice [simp]: "a + n \<le> length m \<Longrightarrow> i < n \<Longrightarrow> slice m a n ! i = m ! (a + i)"
  by (simp add: slice_def)

lemma length_blit [simp]: "a + length xs \<le> length m \<Longrightarrow> length (blit m a xs) = length m"
  by (simp add: blit_def)

lemma nth_blit:
  "a + length xs \<le> length m \<Longrightarrow> i < length m \<Longrightarrow>
     blit m a xs ! i = (if a \<le> i \<and> i < a + length xs then xs ! (i - a) else m ! i)"
  by (auto simp: blit_def nth_append min_def)

lemma blit_Nil [simp]: "blit m a [] = m"
  by (simp add: blit_def)

lemma slice_blit [simp]: "a + length xs \<le> length m \<Longrightarrow> slice (blit m a xs) a (length xs) = xs"
  by (simp add: slice_def blit_def)

lemma blit_blit:
  assumes "a + length xs + length ys \<le> length m"
  shows "blit (blit m a xs) (a + length xs) ys = blit m a (xs @ ys)"
  using assms by (intro nth_equalityI) (auto simp: nth_blit nth_append)

lemma blit_Cons: "a < length m \<Longrightarrow> a + Suc (length xs) \<le> length m \<Longrightarrow>
    blit (m[a := x]) (a + 1) xs = blit m a (x # xs)"
  by (intro nth_equalityI) (auto simp: nth_blit nth_Cons' Suc_diff_Suc)

lemma slice_Suc: "a + Suc n \<le> length m \<Longrightarrow> slice m a (Suc n) = m ! a # slice m (a + 1) n"
  by (simp add: slice_def Cons_nth_drop_Suc[symmetric])

lemma slice_snoc: "a + Suc n \<le> length m \<Longrightarrow> slice m a (Suc n) = slice m a n @ [m ! (a + n)]"
  by (simp add: slice_def take_Suc_conv_app_nth)

lemma slice_add: "slice m a (n + k) = slice m a n @ slice m (a + n) k"
  by (simp add: slice_def take_add, simp only: add.commute)

lemma slice_update:
  "a + n \<le> length m \<Longrightarrow> j < a \<or> a + n \<le> j \<Longrightarrow> slice (m[j := x]) a n = slice m a n"
  by (intro nth_equalityI) auto

lemma slice_blit_other:
  "a + n \<le> length m \<Longrightarrow> b + length xs \<le> length m \<Longrightarrow> b + length xs \<le> a \<or> a + n \<le> b \<Longrightarrow>
     slice (blit m b xs) a n = slice m a n"
  by (intro nth_equalityI) (auto simp: nth_blit)

section \<open>Words and bytes\<close>

lemma byte_word32 [simp]:
  "byte_of_word32 0 (word32_of_bytes b0 b1 b2 b3) = b0"
  "byte_of_word32 1 (word32_of_bytes b0 b1 b2 b3) = b1"
  "byte_of_word32 (Suc 0) (word32_of_bytes b0 b1 b2 b3) = b1"
  "byte_of_word32 2 (word32_of_bytes b0 b1 b2 b3) = b2"
  "byte_of_word32 3 (word32_of_bytes b0 b1 b2 b3) = b3"
  unfolding byte_of_word32_def word32_of_bytes_def
  by (rule bit_word_eqI, force simp: bit_simps dest: bit_imp_le_length)+

lemma word32_of_bytes_inject:
  "word32_of_bytes a b c d = word32_of_bytes a' b' c' d' \<longleftrightarrow> a = a' \<and> b = b' \<and> c = c' \<and> d = d'"
  by (metis byte_word32)

lemma word64_of_words_inject:
  "word64_of_words l h = word64_of_words l' h' \<longleftrightarrow> l = l' \<and> h = h'"
proof
  assume eq: "word64_of_words l h = word64_of_words l' h'"
  have lo: "ucast (word64_of_words l h) = l" for l h
    unfolding word64_of_words_def
    by (rule bit_word_eqI) (force simp: bit_simps dest: bit_imp_le_length)
  have hi: "ucast (drop_bit 32 (word64_of_words l h)) = h" for l h
    unfolding word64_of_words_def
    by (rule bit_word_eqI) (force simp: bit_simps dest: bit_imp_le_length)
  from eq lo[of l h] lo[of l' h'] hi[of l h] hi[of l' h'] show "l = l' \<and> h = h'" by simp
qed simp

lemma ucast_push_byte: "n \<le> 24 \<Longrightarrow> (ucast (push_bit n (ucast (v :: u8)) :: u32) :: u64) = push_bit n (ucast v)"
  by (rule bit_word_eqI) (force simp: bit_simps dest: bit_imp_le_length)

lemma ucast_ucast_byte: "(ucast (ucast (v :: u8) :: u32) :: u64) = ucast v"
  by (rule bit_word_eqI) (force simp: bit_simps dest: bit_imp_le_length)

lemma value64_words:
  "memchr_inv_value64 v = word64_of_words (word32_of_bytes v v v v) (word32_of_bytes v v v v)"
  unfolding memchr_inv_value64_def word64_of_words_def word32_of_bytes_def Let_def
  by (simp add: unsigned_or_eq ucast_push_byte ucast_ucast_byte push_bit_or ac_simps)

lemma store32_bytes:
  assumes "a + 4 \<le> length m"
  shows "store32 m a (word32_of_bytes b0 b1 b2 b3) = Some (blit m a [b0, b1, b2, b3])"
proof -
  have "m[a := b0, a + 1 := b1, a + 2 := b2, a + 3 := b3] = blit m a [b0, b1, b2, b3]"
    using assms by (intro nth_equalityI)
      (auto simp: nth_blit nth_list_update nth_Cons' numeral_eq_Suc)
  with assms show ?thesis by (simp add: store32_def)
qed

lemma slice4: "a + 4 \<le> length m \<Longrightarrow> slice m a 4 = [m ! a, m ! (a + 1), m ! (a + 2), m ! (a + 3)]"
  by (simp add: numeral_eq_Suc slice_Suc) (simp add: slice_def)

lemma load32_bytes:
  "a + 4 \<le> length m \<Longrightarrow>
     load32 m a = Some (word32_of_bytes (m ! a) (m ! (a + 1)) (m ! (a + 2)) (m ! (a + 3)))"
  by (simp add: load32_def)

section \<open>Copying\<close>

lemma copy_up_blit:
  "d + n \<le> length m \<Longrightarrow> s + n \<le> length m \<Longrightarrow> d \<le> s \<or> s + n \<le> d \<Longrightarrow>
     copy_up m d s n = Some (blit m d (slice m s n))"
proof (induction n arbitrary: m d s)
  case 0
  then show ?case by (simp add: slice_def)
next
  case (Suc n)
  have "copy_up m d s (Suc n) = copy_up (m[d := m ! s]) (d + 1) (s + 1) n"
    using Suc.prems by simp
  also have "\<dots> = Some (blit (m[d := m ! s]) (d + 1) (slice (m[d := m ! s]) (s + 1) n))"
    using Suc.prems by (intro Suc.IH) auto
  also have "slice (m[d := m ! s]) (s + 1) n = slice m (s + 1) n"
    using Suc.prems by (intro slice_update) auto
  also have "blit (m[d := m ! s]) (d + 1) (slice m (s + 1) n) = blit m d (slice m s (Suc n))"
    using Suc.prems by (subst blit_Cons) (auto simp: slice_Suc)
  finally show ?case .
qed

lemma copy_down_blit:
  "d + n \<le> length m \<Longrightarrow> s + n \<le> length m \<Longrightarrow> s \<le> d \<Longrightarrow>
     copy_down m d s n = Some (blit m d (slice m s n))"
proof (induction n arbitrary: m)
  case 0
  then show ?case by (simp add: slice_def)
next
  case (Suc n)
  have "copy_down m d s (Suc n) = copy_down (m[d + n := m ! (s + n)]) d s n"
    using Suc.prems by simp
  also have "\<dots> = Some (blit (m[d + n := m ! (s + n)]) d (slice (m[d + n := m ! (s + n)]) s n))"
    using Suc.prems by (intro Suc.IH) auto
  also have "slice (m[d + n := m ! (s + n)]) s n = slice m s n"
    using Suc.prems by (intro slice_update) auto
  also have "blit (m[d + n := m ! (s + n)]) d (slice m s n) = blit m d (slice m s (Suc n))"
    using Suc.prems by (intro nth_equalityI) (auto simp: nth_blit slice_snoc nth_append nth_list_update)
  finally show ?case .
qed

lemma memmove_blit:
  assumes "dest + count \<le> length m" and "src + count \<le> length m"
  shows "memmove m dest src count = Some (blit m dest (slice m src count))"
proof (cases "src = dest")
  case True
  then have "blit m dest (slice m src count) = m"
    using assms by (intro nth_equalityI) (auto simp: nth_blit)
  with True show ?thesis by (simp add: memmove_def)
next
  case False
  with assms show ?thesis
    by (auto simp: memmove_def copy_up_blit copy_down_blit)
qed

lemma memcpy_words_blit:
  "d + n \<le> length m \<Longrightarrow> s + n \<le> length m \<Longrightarrow> d + 4 \<le> s \<or> s + n \<le> d \<Longrightarrow>
     memcpy_words m d s n =
       Some (blit m d (slice m s (4 * (n div 4))), d + 4 * (n div 4), s + 4 * (n div 4), n mod 4)"
proof (induction m d s n rule: memcpy_words.induct)
  case (1 m d s n)
  show ?case
  proof (cases "4 \<le> n")
    case False
    then show ?thesis by (simp add: memcpy_words.simps slice_def)
  next
    case True
    define m' where "m' = blit m d (slice m s 4)"
    define k where "k = 4 * ((n - 4) div 4)"
    have len: "length m' = length m" using 1(2,3) True by (simp add: m'_def)
    have k: "4 * (n div 4) = 4 + k" "k \<le> n - 4" using True by (auto simp: k_def le_div_geq)
    have l: "load32 m s = Some (word32_of_bytes (m ! s) (m ! (s + 1)) (m ! (s + 2)) (m ! (s + 3)))"
      using 1(3) True by (intro load32_bytes) simp
    have st: "store32 m d (word32_of_bytes (m ! s) (m ! (s + 1)) (m ! (s + 2)) (m ! (s + 3))) = Some m'"
      using 1(2,3) True by (subst store32_bytes) (auto simp: m'_def slice4)
    have "memcpy_words m d s n = memcpy_words m' (d + 4) (s + 4) (n - 4)"
      using True l st by (simp add: memcpy_words.simps[of m d s n])
    also have "\<dots> = Some (blit m' (d + 4) (slice m' (s + 4) k), d + 4 + k, s + 4 + k, (n - 4) mod 4)"
      unfolding k_def using 1(2,3,4) True len by (intro 1(1)[OF True l st]) auto
    also have "slice m' (s + 4) k = slice m (s + 4) k"
      unfolding m'_def using 1(2,3,4) k True by (intro slice_blit_other) auto
    also have "blit m' (d + 4) (slice m (s + 4) k) = blit m d (slice m s (4 + k))"
      using 1(2,3) k True blit_blit[of d "slice m s 4" "slice m (s + 4) k" m]
      by (simp add: m'_def slice_add)
    finally show ?thesis using k True by (simp add: add.assoc le_mod_geq)
  qed
qed

lemma memcpy_blit:
  assumes "dest + count \<le> length m" and "src + count \<le> length m" and "dest \<le> src \<or> src + count \<le> dest"
  shows "memcpy m dest src count = Some (blit m dest (slice m src count))"
proof -
  consider "src = dest" | "src \<noteq> dest" "dest mod 4 = 0 \<and> src mod 4 = 0"
    | "src \<noteq> dest" "\<not> (dest mod 4 = 0 \<and> src mod 4 = 0)" by blast
  then show ?thesis
  proof cases
    case 1
    then show ?thesis
      using memmove_blit[OF assms(1,2)] by (simp add: memcpy_def memmove_def)
  next
    case 2
    let ?k = "4 * (count div 4)" and ?r = "count mod 4"
    define m' where "m' = blit m dest (slice m src ?k)"
    have k: "?k + ?r = count" "?k \<le> count" by auto
    have "dest + 4 \<le> src \<or> src + count \<le> dest" using 2 assms(3) by presburger
    then have "memcpy_words m dest src count = Some (m', dest + ?k, src + ?k, ?r)"
      using assms unfolding m'_def by (intro memcpy_words_blit)
    moreover have "copy_up m' (dest + ?k) (src + ?k) ?r = Some (blit m' (dest + ?k) (slice m' (src + ?k) ?r))"
      using assms k unfolding m'_def by (intro copy_up_blit) auto
    moreover have "slice m' (src + ?k) ?r = slice m (src + ?k) ?r"
      using assms k unfolding m'_def by (intro slice_blit_other) auto
    moreover have "blit m' (dest + ?k) (slice m (src + ?k) ?r) = blit m dest (slice m src count)"
      using blit_blit[of dest "slice m src ?k" "slice m (src + ?k) ?r" m] assms k
        slice_add[of m src ?k ?r] by (simp add: m'_def)
    ultimately show ?thesis using 2 by (simp add: memcpy_def)
  next
    case 3
    then show ?thesis using assms by (auto simp: memcpy_def copy_up_blit)
  qed
qed

section \<open>Filling and scanning\<close>

lemma memset_bytes_blit:
  "s + n \<le> length m \<Longrightarrow> memset_bytes m s c n = Some (blit m s (replicate n c))"
proof (induction n arbitrary: m s)
  case (Suc n)
  then have "memset_bytes m s c (Suc n) = Some (blit (m[s := c]) (s + 1) (replicate n c))"
    using Suc.IH[of "s + 1" "m[s := c]"] by simp
  with Suc.prems show ?case by (subst (asm) blit_Cons) auto
qed simp

lemma memset_pattern_bytes:
  "memset_pattern 4 c 0 = word32_of_bytes (ucast c) (ucast c) (ucast c) (ucast c)"
proof -
  have m8: "mask 8 = (0xff :: u32)" by (simp add: mask_eq_exp_minus_1)
  have "c AND mask 8 = ucast (ucast c :: u8)"
    by (rule bit_word_eqI) (auto simp: bit_and_iff bit_mask_iff bit_ucast_iff)
  then have "c AND 0xff = ucast (ucast c :: u8)"
    by (simp only: m8)
  then show ?thesis
    by (simp add: numeral_eq_Suc word32_of_bytes_def push_bit_or ac_simps)
qed

lemma memset_words_blit:
  "s + n \<le> length m \<Longrightarrow>
     memset_words m s (word32_of_bytes c c c c) n =
       Some (blit m s (replicate (4 * (n div 4)) c), s + 4 * (n div 4), n mod 4)"
proof (induction m s "word32_of_bytes c c c c" n rule: memset_words.induct)
  case (1 m s n)
  show ?case
  proof (cases "4 \<le> n")
    case False
    then show ?thesis by (simp add: memset_words.simps)
  next
    case True
    define k where "k = 4 * ((n - 4) div 4)"
    have k: "4 * (n div 4) = 4 + k" "k \<le> n - 4" using True by (auto simp: k_def le_div_geq)
    have r4: "replicate 4 c = [c, c, c, c]" by (simp add: numeral_eq_Suc)
    have st: "store32 m s (word32_of_bytes c c c c) = Some (blit m s (replicate 4 c))"
      using 1(2) True by (simp add: store32_bytes r4)
    have "memset_words m s (word32_of_bytes c c c c) n =
        memset_words (blit m s (replicate 4 c)) (s + 4) (word32_of_bytes c c c c) (n - 4)"
      using True st by (simp add: memset_words.simps[of m s _ n])
    also have "\<dots> = Some (blit (blit m s (replicate 4 c)) (s + 4) (replicate k c), s + 4 + k, (n - 4) mod 4)"
      unfolding k_def using 1(2) True by (intro 1(1)[OF True st]) auto
    also have "blit (blit m s (replicate 4 c)) (s + 4) (replicate k c) = blit m s (replicate (4 + k) c)"
      using blit_blit[of s "replicate 4 c" "replicate k c" m] 1(2) k True by (simp add: replicate_add)
    finally show ?thesis using k True by (simp add: add.assoc le_mod_geq)
  qed
qed

lemma memset_blit:
  assumes "s + count \<le> length m"
  shows "memset m s c count = Some (blit m s (replicate count (ucast c)))"
proof (cases "s mod 4 = 0")
  case False
  with assms show ?thesis by (simp add: memset_def memset_bytes_blit)
next
  case True
  let ?k = "4 * (count div 4)" and ?r = "count mod 4" and ?b = "ucast c :: u8"
  have k: "?k + ?r = count" by simp
  have "memset_bytes (blit m s (replicate ?k ?b)) (s + ?k) ?b ?r =
      Some (blit (blit m s (replicate ?k ?b)) (s + ?k) (replicate ?r ?b))"
    using assms k by (intro memset_bytes_blit) auto
  moreover have "blit (blit m s (replicate ?k ?b)) (s + ?k) (replicate ?r ?b) = blit m s (replicate count ?b)"
    using blit_blit[of s "replicate ?k ?b" "replicate ?r ?b" m] assms k
    by (simp flip: replicate_add)
  ultimately show ?thesis
    using True assms by (simp add: memset_def memset_pattern_bytes memset_words_blit)
qed

lemma check_bytes8_add:
  "check_bytes8 m p v (a + b) =
     (case check_bytes8 m p v a of Some None \<Rightarrow> check_bytes8 m (p + a) v b | r \<Rightarrow> r)"
  by (induction a arbitrary: p) (auto simp: arr_get_def split: option.splits)

lemma check_bytes8_result:
  "p + n \<le> length m \<Longrightarrow>
     \<exists>r. check_bytes8 m p v n = Some r \<and>
       (case r of
          None \<Rightarrow> \<forall>i<n. m ! (p + i) = v
        | Some q \<Rightarrow> p \<le> q \<and> q < p + n \<and> m ! q \<noteq> v \<and> (\<forall>i. p \<le> i \<and> i < q \<longrightarrow> m ! i = v))"
proof (induction n arbitrary: p)
  case 0
  then show ?case by simp
next
  case (Suc n)
  show ?case
  proof (cases "m ! p = v")
    case False
    with Suc.prems show ?thesis by auto
  next
    case True
    obtain r where r: "check_bytes8 m (p + 1) v n = Some r"
      "case r of
          None \<Rightarrow> \<forall>i<n. m ! (p + 1 + i) = v
        | Some q \<Rightarrow> p + 1 \<le> q \<and> q < p + 1 + n \<and> m ! q \<noteq> v \<and> (\<forall>i. p + 1 \<le> i \<and> i < q \<longrightarrow> m ! i = v)"
      using Suc.IH[of "p + 1"] Suc.prems by auto
    have "case r of
          None \<Rightarrow> \<forall>i<Suc n. m ! (p + i) = v
        | Some q \<Rightarrow> p \<le> q \<and> q < p + Suc n \<and> m ! q \<noteq> v \<and> (\<forall>i. p \<le> i \<and> i < q \<longrightarrow> m ! i = v)"
    proof (cases r)
      case None
      with r(2) True show ?thesis by (auto simp: less_Suc_eq_0_disj)
    next
      case (Some q)
      have "m ! i = v" if "p \<le> i" "i < q" for i
        using r(2) Some True that by (cases "i = p") auto
      with r(2) Some show ?thesis by auto
    qed
    with r(1) True Suc.prems show ?thesis by simp
  qed
qed

lemma load64_value64:
  assumes "p + 8 \<le> length m"
  shows "\<exists>w. load64 m p = Some w \<and> (w = memchr_inv_value64 v \<longleftrightarrow> (\<forall>i<8. m ! (p + i) = v))"
proof -
  have all8: "(\<forall>i<8. P i) \<longleftrightarrow> P 0 \<and> P 1 \<and> P 2 \<and> P 3 \<and> P 4 \<and> P 5 \<and> P 6 \<and> P (7::nat)" for P
    by (auto simp: numeral_eq_Suc All_less_Suc)
  have 1: "load32 m p = Some (word32_of_bytes (m ! p) (m ! (p + 1)) (m ! (p + 2)) (m ! (p + 3)))"
    using assms by (intro load32_bytes) simp
  have 2: "load32 m (p + 4) =
      Some (word32_of_bytes (m ! (p + 4)) (m ! (p + 5)) (m ! (p + 6)) (m ! (p + 7)))"
    using assms load32_bytes[of "p + 4" m] by (simp add: add.commute add.left_commute)
  show ?thesis
    unfolding load64_def 1 2 all8
    by (auto simp: value64_words word64_of_words_inject word32_of_bytes_inject)
qed

lemma memchr_inv_words_eq:
  "p + 8 * words + bytes mod 8 \<le> length m \<Longrightarrow>
     memchr_inv_words m p v (memchr_inv_value64 v) bytes words = check_bytes8 m p v (8 * words + bytes mod 8)"
proof (induction words arbitrary: p)
  case 0
  then show ?case by simp
next
  case (Suc words)
  then obtain w where w: "load64 m p = Some w" "w = memchr_inv_value64 v \<longleftrightarrow> (\<forall>i<8. m ! (p + i) = v)"
    using load64_value64[of p m v] by auto
  obtain r where r: "check_bytes8 m p v 8 = Some r"
    "case r of
          None \<Rightarrow> \<forall>i<8. m ! (p + i) = v
        | Some q \<Rightarrow> p \<le> q \<and> q < p + 8 \<and> m ! q \<noteq> v \<and> (\<forall>i. p \<le> i \<and> i < q \<longrightarrow> m ! i = v)"
    using check_bytes8_result[of p 8 m v] Suc.prems by auto
  have all: "(\<forall>i<8. m ! (p + i) = v) \<longleftrightarrow> r = None"
  proof (cases r)
    case (Some q)
    with r(2) have "q - p < 8 \<and> m ! (p + (q - p)) \<noteq> v" by auto
    with Some show ?thesis by blast
  qed (use r(2) in simp)
  have split: "check_bytes8 m p v (8 * Suc words + bytes mod 8) =
      (case r of None \<Rightarrow> check_bytes8 m (p + 8) v (8 * words + bytes mod 8) | Some q \<Rightarrow> Some (Some q))"
    using check_bytes8_add[of m p v 8 "8 * words + bytes mod 8"] r(1)
    by (cases r) (auto simp: algebra_simps)
  show ?case
  proof (cases r)
    case None
    with w all Suc.IH[of "p + 8"] Suc.prems split show ?thesis by (simp add: algebra_simps)
  next
    case (Some q)
    with w all r(1) split show ?thesis by simp
  qed
qed

lemma memchr_inv_eq:
  assumes "start + bytes \<le> length m"
  shows "memchr_inv m start v bytes = check_bytes8 m start v bytes"
proof -
  define pre where "pre = 8 - start mod 8"
  consider "bytes \<le> 16" | "16 < bytes" "start mod 8 = 0" | "16 < bytes" "start mod 8 \<noteq> 0" by linarith
  then show ?thesis
  proof cases
    case 1
    then show ?thesis by (simp add: memchr_inv_def)
  next
    case 2
    then show ?thesis using assms by (simp add: memchr_inv_def memchr_inv_words_eq)
  next
    case 3
    then have pre: "pre \<le> bytes" by (simp add: pre_def)
    have "memchr_inv_words m (start + pre) v (memchr_inv_value64 v) (bytes - pre) ((bytes - pre) div 8) =
        check_bytes8 m (start + pre) v (bytes - pre)"
      using assms pre by (subst memchr_inv_words_eq) auto
    moreover have "check_bytes8 m start v bytes =
        (case check_bytes8 m start v pre of Some None \<Rightarrow> check_bytes8 m (start + pre) v (bytes - pre) | r \<Rightarrow> r)"
      using check_bytes8_add[of m start v pre "bytes - pre"] pre by simp
    ultimately show ?thesis
      using 3 by (auto simp: memchr_inv_def pre_def Let_def split: option.splits bind_splits)
  qed
qed

section \<open>Strings in memory\<close>

text \<open>\<open>cstring m s xs\<close>: the NUL-terminated string at address \<open>s\<close> has the characters \<open>xs\<close>.\<close>

fun cstring :: "mem \<Rightarrow> nat \<Rightarrow> u8 list \<Rightarrow> bool" where
  "cstring m s [] \<longleftrightarrow> arr_get m s = Some 0"
| "cstring m s (x # xs) \<longleftrightarrow> arr_get m s = Some x \<and> x \<noteq> 0 \<and> cstring m (s + 1) xs"

lemma arr_get_Some [simp]: "arr_get m a = Some x \<longleftrightarrow> a < length m \<and> m ! a = x"
  by (simp add: arr_get_def)

lemma cstring_iff:
  "cstring m s xs \<longleftrightarrow>
     s + length xs < length m \<and> slice m s (length xs) = xs \<and> 0 \<notin> set xs \<and> m ! (s + length xs) = 0"
proof (induction xs arbitrary: s)
  case Nil
  then show ?case by (auto simp: slice_def)
next
  case (Cons x xs)
  have "slice m s (Suc (length xs)) = x # xs \<longleftrightarrow> m ! s = x \<and> slice m (s + 1) (length xs) = xs"
    if "s + Suc (length xs) < length m" using that by (subst slice_Suc) auto
  with Cons.IH[of "s + 1"] show ?case by auto
qed

lemma cstring_bound: "cstring m s xs \<Longrightarrow> s + length xs < length m"
  by (simp add: cstring_iff)

lemma cstring_end: "cstring m s xs \<Longrightarrow> m ! (s + length xs) = 0"
  by (simp add: cstring_iff)

lemma cstring_slice: "cstring m s xs \<Longrightarrow> slice m s (length xs) = xs"
  by (simp add: cstring_iff)

lemma cstring_nth:
  assumes "cstring m s xs" and "i < length xs"
  shows "m ! (s + i) = xs ! i"
proof -
  have "slice m s (length xs) ! i = m ! (s + i)"
    using assms cstring_bound[OF assms(1)] by (intro nth_slice) auto
  then show ?thesis using assms by (simp add: cstring_slice)
qed

lemma cstring_nonzero: "cstring m s xs \<Longrightarrow> i < length xs \<Longrightarrow> m ! (s + i) \<noteq> 0"
  by (metis cstring_iff cstring_nth nth_mem)

lemma cstring_drop: "cstring m s xs \<Longrightarrow> i \<le> length xs \<Longrightarrow> cstring m (s + i) (drop i xs)"
proof (induction i arbitrary: s xs)
  case (Suc i)
  then show ?case by (cases xs) (use Suc.IH[of "s + 1"] in auto)
qed simp

lemma cstring_take:
  assumes "cstring m s xs" and "i \<le> length xs"
  shows "cstring (m[s + i := 0]) s (take i xs)"
  using assms
proof (induction xs arbitrary: s i)
  case Nil
  then show ?case by auto
next
  case (Cons x xs)
  show ?case
  proof (cases i)
    case 0
    then show ?thesis using Cons.prems by auto
  next
    case (Suc j)
    then have "cstring (m[s + 1 + j := 0]) (s + 1) (take j xs)"
      using Cons.prems by (intro Cons.IH) auto
    then show ?thesis using Cons.prems Suc by auto
  qed
qed

text \<open>A write outside the string leaves it as it is.\<close>

lemma cstring_frame:
  "cstring m s xs \<Longrightarrow> length m' = length m \<Longrightarrow> (\<forall>i. s \<le> i \<and> i \<le> s + length xs \<longrightarrow> m' ! i = m ! i) \<Longrightarrow>
     cstring m' s xs"
  by (induction xs arbitrary: s) auto

lemma cstring_unique: "cstring m s xs \<Longrightarrow> cstring m s ys \<Longrightarrow> xs = ys"
proof (induction xs arbitrary: s ys)
  case Nil
  then show ?case by (cases ys) auto
next
  case (Cons x xs)
  then show ?case by (cases ys) auto
qed

lemma scan_while_cstring:
  assumes "cstring m s xs" and "\<And>x. P x \<Longrightarrow> x \<noteq> 0"
  shows "scan_while P m s = Some (s + length (takeWhile P xs))"
  using assms(1)
proof (induction xs arbitrary: s)
  case Nil
  then show ?case using assms(2) by (subst scan_while.simps) auto
next
  case (Cons x xs)
  then show ?case by (subst scan_while.simps) auto
qed

lemma takeWhile_nonzero: "cstring m s xs \<Longrightarrow> takeWhile (\<lambda>c. c \<noteq> 0) xs = xs"
  by (auto simp: cstring_iff takeWhile_eq_all_conv)

lemma strlen_cstring: "cstring m s xs \<Longrightarrow> strlen m s = Some (length xs)"
  by (simp add: strlen_def scan_while_cstring takeWhile_nonzero)

text \<open>The string at an address.\<close>

definition string_at :: "mem \<Rightarrow> nat \<Rightarrow> u8 list option" where
  "string_at m a = do { n \<leftarrow> strlen m a; Some (slice m a n) }"

lemma string_at_cstring: "cstring m a xs \<Longrightarrow> string_at m a = Some xs"
  by (simp add: string_at_def strlen_cstring cstring_slice)

lemma strnlen_loop_cstring:
  "cstring m s xs \<Longrightarrow> strnlen_loop m s n = Some (s + min n (length xs))"
proof (induction n arbitrary: s xs)
  case (Suc n)
  then show ?case by (cases xs) (use Suc.IH[of "s + 1"] in auto)
qed simp

lemma strnlen_cstring: "cstring m s xs \<Longrightarrow> strnlen m s n = Some (min n (length xs))"
  by (simp add: strnlen_def strnlen_loop_cstring)

lemma takeWhile_stop:
  assumes "cstring m s xs" and "k = length (takeWhile P xs)"
  shows "s + k < length m" and "k < length xs \<Longrightarrow> m ! (s + k) = xs ! k \<and> \<not> P (xs ! k)"
    and "k = length xs \<Longrightarrow> m ! (s + k) = 0"
proof -
  have "k \<le> length xs" using assms(2) by (simp add: length_takeWhile_le)
  then show "s + k < length m" using cstring_bound[OF assms(1)] by simp
  show "m ! (s + k) = xs ! k \<and> \<not> P (xs ! k)" if "k < length xs"
    using that assms by (auto simp: cstring_nth dest: nth_length_takeWhile)
  show "m ! (s + k) = 0" if "k = length xs" using that cstring_end[OF assms(1)] by simp
qed

lemma takeWhile_length_less: "length (takeWhile P xs) < length xs \<longleftrightarrow> (\<exists>x\<in>set xs. \<not> P x)"
  by (metis length_takeWhile_le nat_less_le takeWhile_eq_all_conv takeWhile_eq_take take_all_iff order_refl)

lemma strchr_cstring:
  assumes "cstring m s xs"
  shows "strchr m s c =
    Some (if c = 0 then Some (s + length xs)
          else if c \<in> set xs then Some (s + length (takeWhile (\<lambda>x. x \<noteq> c) xs)) else None)"
proof -
  let ?P = "\<lambda>x. x \<noteq> c \<and> x \<noteq> 0"
  define k where "k = length (takeWhile ?P xs)"
  have z: "0 \<notin> set xs" using assms by (simp add: cstring_iff)
  then have tw: "takeWhile ?P xs = takeWhile (\<lambda>x. x \<noteq> c) xs" by (intro takeWhile_cong) auto
  note st = takeWhile_stop[OF assms k_def]
  have scan: "scan_while ?P m s = Some (s + k)"
    unfolding k_def by (rule scan_while_cstring[OF assms]) simp
  have kl: "k < length xs \<longleftrightarrow> c \<in> set xs"
    unfolding k_def takeWhile_length_less using z by auto
  have kle: "k \<le> length xs" by (simp add: k_def length_takeWhile_le)
  show ?thesis
  proof (cases "c \<in> set xs")
    case True
    then have "m ! (s + k) \<noteq> 0" using kl cstring_nonzero[OF assms] by blast
    then have "m ! (s + k) = c" using st(2) kl True by auto
    then show ?thesis using True st(1) z by (auto simp: strchr_def scan tw k_def)
  next
    case False
    then have "k = length xs" using kl kle by simp
    then show ?thesis using False st(1,3) by (auto simp: strchr_def scan)
  qed
qed

lemma char_in_cstring:
  assumes "cstring m a ys" and "c \<noteq> 0"
  shows "char_in m a c = Some (c \<in> set ys)"
proof -
  let ?P = "\<lambda>x. x \<noteq> 0 \<and> x \<noteq> c"
  define k where "k = length (takeWhile ?P ys)"
  have z: "0 \<notin> set ys" using assms by (simp add: cstring_iff)
  note st = takeWhile_stop[OF assms(1) k_def]
  have scan: "scan_while ?P m a = Some (a + k)"
    unfolding k_def by (rule scan_while_cstring[OF assms(1)]) simp
  have kl: "k < length ys \<longleftrightarrow> c \<in> set ys"
    unfolding k_def takeWhile_length_less using z by auto
  have kle: "k \<le> length ys" by (simp add: k_def length_takeWhile_le)
  have "m ! (a + k) \<noteq> 0 \<longleftrightarrow> k < length ys"
    using st(3) kle cstring_nonzero[OF assms(1)] by (cases "k = length ys") auto
  then show ?thesis using kl st(1) by (simp add: char_in_def scan)
qed

lemma strspn_loop_cstring:
  assumes "cstring m accept ys"
  shows "cstring m s xs \<Longrightarrow> strspn_loop m s accept n = Some (n + length (takeWhile (\<lambda>x. x \<in> set ys) xs))"
proof (induction xs arbitrary: s n)
  case Nil
  then show ?case by (subst strspn_loop.simps) auto
next
  case (Cons x xs)
  then show ?case using assms by (subst strspn_loop.simps) (auto simp: char_in_cstring)
qed

lemma strspn_cstring:
  "cstring m s xs \<Longrightarrow> cstring m accept ys \<Longrightarrow>
     strspn m s accept = Some (length (takeWhile (\<lambda>x. x \<in> set ys) xs))"
  by (simp add: strspn_def strspn_loop_cstring)

lemma strpbrk_cstring:
  assumes "cstring m ct ys"
  shows "cstring m s xs \<Longrightarrow> strpbrk m s ct =
    Some (if \<exists>x\<in>set xs. x \<in> set ys then Some (s + length (takeWhile (\<lambda>x. x \<notin> set ys) xs)) else None)"
proof (induction xs arbitrary: s)
  case Nil
  then show ?case by (subst strpbrk.simps) auto
next
  case (Cons x xs)
  then show ?case using assms by (subst strpbrk.simps) (auto simp: char_in_cstring)
qed

text \<open>
  One call of \<open>strsep\<close> on the string \<open>xs\<close>: the token is the text before the first separator,
  now terminated there, and the position moves to the text after it.
\<close>

lemma strsep_cstring:
  assumes s: "cstring m s xs" and ct: "cstring m ct ys"
    and k: "k = length (takeWhile (\<lambda>x. x \<notin> set ys) xs)"
  shows "\<exists>pos m'. strsep m (Some s) ct = Some (Some s, pos, m') \<and> length m' = length m \<and>
    cstring m' s (take k xs) \<and>
    (pos = None \<longleftrightarrow> k = length xs) \<and>
    (\<forall>p. pos = Some p \<longrightarrow> p = s + k + 1 \<and> xs ! k \<in> set ys \<and> cstring m' p (drop (k + 1) xs)) \<and>
    (\<forall>i. i \<noteq> s + k \<longrightarrow> m' ! i = m ! i)"
proof (cases "k < length xs")
  case False
  then have "\<forall>x\<in>set xs. x \<notin> set ys" using takeWhile_length_less[of "\<lambda>x. x \<notin> set ys" xs] k by auto
  moreover have "k = length xs" using False k length_takeWhile_le[of _ xs] by (metis le_neq_implies_less)
  ultimately show ?thesis using s by (auto simp: strsep_def strpbrk_cstring[OF ct s])
next
  case True
  let ?m = "m[s + k := 0]"
  from True have ex: "\<exists>x\<in>set xs. x \<in> set ys"
    using takeWhile_length_less[of "\<lambda>x. x \<notin> set ys" xs] k by auto
  have sep: "xs ! k \<in> set ys" using True nth_length_takeWhile[of "\<lambda>x. x \<notin> set ys" xs] k by simp
  have "cstring ?m (s + k + 1) (drop (k + 1) xs)"
  proof (rule cstring_frame)
    show "cstring m (s + k + 1) (drop (k + 1) xs)"
      using cstring_drop[OF s, of "k + 1"] True by (simp add: add.assoc)
  qed simp_all
  moreover have "s + k < length m" using True cstring_bound[OF s] by simp
  ultimately have "strsep m (Some s) ct = Some (Some s, Some (s + k + 1), ?m)"
    using ex by (simp add: strsep_def strpbrk_cstring[OF ct s] k)
  moreover have "cstring ?m s (take k xs)" using cstring_take[OF s, of k] True by simp
  ultimately show ?thesis using \<open>cstring ?m (s + k + 1) (drop (k + 1) xs)\<close> sep True
    by (intro exI[of _ "Some (s + k + 1)"] exI[of _ ?m] conjI) simp_all
qed

lemma strrchr_loop_result:
  "s + k < length m \<Longrightarrow>
     strrchr_loop m s c k =
       Some (if \<exists>i\<le>k. m ! (s + i) = c then Some (s + Max {i. i \<le> k \<and> m ! (s + i) = c}) else None)"
proof (induction k)
  case 0
  have "{i. i \<le> 0 \<and> m ! (s + i) = c} = (if m ! s = c then {0} else {})" by auto
  with 0 show ?case by auto
next
  case (Suc k)
  show ?case
  proof (cases "m ! (s + Suc k) = c")
    case True
    then have "Max {i. i \<le> Suc k \<and> m ! (s + i) = c} = Suc k" by (intro Max_eqI) auto
    with True Suc.prems show ?thesis by auto
  next
    case False
    then have "{i. i \<le> Suc k \<and> m ! (s + i) = c} = {i. i \<le> k \<and> m ! (s + i) = c}"
      by (auto simp: le_Suc_eq)
    with False Suc show ?thesis by (auto simp: le_Suc_eq)
  qed
qed

section \<open>Comparison\<close>

lemma memcmp_result:
  "cs + n \<le> length m \<Longrightarrow> ct + n \<le> length m \<Longrightarrow>
     \<exists>r. memcmp m cs ct n = Some r \<and> (r = 0 \<longleftrightarrow> slice m cs n = slice m ct n) \<and>
       (r \<noteq> 0 \<longrightarrow> (\<exists>i<n. slice m cs i = slice m ct i \<and>
          r = int (unat (m ! (cs + i))) - int (unat (m ! (ct + i)))))"
proof (induction n arbitrary: cs ct)
  case 0
  then show ?case by (simp add: slice_def)
next
  case (Suc n)
  show ?case
  proof (cases "m ! cs = m ! ct")
    case False
    then have ne: "int (unat (m ! cs)) \<noteq> int (unat (m ! ct))" by (metis of_nat_eq_iff word_unat_eq_iff)
    have "slice m cs 0 = slice m ct 0" by (simp add: slice_def)
    with False ne Suc.prems show ?thesis by (auto simp: slice_Suc intro!: exI[of _ 0])
  next
    case True
    obtain r where r: "memcmp m (cs + 1) (ct + 1) n = Some r"
      "r = 0 \<longleftrightarrow> slice m (cs + 1) n = slice m (ct + 1) n"
      "r \<noteq> 0 \<longrightarrow> (\<exists>i<n. slice m (cs + 1) i = slice m (ct + 1) i \<and>
          r = int (unat (m ! (cs + 1 + i))) - int (unat (m ! (ct + 1 + i))))"
      using Suc.IH[of "cs + 1" "ct + 1"] Suc.prems by auto
    have "\<exists>i<Suc n. slice m cs i = slice m ct i \<and>
        r = int (unat (m ! (cs + i))) - int (unat (m ! (ct + i)))" if "r \<noteq> 0"
    proof -
      from r(3) that obtain i where i: "i < n" "slice m (cs + 1) i = slice m (ct + 1) i"
        "r = int (unat (m ! (cs + 1 + i))) - int (unat (m ! (ct + 1 + i)))" by auto
      then have "slice m cs (Suc i) = slice m ct (Suc i)"
        using True Suc.prems by (auto simp: slice_Suc)
      with i show ?thesis by (intro exI[of _ "Suc i"]) auto
    qed
    with r(1,2) True Suc.prems show ?thesis by (auto simp: slice_Suc)
  qed
qed

text \<open>The order that the signed difference of two bytes gives.\<close>

fun str_order :: "u8 list \<Rightarrow> u8 list \<Rightarrow> int" where
  "str_order [] [] = 0"
| "str_order [] (y # ys) = sint (- y)"
| "str_order (x # xs) [] = sint x"
| "str_order (x # xs) (y # ys) = (if x = y then str_order xs ys else sint (x - y))"

lemma strcmp_cstring: "cstring m s xs \<Longrightarrow> cstring m t ys \<Longrightarrow> strcmp m s t = Some (str_order xs ys)"
proof (induction xs ys arbitrary: s t rule: str_order.induct)
  case (4 x xs y ys)
  then show ?case by (subst strcmp.simps) auto
qed (subst strcmp.simps; auto)+

lemma strncmp_cstring:
  "cstring m s xs \<Longrightarrow> cstring m t ys \<Longrightarrow> strncmp m s t n = Some (str_order (take n xs) (take n ys))"
proof (induction n arbitrary: s t xs ys)
  case (Suc n)
  then show ?case by (cases xs; cases ys) auto
qed simp

lemma str_order_eq: "0 \<notin> set xs \<Longrightarrow> 0 \<notin> set ys \<Longrightarrow> str_order xs ys = 0 \<longleftrightarrow> xs = ys"
  by (induction xs ys rule: str_order.induct) (auto simp: signed_eq_0_iff)

lemma sint_diff_ascii:
  assumes "unat (x :: u8) < 128" and "unat y < 128"
  shows "sint (x - y) = int (unat x) - int (unat y)"
proof -
  have stb: "signed_take_bit 7 k = k" if "- 128 \<le> k" "k < 128" for k :: int
    using that by (simp add: signed_take_bit_int_eq_self)
  have pos: "0 \<le> uint x" "0 \<le> uint y" by simp_all
  have lt: "uint x < 128" "uint y < 128" using assms unfolding unat_eq_nat_uint by linarith+
  have "sint x = uint x" "sint y = uint y"
  proof -
    have "- 128 \<le> uint x" "- 128 \<le> uint y" using pos by linarith+
    then show "sint x = uint x" "sint y = uint y" using lt by (simp_all add: sint_uint stb)
  qed
  then have "sint (x - y) = signed_take_bit 7 (uint x - uint y)"
    using sint_word_ariths(2)[of x y] by simp
  also have "\<dots> = uint x - uint y" using pos lt by (intro stb) linarith+
  finally show ?thesis by simp
qed

lemma str_order_ascii:
  assumes "\<forall>c\<in>set xs \<union> set ys. c \<noteq> 0 \<and> unat c < 128"
  shows "str_order xs ys < 0 \<longleftrightarrow> (xs, ys) \<in> lexord {(a, b). unat a < unat b}"
  using assms
proof (induction xs ys rule: str_order.induct)
  case (2 y ys)
  then have "sint (0 - y) = int (unat (0 :: u8)) - int (unat y)" by (intro sint_diff_ascii) auto
  moreover have "0 < uint y" using 2 uint_0_iff[of y] unsigned_greater_eq[of y] by (simp add: less_le)
  ultimately show ?case by simp
next
  case (3 x xs)
  then have "sint (x - 0) = int (unat x) - int (unat (0 :: u8))" by (intro sint_diff_ascii) auto
  then have "\<not> sint x < 0" by simp
  then show ?case by simp
next
  case (4 x xs y ys)
  have "sint (x - y) = int (unat x) - int (unat y)" using 4(2) by (intro sint_diff_ascii) auto
  moreover have "uint x < uint y \<longleftrightarrow> unat x < unat y" using word_less_def[of x y] word_less_nat_alt[of x y] by simp
  ultimately show ?case using 4 by auto
qed simp

section \<open>Copying and searching strings\<close>

lemma strcpy_blit:
  "cstring m src xs \<Longrightarrow> dest + length xs < length m \<Longrightarrow> dest \<le> src \<or> src + length xs < dest \<Longrightarrow>
     strcpy m dest src = Some (blit m dest (xs @ [0]))"
proof (induction xs arbitrary: m dest src)
  case Nil
  then have "m[dest := 0] = blit m dest [0]"
    by (intro nth_equalityI) (auto simp: nth_blit nth_list_update)
  with Nil show ?case by (subst strcpy.simps) auto
next
  case (Cons x xs)
  have "cstring (m[dest := x]) (src + 1) xs"
    using Cons.prems by (auto intro: cstring_frame[of m])
  then have "strcpy (m[dest := x]) (dest + 1) (src + 1) = Some (blit (m[dest := x]) (dest + 1) (xs @ [0]))"
    using Cons.prems by (intro Cons.IH) auto
  also have "blit (m[dest := x]) (dest + 1) (xs @ [0]) = blit m dest (x # xs @ [0])"
    using Cons.prems by (intro blit_Cons) auto
  finally show ?case using Cons.prems by (subst strcpy.simps) auto
qed

lemma cstring_blit:
  assumes "d + length xs < length m" and "0 \<notin> set xs"
  shows "cstring (blit m d (xs @ [0])) d xs"
proof -
  have "slice (blit m d (xs @ [0])) d (length xs) = xs"
    using assms by (intro nth_equalityI) (auto simp: nth_blit nth_append)
  with assms show ?thesis by (auto simp: cstring_iff nth_blit nth_append)
qed

lemma strcat_blit:
  assumes "cstring m dest xs" and "cstring m src ys"
    and "dest + length xs + length ys < length m" and "src + length ys < dest + length xs \<or> dest + length xs \<le> src"
  shows "strcat m dest src = Some (blit m (dest + length xs) (ys @ [0]))"
  using assms by (auto simp: strcat_def scan_while_cstring takeWhile_nonzero strcpy_blit)

lemma strlcpy_blit:
  assumes "cstring m src xs" and "dest + sz \<le> length m" and "dest \<le> src \<or> src + length xs < dest"
    and "sz \<noteq> 0"
  shows "strlcpy m dest src sz = Some (length xs, blit m dest (take (sz - 1) xs @ [0]))"
proof -
  define len where "len = (if sz \<le> length xs then sz - 1 else length xs)"
  have len: "len \<le> length xs" "len < sz" "take len xs = take (sz - 1) xs" "length (take (sz - 1) xs) = len"
    using assms(4) by (auto simp: len_def)
  have "slice m src len = take len xs"
    using cstring_slice[OF assms(1)] len(1) by (metis slice_def min.absorb1 take_take)
  then have cp: "memcpy m dest src len = Some (blit m dest (take (sz - 1) xs))"
    using assms len cstring_bound[OF assms(1)] by (subst memcpy_blit) auto
  have "(blit m dest (take (sz - 1) xs))[dest + len := 0] = blit m dest (take (sz - 1) xs @ [0])"
    using assms len by (intro nth_equalityI) (auto simp: nth_blit nth_list_update nth_append simp del: length_take)
  moreover have "dest + len < length (blit m dest (take (sz - 1) xs))"
    using assms len by (simp del: length_take)
  ultimately show ?thesis
    using assms cp by (simp add: strlcpy_def strlen_cstring len_def Let_def)
qed

lemma strstr_loop_result:
  "s1 + k + l2 \<le> length m \<Longrightarrow> s2 + l2 \<le> length m \<Longrightarrow>
     \<exists>r. strstr_loop m s1 s2 l2 k = Some r \<and>
       (case r of
          None \<Rightarrow> \<forall>i\<le>k. slice m (s1 + i) l2 \<noteq> slice m s2 l2
        | Some p \<Rightarrow> \<exists>i\<le>k. p = s1 + i \<and> slice m p l2 = slice m s2 l2 \<and>
            (\<forall>j<i. slice m (s1 + j) l2 \<noteq> slice m s2 l2))"
proof (induction k arbitrary: s1)
  case 0
  then show ?case using memcmp_result[of s1 l2 m s2] by auto
next
  case (Suc k)
  obtain c where c: "memcmp m s1 s2 l2 = Some c" "c = 0 \<longleftrightarrow> slice m s1 l2 = slice m s2 l2"
    using memcmp_result[of s1 l2 m s2] Suc.prems by auto
  show ?case
  proof (cases "c = 0")
    case True
    with c show ?thesis by (auto intro!: exI[of _ 0])
  next
    case False
    obtain r where r: "strstr_loop m (s1 + 1) s2 l2 k = Some r"
      "case r of
          None \<Rightarrow> \<forall>i\<le>k. slice m (s1 + 1 + i) l2 \<noteq> slice m s2 l2
        | Some p \<Rightarrow> \<exists>i\<le>k. p = s1 + 1 + i \<and> slice m p l2 = slice m s2 l2 \<and>
            (\<forall>j<i. slice m (s1 + 1 + j) l2 \<noteq> slice m s2 l2)"
      using Suc.IH[of "s1 + 1"] Suc.prems by auto
    have shift: "slice m (s1 + j) l2 \<noteq> slice m s2 l2"
      if "\<And>i. i < n \<Longrightarrow> slice m (s1 + 1 + i) l2 \<noteq> slice m s2 l2" "j < Suc n" for j n
      using that False c by (cases j) auto
    have "case r of
          None \<Rightarrow> \<forall>i\<le>Suc k. slice m (s1 + i) l2 \<noteq> slice m s2 l2
        | Some p \<Rightarrow> \<exists>i\<le>Suc k. p = s1 + i \<and> slice m p l2 = slice m s2 l2 \<and>
            (\<forall>j<i. slice m (s1 + j) l2 \<noteq> slice m s2 l2)"
    proof (cases r)
      case None
      with r(2) have "\<And>i. i < Suc k \<Longrightarrow> slice m (s1 + 1 + i) l2 \<noteq> slice m s2 l2" by auto
      from shift[OF this] None show ?thesis by auto
    next
      case (Some p)
      with r(2) obtain i where i: "i \<le> k" "p = s1 + 1 + i" "slice m p l2 = slice m s2 l2"
        "\<And>j. j < i \<Longrightarrow> slice m (s1 + 1 + j) l2 \<noteq> slice m s2 l2" by auto
      with Some shift[OF i(4)] show ?thesis by (intro exI[of _ "Suc i"] | simp)+
    qed
    with r(1) c False show ?thesis by simp
  qed
qed

lemma cstring_slice_in:
  "cstring m s xs \<Longrightarrow> i + n \<le> length xs \<Longrightarrow> slice m (s + i) n = take n (drop i xs)"
  using cstring_slice[of m "s + i" "drop i xs"] cstring_drop[of m s xs i]
  by (simp add: slice_def) (metis le_diff_conv2 add.commute min.absorb1 take_take add_leD1)

lemma strstr_cstring:
  assumes s1: "cstring m s1 xs" and s2: "cstring m s2 ys"
  shows "\<exists>r. strstr m s1 s2 = Some r \<and>
    (case r of
       None \<Rightarrow> \<forall>i. take (length ys) (drop i xs) \<noteq> ys
     | Some p \<Rightarrow> \<exists>i. p = s1 + i \<and> i \<le> length xs \<and> take (length ys) (drop i xs) = ys \<and>
         (\<forall>j<i. take (length ys) (drop j xs) \<noteq> ys))"
proof -
  let ?l = "length ys"
  have long: "i + ?l \<le> length xs" if "take ?l (drop i xs) = ys" "?l \<noteq> 0" for i
  proof -
    have "?l \<le> length xs - i" using arg_cong[OF that(1), of length] by simp
    with that(2) show ?thesis by linarith
  qed
  consider "?l = 0" | "?l \<noteq> 0" "length xs < ?l" | "?l \<noteq> 0" "?l \<le> length xs" by linarith
  then show ?thesis
  proof cases
    case 1
    then show ?thesis by (auto simp: strstr_def strlen_cstring[OF s2])
  next
    case 2
    then show ?thesis using long by (fastforce simp: strstr_def strlen_cstring[OF s2] strlen_cstring[OF s1])
  next
    case 3
    obtain r where r: "strstr_loop m s1 s2 ?l (length xs - ?l) = Some r"
      "case r of
          None \<Rightarrow> \<forall>i\<le>length xs - ?l. slice m (s1 + i) ?l \<noteq> slice m s2 ?l
        | Some p \<Rightarrow> \<exists>i\<le>length xs - ?l. p = s1 + i \<and> slice m p ?l = slice m s2 ?l \<and>
            (\<forall>j<i. slice m (s1 + j) ?l \<noteq> slice m s2 ?l)"
      using strstr_loop_result[of s1 "length xs - ?l" ?l m s2] cstring_bound[OF s1] cstring_bound[OF s2] 3
      by auto
    have sl: "slice m (s1 + i) ?l = take ?l (drop i xs)" if "i \<le> length xs - ?l" for i
      using that 3 by (intro cstring_slice_in[OF s1]) simp
    have "strstr m s1 s2 = Some r"
      using r(1) 3 by (simp add: strstr_def strlen_cstring[OF s1] strlen_cstring[OF s2])
    moreover have "case r of
       None \<Rightarrow> \<forall>i. take ?l (drop i xs) \<noteq> ys
     | Some p \<Rightarrow> \<exists>i. p = s1 + i \<and> i \<le> length xs \<and> take ?l (drop i xs) = ys \<and>
         (\<forall>j<i. take ?l (drop j xs) \<noteq> ys)"
    proof (cases r)
      case None
      then show ?thesis using r(2) long 3 by (auto simp: sl cstring_slice[OF s2]) (metis le_diff_conv2 sl)
    next
      case (Some p)
      then show ?thesis using r(2) by (auto simp: sl cstring_slice[OF s2])
    qed
    ultimately show ?thesis by blast
  qed
qed

section \<open>Correctness of the string library\<close>

definition sample_mem :: mem where
  "sample_mem = ascii ''a=b,c'' @ [0] @ ascii ''=,'' @ [0] @ ascii ''c=0123456789abcdefX'' @ [0, 0]"

text \<open>C26: \<open>memmove\<close> copies an area of memory to another one even when they overlap: afterwards
  the destination holds what the source held before, and every other byte is unchanged.\<close>

theorem memmove_correct:
  assumes "dest + count \<le> length m" and "src + count \<le> length m"
  shows "\<exists>m'. memmove m dest src count = Some m' \<and> length m' = length m \<and>
    slice m' dest count = slice m src count \<and>
    (\<forall>i<length m. i < dest \<or> dest + count \<le> i \<longrightarrow> m' ! i = m ! i)"
  using assms slice_blit[of dest "slice m src count" m]
  by (auto simp: memmove_blit nth_blit)

theorem memmove_correct_witness:
  "\<exists>m'. memmove sample_mem 2 0 8 = Some m' \<and> slice m' 2 8 = slice sample_mem 0 8"
proof -
  have "length sample_mem = 30" by (simp add: sample_mem_def ascii_def)
  then show ?thesis using memmove_correct[of 2 8 sample_mem 0] by auto
qed

text \<open>The word-at-a-time loops of \<open>memcpy\<close> and \<open>memset\<close> compute what their byte loops
  compute: \<open>memcpy\<close> agrees with \<open>memmove\<close> unless the destination starts inside the source
  area, and \<open>memset\<close> agrees with \<open>memset_bytes\<close> on the low byte of its argument.\<close>

theorem memcpy_memset_bytewise:
  assumes "dest + count \<le> length m" and "src + count \<le> length m" and "dest \<le> src \<or> src + count \<le> dest"
  shows "memcpy m dest src count = memmove m dest src count \<and>
    memset m dest c count = memset_bytes m dest (ucast c) count"
  using assms by (simp_all add: memcpy_blit memmove_blit memset_blit memset_bytes_blit)

theorem memcpy_memset_bytewise_witness:
  "memcpy sample_mem 4 8 7 = memmove sample_mem 4 8 7 \<and>
   memset sample_mem 4 0x141 7 = memset_bytes sample_mem 4 0x41 7"
proof -
  have "length sample_mem = 30" by (simp add: sample_mem_def ascii_def)
  then have "memcpy sample_mem 4 8 7 = memmove sample_mem 4 8 7 \<and>
      memset sample_mem 4 0x141 7 = memset_bytes sample_mem 4 (ucast (0x141 :: u32)) 7"
    by (intro memcpy_memset_bytewise) simp_all
  moreover have "(ucast (0x141 :: u32) :: u8) = 0x41" by simp
  ultimately show ?thesis by (simp only:)
qed

text \<open>\<open>memchr_inv\<close>, which skips matching 64-bit words after aligning its pointer, finds
  exactly what a search byte by byte finds: the first byte of the area that differs from the
  given value, or nothing when all bytes are equal to it.\<close>

theorem memchr_inv_correct:
  assumes "start + bytes \<le> length m"
  shows "memchr_inv m start v bytes = check_bytes8 m start v bytes \<and>
    (\<exists>r. memchr_inv m start v bytes = Some r \<and>
       (case r of
          None \<Rightarrow> \<forall>i<bytes. m ! (start + i) = v
        | Some q \<Rightarrow> start \<le> q \<and> q < start + bytes \<and> m ! q \<noteq> v \<and>
            (\<forall>i. start \<le> i \<and> i < q \<longrightarrow> m ! i = v)))"
  using memchr_inv_eq[OF assms, of v] check_bytes8_result[OF assms, of v] by simp_all

theorem memchr_inv_correct_witness:
  "memchr_inv (replicate 37 7 @ [8, 7, 7]) 3 7 37 = Some (Some 37)"
  using memchr_inv_correct[of 3 37 "replicate 37 7 @ [8, 7, 7]" 7] by (simp add: numeral_eq_Suc arr_get_def)

text \<open>\<open>strlcpy\<close> leaves in a buffer of \<open>sz\<close> bytes a terminated string holding as much of the
  source as fits, writes nothing outside the buffer and returns the length of the source.\<close>

theorem strlcpy_correct:
  assumes "cstring m src xs" and "dest + sz \<le> length m" and "dest \<le> src \<or> src + length xs < dest"
    and "0 < sz"
  shows "\<exists>m'. strlcpy m dest src sz = Some (length xs, m') \<and> length m' = length m \<and>
    cstring m' dest (take (sz - 1) xs) \<and>
    (\<forall>i<length m. i < dest \<or> dest + sz \<le> i \<longrightarrow> m' ! i = m ! i)"
proof -
  let ?m = "blit m dest (take (sz - 1) xs @ [0])"
  have "0 \<notin> set (take (sz - 1) xs)" using assms(1) by (auto simp: cstring_iff dest: in_set_takeD)
  moreover have "dest + length (take (sz - 1) xs) < length m"
    using assms min.cobounded2[of "length xs" "sz - 1"] by simp
  ultimately have "cstring ?m dest (take (sz - 1) xs)" by (intro cstring_blit)
  then show ?thesis
    using strlcpy_blit[OF assms(1-3)] assms(2,4) by (auto simp: nth_blit)
qed

theorem strlcpy_correct_witness:
  "\<exists>m'. strlcpy sample_mem 10 0 4 = Some (5, m') \<and> cstring m' 10 (ascii ''a=b'')"
proof -
  have "cstring sample_mem 0 (ascii ''a=b,c'')" and "length sample_mem = 30"
    by (simp_all add: sample_mem_def ascii_def)
  then show ?thesis
    using strlcpy_correct[of sample_mem 0 "ascii ''a=b,c''" 10 4] by (auto simp: ascii_def)
qed

text \<open>\<open>strcmp\<close> returns zero exactly for equal strings, and on ASCII strings a negative
  number exactly when the first precedes the second in the byte-wise lexicographic order.\<close>

theorem strcmp_correct:
  assumes "cstring m s xs" and "cstring m t ys"
  shows "\<exists>r. strcmp m s t = Some r \<and> (r = 0 \<longleftrightarrow> xs = ys) \<and>
    ((\<forall>c\<in>set xs \<union> set ys. unat c < 128) \<longrightarrow>
       (r < 0 \<longleftrightarrow> (xs, ys) \<in> lexord {(a, b). unat a < unat b}))"
proof -
  have "0 \<notin> set xs" "0 \<notin> set ys" using assms by (simp_all add: cstring_iff)
  then have "str_order xs ys < 0 \<longleftrightarrow> (xs, ys) \<in> lexord {(a, b). unat a < unat b}"
    if "\<forall>c\<in>set xs \<union> set ys. unat c < 128"
    using that by (intro str_order_ascii) auto
  then show ?thesis
    using assms \<open>0 \<notin> set xs\<close> \<open>0 \<notin> set ys\<close> by (auto simp: strcmp_cstring str_order_eq)
qed

theorem strcmp_correct_witness: "\<exists>r. strcmp sample_mem 0 9 = Some r \<and> r < 0"
proof -
  have "cstring sample_mem 0 (ascii ''a=b,c'')" "cstring sample_mem 9 (ascii ''c=0123456789abcdefX'')"
    by (simp_all add: sample_mem_def ascii_def)
  from strcmp_correct[OF this] show ?thesis by (auto simp: ascii_def)
qed

text \<open>\<open>strstr\<close> returns the first occurrence of a string in another, NULL exactly when it
  does not occur.\<close>

theorem strstr_first_occurrence:
  assumes "cstring m s1 xs" and "cstring m s2 ys"
  shows "\<exists>r. strstr m s1 s2 = Some r \<and>
    (case r of
       None \<Rightarrow> \<forall>i. take (length ys) (drop i xs) \<noteq> ys
     | Some p \<Rightarrow> \<exists>i. p = s1 + i \<and> i \<le> length xs \<and> take (length ys) (drop i xs) = ys \<and>
         (\<forall>j<i. take (length ys) (drop j xs) \<noteq> ys))"
  using assms by (rule strstr_cstring)

theorem strstr_first_occurrence_witness: "strstr sample_mem 0 3 = Some (Some 3)"
proof -
  have "cstring sample_mem 0 (ascii ''a=b,c'')" "cstring sample_mem 3 (ascii '',c'')"
    by (simp_all add: sample_mem_def ascii_def)
  then obtain r where r: "strstr sample_mem 0 3 = Some r"
    "case r of
       None \<Rightarrow> \<forall>i. take (length (ascii '',c'')) (drop i (ascii ''a=b,c'')) \<noteq> ascii '',c''
     | Some p \<Rightarrow> \<exists>i. p = 0 + i \<and> i \<le> length (ascii ''a=b,c'') \<and>
         take (length (ascii '',c'')) (drop i (ascii ''a=b,c'')) = ascii '',c'' \<and>
         (\<forall>j<i. take (length (ascii '',c'')) (drop j (ascii ''a=b,c'')) \<noteq> ascii '',c'')"
    using strstr_first_occurrence by blast
  have occ: "take 2 (drop i (ascii ''a=b,c'')) = ascii '',c'' \<longleftrightarrow> i = 3" if "i \<le> 5" for i
  proof -
    from that consider "i = 0" | "i = 1" | "i = 2" | "i = 3" | "i = 4" | "i = 5" by linarith
    then show ?thesis by cases (simp_all add: ascii_def)
  qed
  show ?thesis
  proof (cases r)
    case None
    then have "take (length (ascii '',c'')) (drop 3 (ascii ''a=b,c'')) \<noteq> ascii '',c''"
      using r(2) by (simp del: length_Cons)
    then show ?thesis by (simp add: ascii_def)
  next
    case (Some p)
    then have "p \<le> 5 \<and> take 2 (drop p (ascii ''a=b,c'')) = ascii '',c''"
      using r(2) by (auto simp: ascii_def numeral_2_eq_2)
    then show ?thesis using occ[of p] Some r(1) by simp
  qed
qed

text \<open>\<open>strsep\<close> cuts the string at the first separator: the token is the text before it, now
  terminated, and the position moves past it, to NULL when there is no separator left.\<close>

theorem strsep_correct:
  assumes "cstring m s xs" and "cstring m ct ys" and "k = length (takeWhile (\<lambda>x. x \<notin> set ys) xs)"
  shows "\<exists>pos m'. strsep m (Some s) ct = Some (Some s, pos, m') \<and> length m' = length m \<and>
    cstring m' s (take k xs) \<and> (pos = None \<longleftrightarrow> k = length xs) \<and>
    (\<forall>p. pos = Some p \<longrightarrow> p = s + k + 1 \<and> xs ! k \<in> set ys \<and> cstring m' p (drop (k + 1) xs)) \<and>
    (\<forall>i. i \<noteq> s + k \<longrightarrow> m' ! i = m ! i)"
  using strsep_cstring[OF assms] by blast

theorem strsep_correct_witness:
  "\<exists>m'. strsep sample_mem (Some 0) 6 = Some (Some 0, Some 2, m') \<and> cstring m' 0 (ascii ''a'') \<and>
     cstring m' 2 (ascii ''b,c'')"
proof -
  have "cstring sample_mem 0 (ascii ''a=b,c'')" "cstring sample_mem 6 (ascii ''=,'')"
    by (simp_all add: sample_mem_def ascii_def)
  from strsep_correct[OF this refl] obtain m' where
    "strsep sample_mem (Some 0) 6 = Some (Some 0, Some 2, m')" "cstring m' 0 (ascii ''a'')"
    "cstring m' 2 (ascii ''b,c'')" by (auto simp: ascii_def simp del: cstring.simps)
  then show ?thesis by blast
qed

end
