(* ===== verification/Fifo_Spec.thy ===== *)
theory Fifo_Spec
  imports Uboot_Prelude
begin

text \<open>
  The contract of a byte buffer: bytes come out in the order they went in. \<open>contents s\<close> is the
  abstract queue of the buffer state \<open>s\<close>. A \<open>put\<close> that the buffer has room for appends one
  byte, a \<open>get\<close> takes the oldest one. The client lemma is about any interleaving of the two.
\<close>

datatype fifo_op = Put u8 | Get

fun fifo_run :: "('s \<Rightarrow> u8 \<Rightarrow> 's option) \<Rightarrow> ('s \<Rightarrow> (u8 option \<times> 's) option) \<Rightarrow> fifo_op list \<Rightarrow> 's \<Rightarrow>
    (u8 list \<times> 's) option" where
  "fifo_run put get [] s = Some ([], s)"
| "fifo_run put get (Put c # ops) s = do {
     s' \<leftarrow> put s c;
     fifo_run put get ops s'
   }"
| "fifo_run put get (Get # ops) s = do {
     (r, s') \<leftarrow> get s;
     (out, s'') \<leftarrow> fifo_run put get ops s';
     Some ((case r of None \<Rightarrow> out | Some c \<Rightarrow> c # out), s'')
   }"

fun fifo_puts :: "fifo_op list \<Rightarrow> u8 list" where
  "fifo_puts [] = []"
| "fifo_puts (Put c # ops) = c # fifo_puts ops"
| "fifo_puts (Get # ops) = fifo_puts ops"

locale byte_fifo =
  fixes put :: "'s \<Rightarrow> u8 \<Rightarrow> 's option"
    and get :: "'s \<Rightarrow> (u8 option \<times> 's) option"
    and contents :: "'s \<Rightarrow> u8 list"
    and inv :: "'s \<Rightarrow> bool"
    and capacity :: "'s \<Rightarrow> nat"
  assumes put_law: "inv s \<Longrightarrow> length (contents s) < capacity s \<Longrightarrow>
      \<exists>s'. put s c = Some s' \<and> inv s' \<and> contents s' = contents s @ [c] \<and> capacity s' = capacity s"
    and get_law: "inv s \<Longrightarrow>
      \<exists>s'. get s = Some (if contents s = [] then None else Some (hd (contents s)), s') \<and> inv s' \<and>
        contents s' = tl (contents s) \<and> capacity s' = capacity s"
begin

text \<open>
  Whatever the interleaving, as long as no more bytes are put than fit, the bytes got out followed
  by the bytes still held are the bytes held at first followed by the bytes put in.
\<close>

lemma run_fifo:
  "inv s \<Longrightarrow> length (contents s) + length (fifo_puts ops) \<le> capacity s \<Longrightarrow>
     \<exists>out s'. fifo_run put get ops s = Some (out, s') \<and> inv s' \<and> capacity s' = capacity s \<and>
       out @ contents s' = contents s @ fifo_puts ops"
proof (induction ops arbitrary: s)
  case Nil
  then show ?case by simp
next
  case (Cons a ops)
  show ?case
  proof (cases a)
    case (Put c)
    then obtain s1 where s1: "put s c = Some s1" "inv s1" "contents s1 = contents s @ [c]"
      "capacity s1 = capacity s" using put_law[of s c] Cons.prems by auto
    then show ?thesis using Cons.IH[of s1] Cons.prems Put by auto
  next
    case Get
    obtain s1 where s1: "get s = Some (if contents s = [] then None else Some (hd (contents s)), s1)"
      "inv s1" "contents s1 = tl (contents s)" "capacity s1 = capacity s"
      using get_law[of s] Cons.prems(1) by blast
    have "length (contents s1) + length (fifo_puts ops) \<le> capacity s1"
      using Cons.prems(2) Get s1(3,4) by simp
    then obtain out s2 where "fifo_run put get ops s1 = Some (out, s2)" "inv s2"
      "capacity s2 = capacity s" "out @ contents s2 = tl (contents s) @ fifo_puts ops"
      using Cons.IH[of s1] s1 by auto
    with s1 Get show ?thesis
      by (cases "contents s") auto
  qed
qed

end

end
