(* ===== verification/Circbuf.thy ===== *)
theory Circbuf
  imports Fifo_Spec
begin

text \<open>
  The circular buffer of \<open>lib/circbuf.c\<close>. The allocated block is a list of bytes; \<open>top\<close> and
  \<open>tail\<close> are offsets into it and \<open>end\<close> is its length. A push into a full buffer overwrites the
  oldest bytes.
\<close>

record circbuf =
  cb_size :: u32
  totalsize :: u32
  top :: nat
  tail :: nat
  cb_data :: "u8 list"
  cb_end :: nat

text \<open>\<open>buf_init\<close>: the parameter is the block that \<open>malloc\<close> returned.\<close>

definition buf_init :: "u8 list \<Rightarrow> u32 \<Rightarrow> circbuf" where
  "buf_init block sz =
     \<lparr>cb_size = 0, totalsize = sz, top = 0, tail = 0, cb_data = block, cb_end = unat sz\<rparr>"

fun buf_pop_loop :: "circbuf \<Rightarrow> nat \<Rightarrow> nat \<Rightarrow> (u8 list \<times> nat) option" where
  "buf_pop_loop buf p 0 = Some ([], p)"
| "buf_pop_loop buf p (Suc n) = do {
     c \<leftarrow> arr_get (cb_data buf) p;
     (dest, p') \<leftarrow> buf_pop_loop buf (if p + 1 = cb_end buf then 0 else p + 1) n;
     Some (c # dest, p')
   }"

definition buf_pop :: "circbuf \<Rightarrow> u32 \<Rightarrow> (u32 \<times> u8 list \<times> circbuf) option" where
  "buf_pop buf len0 =
     (let len = (if len0 > cb_size buf then cb_size buf else len0) in do {
        (dest, p) \<leftarrow> buf_pop_loop buf (top buf) (unat len);
        Some (len, dest, buf\<lparr>top := p, cb_size := cb_size buf - len\<rparr>)
      })"

text \<open>The push loop: \<open>p\<close> is the local write pointer, the characters left are the list.\<close>

fun buf_push_loop :: "circbuf \<Rightarrow> nat \<Rightarrow> u8 list \<Rightarrow> (circbuf \<times> nat) option" where
  "buf_push_loop buf p [] = Some (buf, p)"
| "buf_push_loop buf p (c # src) = do {
     d \<leftarrow> arr_set (cb_data buf) p c;
     let p' = (if p + 1 = cb_end buf then 0 else p + 1);
     let buf' = (if cb_size buf < totalsize buf then buf\<lparr>cb_data := d, cb_size := cb_size buf + 1\<rparr>
                 else buf\<lparr>cb_data := d, top := (if top buf + 1 = cb_end buf then 0 else top buf + 1)\<rparr>);
     buf_push_loop buf' p' src
   }"

definition buf_push :: "circbuf \<Rightarrow> u8 list \<Rightarrow> (u32 \<times> circbuf) option" where
  "buf_push buf src = do {
     (buf', p) \<leftarrow> buf_push_loop buf (tail buf) src;
     Some (of_nat (length src), buf'\<lparr>tail := p\<rparr>)
   }"

section \<open>The queue a buffer holds\<close>

definition cb_contents :: "circbuf \<Rightarrow> u8 list" where
  "cb_contents buf =
     map (\<lambda>i. cb_data buf ! ((top buf + i) mod unat (totalsize buf))) [0..<unat (cb_size buf)]"

definition cb_inv :: "circbuf \<Rightarrow> bool" where
  "cb_inv buf \<longleftrightarrow>
     0 < totalsize buf \<and> cb_end buf = unat (totalsize buf) \<and> length (cb_data buf) = unat (totalsize buf) \<and>
     cb_size buf \<le> totalsize buf \<and> top buf < unat (totalsize buf) \<and>
     tail buf = (top buf + unat (cb_size buf)) mod unat (totalsize buf)"

lemma length_cb_contents [simp]: "length (cb_contents buf) = unat (cb_size buf)"
  by (simp add: cb_contents_def)

lemma wrap_mod: "p < (N :: nat) \<Longrightarrow> (if p + 1 = N then 0 else p + 1) = (p + 1) mod N"
  by auto

lemma buf_pop_loop_contents:
  assumes "cb_end buf = N" and "length (cb_data buf) = N" and "p < N"
  shows "buf_pop_loop buf p n = Some (map (\<lambda>i. cb_data buf ! ((p + i) mod N)) [0..<n], (p + n) mod N)"
  using assms(3)
proof (induction n arbitrary: p)
  case (Suc n)
  have "(p + 1) mod N < N" using Suc.prems by simp
  then have "buf_pop_loop buf ((p + 1) mod N) n =
      Some (map (\<lambda>i. cb_data buf ! ((p + 1 + i) mod N)) [0..<n], (p + 1 + n) mod N)"
    using Suc.IH[of "(p + 1) mod N"] by (simp add: mod_simps)
  moreover have "map (\<lambda>i. cb_data buf ! ((p + i) mod N)) [0..<Suc n] =
      cb_data buf ! p # map (\<lambda>i. cb_data buf ! ((p + 1 + i) mod N)) [0..<n]"
    using Suc.prems by (simp only: upt_conv_Cons map_Suc_upt[symmetric] zero_less_Suc) simp
  ultimately show ?case
    using Suc.prems assms wrap_mod[OF Suc.prems] by (simp del: upt_Suc)
qed simp

lemma buf_pop_queue:
  assumes "cb_inv buf" and "k = min (unat len) (length (cb_contents buf))"
  shows "\<exists>buf'. buf_pop buf len = Some (of_nat k, take k (cb_contents buf), buf') \<and> cb_inv buf' \<and>
    cb_contents buf' = drop k (cb_contents buf) \<and> totalsize buf' = totalsize buf"
proof -
  let ?N = "unat (totalsize buf)"
  define len' where "len' = (if len > cb_size buf then cb_size buf else len)"
  have k: "unat len' = k" "k \<le> unat (cb_size buf)" "len' \<le> cb_size buf"
    using assms(2) by (auto simp: len'_def min_def word_le_nat_alt word_less_nat_alt)
  have len': "len' = of_nat k" unfolding k(1)[symmetric] by simp
  let ?buf = "buf\<lparr>top := (top buf + k) mod ?N, cb_size := cb_size buf - len'\<rparr>"
  have sz: "unat (cb_size buf - len') = unat (cb_size buf) - k"
    using k by (simp add: unat_minus_nowrap)
  have pop: "buf_pop_loop buf (top buf) k = Some (take k (cb_contents buf), (top buf + k) mod ?N)"
    using assms(1) k by (subst buf_pop_loop_contents[where N = ?N])
      (auto simp: cb_inv_def cb_contents_def take_map)
  have "((top buf + k) mod ?N + (unat (cb_size buf) - k)) mod ?N = (top buf + unat (cb_size buf)) mod ?N"
    using k(2) by (simp only: mod_add_left_eq add.assoc le_add_diff_inverse)
  then have inv: "cb_inv ?buf"
    using assms(1) sz k(2) by (simp add: cb_inv_def word_le_nat_alt word_less_nat_alt) linarith
  have "cb_contents ?buf = drop k (cb_contents buf)"
    by (rule nth_equalityI) (auto simp: cb_contents_def sz mod_simps add.assoc)
  with pop inv k show ?thesis
    unfolding buf_pop_def len'_def[symmetric] by (auto simp: Let_def len'[symmetric])
qed

lemma mod_distinct:
  assumes "i < j" and "j < i + (N :: nat)"
  shows "(a + i) mod N \<noteq> (a + j) mod N"
proof
  assume "(a + i) mod N = (a + j) mod N"
  then have "N dvd (a + j) - (a + i)" using assms by (subst mod_eq_dvd_iff_nat[symmetric]) auto
  then have "N dvd j - i" by simp
  then show False using assms by (auto dest: dvd_imp_le)
qed

text \<open>One iteration of the push loop.\<close>

definition push_one :: "circbuf \<Rightarrow> u8 \<Rightarrow> circbuf" where
  "push_one buf c =
     (let d = (cb_data buf)[tail buf := c]; p = (tail buf + 1) mod unat (totalsize buf) in
      if cb_size buf < totalsize buf then buf\<lparr>cb_data := d, cb_size := cb_size buf + 1, tail := p\<rparr>
      else buf\<lparr>cb_data := d, top := (top buf + 1) mod unat (totalsize buf), tail := p\<rparr>)"

lemma push_one_room:
  assumes inv: "cb_inv buf" and room: "cb_size buf < totalsize buf"
  shows "cb_inv (push_one buf c) \<and> cb_contents (push_one buf c) = cb_contents buf @ [c]"
proof -
  let ?N = "unat (totalsize buf)" and ?n = "unat (cb_size buf)"
  have n: "?n < ?N" using room by (simp add: word_less_nat_alt)
  have sz: "unat (cb_size buf + 1) = ?n + 1"
    using n unat_u32_less[of "totalsize buf"] by (subst unat_plus_nowrap) auto
  have inv': "cb_inv (push_one buf c)"
    using inv n sz by (auto simp: cb_inv_def push_one_def Let_def word_less_nat_alt word_le_nat_alt mod_simps)
  have "cb_contents (push_one buf c) ! i = (cb_contents buf @ [c]) ! i" if "i < ?n + 1" for i
  proof (cases "i = ?n")
    case True
    then show ?thesis
      using inv room sz by (simp add: cb_contents_def push_one_def Let_def cb_inv_def nth_append)
  next
    case False
    then have "(top buf + i) mod ?N \<noteq> (top buf + ?n) mod ?N" using that n by (intro mod_distinct) auto
    then show ?thesis
      using inv room sz that False by (simp add: cb_contents_def push_one_def Let_def cb_inv_def nth_append)
  qed
  then have "cb_contents (push_one buf c) = cb_contents buf @ [c]"
    using room sz by (intro nth_equalityI) (auto simp: push_one_def Let_def)
  with inv' show ?thesis ..
qed

lemma push_one_full:
  assumes inv: "cb_inv buf" and full: "\<not> cb_size buf < totalsize buf"
  shows "cb_inv (push_one buf c) \<and> cb_contents (push_one buf c) = tl (cb_contents buf @ [c])"
proof -
  let ?N = "unat (totalsize buf)"
  have n: "unat (cb_size buf) = ?N" "0 < ?N" "cb_size buf = totalsize buf"
    using inv full by (auto simp: cb_inv_def word_le_nat_alt word_less_nat_alt unat_eq_0 word_unat_eq_iff)
  have tt: "tail buf = top buf" using inv n by (simp add: cb_inv_def)
  have inv': "cb_inv (push_one buf c)"
    using inv n tt full by (auto simp: cb_inv_def push_one_def Let_def mod_simps)
  have "cb_contents (push_one buf c) ! i = tl (cb_contents buf @ [c]) ! i" if "i < ?N" for i
  proof (cases "i + 1 = ?N")
    case True
    then have "top buf + 1 + i = top buf + ?N" by simp
    then have "(top buf + 1 + i) mod ?N = (top buf + ?N) mod ?N" by (simp only:)
    also have "\<dots> = top buf" using inv by (simp add: cb_inv_def)
    finally have "(top buf + 1 + i) mod ?N = top buf" .
    then show ?thesis
      using inv full n tt that True
      by (auto simp: cb_contents_def push_one_def Let_def cb_inv_def nth_append nth_tl mod_simps)
  next
    case False
    then have "(top buf + 0) mod ?N \<noteq> (top buf + (i + 1)) mod ?N"
      using that by (intro mod_distinct) auto
    then show ?thesis
      using inv full n tt that False less_diff_conv[of i ?N 1]
      by (simp add: cb_contents_def push_one_def Let_def cb_inv_def nth_append nth_tl mod_simps)
  qed
  then have "cb_contents (push_one buf c) = tl (cb_contents buf @ [c])"
    using full n by (intro nth_equalityI) (auto simp: push_one_def Let_def)
  with inv' show ?thesis ..
qed

lemma push_one_queue:
  assumes "cb_inv buf"
  shows "cb_inv (push_one buf c) \<and> totalsize (push_one buf c) = totalsize buf \<and>
    cb_contents (push_one buf c) =
      drop (length (cb_contents buf @ [c]) - unat (totalsize buf)) (cb_contents buf @ [c])"
proof (cases "cb_size buf < totalsize buf")
  case True
  then have "unat (cb_size buf) < unat (totalsize buf)" by (simp add: word_less_nat_alt)
  with True push_one_room[OF assms True] show ?thesis by (simp add: push_one_def Let_def)
next
  case False
  then have "unat (cb_size buf) = unat (totalsize buf)"
    using assms by (simp add: cb_inv_def word_le_nat_alt word_less_nat_alt)
  moreover have "0 < unat (totalsize buf)" using assms by (simp add: cb_inv_def)
  ultimately show ?thesis
    using False push_one_full[OF assms False, of c] length_cb_contents[of buf]
    by (cases "cb_contents buf") (auto simp: push_one_def Let_def)
qed

lemma drop_keep_last:
  "drop (length (drop (length ys - N) ys @ zs) - N) (drop (length ys - N) ys @ zs) =
     drop (length (ys @ zs) - N) (ys @ zs)"
proof (cases "length ys \<le> N")
  case False
  then have "drop (length ys - N) ys @ zs = drop (length ys - N) (ys @ zs)" by simp
  with False show ?thesis by (simp only: drop_drop) (simp add: algebra_simps)
qed simp

lemma buf_push_loop_queue:
  "cb_inv (buf\<lparr>tail := p\<rparr>) \<Longrightarrow>
     \<exists>buf' p'. buf_push_loop buf p src = Some (buf', p') \<and> cb_inv (buf'\<lparr>tail := p'\<rparr>) \<and>
       totalsize buf' = totalsize buf \<and>
       cb_contents buf' = drop (length (cb_contents buf @ src) - unat (totalsize buf)) (cb_contents buf @ src)"
proof (induction src arbitrary: buf p)
  case Nil
  then show ?case by (auto simp: cb_inv_def word_le_nat_alt)
next
  case (Cons c src)
  let ?b = "buf\<lparr>tail := p\<rparr>"
  obtain q where q: "push_one ?b c = q" by blast
  have p: "p < length (cb_data buf)" "p < unat (totalsize buf)" "cb_end buf = unat (totalsize buf)"
    using Cons.prems by (auto simp: cb_inv_def)
  have "top buf < cb_end buf" using Cons.prems by (auto simp: cb_inv_def)
  then have step: "\<exists>b1. buf_push_loop buf p (c # src) = buf_push_loop b1 (tail q) src \<and> b1\<lparr>tail := tail q\<rparr> = q"
    using p wrap_mod[of p "cb_end buf"] wrap_mod[of "top buf" "cb_end buf"]
    by (auto simp: q[symmetric] push_one_def Let_def)
  then obtain b1 where b1: "buf_push_loop buf p (c # src) = buf_push_loop b1 (tail q) src"
    "b1\<lparr>tail := tail q\<rparr> = q" by blast
  have eq: "cb_contents b1 = cb_contents q" "totalsize b1 = totalsize q" "cb_contents ?b = cb_contents buf"
    using arg_cong[OF b1(2), of cb_contents] arg_cong[OF b1(2), of totalsize]
    by (simp_all add: cb_contents_def)
  note one = push_one_queue[OF Cons.prems, of c, unfolded q eq]
  have "cb_inv (b1\<lparr>tail := tail q\<rparr>)" using one b1(2) by simp
  from Cons.IH[OF this] obtain b2 p2 where b2: "buf_push_loop b1 (tail q) src = Some (b2, p2)"
    "cb_inv (b2\<lparr>tail := p2\<rparr>)" "totalsize b2 = totalsize b1"
    "cb_contents b2 = drop (length (cb_contents b1 @ src) - unat (totalsize b1)) (cb_contents b1 @ src)"
    by blast
  have tot: "totalsize b1 = totalsize buf" using one eq(2) by simp
  have "cb_contents b2 = drop (length (cb_contents buf @ c # src) - unat (totalsize buf)) (cb_contents buf @ c # src)"
    using drop_keep_last[of "cb_contents buf @ [c]" "unat (totalsize buf)" src] b2(4) one eq(1) tot
    by (simp del: length_append length_cb_contents)
  with b2 b1(1) tot show ?case by auto
qed

lemma buf_push_queue:
  assumes "cb_inv buf"
  shows "\<exists>buf'. buf_push buf src = Some (of_nat (length src), buf') \<and> cb_inv buf' \<and>
    totalsize buf' = totalsize buf \<and>
    cb_contents buf' = drop (length (cb_contents buf @ src) - unat (totalsize buf)) (cb_contents buf @ src)"
proof -
  have "buf\<lparr>tail := tail buf\<rparr> = buf" by simp
  then obtain b p where b: "buf_push_loop buf (tail buf) src = Some (b, p)" "cb_inv (b\<lparr>tail := p\<rparr>)"
    "totalsize b = totalsize buf"
    "cb_contents b = drop (length (cb_contents buf @ src) - unat (totalsize buf)) (cb_contents buf @ src)"
    using buf_push_loop_queue[where buf = buf and p = "tail buf" and src = src] assms by auto
  have "cb_contents (b\<lparr>tail := p\<rparr>) = cb_contents b" by (simp add: cb_contents_def)
  with b show ?thesis by (simp add: buf_push_def)
qed

section \<open>The buffer as a byte queue\<close>

definition cb_put :: "circbuf \<Rightarrow> u8 \<Rightarrow> circbuf option" where
  "cb_put buf c = do { (n, buf') \<leftarrow> buf_push buf [c]; Some buf' }"

definition cb_get :: "circbuf \<Rightarrow> (u8 option \<times> circbuf) option" where
  "cb_get buf = do {
     (n, dest, buf') \<leftarrow> buf_pop buf 1;
     Some (case dest of [] \<Rightarrow> None | c # _ \<Rightarrow> Some c, buf')
   }"

interpretation cb: byte_fifo cb_put cb_get cb_contents cb_inv "\<lambda>buf. unat (totalsize buf)"
proof unfold_locales
  fix buf c
  assume "cb_inv buf" "length (cb_contents buf) < unat (totalsize buf)"
  then show "\<exists>s'. cb_put buf c = Some s' \<and> cb_inv s' \<and> cb_contents s' = cb_contents buf @ [c] \<and>
      unat (totalsize s') = unat (totalsize buf)"
    using buf_push_queue[of buf "[c]"] by (auto simp: cb_put_def)
next
  fix buf
  assume "cb_inv buf"
  then show "\<exists>s'. cb_get buf = Some (if cb_contents buf = [] then None else Some (hd (cb_contents buf)), s') \<and>
      cb_inv s' \<and> cb_contents s' = tl (cb_contents buf) \<and> unat (totalsize s') = unat (totalsize buf)"
    using buf_pop_queue[of buf "min 1 (length (cb_contents buf))" 1]
    by (cases "cb_contents buf") (auto simp: cb_get_def)
qed

lemma cb_inv_init: "0 < sz \<Longrightarrow> length block = unat sz \<Longrightarrow> cb_inv (buf_init block sz)"
  by (simp add: cb_inv_def buf_init_def unat_gt_0 word_less_nat_alt)

text \<open>A circular buffer is a queue that keeps the newest bytes: \<open>buf_push\<close> appends its
  input and drops the oldest bytes beyond the capacity, and \<open>buf_pop\<close> removes and delivers the
  oldest bytes, as many as asked for and available.\<close>

theorem circbuf_queue:
  assumes "cb_inv buf"
  shows "(\<exists>buf'. buf_push buf src = Some (of_nat (length src), buf') \<and> cb_inv buf' \<and>
      cb_contents buf' = drop (length (cb_contents buf @ src) - unat (totalsize buf)) (cb_contents buf @ src)) \<and>
    (\<exists>buf'. buf_pop buf len =
        Some (of_nat (min (unat len) (length (cb_contents buf))), take (unat len) (cb_contents buf), buf') \<and>
      cb_inv buf' \<and> cb_contents buf' = drop (unat len) (cb_contents buf))"
  using buf_push_queue[OF assms, of src] buf_pop_queue[OF assms refl, of len]
  by (auto simp: min_def)

theorem circbuf_queue_witness:
  "\<exists>buf'. buf_push (buf_init [0, 0, 0] 3) [1, 2, 3, 4] = Some (4, buf') \<and> cb_contents buf' = [2, 3, 4]"
proof -
  have "cb_inv (buf_init [0, 0, 0] 3)" by (rule cb_inv_init) simp_all
  from circbuf_queue[OF this, of "[1, 2, 3, 4]" 0] show ?thesis
    by (auto simp: cb_contents_def buf_init_def)
qed

text \<open>Any interleaving of one-byte pushes and pops on a fresh circular buffer, as long as no
  more bytes are pushed than the buffer holds, delivers the bytes in the order they were pushed.\<close>

theorem circbuf_fifo:
  assumes "0 < sz" and "length block = unat sz" and "length (fifo_puts ops) \<le> unat sz"
  shows "\<exists>out buf'. fifo_run cb_put cb_get ops (buf_init block sz) = Some (out, buf') \<and>
    out @ cb_contents buf' = fifo_puts ops"
proof -
  have "cb_contents (buf_init block sz) = []" "totalsize (buf_init block sz) = sz"
    by (simp_all add: cb_contents_def buf_init_def)
  then show ?thesis
    using cb.run_fifo[OF cb_inv_init[OF assms(1,2)], of ops] assms(3) by auto
qed

theorem circbuf_fifo_witness:
  "\<exists>out buf'. fifo_run cb_put cb_get [Put 7, Put 8, Get, Put 9, Get] (buf_init [0, 0, 0] 3) = Some (out, buf') \<and>
    out @ cb_contents buf' = [7, 8, 9]"
  using circbuf_fifo[of 3 "[0, 0, 0]" "[Put 7, Put 8, Get, Put 9, Get]"] by simp

end
