(* ===== verification/Membuff.thy ===== *)
theory Membuff
  imports Cstring Fifo_Spec
begin

text \<open>
  The ring buffer of \<open>lib/membuff.c\<close>. The structure holds four addresses into the byte memory of
  \<open>lib/string.c\<close>; address 0 is NULL. Lengths are \<open>int\<close>s, as in the code. One byte of the buffer
  stays unused so that \<open>head = tail\<close> means empty. \<open>malloc\<close> and \<open>realloc\<close> are parameters.
\<close>

record membuff =
  mb_start :: nat
  mb_end :: nat
  mb_head :: nat
  mb_tail :: nat

text \<open>Pointer plus integer, and a \<open>memcpy\<close>/\<open>memmove\<close> whose size comes from an \<open>int\<close>.\<close>

definition ptr_add :: "nat \<Rightarrow> int \<Rightarrow> nat" where
  "ptr_add p n = nat (int p + n)"

definition memcpy_int :: "mem \<Rightarrow> nat \<Rightarrow> nat \<Rightarrow> int \<Rightarrow> mem option" where
  "memcpy_int m d s n = (if n < 0 then None else memcpy m d s (nat n))"

definition memmove_int :: "mem \<Rightarrow> nat \<Rightarrow> nat \<Rightarrow> int \<Rightarrow> mem option" where
  "memmove_int m d s n = (if n < 0 then None else memmove m d s (nat n))"

definition membuff_purge :: "membuff \<Rightarrow> membuff" where
  "membuff_purge mb = mb\<lparr>mb_head := mb_start mb, mb_tail := mb_start mb\<rparr>"

text \<open>The result of \<open>membuff_putrawflex\<close>: the length, the offset and the updated structure.\<close>

definition membuff_putrawflex :: "membuff \<Rightarrow> int \<Rightarrow> bool \<Rightarrow> int \<times> int \<times> membuff" where
  "membuff_putrawflex mb maxlen update =
     (let offset = int (mb_head mb) - int (mb_start mb) in
      if mb_start mb = 0 then (0, offset, mb)
      else if mb_head mb \<ge> mb_tail mb then
        (let len0 = int (mb_end mb) - int (mb_head mb) - 1;
             len = (if maxlen \<ge> 0 \<and> len0 > maxlen then maxlen else len0);
             mb1 = (if update then mb\<lparr>mb_head := ptr_add (mb_head mb) len\<rparr> else mb)
         in if (maxlen < 0 \<or> len < maxlen) \<and> mb_tail mb1 \<noteq> mb_start mb1
            then (len + 1, offset, (if update then mb1\<lparr>mb_head := mb_start mb1\<rparr> else mb1))
            else (len, offset, mb1))
      else
        (let len0 = int (mb_tail mb) - int (mb_head mb) - 1;
             len = (if maxlen \<ge> 0 \<and> len0 > maxlen then maxlen else len0)
         in (len, offset, (if update then mb\<lparr>mb_head := ptr_add (mb_head mb) len\<rparr> else mb))))"

definition membuff_putraw :: "membuff \<Rightarrow> int \<Rightarrow> bool \<Rightarrow> int \<times> nat \<times> membuff" where
  "membuff_putraw mb maxlen update =
     (let (sz, offset, mb') = membuff_putrawflex mb maxlen update in
      (sz, ptr_add (mb_start mb') offset, mb'))"

definition membuff_putbyte :: "membuff \<Rightarrow> mem \<Rightarrow> u8 \<Rightarrow> (bool \<times> membuff \<times> mem) option" where
  "membuff_putbyte mb m ch =
     (let (len, data, mb') = membuff_putraw mb 1 True in
      if len \<noteq> 1 then Some (False, mb', m)
      else do {
        m' \<leftarrow> arr_set m data ch;
        Some (True, mb', m')
      })"

text \<open>\<open>membuff_getraw\<close>: the length, the data pointer (0 when it is not set) and the structure.\<close>

definition membuff_getraw :: "membuff \<Rightarrow> int \<Rightarrow> bool \<Rightarrow> int \<times> nat \<times> membuff" where
  "membuff_getraw mb maxlen update =
     (if mb_head mb > mb_tail mb then
        (let len0 = int (mb_head mb) - int (mb_tail mb);
             len = (if maxlen \<ge> 0 \<and> len0 > maxlen then maxlen else len0)
         in (len, mb_tail mb, (if update then mb\<lparr>mb_tail := ptr_add (mb_tail mb) len\<rparr> else mb)))
      else if mb_head mb < mb_tail mb then
        (let len0 = int (mb_end mb) - int (mb_tail mb);
             len = (if maxlen \<ge> 0 \<and> len0 > maxlen then maxlen else len0);
             t = ptr_add (mb_tail mb) len
         in (len, mb_tail mb,
             (if update then mb\<lparr>mb_tail := (if t = mb_end mb then mb_start mb else t)\<rparr> else mb)))
      else (0, 0, mb))"

definition membuff_getbyte :: "membuff \<Rightarrow> mem \<Rightarrow> (int \<times> membuff) option" where
  "membuff_getbyte mb m =
     (let (len, data, mb') = membuff_getraw mb 1 True in
      if len \<noteq> 1 then Some (- 1, mb')
      else do {
        c \<leftarrow> arr_get m data;
        Some (int (unat c), mb')
      })"

definition membuff_peekbyte :: "membuff \<Rightarrow> mem \<Rightarrow> int option" where
  "membuff_peekbyte mb m =
     (let (len, data, mb') = membuff_getraw mb 1 False in
      if len \<noteq> 1 then Some (- 1)
      else do {
        c \<leftarrow> arr_get m data;
        Some (int (unat c))
      })"

text \<open>The loop \<open>for (i = 0; len && i < 2; i++)\<close> of \<open>membuff_get\<close>, \<open>n\<close> iterations left.\<close>

fun membuff_get_loop :: "nat \<Rightarrow> membuff \<Rightarrow> mem \<Rightarrow> nat \<Rightarrow> int \<Rightarrow> int \<Rightarrow> (nat \<times> membuff \<times> mem) option" where
  "membuff_get_loop 0 mb m buffptr maxlen len = Some (buffptr, mb, m)"
| "membuff_get_loop (Suc n) mb m buffptr maxlen len =
     (if len = 0 then Some (buffptr, mb, m)
      else
        (let (len', data, mb') = membuff_getraw mb maxlen True in do {
           m' \<leftarrow> memcpy_int m buffptr data len';
           membuff_get_loop n mb' m' (ptr_add buffptr len') (maxlen - len') len'
         }))"

definition membuff_get :: "membuff \<Rightarrow> mem \<Rightarrow> nat \<Rightarrow> int \<Rightarrow> (int \<times> membuff \<times> mem) option" where
  "membuff_get mb m buff maxlen = do {
     (buffptr, mb', m') \<leftarrow> membuff_get_loop 2 mb m buff maxlen 1;
     Some (int buffptr - int buff, mb', m')
   }"

fun membuff_put_loop :: "nat \<Rightarrow> membuff \<Rightarrow> mem \<Rightarrow> nat \<Rightarrow> int \<Rightarrow> int \<Rightarrow> (int \<times> membuff \<times> mem) option" where
  "membuff_put_loop 0 mb m buff len written = Some (written, mb, m)"
| "membuff_put_loop (Suc n) mb m buff len written =
     (let (towrite, data, mb') = membuff_putraw mb len True in do {
        m' \<leftarrow> memcpy_int m data buff towrite;
        membuff_put_loop n mb' m' (ptr_add buff towrite) (len - towrite) (written + towrite)
      })"

definition membuff_put :: "membuff \<Rightarrow> mem \<Rightarrow> nat \<Rightarrow> int \<Rightarrow> (int \<times> membuff \<times> mem) option" where
  "membuff_put mb m buff len = membuff_put_loop 2 mb m buff len 0"

definition membuff_isempty :: "membuff \<Rightarrow> bool" where
  "membuff_isempty mb \<longleftrightarrow> mb_head mb = mb_tail mb"

fun membuff_avail_loop :: "nat \<Rightarrow> membuff \<Rightarrow> int \<Rightarrow> int" where
  "membuff_avail_loop 0 copy avail = avail"
| "membuff_avail_loop (Suc n) copy avail =
     (let (len, data, copy') = membuff_getraw copy (- 1) True in membuff_avail_loop n copy' (avail + len))"

definition membuff_avail :: "membuff \<Rightarrow> int" where
  "membuff_avail mb = membuff_avail_loop 2 mb 0"

definition membuff_size :: "membuff \<Rightarrow> int" where
  "membuff_size mb = int (mb_end mb) - int (mb_start mb)"

definition membuff_makecontig :: "membuff \<Rightarrow> mem \<Rightarrow> (bool \<times> membuff \<times> mem) option" where
  "membuff_makecontig mb m =
     (let finish = (\<lambda>m topsize botsize. do {
            m' \<leftarrow> memcpy_int m (mb_start mb) (mb_tail mb) topsize;
            Some (True, mb\<lparr>mb_tail := mb_start mb, mb_head := ptr_add (mb_start mb) (topsize + botsize)\<rparr>, m')
          })
      in
      if mb_tail mb > mb_head mb then
        (let topsize = int (mb_end mb) - int (mb_tail mb);
             botsize = int (mb_head mb) - int (mb_start mb)
         in if ptr_add (mb_head mb) topsize \<ge> mb_tail mb then Some (False, mb, m)
            else do {
              m1 \<leftarrow> memmove_int m (ptr_add (mb_start mb) topsize) (mb_start mb) botsize;
              finish m1 topsize botsize
            })
      else finish m (int (mb_head mb) - int (mb_tail mb)) 0)"

definition membuff_free :: "membuff \<Rightarrow> int" where
  "membuff_free mb =
     (if mb_end mb = mb_start mb then 0
      else int (mb_end mb) - int (mb_start mb) - 1 - membuff_avail mb)"

text \<open>
  The loop of \<open>membuff_readline\<close>: \<open>n\<close> is \<open>maxlen - 1 - len\<close>, the characters that may still be
  read. The result is the loop's \<open>len\<close>, \<open>s\<close>, \<open>str\<close>, \<open>ok\<close> and the memory.
\<close>

fun membuff_readline_loop :: "nat \<Rightarrow> membuff \<Rightarrow> mem \<Rightarrow> int \<Rightarrow> int \<Rightarrow> nat \<Rightarrow> nat \<Rightarrow> nat \<Rightarrow>
    (int \<times> nat \<times> nat \<times> bool \<times> mem) option" where
  "membuff_readline_loop 0 mb m minch len s e str = Some (len, s, str, False, m)"
| "membuff_readline_loop (Suc n) mb m minch len s e str =
     (if s < e then do {
        c \<leftarrow> arr_get m s;
        m' \<leftarrow> arr_set m str c;
        (if c = 10 \<or> int (unat c) < minch then Some (len + 1, s + 1, str, True, m')
         else if s + 1 = e \<and> mb_tail mb > mb_head mb
         then membuff_readline_loop n mb m' minch (len + 1) (mb_start mb) (mb_head mb) (str + 1)
         else membuff_readline_loop n mb m' minch (len + 1) (s + 1) e (str + 1))
      } else Some (len, s, str, False, m))"

definition membuff_readline :: "membuff \<Rightarrow> mem \<Rightarrow> nat \<Rightarrow> int \<Rightarrow> int \<Rightarrow> (int \<times> membuff \<times> mem) option" where
  "membuff_readline mb m orig maxlen minch = do {
     (len, s, str, ok, m') \<leftarrow>
       membuff_readline_loop (nat (maxlen - 1)) mb m minch 0 (mb_tail mb)
         (if mb_head mb \<ge> mb_tail mb then mb_head mb else mb_end mb) orig;
     (if \<not> ok then
        (if maxlen \<noteq> 0 then do {
           m'' \<leftarrow> arr_set m' orig 0;
           Some (0, mb, m'')
         } else Some (0, mb, m'))
      else do {
        m'' \<leftarrow> arr_set m' str 0;
        Some (len, mb\<lparr>mb_tail := (if s = mb_end mb then mb_start mb else s)\<rparr>, m'')
      })
   }"

text \<open>
  The doubling loop of \<open>membuff_extend_by\<close>. It never ends for an empty buffer (size 0), hence the
  fuel; 32 doublings exceed any \<open>int\<close>.
\<close>

fun membuff_double :: "nat \<Rightarrow> int \<Rightarrow> int \<Rightarrow> int option" where
  "membuff_double 0 sz target = None"
| "membuff_double (Suc fuel) sz target =
     (if sz < target then membuff_double fuel (sz * 2) target else Some sz)"

definition ENOMEM :: int where "ENOMEM = 12"
definition E2BIG :: int where "E2BIG = 7"

text \<open>\<open>realloc p n m\<close> is the new address (\<open>None\<close> for NULL) and the memory after the call.\<close>

definition membuff_extend_by ::
  "(nat \<Rightarrow> int \<Rightarrow> mem \<Rightarrow> (nat \<times> mem) option) \<Rightarrow> membuff \<Rightarrow> mem \<Rightarrow> int \<Rightarrow> int \<Rightarrow> (int \<times> membuff \<times> mem) option" where
  "membuff_extend_by realloc mb m by0 mx = do {
     let orig = int (mb_end mb) - int (mb_start mb);
     size0 \<leftarrow> membuff_double 33 orig (orig + by0);
     let sz = (if mx \<noteq> - 1 then min size0 mx else size0);
     let by1 = sz - orig;
     (if by1 \<le> 0 then Some (- E2BIG, mb, m)
      else
        (let oldhead = int (mb_head mb) - int (mb_start mb);
             oldtail = int (mb_tail mb) - int (mb_start mb)
         in case realloc (mb_start mb) sz m of
              None \<Rightarrow> Some (- ENOMEM, mb, m)
            | Some (ptr, m1) \<Rightarrow>
                (let mb1 = mb\<lparr>mb_start := ptr, mb_head := ptr_add ptr oldhead, mb_tail := ptr_add ptr oldtail\<rparr>;
                     fin = (\<lambda>mb. mb\<lparr>mb_end := ptr_add (mb_start mb) sz\<rparr>)
                 in if mb_head mb1 < mb_tail mb1 then do {
                      m2 \<leftarrow> memmove_int m1 (ptr_add (mb_tail mb1) by1) (mb_tail mb1) (orig - oldtail);
                      Some (0, fin (mb1\<lparr>mb_tail := ptr_add (mb_tail mb1) by1\<rparr>), m2)
                    } else Some (0, fin mb1, m1))))
   }"

definition membuff_init :: "membuff \<Rightarrow> nat \<Rightarrow> int \<Rightarrow> membuff" where
  "membuff_init mb buff sz = membuff_purge (mb\<lparr>mb_start := buff, mb_end := ptr_add buff sz\<rparr>)"

text \<open>\<open>p\<close> is what \<open>malloc\<close> returned, 0 for NULL.\<close>

definition membuff_new :: "nat \<Rightarrow> membuff \<Rightarrow> int \<Rightarrow> int \<times> membuff" where
  "membuff_new p mb sz =
     (if p = 0 then (- ENOMEM, mb\<lparr>mb_start := p\<rparr>)
      else (0, membuff_init (mb\<lparr>mb_start := p\<rparr>) p sz))"

definition membuff_uninit :: "membuff \<Rightarrow> membuff" where
  "membuff_uninit mb = membuff_purge (mb\<lparr>mb_end := 0, mb_start := 0\<rparr>)"

section \<open>The queue a buffer holds\<close>

definition mb_inv :: "membuff \<Rightarrow> mem \<Rightarrow> bool" where
  "mb_inv mb m \<longleftrightarrow>
     0 < mb_start mb \<and> mb_end mb \<le> length m \<and>
     mb_start mb \<le> mb_head mb \<and> mb_head mb < mb_end mb \<and>
     mb_start mb \<le> mb_tail mb \<and> mb_tail mb < mb_end mb"

definition mb_contents :: "membuff \<Rightarrow> mem \<Rightarrow> u8 list" where
  "mb_contents mb m =
     (if mb_tail mb \<le> mb_head mb then slice m (mb_tail mb) (mb_head mb - mb_tail mb)
      else slice m (mb_tail mb) (mb_end mb - mb_tail mb) @ slice m (mb_start mb) (mb_head mb - mb_start mb))"

definition mb_capacity :: "membuff \<Rightarrow> nat" where
  "mb_capacity mb = mb_end mb - mb_start mb - 1"

text \<open>The bytes that one call of \<open>membuff_putraw\<close> or \<open>membuff_getraw\<close> can handle.\<close>

definition put_room :: "membuff \<Rightarrow> nat" where
  "put_room mb =
     (if mb_tail mb \<le> mb_head mb
      then mb_end mb - mb_head mb - (if mb_tail mb = mb_start mb then 1 else 0)
      else mb_tail mb - mb_head mb - 1)"

definition get_room :: "membuff \<Rightarrow> nat" where
  "get_room mb = (if mb_tail mb \<le> mb_head mb then mb_head mb - mb_tail mb else mb_end mb - mb_tail mb)"

definition mb_wrap :: "membuff \<Rightarrow> nat \<Rightarrow> nat" where
  "mb_wrap mb p = (if p = mb_end mb then mb_start mb else p)"

lemmas mb_defs = mb_inv_def mb_contents_def mb_capacity_def put_room_def get_room_def mb_wrap_def

lemma length_mb_contents:
  "mb_inv mb m \<Longrightarrow>
     length (mb_contents mb m) =
       (if mb_tail mb \<le> mb_head mb then mb_head mb - mb_tail mb
        else mb_end mb - mb_tail mb + (mb_head mb - mb_start mb))"
  by (auto simp: mb_defs)

lemma contents_le_capacity: "mb_inv mb m \<Longrightarrow> length (mb_contents mb m) \<le> mb_capacity mb"
  by (auto simp: length_mb_contents) (auto simp: mb_defs)

lemma ptr_add_nat [simp]: "ptr_add p (int n) = p + n"
  by (simp add: ptr_add_def nat_int_add)

lemma ptr_add_0 [simp]: "ptr_add p 0 = p"
  by (simp add: ptr_add_def)

lemma ptr_add_diff [simp]: "ptr_add p (int q - int p) = q"
  by (simp add: ptr_add_def)

lemma cap_len: "(if 0 \<le> int k \<and> int k < int r then int k else int r) = int (min k r)"
  by simp

lemma membuff_putraw_eq:
  assumes "mb_inv mb m" and "0 \<le> maxlen" and "n = min (nat maxlen) (put_room mb)"
  shows "membuff_putraw mb maxlen True =
    (int n, mb_head mb, mb\<lparr>mb_head := mb_wrap mb (mb_head mb + n)\<rparr>)"
proof -
  obtain k where k: "maxlen = int k" using assms(2) nonneg_int_cases by blast
  have h: "mb_start mb \<noteq> 0" using assms(1) by (auto simp: mb_inv_def)
  show ?thesis
  proof (cases "mb_tail mb \<le> mb_head mb")
    case True
    define r where "r = mb_end mb - mb_head mb - 1"
    have r: "int (mb_end mb) - int (mb_head mb) - 1 = int r" "mb_head mb + (r + 1) = mb_end mb"
      using assms(1) by (auto simp: mb_inv_def r_def)
    have room: "put_room mb = (if mb_tail mb = mb_start mb then r else r + 1)"
      using True assms(1) by (auto simp: put_room_def r_def mb_inv_def)
    show ?thesis
      unfolding membuff_putraw_def membuff_putrawflex_def Let_def r k cap_len assms(3) room
      using True h r(2) by (cases "r < k") (auto simp: mb_wrap_def min_def)
  next
    case False
    define r where "r = mb_tail mb - mb_head mb - 1"
    have r: "int (mb_tail mb) - int (mb_head mb) - 1 = int r" "mb_head mb + r < mb_end mb"
      using False assms(1) by (auto simp: r_def mb_inv_def)
    have room: "put_room mb = r" using False by (simp add: put_room_def r_def)
    show ?thesis
      unfolding membuff_putraw_def membuff_putrawflex_def Let_def r k cap_len assms(3) room
      using False h r(2) by (auto simp: mb_wrap_def min_def)
  qed
qed

lemma membuff_getraw_eq:
  assumes "mb_inv mb m" and "0 \<le> maxlen" and "n = min (nat maxlen) (get_room mb)"
  shows "membuff_getraw mb maxlen True =
    (int n, if mb_head mb = mb_tail mb then 0 else mb_tail mb, mb\<lparr>mb_tail := mb_wrap mb (mb_tail mb + n)\<rparr>)"
proof -
  obtain k where k: "maxlen = int k" using assms(2) nonneg_int_cases by blast
  consider "mb_tail mb < mb_head mb" | "mb_head mb < mb_tail mb" | "mb_head mb = mb_tail mb" by linarith
  then show ?thesis
  proof cases
    case 1
    then have r: "int (mb_head mb) - int (mb_tail mb) = int (mb_head mb - mb_tail mb)" by simp
    have "mb_tail mb + min k (mb_head mb - mb_tail mb) \<noteq> mb_end mb"
      using 1 assms(1) by (auto simp: mb_inv_def min_def)
    then show ?thesis
      unfolding membuff_getraw_def Let_def r k cap_len assms(3) using 1
      by (simp add: mb_wrap_def get_room_def)
  next
    case 2
    have r: "int (mb_end mb) - int (mb_tail mb) = int (mb_end mb - mb_tail mb)"
      using assms(1) by (simp add: mb_inv_def)
    show ?thesis
      unfolding membuff_getraw_def Let_def r k cap_len assms(3) using 2
      by (simp add: mb_wrap_def get_room_def)
  next
    case 3
    then show ?thesis
      using assms by (simp add: membuff_getraw_def get_room_def mb_wrap_def mb_inv_def)
  qed
qed

lemma slice_blit_append:
  "t \<le> h \<Longrightarrow> h + length xs \<le> length m \<Longrightarrow>
     slice (blit m h xs) t (h - t + length xs) = slice m t (h - t) @ xs"
  by (subst slice_add) (simp add: slice_blit_other)

lemma put_chunk:
  assumes inv: "mb_inv mb m" and n: "length xs \<le> put_room mb"
  defines "mb' \<equiv> mb\<lparr>mb_head := mb_wrap mb (mb_head mb + length xs)\<rparr>" and "m' \<equiv> blit m (mb_head mb) xs"
  shows "mb_inv mb' m'" and "mb_contents mb' m' = mb_contents mb m @ xs"
proof -
  have fit: "mb_head mb + length xs \<le> length m" using inv n by (auto simp: mb_defs split: if_splits)
  then show "mb_inv mb' m'" using inv n by (auto simp: mb'_def m'_def mb_defs split: if_splits)
  consider "mb_tail mb \<le> mb_head mb" "mb_head mb + length xs < mb_end mb"
    | "mb_tail mb \<le> mb_head mb" "mb_head mb + length xs = mb_end mb" "mb_start mb < mb_tail mb"
    | "mb_head mb < mb_tail mb" "mb_head mb + length xs < mb_tail mb"
    using inv n by (fastforce simp: mb_defs split: if_splits)
  then show "mb_contents mb' m' = mb_contents mb m @ xs"
  proof cases
    case 1
    then have "mb_head mb + length xs - mb_tail mb = mb_head mb - mb_tail mb + length xs" by simp
    then show ?thesis
      using 1 slice_blit_append[OF 1(1) fit] by (auto simp: mb'_def m'_def mb_contents_def mb_wrap_def)
  next
    case 2
    then have "mb_end mb - mb_tail mb = mb_head mb - mb_tail mb + length xs" by simp
    then show ?thesis
      using 2 slice_blit_append[OF 2(1) fit]
      by (auto simp: mb'_def m'_def mb_contents_def mb_wrap_def slice_def[of _ _ 0])
  next
    case 3
    have "slice m' (mb_tail mb) (mb_end mb - mb_tail mb) = slice m (mb_tail mb) (mb_end mb - mb_tail mb)"
      unfolding m'_def using 3 inv fit by (intro slice_blit_other) (auto simp: mb_inv_def)
    moreover have "mb_head mb + length xs - mb_start mb = mb_head mb - mb_start mb + length xs"
      using inv by (simp add: mb_inv_def)
    moreover have "mb_start mb \<le> mb_head mb" using inv by (simp add: mb_inv_def)
    ultimately show ?thesis
      using 3 inv slice_blit_append[of "mb_start mb" "mb_head mb" xs m] fit
      by (auto simp: mb'_def m'_def mb_contents_def mb_wrap_def mb_inv_def)
  qed
qed

lemma get_chunk:
  assumes inv: "mb_inv mb m" and n: "n \<le> get_room mb"
  defines "mb' \<equiv> mb\<lparr>mb_tail := mb_wrap mb (mb_tail mb + n)\<rparr>"
  shows "mb_inv mb' m" and "mb_contents mb m = slice m (mb_tail mb) n @ mb_contents mb' m"
proof -
  show "mb_inv mb' m" using inv n by (auto simp: mb'_def mb_defs split: if_splits)
  consider "mb_tail mb \<le> mb_head mb" "mb_tail mb + n \<le> mb_head mb"
    | "mb_head mb < mb_tail mb" "mb_tail mb + n < mb_end mb"
    | "mb_head mb < mb_tail mb" "mb_tail mb + n = mb_end mb"
    using inv n by (fastforce simp: mb_defs split: if_splits)
  then show "mb_contents mb m = slice m (mb_tail mb) n @ mb_contents mb' m"
  proof cases
    case 1
    then have "mb_head mb - mb_tail mb = n + (mb_head mb - (mb_tail mb + n))" by simp
    then have "slice m (mb_tail mb) (mb_head mb - mb_tail mb) =
        slice m (mb_tail mb) n @ slice m (mb_tail mb + n) (mb_head mb - (mb_tail mb + n))"
      by (metis slice_add)
    then show ?thesis using 1 inv by (simp add: mb'_def mb_contents_def mb_wrap_def mb_inv_def)
  next
    case 2
    then have "mb_end mb - mb_tail mb = n + (mb_end mb - (mb_tail mb + n))" by simp
    then have "slice m (mb_tail mb) (mb_end mb - mb_tail mb) =
        slice m (mb_tail mb) n @ slice m (mb_tail mb + n) (mb_end mb - (mb_tail mb + n))"
      by (metis slice_add)
    then show ?thesis using 2 by (simp add: mb'_def mb_contents_def mb_wrap_def)
  next
    case 3
    then have "mb_end mb - mb_tail mb = n" by simp
    then show ?thesis using 3 inv by (auto simp: mb'_def mb_contents_def mb_wrap_def mb_inv_def)
  qed
qed
lemma memcpy_0 [simp]: "memcpy m d s 0 = Some m"
  by (simp add: memcpy_def memcpy_words.simps)

text \<open>An area outside the buffer.\<close>

definition mb_outside :: "membuff \<Rightarrow> nat \<Rightarrow> nat \<Rightarrow> bool" where
  "mb_outside mb a n \<longleftrightarrow> a + n \<le> mb_start mb \<or> mb_end mb \<le> a"

lemma put_step:
  assumes inv: "mb_inv mb m" and buff: "buff + k \<le> length m" "mb_outside mb buff k"
    and n: "n = min k (put_room mb)"
  shows "membuff_put_loop (Suc i) mb m buff (int k) w =
      membuff_put_loop i (mb\<lparr>mb_head := mb_wrap mb (mb_head mb + n)\<rparr>) (blit m (mb_head mb) (slice m buff n))
        (buff + n) (int (k - n)) (w + int n)"
proof -
  have "mb_head mb + n \<le> mb_end mb" using inv n by (auto simp: mb_defs split: if_splits)
  then have "memcpy m (mb_head mb) buff n = Some (blit m (mb_head mb) (slice m buff n))"
    using inv buff n by (intro memcpy_blit) (auto simp: mb_outside_def mb_inv_def)
  then show ?thesis
    using membuff_putraw_eq[OF inv, of "int k" n] n by (simp add: memcpy_int_def of_nat_diff)
qed

lemma put_room_bound: "mb_inv mb m \<Longrightarrow> put_room mb \<le> mb_capacity mb - length (mb_contents mb m)"
  by (simp add: length_mb_contents) (auto simp: mb_defs)

lemma put_room_rest:
  assumes "mb_inv mb m" and "mb' = mb\<lparr>mb_head := mb_wrap mb (mb_head mb + put_room mb)\<rparr>" and "mb_inv mb' m'"
  shows "put_room mb' = mb_capacity mb' - length (mb_contents mb' m')"
  using assms by (simp add: length_mb_contents) (auto simp: mb_defs split: if_splits)

lemma membuff_put_queue:
  assumes inv: "mb_inv mb m" and buff: "buff + k \<le> length m" "mb_outside mb buff k"
    and w: "w = min k (mb_capacity mb - length (mb_contents mb m))"
  shows "\<exists>mb' m'. membuff_put mb m buff (int k) = Some (int w, mb', m') \<and> mb_inv mb' m' \<and>
    mb_contents mb' m' = mb_contents mb m @ slice m buff w \<and>
    mb_start mb' = mb_start mb \<and> mb_end mb' = mb_end mb \<and> length m' = length m \<and>
    (\<forall>i<length m. i < mb_start mb \<or> mb_end mb \<le> i \<longrightarrow> m' ! i = m ! i)"
proof -
  define n1 where "n1 = min k (put_room mb)"
  define mb1 where "mb1 = mb\<lparr>mb_head := mb_wrap mb (mb_head mb + n1)\<rparr>"
  define m1 where "m1 = blit m (mb_head mb) (slice m buff n1)"
  have n1: "n1 \<le> k" "n1 \<le> put_room mb" by (simp_all add: n1_def)
  have l1: "length (slice m buff n1) = n1" using buff n1 by simp
  have fit1: "mb_head mb + n1 \<le> mb_end mb" using inv n1 by (auto simp: mb_defs split: if_splits)
  have inv1: "mb_inv mb1 m1" and c1: "mb_contents mb1 m1 = mb_contents mb m @ slice m buff n1"
    using put_chunk[OF inv, of "slice m buff n1"] l1 n1 by (simp_all add: mb1_def m1_def)
  have same1: "mb_start mb1 = mb_start mb" "mb_end mb1 = mb_end mb" "mb_capacity mb1 = mb_capacity mb"
    by (simp_all add: mb1_def mb_capacity_def)
  have len1: "length m1 = length m" using fit1 l1 inv by (simp add: m1_def mb_inv_def)
  have out1: "m1 ! i = m ! i" if "i < length m" "i < mb_start mb \<or> mb_end mb \<le> i" for i
    using that fit1 l1 inv by (auto simp: m1_def nth_blit mb_inv_def)
  define n2 where "n2 = min (k - n1) (put_room mb1)"
  define mb2 where "mb2 = mb1\<lparr>mb_head := mb_wrap mb1 (mb_head mb1 + n2)\<rparr>"
  define m2 where "m2 = blit m1 (mb_head mb1) (slice m1 (buff + n1) n2)"
  have n2: "n2 \<le> k - n1" "n2 \<le> put_room mb1" by (simp_all add: n2_def)
  have l2: "length (slice m1 (buff + n1) n2) = n2" using buff n1 n2 len1 by simp
  have fit2: "mb_head mb1 + n2 \<le> mb_end mb" using inv1 n2 same1 by (auto simp: mb_defs split: if_splits)
  have inv2: "mb_inv mb2 m2" and c2: "mb_contents mb2 m2 = mb_contents mb1 m1 @ slice m1 (buff + n1) n2"
    using put_chunk[OF inv1, of "slice m1 (buff + n1) n2"] l2 n2 by (simp_all add: mb2_def m2_def)
  have sl: "slice m1 (buff + n1) n2 = slice m (buff + n1) n2"
    unfolding m1_def using buff n1 n2 fit1 l1 inv
    by (intro slice_blit_other) (auto simp: mb_outside_def mb_inv_def)
  have w2: "w = n1 + n2"
  proof (cases "n1 = put_room mb")
    case True
    then have "put_room mb1 = mb_capacity mb - length (mb_contents mb1 m1)"
      using put_room_rest[OF inv _ inv1] same1 by (simp add: mb1_def)
    then show ?thesis using put_room_bound[OF inv] n1 l1 w c1 unfolding n2_def by simp
  next
    case False
    then have "n1 = k" by (simp add: n1_def)
    then show ?thesis using put_room_bound[OF inv] n1 n2 w by simp
  qed
  have s1: "membuff_put_loop (Suc 1) mb m buff (int k) 0 =
      membuff_put_loop 1 mb1 m1 (buff + n1) (int (k - n1)) (0 + int n1)"
    unfolding mb1_def m1_def by (rule put_step[OF inv buff n1_def])
  have s2: "membuff_put_loop (Suc 0) mb1 m1 (buff + n1) (int (k - n1)) (int n1) =
      membuff_put_loop 0 mb2 m2 (buff + n1 + n2) (int (k - n1 - n2)) (int n1 + int n2)"
    unfolding mb2_def m2_def using buff n1 same1 len1
    by (intro put_step[OF inv1 _ _ n2_def]) (auto simp: mb_outside_def)
  have "membuff_put mb m buff (int k) = Some (int w, mb2, m2)"
    unfolding membuff_put_def numeral_2_eq_2 using s1 s2 w2 by simp
  moreover have "mb_contents mb2 m2 = mb_contents mb m @ slice m buff w"
    by (simp add: c2 c1 sl w2 slice_add)
  moreover have "length m2 = length m" using fit2 l2 len1 inv by (simp add: m2_def mb_inv_def)
  moreover have "m2 ! i = m ! i" if "i < length m" "i < mb_start mb \<or> mb_end mb \<le> i" for i
    using that fit2 l2 inv1 same1 out1[OF that] len1 by (auto simp: m2_def nth_blit mb_inv_def)
  ultimately show ?thesis using inv2 same1 by (auto simp: mb2_def)
qed

lemma get_step:
  assumes inv: "mb_inv mb m" and buff: "buff + k \<le> length m" "mb_outside mb buff k"
    and n: "n = min k (get_room mb)" and l: "l \<noteq> 0"
  shows "membuff_get_loop (Suc i) mb m buff (int k) l =
      membuff_get_loop i (mb\<lparr>mb_tail := mb_wrap mb (mb_tail mb + n)\<rparr>) (blit m buff (slice m (mb_tail mb) n))
        (buff + n) (int (k - n)) (int n)"
proof (cases "mb_head mb = mb_tail mb")
  case True
  then have "n = 0" using n by (simp add: get_room_def)
  then show ?thesis
    using membuff_getraw_eq[OF inv, of "int k" n] n l True by (simp add: memcpy_int_def slice_def)
next
  case False
  have "mb_tail mb + n \<le> mb_end mb" using inv n by (auto simp: mb_defs split: if_splits)
  then have "memcpy m buff (mb_tail mb) n = Some (blit m buff (slice m (mb_tail mb) n))"
    using inv buff n by (intro memcpy_blit) (auto simp: mb_outside_def mb_inv_def)
  then show ?thesis
    using membuff_getraw_eq[OF inv, of "int k" n] n False l by (simp add: memcpy_int_def of_nat_diff)
qed
lemma mb_contents_cong:
  assumes "mb_inv mb m" and "\<And>i. mb_start mb \<le> i \<Longrightarrow> i < mb_end mb \<Longrightarrow> m' ! i = m ! i" and "length m' = length m"
  shows "mb_contents mb m' = mb_contents mb m" and "mb_inv mb m'"
proof -
  have sl: "slice m' a n = slice m a n" if "mb_start mb \<le> a" "a + n \<le> mb_end mb" for a n
  proof (rule nth_equalityI)
    fix i assume "i < length (slice m' a n)"
    then have "i < n" using that assms(1,3) by (simp add: mb_inv_def)
    then show "slice m' a n ! i = slice m a n ! i"
      using that assms by (simp add: mb_inv_def)
  qed (use that assms(1,3) in \<open>simp add: mb_inv_def\<close>)
  show "mb_contents mb m' = mb_contents mb m"
    using assms(1) by (auto simp: mb_contents_def mb_inv_def intro!: sl arg_cong2[where f = append])
  show "mb_inv mb m'" using assms(1,3) by (simp add: mb_inv_def)
qed

lemma get_room_bound: "mb_inv mb m \<Longrightarrow> get_room mb \<le> length (mb_contents mb m)"
  by (simp add: length_mb_contents) (auto simp: mb_defs)

lemma get_room_rest:
  assumes "mb_inv mb m" and "mb' = mb\<lparr>mb_tail := mb_wrap mb (mb_tail mb + get_room mb)\<rparr>" and "mb_inv mb' m'"
  shows "get_room mb' = length (mb_contents mb' m')"
  using assms by (simp add: length_mb_contents) (auto simp: mb_defs split: if_splits)

lemma get_chunk_mem:
  assumes inv: "mb_inv mb m" and buff: "buff + n \<le> length m" "mb_outside mb buff n" and n: "n \<le> get_room mb"
  defines "mb' \<equiv> mb\<lparr>mb_tail := mb_wrap mb (mb_tail mb + n)\<rparr>"
    and "m' \<equiv> blit m buff (slice m (mb_tail mb) n)"
  shows "mb_inv mb' m'" and "mb_contents mb m = slice m (mb_tail mb) n @ mb_contents mb' m'"
    and "length (slice m (mb_tail mb) n) = n" and "length m' = length m"
    and "\<forall>i<length m. i < buff \<or> buff + n \<le> i \<longrightarrow> m' ! i = m ! i" and "slice m' buff n = slice m (mb_tail mb) n"
proof -
  have fit: "mb_tail mb + n \<le> length m" using inv n by (auto simp: mb_defs split: if_splits)
  then show len: "length (slice m (mb_tail mb) n) = n" by simp
  show len': "length m' = length m" using len buff by (simp add: m'_def)
  show out: "\<forall>i<length m. i < buff \<or> buff + n \<le> i \<longrightarrow> m' ! i = m ! i"
    using len buff by (auto simp: m'_def nth_blit)
  show "slice m' buff n = slice m (mb_tail mb) n"
    using slice_blit[of buff "slice m (mb_tail mb) n" m] len buff by (simp add: m'_def)
  have ring: "m' ! i = m ! i" if "mb_start mb' \<le> i" "i < mb_end mb'" for i
  proof -
    have "i < length m" using that inv by (simp add: mb'_def mb_inv_def)
    then show ?thesis using that buff out by (auto simp: mb_outside_def mb'_def)
  qed
  note g = get_chunk[OF inv n, folded mb'_def]
  show "mb_inv mb' m'" and "mb_contents mb m = slice m (mb_tail mb) n @ mb_contents mb' m'"
    using g mb_contents_cong[OF g(1) ring len'] by auto
qed

lemma membuff_get_queue:
  assumes inv: "mb_inv mb m" and buff: "buff + k \<le> length m" "mb_outside mb buff k"
    and w: "w = min k (length (mb_contents mb m))"
  shows "\<exists>mb' m'. membuff_get mb m buff (int k) = Some (int w, mb', m') \<and> mb_inv mb' m' \<and>
    slice m' buff w = take k (mb_contents mb m) \<and> mb_contents mb' m' = drop k (mb_contents mb m) \<and>
    mb_start mb' = mb_start mb \<and> mb_end mb' = mb_end mb \<and> length m' = length m \<and>
    (\<forall>i<length m. i < buff \<or> buff + w \<le> i \<longrightarrow> m' ! i = m ! i)"
proof -
  define n1 where "n1 = min k (get_room mb)"
  define mb1 where "mb1 = mb\<lparr>mb_tail := mb_wrap mb (mb_tail mb + n1)\<rparr>"
  define m1 where "m1 = blit m buff (slice m (mb_tail mb) n1)"
  have n1: "n1 \<le> k" "n1 \<le> get_room mb" by (simp_all add: n1_def)
  have b1: "buff + n1 \<le> length m" "mb_outside mb buff n1" using buff n1 by (auto simp: mb_outside_def)
  note c1 = get_chunk_mem[OF inv b1 n1(2), folded mb1_def m1_def]
  have same1: "mb_start mb1 = mb_start mb" "mb_end mb1 = mb_end mb" by (simp_all add: mb1_def)
  define n2 where "n2 = min (k - n1) (get_room mb1)"
  define mb2 where "mb2 = mb1\<lparr>mb_tail := mb_wrap mb1 (mb_tail mb1 + n2)\<rparr>"
  define m2 where "m2 = blit m1 (buff + n1) (slice m1 (mb_tail mb1) n2)"
  have n2: "n2 \<le> k - n1" "n2 \<le> get_room mb1" by (simp_all add: n2_def)
  have b2: "buff + n1 + n2 \<le> length m1" "mb_outside mb1 (buff + n1) n2"
    using buff n1 n2 same1 c1(4) by (auto simp: mb_outside_def)
  note c2 = get_chunk_mem[OF c1(1) b2 n2(2), folded mb2_def m2_def]
  have w2: "w = n1 + n2"
  proof (cases "n1 = get_room mb")
    case True
    then have "get_room mb1 = length (mb_contents mb1 m1)"
      using get_room_rest[OF inv _ c1(1)] by (simp add: mb1_def)
    then show ?thesis using n1 c1(2,3) w unfolding n2_def by simp
  next
    case False
    then have "n1 = k" by (simp add: n1_def)
    then show ?thesis using get_room_bound[OF inv] n1 n2 w by simp
  qed
  have all: "mb_contents mb m = (slice m (mb_tail mb) n1 @ slice m1 (mb_tail mb1) n2) @ mb_contents mb2 m2"
    using c1(2) c2(2) by simp
  have len: "length (slice m (mb_tail mb) n1 @ slice m1 (mb_tail mb1) n2) = w" using c1(3) c2(3) w2 by simp
  have short: "k = w \<or> w < k \<and> mb_contents mb2 m2 = []"
    using w all len by (auto simp: min_def)
  have wrap1: "mb_wrap mb1 (mb_tail mb1) = mb_tail mb1" using c1(1) by (simp add: mb_wrap_def mb_inv_def)
  have s1: "membuff_get_loop (Suc 1) mb m buff (int k) 1 =
      membuff_get_loop 1 mb1 m1 (buff + n1) (int (k - n1)) (int n1)"
    unfolding mb1_def m1_def by (rule get_step[OF inv buff n1_def]) simp
  have "membuff_get_loop 1 mb1 m1 (buff + n1) (int (k - n1)) (int n1) = Some (buff + w, mb2, m2)"
  proof (cases "n1 = 0")
    case True
    then have "k = 0 \<or> get_room mb = 0" by (auto simp: n1_def min_def split: if_splits)
    then have "w = 0"
      using w inv by (auto simp: length_mb_contents) (auto simp: mb_defs split: if_splits)
    then have "n2 = 0" "mb2 = mb1" "m2 = m1" using w2 wrap1 by (auto simp: mb2_def m2_def slice_def)
    then show ?thesis using True w2 by simp
  next
    case False
    have "membuff_get_loop (Suc 0) mb1 m1 (buff + n1) (int (k - n1)) (int n1) =
        membuff_get_loop 0 mb2 m2 (buff + n1 + n2) (int (k - n1 - n2)) (int n2)"
      unfolding mb2_def m2_def using buff n1 same1 c1(4) False
      by (intro get_step[OF c1(1) _ _ n2_def]) (auto simp: mb_outside_def)
    then show ?thesis using w2 by simp
  qed
  then have get: "membuff_get mb m buff (int k) = Some (int w, mb2, m2)"
    unfolding membuff_get_def numeral_2_eq_2 using s1 by simp
  have "slice m2 buff n1 = slice m1 buff n1"
    unfolding m2_def using b2 c2(3) by (intro slice_blit_other) auto
  then have sl: "slice m2 buff w = slice m (mb_tail mb) n1 @ slice m1 (mb_tail mb1) n2"
    using c1(6) c2(6) by (simp add: w2 slice_add)
  have "slice m2 buff w = take k (mb_contents mb m)" "mb_contents mb2 m2 = drop k (mb_contents mb m)"
    unfolding sl all using short len by auto
  moreover have "m2 ! i = m ! i" if "i < length m" "i < buff \<or> buff + w \<le> i" for i
    using that c1(4,5) c2(5) w2 by auto
  moreover have "mb_start mb2 = mb_start mb" "mb_end mb2 = mb_end mb" by (simp_all add: mb2_def mb1_def)
  ultimately show ?thesis using get c2(1,4) c1(4) by auto
qed
section \<open>The buffer as a byte queue\<close>

lemma membuff_putbyte_queue:
  assumes "mb_inv mb m"
  shows "\<exists>mb' m'. membuff_putbyte mb m c = Some (length (mb_contents mb m) < mb_capacity mb, mb', m') \<and>
    mb_inv mb' m' \<and> mb_capacity mb' = mb_capacity mb \<and>
    mb_contents mb' m' = mb_contents mb m @ (if length (mb_contents mb m) < mb_capacity mb then [c] else [])"
proof (cases "put_room mb = 0")
  case True
  then have "mb_capacity mb \<le> length (mb_contents mb m)"
    using put_room_rest[OF assms refl, of m] assms by (auto simp: mb_wrap_def mb_inv_def)
  moreover have "mb_wrap mb (mb_head mb) = mb_head mb" using assms by (simp add: mb_wrap_def mb_inv_def)
  ultimately show ?thesis
    using True membuff_putraw_eq[OF assms, of 1 0] assms by (auto simp: membuff_putbyte_def)
next
  case False
  then have room: "length (mb_contents mb m) < mb_capacity mb" using put_room_bound[OF assms] by simp
  have h: "mb_head mb < length m" using assms by (simp add: mb_inv_def)
  then have "m[mb_head mb := c] = blit m (mb_head mb) [c]"
    by (intro nth_equalityI) (auto simp: nth_blit nth_list_update)
  then show ?thesis
    using False room h membuff_putraw_eq[OF assms, of 1 1] put_chunk[OF assms, of "[c]"]
    by (simp add: membuff_putbyte_def mb_capacity_def Suc_le_eq)
qed

lemma membuff_getbyte_queue:
  assumes "mb_inv mb m"
  shows "\<exists>mb'. membuff_getbyte mb m =
      Some (case mb_contents mb m of [] \<Rightarrow> - 1 | c # _ \<Rightarrow> int (unat c), mb') \<and>
    mb_inv mb' m \<and> mb_capacity mb' = mb_capacity mb \<and> mb_contents mb' m = tl (mb_contents mb m)"
proof (cases "mb_head mb = mb_tail mb")
  case True
  then have "mb_contents mb m = []" by (simp add: mb_contents_def slice_def)
  then show ?thesis
    using True assms by (auto simp: membuff_getbyte_def membuff_getraw_def)
next
  case False
  then have room: "1 \<le> get_room mb" using assms by (auto simp: mb_defs)
  have t: "mb_tail mb < length m" using assms by (simp add: mb_inv_def)
  then have "slice m (mb_tail mb) 1 = [m ! mb_tail mb]" by (simp add: slice_Suc) (simp add: slice_def)
  moreover note membuff_getraw_eq[OF assms, of 1 1] get_chunk[OF assms room]
  ultimately show ?thesis
    using False room t by (simp add: membuff_getbyte_def mb_capacity_def)
qed

definition mb_put :: "membuff \<times> mem \<Rightarrow> u8 \<Rightarrow> (membuff \<times> mem) option" where
  "mb_put s c = do { (ok, s') \<leftarrow> membuff_putbyte (fst s) (snd s) c; Some s' }"

definition mb_get :: "membuff \<times> mem \<Rightarrow> (u8 option \<times> membuff \<times> mem) option" where
  "mb_get s = do {
     (r, mb') \<leftarrow> membuff_getbyte (fst s) (snd s);
     Some (if r < 0 then None else Some (word_of_int r), mb', snd s)
   }"

interpretation mb: byte_fifo mb_put mb_get "\<lambda>s. mb_contents (fst s) (snd s)" "\<lambda>s. mb_inv (fst s) (snd s)"
  "\<lambda>s. mb_capacity (fst s)"
proof unfold_locales
  fix s :: "membuff \<times> mem" and c
  assume "mb_inv (fst s) (snd s)" "length (mb_contents (fst s) (snd s)) < mb_capacity (fst s)"
  then show "\<exists>s'. mb_put s c = Some s' \<and> mb_inv (fst s') (snd s') \<and>
      mb_contents (fst s') (snd s') = mb_contents (fst s) (snd s) @ [c] \<and> mb_capacity (fst s') = mb_capacity (fst s)"
    using membuff_putbyte_queue[of "fst s" "snd s" c] by (auto simp: mb_put_def)
next
  fix s :: "membuff \<times> mem"
  assume "mb_inv (fst s) (snd s)"
  then show "\<exists>s'. mb_get s =
      Some (if mb_contents (fst s) (snd s) = [] then None else Some (hd (mb_contents (fst s) (snd s))), s') \<and>
      mb_inv (fst s') (snd s') \<and> mb_contents (fst s') (snd s') = tl (mb_contents (fst s) (snd s)) \<and>
      mb_capacity (fst s') = mb_capacity (fst s)"
    using membuff_getbyte_queue[of "fst s" "snd s"] by (auto simp: mb_get_def split: list.splits)
qed

section \<open>Sizes, compaction and growth\<close>

lemma membuff_avail_length: "mb_inv mb m \<Longrightarrow> membuff_avail mb = int (length (mb_contents mb m))"
  unfolding membuff_avail_def numeral_2_eq_2
  by (simp add: length_mb_contents membuff_getraw_def Let_def) (auto simp: mb_inv_def)

lemma membuff_free_length:
  "mb_inv mb m \<Longrightarrow> membuff_free mb = int (mb_capacity mb - length (mb_contents mb m))"
  using contents_le_capacity[of mb m]
  by (simp add: membuff_free_def membuff_avail_length) (auto simp: mb_capacity_def mb_inv_def)

lemma membuff_makecontig_queue:
  assumes inv: "mb_inv mb m"
  shows "\<exists>ok mb' m'. membuff_makecontig mb m = Some (ok, mb', m') \<and> mb_inv mb' m' \<and>
    mb_contents mb' m' = mb_contents mb m \<and> (ok \<longrightarrow> mb_tail mb' = mb_start mb') \<and>
    (ok \<longleftrightarrow> mb_tail mb \<le> mb_head mb \<or> mb_end mb - mb_tail mb + mb_head mb < mb_tail mb)"
proof -
  let ?s = "mb_start mb" and ?h = "mb_head mb" and ?t = "mb_tail mb" and ?e = "mb_end mb"
  note b = inv[unfolded mb_inv_def]
  consider "?t \<le> ?h" | "?h < ?t" "?t \<le> ?e - ?t + ?h" | "?h < ?t" "?e - ?t + ?h < ?t" by linarith
  then show ?thesis
  proof cases
    case 1
    define n where "n = ?h - ?t"
    have n: "int ?h - int ?t = int n" "?t + n = ?h" using 1 by (auto simp: n_def)
    have cp: "memcpy m ?s ?t n = Some (blit m ?s (slice m ?t n))" using b n by (intro memcpy_blit) auto
    have len: "length (slice m ?t n) = n" using b n by simp
    define m' where "m' = blit m ?s (slice m ?t n)"
    have sl: "slice m' ?s n = slice m ?t n" using slice_blit[of ?s "slice m ?t n" m] len b n by (simp add: m'_def)
    moreover have "length m' = length m" using len b n by (simp add: m'_def)
    moreover have "membuff_makecontig mb m = Some (True, mb\<lparr>mb_tail := ?s, mb_head := ?s + n\<rparr>, m')"
      using 1 cp unfolding membuff_makecontig_def Let_def n(1) by (simp add: memcpy_int_def m'_def)
    moreover have "mb_inv (mb\<lparr>mb_tail := ?s, mb_head := ?s + n\<rparr>) m'"
      using b n \<open>length m' = length m\<close> by (auto simp: mb_inv_def)
    moreover have "mb_contents (mb\<lparr>mb_tail := ?s, mb_head := ?s + n\<rparr>) m' = mb_contents mb m"
      using 1 sl by (simp add: mb_contents_def flip: n_def)
    ultimately show ?thesis using 1 by simp blast
  next
    case 2
    have "int ?e - int ?t = int (?e - ?t)" using b by simp
    then have "ptr_add ?h (int ?e - int ?t) = ?h + (?e - ?t)" by (simp only: ptr_add_nat)
    then have "?t \<le> ptr_add ?h (int ?e - int ?t)" using 2 by simp
    then have "membuff_makecontig mb m = Some (False, mb, m)"
      using 2 by (simp add: membuff_makecontig_def Let_def)
    moreover have "\<not> ?e - ?t + ?h < ?t" "\<not> ?t \<le> ?h" using 2 by linarith+
    ultimately show ?thesis using inv by (intro exI[of _ False] exI[of _ mb] exI[of _ m]) blast
  next
    case 3
    define n where "n = ?e - ?t"
    define k where "k = ?h - ?s"
    have n: "int ?e - int ?t = int n" "?t + n = ?e" "n + ?h < ?t" using 3 b by (auto simp: n_def)
    have k: "int ?h - int ?s = int k" "?s + k = ?h" using b by (auto simp: k_def)
    define m1 where "m1 = blit m (?s + n) (slice m ?s k)"
    have mv: "memmove m (?s + n) ?s k = Some m1" unfolding m1_def using b n k by (intro memmove_blit) auto
    have lk: "length (slice m ?s k) = k" using b k by simp
    have len1: "length m1 = length m" unfolding m1_def using b n k lk by simp
    have top: "slice m1 ?t n = slice m ?t n"
      unfolding m1_def using b n k lk by (intro slice_blit_other) auto
    have ln: "length (slice m ?t n) = n" using b n by simp
    have "memcpy m1 ?s ?t n = Some (blit m1 ?s (slice m1 ?t n))"
      using b n len1 k by (intro memcpy_blit) auto
    then have cp: "memcpy m1 ?s ?t n = Some (blit m1 ?s (slice m ?t n))" by (simp only: top)
    define m2 where "m2 = blit m1 ?s (slice m ?t n)"
    have len2: "length m2 = length m" unfolding m2_def using b n ln len1 k by simp
    have "slice m2 ?s n = slice m ?t n"
      using slice_blit[of ?s "slice m ?t n" m1] ln len1 b n k by (simp add: m2_def)
    moreover have "slice m2 (?s + n) k = slice m1 (?s + n) k"
      unfolding m2_def using b n k ln len1 by (intro slice_blit_other) auto
    moreover have "slice m1 (?s + n) k = slice m ?s k"
      using slice_blit[of "?s + n" "slice m ?s k" m] lk b n k by (simp add: m1_def)
    ultimately have sl: "slice m2 ?s (n + k) = slice m ?t n @ slice m ?s k" by (simp add: slice_add)
    have "membuff_makecontig mb m = Some (True, mb\<lparr>mb_tail := ?s, mb_head := ?s + (n + k)\<rparr>, m2)"
      using 3 n(3) mv cp unfolding membuff_makecontig_def Let_def n(1) k(1)
      by (simp add: memcpy_int_def memmove_int_def m2_def flip: of_nat_add)
    moreover have "mb_inv (mb\<lparr>mb_tail := ?s, mb_head := ?s + (n + k)\<rparr>) m2"
      using b n k len2 by (auto simp: mb_inv_def)
    ultimately show ?thesis
      using 3 sl by (auto simp: mb_contents_def n_def k_def)
  qed
qed
lemma membuff_double_enough:
  "0 < sz \<Longrightarrow> target \<le> sz * 2 ^ fuel \<Longrightarrow>
     \<exists>r. membuff_double (Suc fuel) sz target = Some r \<and> target \<le> r \<and> sz \<le> r \<and> (sz < target \<longrightarrow> sz < r)"
proof (induction fuel arbitrary: sz)
  case (Suc fuel)
  show ?case
  proof (cases "sz < target")
    case True
    then obtain r where "membuff_double (Suc fuel) (sz * 2) target = Some r" "target \<le> r" "sz * 2 \<le> r"
      using Suc.IH[of "sz * 2"] Suc.prems by (auto simp: algebra_simps)
    with True Suc.prems show ?thesis by auto
  qed auto
qed auto

text \<open>
  What the buffer relies on from \<open>realloc\<close>: a successful call returns a valid block of the
  requested size that starts with the old contents.
\<close>

definition realloc_ok :: "(nat \<Rightarrow> int \<Rightarrow> mem \<Rightarrow> (nat \<times> mem) option) \<Rightarrow> nat \<Rightarrow> nat \<Rightarrow> mem \<Rightarrow> bool" where
  "realloc_ok realloc p old m \<longleftrightarrow>
     (\<forall>n q m'. realloc p (int n) m = Some (q, m') \<longrightarrow>
        0 < q \<and> q + n \<le> length m' \<and> slice m' q (min old n) = slice m p (min old n))"

lemma slice_sub:
  assumes "slice m1 q n = slice m p n" and "i + k \<le> n"
  shows "slice m1 (q + i) k = slice m (p + i) k"
proof -
  have "slice m (a + i) k = take k (drop i (slice m a n))" for m a
    using assms(2) by (simp add: slice_def take_drop add.commute take_take min_def)
  with assms(1) show ?thesis by simp
qed

lemma extend_contents:
  assumes inv: "mb_inv mb m" and sz: "mb_end mb - mb_start mb = orig" and new: "orig < n"
    and q: "0 < q" "q + n \<le> length m1" "slice m1 q orig = slice m (mb_start mb) orig"
    and h: "h = mb_head mb - mb_start mb" and t: "t = mb_tail mb - mb_start mb"
  shows "mb_tail mb \<le> mb_head mb \<Longrightarrow>
      mb_inv \<lparr>mb_start = q, mb_end = q + n, mb_head = q + h, mb_tail = q + t\<rparr> m1 \<and>
      mb_contents \<lparr>mb_start = q, mb_end = q + n, mb_head = q + h, mb_tail = q + t\<rparr> m1 = mb_contents mb m"
    and "mb_head mb < mb_tail mb \<Longrightarrow> m2 = blit m1 (q + t + (n - orig)) (slice m1 (q + t) (orig - t)) \<Longrightarrow>
      mb_inv \<lparr>mb_start = q, mb_end = q + n, mb_head = q + h, mb_tail = q + t + (n - orig)\<rparr> m2 \<and>
      mb_contents \<lparr>mb_start = q, mb_end = q + n, mb_head = q + h, mb_tail = q + t + (n - orig)\<rparr> m2 =
        mb_contents mb m"
proof -
  note b = inv[unfolded mb_inv_def]
  have ht: "mb_head mb = mb_start mb + h" "mb_tail mb = mb_start mb + t" "h < orig" "t < orig"
    "mb_end mb = mb_start mb + orig" using b sz h t by auto
  show "mb_inv \<lparr>mb_start = q, mb_end = q + n, mb_head = q + h, mb_tail = q + t\<rparr> m1 \<and>
      mb_contents \<lparr>mb_start = q, mb_end = q + n, mb_head = q + h, mb_tail = q + t\<rparr> m1 = mb_contents mb m"
    if "mb_tail mb \<le> mb_head mb"
  proof -
    have "slice m1 (q + t) (h - t) = slice m (mb_start mb + t) (h - t)"
      using ht by (intro slice_sub[OF q(3)]) auto
    with that ht q new b show ?thesis by (auto simp: mb_inv_def mb_contents_def)
  qed
  show "mb_inv \<lparr>mb_start = q, mb_end = q + n, mb_head = q + h, mb_tail = q + t + (n - orig)\<rparr> m2 \<and>
      mb_contents \<lparr>mb_start = q, mb_end = q + n, mb_head = q + h, mb_tail = q + t + (n - orig)\<rparr> m2 =
        mb_contents mb m"
    if "mb_head mb < mb_tail mb" and m2: "m2 = blit m1 (q + t + (n - orig)) (slice m1 (q + t) (orig - t))"
  proof -
    have lt: "length (slice m1 (q + t) (orig - t)) = orig - t" using ht q new by simp
    have len: "length m2 = length m1" using m2 lt ht q new by simp
    have e: "q + n - (q + t + (n - orig)) = orig - t" using ht new by simp
    have "slice m2 (q + t + (n - orig)) (orig - t) = slice m1 (q + t) (orig - t)"
      using slice_blit[of "q + t + (n - orig)" "slice m1 (q + t) (orig - t)" m1] lt m2 ht q new by simp
    moreover have "slice m1 (q + t) (orig - t) = slice m (mb_start mb + t) (orig - t)"
      using ht by (intro slice_sub[OF q(3)]) auto
    moreover have "slice m2 q h = slice m1 q h"
      unfolding m2 using that(1) ht q new lt by (intro slice_blit_other) auto
    moreover have "slice m1 q h = slice m (mb_start mb) h"
      using slice_sub[OF q(3), of 0 h] ht by simp
    moreover have "\<not> t \<le> h" using that(1) ht by simp
    ultimately show ?thesis
      using ht q new b len e by (auto simp: mb_inv_def mb_contents_def)
  qed
qed

lemma membuff_extend_by_queue:
  assumes inv: "mb_inv mb m" and sz: "orig = mb_end mb - mb_start mb"
    and by0: "0 \<le> by0" "int orig + by0 \<le> 2 ^ 31" and mx: "mx = - 1 \<or> 0 \<le> mx"
    and ok: "realloc_ok realloc (mb_start mb) orig m"
  shows "\<exists>r mb' m'. membuff_extend_by realloc mb m by0 mx = Some (r, mb', m') \<and>
    (r = 0 \<longrightarrow> mb_inv mb' m' \<and> mb_contents mb' m' = mb_contents mb m \<and> mb_capacity mb < mb_capacity mb') \<and>
    (r \<noteq> 0 \<longrightarrow> mb' = mb \<and> m' = m \<and> r \<in> {- E2BIG, - ENOMEM})"
proof -
  note b = inv[unfolded mb_inv_def]
  have orig: "int (mb_end mb) - int (mb_start mb) = int orig" "0 < orig" using b sz by auto
  obtain d where d: "membuff_double 33 (int orig) (int orig + by0) = Some d" "int orig \<le> d"
  proof -
    have "int orig + by0 \<le> int orig * 2 ^ 32" using by0 orig(2) by simp
    then show ?thesis
      using membuff_double_enough[of "int orig" "int orig + by0" 32] orig(2) that
      by (auto simp: numeral_eq_Suc)
  qed
  define n where "n = (if mx \<noteq> - 1 then min d mx else d)"
  show ?thesis
  proof (cases "n - int orig \<le> 0")
    case True
    then show ?thesis
      unfolding membuff_extend_by_def orig(1) using d(1) by (simp add: n_def[symmetric] E2BIG_def Let_def)
  next
    case False
    then obtain k where k: "n = int k" "orig < k" using nonneg_int_cases[of n] by auto
    have nb: "int k - int orig = int (k - orig)" using k by simp
    show ?thesis
    proof (cases "realloc (mb_start mb) (int k) m")
      case None
      then show ?thesis
        unfolding membuff_extend_by_def orig(1)
        using d(1) False k by (simp add: n_def[symmetric] ENOMEM_def Let_def)
    next
      case (Some p)
      obtain q m1 where p: "p = (q, m1)" by (cases p)
      have q: "0 < q" "q + k \<le> length m1" "slice m1 q orig = slice m (mb_start mb) orig"
        using ok[unfolded realloc_ok_def, rule_format, of k q m1] Some p k(2) by (simp_all add: min_absorb1)
      note ext = extend_contents[OF inv sz[symmetric] k(2) q refl refl]
      define h where "h = mb_head mb - mb_start mb"
      define t where "t = mb_tail mb - mb_start mb"
      have ht: "int (mb_head mb) - int (mb_start mb) = int h" "int (mb_tail mb) - int (mb_start mb) = int t"
        "int orig - int t = int (orig - t)" "h < t \<longleftrightarrow> mb_head mb < mb_tail mb"
        using b sz by (auto simp: h_def t_def)
      have cap: "mb_capacity mb < k - 1" using b k sz by (auto simp: mb_capacity_def)
      have rec: "mb\<lparr>mb_start := a, mb_head := c, mb_tail := e, mb_end := f\<rparr> =
          \<lparr>mb_start = a, mb_end = f, mb_head = c, mb_tail = e\<rparr>" for a c e f
        by (cases mb) simp
      define m2 where "m2 = blit m1 (q + t + (k - orig)) (slice m1 (q + t) (orig - t))"
      have mv: "memmove m1 (q + t + (k - orig)) (q + t) (orig - t) = Some m2"
        unfolding m2_def using q k b sz by (intro memmove_blit) (auto simp: t_def)
      have eq: "membuff_extend_by realloc mb m by0 mx =
          Some (0, if mb_head mb < mb_tail mb
                then (\<lparr>mb_start = q, mb_end = q + k, mb_head = q + h, mb_tail = q + t + (k - orig)\<rparr>, m2)
                else (\<lparr>mb_start = q, mb_end = q + k, mb_head = q + h, mb_tail = q + t\<rparr>, m1))"
        unfolding membuff_extend_by_def orig(1) ht
        using d(1) False k Some p mv
        by (simp add: n_def[symmetric] Let_def nb ht(3,4) memmove_int_def rec del: of_nat_diff)
      show ?thesis
        using ext(1) ext(2)[OF _ m2_def[unfolded t_def]] cap
        unfolding eq by (simp add: mb_capacity_def h_def t_def)
    qed
  qed
qed
section \<open>Correctness of the ring buffer\<close>

lemma membuff_init_inv:
  "0 < buff \<Longrightarrow> 0 < n \<Longrightarrow> buff + n \<le> length m \<Longrightarrow>
     mb_inv (membuff_init mb buff (int n)) m \<and> mb_contents (membuff_init mb buff (int n)) m = [] \<and>
     mb_capacity (membuff_init mb buff (int n)) = n - 1"
  by (simp add: membuff_init_def membuff_purge_def mb_inv_def mb_contents_def mb_capacity_def slice_def)

definition sample_mb :: membuff where
  "sample_mb = \<lparr>mb_start = 8, mb_end = 14, mb_head = 9, mb_tail = 12\<rparr>"

definition sample_ring :: mem where
  "sample_ring = ascii ''0123456'' @ [0] @ ascii ''c...ab'' @ ascii ''......''"

lemma sample_ring_inv: "mb_inv sample_mb sample_ring" "mb_contents sample_mb sample_ring = ascii ''abc''"
  "length sample_ring = 20" "mb_capacity sample_mb = 5"
  by (simp_all add: sample_mb_def sample_ring_def ascii_def mb_inv_def mb_contents_def slice_def mb_capacity_def)

text \<open>\<open>membuff_put\<close> and \<open>membuff_get\<close> implement a bounded byte queue over the ring: \<open>put\<close>
  appends as many bytes of the caller's buffer as there is room for and reports their number, \<open>get\<close>
  delivers the oldest bytes to the caller's buffer and removes them; neither touches memory outside
  the ring and the caller's buffer, whatever the positions of head and tail.\<close>

theorem membuff_queue:
  assumes "mb_inv mb m" and "buff + k \<le> length m" and "mb_outside mb buff k"
  shows "(\<exists>mb' m'. membuff_put mb m buff (int k) =
        Some (int (min k (mb_capacity mb - length (mb_contents mb m))), mb', m') \<and> mb_inv mb' m' \<and>
      mb_contents mb' m' =
        mb_contents mb m @ slice m buff (min k (mb_capacity mb - length (mb_contents mb m))) \<and>
      (\<forall>i<length m. i < mb_start mb \<or> mb_end mb \<le> i \<longrightarrow> m' ! i = m ! i)) \<and>
    (\<exists>mb' m'. membuff_get mb m buff (int k) = Some (int (min k (length (mb_contents mb m))), mb', m') \<and>
      mb_inv mb' m' \<and> slice m' buff (min k (length (mb_contents mb m))) = take k (mb_contents mb m) \<and>
      mb_contents mb' m' = drop k (mb_contents mb m) \<and>
      (\<forall>i<length m. i < buff \<or> buff + min k (length (mb_contents mb m)) \<le> i \<longrightarrow> m' ! i = m ! i))"
  using membuff_put_queue[OF assms refl] membuff_get_queue[OF assms refl] by blast

theorem membuff_queue_witness:
  "\<exists>mb' m'. membuff_put sample_mb sample_ring 1 4 = Some (2, mb', m') \<and>
     mb_contents mb' m' = ascii ''abc12''"
proof -
  have sl: "slice sample_ring 1 2 = ascii ''12''" by (simp add: sample_ring_def slice_def ascii_def)
  have "mb_outside sample_mb 1 4" by (simp add: mb_outside_def sample_mb_def)
  moreover have "min 4 (5 - length (ascii ''abc'')) = 2" by (simp add: ascii_def)
  moreover have "ascii ''abc'' @ ascii ''12'' = ascii ''abc12''" by (simp add: ascii_def)
  ultimately show ?thesis
    using membuff_queue[OF sample_ring_inv(1), of 1 4] sl
    by (simp only: sample_ring_inv) auto
qed



text \<open>\<open>membuff_makecontig\<close> never changes the queue and, when it succeeds, leaves it in one
  piece at the start of the buffer; \<open>membuff_avail\<close> and \<open>membuff_free\<close> count the bytes held and
  the room left.\<close>

theorem membuff_makecontig_correct:
  assumes "mb_inv mb m"
  shows "\<exists>ok mb' m'. membuff_makecontig mb m = Some (ok, mb', m') \<and> mb_inv mb' m' \<and>
    mb_contents mb' m' = mb_contents mb m \<and> (ok \<longrightarrow> mb_tail mb' = mb_start mb') \<and>
    membuff_avail mb' = int (length (mb_contents mb m)) \<and>
    membuff_free mb' = int (mb_capacity mb') - membuff_avail mb'"
proof -
  obtain ok mb' m' where r: "membuff_makecontig mb m = Some (ok, mb', m')" "mb_inv mb' m'"
    "mb_contents mb' m' = mb_contents mb m" "ok \<longrightarrow> mb_tail mb' = mb_start mb'"
    using membuff_makecontig_queue[OF assms] by blast
  then show ?thesis
    using contents_le_capacity[OF r(2)] by (simp add: membuff_avail_length membuff_free_length of_nat_diff)
qed

theorem membuff_makecontig_correct_witness:
  "\<exists>ok mb' m'. membuff_makecontig sample_mb sample_ring = Some (ok, mb', m') \<and>
    mb_contents mb' m' = ascii ''abc''"
  using membuff_makecontig_correct[OF sample_ring_inv(1)] by (auto simp: sample_ring_inv)

text \<open>Growing a buffer with \<open>membuff_extend_by\<close> terminates for a buffer that has any space,
  keeps the queue and gives a larger capacity, or reports an error and changes nothing.\<close>

theorem membuff_extend_correct:
  assumes "mb_inv mb m" and "orig = mb_end mb - mb_start mb" and "0 \<le> by0" and "int orig + by0 \<le> 2 ^ 30"
    and "mx = - 1 \<or> 0 \<le> mx" and "realloc_ok realloc (mb_start mb) orig m"
  shows "\<exists>r mb' m'. membuff_extend_by realloc mb m by0 mx = Some (r, mb', m') \<and>
    (r = 0 \<longrightarrow> mb_inv mb' m' \<and> mb_contents mb' m' = mb_contents mb m \<and> mb_capacity mb < mb_capacity mb') \<and>
    (r \<noteq> 0 \<longrightarrow> mb' = mb \<and> m' = m \<and> r \<in> {- E2BIG, - ENOMEM})"
  using membuff_extend_by_queue[OF assms(1-3) _ assms(5,6)] assms(4) by simp

definition grow_realloc :: "nat \<Rightarrow> int \<Rightarrow> mem \<Rightarrow> (nat \<times> mem) option" where
  "grow_realloc p n m =
     (if n < 0 \<or> p = 0 then None else Some (length m, m @ take (nat n) (drop p m @ replicate (nat n) 0)))"

theorem membuff_extend_correct_witness:
  "\<exists>mb' m'. membuff_extend_by grow_realloc sample_mb sample_ring 3 (- 1) = Some (0, mb', m') \<and>
    mb_contents mb' m' = ascii ''abc''"
proof -
  have ok: "realloc_ok grow_realloc (mb_start sample_mb) 6 sample_ring"
    using sample_ring_inv(3)
    by (auto simp: realloc_ok_def grow_realloc_def slice_def sample_mb_def split: if_splits)
  have pre: "6 = mb_end sample_mb - mb_start sample_mb" by (simp add: sample_mb_def)
  obtain r mb' m' where r: "membuff_extend_by grow_realloc sample_mb sample_ring 3 (- 1) = Some (r, mb', m')"
    "r = 0 \<longrightarrow> mb_contents mb' m' = mb_contents sample_mb sample_ring"
    using membuff_extend_correct[OF sample_ring_inv(1) pre, of 3 "- 1" grow_realloc] ok by auto
  have "membuff_double 33 6 9 = Some 12" by (simp add: numeral_eq_Suc)
  then have "r = 0"
    using r(1) by (auto simp: membuff_extend_by_def sample_mb_def grow_realloc_def Let_def split: bind_splits if_splits)
  with r sample_ring_inv(2) show ?thesis by auto
qed

end
