(* ===== verification/Env_Spec.thy ===== *)
theory Env_Spec
  imports Uboot_Prelude
begin

text \<open>
  The contract of an environment: a finite map with a limited number of insertions, whose updates
  may be refused. Each operation says whether it was carried out. The client lemma determines the
  map after any sequence of updates from the updates that were carried out.
\<close>

datatype ('k, 'v) env_update = Set 'k 'v | Unset 'k

fun env_run :: "('s \<Rightarrow> 'k \<Rightarrow> 'v \<Rightarrow> (bool \<times> 's) option) \<Rightarrow> ('s \<Rightarrow> 'k \<Rightarrow> (bool \<times> 's) option) \<Rightarrow>
    ('k, 'v) env_update list \<Rightarrow> 's \<Rightarrow> (bool list \<times> 's) option" where
  "env_run setv unset [] s = Some ([], s)"
| "env_run setv unset (u # us) s = do {
     (b, s') \<leftarrow> (case u of Set k v \<Rightarrow> setv s k v | Unset k \<Rightarrow> unset s k);
     (bs, s'') \<leftarrow> env_run setv unset us s';
     Some (b # bs, s'')
   }"

definition env_apply :: "bool \<Rightarrow> ('k, 'v) env_update \<Rightarrow> ('k \<Rightarrow> 'v option) \<Rightarrow> ('k \<Rightarrow> 'v option)" where
  "env_apply b u m = (if b then (case u of Set k v \<Rightarrow> m(k \<mapsto> v) | Unset k \<Rightarrow> m(k := None)) else m)"

fun env_applies :: "bool list \<Rightarrow> ('k, 'v) env_update list \<Rightarrow> ('k \<Rightarrow> 'v option) \<Rightarrow> ('k \<Rightarrow> 'v option)" where
  "env_applies (b # bs) (u # us) m = env_applies bs us (env_apply b u m)"
| "env_applies _ _ m = m"

locale env_map =
  fixes setv :: "'s \<Rightarrow> 'k \<Rightarrow> 'v \<Rightarrow> (bool \<times> 's) option"
    and unset :: "'s \<Rightarrow> 'k \<Rightarrow> (bool \<times> 's) option"
    and getv :: "'s \<Rightarrow> 'k \<Rightarrow> 'v option option"
    and env :: "'s \<Rightarrow> 'k \<Rightarrow> 'v option"
    and inv :: "'s \<Rightarrow> bool"
    and room :: "'s \<Rightarrow> nat"
  assumes get_law: "inv s \<Longrightarrow> getv s k = Some (env s k)"
    and set_law: "inv s \<Longrightarrow> 0 < room s \<Longrightarrow>
      \<exists>b s'. setv s k v = Some (b, s') \<and> inv s' \<and> env s' = env_apply b (Set k v) (env s) \<and> room s \<le> Suc (room s')"
    and unset_law: "inv s \<Longrightarrow>
      \<exists>b s'. unset s k = Some (b, s') \<and> inv s' \<and> env s' = env_apply b (Unset k) (env s) \<and> room s \<le> room s'"
begin

lemma run_env:
  "inv s \<Longrightarrow> length us \<le> room s \<Longrightarrow>
     \<exists>bs s'. env_run setv unset us s = Some (bs, s') \<and> inv s' \<and> length bs = length us \<and>
       env s' = env_applies bs us (env s)"
proof (induction us arbitrary: s)
  case Nil
  then show ?case by simp
next
  case (Cons u us)
  obtain b s1 where s1: "(case u of Set k v \<Rightarrow> setv s k v | Unset k \<Rightarrow> unset s k) = Some (b, s1)" "inv s1"
    "env s1 = env_apply b u (env s)" "room s \<le> Suc (room s1)"
  proof (cases u)
    case (Set k v)
    then show ?thesis using set_law[OF Cons.prems(1), of k v] Cons.prems(2) that by auto
  next
    case (Unset k)
    then show ?thesis using unset_law[OF Cons.prems(1), of k] that by fastforce
  qed
  then obtain bs s2 where "env_run setv unset us s1 = Some (bs, s2)" "inv s2" "length bs = length us"
    "env s2 = env_applies bs us (env s1)"
    using Cons.IH[of s1] Cons.prems(2) by auto
  with s1 show ?case by auto
qed

text \<open>Reading any variable afterwards gives what the accepted updates left.\<close>

lemma run_get:
  assumes "inv s" and "length us \<le> room s"
  shows "\<exists>bs s'. env_run setv unset us s = Some (bs, s') \<and> length bs = length us \<and>
    getv s' k = Some (env_applies bs us (env s) k)"
  using run_env[OF assms] get_law by force

end

end
