(* ===== verification/Hashtable.thy ===== *)
theory Hashtable
  imports Cstring Env_Spec
begin

text \<open>
  The hash table that holds the environment, \<open>lib/hashtable.c\<close>: creation, search with double
  hashing, insertion, deletion, matching and walking. Keys and values are the character lists of
  the C strings, a pointer to an entry is its index in the table. The permission hook
  \<open>change_ok\<close>, the per-variable callbacks, \<open>env_callback_init\<close>, \<open>env_flags_init\<close> and
  \<open>strdup\<close> are parameters, collected in the record \<open>hooks\<close>. Export and import are in
  \<open>Env_Text\<close>.
\<close>

section \<open>Data\<close>

type_synonym cstr = "u8 list"

datatype env_op = Op_create | Op_delete | Op_overwrite
datatype action = FIND | ENTER
datatype herrno = EINVAL | ESRCH | EPERM | ENOMEM

text \<open>A NULL pointer in a string field is \<open>None\<close>; a callback is the number of a function.\<close>

record hentry =
  ekey :: "cstr option"
  edata :: "cstr option"
  ecallback :: "nat option"
  eflags :: int

record hslot =
  used :: int
  hent :: hentry

record hsearch_data =
  table :: "hslot list option"
  hsize :: nat
  filled :: nat

record hooks =
  change_ok :: "(hentry \<Rightarrow> cstr option \<Rightarrow> env_op \<Rightarrow> int \<Rightarrow> bool) option"
  callback :: "nat \<Rightarrow> cstr \<Rightarrow> cstr option \<Rightarrow> env_op \<Rightarrow> int \<Rightarrow> bool"
  callback_init :: "cstr option \<Rightarrow> nat option"
  flags_init :: "cstr option \<Rightarrow> int"
  strdup :: "cstr \<Rightarrow> cstr option"

definition null_slot :: hslot where
  "null_slot = \<lparr>used = 0, hent = \<lparr>ekey = None, edata = None, ecallback = None, eflags = 0\<rparr>\<rparr>"

section \<open>Creation\<close>

function isprime_loop :: "nat \<Rightarrow> nat \<Rightarrow> nat" where
  "isprime_loop number d =
     (if d * d < number \<and> number mod d \<noteq> 0 then isprime_loop number (d + 2) else d)"
  by pat_completeness auto
termination
proof (relation "measure (\<lambda>(number, d). number - d)")
  fix number d :: nat
  assume "d * d < number \<and> number mod d \<noteq> 0"
  moreover have "d \<le> d * d" by (cases d) auto
  ultimately have "d < number" by linarith
  then show "((number, d + 2), number, d) \<in> measure (\<lambda>(number, d). number - d)" by simp
qed simp

declare isprime_loop.simps [simp del]

definition isprime :: "nat \<Rightarrow> bool" where
  "isprime number \<longleftrightarrow> number mod isprime_loop number 3 \<noteq> 0"

fun hcreate_loop :: "nat \<Rightarrow> nat \<Rightarrow> nat option" where
  "hcreate_loop 0 nel = None"
| "hcreate_loop (Suc fuel) nel = (if \<not> isprime nel then hcreate_loop fuel (nel + 2) else Some nel)"

text \<open>
  The argument \<open>ok\<close> says whether \<open>calloc\<close> succeeds; \<open>nel OR 1\<close> makes the number odd. The gap
  between primes is below 64 for every table size that fits the memory of the target.
\<close>

definition hcreate_r :: "bool \<Rightarrow> nat \<Rightarrow> hsearch_data \<Rightarrow> (nat \<times> hsearch_data) option" where
  "hcreate_r ok nel htab =
     (if table htab \<noteq> None then Some (0, htab)
      else do {
        n \<leftarrow> hcreate_loop 64 (if even nel then nel + 1 else nel);
        let htab' = htab\<lparr>hsize := n, filled := 0\<rparr>;
        (if \<not> ok then Some (0, htab')
         else Some (1, htab'\<lparr>table := Some (replicate (n + 1) null_slot)\<rparr>))
      })"

definition hdestroy_r :: "hsearch_data \<Rightarrow> hsearch_data" where
  "hdestroy_r htab = htab\<lparr>table := None\<rparr>"

section \<open>Search\<close>

definition slot_at :: "hsearch_data \<Rightarrow> nat \<Rightarrow> hslot option" where
  "slot_at htab idx = do { t \<leftarrow> table htab; arr_get t idx }"

definition set_slot :: "hsearch_data \<Rightarrow> nat \<Rightarrow> hslot \<Rightarrow> hsearch_data" where
  "set_slot htab idx s = htab\<lparr>table := map_option (\<lambda>t. t[idx := s]) (table htab)\<rparr>"

text \<open>The hash value of a key: the characters from the last to the first, in 32 bits.\<close>

definition hash_key :: "nat \<Rightarrow> cstr \<Rightarrow> nat" where
  "hash_key sz key =
     (let h = unat (foldr (\<lambda>c hval. push_bit 4 hval + ucast c) key (of_nat (length key) :: u32)) mod sz
      in if h = 0 then 1 else h)"

fun hmatch_loop :: "hsearch_data \<Rightarrow> cstr \<Rightarrow> nat \<Rightarrow> nat \<Rightarrow> (nat \<times> nat option) option" where
  "hmatch_loop htab match idx 0 = Some (0, None)"
| "hmatch_loop htab match idx (Suc n) = do {
     s \<leftarrow> slot_at htab idx;
     (if used s \<le> 0 then hmatch_loop htab match (idx + 1) n
      else do {
        k \<leftarrow> ekey (hent s);
        (if take (length match) k = match then Some (idx, Some idx)
         else hmatch_loop htab match (idx + 1) n)
      })
   }"

definition hmatch_r :: "cstr \<Rightarrow> nat \<Rightarrow> hsearch_data \<Rightarrow> (nat \<times> nat option) option" where
  "hmatch_r match last_idx htab = hmatch_loop htab match (last_idx + 1) (hsize htab - (last_idx + 1))"

definition rejects :: "hooks \<Rightarrow> hentry \<Rightarrow> cstr option \<Rightarrow> env_op \<Rightarrow> int \<Rightarrow> bool" where
  "rejects hk e d opr flag = (case change_ok hk of None \<Rightarrow> False | Some f \<Rightarrow> f e d opr flag)"

definition cb_rejects :: "hooks \<Rightarrow> hentry \<Rightarrow> cstr \<Rightarrow> cstr option \<Rightarrow> env_op \<Rightarrow> int \<Rightarrow> bool" where
  "cb_rejects hk e k d opr flag = (case ecallback e of None \<Rightarrow> False | Some c \<Rightarrow> callback hk c k d opr flag)"

text \<open>
  The result of a search step or a search: the C return value, the value of \<open>errno\<close> if it was set,
  the entry \<open>*retval\<close> points to, and the table.
\<close>

type_synonym hresult = "int \<times> herrno option \<times> nat option \<times> hsearch_data"

definition compare_and_overwrite_entry ::
  "hooks \<Rightarrow> cstr \<Rightarrow> cstr option \<Rightarrow> action \<Rightarrow> hsearch_data \<Rightarrow> int \<Rightarrow> nat \<Rightarrow> nat \<Rightarrow> hresult option" where
  "compare_and_overwrite_entry hk key dat act htab flag hval idx = do {
     s \<leftarrow> slot_at htab idx;
     (if used s \<noteq> int hval then Some (- 1, None, None, htab)
      else do {
        k \<leftarrow> ekey (hent s);
        (if key \<noteq> k then Some (- 1, None, None, htab)
         else
           (case dat of
              Some d \<Rightarrow>
                (if act = ENTER then
                   (if rejects hk (hent s) dat Op_overwrite flag then Some (0, Some EPERM, None, htab)
                    else if cb_rejects hk (hent s) key dat Op_overwrite flag then Some (0, Some EINVAL, None, htab)
                    else
                      (let htab' = set_slot htab idx (s\<lparr>hent := (hent s)\<lparr>edata := strdup hk d\<rparr>\<rparr>) in
                       if strdup hk d = None then Some (0, Some ENOMEM, None, htab')
                       else Some (int idx, None, Some idx, htab')))
                 else Some (int idx, None, Some idx, htab))
            | None \<Rightarrow> Some (int idx, None, Some idx, htab)))
      })
   }"

definition probe_next :: "nat \<Rightarrow> nat \<Rightarrow> nat \<Rightarrow> nat" where
  "probe_next sz hval2 idx = (if idx \<le> hval2 then sz + idx - hval2 else idx - hval2)"

text \<open>
  The do-while loop: \<open>Inl\<close> a result to return, \<open>Inr\<close> the index where the loop ended. It ends after at
  most \<open>hsize\<close> steps, when it is back at the first index; the fuel is one more.
\<close>

fun hsearch_loop ::
  "hooks \<Rightarrow> cstr \<Rightarrow> cstr option \<Rightarrow> action \<Rightarrow> hsearch_data \<Rightarrow> int \<Rightarrow> nat \<Rightarrow> nat \<Rightarrow> nat \<Rightarrow> nat \<Rightarrow>
     (hresult + nat) option" where
  "hsearch_loop hk key dat act htab flag hval hval2 0 idx0 = None"
| "hsearch_loop hk key dat act htab flag hval hval2 (Suc fuel) idx0 =
     (let idx = probe_next (hsize htab) hval2 idx0 in
      if idx = hval then Some (Inr idx)
      else do {
        r \<leftarrow> compare_and_overwrite_entry hk key dat act htab flag hval idx;
        (if fst r \<noteq> - 1 then Some (Inl r)
         else do {
           s \<leftarrow> slot_at htab idx;
           (if used s \<noteq> 0 then hsearch_loop hk key dat act htab flag hval hval2 fuel idx
            else Some (Inr idx))
         })
      })"

text \<open>\<open>_hdelete\<close>\<close>

definition hdelete_entry :: "hsearch_data \<Rightarrow> nat \<Rightarrow> hsearch_data" where
  "hdelete_entry htab idx =
     (case slot_at htab idx of
        None \<Rightarrow> htab
      | Some s \<Rightarrow>
          (set_slot htab idx (s\<lparr>used := - 1, hent := (hent s)\<lparr>ecallback := None, eflags := 0\<rparr>\<rparr>))
            \<lparr>filled := filled htab - 1\<rparr>)"

text \<open>The part of \<open>hsearch_r\<close> that enters a new entry at \<open>idx\<close>.\<close>

definition hsearch_enter ::
  "hooks \<Rightarrow> cstr \<Rightarrow> cstr option \<Rightarrow> hsearch_data \<Rightarrow> int \<Rightarrow> nat \<Rightarrow> nat \<Rightarrow> hresult option" where
  "hsearch_enter hk key dat htab flag hval idx = do {
     s \<leftarrow> slot_at htab idx;
     let k' = strdup hk key;
     let d' = dat \<bind> strdup hk;
     let e1 = (hent s)\<lparr>ekey := k', edata := d'\<rparr>;
     (if k' = None \<or> d' = None
      then Some (0, Some ENOMEM, None, set_slot htab idx \<lparr>used = int hval, hent = e1\<rparr>)
      else
        (let e2 = e1\<lparr>ecallback := callback_init hk k', eflags := flags_init hk k'\<rparr>;
             htab' = (set_slot htab idx \<lparr>used = int hval, hent = e2\<rparr>)\<lparr>filled := filled htab + 1\<rparr>
         in if rejects hk e2 dat Op_create flag then Some (0, Some EPERM, None, hdelete_entry htab' idx)
            else if cb_rejects hk e2 key dat Op_create flag then Some (0, Some EINVAL, None, hdelete_entry htab' idx)
            else Some (1, None, Some idx, htab')))
   }"

definition hsearch_finish ::
  "hooks \<Rightarrow> cstr \<Rightarrow> cstr option \<Rightarrow> action \<Rightarrow> hsearch_data \<Rightarrow> int \<Rightarrow> nat \<Rightarrow> nat \<Rightarrow> nat \<Rightarrow> hresult option" where
  "hsearch_finish hk key dat act htab flag hval first_deleted idx =
     (if act = ENTER then
        (if filled htab = hsize htab then Some (0, Some ENOMEM, None, htab)
         else hsearch_enter hk key dat htab flag hval (if first_deleted \<noteq> 0 then first_deleted else idx))
      else Some (0, Some ESRCH, None, htab))"

definition hsearch_r ::
  "hooks \<Rightarrow> cstr \<Rightarrow> cstr option \<Rightarrow> action \<Rightarrow> hsearch_data \<Rightarrow> int \<Rightarrow> hresult option" where
  "hsearch_r hk key dat act htab flag =
     (let hval = hash_key (hsize htab) key in do {
        s \<leftarrow> slot_at htab hval;
        (if used s \<noteq> 0 then do {
           let first_deleted = (if used s = - 1 then hval else 0);
           r \<leftarrow> compare_and_overwrite_entry hk key dat act htab flag hval hval;
           (if fst r \<noteq> - 1 then Some r
            else do {
              l \<leftarrow> hsearch_loop hk key dat act htab flag hval (1 + hval mod (hsize htab - 2))
                     (hsize htab + 1) hval;
              (case l of
                 Inl r \<Rightarrow> Some r
               | Inr idx \<Rightarrow> hsearch_finish hk key dat act htab flag hval first_deleted idx)
            })
         } else hsearch_finish hk key dat act htab flag hval 0 hval)
      })"

text \<open>\<open>hdelete_r\<close>: the return value, \<open>errno\<close> and the table.\<close>

definition hdelete_r :: "hooks \<Rightarrow> cstr \<Rightarrow> hsearch_data \<Rightarrow> int \<Rightarrow> (int \<times> herrno option \<times> hsearch_data) option" where
  "hdelete_r hk key htab flag = do {
     (idx, err, ep, htab') \<leftarrow> hsearch_r hk key None FIND htab 0;
     (if idx = 0 then Some (0, Some ESRCH, htab')
      else do {
        i \<leftarrow> ep;
        s \<leftarrow> slot_at htab' i;
        (if rejects hk (hent s) None Op_delete flag then Some (0, Some EPERM, htab')
         else if cb_rejects hk (hent s) key None Op_delete flag then Some (0, Some EINVAL, htab')
         else Some (1, None, hdelete_entry htab' i))
      })
   }"

text \<open>\<open>hwalk_r\<close> with a callback that has a state of its own.\<close>

fun hwalk_loop :: "(hentry \<Rightarrow> 's \<Rightarrow> int \<times> 's) \<Rightarrow> hsearch_data \<Rightarrow> nat \<Rightarrow> nat \<Rightarrow> 's \<Rightarrow> (int \<times> 's) option" where
  "hwalk_loop f htab i 0 s = Some (0, s)"
| "hwalk_loop f htab i (Suc n) s = do {
     sl \<leftarrow> slot_at htab i;
     (if used sl > 0 then
        (let (retval, s') = f (hent sl) s in
         if retval \<noteq> 0 then Some (retval, s') else hwalk_loop f htab (i + 1) n s')
      else hwalk_loop f htab (i + 1) n s)
   }"

definition hwalk_r :: "(hentry \<Rightarrow> 's \<Rightarrow> int \<times> 's) \<Rightarrow> hsearch_data \<Rightarrow> 's \<Rightarrow> (int \<times> 's) option" where
  "hwalk_r f htab s = hwalk_loop f htab 1 (hsize htab) s"

section \<open>The probe sequence\<close>

definition probe :: "nat \<Rightarrow> nat \<Rightarrow> nat \<Rightarrow> nat \<Rightarrow> nat" where
  "probe sz d h i = (probe_next sz d ^^ i) h"

lemma probe_0 [simp]: "probe sz d h 0 = h"
  by (simp add: probe_def)

lemma probe_Suc: "probe sz d h (Suc i) = probe_next sz d (probe sz d h i)"
  by (simp add: probe_def)

lemma probe_range:
  assumes "1 \<le> d" and "d < sz" and "1 \<le> h" and "h \<le> sz"
  shows "1 \<le> probe sz d h i \<and> probe sz d h i \<le> sz"
  using assms by (induction i) (auto simp: probe_Suc probe_next_def)

lemma probe_mod:
  assumes "1 \<le> d" and "d < sz" and "1 \<le> h" and "h \<le> sz"
  shows "(probe sz d h i + i * d) mod sz = h mod sz"
proof (induction i)
  case (Suc i)
  have r: "probe sz d h i \<le> sz" using probe_range[OF assms] by blast
  have "probe sz d h (Suc i) + d = probe sz d h i \<or> probe sz d h (Suc i) + d = probe sz d h i + sz"
    using assms r by (auto simp: probe_Suc probe_next_def)
  then have "(probe sz d h (Suc i) + d + i * d) mod sz = (probe sz d h i + i * d) mod sz"
  proof
    assume *: "probe sz d h (Suc i) + d = probe sz d h i + sz"
    have "(probe sz d h i + sz + i * d) mod sz = (probe sz d h i + i * d + sz) mod sz" by (simp only: ac_simps)
    with * show ?thesis by (simp only: mod_add_self2)
  qed simp
  with Suc show ?case by (simp add: algebra_simps)
qed simp

lemma mod_eq_range: "(a :: nat) mod n = b mod n \<Longrightarrow> 1 \<le> a \<Longrightarrow> a \<le> n \<Longrightarrow> 1 \<le> b \<Longrightarrow> b \<le> n \<Longrightarrow> a = b"
  by (metis le_antisym mod_less mod_self nat_less_le not_one_le_zero)

lemma probe_inj:
  assumes d: "1 \<le> d" "d < sz" and h: "1 \<le> h" "h \<le> sz" and co: "coprime d sz" and ij: "i < j" "j < sz"
  shows "probe sz d h i \<noteq> probe sz d h j"
proof
  assume eq: "probe sz d h i = probe sz d h j"
  have "(probe sz d h i + i * d) mod sz = (probe sz d h j + j * d) mod sz"
    using probe_mod[OF d h] by simp
  then have "sz dvd (probe sz d h j + j * d) - (probe sz d h i + i * d)"
    using eq ij by (subst mod_eq_dvd_iff_nat[symmetric]) auto
  then have "sz dvd (j - i) * d" using eq by (simp add: diff_mult_distrib)
  then have "sz dvd (j - i)" using co by (simp add: coprime_commute coprime_dvd_mult_left_iff)
  then show False using ij by (auto dest: dvd_imp_le)
qed

lemma probe_return:
  assumes "1 \<le> d" and "d < sz" and "1 \<le> h" and "h \<le> sz"
  shows "probe sz d h sz = h"
proof (rule mod_eq_range)
  show "probe sz d h sz mod sz = h mod sz" using probe_mod[OF assms, of sz] by simp
qed (use probe_range[OF assms, of sz] assms in auto)

lemma probe_surj:
  assumes d: "1 \<le> d" "d < sz" and h: "1 \<le> h" "h \<le> sz" and co: "coprime d sz" and idx: "1 \<le> idx" "idx \<le> sz"
  shows "\<exists>i < sz. probe sz d h i = idx"
proof -
  have inj: "inj_on (probe sz d h) {..<sz}"
  proof (rule inj_onI)
    fix i j assume "i \<in> {..<sz}" "j \<in> {..<sz}" "probe sz d h i = probe sz d h j"
    then show "i = j" using probe_inj[OF d h co, of i j] probe_inj[OF d h co, of j i] by (cases i j rule: linorder_cases) auto
  qed
  have sub: "probe sz d h ` {..<sz} \<subseteq> {1..sz}" using probe_range[OF d h] by auto
  have "card (probe sz d h ` {..<sz}) = card {1..sz}" using card_image[OF inj] by simp
  then have "probe sz d h ` {..<sz} = {1..sz}" using sub by (intro card_subset_eq) auto
  then show ?thesis using idx by (metis atLeastAtMost_iff imageE lessThan_iff)
qed

section \<open>Primality\<close>

definition prime_nat :: "nat \<Rightarrow> bool" where
  "prime_nat p \<longleftrightarrow> 1 < p \<and> (\<forall>m. m dvd p \<longrightarrow> m = 1 \<or> m = p)"

lemma prime_coprime: "prime_nat p \<Longrightarrow> 1 \<le> d \<Longrightarrow> d < p \<Longrightarrow> coprime d p"
proof -
  assume p: "prime_nat p" "1 \<le> d" "d < p"
  then have "gcd d p = 1 \<or> gcd d p = p" by (simp add: prime_nat_def)
  moreover have "gcd d p \<le> d" using p(2) by (simp add: gcd_le1_nat)
  ultimately show "coprime d p" using p(3) by (auto simp: coprime_iff_gcd_eq_1)
qed

lemma isprime_loop_result:
  "odd d \<Longrightarrow> 3 \<le> d \<Longrightarrow> \<forall>m. odd m \<and> 3 \<le> m \<and> m < d \<longrightarrow> \<not> m dvd number \<Longrightarrow>
     d = 3 \<or> (d - 2) * (d - 2) < number \<Longrightarrow>
     \<exists>e. isprime_loop number d = e \<and> odd e \<and> 3 \<le> e \<and> (number \<le> e * e \<or> e dvd number) \<and>
       (e = 3 \<or> (e - 2) * (e - 2) < number) \<and>
       (\<forall>m. odd m \<and> 3 \<le> m \<and> m < e \<longrightarrow> \<not> m dvd number)"
proof (induction number d rule: isprime_loop.induct)
  case (1 number d)
  show ?case
  proof (cases "d * d < number \<and> number mod d \<noteq> 0")
    case True
    have "\<not> m dvd number" if "odd m" "3 \<le> m" "m < d + 2" for m
    proof (cases "m < d")
      case False
      then have "m = d" using that 1(2) by presburger
      then show ?thesis using True by (simp add: dvd_eq_mod_eq_0)
    qed (use 1(4) that in blast)
    then have "\<forall>m. odd m \<and> 3 \<le> m \<and> m < d + 2 \<longrightarrow> \<not> m dvd number" by blast
    moreover have "odd (d + 2)" "3 \<le> d + 2" "d + 2 - 2 = d" using 1(2,3) by simp_all
    moreover have "isprime_loop number d = isprime_loop number (d + 2)"
      using True by (subst isprime_loop.simps) simp
    ultimately show ?thesis using 1(1)[OF True] True by (simp only:) blast
  next
    case False
    then have "isprime_loop number d = d" by (subst isprime_loop.simps) (rule if_not_P)
    moreover have "number \<le> d * d \<or> d dvd number" using False by (auto simp: dvd_eq_mod_eq_0)
    ultimately show ?thesis using 1(2-5) by blast
  qed
qed

lemma isprime_correct:
  assumes "odd number" and "5 \<le> number"
  shows "isprime number \<longleftrightarrow> prime_nat number"
proof -
  have vac: "\<forall>m. odd m \<and> 3 \<le> m \<and> m < 3 \<longrightarrow> \<not> m dvd number" by auto
  obtain e where e: "isprime_loop number 3 = e" "odd e" "3 \<le> e" "number \<le> e * e \<or> e dvd number"
    "\<forall>m. odd m \<and> 3 \<le> m \<and> m < e \<longrightarrow> \<not> m dvd number" "e = 3 \<or> (e - 2) * (e - 2) < number"
    using isprime_loop_result[OF _ _ vac] by auto
  have ip: "isprime number \<longleftrightarrow> \<not> e dvd number" by (simp add: isprime_def e dvd_eq_mod_eq_0)
  have "prime_nat number" if nd: "\<not> e dvd number"
    unfolding prime_nat_def
  proof (intro conjI allI impI)
    show "1 < number" using assms by simp
    fix m assume m: "m dvd number"
    then obtain q where q: "number = m * q" by blast
    then have oddmq: "odd m" "odd q" using assms(1) by auto
    have small: "x = 1" if "x dvd number" "odd x" "x < e" for x
    proof (cases "3 \<le> x")
      case True
      then show ?thesis using that e(5) by blast
    next
      case False
      then show ?thesis using that(2) by presburger
    qed
    have "number \<le> e * e" using e(4) nd by blast
    then have "\<not> (e < m \<and> e < q)" unfolding q using mult_strict_mono[of e m e q] by auto
    then have "m \<le> e \<or> q \<le> e" by linarith
    moreover have "m \<noteq> e" "q \<noteq> e" using nd q by auto
    ultimately have "m = 1 \<or> q = 1" using small[of m] small[of q] q oddmq by auto
    then show "m = 1 \<or> m = number" using q by auto
  qed
  moreover have "\<not> e dvd number" if p: "prime_nat number"
  proof
    assume d: "e dvd number"
    then have "e = number" using p e(3) by (auto simp: prime_nat_def)
    then have "(number - 2) * (number - 2) < number" using e(6) assms(2) by simp
    moreover have "3 * (number - 2) \<le> (number - 2) * (number - 2)" using assms(2) by (intro mult_le_mono1) simp
    ultimately show False using assms(2) by linarith
  qed
  ultimately show ?thesis using ip by blast
qed

section \<open>The environment a table holds\<close>

definition live :: "hslot list \<Rightarrow> nat \<Rightarrow> cstr \<Rightarrow> bool" where
  "live t idx k \<longleftrightarrow> used (t ! idx) > 0 \<and> ekey (hent (t ! idx)) = Some k"

definition env_of :: "hsearch_data \<Rightarrow> cstr \<Rightarrow> cstr option" where
  "env_of htab k =
     (case table htab of
        None \<Rightarrow> None
      | Some t \<Rightarrow>
          (case find (\<lambda>s. used s > 0 \<and> ekey (hent s) = Some k) (tl t) of
             None \<Rightarrow> None
           | Some s \<Rightarrow> edata (hent s)))"

definition hval2_of :: "nat \<Rightarrow> nat \<Rightarrow> nat" where
  "hval2_of sz hval = 1 + hval mod (sz - 2)"

definition probes :: "nat \<Rightarrow> cstr \<Rightarrow> nat \<Rightarrow> nat" where
  "probes sz k = probe sz (hval2_of sz (hash_key sz k)) (hash_key sz k)"

text \<open>
  A slot in use holds the hash value of its key, and the key can be found: every slot before it on
  the probe sequence of the key is occupied or deleted.
\<close>

definition slot_ok :: "hslot list \<Rightarrow> nat \<Rightarrow> nat \<Rightarrow> bool" where
  "slot_ok t sz idx \<longleftrightarrow>
     used (t ! idx) = - 1 \<or> used (t ! idx) = 0 \<or>
     (\<exists>k d. ekey (hent (t ! idx)) = Some k \<and> edata (hent (t ! idx)) = Some d \<and>
        used (t ! idx) = int (hash_key sz k) \<and>
        (\<exists>i < sz. probes sz k i = idx \<and> (\<forall>j<i. used (t ! probes sz k j) \<noteq> 0)))"

definition tab_inv :: "hslot list \<Rightarrow> nat \<Rightarrow> bool" where
  "tab_inv t sz \<longleftrightarrow> prime_nat sz \<and> 5 \<le> sz \<and> length t = sz + 1 \<and> (\<forall>idx\<in>{1..sz}. slot_ok t sz idx) \<and>
     (\<forall>a\<in>{1..sz}. \<forall>b\<in>{1..sz}. \<forall>k. live t a k \<and> live t b k \<longrightarrow> a = b)"

definition ht_inv :: "hsearch_data \<Rightarrow> bool" where
  "ht_inv htab \<longleftrightarrow>
     (\<exists>t. table htab = Some t \<and> tab_inv t (hsize htab) \<and>
        filled htab = card {idx\<in>{1..hsize htab}. used (t ! idx) > 0})"

lemma hash_key_range: "2 \<le> sz \<Longrightarrow> 1 \<le> hash_key sz k \<and> hash_key sz k < sz"
  by (auto simp: hash_key_def Let_def)

lemma hval2_range: "5 \<le> sz \<Longrightarrow> 1 \<le> hval2_of sz h \<and> hval2_of sz h < sz"
  using mod_less_divisor[of "sz - 2" h] unfolding hval2_of_def by linarith

lemma probes_range: "5 \<le> sz \<Longrightarrow> 1 \<le> probes sz k i \<and> probes sz k i \<le> sz"
  unfolding probes_def using hash_key_range[of sz k] hval2_range[of sz "hash_key sz k"]
  by (intro probe_range) auto

lemma probes_inj:
  assumes "prime_nat sz" and "5 \<le> sz" and "i < sz" and "j < sz" and "probes sz k i = probes sz k j"
  shows "i = j"
proof -
  have c: "coprime (hval2_of sz (hash_key sz k)) sz"
    using hval2_range[OF assms(2)] by (intro prime_coprime[OF assms(1)]) auto
  note p = probe_inj[OF _ _ _ _ c]
  show ?thesis
    using p[of "hash_key sz k" i j] p[of "hash_key sz k" j i] assms hval2_range[of sz "hash_key sz k"] hash_key_range[of sz k]
    by (cases i j rule: linorder_cases) (auto simp: probes_def)
qed

lemma probes_surj:
  assumes "prime_nat sz" and "5 \<le> sz" and "1 \<le> idx" and "idx \<le> sz"
  shows "\<exists>i < sz. probes sz k i = idx"
proof -
  have "coprime (hval2_of sz (hash_key sz k)) sz"
    using hval2_range[OF assms(2)] by (intro prime_coprime[OF assms(1)]) auto
  then show ?thesis
    unfolding probes_def using assms hval2_range[of sz "hash_key sz k"] hash_key_range[of sz k]
    by (intro probe_surj) auto
qed

lemma probes_0 [simp]: "probes sz k 0 = hash_key sz k"
  by (simp add: probes_def)

lemma probes_Suc: "probes sz k (Suc i) = probe_next sz (hval2_of sz (hash_key sz k)) (probes sz k i)"
  by (simp add: probes_def probe_Suc)

lemma probes_return: "5 \<le> sz \<Longrightarrow> probes sz k sz = hash_key sz k"
  unfolding probes_def using hval2_range[of sz "hash_key sz k"] hash_key_range[of sz k]
  by (intro probe_return) auto

lemma tab_live:
  assumes "tab_inv t sz" and "1 \<le> idx" and "idx \<le> sz" and "used (t ! idx) > 0"
  shows "\<exists>k d. live t idx k \<and> edata (hent (t ! idx)) = Some d \<and> used (t ! idx) = int (hash_key sz k) \<and>
    (\<exists>i < sz. probes sz k i = idx \<and> (\<forall>j<i. used (t ! probes sz k j) \<noteq> 0))"
proof -
  have "\<forall>idx\<in>{1..sz}. slot_ok t sz idx" using assms(1) unfolding tab_inv_def by blast
  then have "slot_ok t sz idx" using assms(2,3) by simp
  then consider "used (t ! idx) = - 1" | "used (t ! idx) = 0"
    | k d where "ekey (hent (t ! idx)) = Some k" "edata (hent (t ! idx)) = Some d"
      "used (t ! idx) = int (hash_key sz k)"
      "\<exists>i < sz. probes sz k i = idx \<and> (\<forall>j<i. used (t ! probes sz k j) \<noteq> 0)"
    unfolding slot_ok_def by blast
  then show ?thesis
  proof cases
    case 3
    then show ?thesis using assms(4) unfolding live_def by blast
  qed (use assms(4) in simp_all)
qed

lemma env_of_live:
  assumes inv: "tab_inv t (hsize htab)" and t: "table htab = Some t"
    and idx: "1 \<le> idx" "idx \<le> hsize htab" and l: "live t idx k"
  shows "env_of htab k = edata (hent (t ! idx))"
proof -
  let ?P = "\<lambda>s. used s > 0 \<and> ekey (hent s) = Some k"
  have len: "length t = hsize htab + 1" using inv by (simp add: tab_inv_def)
  obtain x xs where tx: "t = x # xs" using len by (cases t) auto
  have "xs ! (idx - 1) = t ! idx" "idx - 1 < length xs" using tx idx len by auto
  then obtain s where s: "find ?P xs = Some s"
    using l by (cases "find ?P xs") (auto simp: find_None_iff live_def in_set_conv_nth)
  then obtain j where j: "j < length xs" "xs ! j = s" "?P s" by (auto simp: find_Some_iff)
  then have "live t (Suc j) k" "Suc j \<in> {1..hsize htab}" using tx len by (auto simp: live_def)
  then have "Suc j = idx" using inv l idx unfolding tab_inv_def by (metis atLeastAtMost_iff)
  then have "t ! idx = s" using j tx by auto
  with s t tx show ?thesis by (simp add: env_of_def)
qed

lemma env_of_None:
  assumes inv: "tab_inv t (hsize htab)" and t: "table htab = Some t"
    and none: "\<And>idx. 1 \<le> idx \<Longrightarrow> idx \<le> hsize htab \<Longrightarrow> \<not> live t idx k"
  shows "env_of htab k = None"
proof -
  have len: "length t = hsize htab + 1" using inv by (simp add: tab_inv_def)
  obtain x xs where tx: "t = x # xs" using len by (cases t) auto
  have "\<not> (used s > 0 \<and> ekey (hent s) = Some k)" if s: "s \<in> set xs" for s
  proof -
    obtain j where "j < length xs" "xs ! j = s" using s by (auto simp: in_set_conv_nth)
    then show ?thesis using none[of "Suc j"] tx len by (auto simp: live_def)
  qed
  then have "find (\<lambda>s. used s > 0 \<and> ekey (hent s) = Some k) xs = None" by (auto simp: find_None_iff)
  with t tx show ?thesis by (simp add: env_of_def)
qed

text \<open>A search step at a slot that does not hold the key.\<close>

lemma slot_at_in: "table htab = Some t \<Longrightarrow> idx < length t \<Longrightarrow> slot_at htab idx = Some (t ! idx)"
  by (simp add: slot_at_def)

lemma compare_miss:
  assumes inv: "tab_inv t (hsize htab)" and t: "table htab = Some t"
    and idx: "1 \<le> idx" "idx \<le> hsize htab" and l: "\<not> live t idx k"
  shows "compare_and_overwrite_entry hk k dat act htab flag (hash_key (hsize htab) k) idx = Some (- 1, None, None, htab)"
proof (cases "used (t ! idx) = int (hash_key (hsize htab) k)")
  case True
  have "2 \<le> hsize htab" using inv by (simp add: tab_inv_def)
  then have "used (t ! idx) > 0" using True hash_key_range[of "hsize htab" k] by simp
  then obtain k' where "live t idx k'" using tab_live[OF inv idx] by blast
  then show ?thesis
    using True l inv idx slot_at_in[OF t] by (auto simp: compare_and_overwrite_entry_def live_def tab_inv_def)
next
  case False
  then show ?thesis using inv idx slot_at_in[OF t] by (simp add: compare_and_overwrite_entry_def tab_inv_def)
qed

section \<open>What a search returns\<close>

lemma probes_not_first:
  assumes "tab_inv t sz" and "0 < n" and "n < sz"
  shows "probes sz k n \<noteq> hash_key sz k"
proof
  assume "probes sz k n = hash_key sz k"
  moreover have "prime_nat sz" "5 \<le> sz" using assms(1) unfolding tab_inv_def by blast+
  ultimately have "n = 0" using assms(3) probes_inj[of sz n 0 k] by simp
  then show False using assms(2) by simp
qed

lemma loop_step:
  assumes inv: "tab_inv t sz" and sz: "hsize htab = sz" and t: "table htab = Some t" and i: "Suc i < sz"
    and l: "\<not> live t (probes sz k (Suc i)) k"
  shows "hsearch_loop hk k dat act htab flag (hash_key sz k) (hval2_of sz (hash_key sz k)) (Suc fuel) (probes sz k i) =
    (if used (t ! probes sz k (Suc i)) \<noteq> 0
     then hsearch_loop hk k dat act htab flag (hash_key sz k) (hval2_of sz (hash_key sz k)) fuel (probes sz k (Suc i))
     else Some (Inr (probes sz k (Suc i))))"
proof -
  have r: "1 \<le> probes sz k (Suc i)" "probes sz k (Suc i) \<le> sz"
    using probes_range[of sz k "Suc i"] inv by (auto simp: tab_inv_def)
  have n: "probe_next sz (hval2_of sz (hash_key sz k)) (probes sz k i) = probes sz k (Suc i)"
    by (simp only: probes_Suc)
  have "compare_and_overwrite_entry hk k dat act htab flag (hash_key sz k) (probes sz k (Suc i)) = Some (- 1, None, None, htab)"
    using compare_miss[of t htab] inv t sz r l by simp
  moreover have "slot_at htab (probes sz k (Suc i)) = Some (t ! probes sz k (Suc i))"
    using inv r by (intro slot_at_in[OF t]) (simp add: tab_inv_def)
  ultimately show ?thesis
    using probes_not_first[OF inv _ i] by (simp add: n sz Let_def)
qed

lemma compare_hit:
  assumes inv: "tab_inv t (hsize htab)" and t: "table htab = Some t"
    and idx: "1 \<le> idx" "idx \<le> hsize htab" and l: "live t idx k"
  shows "\<exists>r. compare_and_overwrite_entry hk k dat act htab flag (hash_key (hsize htab) k) idx = Some r \<and> fst r \<noteq> - 1"
proof -
  have "used (t ! idx) > 0" using l by (simp add: live_def)
  then have "used (t ! idx) = int (hash_key (hsize htab) k)"
    using tab_live[OF inv idx] l by (auto simp: live_def)
  moreover have "slot_at htab idx = Some (t ! idx)" using inv idx by (intro slot_at_in[OF t]) (simp add: tab_inv_def)
  ultimately show ?thesis
    using l by (auto simp: compare_and_overwrite_entry_def live_def Let_def split: option.splits)
qed

lemma loop_hit:
  assumes inv: "tab_inv t sz" and sz: "hsize htab = sz" and t: "table htab = Some t" and n: "n < sz"
    and l: "live t (probes sz k n) k" and before: "\<forall>j<n. \<not> live t (probes sz k j) k \<and> used (t ! probes sz k j) \<noteq> 0"
  shows "i < n \<Longrightarrow> n - i \<le> fuel \<Longrightarrow>
    hsearch_loop hk k dat act htab flag (hash_key sz k) (hval2_of sz (hash_key sz k)) fuel (probes sz k i) =
      map_option Inl (compare_and_overwrite_entry hk k dat act htab flag (hash_key sz k) (probes sz k n))"
proof (induction "n - i" arbitrary: i fuel)
  case (Suc m)
  obtain f where f: "fuel = Suc f" using Suc.prems by (cases fuel) auto
  show ?case
  proof (cases "Suc i = n")
    case True
    have r: "1 \<le> probes sz k n" "probes sz k n \<le> sz"
      using probes_range[of sz k n] inv by (auto simp: tab_inv_def)
    have nx: "probe_next sz (hval2_of sz (hash_key sz k)) (probes sz k i) = probes sz k n"
      using True by (simp only: probes_Suc[symmetric])
    obtain r' where "compare_and_overwrite_entry hk k dat act htab flag (hash_key sz k) (probes sz k n) = Some r'"
      "fst r' \<noteq> - 1" using compare_hit[of t htab] inv t sz r l by blast
    then show ?thesis
      using probes_not_first[OF inv _ n, of k] True by (simp add: f nx sz Let_def)
  next
    case False
    then have i: "Suc i < n" using Suc.prems by simp
    then have "hsearch_loop hk k dat act htab flag (hash_key sz k) (hval2_of sz (hash_key sz k)) fuel (probes sz k i) =
      hsearch_loop hk k dat act htab flag (hash_key sz k) (hval2_of sz (hash_key sz k)) f (probes sz k (Suc i))"
      unfolding f using before n by (subst loop_step[OF inv sz t]) auto
    then show ?thesis using Suc.hyps(1)[of "Suc i" f] Suc.hyps(2) i Suc.prems f by simp
  qed
qed simp

lemma loop_miss:
  assumes inv: "tab_inv t sz" and sz: "hsize htab = sz" and t: "table htab = Some t"
    and no: "\<forall>j. \<not> live t (probes sz k j) k"
  shows "i < sz \<Longrightarrow> sz - i \<le> fuel \<Longrightarrow> \<forall>j\<le>i. used (t ! probes sz k j) \<noteq> 0 \<Longrightarrow>
    \<exists>n. n \<le> sz \<and> hsearch_loop hk k dat act htab flag (hash_key sz k) (hval2_of sz (hash_key sz k)) fuel (probes sz k i) =
        Some (Inr (probes sz k n)) \<and> (\<forall>j<n. used (t ! probes sz k j) \<noteq> 0) \<and> (n < sz \<longrightarrow> used (t ! probes sz k n) = 0)"
proof (induction "sz - i" arbitrary: i fuel)
  case (Suc m)
  obtain f where f: "fuel = Suc f" using Suc.prems by (cases fuel) auto
  have five: "5 \<le> sz" using inv by (simp add: tab_inv_def)
  show ?case
  proof (cases "Suc i = sz")
    case True
    have "probe_next sz (hval2_of sz (hash_key sz k)) (probes sz k i) = hash_key sz k"
      using True probes_return[OF five, of k] by (simp add: probes_Suc[symmetric])
    then show ?thesis
      using True Suc.prems(3) by (intro exI[of _ sz]) (auto simp: f sz Let_def probes_return[OF five] less_Suc_eq_le)
  next
    case False
    then have i: "Suc i < sz" using Suc.prems by simp
    note st = loop_step[OF inv sz t i no[rule_format], of hk dat act flag f]
    show ?thesis
    proof (cases "used (t ! probes sz k (Suc i)) = 0")
      case True
      then show ?thesis using st Suc.prems(3) i unfolding f by (intro exI[of _ "Suc i"]) (auto simp: less_Suc_eq_le)
    next
      case False
      then have "\<forall>j\<le>Suc i. used (t ! probes sz k j) \<noteq> 0" using Suc.prems(3) by (auto simp: le_Suc_eq)
      then show ?thesis using st False Suc.hyps(1)[of "Suc i" f] Suc.hyps(2) i Suc.prems f by auto
    qed
  qed
qed simp

lemma hsearch_found:
  assumes inv: "tab_inv t (hsize htab)" and t: "table htab = Some t"
    and idx: "1 \<le> idx" "idx \<le> hsize htab" and l: "live t idx k"
  shows "hsearch_r hk k dat act htab flag =
    compare_and_overwrite_entry hk k dat act htab flag (hash_key (hsize htab) k) idx"
proof -
  let ?sz = "hsize htab" and ?h = "hash_key (hsize htab) k"
  have "used (t ! idx) > 0" using l by (simp add: live_def)
  then obtain n where n: "n < ?sz" "probes ?sz k n = idx" "\<forall>j<n. used (t ! probes ?sz k j) \<noteq> 0"
    using tab_live[OF inv idx] l by (auto simp: live_def)
  have sz: "prime_nat ?sz" "5 \<le> ?sz" "length t = ?sz + 1" using inv by (auto simp: tab_inv_def)
  have earlier: "\<not> live t (probes ?sz k j) k" if "j < n" for j
  proof
    assume "live t (probes ?sz k j) k"
    then have "probes ?sz k j = idx"
      using inv l idx probes_range[OF sz(2), of k j] unfolding tab_inv_def by (metis atLeastAtMost_iff)
    then show False using probes_inj[OF sz(1,2), of j n k] n that by simp
  qed
  have h: "1 \<le> ?h" "?h \<le> ?sz" using hash_key_range[of ?sz k] sz by auto
  have at: "slot_at htab ?h = Some (t ! ?h)" using h sz by (intro slot_at_in[OF t]) simp
  obtain r where r: "compare_and_overwrite_entry hk k dat act htab flag ?h idx = Some r" "fst r \<noteq> - 1"
    using compare_hit[OF inv t idx l] by blast
  show ?thesis
  proof (cases "n = 0")
    case True
    then have "idx = ?h" using n by simp
    then show ?thesis using r at \<open>used (t ! idx) > 0\<close> by (simp add: hsearch_r_def Let_def)
  next
    case False
    then have u: "used (t ! ?h) \<noteq> 0" "\<not> live t ?h k" using n(3) earlier[of 0] by auto
    have "compare_and_overwrite_entry hk k dat act htab flag ?h ?h = Some (- 1, None, None, htab)"
      using compare_miss[OF inv t h u(2)] .
    moreover have "hsearch_loop hk k dat act htab flag ?h (hval2_of ?sz ?h) (?sz + 1) (probes ?sz k 0) =
        map_option Inl (compare_and_overwrite_entry hk k dat act htab flag ?h idx)"
      using loop_hit[OF inv refl t n(1), of k 0 "?sz + 1"] l n earlier False by simp
    ultimately show ?thesis using r at u by (simp add: hsearch_r_def Let_def hval2_of_def)
  qed
qed

text \<open>The slot where a new key goes, when there is a free slot.\<close>

lemma hsearch_missing:
  assumes inv: "tab_inv t (hsize htab)" and t: "table htab = Some t"
    and none: "\<And>idx. 1 \<le> idx \<Longrightarrow> idx \<le> hsize htab \<Longrightarrow> \<not> live t idx k"
  shows "\<exists>fd idx. hsearch_r hk k dat act htab flag = hsearch_finish hk k dat act htab flag (hash_key (hsize htab) k) fd idx \<and>
    ((\<exists>a\<in>{1..hsize htab}. used (t ! a) = 0) \<longrightarrow>
      (\<exists>n. n < hsize htab \<and> probes (hsize htab) k n = (if fd \<noteq> 0 then fd else idx) \<and>
         used (t ! probes (hsize htab) k n) \<le> 0 \<and> (\<forall>j<n. used (t ! probes (hsize htab) k j) \<noteq> 0)))"
proof -
  let ?sz = "hsize htab" and ?h = "hash_key (hsize htab) k"
  have sz: "prime_nat ?sz" "5 \<le> ?sz" "length t = ?sz + 1" using inv by (auto simp: tab_inv_def)
  have h: "1 \<le> ?h" "?h \<le> ?sz" using hash_key_range[of ?sz k] sz by auto
  have no: "\<forall>j. \<not> live t (probes ?sz k j) k" using none probes_range[OF sz(2), of k] by blast
  have at: "slot_at htab ?h = Some (t ! ?h)" using h sz by (intro slot_at_in[OF t]) simp
  show ?thesis
  proof (cases "used (t ! ?h) = 0")
    case True
    then show ?thesis using at sz(2)
      by (intro exI[of _ 0] exI[of _ ?h]) (auto simp: hsearch_r_def Let_def intro!: exI[of _ "0::nat"])
  next
    case False
    obtain n where n: "n \<le> ?sz" "hsearch_loop hk k dat act htab flag ?h (hval2_of ?sz ?h) (?sz + 1) (probes ?sz k 0) =
        Some (Inr (probes ?sz k n))" "\<forall>j<n. used (t ! probes ?sz k j) \<noteq> 0"
      "n < ?sz \<longrightarrow> used (t ! probes ?sz k n) = 0"
      using loop_miss[OF inv refl t no, of 0 "?sz + 1"] False sz by fastforce
    define fd where "fd = (if used (t ! ?h) = - 1 then ?h else 0)"
    have eq: "hsearch_r hk k dat act htab flag =
        hsearch_finish hk k dat act htab flag ?h fd (probes ?sz k n)"
      using at False compare_miss[OF inv t h, of k hk dat act flag] no[rule_format, of 0] n(2)
      by (simp add: hsearch_r_def Let_def hval2_of_def fd_def)
    have "\<exists>m. m < ?sz \<and> probes ?sz k m = (if fd \<noteq> 0 then fd else probes ?sz k n) \<and>
         used (t ! probes ?sz k m) \<le> 0 \<and> (\<forall>j<m. used (t ! probes ?sz k j) \<noteq> 0)"
      if free: "\<exists>a\<in>{1..?sz}. used (t ! a) = 0"
    proof (cases "fd = 0")
      case True
      obtain a m where "1 \<le> a" "a \<le> ?sz" "used (t ! a) = 0" "m < ?sz" "probes ?sz k m = a"
        using free probes_surj[OF sz(1,2)] by fastforce
      then have "n < ?sz" using n(1,3) by (metis le_neq_implies_less)
      then show ?thesis using True n by auto
    next
      case False
      then have "fd = ?h" "used (t ! ?h) = - 1" by (auto simp: fd_def split: if_splits)
      then show ?thesis using False sz(2) by (intro exI[of _ 0]) auto
    qed
    with eq show ?thesis by blast
  qed
qed

section \<open>Updates keep the invariant\<close>

lemma tab_update:
  assumes inv: "tab_inv t sz" and idx: "1 \<le> idx" "idx \<le> sz" and u: "used s \<noteq> 0"
    and ok: "slot_ok (t[idx := s]) sz idx"
    and new: "\<And>k a. used s > 0 \<Longrightarrow> ekey (hent s) = Some k \<Longrightarrow> 1 \<le> a \<Longrightarrow> a \<le> sz \<Longrightarrow> live t a k \<Longrightarrow> a = idx"
  shows "tab_inv (t[idx := s]) sz"
proof -
  have len: "length t = sz + 1" "prime_nat sz" "5 \<le> sz" using inv unfolding tab_inv_def by blast+
  have nz: "used (t[idx := s] ! a) \<noteq> 0" if "used (t ! a) \<noteq> 0" for a
    using that u len idx by (cases "a = idx") auto
  have slots: "slot_ok (t[idx := s]) sz a" if "a \<in> {1..sz}" for a
  proof (cases "a = idx")
    case False
    then have eq: "t[idx := s] ! a = t ! a" by simp
    have "slot_ok t sz a" using inv that unfolding tab_inv_def by blast
    then show ?thesis unfolding slot_ok_def eq using nz by blast
  qed (use ok in simp)
  have keys: "a = b" if "a \<in> {1..sz}" "b \<in> {1..sz}" "live (t[idx := s]) a k" "live (t[idx := s]) b k" for a b k
  proof -
    have lv: "live t c k" if "c \<noteq> idx" "live (t[idx := s]) c k" for c using that by (simp add: live_def)
    have at: "used s > 0 \<and> ekey (hent s) = Some k" if "live (t[idx := s]) idx k"
      using that idx len by (simp add: live_def)
    have uniq: "a = b" if "live t a k" "live t b k"
      using inv that \<open>a \<in> {1..sz}\<close> \<open>b \<in> {1..sz}\<close> unfolding tab_inv_def by blast
    have hit: "c = idx" if "c \<in> {1..sz}" "live (t[idx := s]) c k" "live (t[idx := s]) idx k" for c
      using at[OF that(3)] new[of k c] lv[OF _ that(2)] that(1) by (cases "c = idx") simp_all
    show ?thesis
    proof (cases "a = idx \<or> b = idx")
      case True
      then show ?thesis using that hit[of a] hit[of b] by blast
    next
      case False
      then show ?thesis using lv[of a] lv[of b] uniq that by blast
    qed
  qed
  have "length (t[idx := s]) = sz + 1" using len(1) by simp
  then show ?thesis unfolding tab_inv_def using len(2,3) slots keys by blast
qed

lemma live_update:
  assumes "length t = sz + 1" and "1 \<le> idx" and "idx \<le> sz"
  shows "live (t[idx := s]) a k \<longleftrightarrow> (if a = idx then used s > 0 \<and> ekey (hent s) = Some k else live t a k)"
  using assms by (auto simp: live_def)

lemma env_update:
  assumes inv: "tab_inv t (hsize htab)" and t: "table htab = Some t"
    and inv': "tab_inv (t[idx := s]) (hsize htab)" and t': "table htab' = Some (t[idx := s])" "hsize htab' = hsize htab"
    and idx: "1 \<le> idx" "idx \<le> hsize htab" and other: "\<And>k'. k' \<noteq> k \<Longrightarrow> \<not> live t idx k' \<and> ekey (hent s) \<noteq> Some k'"
  shows "k' \<noteq> k \<Longrightarrow> env_of htab' k' = env_of htab k'"
    and "used s > 0 \<Longrightarrow> ekey (hent s) = Some k \<Longrightarrow> env_of htab' k = edata (hent s)"
    and "used s \<le> 0 \<Longrightarrow> (\<And>a. 1 \<le> a \<Longrightarrow> a \<le> hsize htab \<Longrightarrow> a \<noteq> idx \<Longrightarrow> \<not> live t a k) \<Longrightarrow> env_of htab' k = None"
proof -
  have len: "length t = hsize htab + 1" using inv by (simp add: tab_inv_def)
  note lu = live_update[OF len idx, of s]
  have inv'': "tab_inv (t[idx := s]) (hsize htab')" using inv' t' by simp
  show "env_of htab' k' = env_of htab k'" if ne: "k' \<noteq> k"
  proof (cases "\<exists>a. 1 \<le> a \<and> a \<le> hsize htab \<and> live t a k'")
    case True
    then obtain a where a: "1 \<le> a" "a \<le> hsize htab" "live t a k'" by blast
    then have "a \<noteq> idx" using other[OF ne] by auto
    moreover then have "live (t[idx := s]) a k'" using a lu by simp
    ultimately show ?thesis
      using env_of_live[OF inv t a] env_of_live[OF inv'' t'(1), of a k'] a t'(2) by simp
  next
    case False
    have "env_of htab k' = None" using False by (intro env_of_None[OF inv t]) auto
    moreover have "env_of htab' k' = None"
      using False other[OF ne] t'(2) lu by (intro env_of_None[OF inv'' t'(1)]) (auto split: if_splits)
    ultimately show ?thesis by simp
  qed
  show "env_of htab' k = edata (hent s)" if "used s > 0" "ekey (hent s) = Some k"
    using env_of_live[OF inv'' t'(1), of idx k] idx t'(2) lu that len by simp
  show "env_of htab' k = None" if "used s \<le> 0" "\<And>a. 1 \<le> a \<Longrightarrow> a \<le> hsize htab \<Longrightarrow> a \<noteq> idx \<Longrightarrow> \<not> live t a k"
    using that t'(2) lu by (intro env_of_None[OF inv'' t'(1)]) (auto split: if_splits)
qed

lemma card_live_update:
  assumes "length t = sz + 1" and "1 \<le> idx" and "idx \<le> sz"
  shows "card {a\<in>{1..sz}. used (t[idx := s] ! a) > 0} + (if used (t ! idx) > 0 then 1 else 0) =
    card {a\<in>{1..sz}. used (t ! a) > 0} + (if used s > 0 then 1 else 0)"
proof -
  let ?R = "{a\<in>{1..sz}. a \<noteq> idx \<and> used (t ! a) > 0}"
  have 1: "{a\<in>{1..sz}. used (t[idx := s] ! a) > 0} = (if used s > 0 then insert idx ?R else ?R)"
    using assms by (auto simp: nth_list_update)
  have 2: "{a\<in>{1..sz}. used (t ! a) > 0} = (if used (t ! idx) > 0 then insert idx ?R else ?R)"
    using assms by auto
  have "finite ?R" "idx \<notin> ?R" by auto
  then show ?thesis unfolding 1 2 by simp
qed

lemma set_slot_simps [simp]:
  "table htab = Some t \<Longrightarrow> table (set_slot htab idx s) = Some (t[idx := s])"
  "hsize (set_slot htab idx s) = hsize htab" "filled (set_slot htab idx s) = filled htab"
  by (simp_all add: set_slot_def)

lemma tab_delete:
  assumes inv: "tab_inv t sz" and idx: "1 \<le> idx" "idx \<le> sz" and s: "used s = - 1"
  shows "tab_inv (t[idx := s]) sz"
proof (rule tab_update[OF inv idx])
  have "length t = sz + 1" using inv by (simp add: tab_inv_def)
  then show "slot_ok (t[idx := s]) sz idx" using s idx by (simp add: slot_ok_def)
qed (use s in auto)

text \<open>Deleting the entry of a key.\<close>

lemma hdelete_entry_correct:
  assumes inv: "tab_inv t (hsize htab)" and t: "table htab = Some t"
    and fl: "filled htab = card {a\<in>{1..hsize htab}. used (t ! a) > 0}"
    and idx: "1 \<le> idx" "idx \<le> hsize htab" and l: "live t idx k"
  shows "ht_inv (hdelete_entry htab idx) \<and> env_of (hdelete_entry htab idx) = (env_of htab)(k := None) \<and>
    hsize (hdelete_entry htab idx) = hsize htab"
proof -
  let ?s = "(t ! idx)\<lparr>used := - 1, hent := (hent (t ! idx))\<lparr>ecallback := None, eflags := 0\<rparr>\<rparr>"
  let ?h = "hdelete_entry htab idx"
  have len: "length t = hsize htab + 1" using inv by (simp add: tab_inv_def)
  then have at: "slot_at htab idx = Some (t ! idx)" using idx by (intro slot_at_in[OF t]) simp
  have h: "table ?h = Some (t[idx := ?s])" "hsize ?h = hsize htab" "filled ?h = filled htab - 1"
    using t by (simp_all add: hdelete_entry_def at)
  have inv': "tab_inv (t[idx := ?s]) (hsize htab)" by (rule tab_delete[OF inv idx]) simp
  have pos: "used (t ! idx) > 0" using l by (simp add: live_def)
  have "ht_inv ?h"
    unfolding ht_inv_def using h inv' fl pos card_live_update[OF len idx, of ?s] by simp
  moreover have "env_of ?h k' = ((env_of htab)(k := None)) k'" for k'
  proof -
    have other: "\<not> live t idx k' \<and> ekey (hent ?s) \<noteq> Some k'" if "k' \<noteq> k" for k'
      using l that by (auto simp: live_def)
    have uniq: "\<not> live t a k" if "1 \<le> a" "a \<le> hsize htab" "a \<noteq> idx" for a
      using inv l idx that unfolding tab_inv_def by (metis atLeastAtMost_iff)
    note e = env_update[where k = k, OF inv t inv' h(1,2) idx other]
    show ?thesis using e(1)[of k'] e(3) uniq by (cases "k' = k") auto
  qed
  ultimately show ?thesis using h by auto
qed

text \<open>Writing a new entry for a key that the table does not hold.\<close>

lemma enter_correct:
  assumes inv: "tab_inv t (hsize htab)" and t: "table htab = Some t"
    and fl: "filled htab = card {a\<in>{1..hsize htab}. used (t ! a) > 0}"
    and none: "\<And>idx. 1 \<le> idx \<Longrightarrow> idx \<le> hsize htab \<Longrightarrow> \<not> live t idx k"
    and n: "n < hsize htab" "probes (hsize htab) k n = idx" "used (t ! idx) \<le> 0"
      "\<forall>j<n. used (t ! probes (hsize htab) k j) \<noteq> 0"
    and s: "used s = int (hash_key (hsize htab) k)" "ekey (hent s) = Some k" "edata (hent s) = Some d"
    and h: "htab' = (set_slot htab idx s)\<lparr>filled := filled htab + 1\<rparr>"
  shows "ht_inv htab' \<and> env_of htab' = (env_of htab)(k \<mapsto> d) \<and> hsize htab' = hsize htab \<and>
    tab_inv (t[idx := s]) (hsize htab') \<and> table htab' = Some (t[idx := s]) \<and> live (t[idx := s]) idx k \<and> 1 \<le> idx \<and> idx \<le> hsize htab"
proof -
  have len: "length t = hsize htab + 1" "5 \<le> hsize htab" "prime_nat (hsize htab)" using inv by (auto simp: tab_inv_def)
  have idx: "1 \<le> idx" "idx \<le> hsize htab" using probes_range[OF len(2), of k n] n by auto
  have pos: "used s > 0" using s hash_key_range[of "hsize htab" k] len by simp
  have h': "table htab' = Some (t[idx := s])" "hsize htab' = hsize htab" "filled htab' = filled htab + 1"
    using t by (simp_all add: h)
  have chain: "used (t[idx := s] ! probes (hsize htab) k j) \<noteq> 0" if "j < n" for j
  proof -
    have "probes (hsize htab) k j \<noteq> idx" using probes_inj[OF len(3,2), of j n k] n that by auto
    then show ?thesis using n(4) that by simp
  qed
  have ok: "slot_ok (t[idx := s]) (hsize htab) idx"
    unfolding slot_ok_def using s n(1,2) chain idx len(1) by (intro disjI2) auto
  have inv': "tab_inv (t[idx := s]) (hsize htab)"
    using pos s none by (intro tab_update[OF inv idx _ ok]) auto
  have "ht_inv htab'"
    unfolding ht_inv_def using h' inv' fl pos n(3) card_live_update[OF len(1) idx, of s] by simp
  moreover have "env_of htab' k' = ((env_of htab)(k \<mapsto> d)) k'" for k'
  proof -
    have other: "\<not> live t idx k' \<and> ekey (hent s) \<noteq> Some k'" if "k' \<noteq> k" for k'
      using n(3) s that by (auto simp: live_def)
    note e = env_update[where k = k, OF inv t inv' h'(1,2) idx other]
    show ?thesis using e(1)[of k'] e(2) pos s(2,3) by (cases "k' = k") auto
  qed
  ultimately show ?thesis
    using h' inv' idx pos s live_update[OF len(1) idx, of s idx k] by auto
qed

section \<open>The operations on the environment\<close>

definition free_slots :: "hsearch_data \<Rightarrow> nat" where
  "free_slots htab = (case table htab of None \<Rightarrow> 0 | Some t \<Rightarrow> card {idx\<in>{1..hsize htab}. used (t ! idx) = 0})"

lemma ht_invE:
  assumes "ht_inv htab"
  obtains t where "table htab = Some t" "tab_inv t (hsize htab)"
    "filled htab = card {idx\<in>{1..hsize htab}. used (t ! idx) > 0}"
  using assms unfolding ht_inv_def by blast

lemma env_cases:
  assumes inv: "tab_inv t (hsize htab)" and t: "table htab = Some t"
  obtains (there) idx d where "1 \<le> idx" "idx \<le> hsize htab" "live t idx k" "edata (hent (t ! idx)) = Some d"
      "env_of htab k = Some d" "used (t ! idx) = int (hash_key (hsize htab) k)"
  | (missing) "\<And>idx. 1 \<le> idx \<Longrightarrow> idx \<le> hsize htab \<Longrightarrow> \<not> live t idx k" "env_of htab k = None"
proof (cases "\<exists>idx. 1 \<le> idx \<and> idx \<le> hsize htab \<and> live t idx k")
  case True
  then obtain idx where i: "1 \<le> idx" "idx \<le> hsize htab" "live t idx k" by blast
  then have "used (t ! idx) > 0" by (simp add: live_def)
  from tab_live[OF inv i(1,2) this] obtain d where "edata (hent (t ! idx)) = Some d" "used (t ! idx) = int (hash_key (hsize htab) k)"
    using i(3) by (auto simp: live_def)
  then show ?thesis using env_of_live[OF inv t i] by (intro there[OF i]) simp_all
next
  case False
  then have no: "\<And>idx. 1 \<le> idx \<Longrightarrow> idx \<le> hsize htab \<Longrightarrow> \<not> live t idx k" by blast
  show ?thesis by (rule missing[OF no env_of_None[OF inv t no]])
qed

lemma hsearch_find:
  assumes "ht_inv htab"
  shows "\<exists>r err ep. hsearch_r hk k dat FIND htab flag = Some (r, err, ep, htab) \<and>
    (case env_of htab k of
       None \<Rightarrow> r = 0 \<and> err = Some ESRCH \<and> ep = None
     | Some d \<Rightarrow> err = None \<and> (\<exists>idx s. 1 \<le> idx \<and> idx \<le> hsize htab \<and> r = int idx \<and> ep = Some idx \<and>
         slot_at htab idx = Some s \<and> used s > 0 \<and> ekey (hent s) = Some k \<and> edata (hent s) = Some d))"
proof -
  obtain t where t: "table htab = Some t" "tab_inv t (hsize htab)" using assms by (rule ht_invE)
  show ?thesis
  proof (cases rule: env_cases[OF t(2,1), of k])
    case (1 idx d)
    have "slot_at htab idx = Some (t ! idx)"
      using t(2) 1(2) by (intro slot_at_in[OF t(1)]) (simp add: tab_inv_def)
    then show ?thesis
      using hsearch_found[OF t(2,1) 1(1-3)] 1
      by (auto simp: compare_and_overwrite_entry_def live_def split: option.splits)
  next
    case 2
    then show ?thesis
      using hsearch_missing[OF t(2,1), of k hk dat FIND flag] by (auto simp: hsearch_finish_def)
  qed
qed

lemma free_slots_live:
  assumes "tab_inv t (hsize htab)" and "table htab = Some t" and "0 < free_slots htab"
  shows "\<exists>a\<in>{1..hsize htab}. used (t ! a) = 0" and "card {a\<in>{1..hsize htab}. used (t ! a) > 0} \<noteq> hsize htab"
proof -
  have "{a\<in>{1..hsize htab}. used (t ! a) = 0} \<noteq> {}" using assms(2,3) by (simp add: free_slots_def card_gt_0_iff)
  then show free: "\<exists>a\<in>{1..hsize htab}. used (t ! a) = 0" by auto
  then obtain a where "a \<in> {1..hsize htab}" "a \<notin> {a\<in>{1..hsize htab}. used (t ! a) > 0}" by auto
  then have "{a\<in>{1..hsize htab}. used (t ! a) > 0} \<subset> {1..hsize htab}" by blast
  then have "card {a\<in>{1..hsize htab}. used (t ! a) > 0} < card {1..hsize htab}" by (intro psubset_card_mono) auto
  then show "card {a\<in>{1..hsize htab}. used (t ! a) > 0} \<noteq> hsize htab" by simp
qed

lemma free_slots_update:
  assumes "table htab = Some t" and "table htab' = Some (t[idx := s])" and "hsize htab' = hsize htab"
  shows "free_slots htab \<le> Suc (free_slots htab')"
    and "used (t ! idx) \<noteq> 0 \<Longrightarrow> free_slots htab \<le> free_slots htab'"
proof -
  let ?A = "{a\<in>{1..hsize htab}. used (t ! a) = 0}" and ?B = "{a\<in>{1..hsize htab}. used (t[idx := s] ! a) = 0}"
  have sub: "?A - {idx} \<subseteq> ?B" by auto
  have fin: "finite ?A" by simp
  have "card ?A \<le> Suc (card (?A - {idx}))"
    using card_Suc_Diff1[OF fin, of idx] by (cases "idx \<in> ?A") simp_all
  also have "\<dots> \<le> Suc (card ?B)" using sub by (intro Suc_le_mono[THEN iffD2] card_mono) auto
  finally show "free_slots htab \<le> Suc (free_slots htab')" using assms by (simp add: free_slots_def)
  show "free_slots htab \<le> free_slots htab'" if "used (t ! idx) \<noteq> 0"
  proof -
    have "?A \<subseteq> ?B" 
    proof
      fix x assume "x \<in> ?A"
      then show "x \<in> ?B" using that by (cases "x = idx") auto
    qed
    then have "card ?A \<le> card ?B" by (intro card_mono) auto
    then show ?thesis using assms by (simp add: free_slots_def)
  qed
qed

text \<open>Overwriting the value of a key that is in the table.\<close>

lemma overwrite_correct:
  assumes inv: "tab_inv t (hsize htab)" and t: "table htab = Some t"
    and fl: "filled htab = card {a\<in>{1..hsize htab}. used (t ! a) > 0}"
    and idx: "1 \<le> idx" "idx \<le> hsize htab" and l: "live t idx k"
    and s: "s = (t ! idx)\<lparr>hent := (hent (t ! idx))\<lparr>edata := Some d\<rparr>\<rparr>"
  shows "ht_inv (set_slot htab idx s) \<and> env_of (set_slot htab idx s) = (env_of htab)(k \<mapsto> d)"
proof -
  have len: "length t = hsize htab + 1" using inv by (simp add: tab_inv_def)
  have pos: "used (t ! idx) > 0" "used s > 0" "ekey (hent s) = Some k" "edata (hent s) = Some d" "used s = used (t ! idx)"
    using l by (auto simp: live_def s)
  obtain i where i: "used (t ! idx) = int (hash_key (hsize htab) k)" "i < hsize htab" "probes (hsize htab) k i = idx"
    "\<forall>j<i. used (t ! probes (hsize htab) k j) \<noteq> 0"
    using tab_live[OF inv idx pos(1)] l by (auto simp: live_def)
  have "used (t[idx := s] ! a) = used (t ! a)" for a using pos(5) idx len by (cases "a = idx") auto
  then have ok: "slot_ok (t[idx := s]) (hsize htab) idx"
    unfolding slot_ok_def using i pos idx len by auto
  have inv': "tab_inv (t[idx := s]) (hsize htab)"
  proof (rule tab_update[OF inv idx _ ok])
    show "used s \<noteq> 0" using pos by simp
    show "a = idx" if "ekey (hent s) = Some k'" "1 \<le> a" "a \<le> hsize htab" "live t a k'" for k' a
      using inv that l idx pos(3) unfolding tab_inv_def by (metis atLeastAtMost_iff option.inject)
  qed
  let ?h = "set_slot htab idx s"
  have h: "table ?h = Some (t[idx := s])" "hsize ?h = hsize htab" using t by simp_all
  have "ht_inv ?h" unfolding ht_inv_def using t inv' fl card_live_update[OF len idx, of s] pos by simp
  moreover have "env_of ?h k' = ((env_of htab)(k \<mapsto> d)) k'" for k'
  proof -
    have other: "\<not> live t idx k' \<and> ekey (hent s) \<noteq> Some k'" if "k' \<noteq> k" for k'
      using l pos(3) that by (auto simp: live_def)
    note e = env_update[where k = k, OF inv t inv' h idx other]
    show ?thesis using e(1)[of k'] e(2) pos by (cases "k' = k") auto
  qed
  ultimately show ?thesis by auto
qed

lemma hsearch_enter_env:
  assumes "ht_inv htab" and sd: "strdup hk = Some" and room: "0 < free_slots htab"
  shows "\<exists>r err ep htab'. hsearch_r hk k (Some d) ENTER htab flag = Some (r, err, ep, htab') \<and>
    ht_inv htab' \<and> env_of htab' = (if r \<noteq> 0 then (env_of htab)(k \<mapsto> d) else env_of htab) \<and>
    (r = 0 \<longrightarrow> err \<in> {Some EPERM, Some EINVAL}) \<and> free_slots htab \<le> Suc (free_slots htab') \<and>
    hsize htab' = hsize htab \<and> (ep = None \<longleftrightarrow> r = 0)"
proof -
  obtain t where t: "table htab = Some t" "tab_inv t (hsize htab)"
    and fl: "filled htab = card {a\<in>{1..hsize htab}. used (t ! a) > 0}" using assms(1) by (rule ht_invE)
  show ?thesis
  proof (cases rule: env_cases[OF t(2,1), of k])
    case (1 idx d0)
    have at: "slot_at htab idx = Some (t ! idx)"
      using t(2) 1(2) by (intro slot_at_in[OF t(1)]) (simp add: tab_inv_def)
    define s where "s = (t ! idx)\<lparr>hent := (hent (t ! idx))\<lparr>edata := Some d\<rparr>\<rparr>"
    note ow = overwrite_correct[OF t(2,1) fl 1(1-3) s_def]
    have nz: "used (t ! idx) \<noteq> 0" using 1(3) by (simp add: live_def)
    have "free_slots htab \<le> free_slots (set_slot htab idx s)"
      by (rule free_slots_update(2)[OF t(1) _ _ nz]) (use t in simp_all)
    moreover have "hsearch_r hk k (Some d) ENTER htab flag =
      (if rejects hk (hent (t ! idx)) (Some d) Op_overwrite flag then Some (0, Some EPERM, None, htab)
       else if cb_rejects hk (hent (t ! idx)) k (Some d) Op_overwrite flag then Some (0, Some EINVAL, None, htab)
       else Some (int idx, None, Some idx, set_slot htab idx s))"
      using hsearch_found[OF t(2,1) 1(1-3)] at 1 sd
      by (simp add: compare_and_overwrite_entry_def live_def Let_def s_def)
    ultimately show ?thesis using ow assms(1) 1(1) by auto
  next
    case 2
    note free = free_slots_live[OF t(2,1) room]
    obtain fd idx n where r: "hsearch_r hk k (Some d) ENTER htab flag =
        hsearch_finish hk k (Some d) ENTER htab flag (hash_key (hsize htab) k) fd idx"
      and n: "n < hsize htab" "probes (hsize htab) k n = (if fd \<noteq> 0 then fd else idx)"
         "used (t ! probes (hsize htab) k n) \<le> 0" "\<forall>j<n. used (t ! probes (hsize htab) k j) \<noteq> 0"
      using hsearch_missing[OF t(2,1) 2(1), of hk "Some d" ENTER flag] free(1) by blast
    define i where "i = probes (hsize htab) k n"
    have len: "length t = hsize htab + 1" "5 \<le> hsize htab" using t(2) by (auto simp: tab_inv_def)
    have ri: "1 \<le> i" "i \<le> hsize htab" using probes_range[OF len(2), of k n] by (auto simp: i_def)
    have at: "slot_at htab i = Some (t ! i)" using len ri by (intro slot_at_in[OF t(1)]) simp
    define s where "s = \<lparr>used = int (hash_key (hsize htab) k),
      hent = (hent (t ! i))\<lparr>ekey := Some k, edata := Some d, ecallback := callback_init hk (Some k), eflags := flags_init hk (Some k)\<rparr>\<rparr>"
    define h where "h = (set_slot htab i s)\<lparr>filled := filled htab + 1\<rparr>"
    have en: "ht_inv h \<and> env_of h = (env_of htab)(k \<mapsto> d) \<and> hsize h = hsize htab \<and>
      tab_inv (t[i := s]) (hsize h) \<and> table h = Some (t[i := s]) \<and> live (t[i := s]) i k \<and> 1 \<le> i \<and> i \<le> hsize htab"
      using n by (intro enter_correct[OF t(2,1) fl 2(1), where n = n and d = d])
        (simp_all add: i_def s_def h_def)
    have eq: "hsearch_r hk k (Some d) ENTER htab flag =
      (if rejects hk (hent s) (Some d) Op_create flag then Some (0, Some EPERM, None, hdelete_entry h i)
       else if cb_rejects hk (hent s) k (Some d) Op_create flag then Some (0, Some EINVAL, None, hdelete_entry h i)
       else Some (1, None, Some i, h))"
      unfolding r hsearch_finish_def n(2)[symmetric] i_def[symmetric]
      using free(2) fl at sd by (simp add: hsearch_enter_def Let_def s_def h_def)
    have flh: "filled h = card {a\<in>{1..hsize h}. used (t[i := s] ! a) > 0}"
      using en unfolding ht_inv_def by auto
    have dl: "ht_inv (hdelete_entry h i) \<and> env_of (hdelete_entry h i) = (env_of h)(k := None) \<and> hsize (hdelete_entry h i) = hsize h"
      using en flh by (intro hdelete_entry_correct) auto
    have "(env_of h)(k := None) = env_of htab" using en 2(2) by auto
    moreover have "free_slots htab \<le> Suc (free_slots h)" using en t(1) by (intro free_slots_update(1)[where t = t]) auto
    moreover have "free_slots htab \<le> Suc (free_slots (hdelete_entry h i))"
    proof -
      have "slot_at h i = Some (t[i := s] ! i)" using en len by (intro slot_at_in) auto
      then have "\<exists>s'. table (hdelete_entry h i) = Some (t[i := s'])"
        using en by (simp add: hdelete_entry_def) blast
      then show ?thesis using t(1) dl en by (auto intro: free_slots_update(1))
    qed
    ultimately show ?thesis unfolding eq using en dl by auto
  qed
qed

lemma hdelete_env:
  assumes "ht_inv htab"
  shows "\<exists>r err htab'. hdelete_r hk k htab flag = Some (r, err, htab') \<and> ht_inv htab' \<and>
    env_of htab' = (if r \<noteq> 0 then (env_of htab)(k := None) else env_of htab) \<and>
    (if env_of htab k = None then r = 0 \<and> err = Some ESRCH else r = 0 \<longrightarrow> err \<in> {Some EPERM, Some EINVAL}) \<and>
    free_slots htab \<le> free_slots htab' \<and> hsize htab' = hsize htab"
proof -
  obtain t where t: "table htab = Some t" "tab_inv t (hsize htab)"
    and fl: "filled htab = card {a\<in>{1..hsize htab}. used (t ! a) > 0}" using assms(1) by (rule ht_invE)
  obtain r err ep where f: "hsearch_r hk k None FIND htab 0 = Some (r, err, ep, htab)"
    "case env_of htab k of
       None \<Rightarrow> r = 0 \<and> err = Some ESRCH \<and> ep = None
     | Some d \<Rightarrow> err = None \<and> (\<exists>idx s. 1 \<le> idx \<and> idx \<le> hsize htab \<and> r = int idx \<and> ep = Some idx \<and>
         slot_at htab idx = Some s \<and> used s > 0 \<and> ekey (hent s) = Some k \<and> edata (hent s) = Some d)"
    using hsearch_find[OF assms] by blast
  show ?thesis
  proof (cases "env_of htab k")
    case None
    then show ?thesis using f assms by (simp add: hdelete_r_def)
  next
    case (Some d)
    then obtain idx s where i: "1 \<le> idx" "idx \<le> hsize htab" "r = int idx" "ep = Some idx"
      "slot_at htab idx = Some s" "used s > 0" "ekey (hent s) = Some k" using f(2) by auto
    have len: "length t = hsize htab + 1" using t(2) by (simp add: tab_inv_def)
    have st: "s = t ! idx" using i(2,5) len slot_at_in[OF t(1), of idx] by simp
    then have l: "live t idx k" using i by (simp add: live_def)
    note dl = hdelete_entry_correct[OF t(2,1) fl i(1,2) l]
    have "\<exists>s'. table (hdelete_entry htab idx) = Some (t[idx := s'])"
      using i(5) t(1) by (simp add: hdelete_entry_def) blast
    then have "free_slots htab \<le> free_slots (hdelete_entry htab idx)"
      using t(1) dl i(6) st by (auto intro!: free_slots_update(2)[where t = t and idx = idx])
    moreover have "hdelete_r hk k htab flag =
      (if rejects hk (hent s) None Op_delete flag then Some (0, Some EPERM, htab)
       else if cb_rejects hk (hent s) k None Op_delete flag then Some (0, Some EINVAL, htab)
       else Some (1, None, hdelete_entry htab idx))"
      using f(1) i by (simp add: hdelete_r_def)
    ultimately show ?thesis using dl assms Some by auto
  qed
qed

section \<open>Creating a table\<close>

lemma hcreate_loop_result:
  "odd nel \<Longrightarrow> 5 \<le> nel \<Longrightarrow> hcreate_loop fuel nel = Some n \<Longrightarrow> prime_nat n \<and> nel \<le> n"
proof (induction fuel arbitrary: nel)
  case (Suc fuel)
  then show ?case
  proof (cases "isprime nel")
    case True
    then show ?thesis using Suc.prems isprime_correct by simp
  next
    case False
    then have "prime_nat n \<and> nel + 2 \<le> n" using Suc.prems by (intro Suc.IH) auto
    then show ?thesis by simp
  qed
qed simp

lemma hcreate_loop_reaches: "isprime (nel + 2 * j) \<Longrightarrow> j < fuel \<Longrightarrow> \<exists>n. hcreate_loop fuel nel = Some n"
proof (induction fuel arbitrary: nel j)
  case (Suc fuel)
  show ?case
  proof (cases "isprime nel")
    case False
    then have "j \<noteq> 0" using Suc.prems(1) by (cases j) auto
    then obtain i where i: "j = Suc i" by (cases j) auto
    then have "isprime (nel + 2 + 2 * i)" using Suc.prems(1) by (simp add: algebra_simps)
    then show ?thesis using Suc.IH[of "nel + 2" i] Suc.prems(2) i False by simp
  qed simp
qed simp

text \<open>The table sizes that \<open>himport_r\<close> asks for are at most 512.\<close>

lemma hcreate_loop_ends:
  assumes "odd nel" and "nel \<le> 521"
  shows "\<exists>n. hcreate_loop 64 nel = Some n"
proof -
  have p: "isprime 127" "isprime 251" "isprime 379" "isprime 503" "isprime 521"
    by (simp_all add: isprime_def isprime_loop.simps)
  have reach: "\<exists>n. hcreate_loop 64 nel = Some n" if q: "isprime q" "odd q" "nel \<le> q" "q < nel + 128" for q
  proof -
    have "even (q - nel)" using q(2,3) assms(1) by simp
    then obtain j where "q - nel = 2 * j" by blast
    then have "q = nel + 2 * j" using q(3) by simp
    then show ?thesis using q by (intro hcreate_loop_reaches[of nel j]) auto
  qed
  consider "nel \<le> 127" | "127 < nel" "nel \<le> 251" | "251 < nel" "nel \<le> 379" | "379 < nel" "nel \<le> 503" | "503 < nel"
    by linarith
  then show ?thesis by cases (use reach p assms(2) in auto)
qed

lemma hcreate_correct:
  assumes "table htab = None" and "4 \<le> nel" and "nel \<le> 520"
  shows "\<exists>htab'. hcreate_r True nel htab = Some (1, htab') \<and> ht_inv htab' \<and> env_of htab' = Map.empty \<and>
    nel \<le> hsize htab' \<and> free_slots htab' = hsize htab'"
proof -
  define m where "m = (if even nel then nel + 1 else nel)"
  have m: "odd m" "5 \<le> m" "m \<le> 521" "nel \<le> m" using assms by (auto simp: m_def) presburger
  obtain n where n: "hcreate_loop 64 m = Some n" using hcreate_loop_ends[OF m(1,3)] by blast
  have pn: "prime_nat n" "m \<le> n" using hcreate_loop_result[OF m(1,2) n] by auto
  let ?t = "replicate (n + 1) null_slot"
  let ?h = "htab\<lparr>hsize := n, filled := 0, table := Some ?t\<rparr>"
  have u: "used (?t ! a) = 0" if "a \<le> n" for a 
    using that by (subst nth_replicate) (simp_all add: null_slot_def del: replicate_Suc)
  have inv: "tab_inv ?t n"
    unfolding tab_inv_def slot_ok_def live_def using pn m by (auto simp: null_slot_def)
  have none: "{a\<in>{1..n}. used (?t ! a) > 0} = {}" and all: "{a\<in>{1..n}. used (?t ! a) = 0} = {1..n}"
    using u[of 0] by (auto simp: not_less null_slot_def)
  have "ht_inv ?h" unfolding ht_inv_def using inv none by simp
  moreover have "env_of ?h k = None" for k
  proof (rule env_of_None)
    show "tab_inv ?t (hsize ?h)" using inv by simp
    show "table ?h = Some ?t" by simp
    show "\<not> live ?t idx k" if "idx \<le> hsize ?h" for idx using u[of idx] that by (simp add: live_def)
  qed
  moreover have "free_slots ?h = n" using all by (simp add: free_slots_def)
  ultimately show ?thesis
    using n pn m(4) assms(1) by (simp add: hcreate_r_def m_def[symmetric] Let_def fun_eq_iff)
qed
section \<open>The table as an environment\<close>

type_synonym env_state = "hooks \<times> hsearch_data"

definition env_set :: "env_state \<Rightarrow> cstr \<Rightarrow> cstr \<Rightarrow> (bool \<times> env_state) option" where
  "env_set s k v = do {
     (r, err, ep, htab) \<leftarrow> hsearch_r (fst s) k (Some v) ENTER (snd s) 0;
     Some (r \<noteq> 0, fst s, htab)
   }"

definition env_unset :: "env_state \<Rightarrow> cstr \<Rightarrow> (bool \<times> env_state) option" where
  "env_unset s k = do {
     (r, err, htab) \<leftarrow> hdelete_r (fst s) k (snd s) 0;
     Some (r \<noteq> 0, fst s, htab)
   }"

definition env_get :: "env_state \<Rightarrow> cstr \<Rightarrow> cstr option option" where
  "env_get s k = do {
     (r, err, ep, htab) \<leftarrow> hsearch_r (fst s) k None FIND (snd s) 0;
     (case ep of
        None \<Rightarrow> Some None
      | Some i \<Rightarrow> do { sl \<leftarrow> slot_at htab i; Some (edata (hent sl)) })
   }"

definition env_inv :: "env_state \<Rightarrow> bool" where
  "env_inv s \<longleftrightarrow> strdup (fst s) = Some \<and> ht_inv (snd s)"

interpretation ht: env_map env_set env_unset env_get "\<lambda>s. env_of (snd s)" env_inv "\<lambda>s. free_slots (snd s)"
proof unfold_locales
  fix s :: env_state and k v
  assume inv: "env_inv s"
  then have i: "ht_inv (snd s)" "strdup (fst s) = Some" by (auto simp: env_inv_def)
  show "env_get s k = Some (env_of (snd s) k)"
    using hsearch_find[OF i(1), of "fst s" k None 0] by (auto simp: env_get_def split: option.splits)
  show "\<exists>b s'. env_set s k v = Some (b, s') \<and> env_inv s' \<and>
      env_of (snd s') = env_apply b (Set k v) (env_of (snd s)) \<and> free_slots (snd s) \<le> Suc (free_slots (snd s'))"
    if room: "0 < free_slots (snd s)"
  proof -
    obtain r err ep h where h: "hsearch_r (fst s) k (Some v) ENTER (snd s) 0 = Some (r, err, ep, h)" "ht_inv h"
      "env_of h = (if r \<noteq> 0 then (env_of (snd s))(k \<mapsto> v) else env_of (snd s))"
      "free_slots (snd s) \<le> Suc (free_slots h)"
      using hsearch_enter_env[OF i room] by blast
    then show ?thesis using i(2) by (simp add: env_set_def env_inv_def env_apply_def)
  qed
  show "\<exists>b s'. env_unset s k = Some (b, s') \<and> env_inv s' \<and>
      env_of (snd s') = env_apply b (Unset k) (env_of (snd s)) \<and> free_slots (snd s) \<le> free_slots (snd s')"
  proof -
    obtain r err h where h: "hdelete_r (fst s) k (snd s) 0 = Some (r, err, h)" "ht_inv h"
      "env_of h = (if r \<noteq> 0 then (env_of (snd s))(k := None) else env_of (snd s))"
      "free_slots (snd s) \<le> free_slots h"
      using hdelete_env[OF i(1)] by blast
    then show ?thesis using i(2) by (simp add: env_unset_def env_inv_def env_apply_def)
  qed
qed

section \<open>Properties\<close>

definition plain_hooks :: hooks where
  "plain_hooks = \<lparr>change_ok = None, callback = (\<lambda>c k d opr flag. False), callback_init = (\<lambda>k. None),
     flags_init = (\<lambda>k. 0), strdup = Some\<rparr>"

definition empty_htab :: hsearch_data where
  "empty_htab = \<lparr>table = None, hsize = 0, filled = 0\<rparr>"

definition sample_htab :: hsearch_data where
  "sample_htab = \<lparr>table = Some (replicate 8 null_slot), hsize = 7, filled = 0\<rparr>"

lemma hcreate_sample: "hcreate_r True 6 empty_htab = Some (1, sample_htab)"
proof -
  have "isprime 7" by (simp add: isprime_def isprime_loop.simps)
  then have "hcreate_loop 64 7 = Some 7" using hcreate_loop.simps(2)[of 63 7] by simp
  then show ?thesis by (simp add: hcreate_r_def empty_htab_def sample_htab_def flip: replicate_Suc)
qed

lemma sample_inv: "ht_inv sample_htab" "free_slots sample_htab = 7" "env_of sample_htab = Map.empty"
  using hcreate_correct[of empty_htab 6] hcreate_sample by (auto simp: empty_htab_def sample_htab_def)

text \<open>\<open>isprime\<close> decides primality for every odd number from 5 on, and \<open>hcreate_r\<close> makes an
  empty table whose size is a prime not below the requested number of entries.\<close>

theorem hcreate_prime_table:
  assumes "table htab = None" and "4 \<le> nel" and "nel \<le> 520"
  shows "(\<forall>n. odd n \<and> 5 \<le> n \<longrightarrow> (isprime n \<longleftrightarrow> prime_nat n)) \<and>
    (\<exists>htab'. hcreate_r True nel htab = Some (1, htab') \<and> ht_inv htab' \<and> env_of htab' = Map.empty \<and>
      prime_nat (hsize htab') \<and> nel \<le> hsize htab')"
  using hcreate_correct[OF assms] isprime_correct by (auto simp: ht_inv_def tab_inv_def)

theorem hcreate_prime_table_witness:
  "\<exists>htab'. hcreate_r True 6 empty_htab = Some (1, htab') \<and> prime_nat (hsize htab')"
  using hcreate_prime_table[of empty_htab 6] by (auto simp: empty_htab_def)

text \<open>\<open>hsearch_r\<close> with FIND returns the entry of a key exactly when the environment has it and
  reports ESRCH otherwise; with ENTER and a free slot it sets the key to the new value, unless the
  permission hook or the callback refuses, which leaves the environment as it was.\<close>

theorem hsearch_correct:
  assumes "ht_inv htab" and "strdup hk = Some"
  shows "(\<exists>r err ep. hsearch_r hk k None FIND htab flag = Some (r, err, ep, htab) \<and>
      (case env_of htab k of
         None \<Rightarrow> r = 0 \<and> err = Some ESRCH \<and> ep = None
       | Some d \<Rightarrow> err = None \<and> r > 0 \<and> (\<exists>idx s. ep = Some idx \<and> slot_at htab idx = Some s \<and>
           ekey (hent s) = Some k \<and> edata (hent s) = Some d))) \<and>
    (0 < free_slots htab \<longrightarrow>
      (\<exists>r err ep htab'. hsearch_r hk k (Some d) ENTER htab flag = Some (r, err, ep, htab') \<and> ht_inv htab' \<and>
        env_of htab' = (if r \<noteq> 0 then (env_of htab)(k \<mapsto> d) else env_of htab) \<and>
        (r = 0 \<longrightarrow> err \<in> {Some EPERM, Some EINVAL})))"
proof -
  have "\<exists>r err ep. hsearch_r hk k None FIND htab flag = Some (r, err, ep, htab) \<and>
      (case env_of htab k of
         None \<Rightarrow> r = 0 \<and> err = Some ESRCH \<and> ep = None
       | Some d \<Rightarrow> err = None \<and> r > 0 \<and> (\<exists>idx s. ep = Some idx \<and> slot_at htab idx = Some s \<and>
           ekey (hent s) = Some k \<and> edata (hent s) = Some d))"
    using hsearch_find[OF assms(1), of hk k None flag] by (cases "env_of htab k") auto
  with hsearch_enter_env[OF assms, of k d flag] show ?thesis by blast
qed

theorem hsearch_correct_witness:
  "\<exists>r err ep htab'. hsearch_r plain_hooks (ascii ''bootcmd'') (Some (ascii ''run x'')) ENTER sample_htab 0 =
      Some (r, err, ep, htab') \<and> ht_inv htab'"
  using hsearch_correct[of sample_htab plain_hooks "ascii ''bootcmd''" 0 "ascii ''run x''"]
  by (auto simp: sample_inv plain_hooks_def)

text \<open>\<open>hdelete_r\<close> removes exactly the given key, reports ESRCH when it is not there, and
  changes nothing when the permission hook or the callback refuses.\<close>

theorem hdelete_correct:
  assumes "ht_inv htab"
  shows "\<exists>r err htab'. hdelete_r hk k htab flag = Some (r, err, htab') \<and> ht_inv htab' \<and>
    env_of htab' = (if r \<noteq> 0 then (env_of htab)(k := None) else env_of htab) \<and>
    (if env_of htab k = None then r = 0 \<and> err = Some ESRCH else r = 0 \<longrightarrow> err \<in> {Some EPERM, Some EINVAL})"
  using hdelete_env[OF assms, of hk k flag] by blast

theorem hdelete_correct_witness:
  "\<exists>htab'. hdelete_r plain_hooks (ascii ''x'') sample_htab 0 = Some (0, Some ESRCH, htab')"
  using hdelete_correct[OF sample_inv(1), of plain_hooks "ascii ''x''" 0]
  by (auto simp: sample_inv split: if_splits)



section \<open>A full probe sequence\<close>

text \<open>
  Deleted slots are only reused when they are the first slot of the probe sequence. When no slot is
  free any more, entering a new key ends the search loop back at the first slot and overwrites the
  entry that lives there: below, setting \<open>k\<close> succeeds and removes the variable \<open>a\<close>.
\<close>

definition full_updates :: "(cstr, cstr) env_update list" where
  "full_updates = [Set (ascii ''a'') (ascii ''1''), Set (ascii ''b'') (ascii ''2''), Set (ascii ''d'') (ascii ''3''),
     Set (ascii ''e'') (ascii ''4''), Set (ascii ''f'') (ascii ''5''), Unset (ascii ''f'')]"

definition small_htab :: hsearch_data where
  "small_htab = \<lparr>table = Some (replicate 6 null_slot), hsize = 5, filled = 0\<rparr>"

lemma hsearch_enter_loses_entry:
  "\<exists>s s'. env_run env_set env_unset full_updates (plain_hooks, small_htab) = Some (replicate 6 True, s) \<and>
     filled (snd s) < hsize (snd s) \<and> env_get s (ascii ''a'') = Some (Some (ascii ''1'')) \<and>
     env_set s (ascii ''k'') (ascii ''6'') = Some (True, s') \<and> env_get s' (ascii ''a'') = Some None"
proof -
  obtain s where s: "env_run env_set env_unset full_updates (plain_hooks, small_htab) = Some (replicate 6 True, s)"
    and r: "s = snd (the (env_run env_set env_unset full_updates (plain_hooks, small_htab)))"
  proof -
    have "map_option fst (env_run env_set env_unset full_updates (plain_hooks, small_htab)) = Some (replicate 6 True)"
      by code_simp
    then show ?thesis using that by (cases "env_run env_set env_unset full_updates (plain_hooks, small_htab)") auto
  qed
  have 1: "filled (snd s) < hsize (snd s)" unfolding r by code_simp
  have 2: "env_get s (ascii ''a'') = Some (Some (ascii ''1''))" unfolding r by code_simp
  have 3: "map_option (\<lambda>(b, s'). (b, env_get s' (ascii ''a''))) (env_set s (ascii ''k'') (ascii ''6'')) = Some (True, Some None)"
    unfolding r by code_simp
  then obtain s' where "env_set s (ascii ''k'') (ascii ''6'') = Some (True, s')" "env_get s' (ascii ''a'') = Some None"
    by auto
  with s 1 2 show ?thesis by blast
qed

end
