(* ===== verification/Sort_Spec.thy ===== *)
theory Sort_Spec
  imports Uboot_Prelude "HOL-Library.Multiset"
begin

text \<open>
  The contract of a sorting routine that takes a comparison function in the style of C (a negative,
  zero or positive result), relative to a set of elements on which the comparison is a total
  preorder. The client lemma shows that sorting is canonical where the comparison tells all
  elements apart: the result then depends only on the elements, not on their order.
\<close>

definition preorder_on_cmp :: "'a set \<Rightarrow> ('a \<Rightarrow> 'a \<Rightarrow> int) \<Rightarrow> bool" where
  "preorder_on_cmp A cmp \<longleftrightarrow>
     (\<forall>a\<in>A. \<forall>b\<in>A. cmp a b \<le> 0 \<or> cmp b a \<le> 0) \<and>
     (\<forall>a\<in>A. \<forall>b\<in>A. \<forall>c\<in>A. cmp a b \<le> 0 \<longrightarrow> cmp b c \<le> 0 \<longrightarrow> cmp a c \<le> 0)"

abbreviation cmp_sorted :: "('a \<Rightarrow> 'a \<Rightarrow> int) \<Rightarrow> 'a list \<Rightarrow> bool" where
  "cmp_sorted cmp \<equiv> sorted_wrt (\<lambda>a b. cmp a b \<le> 0)"

locale sorter =
  fixes srt :: "('a \<Rightarrow> 'a \<Rightarrow> int) \<Rightarrow> 'a list \<Rightarrow> 'a list"
    and short :: "'a list \<Rightarrow> bool"
  assumes srt_perm: "short xs \<Longrightarrow> mset (srt cmp xs) = mset xs"
    and srt_sorted: "short xs \<Longrightarrow> preorder_on_cmp (set xs) cmp \<Longrightarrow> cmp_sorted cmp (srt cmp xs)"
begin

lemma sorted_unique:
  assumes "cmp_sorted cmp xs" and "cmp_sorted cmp ys" and "mset xs = mset ys"
    and anti: "\<forall>a\<in>set xs. \<forall>b\<in>set xs. cmp a b \<le> 0 \<longrightarrow> cmp b a \<le> 0 \<longrightarrow> a = b"
  shows "xs = ys"
  using assms
proof (induction xs arbitrary: ys)
  case Nil
  then show ?case by simp
next
  case (Cons x xs)
  then obtain y ys' where ys: "ys = y # ys'" by (cases ys) auto
  have set_eq: "set (x # xs) = set (y # ys')" using Cons.prems(3) ys by (metis set_mset_mset)
  have "x = y"
  proof (rule ccontr)
    assume "x \<noteq> y"
    then have "x \<in> set ys'" "y \<in> set xs" using set_eq by auto
    then have "cmp y x \<le> 0" "cmp x y \<le> 0" using Cons.prems(1,2) ys by auto
    then show False using Cons.prems(4) \<open>x \<noteq> y\<close> \<open>y \<in> set xs\<close> by auto
  qed
  moreover have "xs = ys'"
    using Cons.prems ys \<open>x = y\<close> by (intro Cons.IH) auto
  ultimately show ?case using ys by simp
qed

lemma srt_canonical:
  assumes "short xs" and "short ys" and "mset xs = mset ys" and "preorder_on_cmp (set xs) cmp"
    and "\<forall>a\<in>set xs. \<forall>b\<in>set xs. cmp a b \<le> 0 \<longrightarrow> cmp b a \<le> 0 \<longrightarrow> a = b"
  shows "srt cmp xs = srt cmp ys"
proof (rule sorted_unique)
  have "set ys = set xs" "set (srt cmp xs) = set xs"
    using assms(3) srt_perm[OF assms(1), of cmp] by (metis set_mset_mset)+
  then show "cmp_sorted cmp (srt cmp xs)" "cmp_sorted cmp (srt cmp ys)"
    "\<forall>a\<in>set (srt cmp xs). \<forall>b\<in>set (srt cmp xs). cmp a b \<le> 0 \<longrightarrow> cmp b a \<le> 0 \<longrightarrow> a = b"
    using assms srt_sorted[of xs cmp] srt_sorted[of ys cmp] by simp_all
  show "mset (srt cmp xs) = mset (srt cmp ys)" using assms(1-3) srt_perm by simp
qed

end

end
