(* ===== verification/Qsort.thy ===== *)
theory Qsort
  imports Sort_Spec
begin

text \<open>
  The shell sort behind \<open>qsort\<close> in \<open>lib/qsort.c\<close>. An array of \<open>nel\<close> elements of \<open>width\<close> bytes
  is a list of elements; the byte loop that exchanges two elements is the exchange of two list
  entries, and the gap counts elements instead of bytes. All indices stay below \<open>nel\<close>.
\<close>

function qsort_gap :: "nat \<Rightarrow> nat \<Rightarrow> nat" where
  "qsort_gap nel wgap =
     (let wgap' = 3 * wgap + 1 in if wgap' < (nel - 1) div 3 then qsort_gap nel wgap' else wgap')"
  by pat_completeness auto
termination
  by (relation "measure (\<lambda>(nel, wgap). nel - wgap)") auto

declare qsort_gap.simps [simp del]

definition exchange :: "'a list \<Rightarrow> nat \<Rightarrow> nat \<Rightarrow> 'a list" where
  "exchange xs a b = xs[a := xs ! b, b := xs ! a]"

text \<open>The innermost loop, entered with \<open>wgap \<le> j\<close>.\<close>

function qsort_sift :: "('a \<Rightarrow> 'a \<Rightarrow> int) \<Rightarrow> nat \<Rightarrow> 'a list \<Rightarrow> nat \<Rightarrow> 'a list" where
  "qsort_sift cmp wgap xs j =
     (if wgap = 0 \<or> j < wgap then xs
      else
        (let a = j - wgap; b = a + wgap in
         if cmp (xs ! a) (xs ! b) \<le> 0 then xs
         else if a \<ge> wgap then qsort_sift cmp wgap (exchange xs a b) a
         else exchange xs a b))"
  by pat_completeness auto
termination
  by (relation "measure (\<lambda>(cmp, wgap, xs, j). j)") auto

declare qsort_sift.simps [simp del]

text \<open>The middle loop runs \<open>i\<close> from \<open>wgap\<close> up to \<open>nel\<close>.\<close>

fun qsort_pass :: "('a \<Rightarrow> 'a \<Rightarrow> int) \<Rightarrow> nat \<Rightarrow> 'a list \<Rightarrow> nat \<Rightarrow> nat \<Rightarrow> 'a list" where
  "qsort_pass cmp wgap xs i 0 = xs"
| "qsort_pass cmp wgap xs i (Suc n) = qsort_pass cmp wgap (qsort_sift cmp wgap xs i) (i + 1) n"

function qsort_loop :: "('a \<Rightarrow> 'a \<Rightarrow> int) \<Rightarrow> nat \<Rightarrow> 'a list \<Rightarrow> 'a list" where
  "qsort_loop cmp wgap xs =
     (let xs' = qsort_pass cmp wgap xs wgap (length xs - wgap); wgap' = (wgap - 1) div 3 in
      if wgap' \<noteq> 0 then qsort_loop cmp wgap' xs' else xs')"
  by pat_completeness auto
termination
  by (relation "measure (\<lambda>(cmp, wgap, xs). wgap)") auto

declare qsort_loop.simps [simp del]

definition qsort :: "('a \<Rightarrow> 'a \<Rightarrow> int) \<Rightarrow> 'a list \<Rightarrow> 'a list" where
  "qsort cmp xs = (if length xs > 1 then qsort_loop cmp (qsort_gap (length xs) 0) xs else xs)"

section \<open>Permutation\<close>

lemma length_exchange [simp]: "length (exchange xs a b) = length xs"
  by (simp add: exchange_def)

lemma mset_exchange: "a < length xs \<Longrightarrow> b < length xs \<Longrightarrow> mset (exchange xs a b) = mset xs"
  unfolding exchange_def by (rule mset_swap)

lemma qsort_sift_perm:
  "j < length xs \<Longrightarrow> mset (qsort_sift cmp wgap xs j) = mset xs \<and> length (qsort_sift cmp wgap xs j) = length xs"
proof (induction cmp wgap xs j rule: qsort_sift.induct)
  case (1 cmp wgap xs j)
  show ?case
  proof (cases "wgap = 0 \<or> j < wgap \<or> cmp (xs ! (j - wgap)) (xs ! j) \<le> 0")
    case True
    then show ?thesis by (subst (1 2) qsort_sift.simps) (auto simp: Let_def)
  next
    case False
    have ex: "mset (exchange xs (j - wgap) j) = mset xs" using 1(2) by (intro mset_exchange) auto
    show ?thesis
      using 1 False ex by (subst (1 2) qsort_sift.simps) (auto simp: Let_def)
  qed
qed

lemma qsort_pass_perm:
  "i + n \<le> length xs \<Longrightarrow> mset (qsort_pass cmp wgap xs i n) = mset xs \<and> length (qsort_pass cmp wgap xs i n) = length xs"
proof (induction n arbitrary: xs i)
  case (Suc n)
  then show ?case using qsort_sift_perm[of i xs cmp wgap] by simp
qed simp

lemma qsort_loop_perm:
  "wgap \<le> length xs \<Longrightarrow> mset (qsort_loop cmp wgap xs) = mset xs \<and> length (qsort_loop cmp wgap xs) = length xs"
proof (induction cmp wgap xs rule: qsort_loop.induct)
  case (1 cmp wgap xs)
  have p: "mset (qsort_pass cmp wgap xs wgap (length xs - wgap)) = mset xs"
    "length (qsort_pass cmp wgap xs wgap (length xs - wgap)) = length xs"
    using qsort_pass_perm[of wgap "length xs - wgap" xs cmp wgap] 1(2) by auto
  show ?case using 1 p by (subst (1 2) qsort_loop.simps) (auto simp: Let_def)
qed

lemma qsort_gap_bound: "1 < nel \<Longrightarrow> 3 * wgap + 1 < nel \<Longrightarrow> qsort_gap nel wgap < nel"
proof (induction nel wgap rule: qsort_gap.induct)
  case (1 nel wgap)
  then show ?case by (subst qsort_gap.simps) (auto simp: Let_def)
qed

lemma qsort_perm: "mset (qsort cmp xs) = mset xs"
proof (cases "1 < length xs")
  case True
  then have "qsort_gap (length xs) 0 \<le> length xs" using qsort_gap_bound[of "length xs" 0] by simp
  then show ?thesis using qsort_loop_perm[of "qsort_gap (length xs) 0" xs cmp] True by (simp add: qsort_def)
qed (simp add: qsort_def)

section \<open>Order\<close>

text \<open>The gaps are 1, 4, 13, 40 and so on; the last one is 1.\<close>

inductive_set gaps :: "nat set" where
  one: "1 \<in> gaps"
| next_gap: "g \<in> gaps \<Longrightarrow> 3 * g + 1 \<in> gaps"

lemma qsort_gap_gaps: "wgap = 0 \<or> wgap \<in> gaps \<Longrightarrow> qsort_gap nel wgap \<in> gaps"
proof (induction nel wgap rule: qsort_gap.induct)
  case (1 nel wgap)
  then have g: "3 * wgap + 1 \<in> gaps" using gaps.one gaps.next_gap by auto
  show ?case using 1(1) g by (subst qsort_gap.simps) (auto simp: Let_def)
qed

text \<open>A pass with gap 1 is an insertion sort.\<close>

definition sorted_but :: "('a \<Rightarrow> 'a \<Rightarrow> int) \<Rightarrow> 'a list \<Rightarrow> nat \<Rightarrow> nat \<Rightarrow> bool" where
  "sorted_but cmp xs n j \<longleftrightarrow>
     (\<forall>a b. a < b \<and> b < n \<and> b \<noteq> j \<longrightarrow> cmp (xs ! a) (xs ! b) \<le> 0)"

text \<open>When the element at \<open>j\<close> is being moved down: all pairs that do not have it on the right are in order.\<close>

lemma sift_one_sorted:
  "j < n \<Longrightarrow> n \<le> length xs \<Longrightarrow> 0 < j \<Longrightarrow> sorted_but cmp xs n j \<Longrightarrow> preorder_on_cmp (set xs) cmp \<Longrightarrow>
    \<forall>a b. a < b \<and> b < n \<longrightarrow> cmp (qsort_sift cmp 1 xs j ! a) (qsort_sift cmp 1 xs j ! b) \<le> 0"
proof (induction j arbitrary: xs)
  case 0
  then show ?case by simp
next
  case (Suc i)
  define j where j: "j = Suc i"
  note 1 = Suc.IH Suc.prems[folded j]
  have tot: "cmp x y \<le> 0 \<or> cmp y x \<le> 0" if "x \<in> set xs" "y \<in> set xs" for x y
    using 1(6) that unfolding preorder_on_cmp_def by blast
  have trans: "cmp x z \<le> 0" if "cmp x y \<le> 0" "cmp y z \<le> 0" "x \<in> set xs" "y \<in> set xs" "z \<in> set xs" for x y z
    using 1(6) that unfolding preorder_on_cmp_def by blast
  show ?case
  proof (cases "cmp (xs ! i) (xs ! j) \<le> 0")
    case True
    then have "qsort_sift cmp 1 xs j = xs" using j by (subst qsort_sift.simps) simp
    moreover have "cmp (xs ! a) (xs ! b) \<le> 0" if "a < b" "b < n" for a b
    proof (cases "b = j")
      case False
      then show ?thesis using 1(5) that by (auto simp: sorted_but_def)
    next
      case bj: True
      show ?thesis
      proof (cases "a = i")
        case False
        then have "cmp (xs ! a) (xs ! i) \<le> 0" using 1(5) that bj j by (auto simp: sorted_but_def)
        then show ?thesis using trans[of "xs ! a" "xs ! i" "xs ! b"] True bj that 1(2,3) j by auto
      qed (use True bj in simp)
    qed
    ultimately show ?thesis unfolding j[symmetric] by simp
  next
    case False
    let ?e = "exchange xs i j"
    have len: "i < length xs" "j < length xs" using 1(2,3) j by auto
    have e: "?e ! i = xs ! j" "?e ! j = xs ! i" "\<And>k. k \<noteq> i \<Longrightarrow> k \<noteq> j \<Longrightarrow> ?e ! k = xs ! k"
      using len j by (auto simp: exchange_def nth_list_update)
    have set_e: "set ?e = set xs" using mset_exchange[OF len] by (metis set_mset_mset)
    have ji: "cmp (xs ! j) (xs ! i) \<le> 0" using tot[of "xs ! i" "xs ! j"] False len by auto
    have sb: "cmp (?e ! a) (?e ! b) \<le> 0" if "a < b" "b < n" "b \<noteq> i" for a b
    proof -
      consider "a = i" "b = j" | "a = i" "b \<noteq> j" | "a = j" | "a \<noteq> i" "a \<noteq> j" "b = j" | "a \<noteq> i" "a \<noteq> j" "b \<noteq> j"
        by blast
      then show ?thesis
      proof cases
        case 1
        then show ?thesis using e ji by simp
      next
        case 2
        then have "j < b" using that j by simp
        then show ?thesis using 2 e that \<open>sorted_but cmp xs n j\<close> by (auto simp: sorted_but_def)
      next
        case 3
        then have "i < b" "b \<noteq> j" using that j by auto
        then show ?thesis using 3 e that \<open>sorted_but cmp xs n j\<close> by (auto simp: sorted_but_def)
      next
        case 4
        then have "a < i" using that j by simp
        then show ?thesis using 4 e that \<open>sorted_but cmp xs n j\<close> j by (auto simp: sorted_but_def)
      next
        case 5
        then show ?thesis using e that \<open>sorted_but cmp xs n j\<close> by (auto simp: sorted_but_def)
      qed
    qed
    show ?thesis
    proof (cases "0 < i")
      case True
      have "qsort_sift cmp 1 xs j = qsort_sift cmp 1 ?e i"
        using False True j by (subst qsort_sift.simps) simp
      moreover have "sorted_but cmp ?e n i" using sb by (auto simp: sorted_but_def)
      ultimately show ?thesis
        unfolding j[symmetric] using 1(1)[of ?e] 1(2,3,6) True j set_e by simp
    next
      case i0: False
      then have "qsort_sift cmp 1 xs j = ?e" using False j by (subst qsort_sift.simps) simp
      then show ?thesis unfolding j[symmetric] using sb i0 by auto
    qed
  qed
qed

lemma pass_one_sorted:
  "preorder_on_cmp (set xs) cmp \<Longrightarrow> 0 < i \<Longrightarrow> i + n = length xs \<Longrightarrow>
     (\<forall>a b. a < b \<and> b < i \<longrightarrow> cmp (xs ! a) (xs ! b) \<le> 0) \<Longrightarrow> cmp_sorted cmp (qsort_pass cmp 1 xs i n)"
proof (induction n arbitrary: xs i)
  case 0
  then show ?case by (auto simp: sorted_wrt_iff_nth_less)
next
  case (Suc n)
  let ?ys = "qsort_sift cmp 1 xs i"
  have "sorted_but cmp xs (Suc i) i" using Suc.prems(4) by (auto simp: sorted_but_def less_Suc_eq)
  then have s: "\<forall>a b. a < b \<and> b < Suc i \<longrightarrow> cmp (?ys ! a) (?ys ! b) \<le> 0"
    using Suc.prems by (intro sift_one_sorted) auto
  have m: "mset ?ys = mset xs" "length ?ys = length xs" using qsort_sift_perm[of i xs cmp 1] Suc.prems by auto
  then have "set ?ys = set xs" by (metis set_mset_mset)
  then have "cmp_sorted cmp (qsort_pass cmp 1 ?ys (Suc i) n)"
    using Suc.prems s m by (intro Suc.IH) auto
  then show ?case by simp
qed

lemma qsort_loop_sorted:
  "g \<in> gaps \<Longrightarrow> preorder_on_cmp (set xs) cmp \<Longrightarrow> g < length xs \<Longrightarrow> cmp_sorted cmp (qsort_loop cmp g xs)"
proof (induction g arbitrary: xs rule: gaps.induct)
  case one
  then have "cmp_sorted cmp (qsort_pass cmp 1 xs 1 (length xs - 1))" by (intro pass_one_sorted) auto
  then show ?case by (subst qsort_loop.simps) simp
next
  case (next_gap g)
  let ?ys = "qsort_pass cmp (3 * g + 1) xs (3 * g + 1) (length xs - (3 * g + 1))"
  have m: "mset ?ys = mset xs" "length ?ys = length xs"
    using qsort_pass_perm[of "3 * g + 1" "length xs - (3 * g + 1)" xs cmp "3 * g + 1"] next_gap.prems by auto
  have "set ?ys = set xs" using m(1) by (metis set_mset_mset)
  then have "cmp_sorted cmp (qsort_loop cmp g ?ys)" using next_gap m by (intro next_gap.IH) auto
  moreover have "g \<noteq> 0" using next_gap.hyps by (cases rule: gaps.cases) auto
  ultimately show ?case by (subst qsort_loop.simps) (simp add: Let_def)
qed

lemma qsort_sorted: "preorder_on_cmp (set xs) cmp \<Longrightarrow> cmp_sorted cmp (qsort cmp xs)"
proof (cases "1 < length xs")
  case True
  assume "preorder_on_cmp (set xs) cmp"
  then show ?thesis
    using True qsort_loop_sorted[of "qsort_gap (length xs) 0"] qsort_gap_gaps qsort_gap_bound[of "length xs" 0]
    by (simp add: qsort_def)
next
  case False
  then have "xs = [] \<or> (\<exists>x. xs = [x])" by (cases xs; cases "tl xs") auto
  then show ?thesis by (auto simp: qsort_def)
qed

interpretation qs: sorter qsort "\<lambda>xs. True"
  by unfold_locales (simp_all add: qsort_perm qsort_sorted)

text \<open>C29: \<open>qsort\<close> with a comparison that is a total preorder on the elements returns them in
  ascending order, and always a permutation of the input.\<close>

theorem qsort_correct:
  assumes "preorder_on_cmp (set xs) cmp"
  shows "mset (qsort cmp xs) = mset xs \<and> cmp_sorted cmp (qsort cmp xs)"
  using assms by (simp add: qsort_perm qsort_sorted)

theorem qsort_correct_witness: "cmp_sorted (\<lambda>a b. a - b) (qsort (\<lambda>a b. a - b) [3, 1, 2, 1, 9, 0, 5 :: int])"
  using qsort_correct[of "[3, 1, 2, 1, 9, 0, 5 :: int]" "\<lambda>a b. a - b"] by (auto simp: preorder_on_cmp_def)

end
