(* ===== verification/List_Sort.thy ===== *)
theory List_Sort
  imports Sort_Spec
begin

text \<open>
  The stable merge sort of \<open>lib/list_sort.c\<close>. A null-terminated chain of list nodes is a list;
  the array \<open>part\<close> of sorted partial chains is a list of lists in which an empty list is NULL. The
  final merge also restores the back links, which leaves the order of the nodes as \<open>merge\<close> gives it.
\<close>

definition MAX_LIST_LENGTH_BITS :: nat where
  "MAX_LIST_LENGTH_BITS = 20"

fun merge :: "('a \<Rightarrow> 'a \<Rightarrow> int) \<Rightarrow> 'a list \<Rightarrow> 'a list \<Rightarrow> 'a list" where
  "merge cmp (a # as) (b # bs) =
     (if cmp a b \<le> 0 then a # merge cmp as (b # bs) else b # merge cmp (a # as) bs)"
| "merge cmp [] bs = bs"
| "merge cmp as [] = as"

text \<open>The carry loop: merge \<open>cur\<close> with the partial lists from level \<open>lev\<close> up to the first free one.\<close>

function carry :: "('a \<Rightarrow> 'a \<Rightarrow> int) \<Rightarrow> 'a list list \<Rightarrow> nat \<Rightarrow> 'a list \<Rightarrow> ('a list list \<times> nat \<times> 'a list) option" where
  "carry cmp part lev cur =
     (case arr_get part lev of
        None \<Rightarrow> None
      | Some p \<Rightarrow>
          (if p \<noteq> [] then carry cmp (part[lev := []]) (lev + 1) (merge cmp p cur) else Some (part, lev, cur)))"
  by pat_completeness auto
termination
  by (relation "measure (\<lambda>(cmp, part, lev, cur). length part - lev)") (auto simp: arr_get_def split: if_splits)

declare carry.simps [simp del]

fun list_sort_loop :: "('a \<Rightarrow> 'a \<Rightarrow> int) \<Rightarrow> 'a list list \<Rightarrow> nat \<Rightarrow> 'a list \<Rightarrow> ('a list list \<times> nat) option" where
  "list_sort_loop cmp part max_lev [] = Some (part, max_lev)"
| "list_sort_loop cmp part max_lev (x # list) = do {
     (part1, lev, cur) \<leftarrow> carry cmp part 0 [x];
     let lev' = (if lev > max_lev \<and> lev \<ge> MAX_LIST_LENGTH_BITS then lev - 1 else lev);
     let max_lev' = (if lev > max_lev then lev' else max_lev);
     part2 \<leftarrow> arr_set part1 lev' cur;
     list_sort_loop cmp part2 max_lev' list
   }"

fun final_merges :: "('a \<Rightarrow> 'a \<Rightarrow> int) \<Rightarrow> 'a list list \<Rightarrow> nat \<Rightarrow> nat \<Rightarrow> 'a list \<Rightarrow> 'a list option" where
  "final_merges cmp part lev 0 list = Some list"
| "final_merges cmp part lev (Suc n) list = do {
     p \<leftarrow> arr_get part lev;
     final_merges cmp part (lev + 1) n (if p \<noteq> [] then merge cmp p list else list)
   }"

definition list_sort :: "('a \<Rightarrow> 'a \<Rightarrow> int) \<Rightarrow> 'a list \<Rightarrow> 'a list option" where
  "list_sort cmp xs =
     (if xs = [] then Some xs
      else do {
        (part, max_lev) \<leftarrow> list_sort_loop cmp (replicate (MAX_LIST_LENGTH_BITS + 1) []) 0 xs;
        list \<leftarrow> final_merges cmp part 0 max_lev [];
        p \<leftarrow> arr_get part max_lev;
        Some (merge cmp p list)
      })"

section \<open>Merging\<close>

lemma mset_merge [simp]: "mset (merge cmp as bs) = mset as + mset bs"
  by (induction cmp as bs rule: merge.induct) auto

lemma set_merge [simp]: "set (merge cmp as bs) = set as \<union> set bs"
  by (metis mset_merge set_mset_mset set_mset_union)

lemma merge_Nil [simp]: "merge cmp as [] = as"
  by (cases as) auto

lemma merge_empty [simp]: "merge cmp as bs = [] \<longleftrightarrow> as = [] \<and> bs = []"
  by (metis append_is_Nil_conv mset_append mset_merge mset_zero_iff)

lemma merge_sorted:
  "preorder_on_cmp A cmp \<Longrightarrow> set as \<union> set bs \<subseteq> A \<Longrightarrow> cmp_sorted cmp as \<Longrightarrow> cmp_sorted cmp bs \<Longrightarrow>
     cmp_sorted cmp (merge cmp as bs)"
proof (induction cmp as bs rule: merge.induct)
  case (1 cmp a as b bs)
  have tr: "cmp x z \<le> 0" if "cmp x y \<le> 0" "cmp y z \<le> 0" "x \<in> A" "y \<in> A" "z \<in> A" for x y z
    using 1(3) that unfolding preorder_on_cmp_def by blast
  show ?case
  proof (cases "cmp a b \<le> 0")
    case True
    then have "\<forall>y\<in>set bs. cmp a y \<le> 0" using tr[of a b] 1(4,6) by auto
    then show ?thesis using True 1 by auto
  next
    case False
    then have ba: "cmp b a \<le> 0" using 1(3,4) unfolding preorder_on_cmp_def by auto
    then have "\<forall>y\<in>set as. cmp b y \<le> 0" using tr[of b a] 1(4,5) by auto
    then show ?thesis using False ba 1 by auto
  qed
qed auto

text \<open>Stability: elements that compare equal to \<open>x\<close> keep their order.\<close>

definition same :: "('a \<Rightarrow> 'a \<Rightarrow> int) \<Rightarrow> 'a \<Rightarrow> 'a \<Rightarrow> bool" where
  "same cmp x y \<longleftrightarrow> cmp x y \<le> 0 \<and> cmp y x \<le> 0"

lemma filter_same_later:
  assumes pre: "preorder_on_cmp A cmp" and "x \<in> A" "b \<in> A" "set as \<subseteq> A"
    and ab: "\<forall>y\<in>set as. \<not> cmp y b \<le> 0" and "same cmp x b"
  shows "filter (same cmp x) as = []"
proof -
  have "\<not> same cmp x y" if "y \<in> set as" for y
  proof
    assume "same cmp x y"
    then have "cmp y x \<le> 0" "cmp x b \<le> 0" using assms(6) by (auto simp: same_def)
    then have "cmp y b \<le> 0" using pre assms(2-4) that unfolding preorder_on_cmp_def by blast
    then show False using ab that by blast
  qed
  then show ?thesis by (simp add: filter_empty_conv)
qed

lemma merge_stable:
  "preorder_on_cmp A cmp \<Longrightarrow> x \<in> A \<Longrightarrow> set as \<union> set bs \<subseteq> A \<Longrightarrow> cmp_sorted cmp as \<Longrightarrow>
     filter (same cmp x) (merge cmp as bs) = filter (same cmp x) as @ filter (same cmp x) bs"
proof (induction cmp as bs rule: merge.induct)
  case (1 cmp a as b bs)
  show ?case
  proof (cases "cmp a b \<le> 0")
    case False
    have "filter (same cmp x) (a # as) = []" if "same cmp x b"
    proof (rule filter_same_later[OF 1(3,4) _ _ _ that])
      show "\<forall>y\<in>set (a # as). \<not> cmp y b \<le> 0"
      proof
        fix y assume y: "y \<in> set (a # as)"
        show "\<not> cmp y b \<le> 0"
        proof
          assume "cmp y b \<le> 0"
          moreover have "y = a \<or> cmp a y \<le> 0" using y 1(6) by auto
          moreover have "a \<in> A" "b \<in> A" "y \<in> A" using 1(5) y by auto
          ultimately have "cmp a b \<le> 0" using 1(3) unfolding preorder_on_cmp_def by blast
          then show False using False by simp
        qed
      qed
    qed (use 1(5) in auto)
    with False 1 show ?thesis by (cases "same cmp x b") auto
  qed (use 1 in auto)
qed auto

section \<open>The partial lists\<close>

text \<open>The elements of the partial lists from the oldest to the newest.\<close>

abbreviation flat :: "'a list list \<Rightarrow> 'a list" where
  "flat ps \<equiv> concat (rev ps)"

lemma flat_update:
  assumes "l < length ps" and "\<forall>k<l. ps ! k = []"
  shows "flat (ps[l := c]) = flat (drop (Suc l) ps) @ c"
proof -
  have "concat (rev (take l ps)) = []"
    using assms by (auto simp: in_set_conv_nth)
  then show ?thesis using assms(1) by (simp add: upd_conv_take_nth_drop)
qed

lemma flat_split:
  assumes "l < length ps" and "\<forall>k<l. ps ! k = []"
  shows "flat ps = flat (drop (Suc l) ps) @ ps ! l"
  using flat_update[OF assms, of "ps ! l"] by simp

definition keeps :: "('a \<Rightarrow> 'a \<Rightarrow> int) \<Rightarrow> 'a set \<Rightarrow> 'a list \<Rightarrow> 'a list \<Rightarrow> bool" where
  "keeps cmp A xs ys \<longleftrightarrow> mset ys = mset xs \<and> (\<forall>x\<in>A. filter (same cmp x) ys = filter (same cmp x) xs)"

lemma keeps_trans: "keeps cmp A xs ys \<Longrightarrow> keeps cmp A ys zs \<Longrightarrow> keeps cmp A xs zs"
  by (simp add: keeps_def)

lemma keeps_refl [simp]: "keeps cmp A xs xs"
  by (simp add: keeps_def)

lemma keeps_append: "keeps cmp A xs ys \<Longrightarrow> keeps cmp A us vs \<Longrightarrow> keeps cmp A (xs @ us) (ys @ vs)"
  by (simp add: keeps_def)

lemma keeps_set: "keeps cmp A xs ys \<Longrightarrow> set ys = set xs"
  unfolding keeps_def by (metis set_mset_mset)

lemma keeps_merge:
  "preorder_on_cmp A cmp \<Longrightarrow> set as \<union> set bs \<subseteq> A \<Longrightarrow> cmp_sorted cmp as \<Longrightarrow> keeps cmp A (as @ bs) (merge cmp as bs)"
  by (auto simp: keeps_def merge_stable)

lemma carry_spec:
  "preorder_on_cmp A cmp \<Longrightarrow> length part = 21 \<Longrightarrow> lev \<le> 20 \<Longrightarrow> part ! 20 = [] \<Longrightarrow> \<forall>k<lev. part ! k = [] \<Longrightarrow>
    \<forall>p\<in>set part. cmp_sorted cmp p \<Longrightarrow> cmp_sorted cmp cur \<Longrightarrow> cur \<noteq> [] \<Longrightarrow> set (flat part) \<union> set cur \<subseteq> A \<Longrightarrow>
    \<exists>part1 l cur1. carry cmp part lev cur = Some (part1, l, cur1) \<and> length part1 = 21 \<and> lev \<le> l \<and> l \<le> 20 \<and>
      (\<forall>k\<le>l. part1 ! k = []) \<and> (\<forall>k>l. part1 ! k = part ! k) \<and> part ! l = [] \<and> (\<forall>p\<in>set part1. cmp_sorted cmp p) \<and>
      cmp_sorted cmp cur1 \<and> cur1 \<noteq> [] \<and> keeps cmp A (flat part @ cur) (flat part1 @ cur1)"
proof (induction cmp part lev cur rule: carry.induct)
  case (1 cmp part lev cur)
  have at: "arr_get part lev = Some (part ! lev)" using 1(3,4) by simp
  show ?case
  proof (cases "part ! lev = []")
    case True
    have "carry cmp part lev cur = Some (part, lev, cur)" using at True by (subst carry.simps) simp
    moreover have "\<forall>k\<le>lev. part ! k = []" using 1(6) True by (auto simp: le_less)
    ultimately show ?thesis using 1(4,7-9) 1(3) True by auto
  next
    case False
    let ?p = "part ! lev" and ?ps = "part[lev := []]"
    have lev: "lev < 20" using 1(4,5) False by (cases "lev = 20") auto
    have pin: "?p \<in> set part" using 1(3) lev by simp
    then have psub: "set ?p \<subseteq> A" using 1(10) by auto
    have fl: "flat part = flat (drop (Suc lev) part) @ ?p" "flat ?ps = flat (drop (Suc lev) part)"
      using flat_split[of lev part] flat_update[of lev part "[]"] 1(3,6) lev by auto
    have km: "keeps cmp A (?p @ cur) (merge cmp ?p cur)"
      using psub 1(7,10) pin by (intro keeps_merge[OF 1(2)]) auto
    have k1: "keeps cmp A (flat part @ cur) (flat ?ps @ merge cmp ?p cur)"
      unfolding fl using keeps_append[OF keeps_refl km, of "flat (drop (Suc lev) part)"] by simp
    have "\<exists>part1 l cur1. carry cmp ?ps (lev + 1) (merge cmp ?p cur) = Some (part1, l, cur1) \<and> length part1 = 21 \<and> lev + 1 \<le> l \<and> l \<le> 20 \<and>
      (\<forall>k\<le>l. part1 ! k = []) \<and> (\<forall>k>l. part1 ! k = ?ps ! k) \<and> ?ps ! l = [] \<and> (\<forall>p\<in>set part1. cmp_sorted cmp p) \<and>
      cmp_sorted cmp cur1 \<and> cur1 \<noteq> [] \<and> keeps cmp A (flat ?ps @ merge cmp ?p cur) (flat part1 @ cur1)"
    proof (rule 1(1)[OF at False])
      show "\<forall>p\<in>set ?ps. cmp_sorted cmp p" using 1(7) by (auto dest: set_update_subset_insert[THEN subsetD])
      show "cmp_sorted cmp (merge cmp ?p cur)"
        using 1(7,8,10) pin psub by (intro merge_sorted[OF 1(2)]) auto
      show "\<forall>k<lev + 1. ?ps ! k = []" using 1(3,6) lev by (auto simp: nth_list_update less_Suc_eq)
      show "set (flat ?ps) \<union> set (merge cmp ?p cur) \<subseteq> A" using 1(10) psub fl by auto
    qed (use 1 lev in auto)
    then obtain part1 l cur1 where c: "carry cmp ?ps (lev + 1) (merge cmp ?p cur) = Some (part1, l, cur1)" "length part1 = 21"
      "lev + 1 \<le> l" "l \<le> 20" "\<forall>k\<le>l. part1 ! k = []" "\<forall>k>l. part1 ! k = ?ps ! k" "?ps ! l = []" "\<forall>p\<in>set part1. cmp_sorted cmp p"
      "cmp_sorted cmp cur1" "cur1 \<noteq> []" "keeps cmp A (flat ?ps @ merge cmp ?p cur) (flat part1 @ cur1)" by blast
    have "carry cmp part lev cur = Some (part1, l, cur1)" using at False c(1) by (subst carry.simps) simp
    then show ?thesis using c keeps_trans[OF k1 c(11)] by (intro exI conjI) auto
  qed
qed

section \<open>The loop and the whole sort\<close>

text \<open>The state of the main loop after the elements \<open>xs\<close> have been taken.\<close>

definition parts_inv :: "('a \<Rightarrow> 'a \<Rightarrow> int) \<Rightarrow> 'a set \<Rightarrow> 'a list \<Rightarrow> 'a list list \<Rightarrow> nat \<Rightarrow> bool" where
  "parts_inv cmp A xs part max_lev \<longleftrightarrow>
     length part = 21 \<and> max_lev < 20 \<and> (\<forall>k>max_lev. k < 21 \<longrightarrow> part ! k = []) \<and>
     (xs \<noteq> [] \<longrightarrow> part ! max_lev \<noteq> []) \<and> (xs = [] \<longrightarrow> max_lev = 0 \<and> part ! 0 = []) \<and>
     (\<forall>p\<in>set part. cmp_sorted cmp p) \<and> keeps cmp A xs (flat part)"

lemma list_sort_step:
  assumes pre: "preorder_on_cmp A cmp" and inv: "parts_inv cmp A xs part max_lev" and A: "set xs \<subseteq> A" "x \<in> A"
  shows "\<exists>part2 max'. list_sort_loop cmp part max_lev (x # ys) = list_sort_loop cmp part2 max' ys \<and>
    parts_inv cmp A (xs @ [x]) part2 max'"
proof -
  note i = inv[unfolded parts_inv_def]
  have fset: "set (flat part) = set xs" using i keeps_set by blast
  obtain part1 l cur where c: "carry cmp part 0 [x] = Some (part1, l, cur)" "length part1 = 21"
      "l \<le> 20" "\<forall>k\<le>l. part1 ! k = []" "\<forall>k>l. part1 ! k = part ! k" "part ! l = []" "\<forall>p\<in>set part1. cmp_sorted cmp p"
      "cmp_sorted cmp cur" "cur \<noteq> []" "keeps cmp A (flat part @ [x]) (flat part1 @ cur)"
    using carry_spec[OF pre, of part 0 "[x]"] i A fset by auto
  define l' where "l' = (if l > max_lev \<and> l \<ge> MAX_LIST_LENGTH_BITS then l - 1 else l)"
  define max' where "max' = (if l > max_lev then l' else max_lev)"
  have l': "l' \<le> l" "l' < 20" "l' \<le> max'" "max' < 20"
    using i c(3) by (auto simp: l'_def max'_def MAX_LIST_LENGTH_BITS_def)
  define part2 where "part2 = part1[l' := cur]"
  have len2: "length part2 = 21" using c(2) by (simp add: part2_def)
  have flat2: "flat part2 = flat part1 @ cur"
  proof -
    have z: "\<forall>k<l'. part1 ! k = []" "part1 ! l' = []" "l' < length part1" using c(2,4) l' by auto
    then show ?thesis using flat_update[OF z(3,1), of cur] flat_split[OF z(3,1)] by (simp add: part2_def)
  qed
  have "keeps cmp A (xs @ [x]) (flat part @ [x])" using i by (intro keeps_append) auto
  then have kp: "keeps cmp A (xs @ [x]) (flat part2)" unfolding flat2 using keeps_trans c(10) by blast
  have srt: "\<forall>p\<in>set part2. cmp_sorted cmp p"
    using c(7,8) set_update_subset_insert[of part1 l' cur] by (auto simp: part2_def)
  have nth2: "part2 ! k = (if k = l' then cur else part1 ! k)" if "k < 21" for k
    using that c(2) by (simp add: part2_def nth_list_update)
  have high: "part2 ! k = []" if "k > max'" "k < 21" for k
  proof -
    have "part1 ! k = []"
      using that c(4,5) i by (cases "k \<le> l") (auto simp: max'_def l'_def split: if_splits)
    then show ?thesis using nth2[OF that(2)] that(1) l'(3) by simp
  qed
  have top: "part2 ! max' \<noteq> []"
  proof (cases "max' = l'")
    case True
    then show ?thesis using nth2[of max'] l'(4) c(9) by simp
  next
    case False
    then have lm: "l \<le> max_lev" "max' = max_lev" by (auto simp: max'_def split: if_splits)
    then have "l' = l" by (simp add: l'_def)
    then have lt: "l < max_lev" using False lm by simp
    then have "xs \<noteq> []" using i by auto
    then have "part1 ! max_lev \<noteq> []" using i c(5) lt by auto
    then show ?thesis using nth2[of max'] l'(4) False lm by simp
  qed
  have "list_sort_loop cmp part max_lev (x # ys) = list_sort_loop cmp part2 max' ys"
    using c(2) l'(1,2) c(3) by (simp only: list_sort_loop.simps c(1) Option.bind.bind_lunit split Let_def
      l'_def[symmetric] max'_def[symmetric] part2_def arr_set_def) simp
  moreover have "parts_inv cmp A (xs @ [x]) part2 max'"
    unfolding parts_inv_def using len2 l'(4) high top srt kp by auto
  ultimately show ?thesis by blast
qed

lemma list_sort_loop_inv:
  assumes pre: "preorder_on_cmp A cmp"
  shows "parts_inv cmp A xs part max_lev \<Longrightarrow> set xs \<union> set ys \<subseteq> A \<Longrightarrow>
    \<exists>part' max'. list_sort_loop cmp part max_lev ys = Some (part', max') \<and> parts_inv cmp A (xs @ ys) part' max'"
proof (induction ys arbitrary: xs part max_lev)
  case Nil
  then show ?case by simp
next
  case (Cons y ys)
  obtain part2 max' where s: "list_sort_loop cmp part max_lev (y # ys) = list_sort_loop cmp part2 max' ys"
    "parts_inv cmp A (xs @ [y]) part2 max'"
    using list_sort_step[OF pre Cons.prems(1), of y ys] Cons.prems(2) by auto
  then show ?case using Cons.IH[OF s(2)] Cons.prems(2) by auto
qed

lemma final_merges_spec:
  assumes pre: "preorder_on_cmp A cmp" and sorted: "\<forall>p\<in>set part. cmp_sorted cmp p" and sub: "set (flat part) \<subseteq> A"
  shows "lev + n \<le> length part \<Longrightarrow> cmp_sorted cmp list \<Longrightarrow> keeps cmp A (flat (take lev part)) list \<Longrightarrow>
    \<exists>r. final_merges cmp part lev n list = Some r \<and> cmp_sorted cmp r \<and> keeps cmp A (flat (take (lev + n) part)) r"
proof (induction n arbitrary: lev list)
  case 0
  then show ?case by simp
next
  case (Suc n)
  let ?p = "part ! lev"
  have lev: "lev < length part" using Suc.prems by simp
  have pin: "?p \<in> set part" using lev by simp
  have psub: "set ?p \<subseteq> A" "set list \<subseteq> A"
    using sub pin keeps_set[OF Suc.prems(3)] by (auto dest: in_set_takeD)
  define list' where "list' = (if ?p \<noteq> [] then merge cmp ?p list else list)"
  have list': "list' = merge cmp ?p list" by (cases "?p") (auto simp: list'_def)
  have s: "cmp_sorted cmp list'"
    unfolding list' using psub sorted pin Suc.prems(2) by (intro merge_sorted[OF pre]) auto
  have "flat (take (Suc lev) part) = ?p @ flat (take lev part)" using lev by (simp add: take_Suc_conv_app_nth)
  moreover have "keeps cmp A (?p @ flat (take lev part)) (?p @ list)"
    using Suc.prems(3) by (intro keeps_append) auto
  moreover have "keeps cmp A (?p @ list) (merge cmp ?p list)"
    using psub sorted pin by (intro keeps_merge[OF pre]) auto
  ultimately have k: "keeps cmp A (flat (take (Suc lev) part)) list'"
    unfolding list' using keeps_trans by metis
  have "final_merges cmp part lev (Suc n) list = final_merges cmp part (Suc lev) n list'"
    using lev by (simp add: list'_def)
  then show ?case using Suc.IH[of "Suc lev" list'] Suc.prems(1) s k by simp
qed

lemma list_sort_spec:
  assumes pre: "preorder_on_cmp (set xs) cmp"
  shows "\<exists>ys. list_sort cmp xs = Some ys \<and> cmp_sorted cmp ys \<and> keeps cmp (set xs) xs ys"
proof (cases "xs = []")
  case True
  then show ?thesis by (simp add: list_sort_def)
next
  case False
  let ?A = "set xs"
  have "flat (replicate 21 []) = ([] :: 'a list)" by simp
  then have init: "parts_inv cmp ?A [] (replicate 21 []) 0"
    unfolding parts_inv_def by (auto simp del: replicate.simps)
  obtain part m where l: "list_sort_loop cmp (replicate 21 []) 0 xs = Some (part, m)" "parts_inv cmp ?A xs part m"
    using list_sort_loop_inv[OF pre init, of xs] by auto
  note i = l(2)[unfolded parts_inv_def]
  have fset: "set (flat part) = set xs" using i keeps_set by blast
  obtain list where f: "final_merges cmp part 0 m [] = Some list" "cmp_sorted cmp list"
    "keeps cmp ?A (flat (take m part)) list"
    using final_merges_spec[OF pre, of part 0 m "[]"] i fset by auto
  let ?p = "part ! m"
  have m: "m < length part" using i by simp
  have pin: "?p \<in> set part" using m by simp
  have sub: "set ?p \<subseteq> ?A" "set list \<subseteq> ?A" using fset pin keeps_set[OF f(3)] by (auto dest: in_set_takeD)
  have srt: "cmp_sorted cmp (merge cmp ?p list)"
    using sub i pin f(2) by (intro merge_sorted[OF pre]) auto
  have "concat (rev (drop (Suc m) part)) = []" using i by (auto simp: in_set_conv_nth)
  then have fl: "flat part = ?p @ flat (take m part)"
    using id_take_nth_drop[OF m] by (metis append.left_neutral append_assoc concat.simps concat_append rev.simps(2) rev_append append_Nil2)
  have k0: "keeps cmp ?A xs (flat part)" using i by blast
  have k1: "keeps cmp ?A (flat part) (?p @ list)" unfolding fl using f(3) by (intro keeps_append) auto
  have k2: "keeps cmp ?A (?p @ list) (merge cmp ?p list)"
    using sub i pin by (intro keeps_merge[OF pre]) auto
  have "keeps cmp ?A xs (merge cmp ?p list)" by (rule keeps_trans[OF keeps_trans[OF k0 k1] k2])
  moreover have "list_sort cmp xs = Some (merge cmp ?p list)"
    using False l(1) f(1) m by (simp add: list_sort_def MAX_LIST_LENGTH_BITS_def)
  ultimately show ?thesis using srt by blast
qed

interpretation ls: sorter "\<lambda>cmp xs. if preorder_on_cmp (set xs) cmp then the (list_sort cmp xs) else xs" "\<lambda>xs. True"
proof unfold_locales
  fix xs :: "'a list" and cmp
  show "mset (if preorder_on_cmp (set xs) cmp then the (list_sort cmp xs) else xs) = mset xs"
    using list_sort_spec[of xs cmp] by (auto simp: keeps_def)
  show "cmp_sorted cmp (if preorder_on_cmp (set xs) cmp then the (list_sort cmp xs) else xs)"
    if "preorder_on_cmp (set xs) cmp" using list_sort_spec[OF that] that by auto
qed

text \<open>C30: \<open>list_sort\<close> sorts a list of any length, and it is stable: elements that compare equal
  stay in their original order.\<close>

theorem list_sort_stable:
  assumes "preorder_on_cmp (set xs) cmp"
  shows "\<exists>ys. list_sort cmp xs = Some ys \<and> cmp_sorted cmp ys \<and> mset ys = mset xs \<and>
    (\<forall>x\<in>set xs. filter (\<lambda>y. cmp x y \<le> 0 \<and> cmp y x \<le> 0) ys = filter (\<lambda>y. cmp x y \<le> 0 \<and> cmp y x \<le> 0) xs)"
  using list_sort_spec[OF assms] by (simp add: keeps_def same_def[abs_def])

theorem list_sort_stable_witness:
  "\<exists>ys. list_sort (\<lambda>a b. fst a - fst b) [(2, ''a''), (1, ''b''), (2, ''c''), (0 :: int, ''d'')] = Some ys \<and>
     cmp_sorted (\<lambda>a b. fst a - fst b) ys"
  using list_sort_stable[of "[(2, ''a''), (1, ''b''), (2, ''c''), (0 :: int, ''d'')]" "\<lambda>a b. fst a - fst b"]
  by (auto simp: preorder_on_cmp_def)

end
