(* ===== verification/Div64.thy ===== *)
theory Div64
  imports Uboot_Prelude
begin

text \<open>
  The 64-by-32-bit division of \<open>lib/div64.c\<close> and the macro \<open>do_div\<close> of \<open>include/div64.h\<close>: shift
  and subtract on 64-bit words. \<open>do_div\<close> updates its dividend and yields the remainder; here it
  returns both. A zero divisor is a division by zero in the code and is outside the lemmas.
\<close>

lemma sint_pos_double:
  assumes "sint (b :: u64) > 0"
  shows "unat (b + b) = 2 * unat b" and "0 < unat b"
proof -
  have "uint b < 2 ^ 63"
  proof (rule ccontr)
    assume "\<not> uint b < 2 ^ 63"
    then have "uint b div 2 ^ 63 = 1" using unsigned_less[of b, where ?'a = int] by simp
    then have "bit (uint b) 63" by (simp add: bit_iff_odd)
    then have "sint b < 0" by (simp add: sint_uint signed_take_bit_negative_iff)
    then show False using assms by simp
  qed
  then have "unat b < 2 ^ 63" unfolding uint_nat by (simp only: of_nat_less_numeral_power_cancel_iff)
  then show "unat (b + b) = 2 * unat b" by (subst unat_plus_nowrap) auto
  show "0 < unat b" using assms by (metis gr0I less_irrefl signed_0 unat_eq_zero)
qed

function div64_grow :: "u64 \<Rightarrow> u64 \<Rightarrow> u64 \<Rightarrow> u64 \<times> u64" where
  "div64_grow rem b d =
     (if sint b > 0 \<and> b < rem then div64_grow rem (b + b) (d + d) else (b, d))"
  by pat_completeness auto
termination
  by (relation "measure (\<lambda>(rem, b, d). 2 ^ 64 - unat b)")
    (use sint_pos_double unsigned_less[where ?'a = nat and ?'b = 64] in \<open>auto intro!: diff_less_mono2\<close>)

declare div64_grow.simps [simp del]

lemma unat_half [simp]: "unat (drop_bit (Suc 0) d :: 'a::len word) = unat d div 2"
  by (simp only: unat_drop_bit_eq) (simp add: drop_bit_Suc)

lemma half_eq_0: "drop_bit (Suc 0) (d :: 'a::len word) = 0 \<longleftrightarrow> unat d < 2"
  by (subst unat_eq_zero [symmetric]) (simp add: div_eq_0_iff)

function div64_loop :: "u64 \<Rightarrow> u64 \<Rightarrow> u64 \<Rightarrow> u64 \<Rightarrow> u64 \<times> u64" where
  "div64_loop rem res b d =
     (let rem' = (if rem \<ge> b then rem - b else rem);
          res' = (if rem \<ge> b then res + d else res)
      in if drop_bit 1 d \<noteq> 0 then div64_loop rem' res' (drop_bit 1 b) (drop_bit 1 d) else (rem', res'))"
  by pat_completeness auto
termination
  by (relation "measure (\<lambda>(rem, res, b, d). unat d)") (auto simp: half_eq_0)

declare div64_loop.simps [simp del]

definition div64_32 :: "u64 \<Rightarrow> u32 \<Rightarrow> u32 \<times> u64" where
  "div64_32 n base =
     (let high = ucast (drop_bit 32 n) :: u32;
          h = high div base;
          res = (if high \<ge> base then push_bit 32 (ucast h) else 0);
          rem = (if high \<ge> base then n - push_bit 32 (ucast (h * base)) else n);
          (b, d) = div64_grow rem (ucast base) 1;
          (rem', res') = div64_loop rem res b d
      in (ucast rem', res'))"

definition do_div :: "u64 \<Rightarrow> u32 \<Rightarrow> u32 \<times> u64" where
  "do_div n base =
     (if drop_bit 32 n = 0 then (ucast n mod base, ucast (ucast n div base :: u32)) else div64_32 n base)"

definition lldiv :: "u64 \<Rightarrow> u32 \<Rightarrow> u64" where
  "lldiv dividend divisor = snd (do_div dividend divisor)"

section \<open>The loops\<close>

lemma div64_grow_spec:
  "div64_grow rem b d = (b', d') \<Longrightarrow> unat b = base * unat d \<Longrightarrow> 0 < base \<Longrightarrow> unat d = 2 ^ k \<Longrightarrow>
     \<exists>j. unat d' = 2 ^ j \<and> unat b' = base * 2 ^ j \<and> unat rem < 2 * unat b'"
proof (induction rem b d arbitrary: k rule: div64_grow.induct)
  case (1 rem b d)
  show ?case
  proof (cases "sint b > 0 \<and> b < rem")
    case True
    have b2: "unat (b + b) = 2 * unat b" using sint_pos_double True by blast
    have "unat d \<le> unat b" using 1(3,4) by simp
    then have d2: "unat (d + d) = 2 * unat d"
      using b2 unsigned_less[of "b + b", where ?'a = nat] by (subst unat_plus_nowrap) auto
    have "div64_grow rem (b + b) (d + d) = (b', d')" using 1(2) True by (simp add: div64_grow.simps[of rem b])
    then show ?thesis using 1(1)[OF True, of "Suc k"] 1(3-5) b2 d2 by simp
  next
    case False
    then have eq: "b' = b" "d' = d" using 1(2) by (auto simp: div64_grow.simps[of rem b])
    have "0 < unat b" using 1(3-5) by simp
    then have b0: "b \<noteq> 0" by auto
    have "unat rem < 2 * unat b"
    proof (cases "sint b > 0")
      case True
      then show ?thesis using False \<open>0 < unat b\<close> by (simp add: word_less_nat_alt not_less)
    next
      case neg: False
      have "uint b \<ge> 2 ^ 63"
      proof (rule ccontr)
        assume "\<not> uint b \<ge> 2 ^ 63"
        then have "uint b < 2 ^ 63" by linarith
        then have "sint b = uint b"
          unfolding sint_uint by (intro signed_take_bit_int_eq_self) (auto intro: order_trans[OF _ uint_ge_0])
        moreover have "uint b > 0" using \<open>0 < unat b\<close> unfolding uint_nat by (simp only: of_nat_0_less_iff)
        ultimately show False using neg by simp
      qed
      then have "2 ^ 63 \<le> unat b" unfolding uint_nat by (simp only: numeral_power_le_of_nat_cancel_iff)
      then show ?thesis using unsigned_less[of rem, where ?'a = nat] by simp
    qed
    then show ?thesis using 1(3,5) eq by auto
  qed
qed

lemma div64_loop_spec:
  "div64_loop rem res b d = (rem', res') \<Longrightarrow> unat d = 2 ^ k \<Longrightarrow> unat b = base * 2 ^ k \<Longrightarrow> unat rem < 2 * unat b \<Longrightarrow>
     unat rem + base * unat res = n \<Longrightarrow> n < 2 ^ 64 \<Longrightarrow> 0 < base \<Longrightarrow>
     unat rem' < base \<and> unat rem' + base * unat res' = n"
proof (induction rem res b d arbitrary: k rule: div64_loop.induct)
  case (1 rem res b d)
  define r where "r = (if rem \<ge> b then rem - b else rem)"
  define q where "q = (if rem \<ge> b then res + d else res)"
  have r: "unat r < unat b" and n: "unat r + base * unat q = n"
  proof -
    show "unat r < unat b"
      using 1(5) by (auto simp: r_def word_le_nat_alt unat_minus_nowrap)
    show "unat r + base * unat q = n"
    proof (cases "rem \<ge> b")
      case True
      have le: "unat b \<le> unat rem" using True by (simp add: word_le_nat_alt)
      have "base * (unat res + unat d) \<le> n" using 1(3,4,6) le by (simp add: algebra_simps)
      moreover have "unat res + unat d \<le> base * (unat res + unat d)" using 1(8) by simp
      ultimately have "unat res + unat d < 2 ^ 64" using 1(7) by linarith
      then have "unat (res + d) = unat res + unat d" by (simp add: unat_plus_nowrap)
      then show ?thesis using True 1(3,4,6) le by (simp add: r_def q_def unat_minus_nowrap algebra_simps)
    qed (use 1(6) in \<open>simp add: r_def q_def\<close>)
  qed
  show ?case
  proof (cases "drop_bit 1 d = 0")
    case True
    then have "k = 0" using 1(3) by (cases k) (auto simp: half_eq_0)
    moreover have "rem' = r" "res' = q"
      using 1(2) True by (auto simp: div64_loop.simps[of rem res] r_def q_def Let_def)
    ultimately show ?thesis using r n 1(4) by simp
  next
    case False
    then obtain j where j: "k = Suc j" using 1(3) by (cases k) (auto simp: half_eq_0)
    have "div64_loop r q (drop_bit 1 b) (drop_bit 1 d) = (rem', res')"
      using 1(2) False by (simp add: div64_loop.simps[of rem res] r_def q_def Let_def)
    moreover have "unat (drop_bit 1 d) = 2 ^ j" "unat (drop_bit 1 b) = base * 2 ^ j"
      using 1(3,4) j by simp_all
    moreover have "unat r < 2 * unat (drop_bit 1 b)" using r 1(4) j by simp
    ultimately show ?thesis
      using 1(1)[OF r_def q_def False, of j] n 1(7,8) by blast
  qed
qed

section \<open>The division\<close>

lemma div64_32_spec:
  assumes "0 < unat base" and "div64_32 n base = (r, q)"
  shows "unat r < unat base" and "unat r + unat base * unat q = unat n"
proof -
  define high where "high = (ucast (drop_bit 32 n) :: u32)"
  define h where "h = high div base"
  define res :: u64 where "res = (if high \<ge> base then push_bit 32 (ucast h) else 0)"
  define rem where "rem = (if high \<ge> base then n - push_bit 32 (ucast (h * base)) else n)"
  have high: "unat high = unat n div 2 ^ 32"
    using unsigned_less[of n, where ?'a = nat]
    by (simp add: high_def unat_ucast_mod drop_bit_eq_div unat_div_distrib less_mult_imp_div_less)
  have hb: "unat (h * base) = unat h * unat base" "unat h = unat high div unat base"
  proof -
    show h: "unat h = unat high div unat base" by (simp add: h_def unat_div_distrib)
    have "unat h * unat base \<le> unat high" by (simp add: h)
    then show "unat (h * base) = unat h * unat base"
      using unat_u32_less[of high] by (simp add: unat_mult_lem[THEN iffD1])
  qed
  have shift: "unat (push_bit 32 (ucast (x :: u32)) :: u64) = unat x * 2 ^ 32" for x
    using unat_u32_less[of x]
    by (simp add: push_bit_eq_mult unat_mult_lem[THEN iffD1] unat_ucast_mod)
  have inv: "unat rem + unat base * unat res = unat n"
  proof (cases "high \<ge> base")
    case True
    have "unat (h * base) * 2 ^ 32 \<le> unat n"
    proof -
      have "unat h * unat base \<le> unat n div 2 ^ 32" using hb(2) high by simp
      then have "unat (h * base) * 2 ^ 32 \<le> unat n div 2 ^ 32 * 2 ^ 32" using hb(1) by simp
      also have "\<dots> \<le> unat n" by (rule div_times_less_eq_dividend)
      finally show ?thesis .
    qed
    then show ?thesis
      using True hb(1) by (simp add: rem_def res_def unat_minus_nowrap shift)
  qed (simp add: rem_def res_def)
  obtain b d where g: "div64_grow rem (ucast base) 1 = (b, d)" by (cases "div64_grow rem (ucast base) 1")
  obtain j where j: "unat d = 2 ^ j" "unat b = unat base * 2 ^ j" "unat rem < 2 * unat b"
    using div64_grow_spec[OF g, of "unat base" 0] assms(1) unat_u32_less[of base] by (auto simp: unat_ucast_mod)
  obtain rem' res' where l: "div64_loop rem res b d = (rem', res')" by (cases "div64_loop rem res b d")
  have fin: "unat rem' < unat base \<and> unat rem' + unat base * unat res' = unat n"
    using div64_loop_spec[OF l j inv _ assms(1)] unsigned_less[of n, where ?'a = nat] by simp
  have "r = ucast rem'" "q = res'"
    using assms(2) g l
    by (simp_all add: div64_32_def[of n base, unfolded Let_def, folded high_def, folded h_def, folded res_def rem_def])
  moreover from this have "unat r = unat rem'"
    using fin unat_u32_less[of base] by (simp add: unat_ucast_mod)
  ultimately show "unat r < unat base" "unat r + unat base * unat q = unat n" using fin by simp_all
qed

lemma do_div_spec:
  assumes "base \<noteq> 0"
  shows "do_div n base = (word_of_nat (unat n mod unat base), word_of_nat (unat n div unat base))"
proof (cases "drop_bit 32 n = 0")
  case True
  then have "unat n div 2 ^ 32 = 0" by (metis unat_drop_bit_eq drop_bit_eq_div unat_0)
  then have lt: "unat n < 2 ^ 32" by simp
  then have low: "unat (ucast n :: u32) = unat n" by (simp add: unat_ucast_mod)
  have "(ucast n :: u32) mod base = word_of_nat (unat n mod unat base)"
    using low by (metis unat_mod_distrib of_nat_unat ucast_id)
  moreover have "(ucast ((ucast n :: u32) div base) :: u64) = word_of_nat (unat n div unat base)"
    using low by (metis unat_div_distrib of_nat_unat)
  ultimately show ?thesis using True by (simp only: do_div_def if_True refl)
next
  case False
  have pos: "0 < unat base" using assms by (simp add: unat_gt_0)
  obtain r q where rq: "div64_32 n base = (r, q)" by (cases "div64_32 n base")
  note s = div64_32_spec[OF pos rq]
  have "unat n mod unat base = unat r" "unat n div unat base = unat q"
    using pos s(1) by (simp_all flip: s(2))
  then show ?thesis using False rq by (simp add: do_div_def)
qed

text \<open>\<open>do_div\<close> divides: the shift-and-subtract loops end, the new dividend is the exact quotient of
  the 64-bit division and the result the remainder, for every dividend and every divisor but zero.\<close>

theorem do_div_correct:
  assumes "base \<noteq> 0"
  shows "unat (snd (do_div n base)) = unat n div unat base \<and> unat (fst (do_div n base)) = unat n mod unat base"
proof -
  have "unat n div unat base \<le> unat n" "unat n mod unat base < unat base"
    using assms by (simp_all add: unat_gt_0)
  moreover have "unat n < 2 ^ 64" using unsigned_less[of n, where ?'a = nat] by simp
  ultimately have "unat n div unat base < 2 ^ 64" "unat n mod unat base < 2 ^ 32"
    using unat_u32_less[of base] by linarith+
  then show ?thesis by (simp add: do_div_spec[OF assms] unat_of_nat)
qed

theorem do_div_correct_witness:
  "unat (snd (do_div 0x123456789ABCDEF 1000)) = 0x123456789ABCDEF div 1000"
  using do_div_correct[of 1000 "0x123456789ABCDEF"] by simp

end
