(* ===== verification/Strto.thy ===== *)
theory Strto
  imports Cstring
begin

text \<open>
  Number parsing, \<open>lib/strto.c\<close>, over the byte memory of \<open>Cstring\<close>. A parser returns its value and
  the address it leaves in \<open>*endp\<close>; \<open>None\<close> is a read outside the memory. The prefix code and the
  digit loop are the same text in \<open>simple_strtoul\<close> and \<open>simple_strtoull\<close>, at 32 and 64 bits, and
  appear here once, at any width.
\<close>

section \<open>The parsers\<close>

definition strto_prefix :: "mem \<Rightarrow> nat \<Rightarrow> u32 \<Rightarrow> (nat \<times> u32) option" where
  "strto_prefix m cp base = do {
     c \<leftarrow> arr_get m cp;
     (cp, base) \<leftarrow> (if c = 0x30 then do {
         c1 \<leftarrow> arr_get m (cp + 1);
         hex \<leftarrow> (if c1 = 0x78 then do { c2 \<leftarrow> arr_get m (cp + 2); Some (isxdigit c2) } else Some False);
         let (cp, base) = (if hex then (cp + 2, 16) else (cp + 1, base));
         Some (cp, if base = 0 then 8 else base)
       } else Some (cp, base));
     Some (cp, if base = 0 then 10 else base)
   }"

definition strto_digit :: "u8 \<Rightarrow> 'a::len word" where
  "strto_digit c = (if isdigit c then ucast c - 0x30 else ucast (if islower c then toupper c else c) - 0x41 + 10)"

function strto_loop :: "mem \<Rightarrow> nat \<Rightarrow> u32 \<Rightarrow> 'a::len word \<Rightarrow> ('a word \<times> nat) option" where
  "strto_loop m cp base result =
     (case arr_get m cp of
        None \<Rightarrow> None
      | Some c \<Rightarrow>
          (if isxdigit c \<and> strto_digit c < (ucast base :: 'a word)
           then strto_loop m (cp + 1) base (result * ucast base + strto_digit c)
           else Some (result, cp)))"
  by pat_completeness auto
termination
  by (relation "measure (\<lambda>(m, cp, base, result). length m - cp)") auto

declare strto_loop.simps [simp del]

definition simple_strtoul :: "mem \<Rightarrow> nat \<Rightarrow> u32 \<Rightarrow> (u32 \<times> nat) option" where
  "simple_strtoul m cp base = do {
     (cp, base) \<leftarrow> strto_prefix m cp base;
     strto_loop m cp base 0
   }"

definition simple_strtoull :: "mem \<Rightarrow> nat \<Rightarrow> u32 \<Rightarrow> (u64 \<times> nat) option" where
  "simple_strtoull m cp base = do {
     (cp, base) \<leftarrow> strto_prefix m cp base;
     strto_loop m cp base 0
   }"

text \<open>\<open>strict_strtoul\<close>: \<open>Inl\<close> is the return value \<open>-EINVAL\<close>, with \<open>*res\<close> zero.\<close>

datatype strto_error = Strto_EINVAL

definition strict_strtoul :: "mem \<Rightarrow> nat \<Rightarrow> u32 \<Rightarrow> (strto_error + u32) option" where
  "strict_strtoul m cp base = do {
     len \<leftarrow> strlen m cp;
     if len = 0 then Some (Inl Strto_EINVAL)
     else do {
       (val, tail) \<leftarrow> simple_strtoul m cp base;
       if tail = cp then Some (Inl Strto_EINVAL)
       else do {
         c \<leftarrow> arr_get m tail;
         if c = 0 \<or> (len = tail - cp + 1 \<and> c = 0x0A) then Some (Inr val) else Some (Inl Strto_EINVAL)
       }
     }
   }"

definition simple_strtol :: "mem \<Rightarrow> nat \<Rightarrow> u32 \<Rightarrow> (u32 \<times> nat) option" where
  "simple_strtol m cp base = do {
     c \<leftarrow> arr_get m cp;
     if c = 0x2D then do { (val, tail) \<leftarrow> simple_strtoul m (cp + 1) base; Some (- val, tail) }
     else simple_strtoul m cp base
   }"

text \<open>The suffix switch of \<open>ustrtoul\<close> and \<open>ustrtoull\<close>, with its fall-through.\<close>

definition unit_suffix :: "mem \<Rightarrow> 'a::len word \<times> nat \<Rightarrow> ('a word \<times> nat) option" where
  "unit_suffix m r = (case r of (result, endp) \<Rightarrow> do {
     c \<leftarrow> arr_get m endp;
     let result = (if c = 0x47 then result * 1024 else result);
     let result = (if c \<in> {0x47, 0x4D} then result * 1024 else result);
     if c \<in> {0x47, 0x4D, 0x4B, 0x6B} then do {
       let result = result * 1024;
       i \<leftarrow> arr_get m (endp + 1);
       if i = 0x69 then do {
         b \<leftarrow> arr_get m (endp + 2);
         Some (result, if b = 0x42 then endp + 3 else endp + 2)
       } else Some (result, endp)
     } else Some (result, endp)
   })"

definition ustrtoul :: "mem \<Rightarrow> nat \<Rightarrow> u32 \<Rightarrow> (u32 \<times> nat) option" where
  "ustrtoul m cp base = do { r \<leftarrow> simple_strtoul m cp base; unit_suffix m r }"

definition ustrtoull :: "mem \<Rightarrow> nat \<Rightarrow> u32 \<Rightarrow> (u64 \<times> nat) option" where
  "ustrtoull m cp base = do { r \<leftarrow> simple_strtoull m cp base; unit_suffix m r }"

text \<open>The backward scan: \<open>k\<close> is \<open>p - str\<close>.\<close>

fun trailing_loop :: "mem \<Rightarrow> nat \<Rightarrow> nat \<Rightarrow> u32 option" where
  "trailing_loop m str 0 = Some (- 1)"
| "trailing_loop m str (Suc k) = do {
     c \<leftarrow> arr_get m (str + Suc k);
     if \<not> isdigit c then map_option fst (simple_strtoul m (str + Suc k + 1) 10)
     else trailing_loop m str k
   }"

definition trailing_strtoln :: "mem \<Rightarrow> nat \<Rightarrow> nat option \<Rightarrow> u32 option" where
  "trailing_strtoln m str e = do {
     e \<leftarrow> (case e of None \<Rightarrow> map_option (\<lambda>n. str + n) (strlen m str) | Some e \<Rightarrow> Some e);
     trailing_loop m str (e - 1 - str)
   }"

definition trailing_strtol :: "mem \<Rightarrow> nat \<Rightarrow> u32 option" where
  "trailing_strtol m str = trailing_strtoln m str None"

definition str2off :: "mem \<Rightarrow> nat \<Rightarrow> (bool \<times> u64) option" where
  "str2off m p = do {
     (num, endptr) \<leftarrow> simple_strtoull m p 16;
     c \<leftarrow> arr_get m p;
     e \<leftarrow> arr_get m endptr;
     Some (c \<noteq> 0 \<and> e = 0, num)
   }"

definition str2long :: "mem \<Rightarrow> nat \<Rightarrow> (bool \<times> u32) option" where
  "str2long m p = do {
     (num, endptr) \<leftarrow> simple_strtoul m p 16;
     c \<leftarrow> arr_get m p;
     e \<leftarrow> arr_get m endptr;
     Some (c \<noteq> 0 \<and> e = 0, num)
   }"

section \<open>Digit strings\<close>

text \<open>The value of a digit as a number, and of a digit string in a base.\<close>

definition digit_nat :: "u8 \<Rightarrow> nat" where
  "digit_nat c = (if c \<le> 0x39 then unat c - 0x30 else if c \<le> 0x46 then unat c - 0x41 + 10 else unat c - 0x61 + 10)"

definition is_digit_of :: "nat \<Rightarrow> u8 \<Rightarrow> bool" where
  "is_digit_of b c \<longleftrightarrow> isxdigit c \<and> digit_nat c < b"

definition digits_value :: "nat \<Rightarrow> u8 list \<Rightarrow> nat" where
  "digits_value b ds = foldl (\<lambda>n c. n * b + digit_nat c) 0 ds"

lemma strto_digit_mask:
  "isxdigit c \<longrightarrow> digit_nat c < 16 \<and>
     (if isdigit c then unat c - 0x30 else unat (if islower c then toupper c else c) - 0x41 + 10) = digit_nat c \<and>
     (isdigit c \<longrightarrow> 0x30 \<le> c) \<and> (\<not> isdigit c \<longrightarrow> 0x41 \<le> (if islower c then toupper c else c))"
  unfolding isxdigit_def isdigit_def islower_def toupper_def digit_nat_def
  by (rule all_ctype) code_simp

lemma digit_nat_less: "isxdigit c \<Longrightarrow> digit_nat c < 16"
  using strto_digit_mask[of c] by blast

lemma strto_digit_eq:
  assumes "isxdigit c"
  shows "(strto_digit c :: 'a::len word) = word_of_nat (digit_nat c)"
proof -
  define u where "u = (if islower c then toupper c else c)"
  have m: "(if isdigit c then unat c - 0x30 else unat u - 0x41 + 10) = digit_nat c"
    "isdigit c \<longrightarrow> 0x30 \<le> c" "\<not> isdigit c \<longrightarrow> 0x41 \<le> u"
    using strto_digit_mask[of c] assms by (auto simp: u_def)
  have cast: "(ucast x :: 'a word) - word_of_nat k = word_of_nat (unat x - k)" if "k \<le> unat x" for x :: u8 and k
    using of_nat_diff[OF that, where ?'a = "'a word"] by simp
  show ?thesis
  proof (cases "isdigit c")
    case True
    then have "48 \<le> unat c" using m(2) by (simp add: word_le_nat_alt)
    then show ?thesis using True m(1) by (simp add: strto_digit_def of_nat_diff flip: m(1))
  next
    case False
    then have "65 \<le> unat u" using m(3) by (simp add: word_le_nat_alt)
    then show ?thesis using cast[of 65 u] False m(1) unfolding strto_digit_def u_def[symmetric]
      by (simp flip: m(1))
  qed
qed

lemma strto_digit_less:
  assumes "isxdigit c" and "32 \<le> LENGTH('a::len)"
  shows "(strto_digit c :: 'a word) < ucast (base :: u32) \<longleftrightarrow> digit_nat c < unat base"
proof -
  have "2 ^ 32 \<le> (2 :: nat) ^ LENGTH('a)" using assms(2) by (intro power_increasing) auto
  then have "unat (ucast base :: 'a word) = unat base" "unat (word_of_nat (digit_nat c) :: 'a word) = digit_nat c"
    using unat_u32_less[of base] digit_nat_less[OF assms(1)]
    by (auto simp: unsigned_ucast_eq take_bit_eq_mod unat_of_nat)
  then show ?thesis by (simp add: word_less_nat_alt strto_digit_eq[OF assms(1)])
qed

lemma strto_loop_cstring:
  assumes "32 \<le> LENGTH('a::len)"
  shows "cstring m cp xs \<Longrightarrow>
     strto_loop m cp base (word_of_nat n :: 'a word) =
       Some (word_of_nat (foldl (\<lambda>n c. n * unat base + digit_nat c) n (takeWhile (is_digit_of (unat base)) xs)),
             cp + length (takeWhile (is_digit_of (unat base)) xs))"
proof (induction xs arbitrary: cp n)
  case Nil
  have "\<not> isxdigit 0" by (simp add: isxdigit_iff)
  then show ?case using Nil by (simp add: strto_loop.simps)
next
  case (Cons c xs)
  have get: "arr_get m cp = Some c" and rest: "cstring m (cp + 1) xs" using Cons.prems by auto
  show ?case
  proof (cases "is_digit_of (unat base) c")
    case True
    then have "isxdigit c" "(strto_digit c :: 'a word) < ucast base"
      using assms by (auto simp: is_digit_of_def strto_digit_less)
    moreover have eq: "(word_of_nat n * ucast base + strto_digit c :: 'a word) = word_of_nat (n * unat base + digit_nat c)"
      using \<open>isxdigit c\<close> by (simp add: strto_digit_eq)
    ultimately have "strto_loop m cp base (word_of_nat n :: 'a word) =
        strto_loop m (cp + 1) base (word_of_nat (n * unat base + digit_nat c))"
      by (subst strto_loop.simps) (simp only: get option.simps simp_thms if_True)
    then show ?thesis using True Cons.IH[OF rest, of "n * unat base + digit_nat c"] 
      by (simp del: of_nat_add of_nat_mult)
  next
    case False
    then have "\<not> (isxdigit c \<and> (strto_digit c :: 'a word) < ucast base)"
      using assms by (auto simp: is_digit_of_def strto_digit_less)
    then have "strto_loop m cp base (word_of_nat n :: 'a word) = Some (word_of_nat n, cp)"
      by (subst strto_loop.simps) (simp only: get option.simps if_False)
    then show ?thesis using False by simp
  qed
qed

text \<open>The number of prefix characters and the base that is used.\<close>

definition strto_base :: "u8 list \<Rightarrow> nat \<Rightarrow> nat \<times> nat" where
  "strto_base xs b =
     (if xs \<noteq> [] \<and> hd xs = 0x30 then
        (if 3 \<le> length xs \<and> xs ! 1 = 0x78 \<and> isxdigit (xs ! 2) then (2, 16) else (1, if b = 0 then 8 else b))
      else (0, if b = 0 then 10 else b))"

lemma strto_prefix_cstring:
  assumes "cstring m cp xs" and "strto_base xs (unat base) = (k, b)"
  shows "\<exists>base'. strto_prefix m cp base = Some (cp + k, base') \<and> unat base' = b \<and> k \<le> length xs"
proof -
  have z: "\<not> isxdigit 0" by (simp add: isxdigit_iff)
  consider "xs = []" | c where "xs = [c]" | c c1 where "xs = [c, c1]" | c c1 c2 r where "xs = c # c1 # c2 # r"
    by (metis list.exhaust)
  then show ?thesis
  proof cases
    case 1
    then show ?thesis using assms by (auto simp: strto_prefix_def strto_base_def unat_gt_0 unat_eq_zero)
  next
    case 2
    then show ?thesis using assms by (auto simp: strto_prefix_def strto_base_def unat_gt_0 unat_eq_zero split: if_splits)
  next
    case 3
    then show ?thesis using assms z by (auto simp: strto_prefix_def strto_base_def unat_gt_0 unat_eq_zero split: if_splits)
  next
    case 4
    then show ?thesis using assms z by (auto simp: strto_prefix_def strto_base_def unat_gt_0 unat_eq_zero split: if_splits)
  qed
qed

definition strto_parse :: "u8 list \<Rightarrow> nat \<Rightarrow> nat \<times> nat" where
  "strto_parse xs base =
     (let (k, b) = strto_base xs base;
          ds = takeWhile (is_digit_of b) (drop k xs)
      in (digits_value b ds, k + length ds))"

lemma strto_parse_bound: "snd (strto_parse xs base) \<le> length xs"
proof -
  obtain k b where kb: "strto_base xs base = (k, b)" by (cases "strto_base xs base")
  then have "k \<le> length xs" by (cases xs) (auto simp: strto_base_def split: if_splits)
  moreover have "length (takeWhile (is_digit_of b) (drop k xs)) \<le> length xs - k"
    using length_takeWhile_le[of "is_digit_of b" "drop k xs"] by simp
  ultimately show ?thesis using kb by (simp add: strto_parse_def Let_def)
qed

lemma strto_cstring:
  assumes "32 \<le> LENGTH('a::len)" and "cstring m cp xs"
  shows "(strto_prefix m cp base \<bind> (\<lambda>(cp, base). strto_loop m cp base (0 :: 'a word))) =
    Some (word_of_nat (fst (strto_parse xs (unat base))), cp + snd (strto_parse xs (unat base)))"
proof -
  obtain k b where kb: "strto_base xs (unat base) = (k, b)" by (cases "strto_base xs (unat base)")
  obtain base' where p: "strto_prefix m cp base = Some (cp + k, base')" "unat base' = b" "k \<le> length xs"
    using strto_prefix_cstring[OF assms(2) kb] by auto
  have "cstring m (cp + k) (drop k xs)" using cstring_drop assms(2) p(3) by blast
  from strto_loop_cstring[OF assms(1) this, of base' 0] show ?thesis
    using p kb by (simp add: strto_parse_def digits_value_def Let_def add.assoc)
qed

lemma simple_strtoul_cstring:
  "cstring m cp xs \<Longrightarrow> simple_strtoul m cp base =
     Some (word_of_nat (fst (strto_parse xs (unat base))), cp + snd (strto_parse xs (unat base)))"
  unfolding simple_strtoul_def by (rule strto_cstring) auto

lemma simple_strtoull_cstring:
  "cstring m cp xs \<Longrightarrow> simple_strtoull m cp base =
     Some (word_of_nat (fst (strto_parse xs (unat base))), cp + snd (strto_parse xs (unat base)))"
  unfolding simple_strtoull_def by (rule strto_cstring) auto

section \<open>What the parsers return\<close>

text \<open>\<open>strict_strtoul\<close> accepts exactly the strings that are a number with an optional newline: on a
  terminated string it returns the value (modulo \<open>2 ^ 32\<close>) when the digits reach the end of the string
  or the newline in front of it, and \<open>-EINVAL\<close> for the empty string, a string with no digit and a
  string with anything else behind the digits. It never reads outside the string.\<close>

theorem strict_strtoul_correct:
  assumes "cstring m cp xs"
  shows "strict_strtoul m cp base =
    (let (v, n) = strto_parse xs (unat base)
     in if n \<noteq> 0 \<and> (n = length xs \<or> n + 1 = length xs \<and> last xs = 0x0A)
        then Some (Inr (word_of_nat v)) else Some (Inl Strto_EINVAL))"
proof -
  obtain v n where vn: "strto_parse xs (unat base) = (v, n)" by (cases "strto_parse xs (unat base)")
  have n: "n \<le> length xs" using strto_parse_bound[of xs "unat base"] vn by simp
  have in_mem: "cp + n < length m" using cstring_bound[OF assms] n by simp
  have at: "m ! (cp + n) = (if n = length xs then 0 else xs ! n)"
    using cstring_end[OF assms] cstring_nth[OF assms, of n] n by auto
  have nz: "xs ! n \<noteq> 0" if "n < length xs" using cstring_nonzero[OF assms that] at that by simp
  have "last xs = xs ! n" if "n + 1 = length xs" using that by (cases xs rule: rev_cases) auto
  then show ?thesis
    using vn strlen_cstring[OF assms] simple_strtoul_cstring[OF assms, of base] in_mem at nz n
    by (cases "n = length xs") (auto simp: strict_strtoul_def)
qed

theorem strict_strtoul_correct_witness:
  "strict_strtoul (ascii ''0x1F'' @ [0x0A, 0]) 0 0 = Some (Inr 31)"
proof -
  have "cstring (ascii ''0x1F'' @ [0x0A, 0]) 0 (ascii ''0x1F'' @ [0x0A])" by (simp add: ascii_def)
  from strict_strtoul_correct[OF this, of 0] show ?thesis
    by (simp add: ascii_def strto_parse_def strto_base_def is_digit_of_def digit_nat_def digits_value_def
      isxdigit_iff Let_def)
qed

text \<open>
  \<open>trailing_strtol\<close> looks for the last character that is not a digit, but never at the first one: a
  number behind a single letter is not found, and a string with no trailing number gives 0, although
  its description promises the number and \<open>-1\<close>.
\<close>

lemma trailing_strtol_one_letter: "trailing_strtol (ascii ''a123'' @ [0]) 0 = Some (- 1)"
  by code_simp

lemma trailing_strtol_no_number: "trailing_strtol (ascii ''abc'' @ [0]) 0 = Some 0"
  by code_simp

end
