(* ===== verification/Vsprintf.thy ===== *)
theory Vsprintf
  imports Strto Div64
begin

text \<open>
  Formatted output, \<open>lib/vsprintf.c\<close>. The output position \<open>str\<close> and the limit \<open>end\<close> are addresses;
  a character that does not fit is counted but not stored. The variable arguments are a list of
  32-bit and 64-bit items, and taking an item of the wrong width is \<open>None\<close>, like every other
  undefined behaviour. The local buffer \<open>tmp\<close> of \<open>number\<close> and the small buffers of the address
  printers are byte lists; their bounds are lemmas. Field widths, precisions and flags are C
  \<open>int\<close>s, here of type \<open>int\<close>: an overflow of \<open>skip_atoi\<close> is undefined behaviour.
\<close>

section \<open>Numbers in format strings\<close>

definition is_digit :: "u8 \<Rightarrow> bool" where
  "is_digit c \<longleftrightarrow> 0x30 \<le> c \<and> c \<le> 0x39"

function skip_atoi :: "mem \<Rightarrow> nat \<Rightarrow> int \<Rightarrow> (int \<times> nat) option" where
  "skip_atoi m s i =
     (case arr_get m s of
        None \<Rightarrow> None
      | Some c \<Rightarrow>
          (if is_digit c then
             (if i * 10 + uint c < 2 ^ 31 then skip_atoi m (s + 1) (i * 10 + uint c - 0x30) else None)
           else Some (i, s)))"
  by pat_completeness auto
termination
  by (relation "measure (\<lambda>(m, s, i). length m - s)") auto

declare skip_atoi.simps [simp del]

section \<open>Decimal digits\<close>

text \<open>The digits come least significant first; \<open>c + '0'\<close> is stored as a byte.\<close>

definition dec_char :: "u32 \<Rightarrow> u8" where
  "dec_char d = ucast (d + 0x30)"

definition put_dec_trunc :: "u32 \<Rightarrow> u8 list" where
  "put_dec_trunc q =
     (let d1 = drop_bit 4 q AND 0xF;
          d2 = drop_bit 8 q AND 0xF;
          d3 = drop_bit 12 q;
          d0 = 6 * (d3 + d2 + d1) + (q AND 0xF);
          q = drop_bit 11 (d0 * 0xCD);
          d0 = d0 - 10 * q;
          d1 = q + 9 * d3 + 5 * d2 + d1
      in dec_char d0 #
         (if d1 \<noteq> 0 then
            let q = drop_bit 11 (d1 * 0xCD);
                d1 = d1 - 10 * q;
                d2 = q + 2 * d2
            in dec_char d1 #
               (if d2 \<noteq> 0 \<or> d3 \<noteq> 0 then
                  let q = drop_bit 7 (d2 * 0xD);
                      d2 = d2 - 10 * q;
                      d3 = q + 4 * d3
                  in dec_char d2 #
                     (if d3 \<noteq> 0 then
                        let q = drop_bit 11 (d3 * 0xCD);
                            d3 = d3 - 10 * q
                        in dec_char d3 # (if q \<noteq> 0 then [dec_char q] else [])
                      else [])
                else [])
          else []))"

definition put_dec_full :: "u32 \<Rightarrow> u8 list" where
  "put_dec_full q =
     (let d1 = drop_bit 4 q AND 0xF;
          d2 = drop_bit 8 q AND 0xF;
          d3 = drop_bit 12 q;
          d0 = 6 * (d3 + d2 + d1) + (q AND 0xF);
          q = drop_bit 11 (d0 * 0xCD);
          d0 = d0 - 10 * q;
          d1 = q + 9 * d3 + 5 * d2 + d1;
          q = drop_bit 11 (d1 * 0xCD);
          d1 = d1 - 10 * q;
          d2 = q + 2 * d2;
          q = drop_bit 7 (d2 * 0xD);
          d2 = d2 - 10 * q;
          d3 = q + 4 * d3;
          q = drop_bit 11 (d3 * 0xCD);
          d3 = d3 - 10 * q
      in [dec_char d0, dec_char d1, dec_char d2, dec_char d3, dec_char q])"

lemma do_div_100000: "do_div num 100000 = (word_of_nat (unat num mod 100000), word_of_nat (unat num div 100000))"
  by (simp add: do_div_spec)

lemma unat_quotient: "unat (word_of_nat (unat (num :: u64) div k) :: u64) = unat num div k"
proof -
  have "unat num div k \<le> unat num" by simp
  also have "unat num < 2 ^ 64" using unsigned_less[of num, where ?'a = nat] by simp
  finally show ?thesis by (simp add: unat_of_nat)
qed

function put_dec :: "u64 \<Rightarrow> u8 list" where
  "put_dec num =
     (if num < 100000 then put_dec_trunc (ucast num)
      else case do_div num 100000 of (rem, num') \<Rightarrow> put_dec_full rem @ put_dec num')"
  by pat_completeness auto
termination
  by (relation "measure unat") (auto simp: do_div_100000 unat_quotient word_less_nat_alt not_less)

declare put_dec.simps [simp del]

section \<open>Decimal conversion is correct\<close>

text \<open>The decimal digits of a number by division, least significant first.\<close>

fun dec_digits :: "nat \<Rightarrow> u8 list" where
  "dec_digits n = (if n < 10 then [word_of_nat (n + 0x30)] else word_of_nat (n mod 10 + 0x30) # dec_digits (n div 10))"

declare dec_digits.simps [simp del]

text \<open>The multiplications that replace divisions by ten.\<close>

lemma div10_cases:
  fixes x :: nat
  obtains k r where "x = 10 * k + r" "r < 10" "x div 10 = k"
  by (rule that[of "x div 10" "x mod 10"]) simp_all

lemma split10: "n = 10 * k + r \<Longrightarrow> r < 10 \<Longrightarrow> n div 10 = k \<and> n mod 10 = (r :: nat)"
  by auto

lemma mul_cd_div10: "x \<le> 1000 \<Longrightarrow> x * 205 div 2048 = x div (10 :: nat)"
  by (rule div10_cases[of x]) (auto intro!: div_nat_eqI)

lemma mul_d_div10:
  assumes "x \<le> 68"
  shows "x * 13 div 128 = x div (10 :: nat)"
proof (rule div10_cases[of x])
  fix k r assume x: "x = 10 * k + r" "r < 10" "x div 10 = k"
  then have "k \<le> 5 \<or> r \<le> 8" using assms by linarith
  then have "2 * k + 13 * r < 128" using x assms by auto
  then show ?thesis using x by (auto intro!: div_nat_eqI)
qed

lemma unat_shiftr: "unat (drop_bit k w) = unat w div 2 ^ k"
  unfolding unat_drop_bit_eq by (rule drop_bit_eq_div)

lemma nibbles: "n = 4096 * (n div 4096) + 256 * (n div 256 mod 16) + 16 * (n div 16 mod 16) + n mod (16 :: nat)"
proof -
  have sum: "n = 4096 * c + 256 * t + 16 * s + r" if "n = 16 * a + r" "a = 16 * b + s" "b = 16 * c + t" for a b c r s t :: nat
    using that by simp
  show ?thesis
    using sum[OF mult_div_mod_eq[of 16 n, symmetric] mult_div_mod_eq[of 16 "n div 16", symmetric]
      mult_div_mod_eq[of 16 "n div 16 div 16", symmetric]]
    by (simp only: div_mult2_eq[symmetric]) simp
qed

lemma unat_and_nibble: "unat (w AND 0xF :: 'a::len word) = unat w mod 16"
proof -
  have "w AND 0xF = take_bit 4 w" by (simp add: take_bit_eq_mask mask_eq_exp_minus_1)
  moreover have "unat (take_bit 4 w) = take_bit 4 (unat w)" by (rule unsigned_take_bit_eq)
  ultimately show ?thesis by (simp add: take_bit_eq_mod)
qed

lemma unat_quot10:
  assumes "unat (x :: u32) \<le> 1000"
  shows "unat (drop_bit 11 (x * 0xCD)) = unat x div 10" and "unat (x - 10 * drop_bit 11 (x * 0xCD)) = unat x mod 10"
proof -
  have "unat (x * 0xCD) = unat x * 205" using assms by (subst unat_mult_nowrap) auto
  then show q: "unat (drop_bit 11 (x * 0xCD)) = unat x div 10"
    using mul_cd_div10[OF assms] by (simp only: unat_shiftr) simp
  have "unat (10 * drop_bit 11 (x * 0xCD)) = 10 * (unat x div 10)"
    using assms q by (subst unat_mult_nowrap) auto
  moreover have "unat x = 10 * (unat x div 10) + unat x mod 10" by simp
  ultimately show "unat (x - 10 * drop_bit 11 (x * 0xCD)) = unat x mod 10"
    by (subst unat_minus_nowrap) linarith+
qed

lemma unat_quot10':
  assumes "unat (x :: u32) \<le> 68"
  shows "unat (drop_bit 7 (x * 0xD)) = unat x div 10" and "unat (x - 10 * drop_bit 7 (x * 0xD)) = unat x mod 10"
proof -
  have "unat (x * 0xD) = unat x * 13" using assms by (subst unat_mult_nowrap) auto
  then show q: "unat (drop_bit 7 (x * 0xD)) = unat x div 10"
    using mul_d_div10[OF assms] by (simp only: unat_shiftr) simp
  have "unat (10 * drop_bit 7 (x * 0xD)) = 10 * (unat x div 10)"
    using assms q by (subst unat_mult_nowrap) auto
  moreover have "unat x = 10 * (unat x div 10) + unat x mod 10" by simp
  ultimately show "unat (x - 10 * drop_bit 7 (x * 0xD)) = unat x mod 10"
    by (subst unat_minus_nowrap) linarith+
qed

lemma ucast_of_nat_down: "LENGTH('b::len) \<le> LENGTH('a::len) \<Longrightarrow> (ucast (word_of_nat n :: 'a word) :: 'b word) = word_of_nat n"
  by (rule bit_word_eqI) (simp add: bit_simps)

lemma dec_char_nat: "unat d = n \<Longrightarrow> dec_char d = word_of_nat (n + 0x30)"
  using ucast_of_nat_down[where ?'a = 32 and ?'b = 8 and n = "n + 0x30"] by (auto simp: dec_char_def)

text \<open>The intermediate values of both routines, as numbers.\<close>

lemma put_dec_values:
  assumes q: "unat (q :: u32) < 100000"
  defines "n \<equiv> unat q"
  defines "d1 \<equiv> drop_bit 4 q AND 0xF" and "d2 \<equiv> drop_bit 8 q AND 0xF" and "d3 \<equiv> drop_bit 12 q"
  defines "e0 \<equiv> 6 * (d3 + d2 + d1) + (q AND 0xF)"
  defines "e1 \<equiv> drop_bit 11 (e0 * 0xCD) + 9 * d3 + 5 * d2 + d1"
  defines "e2 \<equiv> drop_bit 11 (e1 * 0xCD) + 2 * d2"
  defines "e3 \<equiv> drop_bit 7 (e2 * 0xD) + 4 * d3"
  shows "unat e0 \<le> 1000" "unat e1 \<le> 1000" "unat e2 \<le> 68" "unat e3 \<le> 1000"
    "n div 10 = unat e1 + 20 * unat d2 + 400 * unat d3"
    "n div 100 = unat e2 + 40 * unat d3" "n div 1000 = unat e3"
    "n mod 10 = unat e0 mod 10" "n div 10 mod 10 = unat e1 mod 10" "n div 100 mod 10 = unat e2 mod 10"
    "unat d2 + unat d3 > 0 \<longrightarrow> unat e1 > 0"
proof -
  have u: "unat d1 = n div 16 mod 16" "unat d2 = n div 256 mod 16" "unat d3 = n div 4096" "unat (q AND 0xF) = n mod 16"
    by (simp_all only: d1_def d2_def d3_def n_def unat_and_nibble unat_shiftr) simp_all
  obtain r where r: "r = n mod 16" by blast
  have n: "n = 4096 * unat d3 + 256 * unat d2 + 16 * unat d1 + r" unfolding u r by (rule nibbles)
  have b: "unat d1 < 16" "unat d2 < 16" "r < 16" unfolding u r by auto
  have n24: "n < 100000" using q n_def by simp
  then have b3: "unat d3 \<le> 24" using n by linarith
  have e0: "unat e0 = 6 * unat d3 + 6 * unat d2 + 6 * unat d1 + r"
    unfolding e0_def using b b3 u(4) r by (simp add: nowrap)
  then show c0: "unat e0 \<le> 1000" using b b3 by simp
  obtain q0 r0 where d0: "unat e0 = 10 * q0 + r0" "r0 < 10" "unat e0 div 10 = q0" by (rule div10_cases)
  have e1: "unat e1 = q0 + 9 * unat d3 + 5 * unat d2 + unat d1"
    unfolding e1_def using b b3 c0 d0 by (simp add: nowrap unat_quot10(1))
  then show c1: "unat e1 \<le> 1000" using b b3 c0 d0(1) by simp
  obtain q1 r1 where d1': "unat e1 = 10 * q1 + r1" "r1 < 10" "unat e1 div 10 = q1" by (rule div10_cases)
  have e2: "unat e2 = q1 + 2 * unat d2"
    unfolding e2_def using b c1 d1' by (simp add: nowrap unat_quot10(1))
  have n10: "n = 10 * (unat e1 + 20 * unat d2 + 400 * unat d3) + r0"
    using n e0 e1 d0(1) by simp
  then show v1: "n div 10 = unat e1 + 20 * unat d2 + 400 * unat d3" and "n mod 10 = unat e0 mod 10"
    using split10[OF n10 d0(2)] split10[OF d0(1,2)] by simp_all
  have "n div 10 = 10 * (unat e2 + 40 * unat d3) + r1" using v1 e2 d1'(1) by simp
  note s10 = split10[OF this d1'(2)]
  show v2: "n div 100 = unat e2 + 40 * unat d3" using s10 by (simp add: div_mult2_eq[symmetric])
  show "n div 10 mod 10 = unat e1 mod 10" using s10 split10[OF d1'(1,2)] by simp
  show c2: "unat e2 \<le> 68"
  proof (cases "unat d3 = 24")
    case True
    then have "unat d2 \<le> 6" using n24 n by simp
    then show ?thesis using b True e0 e1 e2 d0(1) d1'(1) by simp
  qed (use b b3 e0 e1 e2 d0(1) d1'(1) in simp)
  obtain q2 r2 where d2': "unat e2 = 10 * q2 + r2" "r2 < 10" "unat e2 div 10 = q2" by (rule div10_cases)
  have e3: "unat e3 = q2 + 4 * unat d3"
    unfolding e3_def using b3 c2 d2' by (simp add: nowrap unat_quot10'(1))
  then show "unat e3 \<le> 1000" using b3 c2 d2'(1) by simp
  have n1000: "n div 100 = 10 * unat e3 + r2" using v2 e3 d2'(1) by simp
  then have "n div 100 div 10 = unat e3" using d2'(2) by simp
  then show "n div 1000 = unat e3" by (simp add: div_mult2_eq[symmetric])
  show "n div 100 mod 10 = unat e2 mod 10" using n1000 d2' by simp
  show "unat d2 + unat d3 > 0 \<longrightarrow> unat e1 > 0" using e1 by simp
qed

lemma dec_digits_step:
  "dec_digits n = word_of_nat (n mod 10 + 0x30) # (if n div 10 = 0 then [] else dec_digits (n div 10))"
  by (subst dec_digits.simps) (auto simp: div_eq_0_iff)

lemma dec_digits_5:
  assumes "n < 100000"
  shows "dec_digits n =
    word_of_nat (n mod 10 + 0x30) # (if n div 10 = 0 then [] else word_of_nat (n div 10 mod 10 + 0x30) #
      (if n div 100 = 0 then [] else word_of_nat (n div 100 mod 10 + 0x30) #
        (if n div 1000 = 0 then [] else word_of_nat (n div 1000 mod 10 + 0x30) #
          (if n div 1000 div 10 = 0 then [] else [word_of_nat (n div 1000 div 10 + 0x30)]))))"
proof -
  have s: "n div 10 div 10 = n div 100" "n div 100 div 10 = n div 1000" by (simp_all flip: div_mult2_eq)
  have "n div 1000 div 10 < 10" using assms by (simp add: less_mult_imp_div_less flip: div_mult2_eq)
  then have "dec_digits (n div 1000 div 10) = [word_of_nat (n div 1000 div 10 + 0x30)]" by (simp add: dec_digits.simps)
  then show ?thesis
    by (simp only: dec_digits_step[of n] dec_digits_step[of "n div 10"] dec_digits_step[of "n div 100"]
      dec_digits_step[of "n div 1000"] s)
qed

lemma put_dec_digits:
  assumes "unat q < 100000"
  shows "put_dec_trunc q = dec_digits (unat q)"
    and "put_dec_full q = map (\<lambda>k. word_of_nat (unat q div k mod 10 + 0x30)) [1, 10, 100, 1000, 10000]"
proof -
  define d1 where "d1 = drop_bit 4 q AND 0xF"
  define d2 where "d2 = drop_bit 8 q AND 0xF"
  define d3 where "d3 = drop_bit 12 q"
  define e0 where "e0 = 6 * (d3 + d2 + d1) + (q AND 0xF)"
  define e1 where "e1 = drop_bit 11 (e0 * 0xCD) + 9 * d3 + 5 * d2 + d1"
  define e2 where "e2 = drop_bit 11 (e1 * 0xCD) + 2 * d2"
  define e3 where "e3 = drop_bit 7 (e2 * 0xD) + 4 * d3"
  note v = put_dec_values[OF assms, folded d1_def d2_def d3_def, folded e0_def, folded e1_def, folded e2_def, folded e3_def]
  note c = dec_char_nat[OF unat_quot10(2)[OF v(1)]] dec_char_nat[OF unat_quot10(2)[OF v(2)]]
    dec_char_nat[OF unat_quot10'(2)[OF v(3)]] dec_char_nat[OF unat_quot10(2)[OF v(4)]]
    dec_char_nat[OF unat_quot10(1)[OF v(4)]]
  have z: "e1 = 0 \<longleftrightarrow> unat q div 10 = 0" "(e2 \<noteq> 0 \<or> d3 \<noteq> 0) \<longleftrightarrow> unat q div 100 \<noteq> 0"
    "e3 = 0 \<longleftrightarrow> unat q div 1000 = 0" "drop_bit 11 (e3 * 0xCD) = 0 \<longleftrightarrow> unat q div 1000 div 10 = 0"
    unfolding unat_eq_zero[symmetric] unat_quot10(1)[OF v(4)] v(5,6,7) using v(11) by auto
  have "put_dec_trunc q = dec_char (e0 - 10 * drop_bit 11 (e0 * 0xCD)) #
    (if e1 \<noteq> 0 then dec_char (e1 - 10 * drop_bit 11 (e1 * 0xCD)) #
      (if e2 \<noteq> 0 \<or> d3 \<noteq> 0 then dec_char (e2 - 10 * drop_bit 7 (e2 * 0xD)) #
        (if e3 \<noteq> 0 then dec_char (e3 - 10 * drop_bit 11 (e3 * 0xCD)) #
          (if drop_bit 11 (e3 * 0xCD) \<noteq> 0 then [dec_char (drop_bit 11 (e3 * 0xCD))] else []) else []) else []) else [])"
    unfolding e3_def e2_def e1_def e0_def d3_def d2_def d1_def put_dec_trunc_def Let_def by (rule refl)
  also have "\<dots> = dec_digits (unat q)"
    unfolding c z dec_digits_5[OF assms] v(7-10) by (simp split: if_splits)
  finally show "put_dec_trunc q = dec_digits (unat q)" .
  have "put_dec_full q = [dec_char (e0 - 10 * drop_bit 11 (e0 * 0xCD)), dec_char (e1 - 10 * drop_bit 11 (e1 * 0xCD)),
    dec_char (e2 - 10 * drop_bit 7 (e2 * 0xD)), dec_char (e3 - 10 * drop_bit 11 (e3 * 0xCD)), dec_char (drop_bit 11 (e3 * 0xCD))]"
    unfolding e3_def e2_def e1_def e0_def d3_def d2_def d1_def put_dec_full_def Let_def by (rule refl)
  moreover have "unat q div 10000 = unat e3 div 10" "unat e3 div 10 < 10"
    using v(7) assms by (simp_all add: less_mult_imp_div_less flip: div_mult2_eq v(7))
  ultimately show "put_dec_full q = map (\<lambda>k. word_of_nat (unat q div k mod 10 + 0x30)) [1, 10, 100, 1000, 10000]"
    unfolding c by (simp add: v(7-10))
qed

lemma digit_of_mod:
  fixes n :: nat
  assumes "0 < k" "10 dvd j"
  shows "n mod (k * j) div k mod 10 = n div k mod 10"
proof -
  have "n mod (k * j) div k = n div k mod j" using assms(1) by (simp add: mod_mult2_eq)
  then show ?thesis using assms(2) by (simp add: mod_mod_cancel)
qed

lemma dec_digits_unfold5:
  assumes "n \<ge> 100000"
  shows "dec_digits n = map (\<lambda>k. word_of_nat (n div k mod 10 + 0x30)) [1, 10, 100, 1000, 10000] @ dec_digits (n div 100000)"
proof -
  have s: "n div 10 div 10 = n div 100" "n div 100 div 10 = n div 1000" "n div 1000 div 10 = n div 10000"
    "n div 10000 div 10 = n div 100000" by (simp_all flip: div_mult2_eq)
  have "n div 10 \<noteq> 0" "n div 100 \<noteq> 0" "n div 1000 \<noteq> 0" "n div 10000 \<noteq> 0" "n div 100000 \<noteq> 0"
    using assms by (simp_all add: div_eq_0_iff)
  then show ?thesis
    by (simp add: dec_digits_step[of n] dec_digits_step[of "n div 10"] dec_digits_step[of "n div 100"]
      dec_digits_step[of "n div 1000"] dec_digits_step[of "n div 10000"] s del: div_eq_0_iff)
qed

lemma put_dec_dec_digits: "put_dec num = dec_digits (unat num)"
proof (induction num rule: put_dec.induct)
  case (1 num)
  show ?case
  proof (cases "num < 100000")
    case True
    then have "unat num < 100000" by (simp add: word_less_nat_alt)
    moreover from this have "unat (ucast num :: u32) = unat num" by (simp add: unat_ucast_mod)
    ultimately show ?thesis using True put_dec_digits(1)[of "ucast num"] by (simp add: put_dec.simps)
  next
    case False
    define r :: u32 where "r = word_of_nat (unat num mod 100000)"
    define q :: u64 where "q = word_of_nat (unat num div 100000)"
    have d: "do_div num 100000 = (r, q)" by (simp add: do_div_100000 r_def q_def)
    have ge: "unat num \<ge> 100000" using False by (simp add: word_less_nat_alt)
    have r: "unat r = unat num mod 100000" by (simp add: r_def unat_of_nat order.strict_trans[of _ 100000])
    have q: "unat q = unat num div 100000" by (simp add: q_def unat_quotient)
    have digits: "unat num mod 100000 div k mod 10 = unat num div k mod 10" if "k \<in> {1, 10, 100, 1000, 10000}" for k
      using that digit_of_mod[of k "100000 div k" "unat num"] by auto
    have "put_dec_full r = map (\<lambda>k. word_of_nat (unat r div k mod 10 + 0x30)) [1, 10, 100, 1000, 10000]"
      by (rule put_dec_digits(2)) (simp add: r)
    also have "\<dots> = map (\<lambda>k. word_of_nat (unat num div k mod 10 + 0x30)) [1, 10, 100, 1000, 10000]"
    proof (rule map_cong[OF refl])
      fix k :: nat assume "k \<in> set [1, 10, 100, 1000, 10000]"
      then have "k \<in> {1, 10, 100, 1000, 10000}" by simp
      from digits[OF this] show "word_of_nat (unat r div k mod 10 + 0x30) = (word_of_nat (unat num div k mod 10 + 0x30) :: u8)"
        by (simp only: r)
    qed
    finally show ?thesis
      using 1[OF False d[symmetric]] d False q dec_digits_unfold5[OF ge] by (simp add: put_dec.simps[of num])
  qed
qed

section \<open>Output\<close>

type_synonym out = "mem \<times> nat"

text \<open>The macro \<open>ADDCH\<close>: store the character when it fits, and advance in any case.\<close>

definition ADDCH :: "nat \<Rightarrow> out \<Rightarrow> u8 \<Rightarrow> out option" where
  "ADDCH e out c = (case out of (m, str) \<Rightarrow>
     (if str < e then map_option (\<lambda>m'. (m', str + 1)) (arr_set m str c) else Some (m, str + 1)))"

fun addchs :: "nat \<Rightarrow> out \<Rightarrow> u8 list \<Rightarrow> out option" where
  "addchs e out [] = Some out"
| "addchs e out (c # cs) = do { out \<leftarrow> ADDCH e out c; addchs e out cs }"

text \<open>The loop \<open>while (--size >= 0) ADDCH(buf, c);\<close> and the size it leaves.\<close>

function pad :: "nat \<Rightarrow> out \<Rightarrow> int \<Rightarrow> u8 \<Rightarrow> (out \<times> int) option" where
  "pad e out sz c =
     (if sz - 1 \<ge> 0 then (case ADDCH e out c of None \<Rightarrow> None | Some out' \<Rightarrow> pad e out' (sz - 1) c)
      else Some (out, sz - 1))"
  by pat_completeness auto
termination
  by (relation "measure (\<lambda>(e, out, sz, c). nat sz)") auto

declare pad.simps [simp del]

abbreviation ZEROPAD :: u32 where "ZEROPAD \<equiv> 1"
abbreviation SIGN :: u32 where "SIGN \<equiv> 2"
abbreviation PLUS :: u32 where "PLUS \<equiv> 4"
abbreviation SPACE :: u32 where "SPACE \<equiv> 8"
abbreviation LEFT :: u32 where "LEFT \<equiv> 16"
abbreviation SMALL :: u32 where "SMALL \<equiv> 32"
abbreviation SPECIAL :: u32 where "SPECIAL \<equiv> 64"

definition digits16 :: "u8 list" where
  "digits16 = ascii ''0123456789ABCDEF''"

text \<open>The digits in base 8 or 16, least significant first.\<close>

lemma drop_bit_decreases: "drop_bit k num \<noteq> 0 \<Longrightarrow> 0 < k \<Longrightarrow> unat (drop_bit k num) < unat (num :: 'a::len word)"
proof -
  assume "drop_bit k num \<noteq> 0" "0 < k"
  then have "0 < unat num" "1 < (2 :: nat) ^ k"
    by (auto simp: unat_gt_0 one_less_power simp flip: One_nat_def)
  then show ?thesis unfolding unat_shiftr by (intro div_less_dividend)
qed

function pow_digits :: "int \<Rightarrow> u8 \<Rightarrow> u64 \<Rightarrow> u8 list" where
  "pow_digits base locase num =
     (let mask = word_of_int (base - 1);
          shift = (if base = 16 then 4 else 3);
          num' = drop_bit shift num
      in (digits16 ! unat (ucast num AND mask :: u8) OR locase) # (if num' \<noteq> 0 then pow_digits base locase num' else []))"
  by pat_completeness auto
termination
  by (relation "measure (\<lambda>(base, locase, num). unat num)") (auto intro: drop_bit_decreases)

declare pow_digits.simps [simp del]

definition number_digits :: "u64 \<Rightarrow> int \<Rightarrow> u8 \<Rightarrow> u8 list" where
  "number_digits num base locase =
     (if num = 0 then [0x30] else if base \<noteq> 10 then pow_digits base locase num else put_dec num)"

definition number :: "nat \<Rightarrow> out \<Rightarrow> u64 \<Rightarrow> int \<Rightarrow> int \<Rightarrow> int \<Rightarrow> u32 \<Rightarrow> out option" where
  "number e out num base sz precision flags =
     (let need_pfx = (flags AND SPECIAL \<noteq> 0 \<and> base \<noteq> 10);
          locase = ucast (flags AND SMALL);
          flags = (if flags AND LEFT \<noteq> 0 then flags AND NOT ZEROPAD else flags);
          (sign, num, sz) =
            (if flags AND SIGN \<noteq> 0 then
               (if sint num < 0 then (0x2D, - num, sz - 1)
                else if flags AND PLUS \<noteq> 0 then (0x2B, num, sz - 1)
                else if flags AND SPACE \<noteq> 0 then (0x20, num, sz - 1)
                else (0, num, sz))
             else (0, num, sz));
          sz = (if need_pfx then (if base = 16 then sz - 2 else sz - 1) else sz);
          tmp = number_digits num base locase;
          i = int (length tmp);
          precision = (if i > precision then i else precision);
          sz = sz - precision
      in do {
        (out, sz) \<leftarrow> (if flags AND (ZEROPAD + LEFT) = 0 then pad e out sz 0x20 else Some (out, sz));
        out \<leftarrow> (if sign \<noteq> 0 then ADDCH e out sign else Some out);
        out \<leftarrow> (if need_pfx then do {
            out \<leftarrow> ADDCH e out 0x30;
            if base = 16 then ADDCH e out (0x58 OR locase) else Some out
          } else Some out);
        (out, sz) \<leftarrow> (if flags AND LEFT = 0 then pad e out sz (if flags AND ZEROPAD \<noteq> 0 then 0x30 else 0x20)
                     else Some (out, sz));
        (out, _) \<leftarrow> pad e out (precision - i) 0x30;
        out \<leftarrow> addchs e out (rev tmp);
        (out, _) \<leftarrow> pad e out sz 0x20;
        Some out
      })"

section \<open>Strings and addresses\<close>

text \<open>The loop \<open>while (len < field_width--) ADDCH(buf, ' ');\<close> and the width it leaves.\<close>

function pad_field :: "nat \<Rightarrow> out \<Rightarrow> int \<Rightarrow> int \<Rightarrow> (out \<times> int) option" where
  "pad_field e out len fw =
     (if len < fw then (case ADDCH e out 0x20 of None \<Rightarrow> None | Some out' \<Rightarrow> pad_field e out' len (fw - 1))
      else Some (out, fw - 1))"
  by pat_completeness auto
termination
  by (relation "measure (\<lambda>(e, out, len, fw). nat (fw - len))") auto

declare pad_field.simps [simp del]

text \<open>\<open>ADDCH(buf, *s++)\<close>: the source is read from the memory that is being written.\<close>

fun copy_chars :: "nat \<Rightarrow> out \<Rightarrow> nat \<Rightarrow> nat \<Rightarrow> out option" where
  "copy_chars e out s 0 = Some out"
| "copy_chars e out s (Suc n) = do {
     c \<leftarrow> arr_get (fst out) s;
     out \<leftarrow> ADDCH e out c;
     copy_chars e out (s + 1) n
   }"

definition string_with :: "(out \<Rightarrow> out option) \<Rightarrow> nat \<Rightarrow> out \<Rightarrow> int \<Rightarrow> int \<Rightarrow> u32 \<Rightarrow> out option" where
  "string_with copy e out len field_width flags = do {
     (out, fw) \<leftarrow> (if flags AND LEFT = 0 then pad_field e out len field_width else Some (out, field_width));
     out \<leftarrow> copy out;
     (out, _) \<leftarrow> pad_field e out len fw;
     Some out
   }"

text \<open>\<open>string\<close> on a string in a buffer of its caller or a literal, and on an argument.\<close>

definition string_local :: "nat \<Rightarrow> out \<Rightarrow> u8 list \<Rightarrow> int \<Rightarrow> int \<Rightarrow> u32 \<Rightarrow> out option" where
  "string_local e out s field_width precision flags =
     (let len = min (nat (precision mod 2 ^ 32)) (length s)
      in string_with (\<lambda>out. addchs e out (take len s)) e out (int len) field_width flags)"

definition vs_string :: "nat \<Rightarrow> out \<Rightarrow> nat \<Rightarrow> int \<Rightarrow> int \<Rightarrow> u32 \<Rightarrow> out option" where
  "vs_string e out s field_width precision flags =
     (if s = 0 then string_local e out (ascii ''<NULL>'') field_width precision flags
      else do {
        len \<leftarrow> strnlen (fst out) s (nat (precision mod 2 ^ 32));
        string_with (\<lambda>out. copy_chars e out s len) e out (int len) field_width flags
      })"

definition hex_asc :: "u8 list" where
  "hex_asc = ascii ''0123456789abcdef''"

definition pack_hex_byte :: "u8 \<Rightarrow> u8 list" where
  "pack_hex_byte b = [hex_asc ! unat (drop_bit 4 (b AND 0xF0)), hex_asc ! unat (b AND 0x0F)]"

definition load_bytes :: "mem \<Rightarrow> nat \<Rightarrow> nat \<Rightarrow> u8 list option" where
  "load_bytes m a n = (if a + n \<le> length m then Some (slice m a n) else None)"

text \<open>A separator goes behind every group but the last.\<close>

fun join :: "u8 list \<Rightarrow> u8 list list \<Rightarrow> u8 list" where
  "join sep [] = []"
| "join sep [x] = x"
| "join sep (x # y # xs) = x @ sep @ join sep (y # xs)"

definition mac_address_text :: "u8 list \<Rightarrow> u32 \<Rightarrow> u8 list" where
  "mac_address_text addr flags = join (if flags AND SPECIAL = 0 then [0x3A] else []) (map pack_hex_byte addr)"

definition mac_address_string :: "nat \<Rightarrow> out \<Rightarrow> nat \<Rightarrow> int \<Rightarrow> int \<Rightarrow> u32 \<Rightarrow> out option" where
  "mac_address_string e out addr field_width precision flags = do {
     bs \<leftarrow> load_bytes (fst out) addr 6;
     string_local e out (mac_address_text bs flags) field_width precision (flags AND NOT SPECIAL)
   }"

fun byte_pairs :: "u8 list \<Rightarrow> u8 list list" where
  "byte_pairs (a # b # bs) = (pack_hex_byte a @ pack_hex_byte b) # byte_pairs bs"
| "byte_pairs bs = []"

definition ip6_addr_string :: "nat \<Rightarrow> out \<Rightarrow> nat \<Rightarrow> int \<Rightarrow> int \<Rightarrow> u32 \<Rightarrow> out option" where
  "ip6_addr_string e out addr field_width precision flags = do {
     bs \<leftarrow> load_bytes (fst out) addr 16;
     string_local e out (join (if flags AND SPECIAL = 0 then [0x3A] else []) (byte_pairs bs))
       field_width precision (flags AND NOT SPECIAL)
   }"

definition ip4_addr_text :: "u8 list \<Rightarrow> u8 list" where
  "ip4_addr_text addr = join [0x2E] (map (\<lambda>b. rev (put_dec_trunc (ucast b))) addr)"

definition ip4_addr_string :: "nat \<Rightarrow> out \<Rightarrow> nat \<Rightarrow> int \<Rightarrow> int \<Rightarrow> u32 \<Rightarrow> out option" where
  "ip4_addr_string e out addr field_width precision flags = do {
     bs \<leftarrow> load_bytes (fst out) addr 4;
     string_local e out (ip4_addr_text bs) field_width precision (flags AND NOT SPECIAL)
   }"

definition pointer_number :: "nat \<Rightarrow> out \<Rightarrow> u64 \<Rightarrow> int \<Rightarrow> int \<Rightarrow> u32 \<Rightarrow> out option" where
  "pointer_number e out num field_width precision flags =
     (let flags = flags OR SMALL;
          (field_width, flags) = (if field_width = - 1 then (8, flags OR ZEROPAD) else (field_width, flags))
      in number e out num 16 field_width precision flags)"

definition pointer :: "nat \<Rightarrow> nat \<Rightarrow> out \<Rightarrow> u32 \<Rightarrow> int \<Rightarrow> int \<Rightarrow> u32 \<Rightarrow> out option" where
  "pointer fmt e out ptr field_width precision flags =
     (let a = unat ptr in do {
        c \<leftarrow> arr_get (fst out) fmt;
        if c = 0x61 then do {
          num \<leftarrow> load32 (fst out) a;
          pointer_number e out (ucast num) 10 precision (flags OR SPECIAL OR ZEROPAD)
        } else if c = 0x6D \<or> c = 0x4D then
          mac_address_string e out a field_width precision (if c = 0x6D then flags OR SPECIAL else flags)
        else if c = 0x69 \<or> c = 0x49 then do {
          c1 \<leftarrow> arr_get (fst out) (fmt + 1);
          let flags = (if c = 0x69 then flags OR SPECIAL else flags);
          if c1 = 0x36 then ip6_addr_string e out a field_width precision flags
          else if c1 = 0x34 then ip4_addr_string e out a field_width precision flags
          else pointer_number e out (ucast ptr) field_width precision (flags AND NOT SPECIAL)
        } else pointer_number e out (ucast ptr) field_width precision flags
      })"

section \<open>The format string\<close>

text \<open>Variable arguments: \<open>va_arg\<close> at a type of the wrong width is undefined.\<close>

datatype va_item = VA32 u32 | VA64 u64

fun va_arg32 :: "va_item list \<Rightarrow> (u32 \<times> va_item list) option" where
  "va_arg32 (VA32 w # args) = Some (w, args)"
| "va_arg32 args = None"

fun va_arg64 :: "va_item list \<Rightarrow> (u64 \<times> va_item list) option" where
  "va_arg64 (VA64 w # args) = Some (w, args)"
| "va_arg64 args = None"

text \<open>The flag characters behind a percent sign: the address of the first other one and the flags.\<close>

definition flag_char :: "u8 \<Rightarrow> u32" where
  "flag_char c = (if c = 0x2D then LEFT else if c = 0x2B then PLUS else if c = 0x20 then SPACE
     else if c = 0x23 then SPECIAL else if c = 0x30 then ZEROPAD else 0)"

function fmt_flags :: "mem \<Rightarrow> nat \<Rightarrow> u32 \<Rightarrow> (nat \<times> u32) option" where
  "fmt_flags m fmt flags =
     (case arr_get m (fmt + 1) of
        None \<Rightarrow> None
      | Some c \<Rightarrow> (if flag_char c \<noteq> 0 then fmt_flags m (fmt + 1) (flags OR flag_char c) else Some (fmt + 1, flags)))"
  by pat_completeness auto
termination
  by (relation "measure (\<lambda>(m, fmt, flags). length m - fmt)") auto

declare fmt_flags.simps [simp del]

definition fmt_width :: "mem \<Rightarrow> nat \<Rightarrow> u32 \<Rightarrow> va_item list \<Rightarrow> (int \<times> u32 \<times> nat \<times> va_item list) option" where
  "fmt_width m fmt flags args = do {
     c \<leftarrow> arr_get m fmt;
     if is_digit c then do { (fw, fmt) \<leftarrow> skip_atoi m fmt 0; Some (fw, flags, fmt, args) }
     else if c = 0x2A then do {
       (w, args) \<leftarrow> va_arg32 args;
       if sint w < 0 then Some (- sint w, flags OR LEFT, fmt + 1, args) else Some (sint w, flags, fmt + 1, args)
     } else Some (- 1, flags, fmt, args)
   }"

definition fmt_precision :: "mem \<Rightarrow> nat \<Rightarrow> va_item list \<Rightarrow> (int \<times> nat \<times> va_item list) option" where
  "fmt_precision m fmt args = do {
     c \<leftarrow> arr_get m fmt;
     if c = 0x2E then do {
       c \<leftarrow> arr_get m (fmt + 1);
       (p, fmt, args) \<leftarrow>
         (if is_digit c then do { (p, fmt) \<leftarrow> skip_atoi m (fmt + 1) 0; Some (p, fmt, args) }
          else if c = 0x2A then do { (w, args) \<leftarrow> va_arg32 args; Some (sint w, fmt + 2, args) }
          else Some (- 1, fmt + 1, args));
       Some (if p < 0 then 0 else p, fmt, args)
     } else Some (- 1, fmt, args)
   }"

text \<open>The qualifier, 0 for none; \<open>ll\<close> is \<open>L\<close>.\<close>

definition fmt_qualifier :: "mem \<Rightarrow> nat \<Rightarrow> (u8 \<times> nat) option" where
  "fmt_qualifier m fmt = do {
     c \<leftarrow> arr_get m fmt;
     if c \<in> {0x68, 0x6C, 0x4C, 0x5A, 0x7A, 0x74} then do {
       c1 \<leftarrow> arr_get m (fmt + 1);
       if c = 0x6C \<and> c1 = 0x6C then Some (0x4C, fmt + 2) else Some (c, fmt + 1)
     } else Some (0, fmt)
   }"

definition fmt_number :: "u8 \<Rightarrow> u32 \<Rightarrow> va_item list \<Rightarrow> (u64 \<times> va_item list) option" where
  "fmt_number qualifier flags args =
     (if qualifier = 0x4C then va_arg64 args
      else do {
        (w, args) \<leftarrow> va_arg32 args;
        if qualifier = 0x5A \<or> qualifier = 0x7A then Some (ucast w, args)
        else if qualifier = 0x74 then Some (scast w, args)
        else if qualifier = 0x68 then
          Some (if flags AND SIGN \<noteq> 0 then scast (ucast w :: u16) else ucast (ucast w :: u16), args)
        else Some (if flags AND SIGN \<noteq> 0 then scast w else ucast w, args)
      })"

function skip_alnum :: "mem \<Rightarrow> nat \<Rightarrow> nat option" where
  "skip_alnum m fmt =
     (case arr_get m (fmt + 1) of
        None \<Rightarrow> None
      | Some c \<Rightarrow> (if isalnum c then skip_alnum m (fmt + 1) else Some fmt))"
  by pat_completeness auto
termination
  by (relation "measure (\<lambda>(m, fmt). length m - fmt)") auto

declare skip_alnum.simps [simp del]

definition fmt_convert ::
  "nat \<Rightarrow> nat \<Rightarrow> out \<Rightarrow> nat \<Rightarrow> va_item list \<Rightarrow> u32 \<Rightarrow> int \<Rightarrow> int \<Rightarrow> u8 \<Rightarrow> (out \<times> nat \<times> va_item list) option" where
  "fmt_convert e buf out fmt args flags field_width precision qualifier =
     (let numeric = (\<lambda>base flags. do {
            (num, args) \<leftarrow> fmt_number qualifier flags args;
            out \<leftarrow> number e out num base field_width precision flags;
            Some (out, fmt, args)
          })
      in do {
        c \<leftarrow> arr_get (fst out) fmt;
        if c = 0x63 then do {
          (out, fw) \<leftarrow> (if flags AND LEFT = 0
             then do { (out, s) \<leftarrow> pad e out (field_width - 1) 0x20; Some (out, s + 1) }
             else Some (out, field_width));
          (w, args) \<leftarrow> va_arg32 args;
          out \<leftarrow> ADDCH e out (ucast w);
          (out, _) \<leftarrow> pad e out (fw - 1) 0x20;
          Some (out, fmt, args)
        } else if c = 0x73 then do {
          (w, args) \<leftarrow> va_arg32 args;
          out \<leftarrow> vs_string e out (unat w) field_width precision flags;
          Some (out, fmt, args)
        } else if c = 0x70 then do {
          (w, args) \<leftarrow> va_arg32 args;
          out \<leftarrow> pointer (fmt + 1) e out w field_width precision flags;
          fmt \<leftarrow> skip_alnum (fst out) fmt;
          Some (out, fmt, args)
        } else if c = 0x6E then do {
          (w, args) \<leftarrow> va_arg32 args;
          m \<leftarrow> store32 (fst out) (unat w) (word_of_nat (snd out - buf));
          Some ((m, snd out), fmt, args)
        } else if c = 0x25 then do {
          out \<leftarrow> ADDCH e out 0x25;
          Some (out, fmt, args)
        } else if c = 0x6F then numeric 8 flags
        else if c = 0x78 then numeric 16 (flags OR SMALL)
        else if c = 0x58 then numeric 16 flags
        else if c = 0x64 \<or> c = 0x69 then numeric 10 (flags OR SIGN)
        else if c = 0x75 then numeric 10 flags
        else do {
          out \<leftarrow> ADDCH e out 0x25;
          if c \<noteq> 0 then do { out \<leftarrow> ADDCH e out c; Some (out, fmt, args) } else Some (out, fmt - 1, args)
        }
      })"

text \<open>One round of the loop over the format, at a character that is not the terminating NUL.\<close>

definition vsn_step :: "nat \<Rightarrow> nat \<Rightarrow> out \<Rightarrow> nat \<Rightarrow> u8 \<Rightarrow> va_item list \<Rightarrow> (out \<times> nat \<times> va_item list) option" where
  "vsn_step e buf out fmt c args =
     (if c \<noteq> 0x25 then do { out \<leftarrow> ADDCH e out c; Some (out, fmt, args) }
      else do {
        (fmt, flags) \<leftarrow> fmt_flags (fst out) fmt 0;
        (field_width, flags, fmt, args) \<leftarrow> fmt_width (fst out) fmt flags args;
        (precision, fmt, args) \<leftarrow> fmt_precision (fst out) fmt args;
        (qualifier, fmt) \<leftarrow> fmt_qualifier (fst out) fmt;
        fmt_convert e buf out fmt args flags field_width precision qualifier
      })"

section \<open>Memory outside the buffer\<close>

text \<open>
  What every output routine keeps: the size of the memory, and every byte outside the part of the
  buffer between the output position and the limit. The position only grows.
\<close>

definition out_ok :: "nat \<Rightarrow> out \<Rightarrow> out \<Rightarrow> bool" where
  "out_ok e out out' \<longleftrightarrow> length (fst out') = length (fst out) \<and> snd out \<le> snd out' \<and>
     (\<forall>a. (a < snd out \<or> e \<le> a) \<longrightarrow> fst out' ! a = fst out ! a)"

lemma out_ok_refl [simp]: "out_ok e out out"
  by (simp add: out_ok_def)

lemma out_ok_trans: "out_ok e a b \<Longrightarrow> out_ok e b c \<Longrightarrow> out_ok e a c"
  unfolding out_ok_def by (metis le_trans less_le_trans)

lemma ADDCH_ok: "ADDCH e out c = Some out' \<Longrightarrow> out_ok e out out'"
  by (auto simp: ADDCH_def out_ok_def arr_set_def split: prod.splits if_splits)

lemma addchs_ok: "addchs e out cs = Some out' \<Longrightarrow> out_ok e out out'"
  by (induction e out cs rule: addchs.induct)
    (auto split: Option.bind_splits dest: ADDCH_ok intro: out_ok_trans)

lemma pad_ok: "pad e out sz c = Some (out', sz') \<Longrightarrow> out_ok e out out'"
proof (induction e out sz c rule: pad.induct)
  case (1 e out sz c)
  show ?case
  proof (cases "sz - 1 \<ge> 0")
    case True
    then obtain o1 where o1: "ADDCH e out c = Some o1" "pad e o1 (sz - 1) c = Some (out', sz')"
      using 1(2) by (subst (asm) pad.simps) (auto split: option.splits)
    then show ?thesis using 1(1)[OF True o1] ADDCH_ok out_ok_trans by blast
  next
    case False
    then show ?thesis using 1(2) by (subst (asm) pad.simps) auto
  qed
qed

lemma pad_field_ok: "pad_field e out len fw = Some (out', fw') \<Longrightarrow> out_ok e out out'"
proof (induction e out len fw rule: pad_field.induct)
  case (1 e out len fw)
  show ?case
  proof (cases "len < fw")
    case True
    then obtain o1 where o1: "ADDCH e out 0x20 = Some o1" "pad_field e o1 len (fw - 1) = Some (out', fw')"
      using 1(2) by (subst (asm) pad_field.simps) (auto split: option.splits)
    then show ?thesis using 1(1)[OF True o1] ADDCH_ok out_ok_trans by blast
  next
    case False
    then show ?thesis using 1(2) by (subst (asm) pad_field.simps) auto
  qed
qed

lemma copy_chars_ok: "copy_chars e out s n = Some out' \<Longrightarrow> out_ok e out out'"
  by (induction e out s n rule: copy_chars.induct)
    (auto simp del: arr_get_Some split: Option.bind_splits dest: ADDCH_ok intro: out_ok_trans)

text \<open>The same for a sequence of steps in the option monad.\<close>

definition keeps_out :: "nat \<Rightarrow> out \<Rightarrow> ('a \<Rightarrow> out) \<Rightarrow> 'a option \<Rightarrow> bool" where
  "keeps_out e out sel r \<longleftrightarrow> (\<forall>x. r = Some x \<longrightarrow> out_ok e out (sel x))"

lemma keeps_out_bind_id:
  "keeps_out e out id r \<Longrightarrow> (\<And>x. r = Some x \<Longrightarrow> keeps_out e x g (k x)) \<Longrightarrow> keeps_out e out g (r \<bind> k)"
  by (fastforce simp: keeps_out_def split: Option.bind_splits intro: out_ok_trans)

lemma keeps_out_bind_pair:
  "keeps_out e out fst r \<Longrightarrow> (\<And>a b. r = Some (a, b) \<Longrightarrow> keeps_out e a g (k a b)) \<Longrightarrow> keeps_out e out g (r \<bind> (\<lambda>(a, b). k a b))"
  by (fastforce simp: keeps_out_def split: Option.bind_splits intro: out_ok_trans)

lemma keeps_out_pure: "(\<And>x. r = Some x \<Longrightarrow> keeps_out e out g (k x)) \<Longrightarrow> keeps_out e out g (r \<bind> k)"
  by (auto simp: keeps_out_def split: Option.bind_splits)

lemma keeps_out_pure_pair:
  "(\<And>a b. r = Some (a, b) \<Longrightarrow> keeps_out e out g (k a b)) \<Longrightarrow> keeps_out e out g (r \<bind> (\<lambda>(a, b). k a b))"
  by (auto simp: keeps_out_def split: Option.bind_splits)

lemma keeps_out_if: "keeps_out e out f r \<Longrightarrow> keeps_out e out f s \<Longrightarrow> keeps_out e out f (if b then r else s)"
  by simp

lemma keeps_out_Some:
  "keeps_out e out id (Some out)" "keeps_out e out fst (Some (out, b))"
  by (simp_all add: keeps_out_def)

lemma keeps_out_basic:
  "keeps_out e out id (ADDCH e out c)" "keeps_out e out id (addchs e out cs)" "keeps_out e out fst (pad e out sz c)"
  "keeps_out e out fst (pad_field e out len fw)" "keeps_out e out id (copy_chars e out s n)"
  by (auto simp: keeps_out_def dest: ADDCH_ok addchs_ok pad_ok pad_field_ok copy_chars_ok)

lemmas keeps_out_rules = keeps_out_bind_id keeps_out_bind_pair keeps_out_if keeps_out_Some keeps_out_basic
  keeps_out_pure[where ?'a = u8] keeps_out_pure[where ?'a = u32] keeps_out_pure[where ?'a = nat]
  keeps_out_pure[where ?'a = "u8 list"] keeps_out_pure_pair[where ?'b = "va_item list"]

lemma number_keeps: "keeps_out e out id (number e out num base sz precision flags)"
  unfolding number_def Let_def by (split prod.split, intro allI impI)+ (intro keeps_out_rules)

lemma string_with_keeps:
  "(\<And>out. keeps_out e out id (copy out)) \<Longrightarrow> keeps_out e out id (string_with copy e out len fw flags)"
  unfolding string_with_def by (intro keeps_out_rules)

lemma string_local_keeps: "keeps_out e out id (string_local e out s fw precision flags)"
  unfolding string_local_def Let_def by (intro string_with_keeps keeps_out_rules)

lemma vs_string_keeps: "keeps_out e out id (vs_string e out s fw precision flags)"
  unfolding vs_string_def by (intro string_local_keeps string_with_keeps keeps_out_rules)

lemma pointer_number_keeps: "keeps_out e out id (pointer_number e out num fw precision flags)"
  unfolding pointer_number_def Let_def by (split prod.split, intro allI impI) (rule number_keeps)

lemma address_string_keeps:
  "keeps_out e out id (mac_address_string e out a fw precision flags)"
  "keeps_out e out id (ip6_addr_string e out a fw precision flags)"
  "keeps_out e out id (ip4_addr_string e out a fw precision flags)"
  unfolding mac_address_string_def ip6_addr_string_def ip4_addr_string_def
  by (intro string_local_keeps keeps_out_rules)+

lemma pointer_keeps: "keeps_out e out id (pointer fmt e out ptr fw precision flags)"
  unfolding pointer_def Let_def by (intro pointer_number_keeps address_string_keeps keeps_out_rules)

section \<open>Reading a conversion specification\<close>

text \<open>The characters between a percent sign and its conversion character.\<close>

definition spec_char :: "u8 \<Rightarrow> bool" where
  "spec_char c \<longleftrightarrow> flag_char c \<noteq> 0 \<or> is_digit c \<or> c \<in> {0x2A, 0x2E, 0x68, 0x6C, 0x4C, 0x5A, 0x7A, 0x74}"

lemma spec_char_not [simp]: "\<not> spec_char 0" "\<not> spec_char 0x6E"
  by (simp_all add: spec_char_def flag_char_def is_digit_def)

definition scans :: "mem \<Rightarrow> nat \<Rightarrow> nat \<Rightarrow> nat \<Rightarrow> bool" where
  "scans m z f f' \<longleftrightarrow> f \<le> f' \<and> f' \<le> z \<and> (\<forall>k. f \<le> k \<and> k < f' \<longrightarrow> spec_char (m ! k))"

lemma scans_refl: "f \<le> z \<Longrightarrow> scans m z f f"
  by (auto simp: scans_def)

lemma scans_trans: "scans m z f g \<Longrightarrow> scans m z g h \<Longrightarrow> scans m z f h"
  unfolding scans_def by (metis le_trans not_le_imp_less)

lemma scans_step: "f \<le> z \<Longrightarrow> m ! z = 0 \<Longrightarrow> spec_char (m ! f) \<Longrightarrow> scans m z f (f + 1)"
  by (cases "f = z") (auto simp: scans_def le_less)

lemma skip_atoi_scans: "skip_atoi m s i = Some (n, s') \<Longrightarrow> s \<le> z \<Longrightarrow> m ! z = 0 \<Longrightarrow> scans m z s s'"
proof (induction m s i rule: skip_atoi.induct)
  case (1 m s i)
  show ?case
  proof (cases "is_digit (m ! s)")
    case True
    then have "spec_char (m ! s)" by (simp add: spec_char_def)
    then have st: "scans m z s (s + 1)" using 1(3,4) scans_step by blast
    have len: "s < length m" using 1(2) by (subst (asm) skip_atoi.simps) (auto split: option.splits)
    then have "i * 10 + uint (m ! s) < 2 ^ 31" "skip_atoi m (s + 1) (i * 10 + uint (m ! s) - 0x30) = Some (n, s')"
      using 1(2) True by (subst (asm) skip_atoi.simps; auto split: if_splits)+
    then have "scans m z (s + 1) s'" using 1(1)[of "m ! s"] 1(4) st True len by (simp add: scans_def)
    then show ?thesis using st scans_trans by blast
  next
    case False
    then have "s' = s" using 1(2) by (subst (asm) skip_atoi.simps) (auto split: option.splits)
    then show ?thesis using 1(3) by (simp add: scans_refl)
  qed
qed

lemma fmt_flags_scans:
  "fmt_flags m f fl = Some (f', fl') \<Longrightarrow> f < z \<Longrightarrow> m ! z = 0 \<Longrightarrow> scans m z (f + 1) f'"
proof (induction m f fl rule: fmt_flags.induct)
  case (1 m f fl)
  have len: "f + 1 < length m" using 1(2) by (subst (asm) fmt_flags.simps) (auto split: option.splits)
  show ?case
  proof (cases "flag_char (m ! (f + 1)) = 0")
    case True
    then have "f' = f + 1" using 1(2) len by (subst (asm) fmt_flags.simps) auto
    then show ?thesis using 1(3) by (simp add: scans_refl)
  next
    case False
    then have "spec_char (m ! (f + 1))" by (simp add: spec_char_def)
    then have st: "scans m z (f + 1) (f + 1 + 1)" using 1(3,4) by (intro scans_step) auto
    have "fmt_flags m (f + 1) (fl OR flag_char (m ! (f + 1))) = Some (f', fl')"
      using 1(2) len False by (subst (asm) fmt_flags.simps) auto
    then have "scans m z (f + 1 + 1) f'" using 1(1)[of "m ! (f + 1)"] 1(4) st False len by (simp add: scans_def)
    then show ?thesis using st scans_trans by blast
  qed
qed

lemma spec_char_at: "m ! f \<in> {0x2A, 0x2E, 0x68, 0x6C, 0x4C, 0x5A, 0x7A, 0x74} \<Longrightarrow> spec_char (m ! f)"
  by (simp add: spec_char_def)

lemma fmt_width_scans:
  "fmt_width m f fl args = Some (w, fl', f', args') \<Longrightarrow> f \<le> z \<Longrightarrow> m ! z = 0 \<Longrightarrow> scans m z f f'"
  by (auto simp: fmt_width_def scans_refl split: Option.bind_splits if_splits
      dest: skip_atoi_scans intro!: scans_step[simplified] spec_char_at)

lemma fmt_precision_scans:
  assumes "fmt_precision m f args = Some (p, f', args')" "f \<le> z" "m ! z = 0"
  shows "scans m z f f'"
proof (cases "m ! f = 0x2E")
  case True
  then have s1: "scans m z f (f + 1)" using assms by (intro scans_step spec_char_at) auto
  then have le: "f + 1 \<le> z" by (simp add: scans_def)
  have "scans m z (f + 1) f'"
  proof (cases "is_digit (m ! (f + 1))")
    case True
    then obtain q where "skip_atoi m (f + 1) 0 = Some (q, f')"
      using assms(1) \<open>m ! f = 0x2E\<close> by (auto simp: fmt_precision_def split: Option.bind_splits)
    then show ?thesis using skip_atoi_scans le assms(3) by blast
  next
    case False
    then have "f' = f + 1 \<or> f' = f + 1 + 1 \<and> m ! (f + 1) = 0x2A"
      using assms(1) \<open>m ! f = 0x2E\<close> by (auto simp: fmt_precision_def split: Option.bind_splits if_splits)
    then show ?thesis using le assms(3) scans_refl scans_step[OF le assms(3)] spec_char_at[of m "f + 1"] by auto
  qed
  then show ?thesis using s1 scans_trans by blast
next
  case False
  then show ?thesis using assms by (auto simp: fmt_precision_def scans_refl split: Option.bind_splits)
qed

lemma fmt_qualifier_scans:
  assumes "fmt_qualifier m f = Some (q, f')" "f \<le> z" "m ! z = 0"
  shows "scans m z f f'"
proof (cases "m ! f \<in> {0x68, 0x6C, 0x4C, 0x5A, 0x7A, 0x74}")
  case True
  then have s1: "scans m z f (f + 1)" using assms by (intro scans_step spec_char_at) auto
  then have le: "f + 1 \<le> z" by (simp add: scans_def)
  have "f' = f + 1 \<or> f' = f + 1 + 1 \<and> m ! (f + 1) = 0x6C"
    using assms(1) True by (auto simp: fmt_qualifier_def split: Option.bind_splits if_splits)
  then have "scans m z (f + 1) f'"
    using le assms(3) scans_refl scans_step[OF le assms(3)] spec_char_at[of m "f + 1"] by auto
  then show ?thesis using s1 scans_trans by blast
next
  case False
  then show ?thesis using assms by (auto simp: fmt_qualifier_def scans_refl split: Option.bind_splits if_splits)
qed

lemma skip_alnum_bounds: "skip_alnum m f = Some f' \<Longrightarrow> f < z \<Longrightarrow> m ! z = 0 \<Longrightarrow> f \<le> f' \<and> f' < z"
proof (induction m f rule: skip_alnum.induct)
  case (1 m f)
  have z: "\<not> isalnum 0" by (simp add: isalnum_def ismask_def ctype_table_def)
  have len: "f + 1 < length m" using 1(2) by (subst (asm) skip_alnum.simps) (auto split: option.splits)
  show ?case
  proof (cases "isalnum (m ! (f + 1))")
    case True
    then have "f + 1 \<noteq> z" using z 1(4) by auto
    moreover have "skip_alnum m (f + 1) = Some f'" using 1(2) len True by (subst (asm) skip_alnum.simps) auto
    ultimately show ?thesis using 1(1)[of "m ! (f + 1)"] 1(3,4) True len by auto
  next
    case False
    then show ?thesis using 1(2,3) len by (subst (asm) skip_alnum.simps) auto
  qed
qed

section \<open>One conversion\<close>

text \<open>A store through \<open>%n\<close> is the only write that may miss the buffer.\<close>

lemma keeps_out_triple: "keeps_out e out fst (Some (out, f, args))"
  by (simp add: keeps_out_def)

lemma fmt_convert_keeps:
  assumes "fst out ! fmt \<noteq> 0x6E"
  shows "keeps_out e out fst (fmt_convert e buf out fmt args flags fw precision qualifier)"
proof -
  have num: "keeps_out e out fst (do {
      (num, args) \<leftarrow> fmt_number qualifier fl args;
      out \<leftarrow> number e out num base fw precision fl;
      Some (out, fmt, args)
    })" for base fl
    by (intro keeps_out_pure_pair keeps_out_bind_id number_keeps keeps_out_triple)
  have "keeps_out e out fst (fmt_convert e buf out fmt args flags fw precision qualifier)"
    if c: "arr_get (fst out) fmt = Some c" for c
  proof -
    have "c \<noteq> 0x6E" using c assms by simp
    then show ?thesis
      unfolding fmt_convert_def Let_def c Option.bind.bind_lunit
      by (simp only: if_False)
        (intro num keeps_out_rules keeps_out_triple vs_string_keeps pointer_keeps; simp add: keeps_out_def)
  qed
  then show ?thesis
    by (cases "arr_get (fst out) fmt") (auto simp: fmt_convert_def keeps_out_def simp del: arr_get_Some)
qed

lemma fmt_convert_length:
  assumes "fmt_convert e buf out fmt args flags fw precision qualifier = Some (out', fmt', args')"
  shows "length (fst out') = length (fst out)" and "snd out \<le> snd out'"
proof -
  have "length (fst out') = length (fst out) \<and> snd out \<le> snd out'"
  proof (cases "fst out ! fmt = 0x6E")
    case True
    then have "arr_get (fst out) fmt = Some 0x6E"
      using assms by (cases "arr_get (fst out) fmt") (auto simp: fmt_convert_def simp del: arr_get_Some, simp)
    then obtain w m where "store32 (fst out) w (word_of_nat (snd out - buf)) = Some m" "out' = (m, snd out)"
      using assms by (auto simp: fmt_convert_def split: Option.bind_splits simp del: arr_get_Some)
    then show ?thesis by (auto simp: store32_def arr_set_def split: Option.bind_splits if_splits)
  next
    case False
    then show ?thesis
      using fmt_convert_keeps[OF False, of e buf args flags fw precision qualifier] assms by (simp add: keeps_out_def out_ok_def)
  qed
  then show "length (fst out') = length (fst out)" "snd out \<le> snd out'" by simp_all
qed

definition retf :: "('f \<Rightarrow> bool) \<Rightarrow> ('o \<times> 'f \<times> 'a) option \<Rightarrow> bool" where
  "retf P r \<longleftrightarrow> (\<forall>x f a. r = Some (x, f, a) \<longrightarrow> P f)"

lemma retf_rules:
  "(\<And>x. r0 = Some x \<Longrightarrow> retf P (k x)) \<Longrightarrow> retf P (r0 \<bind> k)"
  "(\<And>a b. y = (a, b) \<Longrightarrow> retf P (f a b)) \<Longrightarrow> retf P (case y of (a, b) \<Rightarrow> f a b)"
  "(b \<Longrightarrow> retf P r) \<Longrightarrow> (\<not> b \<Longrightarrow> retf P r') \<Longrightarrow> retf P (if b then r else r')"
  "P g \<Longrightarrow> retf P (Some (u, g, v))"
  by (auto simp: retf_def split: Option.bind_splits prod.splits)

lemma fmt_convert_fmt:
  "retf (\<lambda>f. if fst out ! fmt = 0 then f = fmt - 1 else if fst out ! fmt = 0x70 then \<exists>m'. skip_alnum m' fmt = Some f else f = fmt)
     (fmt_convert e buf out fmt args flags fw precision qualifier)"
  unfolding fmt_convert_def Let_def by (intro retf_rules) auto

lemma skip_alnum_le: "skip_alnum m f = Some f' \<Longrightarrow> f \<le> f'"
proof (induction m f rule: skip_alnum.induct)
  case (1 m f)
  then show ?case by (subst (asm) (2) skip_alnum.simps) (force split: option.splits if_splits)
qed

section \<open>The loop over the format\<close>

lemma skip_atoi_le: "skip_atoi m s i = Some (n, s') \<Longrightarrow> s \<le> s'"
proof (induction m s i rule: skip_atoi.induct)
  case (1 m s i)
  then show ?case by (subst (asm) (2) skip_atoi.simps) (force split: option.splits if_splits)
qed

lemma fmt_flags_less: "fmt_flags m f fl = Some (f', fl') \<Longrightarrow> f < f'"
proof (induction m f fl rule: fmt_flags.induct)
  case (1 m f fl)
  then show ?case by (subst (asm) (2) fmt_flags.simps) (force split: option.splits if_splits)
qed

lemma fmt_fields_le:
  "fmt_width m f fl args = Some (w, fl', f', args') \<Longrightarrow> f \<le> f'"
  "fmt_precision m f args = Some (p, f', args') \<Longrightarrow> f \<le> f'"
  "fmt_qualifier m f = Some (q, f') \<Longrightarrow> f \<le> f'"
  by (auto simp: fmt_width_def fmt_precision_def fmt_qualifier_def split: Option.bind_splits if_splits dest!: skip_atoi_le)

lemma vsn_step_percent:
  assumes "vsn_step e buf out fmt 0x25 args = Some (out', fmt', args')"
  obtains f1 fl f2 fl2 fw args2 p f3 args3 q f4 where
    "fmt_flags (fst out) fmt 0 = Some (f1, fl)" "fmt_width (fst out) f1 fl args = Some (fw, fl2, f2, args2)"
    "fmt_precision (fst out) f2 args2 = Some (p, f3, args3)" "fmt_qualifier (fst out) f3 = Some (q, f4)"
    "fmt_convert e buf out f4 args3 fl2 fw p q = Some (out', fmt', args')"
  using assms by (auto simp: vsn_step_def split: Option.bind_splits)

lemma vsn_step_progress:
  assumes "vsn_step e buf out fmt c args = Some (out', fmt', args')"
  shows "length (fst out') = length (fst out)" and "fmt \<le> fmt'"
proof -
  have "length (fst out') = length (fst out) \<and> fmt \<le> fmt'"
  proof (cases "c = 0x25")
    case True
    with assms obtain f1 fl f2 fl2 fw args2 p f3 args3 q f4 where s:
      "fmt_flags (fst out) fmt 0 = Some (f1, fl)" "fmt_width (fst out) f1 fl args = Some (fw, fl2, f2, args2)"
      "fmt_precision (fst out) f2 args2 = Some (p, f3, args3)" "fmt_qualifier (fst out) f3 = Some (q, f4)"
      "fmt_convert e buf out f4 args3 fl2 fw p q = Some (out', fmt', args')"
      by (auto elim: vsn_step_percent)
    have "fmt < f4" using fmt_flags_less[OF s(1)] fmt_fields_le(1)[OF s(2)]
      fmt_fields_le(2)[OF s(3)] fmt_fields_le(3)[OF s(4)] by linarith
    moreover have "f4 - 1 \<le> fmt'"
      using fmt_convert_fmt[of out f4 e buf args3 fl2 fw p q] s(5) by (auto simp: retf_def split: if_splits dest: skip_alnum_le)
    ultimately show ?thesis using fmt_convert_length[OF s(5)] by auto
  next
    case False
    then show ?thesis using assms
      by (auto simp: vsn_step_def split: Option.bind_splits dest!: ADDCH_ok simp: out_ok_def)
  qed
  then show "length (fst out') = length (fst out)" "fmt \<le> fmt'" by simp_all
qed

function vsn_loop :: "nat \<Rightarrow> nat \<Rightarrow> out \<Rightarrow> nat \<Rightarrow> va_item list \<Rightarrow> out option" where
  "vsn_loop e buf out fmt args =
     (case arr_get (fst out) fmt of
        None \<Rightarrow> None
      | Some c \<Rightarrow>
          (if c = 0 then Some out
           else case vsn_step e buf out fmt c args of
                  None \<Rightarrow> None
                | Some (out', fmt', args') \<Rightarrow> vsn_loop e buf out' (fmt' + 1) args'))"
  by pat_completeness auto
termination
proof (relation "measure (\<lambda>(e, buf, out, fmt, args). length (fst out) - fmt)")
  fix e buf :: nat and out :: out and fmt args c r out' r2 fmt' args'
  assume "arr_get (fst out) fmt = Some c" and "vsn_step e buf out fmt c args = Some r" "(out', r2) = r" "(fmt', args') = r2"
  then have "fmt < length (fst out)" "length (fst out') = length (fst out)" "fmt \<le> fmt'"
    using vsn_step_progress[of e buf out fmt c args out' fmt' args'] by auto
  then show "((e, buf, out', fmt' + 1, args'), e, buf, out, fmt, args) \<in> measure (\<lambda>(e, buf, out, fmt, args). length (fst out) - fmt)"
    by simp
qed simp

declare vsn_loop.simps [simp del]

definition vsnprintf_internal :: "mem \<Rightarrow> nat \<Rightarrow> nat \<Rightarrow> nat \<Rightarrow> va_item list \<Rightarrow> (nat \<times> mem) option" where
  "vsnprintf_internal m buf sz fmt args =
     (let (e, sz) = (if buf + sz \<ge> 2 ^ 32 then (2 ^ 32 - 1, 2 ^ 32 - 1 - buf) else (buf + sz, sz))
      in do {
        (m, str) \<leftarrow> vsn_loop e buf (m, buf) fmt args;
        if sz > 0 then do {
          (m, str) \<leftarrow> ADDCH e (m, str) 0;
          m \<leftarrow> (if str > e then arr_set m (e - 1) 0 else Some m);
          Some (str - 1 - buf, m)
        } else Some (str - buf, m)
      })"

definition vsnprintf :: "mem \<Rightarrow> nat \<Rightarrow> nat \<Rightarrow> nat \<Rightarrow> va_item list \<Rightarrow> (nat \<times> mem) option" where
  "vsnprintf m buf sz fmt args = vsnprintf_internal m buf sz fmt args"

definition vscnprintf :: "mem \<Rightarrow> nat \<Rightarrow> nat \<Rightarrow> nat \<Rightarrow> va_item list \<Rightarrow> (nat \<times> mem) option" where
  "vscnprintf m buf sz fmt args = do {
     (i, m) \<leftarrow> vsnprintf m buf sz fmt args;
     Some (if i < sz then i else if sz \<noteq> 0 then sz - 1 else 0, m)
   }"

definition snprintf :: "mem \<Rightarrow> nat \<Rightarrow> nat \<Rightarrow> nat \<Rightarrow> va_item list \<Rightarrow> (nat \<times> mem) option" where
  "snprintf m buf sz fmt args = vsnprintf m buf sz fmt args"

definition scnprintf :: "mem \<Rightarrow> nat \<Rightarrow> nat \<Rightarrow> nat \<Rightarrow> va_item list \<Rightarrow> (nat \<times> mem) option" where
  "scnprintf m buf sz fmt args = vscnprintf m buf sz fmt args"

definition vsprintf :: "mem \<Rightarrow> nat \<Rightarrow> nat \<Rightarrow> va_item list \<Rightarrow> (nat \<times> mem) option" where
  "vsprintf m buf fmt args = vsnprintf_internal m buf (2 ^ 31 - 1) fmt args"

definition sprintf :: "mem \<Rightarrow> nat \<Rightarrow> nat \<Rightarrow> va_item list \<Rightarrow> (nat \<times> mem) option" where
  "sprintf m buf fmt args = vsprintf m buf fmt args"

text \<open>\<open>simple_itoa\<close>: the digits that its static buffer holds in front of the NUL.\<close>

function simple_itoa_loop :: "u32 \<Rightarrow> u8 list \<Rightarrow> u8 list" where
  "simple_itoa_loop i p =
     (let p' = ucast (0x30 + i mod 10) # p; i' = i div 10 in if i' > 0 then simple_itoa_loop i' p' else p')"
  by pat_completeness auto
termination
  by (relation "measure (\<lambda>(i, p). unat i)") (auto simp: unat_div_distrib word_less_nat_alt)

declare simple_itoa_loop.simps [simp del]

definition simple_itoa :: "u32 \<Rightarrow> u8 list" where
  "simple_itoa i = simple_itoa_loop i []"

section \<open>Formats without \<open>%n\<close>\<close>

text \<open>A format stores through a pointer argument only where a percent sign is followed by
  specification characters and an \<open>n\<close>.\<close>

fun stores_count :: "u8 list \<Rightarrow> bool" where
  "stores_count [] = False"
| "stores_count (c # cs) \<longleftrightarrow>
     c = 0x25 \<and> (case dropWhile spec_char cs of [] \<Rightarrow> False | d # _ \<Rightarrow> d = 0x6E) \<or> stores_count cs"

lemma stores_count_drop: "stores_count (drop k cs) \<Longrightarrow> stores_count cs"
proof (induction cs arbitrary: k)
  case (Cons c cs)
  then show ?case by (cases k) auto
qed simp

lemma stores_countI:
  assumes "cs \<noteq> []" "hd cs = 0x25" "j < length cs" "0 < j" "cs ! j = 0x6E" "\<forall>k. 0 < k \<and> k < j \<longrightarrow> spec_char (cs ! k)"
  shows "stores_count cs"
proof -
  obtain ds where ds: "cs = 0x25 # ds" using assms(1,2) by (cases cs) auto
  have run: "\<forall>x\<in>set (take (j - 1) ds). spec_char x"
  proof
    fix x assume "x \<in> set (take (j - 1) ds)"
    then obtain i where i: "i < j - 1" "x = ds ! i" by (auto simp: in_set_conv_nth)
    then show "spec_char x" using assms(6)[rule_format, of "Suc i"] ds by simp
  qed
  have "ds = take (j - 1) ds @ 0x6E # drop j ds"
    using assms(3-5) ds id_take_nth_drop[of "j - 1" ds] by (cases j) auto
  then have "dropWhile spec_char ds = 0x6E # drop j ds"
    using run dropWhile_append2[of "take (j - 1) ds" spec_char "0x6E # drop j ds"] by (metis dropWhile.simps(2) spec_char_not(2))
  then show ?thesis by (simp add: ds)
qed

lemma vsn_step_frame:
  assumes step: "vsn_step e buf out fmt c args = Some (out', fmt', args')"
    and cs: "cstring (fst out) fmt cs" "cs \<noteq> []" "c = hd cs" and no_n: "\<not> stores_count cs"
  shows "out_ok e out out'" and "fst out ! (fmt + length cs) = 0"
    and "cstring (fst out') fmt cs \<Longrightarrow> fmt' < fmt + length cs"
proof -
  let ?m = "fst out" and ?z = "fmt + length cs"
  show z: "?m ! ?z = 0" by (rule cstring_end[OF cs(1)])
  have "out_ok e out out' \<and> (cstring (fst out') fmt cs \<longrightarrow> fmt' < ?z)"
  proof (cases "c = 0x25")
    case False
    then show ?thesis using step cs(2) by (auto simp: vsn_step_def split: Option.bind_splits dest!: ADDCH_ok)
  next
    case True
    with step obtain f1 fl f2 fl2 fw args2 p f3 args3 q f4 where s:
      "fmt_flags ?m fmt 0 = Some (f1, fl)" "fmt_width ?m f1 fl args = Some (fw, fl2, f2, args2)"
      "fmt_precision ?m f2 args2 = Some (p, f3, args3)" "fmt_qualifier ?m f3 = Some (q, f4)"
      "fmt_convert e buf out f4 args3 fl2 fw p q = Some (out', fmt', args')"
      by (auto elim: vsn_step_percent)
    have lt: "fmt < ?z" using cs(2) by simp
    have "scans ?m ?z (fmt + 1) f1" using fmt_flags_scans[OF s(1) lt z] .
    moreover from this have "scans ?m ?z f1 f2" using fmt_width_scans[OF s(2) _ z] by (simp add: scans_def)
    moreover from this have "scans ?m ?z f2 f3" using fmt_precision_scans[OF s(3) _ z] by (simp add: scans_def)
    moreover from this have "scans ?m ?z f3 f4" using fmt_qualifier_scans[OF s(4) _ z] by (simp add: scans_def)
    ultimately have sc: "scans ?m ?z (fmt + 1) f4" using scans_trans by blast
    have not_n: "?m ! f4 \<noteq> 0x6E"
    proof
      assume n: "?m ! f4 = 0x6E"
      then have "f4 \<noteq> ?z" using z by auto
      then have f4: "fmt < f4" "f4 < ?z" using sc by (auto simp: scans_def)
      have nth: "cs ! k = ?m ! (fmt + k)" if "k < length cs" for k using cstring_nth[OF cs(1) that] by simp
      have "stores_count cs"
      proof (rule stores_countI[where j = "f4 - fmt"])
        show "\<forall>k. 0 < k \<and> k < f4 - fmt \<longrightarrow> spec_char (cs ! k)"
          using sc f4 nth by (auto simp: scans_def)
      qed (use cs(2,3) True f4 nth n in auto)
      then show False using no_n by simp
    qed
    have ok: "out_ok e out out'"
      using fmt_convert_keeps[OF not_n, of e buf args3 fl2 fw p q] s(5) by (simp add: keeps_out_def)
    have "fmt' < ?z" if cs': "cstring (fst out') fmt cs"
    proof (cases "?m ! f4 = 0x70")
      case True
      have z': "fst out' ! ?z = 0" by (rule cstring_end[OF cs'])
      have "f4 < ?z" using True sc z by (cases "f4 = ?z") (auto simp: scans_def)
      have "skip_alnum (fst out') f4 = Some fmt'"
        using s(5) True by (auto simp: fmt_convert_def split: Option.bind_splits)
      then show ?thesis using skip_alnum_bounds \<open>f4 < ?z\<close> z' by blast
    next
      case False
      have "f4 \<le> ?z" "fmt < f4" using sc by (auto simp: scans_def)
      moreover have "f4 \<noteq> ?z" if "?m ! f4 \<noteq> 0" using that z by auto
      moreover have "if ?m ! f4 = 0 then fmt' = f4 - 1 else fmt' = f4"
        using fmt_convert_fmt[of out f4 e buf args3 fl2 fw p q] s(5) False by (auto simp: retf_def split: if_splits)
      ultimately show ?thesis by (auto split: if_splits)
    qed
    then show ?thesis using ok by blast
  qed
  then show "out_ok e out out'" "cstring (fst out') fmt cs \<Longrightarrow> fmt' < ?z" by blast+
qed

lemma vsn_loop_frame:
  "vsn_loop e buf out fmt args = Some out' \<Longrightarrow> cstring (fst out) fmt cs \<Longrightarrow> \<not> stores_count cs \<Longrightarrow>
     fmt + length cs < buf \<or> e \<le> fmt \<Longrightarrow> buf \<le> snd out \<Longrightarrow> out_ok e out out'"
proof (induction e buf out fmt args arbitrary: cs rule: vsn_loop.induct)
  case (1 e buf out fmt args)
  show ?case
  proof (cases cs)
    case Nil
    then show ?thesis using 1(2,3) by (subst (asm) vsn_loop.simps) auto
  next
    case (Cons c ds)
    have get: "arr_get (fst out) fmt = Some c" "c \<noteq> 0" using 1(3) Cons by auto
    obtain o1 f1 args1 where st: "vsn_step e buf out fmt c args = Some (o1, f1, args1)"
      "vsn_loop e buf o1 (f1 + 1) args1 = Some out'"
      using 1(2) get by (subst (asm) vsn_loop.simps) (auto split: option.splits prod.splits simp del: arr_get_Some)
    have ne: "cs \<noteq> []" "c = hd cs" using Cons by auto
    note fr = vsn_step_frame[OF st(1) 1(3) ne 1(4)]
    have cs1: "cstring (fst o1) fmt cs"
    proof (rule cstring_frame[OF 1(3)])
      show "length (fst o1) = length (fst out)" using fr(1) by (simp add: out_ok_def)
      show "\<forall>i. fmt \<le> i \<and> i \<le> fmt + length cs \<longrightarrow> fst o1 ! i = fst out ! i"
        using fr(1) 1(5,6) by (auto simp: out_ok_def)
    qed
    have f1: "f1 < fmt + length cs" "fmt \<le> f1" using fr(3)[OF cs1] vsn_step_progress(2)[OF st(1)] by simp_all
    have "out_ok e o1 out'"
    proof (rule 1(1)[OF get(1) get(2) st(1) refl refl st(2)])
      show "cstring (fst o1) (f1 + 1) (drop (f1 + 1 - fmt) cs)"
        using cstring_drop[OF cs1, of "f1 + 1 - fmt"] f1 by simp
      show "\<not> stores_count (drop (f1 + 1 - fmt) cs)" using 1(4) stores_count_drop by blast
      show "f1 + 1 + length (drop (f1 + 1 - fmt) cs) < buf \<or> e \<le> f1 + 1" using 1(5) f1 by auto
      show "buf \<le> snd o1" using fr(1) 1(6) by (simp add: out_ok_def)
    qed
    then show ?thesis using fr(1) out_ok_trans by blast
  qed
qed

section \<open>The buffer is respected\<close>


definition sample_text :: mem where
  "sample_text = ascii ''v=%d'' @ [0, 0xFF, 0xFF, 0xFF, 0xFF, 0xFF, 0xFF, 0xFF, 0xFF, 0xFF]"

lemma sample_vsnprintf:
  "vsnprintf sample_text 8 4 0 [VA32 42] = Some (4, ascii ''v=%d'' @ [0, 0xFF, 0xFF, 0xFF] @ ascii ''v=4'' @ [0, 0xFF, 0xFF])"
proof -
  have "vsn_loop (8 + 4) 8 (sample_text, 8) 0 [VA32 42] =
    Some (ascii ''v=%d'' @ [0, 0xFF, 0xFF, 0xFF] @ ascii ''v=42'' @ [0xFF, 0xFF], 12)" by code_simp
  then show ?thesis by (simp add: vsnprintf_def vsnprintf_internal_def ADDCH_def ascii_def)
qed


section \<open>Printed numbers are read back\<close>

lemma digits_value_snoc: "digits_value b (ds @ [d]) = digits_value b ds * b + digit_nat d"
  by (simp add: digits_value_def)

lemma digits_value_single: "digits_value b [d] = digit_nat d"
  by (simp add: digits_value_def)

text \<open>A digit list whose \<open>i\<close>-th character, least significant first, has the value of the \<open>i\<close>-th digit.\<close>

lemma dec_char_digit:
  assumes "k < 10"
  shows "is_digit_of 10 (word_of_nat (k + 0x30)) \<and> digit_nat (word_of_nat (k + 0x30)) = k"
proof -
  have "k \<in> {0, 1, 2, 3, 4, 5, 6, 7, 8, 9}" using assms by auto
  then show ?thesis by (auto simp: is_digit_of_def isxdigit_iff digit_nat_def)
qed

lemma dec_digits_value:
  "digits_value 10 (rev (dec_digits n)) = n \<and> (\<forall>c\<in>set (dec_digits n). is_digit_of 10 c)"
proof (induction n rule: dec_digits.induct)
  case (1 n)
  show ?case
  proof (cases "n < 10")
    case True
    then show ?thesis using dec_char_digit[OF True] by (simp add: dec_digits.simps[of n] digits_value_single)
  next
    case False
    have c: "is_digit_of 10 (word_of_nat (n mod 10 + 0x30))" "digit_nat (word_of_nat (n mod 10 + 0x30)) = n mod 10"
      using dec_char_digit[of "n mod 10"] by simp_all
    have d: "dec_digits n = word_of_nat (n mod 10 + 0x30) # dec_digits (n div 10)" using False by (simp add: dec_digits.simps[of n])
    show ?thesis using c 1[OF False] unfolding d by (simp only: rev.simps digits_value_snoc list.set) auto
  qed
qed

lemma length_dec_digits: "n < 10 ^ Suc k \<Longrightarrow> length (dec_digits n) \<le> Suc k"
proof (induction k arbitrary: n)
  case 0
  then show ?case by (simp add: dec_digits.simps)
next
  case (Suc k)
  have "n div 10 < 10 ^ Suc k" using Suc.prems by (simp add: less_mult_imp_div_less mult.commute)
  then show ?case using Suc.IH[of "n div 10"] by (subst dec_digits.simps) auto
qed

lemma hex_char_digit:
  assumes "k < 16"
  shows "is_digit_of 16 (digits16 ! k OR 0x20) \<and> digit_nat (digits16 ! k OR 0x20) = k"
proof -
  have "\<forall>k\<in>set [0..<16]. is_digit_of 16 (digits16 ! k OR 0x20) \<and> digit_nat (digits16 ! k OR 0x20) = k" by code_simp
  then show ?thesis using assms by auto
qed

lemma pow_digits_hex:
  "pow_digits 16 0x20 num =
     (digits16 ! (unat num mod 16) OR 0x20) # (if unat num div 16 = 0 then [] else pow_digits 16 0x20 (drop_bit 4 num))"
proof -
  have "unat (ucast num AND 0xF :: u8) = unat num mod 16"
    by (simp add: unat_and_nibble unat_ucast_mod mod_mod_cancel)
  then show ?thesis by (subst pow_digits.simps) (simp add: Let_def unat_shiftr flip: unat_eq_zero)
qed

lemma hex_digits_value:
  "digits_value 16 (rev (pow_digits 16 0x20 num)) = unat num \<and> (\<forall>c\<in>set (pow_digits 16 0x20 num). is_digit_of 16 c)"
proof (induction "unat num" arbitrary: num rule: less_induct)
  case less
  let ?c = "digits16 ! (unat num mod 16) OR 0x20"
  have c: "is_digit_of 16 ?c" "digit_nat ?c = unat num mod 16" using hex_char_digit[of "unat num mod 16"] by simp_all
  show ?case
  proof (cases "unat num div 16 = 0")
    case True
    then show ?thesis using c by (simp add: pow_digits_hex[of num] digits_value_single div_eq_0_iff)
  next
    case False
    have q: "unat (drop_bit 4 num) = unat num div 16" by (simp add: unat_shiftr)
    have "unat (drop_bit 4 num) < unat num" using False unfolding q by (intro div_less_dividend) (auto intro: gr0I)
    note IH = less[OF this]
    have d: "pow_digits 16 0x20 num = ?c # pow_digits 16 0x20 (drop_bit 4 num)"
      using False by (simp only: pow_digits_hex[of num] if_False)
    show ?thesis using c IH q unfolding d by (simp only: rev.simps digits_value_snoc list.set) auto
  qed
qed

lemma length_hex_digits: "unat num < 16 ^ Suc k \<Longrightarrow> length (pow_digits 16 0x20 num) \<le> Suc k"
proof (induction k arbitrary: num)
  case 0
  then show ?case by (subst pow_digits_hex) (simp add: div_eq_0_iff)
next
  case (Suc k)
  have "unat (drop_bit 4 num) < 16 ^ Suc k" using Suc.prems by (simp add: unat_shiftr less_mult_imp_div_less mult.commute)
  then show ?case using Suc.IH[of "drop_bit 4 num"] by (subst pow_digits_hex) auto
qed

text \<open>A text of digits of a base, with the prefix that announces it.\<close>

lemma strto_parse_digits:
  assumes "ds \<noteq> []" "\<forall>c\<in>set ds. is_digit_of b c" "0 < b" "hd ds = 0x30 \<longrightarrow> length ds = 1"
  shows "strto_parse ds b = (digits_value b ds, length ds)"
proof -
  have tw: "takeWhile (is_digit_of b) ds = ds" using assms(2) by (simp add: takeWhile_eq_all_conv)
  show ?thesis
  proof (cases "hd ds = 0x30")
    case True
    then have "ds = [0x30]" using assms(1,4) by (cases ds) auto
    then show ?thesis using assms(3) by (simp add: strto_parse_def strto_base_def digits_value_def digit_nat_def)
  next
    case False
    then have "strto_base ds b = (0, b)" using assms(3) by (simp add: strto_base_def)
    then show ?thesis unfolding strto_parse_def by (simp only: Let_def split drop_0 tw add_0)
  qed
qed

lemma strto_parse_hex:
  assumes "ds \<noteq> []" "\<forall>c\<in>set ds. is_digit_of 16 c"
  shows "strto_parse (0x30 # 0x78 # ds) 0 = (digits_value 16 ds, 2 + length ds)"
proof -
  have tw: "takeWhile (is_digit_of 16) ds = ds" using assms(2) by (simp add: takeWhile_eq_all_conv)
  have "isxdigit (hd ds)" using assms by (cases ds) (auto simp: is_digit_of_def)
  then show ?thesis using assms(1) tw by (cases ds) (auto simp: strto_parse_def strto_base_def)
qed

lemma dec_digits_head: "0 < n \<Longrightarrow> last (dec_digits n) \<noteq> 0x30"
proof (induction n rule: dec_digits.induct)
  case (1 n)
  show ?case
  proof (cases "n < 10")
    case True
    then have "n \<in> {1, 2, 3, 4, 5, 6, 7, 8, 9}" using 1(2) by auto
    moreover have "dec_digits n = [word_of_nat (n + 0x30)]" using True by (subst dec_digits.simps) simp
    ultimately show ?thesis by auto
  next
    case False
    then have "dec_digits (n div 10) \<noteq> []" by (subst dec_digits.simps) simp
    then show ?thesis using False 1(1)[OF False] by (subst dec_digits.simps) (simp add: div_greater_zero_iff)
  qed
qed

lemma addchs_room:
  "str + length cs \<le> e \<Longrightarrow> e \<le> length m \<Longrightarrow> addchs e (m, str) cs = Some (blit m str cs, str + length cs)"
proof (induction cs arbitrary: m str)
  case (Cons c cs)
  then show ?case using blit_Cons[of str m cs c] by (simp add: ADDCH_def)
qed simp

lemma pad_none: "sz \<le> 0 \<Longrightarrow> pad e out sz c = Some (out, sz - 1)"
  by (subst pad.simps) simp

text \<open>With no field width and no precision a number is its sign, its prefix and its digits.\<close>

lemma number_plain:
  "number e out num 10 (- 1) (- 1) 0 = addchs e out (rev (number_digits num 10 0))"
  "number e out num 16 (- 1) (- 1) 0x60 = addchs e out (0x30 # 0x78 # rev (number_digits num 16 0x20))"
  by (auto simp: number_def Let_def pad_none split: Option.bind_splits)

lemma convert_ll:
  assumes "cstring m f [0x6C, 0x6C, c]" "c \<in> {0x75, 0x78}"
  shows "fmt_width m f flags args = Some (- 1, flags, f, args)" "fmt_precision m f args = Some (- 1, f, args)"
    "fmt_qualifier m f = Some (0x4C, Suc (Suc f))"
    "fmt_convert e buf (m, str) (Suc (Suc f)) [VA64 num] flags (- 1) (- 1) 0x4C =
      map_option (\<lambda>out. (out, Suc (Suc f), []))
        (number e (m, str) num (if c = 0x78 then 16 else 10) (- 1) (- 1) (if c = 0x78 then flags OR SMALL else flags))"
proof -
  have at: "m ! f = 0x6C" "m ! Suc f = 0x6C" "m ! Suc (Suc f) = c" "f < length m" "Suc f < length m" "Suc (Suc f) < length m"
    using assms(1) by auto
  show "fmt_width m f flags args = Some (- 1, flags, f, args)" using at by (simp add: fmt_width_def is_digit_def)
  show "fmt_precision m f args = Some (- 1, f, args)" using at by (simp add: fmt_precision_def)
  show "fmt_qualifier m f = Some (0x4C, Suc (Suc f))" using at by (simp add: fmt_qualifier_def)
  have n: "fmt_number 0x4C fl [VA64 num] = Some (num, [])" for fl by (simp add: fmt_number_def)
  show "fmt_convert e buf (m, str) (Suc (Suc f)) [VA64 num] flags (- 1) (- 1) 0x4C =
      map_option (\<lambda>out. (out, Suc (Suc f), []))
        (number e (m, str) num (if c = 0x78 then 16 else 10) (- 1) (- 1) (if c = 0x78 then flags OR SMALL else flags))"
    using at(3,6) assms(2) by (auto simp: fmt_convert_def n map_conv_bind_option comp_def)
qed

lemma plain_format:
  assumes "cstring m fmt (0x25 # pre @ [0x6C, 0x6C, c])" and "(pre, c) \<in> {([], 0x75), ([0x23], 0x78)}"
  shows "vsn_step e buf (m, str) fmt 0x25 [VA64 num] =
    map_option (\<lambda>out. (out, Suc (Suc (Suc (fmt + length pre))), []))
      (addchs e (m, str) (if c = 0x78 then 0x30 # 0x78 # rev (number_digits num 16 0x20) else rev (number_digits num 10 0)))"
proof -
  have c: "c \<in> {0x75, 0x78}" using assms(2) by auto
  have fl: "fmt_flags m fmt 0 = Some (Suc (fmt + length pre), if c = 0x78 then SPECIAL else 0)"
    using assms by (auto simp: fmt_flags.simps[of m fmt] fmt_flags.simps[of m "Suc fmt"] flag_char_def)
  have cs: "cstring m (Suc (fmt + length pre)) [0x6C, 0x6C, c]" using assms by auto
  show ?thesis
    using assms(2) by (auto simp: vsn_step_def fl convert_ll[OF cs c] number_plain[simplified] number_plain)
qed

lemma number_text:
  fixes num :: u64
  defines "dec \<equiv> rev (number_digits num 10 0)" and "hex \<equiv> 0x30 # 0x78 # rev (number_digits num 16 0x20)"
  shows "strto_parse dec 10 = (unat num, length dec)" "length dec \<le> 20" "0 \<notin> set dec"
    and "strto_parse hex 0 = (unat num, length hex)" "length hex \<le> 20" "0 \<notin> set hex"
proof -
  have zero: "\<not> is_digit_of b 0" for b by (simp add: is_digit_of_def isxdigit_iff)
  have dec: "dec = rev (dec_digits (unat num))"
    by (auto simp: dec_def number_digits_def put_dec_dec_digits dec_digits.simps[of 0])
  have lt: "unat num < 10 ^ Suc 19" "unat num < 16 ^ Suc 15"
    using unsigned_less[of num, where ?'a = nat] by simp_all
  have ne: "dec_digits (unat num) \<noteq> []" by (subst dec_digits.simps) simp
  have "hd dec = 0x30 \<longrightarrow> length dec = 1"
  proof
    assume h: "hd dec = 0x30"
    then have "unat num = 0" using dec_digits_head[of "unat num"] ne by (auto simp: dec hd_rev)
    then show "length dec = 1" by (simp add: dec dec_digits.simps[of 0])
  qed
  then show "strto_parse dec 10 = (unat num, length dec)"
    using strto_parse_digits[of dec 10] dec_digits_value[of "unat num"] ne by (simp add: dec)
  show "length dec \<le> 20" using length_dec_digits[OF lt(1)] by (simp add: dec)
  show "0 \<notin> set dec" using dec_digits_value[of "unat num"] zero by (auto simp: dec)
  define ds where "ds = rev (pow_digits 16 0x20 num)"
  have hex: "hex = 0x30 # 0x78 # ds"
    by (auto simp: hex_def ds_def number_digits_def pow_digits_hex[of 0] digits16_def ascii_def)
  have ds: "digits_value 16 ds = unat num" "\<forall>c\<in>set ds. is_digit_of 16 c" "ds \<noteq> []" "length ds \<le> 16"
    using hex_digits_value[of num] length_hex_digits[OF lt(2)] pow_digits_hex[of num] by (auto simp: ds_def)
  show "strto_parse hex 0 = (unat num, length hex)" using strto_parse_hex[OF ds(3,2)] ds(1) by (simp add: hex)
  show "length hex \<le> 20" using ds(4) by (simp add: hex)
  show "0 \<notin> set hex" using ds(2) zero by (auto simp: hex)
qed

lemma vsn_loop_one:
  assumes cs: "cstring m fmt (0x25 # pre @ [0x6C, 0x6C, c])" and pc: "(pre, c) \<in> {([], 0x75), ([0x23], 0x78)}"
    and T: "T = (if c = 0x78 then 0x30 # 0x78 # rev (number_digits num 16 0x20) else rev (number_digits num 10 0))"
    and room: "str + length T \<le> e" "e \<le> length m" and apart: "fmt + length pre + 4 < str \<or> e \<le> fmt"
  shows "vsn_loop e buf (m, str) fmt [VA64 num] = Some (blit m str T, str + length T)"
proof -
  let ?f = "Suc (Suc (Suc (fmt + length pre)))"
  have st: "vsn_step e buf (m, str) fmt 0x25 [VA64 num] = Some ((blit m str T, str + length T), ?f, [])"
    using plain_format[OF cs pc, of e buf str num] addchs_room[OF room] unfolding T[symmetric] by simp
  have z: "m ! (?f + 1) = 0" and len: "?f + 1 < length m"
    using cstring_end[OF cs] cstring_bound[OF cs] by simp_all
  have "arr_get (blit m str T) (?f + 1) = Some 0"
    using z len room apart by (auto simp: nth_blit arr_get_def)
  then have "vsn_loop e buf (blit m str T, str + length T) (?f + 1) [] = Some (blit m str T, str + length T)"
    by (subst vsn_loop.simps) (simp del: arr_get_Some)
  moreover have "arr_get m fmt = Some 0x25" using cs by simp
  ultimately show ?thesis using st by (subst vsn_loop.simps) (simp del: arr_get_Some)
qed

text \<open>C31: printing and parsing agree. A 64-bit number printed with \<open>snprintf\<close> in decimal (\<open>%llu\<close>) or in
  hexadecimal with its prefix (\<open>%#llx\<close>) into a buffer of at least 21 bytes is read back unchanged by
  \<open>simple_strtoull\<close> with base 10 and base 0, and the parser stops at the end of the printed text.
  This covers the multiply-and-shift decimal conversion and its use of \<open>do_div\<close>.\<close>

theorem snprintf_strtoull_roundtrip:
  assumes "cstring m fmt (ascii f)" and "(f, base) \<in> {(''%llu'', 10), (''%#llx'', 0)}"
    and "fmt + length f < buf \<or> buf + sz \<le> fmt" and "20 < sz" and "buf + sz \<le> length m" and "length m < 2 ^ 32"
  shows "\<exists>r m'. snprintf m buf sz fmt [VA64 num] = Some (r, m') \<and> simple_strtoull m' buf base = Some (num, buf + r)"
proof -
  obtain pre c where pc: "(pre, c) \<in> {([], 0x75), ([0x23], 0x78)}" "ascii f = 0x25 # pre @ [0x6C, 0x6C, c]"
    "base = (if c = 0x78 then 0 else 10)" "length f = length pre + 4"
    using assms(2) by (auto simp: ascii_def)
  define T where "T = (if c = 0x78 then 0x30 # 0x78 # rev (number_digits num 16 0x20) else rev (number_digits num 10 0))"
  have T: "strto_parse T (unat base) = (unat num, length T)" "length T \<le> 20" "0 \<notin> set T"
    using number_text[of num] pc(3) unfolding T_def by auto
  have loop: "vsn_loop (buf + sz) buf (m, buf) fmt [VA64 num] = Some (blit m buf T, buf + length T)"
    using assms(1,3-5) pc T(2) by (intro vsn_loop_one[OF _ pc(1) T_def]) auto
  have m': "(blit m buf T)[buf + length T := 0] = blit m buf (T @ [0])"
    using assms(4,5) T(2) blit_Cons[of "buf + length T" "blit m buf T" "[]" 0] blit_blit[of buf T "[0]" m] by simp
  have "snprintf m buf sz fmt [VA64 num] = Some (length T, blit m buf (T @ [0]))"
    using loop m' assms(4-6) T(2) by (simp add: snprintf_def vsnprintf_def vsnprintf_internal_def ADDCH_def)
  moreover have "cstring (blit m buf (T @ [0])) buf T"
    using cstring_blit[of buf T m] assms(4,5) T(2,3) by simp
  then have "simple_strtoull (blit m buf (T @ [0])) buf base = Some (num, buf + length T)"
    using simple_strtoull_cstring T(1) by simp
  ultimately show ?thesis by blast
qed

theorem snprintf_strtoull_roundtrip_witness:
  "\<exists>r m'. snprintf (ascii ''%#llx'' @ replicate 30 0) 8 21 0 [VA64 0xDEADBEEF] = Some (r, m') \<and>
     simple_strtoull m' 8 0 = Some (0xDEADBEEF, 8 + r)"
proof -
  have "cstring (ascii ''%#llx'' @ replicate 30 0) 0 (ascii ''%#llx'')" by (simp add: ascii_def)
  from snprintf_strtoull_roundtrip[OF this, of 0 8 21 "0xDEADBEEF"] show ?thesis by (simp add: ascii_def)
qed

lemma simple_itoa_loop_digits: "simple_itoa_loop i p = rev (dec_digits (unat i)) @ p"
proof (induction i p rule: simple_itoa_loop.induct)
  case (1 i p)
  have "unat (i mod 10) = unat i mod 10" by (simp add: unat_mod_distrib)
  then have c: "(ucast (0x30 + i mod 10) :: u8) = word_of_nat (unat i mod 10 + 0x30)"
    using dec_char_nat[of "i mod 10" "unat i mod 10"] by (simp add: dec_char_def add.commute)
  have q: "unat (i div 10) = unat i div 10" by (simp add: unat_div_distrib)
  show ?case
  proof (cases "i div 10 > 0")
    case True
    then have "unat i div 10 \<noteq> 0" using q by (simp add: word_less_nat_alt)
    then show ?thesis using 1[OF refl refl True] True c q
      by (subst simple_itoa_loop.simps, subst dec_digits_step) simp
  next
    case False
    then have "unat i div 10 = 0" using q by (simp add: word_less_nat_alt)
    then show ?thesis using False c by (subst simple_itoa_loop.simps, subst dec_digits_step) simp
  qed
qed

lemma simple_itoa_correct: "simple_itoa i = rev (dec_digits (unat i)) \<and> digits_value 10 (simple_itoa i) = unat i"
  by (simp add: simple_itoa_def simple_itoa_loop_digits dec_digits_value)

end
