(* ===== verification/Aes.thy ===== *)
theory Aes
  imports Cstring
begin

text \<open>
  AES with 128-bit keys in CBC mode, \<open>lib/aes.c\<close>: the tables, the combined substitution, row and
  column steps, the key schedule, encryption and decryption of one block, and the two CBC routines.
  The cipher state and the expanded key are byte lists, the local arrays of the code; the CBC
  routines work on the byte memory of \<open>Cstring\<close>, where source and destination may be the same
  area. The round key is added in 32-bit words as in the code.
\<close>

section \<open>Tables\<close>

definition sbox :: "u8 list" where
  "sbox = [
   0x63, 0x7c, 0x77, 0x7b, 0xf2, 0x6b, 0x6f, 0xc5, 0x30, 0x01, 0x67, 0x2b, 0xfe, 0xd7, 0xab, 0x76,
   0xca, 0x82, 0xc9, 0x7d, 0xfa, 0x59, 0x47, 0xf0, 0xad, 0xd4, 0xa2, 0xaf, 0x9c, 0xa4, 0x72, 0xc0,
   0xb7, 0xfd, 0x93, 0x26, 0x36, 0x3f, 0xf7, 0xcc, 0x34, 0xa5, 0xe5, 0xf1, 0x71, 0xd8, 0x31, 0x15,
   0x04, 0xc7, 0x23, 0xc3, 0x18, 0x96, 0x05, 0x9a, 0x07, 0x12, 0x80, 0xe2, 0xeb, 0x27, 0xb2, 0x75,
   0x09, 0x83, 0x2c, 0x1a, 0x1b, 0x6e, 0x5a, 0xa0, 0x52, 0x3b, 0xd6, 0xb3, 0x29, 0xe3, 0x2f, 0x84,
   0x53, 0xd1, 0x00, 0xed, 0x20, 0xfc, 0xb1, 0x5b, 0x6a, 0xcb, 0xbe, 0x39, 0x4a, 0x4c, 0x58, 0xcf,
   0xd0, 0xef, 0xaa, 0xfb, 0x43, 0x4d, 0x33, 0x85, 0x45, 0xf9, 0x02, 0x7f, 0x50, 0x3c, 0x9f, 0xa8,
   0x51, 0xa3, 0x40, 0x8f, 0x92, 0x9d, 0x38, 0xf5, 0xbc, 0xb6, 0xda, 0x21, 0x10, 0xff, 0xf3, 0xd2,
   0xcd, 0x0c, 0x13, 0xec, 0x5f, 0x97, 0x44, 0x17, 0xc4, 0xa7, 0x7e, 0x3d, 0x64, 0x5d, 0x19, 0x73,
   0x60, 0x81, 0x4f, 0xdc, 0x22, 0x2a, 0x90, 0x88, 0x46, 0xee, 0xb8, 0x14, 0xde, 0x5e, 0x0b, 0xdb,
   0xe0, 0x32, 0x3a, 0x0a, 0x49, 0x06, 0x24, 0x5c, 0xc2, 0xd3, 0xac, 0x62, 0x91, 0x95, 0xe4, 0x79,
   0xe7, 0xc8, 0x37, 0x6d, 0x8d, 0xd5, 0x4e, 0xa9, 0x6c, 0x56, 0xf4, 0xea, 0x65, 0x7a, 0xae, 0x08,
   0xba, 0x78, 0x25, 0x2e, 0x1c, 0xa6, 0xb4, 0xc6, 0xe8, 0xdd, 0x74, 0x1f, 0x4b, 0xbd, 0x8b, 0x8a,
   0x70, 0x3e, 0xb5, 0x66, 0x48, 0x03, 0xf6, 0x0e, 0x61, 0x35, 0x57, 0xb9, 0x86, 0xc1, 0x1d, 0x9e,
   0xe1, 0xf8, 0x98, 0x11, 0x69, 0xd9, 0x8e, 0x94, 0x9b, 0x1e, 0x87, 0xe9, 0xce, 0x55, 0x28, 0xdf,
   0x8c, 0xa1, 0x89, 0x0d, 0xbf, 0xe6, 0x42, 0x68, 0x41, 0x99, 0x2d, 0x0f, 0xb0, 0x54, 0xbb, 0x16]"

definition inv_sbox :: "u8 list" where
  "inv_sbox = [
   0x52, 0x09, 0x6a, 0xd5, 0x30, 0x36, 0xa5, 0x38, 0xbf, 0x40, 0xa3, 0x9e, 0x81, 0xf3, 0xd7, 0xfb,
   0x7c, 0xe3, 0x39, 0x82, 0x9b, 0x2f, 0xff, 0x87, 0x34, 0x8e, 0x43, 0x44, 0xc4, 0xde, 0xe9, 0xcb,
   0x54, 0x7b, 0x94, 0x32, 0xa6, 0xc2, 0x23, 0x3d, 0xee, 0x4c, 0x95, 0x0b, 0x42, 0xfa, 0xc3, 0x4e,
   0x08, 0x2e, 0xa1, 0x66, 0x28, 0xd9, 0x24, 0xb2, 0x76, 0x5b, 0xa2, 0x49, 0x6d, 0x8b, 0xd1, 0x25,
   0x72, 0xf8, 0xf6, 0x64, 0x86, 0x68, 0x98, 0x16, 0xd4, 0xa4, 0x5c, 0xcc, 0x5d, 0x65, 0xb6, 0x92,
   0x6c, 0x70, 0x48, 0x50, 0xfd, 0xed, 0xb9, 0xda, 0x5e, 0x15, 0x46, 0x57, 0xa7, 0x8d, 0x9d, 0x84,
   0x90, 0xd8, 0xab, 0x00, 0x8c, 0xbc, 0xd3, 0x0a, 0xf7, 0xe4, 0x58, 0x05, 0xb8, 0xb3, 0x45, 0x06,
   0xd0, 0x2c, 0x1e, 0x8f, 0xca, 0x3f, 0x0f, 0x02, 0xc1, 0xaf, 0xbd, 0x03, 0x01, 0x13, 0x8a, 0x6b,
   0x3a, 0x91, 0x11, 0x41, 0x4f, 0x67, 0xdc, 0xea, 0x97, 0xf2, 0xcf, 0xce, 0xf0, 0xb4, 0xe6, 0x73,
   0x96, 0xac, 0x74, 0x22, 0xe7, 0xad, 0x35, 0x85, 0xe2, 0xf9, 0x37, 0xe8, 0x1c, 0x75, 0xdf, 0x6e,
   0x47, 0xf1, 0x1a, 0x71, 0x1d, 0x29, 0xc5, 0x89, 0x6f, 0xb7, 0x62, 0x0e, 0xaa, 0x18, 0xbe, 0x1b,
   0xfc, 0x56, 0x3e, 0x4b, 0xc6, 0xd2, 0x79, 0x20, 0x9a, 0xdb, 0xc0, 0xfe, 0x78, 0xcd, 0x5a, 0xf4,
   0x1f, 0xdd, 0xa8, 0x33, 0x88, 0x07, 0xc7, 0x31, 0xb1, 0x12, 0x10, 0x59, 0x27, 0x80, 0xec, 0x5f,
   0x60, 0x51, 0x7f, 0xa9, 0x19, 0xb5, 0x4a, 0x0d, 0x2d, 0xe5, 0x7a, 0x9f, 0x93, 0xc9, 0x9c, 0xef,
   0xa0, 0xe0, 0x3b, 0x4d, 0xae, 0x2a, 0xf5, 0xb0, 0xc8, 0xeb, 0xbb, 0x3c, 0x83, 0x53, 0x99, 0x61,
   0x17, 0x2b, 0x04, 0x7e, 0xba, 0x77, 0xd6, 0x26, 0xe1, 0x69, 0x14, 0x63, 0x55, 0x21, 0x0c, 0x7d]"

definition x2_sbox :: "u8 list" where
  "x2_sbox = [
   0xc6, 0xf8, 0xee, 0xf6, 0xff, 0xd6, 0xde, 0x91, 0x60, 0x02, 0xce, 0x56, 0xe7, 0xb5, 0x4d, 0xec,
   0x8f, 0x1f, 0x89, 0xfa, 0xef, 0xb2, 0x8e, 0xfb, 0x41, 0xb3, 0x5f, 0x45, 0x23, 0x53, 0xe4, 0x9b,
   0x75, 0xe1, 0x3d, 0x4c, 0x6c, 0x7e, 0xf5, 0x83, 0x68, 0x51, 0xd1, 0xf9, 0xe2, 0xab, 0x62, 0x2a,
   0x08, 0x95, 0x46, 0x9d, 0x30, 0x37, 0x0a, 0x2f, 0x0e, 0x24, 0x1b, 0xdf, 0xcd, 0x4e, 0x7f, 0xea,
   0x12, 0x1d, 0x58, 0x34, 0x36, 0xdc, 0xb4, 0x5b, 0xa4, 0x76, 0xb7, 0x7d, 0x52, 0xdd, 0x5e, 0x13,
   0xa6, 0xb9, 0x00, 0xc1, 0x40, 0xe3, 0x79, 0xb6, 0xd4, 0x8d, 0x67, 0x72, 0x94, 0x98, 0xb0, 0x85,
   0xbb, 0xc5, 0x4f, 0xed, 0x86, 0x9a, 0x66, 0x11, 0x8a, 0xe9, 0x04, 0xfe, 0xa0, 0x78, 0x25, 0x4b,
   0xa2, 0x5d, 0x80, 0x05, 0x3f, 0x21, 0x70, 0xf1, 0x63, 0x77, 0xaf, 0x42, 0x20, 0xe5, 0xfd, 0xbf,
   0x81, 0x18, 0x26, 0xc3, 0xbe, 0x35, 0x88, 0x2e, 0x93, 0x55, 0xfc, 0x7a, 0xc8, 0xba, 0x32, 0xe6,
   0xc0, 0x19, 0x9e, 0xa3, 0x44, 0x54, 0x3b, 0x0b, 0x8c, 0xc7, 0x6b, 0x28, 0xa7, 0xbc, 0x16, 0xad,
   0xdb, 0x64, 0x74, 0x14, 0x92, 0x0c, 0x48, 0xb8, 0x9f, 0xbd, 0x43, 0xc4, 0x39, 0x31, 0xd3, 0xf2,
   0xd5, 0x8b, 0x6e, 0xda, 0x01, 0xb1, 0x9c, 0x49, 0xd8, 0xac, 0xf3, 0xcf, 0xca, 0xf4, 0x47, 0x10,
   0x6f, 0xf0, 0x4a, 0x5c, 0x38, 0x57, 0x73, 0x97, 0xcb, 0xa1, 0xe8, 0x3e, 0x96, 0x61, 0x0d, 0x0f,
   0xe0, 0x7c, 0x71, 0xcc, 0x90, 0x06, 0xf7, 0x1c, 0xc2, 0x6a, 0xae, 0x69, 0x17, 0x99, 0x3a, 0x27,
   0xd9, 0xeb, 0x2b, 0x22, 0xd2, 0xa9, 0x07, 0x33, 0x2d, 0x3c, 0x15, 0xc9, 0x87, 0xaa, 0x50, 0xa5,
   0x03, 0x59, 0x09, 0x1a, 0x65, 0xd7, 0x84, 0xd0, 0x82, 0x29, 0x5a, 0x1e, 0x7b, 0xa8, 0x6d, 0x2c]"

definition x3_sbox :: "u8 list" where
  "x3_sbox = [
   0xa5, 0x84, 0x99, 0x8d, 0x0d, 0xbd, 0xb1, 0x54, 0x50, 0x03, 0xa9, 0x7d, 0x19, 0x62, 0xe6, 0x9a,
   0x45, 0x9d, 0x40, 0x87, 0x15, 0xeb, 0xc9, 0x0b, 0xec, 0x67, 0xfd, 0xea, 0xbf, 0xf7, 0x96, 0x5b,
   0xc2, 0x1c, 0xae, 0x6a, 0x5a, 0x41, 0x02, 0x4f, 0x5c, 0xf4, 0x34, 0x08, 0x93, 0x73, 0x53, 0x3f,
   0x0c, 0x52, 0x65, 0x5e, 0x28, 0xa1, 0x0f, 0xb5, 0x09, 0x36, 0x9b, 0x3d, 0x26, 0x69, 0xcd, 0x9f,
   0x1b, 0x9e, 0x74, 0x2e, 0x2d, 0xb2, 0xee, 0xfb, 0xf6, 0x4d, 0x61, 0xce, 0x7b, 0x3e, 0x71, 0x97,
   0xf5, 0x68, 0x00, 0x2c, 0x60, 0x1f, 0xc8, 0xed, 0xbe, 0x46, 0xd9, 0x4b, 0xde, 0xd4, 0xe8, 0x4a,
   0x6b, 0x2a, 0xe5, 0x16, 0xc5, 0xd7, 0x55, 0x94, 0xcf, 0x10, 0x06, 0x81, 0xf0, 0x44, 0xba, 0xe3,
   0xf3, 0xfe, 0xc0, 0x8a, 0xad, 0xbc, 0x48, 0x04, 0xdf, 0xc1, 0x75, 0x63, 0x30, 0x1a, 0x0e, 0x6d,
   0x4c, 0x14, 0x35, 0x2f, 0xe1, 0xa2, 0xcc, 0x39, 0x57, 0xf2, 0x82, 0x47, 0xac, 0xe7, 0x2b, 0x95,
   0xa0, 0x98, 0xd1, 0x7f, 0x66, 0x7e, 0xab, 0x83, 0xca, 0x29, 0xd3, 0x3c, 0x79, 0xe2, 0x1d, 0x76,
   0x3b, 0x56, 0x4e, 0x1e, 0xdb, 0x0a, 0x6c, 0xe4, 0x5d, 0x6e, 0xef, 0xa6, 0xa8, 0xa4, 0x37, 0x8b,
   0x32, 0x43, 0x59, 0xb7, 0x8c, 0x64, 0xd2, 0xe0, 0xb4, 0xfa, 0x07, 0x25, 0xaf, 0x8e, 0xe9, 0x18,
   0xd5, 0x88, 0x6f, 0x72, 0x24, 0xf1, 0xc7, 0x51, 0x23, 0x7c, 0x9c, 0x21, 0xdd, 0xdc, 0x86, 0x85,
   0x90, 0x42, 0xc4, 0xaa, 0xd8, 0x05, 0x01, 0x12, 0xa3, 0x5f, 0xf9, 0xd0, 0x91, 0x58, 0x27, 0xb9,
   0x38, 0x13, 0xb3, 0x33, 0xbb, 0x70, 0x89, 0xa7, 0xb6, 0x22, 0x92, 0x20, 0x49, 0xff, 0x78, 0x7a,
   0x8f, 0xf8, 0x80, 0x17, 0xda, 0x31, 0xc6, 0xb8, 0xc3, 0xb0, 0x77, 0x11, 0xcb, 0xfc, 0xd6, 0x3a]"

definition x_time_9 :: "u8 list" where
  "x_time_9 = [
   0x00, 0x09, 0x12, 0x1b, 0x24, 0x2d, 0x36, 0x3f, 0x48, 0x41, 0x5a, 0x53, 0x6c, 0x65, 0x7e, 0x77,
   0x90, 0x99, 0x82, 0x8b, 0xb4, 0xbd, 0xa6, 0xaf, 0xd8, 0xd1, 0xca, 0xc3, 0xfc, 0xf5, 0xee, 0xe7,
   0x3b, 0x32, 0x29, 0x20, 0x1f, 0x16, 0x0d, 0x04, 0x73, 0x7a, 0x61, 0x68, 0x57, 0x5e, 0x45, 0x4c,
   0xab, 0xa2, 0xb9, 0xb0, 0x8f, 0x86, 0x9d, 0x94, 0xe3, 0xea, 0xf1, 0xf8, 0xc7, 0xce, 0xd5, 0xdc,
   0x76, 0x7f, 0x64, 0x6d, 0x52, 0x5b, 0x40, 0x49, 0x3e, 0x37, 0x2c, 0x25, 0x1a, 0x13, 0x08, 0x01,
   0xe6, 0xef, 0xf4, 0xfd, 0xc2, 0xcb, 0xd0, 0xd9, 0xae, 0xa7, 0xbc, 0xb5, 0x8a, 0x83, 0x98, 0x91,
   0x4d, 0x44, 0x5f, 0x56, 0x69, 0x60, 0x7b, 0x72, 0x05, 0x0c, 0x17, 0x1e, 0x21, 0x28, 0x33, 0x3a,
   0xdd, 0xd4, 0xcf, 0xc6, 0xf9, 0xf0, 0xeb, 0xe2, 0x95, 0x9c, 0x87, 0x8e, 0xb1, 0xb8, 0xa3, 0xaa,
   0xec, 0xe5, 0xfe, 0xf7, 0xc8, 0xc1, 0xda, 0xd3, 0xa4, 0xad, 0xb6, 0xbf, 0x80, 0x89, 0x92, 0x9b,
   0x7c, 0x75, 0x6e, 0x67, 0x58, 0x51, 0x4a, 0x43, 0x34, 0x3d, 0x26, 0x2f, 0x10, 0x19, 0x02, 0x0b,
   0xd7, 0xde, 0xc5, 0xcc, 0xf3, 0xfa, 0xe1, 0xe8, 0x9f, 0x96, 0x8d, 0x84, 0xbb, 0xb2, 0xa9, 0xa0,
   0x47, 0x4e, 0x55, 0x5c, 0x63, 0x6a, 0x71, 0x78, 0x0f, 0x06, 0x1d, 0x14, 0x2b, 0x22, 0x39, 0x30,
   0x9a, 0x93, 0x88, 0x81, 0xbe, 0xb7, 0xac, 0xa5, 0xd2, 0xdb, 0xc0, 0xc9, 0xf6, 0xff, 0xe4, 0xed,
   0x0a, 0x03, 0x18, 0x11, 0x2e, 0x27, 0x3c, 0x35, 0x42, 0x4b, 0x50, 0x59, 0x66, 0x6f, 0x74, 0x7d,
   0xa1, 0xa8, 0xb3, 0xba, 0x85, 0x8c, 0x97, 0x9e, 0xe9, 0xe0, 0xfb, 0xf2, 0xcd, 0xc4, 0xdf, 0xd6,
   0x31, 0x38, 0x23, 0x2a, 0x15, 0x1c, 0x07, 0x0e, 0x79, 0x70, 0x6b, 0x62, 0x5d, 0x54, 0x4f, 0x46]"

definition x_time_b :: "u8 list" where
  "x_time_b = [
   0x00, 0x0b, 0x16, 0x1d, 0x2c, 0x27, 0x3a, 0x31, 0x58, 0x53, 0x4e, 0x45, 0x74, 0x7f, 0x62, 0x69,
   0xb0, 0xbb, 0xa6, 0xad, 0x9c, 0x97, 0x8a, 0x81, 0xe8, 0xe3, 0xfe, 0xf5, 0xc4, 0xcf, 0xd2, 0xd9,
   0x7b, 0x70, 0x6d, 0x66, 0x57, 0x5c, 0x41, 0x4a, 0x23, 0x28, 0x35, 0x3e, 0x0f, 0x04, 0x19, 0x12,
   0xcb, 0xc0, 0xdd, 0xd6, 0xe7, 0xec, 0xf1, 0xfa, 0x93, 0x98, 0x85, 0x8e, 0xbf, 0xb4, 0xa9, 0xa2,
   0xf6, 0xfd, 0xe0, 0xeb, 0xda, 0xd1, 0xcc, 0xc7, 0xae, 0xa5, 0xb8, 0xb3, 0x82, 0x89, 0x94, 0x9f,
   0x46, 0x4d, 0x50, 0x5b, 0x6a, 0x61, 0x7c, 0x77, 0x1e, 0x15, 0x08, 0x03, 0x32, 0x39, 0x24, 0x2f,
   0x8d, 0x86, 0x9b, 0x90, 0xa1, 0xaa, 0xb7, 0xbc, 0xd5, 0xde, 0xc3, 0xc8, 0xf9, 0xf2, 0xef, 0xe4,
   0x3d, 0x36, 0x2b, 0x20, 0x11, 0x1a, 0x07, 0x0c, 0x65, 0x6e, 0x73, 0x78, 0x49, 0x42, 0x5f, 0x54,
   0xf7, 0xfc, 0xe1, 0xea, 0xdb, 0xd0, 0xcd, 0xc6, 0xaf, 0xa4, 0xb9, 0xb2, 0x83, 0x88, 0x95, 0x9e,
   0x47, 0x4c, 0x51, 0x5a, 0x6b, 0x60, 0x7d, 0x76, 0x1f, 0x14, 0x09, 0x02, 0x33, 0x38, 0x25, 0x2e,
   0x8c, 0x87, 0x9a, 0x91, 0xa0, 0xab, 0xb6, 0xbd, 0xd4, 0xdf, 0xc2, 0xc9, 0xf8, 0xf3, 0xee, 0xe5,
   0x3c, 0x37, 0x2a, 0x21, 0x10, 0x1b, 0x06, 0x0d, 0x64, 0x6f, 0x72, 0x79, 0x48, 0x43, 0x5e, 0x55,
   0x01, 0x0a, 0x17, 0x1c, 0x2d, 0x26, 0x3b, 0x30, 0x59, 0x52, 0x4f, 0x44, 0x75, 0x7e, 0x63, 0x68,
   0xb1, 0xba, 0xa7, 0xac, 0x9d, 0x96, 0x8b, 0x80, 0xe9, 0xe2, 0xff, 0xf4, 0xc5, 0xce, 0xd3, 0xd8,
   0x7a, 0x71, 0x6c, 0x67, 0x56, 0x5d, 0x40, 0x4b, 0x22, 0x29, 0x34, 0x3f, 0x0e, 0x05, 0x18, 0x13,
   0xca, 0xc1, 0xdc, 0xd7, 0xe6, 0xed, 0xf0, 0xfb, 0x92, 0x99, 0x84, 0x8f, 0xbe, 0xb5, 0xa8, 0xa3]"

definition x_time_d :: "u8 list" where
  "x_time_d = [
   0x00, 0x0d, 0x1a, 0x17, 0x34, 0x39, 0x2e, 0x23, 0x68, 0x65, 0x72, 0x7f, 0x5c, 0x51, 0x46, 0x4b,
   0xd0, 0xdd, 0xca, 0xc7, 0xe4, 0xe9, 0xfe, 0xf3, 0xb8, 0xb5, 0xa2, 0xaf, 0x8c, 0x81, 0x96, 0x9b,
   0xbb, 0xb6, 0xa1, 0xac, 0x8f, 0x82, 0x95, 0x98, 0xd3, 0xde, 0xc9, 0xc4, 0xe7, 0xea, 0xfd, 0xf0,
   0x6b, 0x66, 0x71, 0x7c, 0x5f, 0x52, 0x45, 0x48, 0x03, 0x0e, 0x19, 0x14, 0x37, 0x3a, 0x2d, 0x20,
   0x6d, 0x60, 0x77, 0x7a, 0x59, 0x54, 0x43, 0x4e, 0x05, 0x08, 0x1f, 0x12, 0x31, 0x3c, 0x2b, 0x26,
   0xbd, 0xb0, 0xa7, 0xaa, 0x89, 0x84, 0x93, 0x9e, 0xd5, 0xd8, 0xcf, 0xc2, 0xe1, 0xec, 0xfb, 0xf6,
   0xd6, 0xdb, 0xcc, 0xc1, 0xe2, 0xef, 0xf8, 0xf5, 0xbe, 0xb3, 0xa4, 0xa9, 0x8a, 0x87, 0x90, 0x9d,
   0x06, 0x0b, 0x1c, 0x11, 0x32, 0x3f, 0x28, 0x25, 0x6e, 0x63, 0x74, 0x79, 0x5a, 0x57, 0x40, 0x4d,
   0xda, 0xd7, 0xc0, 0xcd, 0xee, 0xe3, 0xf4, 0xf9, 0xb2, 0xbf, 0xa8, 0xa5, 0x86, 0x8b, 0x9c, 0x91,
   0x0a, 0x07, 0x10, 0x1d, 0x3e, 0x33, 0x24, 0x29, 0x62, 0x6f, 0x78, 0x75, 0x56, 0x5b, 0x4c, 0x41,
   0x61, 0x6c, 0x7b, 0x76, 0x55, 0x58, 0x4f, 0x42, 0x09, 0x04, 0x13, 0x1e, 0x3d, 0x30, 0x27, 0x2a,
   0xb1, 0xbc, 0xab, 0xa6, 0x85, 0x88, 0x9f, 0x92, 0xd9, 0xd4, 0xc3, 0xce, 0xed, 0xe0, 0xf7, 0xfa,
   0xb7, 0xba, 0xad, 0xa0, 0x83, 0x8e, 0x99, 0x94, 0xdf, 0xd2, 0xc5, 0xc8, 0xeb, 0xe6, 0xf1, 0xfc,
   0x67, 0x6a, 0x7d, 0x70, 0x53, 0x5e, 0x49, 0x44, 0x0f, 0x02, 0x15, 0x18, 0x3b, 0x36, 0x21, 0x2c,
   0x0c, 0x01, 0x16, 0x1b, 0x38, 0x35, 0x22, 0x2f, 0x64, 0x69, 0x7e, 0x73, 0x50, 0x5d, 0x4a, 0x47,
   0xdc, 0xd1, 0xc6, 0xcb, 0xe8, 0xe5, 0xf2, 0xff, 0xb4, 0xb9, 0xae, 0xa3, 0x80, 0x8d, 0x9a, 0x97]"

definition x_time_e :: "u8 list" where
  "x_time_e = [
   0x00, 0x0e, 0x1c, 0x12, 0x38, 0x36, 0x24, 0x2a, 0x70, 0x7e, 0x6c, 0x62, 0x48, 0x46, 0x54, 0x5a,
   0xe0, 0xee, 0xfc, 0xf2, 0xd8, 0xd6, 0xc4, 0xca, 0x90, 0x9e, 0x8c, 0x82, 0xa8, 0xa6, 0xb4, 0xba,
   0xdb, 0xd5, 0xc7, 0xc9, 0xe3, 0xed, 0xff, 0xf1, 0xab, 0xa5, 0xb7, 0xb9, 0x93, 0x9d, 0x8f, 0x81,
   0x3b, 0x35, 0x27, 0x29, 0x03, 0x0d, 0x1f, 0x11, 0x4b, 0x45, 0x57, 0x59, 0x73, 0x7d, 0x6f, 0x61,
   0xad, 0xa3, 0xb1, 0xbf, 0x95, 0x9b, 0x89, 0x87, 0xdd, 0xd3, 0xc1, 0xcf, 0xe5, 0xeb, 0xf9, 0xf7,
   0x4d, 0x43, 0x51, 0x5f, 0x75, 0x7b, 0x69, 0x67, 0x3d, 0x33, 0x21, 0x2f, 0x05, 0x0b, 0x19, 0x17,
   0x76, 0x78, 0x6a, 0x64, 0x4e, 0x40, 0x52, 0x5c, 0x06, 0x08, 0x1a, 0x14, 0x3e, 0x30, 0x22, 0x2c,
   0x96, 0x98, 0x8a, 0x84, 0xae, 0xa0, 0xb2, 0xbc, 0xe6, 0xe8, 0xfa, 0xf4, 0xde, 0xd0, 0xc2, 0xcc,
   0x41, 0x4f, 0x5d, 0x53, 0x79, 0x77, 0x65, 0x6b, 0x31, 0x3f, 0x2d, 0x23, 0x09, 0x07, 0x15, 0x1b,
   0xa1, 0xaf, 0xbd, 0xb3, 0x99, 0x97, 0x85, 0x8b, 0xd1, 0xdf, 0xcd, 0xc3, 0xe9, 0xe7, 0xf5, 0xfb,
   0x9a, 0x94, 0x86, 0x88, 0xa2, 0xac, 0xbe, 0xb0, 0xea, 0xe4, 0xf6, 0xf8, 0xd2, 0xdc, 0xce, 0xc0,
   0x7a, 0x74, 0x66, 0x68, 0x42, 0x4c, 0x5e, 0x50, 0x0a, 0x04, 0x16, 0x18, 0x32, 0x3c, 0x2e, 0x20,
   0xec, 0xe2, 0xf0, 0xfe, 0xd4, 0xda, 0xc8, 0xc6, 0x9c, 0x92, 0x80, 0x8e, 0xa4, 0xaa, 0xb8, 0xb6,
   0x0c, 0x02, 0x10, 0x1e, 0x34, 0x3a, 0x28, 0x26, 0x7c, 0x72, 0x60, 0x6e, 0x44, 0x4a, 0x58, 0x56,
   0x37, 0x39, 0x2b, 0x25, 0x0f, 0x01, 0x13, 0x1d, 0x47, 0x49, 0x5b, 0x55, 0x7f, 0x71, 0x63, 0x6d,
   0xd7, 0xd9, 0xcb, 0xc5, 0xef, 0xe1, 0xf3, 0xfd, 0xa7, 0xa9, 0xbb, 0xb5, 0x9f, 0x91, 0x83, 0x8d]"

definition rcon :: "u8 list" where
  "rcon = [
   0x00, 0x01, 0x02, 0x04, 0x08, 0x10, 0x20, 0x40, 0x80, 0x1b, 0x36]"

abbreviation sub_byte :: "u8 \<Rightarrow> u8" where "sub_byte x \<equiv> sbox ! unat x"
abbreviation inv_sub_byte :: "u8 \<Rightarrow> u8" where "inv_sub_byte x \<equiv> inv_sbox ! unat x"
abbreviation x2_byte :: "u8 \<Rightarrow> u8" where "x2_byte x \<equiv> x2_sbox ! unat x"
abbreviation x3_byte :: "u8 \<Rightarrow> u8" where "x3_byte x \<equiv> x3_sbox ! unat x"
abbreviation x9_byte :: "u8 \<Rightarrow> u8" where "x9_byte x \<equiv> x_time_9 ! unat x"
abbreviation xb_byte :: "u8 \<Rightarrow> u8" where "xb_byte x \<equiv> x_time_b ! unat x"
abbreviation xd_byte :: "u8 \<Rightarrow> u8" where "xd_byte x \<equiv> x_time_d ! unat x"
abbreviation xe_byte :: "u8 \<Rightarrow> u8" where "xe_byte x \<equiv> x_time_e ! unat x"

section \<open>The steps of a round\<close>

definition shift_rows :: "u8 list \<Rightarrow> u8 list" where
  "shift_rows s =
     (let s = s[0 := sub_byte (s ! 0)];
          s = s[4 := sub_byte (s ! 4)];
          s = s[8 := sub_byte (s ! 8)];
          s = s[12 := sub_byte (s ! 12)];
          tmp = sub_byte (s ! 1);
          s = s[1 := sub_byte (s ! 5)];
          s = s[5 := sub_byte (s ! 9)];
          s = s[9 := sub_byte (s ! 13)];
          s = s[13 := tmp];
          tmp = sub_byte (s ! 2);
          s = s[2 := sub_byte (s ! 10)];
          s = s[10 := tmp];
          tmp = sub_byte (s ! 6);
          s = s[6 := sub_byte (s ! 14)];
          s = s[14 := tmp];
          tmp = sub_byte (s ! 15);
          s = s[15 := sub_byte (s ! 11)];
          s = s[11 := sub_byte (s ! 7)];
          s = s[7 := sub_byte (s ! 3)];
          s = s[3 := tmp]
      in s)"

definition inv_shift_rows :: "u8 list \<Rightarrow> u8 list" where
  "inv_shift_rows s =
     (let s = s[0 := inv_sub_byte (s ! 0)];
          s = s[4 := inv_sub_byte (s ! 4)];
          s = s[8 := inv_sub_byte (s ! 8)];
          s = s[12 := inv_sub_byte (s ! 12)];
          tmp = inv_sub_byte (s ! 13);
          s = s[13 := inv_sub_byte (s ! 9)];
          s = s[9 := inv_sub_byte (s ! 5)];
          s = s[5 := inv_sub_byte (s ! 1)];
          s = s[1 := tmp];
          tmp = inv_sub_byte (s ! 2);
          s = s[2 := inv_sub_byte (s ! 10)];
          s = s[10 := tmp];
          tmp = inv_sub_byte (s ! 6);
          s = s[6 := inv_sub_byte (s ! 14)];
          s = s[14 := tmp];
          tmp = inv_sub_byte (s ! 3);
          s = s[3 := inv_sub_byte (s ! 7)];
          s = s[7 := inv_sub_byte (s ! 11)];
          s = s[11 := inv_sub_byte (s ! 15)];
          s = s[15 := tmp]
      in s)"

definition mix_sub_columns :: "u8 list \<Rightarrow> u8 list" where
  "mix_sub_columns s = [
      x2_byte (s ! 0) XOR x3_byte (s ! 5) XOR sub_byte (s ! 10) XOR sub_byte (s ! 15),
      sub_byte (s ! 0) XOR x2_byte (s ! 5) XOR x3_byte (s ! 10) XOR sub_byte (s ! 15),
      sub_byte (s ! 0) XOR sub_byte (s ! 5) XOR x2_byte (s ! 10) XOR x3_byte (s ! 15),
      x3_byte (s ! 0) XOR sub_byte (s ! 5) XOR sub_byte (s ! 10) XOR x2_byte (s ! 15),
      x2_byte (s ! 4) XOR x3_byte (s ! 9) XOR sub_byte (s ! 14) XOR sub_byte (s ! 3),
      sub_byte (s ! 4) XOR x2_byte (s ! 9) XOR x3_byte (s ! 14) XOR sub_byte (s ! 3),
      sub_byte (s ! 4) XOR sub_byte (s ! 9) XOR x2_byte (s ! 14) XOR x3_byte (s ! 3),
      x3_byte (s ! 4) XOR sub_byte (s ! 9) XOR sub_byte (s ! 14) XOR x2_byte (s ! 3),
      x2_byte (s ! 8) XOR x3_byte (s ! 13) XOR sub_byte (s ! 2) XOR sub_byte (s ! 7),
      sub_byte (s ! 8) XOR x2_byte (s ! 13) XOR x3_byte (s ! 2) XOR sub_byte (s ! 7),
      sub_byte (s ! 8) XOR sub_byte (s ! 13) XOR x2_byte (s ! 2) XOR x3_byte (s ! 7),
      x3_byte (s ! 8) XOR sub_byte (s ! 13) XOR sub_byte (s ! 2) XOR x2_byte (s ! 7),
      x2_byte (s ! 12) XOR x3_byte (s ! 1) XOR sub_byte (s ! 6) XOR sub_byte (s ! 11),
      sub_byte (s ! 12) XOR x2_byte (s ! 1) XOR x3_byte (s ! 6) XOR sub_byte (s ! 11),
      sub_byte (s ! 12) XOR sub_byte (s ! 1) XOR x2_byte (s ! 6) XOR x3_byte (s ! 11),
      x3_byte (s ! 12) XOR sub_byte (s ! 1) XOR sub_byte (s ! 6) XOR x2_byte (s ! 11)]"

definition inv_mix_sub_columns :: "u8 list \<Rightarrow> u8 list" where
  "inv_mix_sub_columns s = map inv_sub_byte [
      xe_byte (s ! 0) XOR xb_byte (s ! 1) XOR xd_byte (s ! 2) XOR x9_byte (s ! 3),
      x9_byte (s ! 12) XOR xe_byte (s ! 13) XOR xb_byte (s ! 14) XOR xd_byte (s ! 15),
      xd_byte (s ! 8) XOR x9_byte (s ! 9) XOR xe_byte (s ! 10) XOR xb_byte (s ! 11),
      xb_byte (s ! 4) XOR xd_byte (s ! 5) XOR x9_byte (s ! 6) XOR xe_byte (s ! 7),
      xe_byte (s ! 4) XOR xb_byte (s ! 5) XOR xd_byte (s ! 6) XOR x9_byte (s ! 7),
      x9_byte (s ! 0) XOR xe_byte (s ! 1) XOR xb_byte (s ! 2) XOR xd_byte (s ! 3),
      xd_byte (s ! 12) XOR x9_byte (s ! 13) XOR xe_byte (s ! 14) XOR xb_byte (s ! 15),
      xb_byte (s ! 8) XOR xd_byte (s ! 9) XOR x9_byte (s ! 10) XOR xe_byte (s ! 11),
      xe_byte (s ! 8) XOR xb_byte (s ! 9) XOR xd_byte (s ! 10) XOR x9_byte (s ! 11),
      x9_byte (s ! 4) XOR xe_byte (s ! 5) XOR xb_byte (s ! 6) XOR xd_byte (s ! 7),
      xd_byte (s ! 0) XOR x9_byte (s ! 1) XOR xe_byte (s ! 2) XOR xb_byte (s ! 3),
      xb_byte (s ! 12) XOR xd_byte (s ! 13) XOR x9_byte (s ! 14) XOR xe_byte (s ! 15),
      xe_byte (s ! 12) XOR xb_byte (s ! 13) XOR xd_byte (s ! 14) XOR x9_byte (s ! 15),
      x9_byte (s ! 8) XOR xe_byte (s ! 9) XOR xb_byte (s ! 10) XOR xd_byte (s ! 11),
      xd_byte (s ! 4) XOR x9_byte (s ! 5) XOR xe_byte (s ! 6) XOR xb_byte (s ! 7),
      xb_byte (s ! 0) XOR xd_byte (s ! 1) XOR x9_byte (s ! 2) XOR xe_byte (s ! 3)]"

text \<open>The 32-bit words of a byte array, and back.\<close>

fun words_of :: "u8 list \<Rightarrow> u32 list" where
  "words_of (a # b # c # d # bs) = word32_of_bytes a b c d # words_of bs"
| "words_of bs = []"

definition bytes_of :: "u32 list \<Rightarrow> u8 list" where
  "bytes_of ws = concat (map (\<lambda>w. [byte_of_word32 0 w, byte_of_word32 1 w, byte_of_word32 2 w, byte_of_word32 3 w]) ws)"

definition add_round_key :: "u8 list \<Rightarrow> u8 list \<Rightarrow> u8 list" where
  "add_round_key state key = bytes_of (map2 (XOR) (take 4 (words_of state)) (take 4 (words_of key)))"

abbreviation AES_ROUNDS :: nat where "AES_ROUNDS \<equiv> 10"

text \<open>The key schedule; \<open>n\<close> columns are still to be produced and \<open>idx\<close> is the next one.\<close>

fun aes_expand_loop :: "nat \<Rightarrow> nat \<Rightarrow> u8 list \<Rightarrow> u8 list" where
  "aes_expand_loop 0 idx expkey = expkey"
| "aes_expand_loop (Suc n) idx expkey =
     (let tmp0 = expkey ! (4 * idx - 4);
          tmp1 = expkey ! (4 * idx - 3);
          tmp2 = expkey ! (4 * idx - 2);
          tmp3 = expkey ! (4 * idx - 1);
          (tmp0, tmp1, tmp2, tmp3) =
            (if idx mod 4 = 0 then (sub_byte tmp1 XOR rcon ! (idx div 4), sub_byte tmp2, sub_byte tmp3, sub_byte tmp0)
             else (tmp0, tmp1, tmp2, tmp3))
      in aes_expand_loop n (idx + 1) (expkey @ [
           expkey ! (4 * idx - 16) XOR tmp0, expkey ! (4 * idx - 15) XOR tmp1,
           expkey ! (4 * idx - 14) XOR tmp2, expkey ! (4 * idx - 13) XOR tmp3]))"

definition aes_expand_key :: "u8 list \<Rightarrow> u8 list" where
  "aes_expand_key key = aes_expand_loop 40 4 (take 16 key)"

section \<open>Blocks\<close>

fun aes_encrypt_rounds :: "u8 list \<Rightarrow> nat \<Rightarrow> nat \<Rightarrow> u8 list \<Rightarrow> u8 list" where
  "aes_encrypt_rounds expkey r 0 s = s"
| "aes_encrypt_rounds expkey r (Suc n) s =
     (let s = (if r < AES_ROUNDS then mix_sub_columns s else shift_rows s);
          s = add_round_key s (drop (16 * r) expkey)
      in aes_encrypt_rounds expkey (r + 1) n s)"

definition aes_encrypt :: "u8 list \<Rightarrow> u8 list \<Rightarrow> u8 list" where
  "aes_encrypt inp expkey = aes_encrypt_rounds expkey 1 AES_ROUNDS (add_round_key (take 16 inp) expkey)"

fun aes_decrypt_rounds :: "u8 list \<Rightarrow> nat \<Rightarrow> u8 list \<Rightarrow> u8 list" where
  "aes_decrypt_rounds expkey 0 s = s"
| "aes_decrypt_rounds expkey (Suc r) s =
     (let s = add_round_key s (drop (16 * r) expkey);
          s = (if r \<noteq> 0 then inv_mix_sub_columns s else s)
      in aes_decrypt_rounds expkey r s)"

definition aes_decrypt :: "u8 list \<Rightarrow> u8 list \<Rightarrow> u8 list" where
  "aes_decrypt inp expkey =
     aes_decrypt_rounds expkey AES_ROUNDS
       (inv_shift_rows (add_round_key (take 16 inp) (drop (16 * AES_ROUNDS) expkey)))"

section \<open>Tables are what they claim to be\<close>

definition bytes256 :: "u8 list" where
  "bytes256 = map word_of_nat [0..<256]"

definition xtime :: "u8 \<Rightarrow> u8" where
  "xtime x = (if x AND 0x80 \<noteq> 0 then 0x1B else 0) XOR (x + x)"

lemma nth_weak_cong: "i = j \<Longrightarrow> xs ! i = xs ! j"
  by simp

lemmas inv_sbox_unfold = arg_cong[OF inv_sbox_def, of "\<lambda>t. t ! i" for i]

lemma table_inverse: "all_from (\<lambda>x v. inv_sbox ! unat v = x) 0 sbox"
  by (simp add: sbox_def inv_sbox_unfold cong: nth_weak_cong)

lemma table_x2: "x2_sbox = map xtime sbox"
  by (simp add: x2_sbox_def sbox_def xtime_def)

lemma table_x3: "x3_sbox = map (\<lambda>x. x XOR xtime x) sbox"
  by (simp add: x3_sbox_def sbox_def xtime_def)

lemma table_9: "all_from (\<lambda>x v. v = xtime (xtime (xtime x)) XOR x) 0 x_time_9"
  by (simp add: x_time_9_def xtime_def)

lemma table_b: "all_from (\<lambda>x v. v = xtime (xtime (xtime x)) XOR (xtime x XOR x)) 0 x_time_b"
  by (simp add: x_time_b_def xtime_def)

lemma table_d: "all_from (\<lambda>x v. v = xtime (xtime (xtime x)) XOR (xtime (xtime x) XOR x)) 0 x_time_d"
  by (simp add: x_time_d_def xtime_def)

lemma table_e: "all_from (\<lambda>x v. v = xtime (xtime (xtime x)) XOR (xtime (xtime x) XOR xtime x)) 0 x_time_e"
  by (simp add: x_time_e_def xtime_def)

lemma all_from_table: "all_from P 0 t \<Longrightarrow> length t = 256 \<Longrightarrow> P x (t ! unat x)"
  using all_from_nth[of P 0 t "unat x"] unat_u8_less[of x] by simp

lemma table_lengths [simp]:
  "length sbox = 256" "length x_time_9 = 256" "length x_time_b = 256" "length x_time_d = 256" "length x_time_e = 256"
  by (simp_all add: sbox_def x_time_9_def x_time_b_def x_time_d_def x_time_e_def)

lemma inv_sub_byte_sub [simp]: "inv_sub_byte (sub_byte x) = x"
  using all_from_table[OF table_inverse] by simp

lemma x2_x3_byte: "x2_byte x = xtime (sub_byte x)" "x3_byte x = sub_byte x XOR xtime (sub_byte x)"
  using unat_u8_less[of x] by (simp_all add: table_x2 table_x3)

lemma x_time_byte:
  "x9_byte x = xtime (xtime (xtime x)) XOR x" "xb_byte x = xtime (xtime (xtime x)) XOR (xtime x XOR x)"
  "xd_byte x = xtime (xtime (xtime x)) XOR (xtime (xtime x) XOR x)"
  "xe_byte x = xtime (xtime (xtime x)) XOR (xtime (xtime x) XOR xtime x)"
  using all_from_table[OF table_9, of x] all_from_table[OF table_b, of x]
    all_from_table[OF table_d, of x] all_from_table[OF table_e, of x] by simp_all

section \<open>Every step has its inverse\<close>

lemma xtime_alt: "xtime x = (if bit x 7 then 0x1B else 0) XOR push_bit 1 x"
proof -
  have "x AND 0x80 \<noteq> 0 \<longleftrightarrow> bit x 7"
  proof -
    have "(0x80 :: u8) = push_bit 7 1" by simp
    then show ?thesis by (metis and_exp_eq_0_iff_not_bit push_bit_eq_mult mult_1)
  qed
  then show ?thesis by (simp add: xtime_def push_bit_eq_mult mult_2_right)
qed

lemma xor_left_self [simp]: "a XOR (a XOR b) = (b :: 'a::len word)"
  by (simp flip: xor.assoc)

lemma xtime_xor: "xtime (x XOR y) = xtime x XOR xtime y"
proof -
  have "push_bit 1 (x XOR y) = push_bit 1 x XOR push_bit 1 y" by (rule push_bit_xor)
  then show ?thesis by (auto simp: xtime_alt bit_xor_iff ac_simps xor_left_self)
qed

lemmas xor_cancel = x2_x3_byte x_time_byte xtime_xor xor.assoc xor.commute xor.left_commute

lemma unmix_column:
  fixes a b c d :: u8
  defines "p \<equiv> x2_byte a XOR x3_byte b XOR sub_byte c XOR sub_byte d"
    and "q \<equiv> sub_byte a XOR x2_byte b XOR x3_byte c XOR sub_byte d"
    and "r \<equiv> sub_byte a XOR sub_byte b XOR x2_byte c XOR x3_byte d"
    and "t \<equiv> x3_byte a XOR sub_byte b XOR sub_byte c XOR x2_byte d"
  shows "xe_byte p XOR xb_byte q XOR xd_byte r XOR x9_byte t = sub_byte a"
    and "x9_byte p XOR xe_byte q XOR xb_byte r XOR xd_byte t = sub_byte b"
    and "xd_byte p XOR x9_byte q XOR xe_byte r XOR xb_byte t = sub_byte c"
    and "xb_byte p XOR xd_byte q XOR x9_byte r XOR xe_byte t = sub_byte d"
  unfolding p_def q_def r_def t_def by (simp_all add: xor_cancel)

lemma list16:
  assumes "length s = 16"
  obtains a0 a1 a2 a3 a4 a5 a6 a7 a8 a9 a10 a11 a12 a13 a14 a15 where
    "s = [a0, a1, a2, a3, a4, a5, a6, a7, a8, a9, a10, a11, a12, a13, a14, a15]"
  using assms by (auto simp: numeral_eq_Suc length_Suc_conv)

lemma inv_mix_mix: "length s = 16 \<Longrightarrow> inv_mix_sub_columns (mix_sub_columns s) = s"
  by (elim list16) (simp add: mix_sub_columns_def inv_mix_sub_columns_def unmix_column)

lemma inv_shift_shift: "length s = 16 \<Longrightarrow> inv_shift_rows (shift_rows s) = s"
  by (elim list16) (simp add: shift_rows_def inv_shift_rows_def)

lemma byte_of_word32_xor: "byte_of_word32 i (v XOR w) = byte_of_word32 i v XOR byte_of_word32 i w"
  by (simp add: byte_of_word32_def) (simp add: bit_eq_iff bit_simps)

lemma bytes_of_words: "length s = 16 \<Longrightarrow> bytes_of (words_of s) = s \<and> length (words_of s) = 4"
  by (elim list16) (simp add: bytes_of_def)

lemma words_of_take: "16 \<le> length key \<Longrightarrow> take 4 (words_of key) = words_of (take 16 key)"
proof -
  assume "16 \<le> length key"
  then obtain a b where "key = a @ b" "length a = 16" by (metis append_take_drop_id length_take min.absorb2)
  then show ?thesis by (elim list16) simp
qed

text \<open>The word-wise addition is the byte-wise one.\<close>

lemma add_round_key_bytes:
  assumes "length s = 16" "16 \<le> length key"
  shows "add_round_key s key = map2 (XOR) s (take 16 key)"
proof -
  have l: "length (take 16 key) = 16" using assms(2) by simp
  have w: "take 4 (words_of s) = words_of s" using bytes_of_words[OF assms(1)] by simp
  show ?thesis
    unfolding add_round_key_def words_of_take[OF assms(2)] w using assms(1) l
    by (elim list16) (simp add: bytes_of_def byte_of_word32_xor)
qed

lemma length_add_round_key [simp]: "length s = 16 \<Longrightarrow> 16 \<le> length key \<Longrightarrow> length (add_round_key s key) = 16"
  by (simp add: add_round_key_bytes)

lemma map2_xor_self: "length s = length k \<Longrightarrow> map2 (XOR) (map2 (XOR) s k) k = (s :: 'a::len word list)"
  by (intro nth_equalityI) (simp_all add: xor.assoc)

lemma add_round_key_twice: "length s = 16 \<Longrightarrow> 16 \<le> length key \<Longrightarrow> add_round_key (add_round_key s key) key = s"
  by (simp add: add_round_key_bytes map2_xor_self)

lemma length_steps [simp]: "length (mix_sub_columns s) = 16" "length (shift_rows s) = length s"
  by (simp_all add: mix_sub_columns_def shift_rows_def Let_def)

lemma length_aes_expand_loop: "length (aes_expand_loop n idx k) = length k + 4 * n"
  by (induction n idx k rule: aes_expand_loop.induct) (auto simp: Let_def split: prod.splits if_splits)

lemma length_aes_expand_key: "length key = 16 \<Longrightarrow> length (aes_expand_key key) = 176"
  by (simp add: aes_expand_key_def length_aes_expand_loop)

section \<open>Decryption undoes encryption\<close>

lemma length_encrypt_rounds:
  "length s = 16 \<Longrightarrow> 16 * (r + n) \<le> length k \<Longrightarrow> length (aes_encrypt_rounds k r n s) = 16"
  by (induction k r n s rule: aes_encrypt_rounds.induct) (simp_all add: Let_def)

lemma aes_encrypt_rounds_append:
  "aes_encrypt_rounds k r (n + j) s = aes_encrypt_rounds k (r + n) j (aes_encrypt_rounds k r n s)"
  by (induction n arbitrary: r s) (simp_all add: Let_def)

text \<open>The state that \<open>r\<close> rounds of decryption start from, for \<open>r\<close> below the last round.\<close>

lemma aes_decrypt_rounds_inverse:
  assumes "length k = 176" "length s = 16"
  shows "r < 10 \<Longrightarrow> aes_decrypt_rounds k (Suc r) (aes_encrypt_rounds k 1 r (add_round_key s k)) = s"
proof (induction r)
  case 0
  then show ?case using assms by (simp add: add_round_key_twice)
next
  case (Suc r)
  let ?e = "aes_encrypt_rounds k 1 r (add_round_key s k)"
  have len: "length ?e = 16" using assms Suc.prems by (simp add: length_encrypt_rounds)
  have "aes_encrypt_rounds k 1 (Suc r) (add_round_key s k) = add_round_key (mix_sub_columns ?e) (drop (16 * Suc r) k)"
    using aes_encrypt_rounds_append[of k 1 r 1 "add_round_key s k"] Suc.prems by (simp add: Let_def)
  then have "aes_decrypt_rounds k (Suc (Suc r)) (aes_encrypt_rounds k 1 (Suc r) (add_round_key s k)) = aes_decrypt_rounds k (Suc r) ?e"
    using assms(1) Suc.prems len by (simp add: Let_def add_round_key_twice inv_mix_mix del: aes_encrypt_rounds.simps aes_decrypt_rounds.simps(2)
      add: aes_decrypt_rounds.simps(2)[of k "Suc r"])
  then show ?case using Suc by simp
qed

lemma length_aes_encrypt: "length b = 16 \<Longrightarrow> length k = 176 \<Longrightarrow> length (aes_encrypt b k) = 16"
  by (simp add: aes_encrypt_def length_encrypt_rounds)

lemma aes_decrypt_encrypt:
  assumes "length b = 16" "length k = 176"
  shows "aes_decrypt (aes_encrypt b k) k = b"
proof -
  let ?e = "aes_encrypt_rounds k 1 9 (add_round_key b k)"
  have len: "length ?e = 16" using assms by (simp add: length_encrypt_rounds)
  have "aes_encrypt b k = add_round_key (shift_rows ?e) (drop 160 k)"
    using aes_encrypt_rounds_append[of k 1 9 1 "add_round_key b k"] assms(1) by (simp add: aes_encrypt_def Let_def)
  then have "aes_decrypt (aes_encrypt b k) k = aes_decrypt_rounds k 10 ?e"
    using assms len by (simp add: aes_decrypt_def add_round_key_twice inv_shift_shift)
  also have "\<dots> = b" using aes_decrypt_rounds_inverse[OF assms(2,1), of 9] by simp
  finally show ?thesis .
qed

section \<open>Cipher block chaining\<close>

definition load_block :: "mem \<Rightarrow> nat \<Rightarrow> u8 list option" where
  "load_block m a = (if a + 16 \<le> length m then Some (slice m a 16) else None)"

definition store_block :: "mem \<Rightarrow> nat \<Rightarrow> u8 list \<Rightarrow> mem option" where
  "store_block m a b = (if a + length b \<le> length m then Some (blit m a b) else None)"

definition aes_apply_cbc_chain_data :: "u8 list \<Rightarrow> u8 list \<Rightarrow> u8 list" where
  "aes_apply_cbc_chain_data cbc_chain_data src = map2 (XOR) (take 16 src) (take 16 cbc_chain_data)"

text \<open>While encrypting, the chain data is the zero block and then the block just written.\<close>

fun aes_cbc_encrypt_loop :: "u8 list \<Rightarrow> nat option \<Rightarrow> mem \<Rightarrow> nat \<Rightarrow> nat \<Rightarrow> nat \<Rightarrow> mem option" where
  "aes_cbc_encrypt_loop key_exp chain m src dst 0 = Some m"
| "aes_cbc_encrypt_loop key_exp chain m src dst (Suc n) = do {
     c \<leftarrow> (case chain of None \<Rightarrow> Some (replicate 16 0) | Some a \<Rightarrow> load_block m a);
     s \<leftarrow> load_block m src;
     m \<leftarrow> store_block m dst (aes_encrypt (aes_apply_cbc_chain_data c s) key_exp);
     aes_cbc_encrypt_loop key_exp (Some dst) m (src + 16) (dst + 16) n
   }"

definition aes_cbc_encrypt_blocks :: "u8 list \<Rightarrow> mem \<Rightarrow> nat \<Rightarrow> nat \<Rightarrow> nat \<Rightarrow> mem option" where
  "aes_cbc_encrypt_blocks key_exp m src dst n = aes_cbc_encrypt_loop key_exp None m src dst n"

fun aes_cbc_decrypt_loop :: "u8 list \<Rightarrow> u8 list \<Rightarrow> mem \<Rightarrow> nat \<Rightarrow> nat \<Rightarrow> nat \<Rightarrow> mem option" where
  "aes_cbc_decrypt_loop key_exp chain m src dst 0 = Some m"
| "aes_cbc_decrypt_loop key_exp chain m src dst (Suc n) = do {
     tmp_block \<leftarrow> load_block m src;
     let tmp_data = aes_decrypt tmp_block key_exp;
     m \<leftarrow> store_block m dst (aes_apply_cbc_chain_data chain tmp_data);
     aes_cbc_decrypt_loop key_exp tmp_block m (src + 16) (dst + 16) n
   }"

definition aes_cbc_decrypt_blocks :: "u8 list \<Rightarrow> mem \<Rightarrow> nat \<Rightarrow> nat \<Rightarrow> nat \<Rightarrow> mem option" where
  "aes_cbc_decrypt_blocks key_exp m src dst n = aes_cbc_decrypt_loop key_exp (replicate 16 0) m src dst n"

text \<open>The two modes on lists of blocks.\<close>

fun cbc_enc :: "u8 list \<Rightarrow> u8 list \<Rightarrow> u8 list list \<Rightarrow> u8 list list" where
  "cbc_enc k c [] = []"
| "cbc_enc k c (b # bs) = (let e = aes_encrypt (map2 (XOR) b c) k in e # cbc_enc k e bs)"

fun cbc_dec :: "u8 list \<Rightarrow> u8 list \<Rightarrow> u8 list list \<Rightarrow> u8 list list" where
  "cbc_dec k c [] = []"
| "cbc_dec k c (e # es) = map2 (XOR) (aes_decrypt e k) c # cbc_dec k e es"

abbreviation all16 :: "u8 list list \<Rightarrow> bool" where
  "all16 bs \<equiv> \<forall>b\<in>set bs. length b = 16"

lemma cbc_dec_enc: "length k = 176 \<Longrightarrow> length c = 16 \<Longrightarrow> all16 bs \<Longrightarrow> cbc_dec k c (cbc_enc k c bs) = bs"
  by (induction bs arbitrary: c) (simp_all add: Let_def aes_decrypt_encrypt length_aes_encrypt map2_xor_self)

lemma cbc_enc_all16: "length k = 176 \<Longrightarrow> length c = 16 \<Longrightarrow> all16 bs \<Longrightarrow> all16 (cbc_enc k c bs) \<and> length (cbc_enc k c bs) = length bs"
proof (induction bs arbitrary: c)
  case (Cons b bs)
  have e: "length (aes_encrypt (map2 (XOR) b c) k) = 16" using Cons.prems by (intro length_aes_encrypt) auto
  have "all16 bs" using Cons.prems by simp
  from Cons.IH[OF Cons.prems(1) e this] e show ?case by (simp add: Let_def)
qed simp

fun blocks :: "mem \<Rightarrow> nat \<Rightarrow> nat \<Rightarrow> u8 list list" where
  "blocks m a 0 = []"
| "blocks m a (Suc n) = slice m a 16 # blocks m (a + 16) n"

lemma length_blocks [simp]: "length (blocks m a n) = n"
  by (induction n arbitrary: a) auto

lemma blocks_all16: "a + 16 * n \<le> length m \<Longrightarrow> all16 (blocks m a n)"
proof (induction n arbitrary: a)
  case (Suc n)
  have "all16 (blocks m (a + 16) n)" by (rule Suc.IH) (use Suc.prems in simp)
  moreover have "length (slice m a 16) = 16" using Suc.prems by simp
  ultimately show ?case by simp
qed simp

lemma concat_blocks: "a + 16 * n \<le> length m \<Longrightarrow> concat (blocks m a n) = slice m a (16 * n)"
proof (induction n arbitrary: a)
  case (Suc n)
  then show ?case using slice_add[of m a 16 "16 * n"] by simp
qed (simp add: slice_def)

lemma blocks_blit_other:
  "b + length xs \<le> a \<or> a + 16 * n \<le> b \<Longrightarrow> a + 16 * n \<le> length m \<Longrightarrow> b + length xs \<le> length m \<Longrightarrow>
     blocks (blit m b xs) a n = blocks m a n"
proof (induction n arbitrary: a)
  case (Suc n)
  have "slice (blit m b xs) a 16 = slice m a 16" using Suc.prems by (intro slice_blit_other) auto
  then show ?case using Suc by auto
qed simp

lemma length_concat16: "all16 bs \<Longrightarrow> length (concat bs) = 16 * length bs"
  by (induction bs) auto

lemma blocks_blit:
  "all16 bs \<Longrightarrow> a + 16 * length bs \<le> length m \<Longrightarrow> blocks (blit m a (concat bs)) a (length bs) = bs"
proof (induction bs arbitrary: a m)
  case (Cons b bs)
  let ?m = "blit m a b"
  have len: "length b = 16" "length ?m = length m" "length (concat bs) = 16 * length bs"
    using Cons.prems length_concat16 by auto
  have e: "blit m a (concat (b # bs)) = blit ?m (a + 16) (concat bs)"
    using blit_blit[of a b "concat bs" m] Cons.prems len by simp
  have "slice (blit ?m (a + 16) (concat bs)) a 16 = slice ?m a 16"
    using Cons.prems len by (intro slice_blit_other) auto
  also have "\<dots> = b" using slice_blit[of a b m] Cons.prems len by simp
  finally show ?case unfolding e using Cons.IH[of "a + 16" ?m] Cons.prems len by simp
qed simp

lemma cbc_dec_all16:
  "length k = 176 \<Longrightarrow> all16 es \<Longrightarrow> length c = 16 \<Longrightarrow> \<forall>e\<in>set es. length (aes_decrypt e k) = 16 \<Longrightarrow> all16 (cbc_dec k c es) \<and> length (cbc_dec k c es) = length es"
  by (induction es arbitrary: c) auto

lemma encrypt_loop_blit:
  assumes "length k = 176"
  shows "dst \<le> src \<or> src + 16 * n \<le> dst \<Longrightarrow> src + 16 * n \<le> length m \<Longrightarrow> dst + 16 * n \<le> length m \<Longrightarrow> length c = 16 \<Longrightarrow>
    (case chain of None \<Rightarrow> c = replicate 16 0 | Some a \<Rightarrow> a + 16 \<le> length m \<and> slice m a 16 = c) \<Longrightarrow>
    aes_cbc_encrypt_loop k chain m src dst n = Some (blit m dst (concat (cbc_enc k c (blocks m src n))))"
proof (induction n arbitrary: m src dst c chain)
  case (Suc n)
  define e where "e = aes_encrypt (map2 (XOR) (slice m src 16) c) k"
  let ?m = "blit m dst e"
  have in_mem: "src + 16 \<le> length m" "dst + 16 \<le> length m" using Suc.prems by auto
  have e: "length e = 16" unfolding e_def using assms Suc.prems(4) in_mem by (intro length_aes_encrypt) auto
  have "(case chain of None \<Rightarrow> Some (replicate 16 0) | Some a \<Rightarrow> load_block m a) = Some c"
    using Suc.prems(5) by (auto simp: load_block_def split: option.splits)
  then have "aes_cbc_encrypt_loop k chain m src dst (Suc n) = aes_cbc_encrypt_loop k (Some dst) ?m (src + 16) (dst + 16) n"
    using in_mem e Suc.prems(4) by (simp add: load_block_def store_block_def aes_apply_cbc_chain_data_def flip: e_def)
  also have "\<dots> = Some (blit ?m (dst + 16) (concat (cbc_enc k e (blocks ?m (src + 16) n))))"
    using Suc.prems in_mem e slice_blit[of dst e m] by (intro Suc.IH) auto
  also have "blocks ?m (src + 16) n = blocks m (src + 16) n"
    using Suc.prems e by (intro blocks_blit_other) auto
  also have "blit ?m (dst + 16) (concat (cbc_enc k e (blocks m (src + 16) n))) =
      blit m dst (concat (cbc_enc k c (blocks m src (Suc n))))"
  proof -
    have "length (concat (cbc_enc k e (blocks m (src + 16) n))) = 16 * n"
      using cbc_enc_all16[OF assms e blocks_all16[of "src + 16" n m]] Suc.prems(2) length_concat16 by simp
    then show ?thesis
      using blit_blit[of dst e "concat (cbc_enc k e (blocks m (src + 16) n))" m] Suc.prems(3) e by (simp add: Let_def e_def)
  qed
  finally show ?case .
qed simp

lemma length_inv_steps [simp]: "length (inv_mix_sub_columns s) = 16" "length (inv_shift_rows s) = length s"
  by (simp_all add: inv_mix_sub_columns_def inv_shift_rows_def Let_def)

lemma length_aes_decrypt: "length b = 16 \<Longrightarrow> length k = 176 \<Longrightarrow> length (aes_decrypt b k) = 16"
proof -
  have "length s = 16 \<Longrightarrow> length k = 176 \<Longrightarrow> r \<le> 10 \<Longrightarrow> length (aes_decrypt_rounds k r s) = 16" for r s
    by (induction r arbitrary: s) (simp_all add: Let_def)
  then show "length b = 16 \<Longrightarrow> length k = 176 \<Longrightarrow> length (aes_decrypt b k) = 16" by (simp add: aes_decrypt_def)
qed

lemma decrypt_loop_blit:
  assumes "length k = 176"
  shows "dst \<le> src \<or> src + 16 * n \<le> dst \<Longrightarrow> src + 16 * n \<le> length m \<Longrightarrow> dst + 16 * n \<le> length m \<Longrightarrow> length c = 16 \<Longrightarrow>
    aes_cbc_decrypt_loop k c m src dst n = Some (blit m dst (concat (cbc_dec k c (blocks m src n))))"
proof (induction n arbitrary: m src dst c)
  case (Suc n)
  define d where "d = map2 (XOR) (aes_decrypt (slice m src 16) k) c"
  let ?m = "blit m dst d"
  have in_mem: "src + 16 \<le> length m" "dst + 16 \<le> length m" using Suc.prems by auto
  have dl: "length (aes_decrypt (slice m src 16) k) = 16" using in_mem assms by (intro length_aes_decrypt) auto
  then have d: "length d = 16" using Suc.prems(4) by (simp add: d_def)
  have "aes_cbc_decrypt_loop k c m src dst (Suc n) = aes_cbc_decrypt_loop k (slice m src 16) ?m (src + 16) (dst + 16) n"
    using in_mem d dl Suc.prems(4) by (simp add: load_block_def store_block_def aes_apply_cbc_chain_data_def flip: d_def)
  also have "\<dots> = Some (blit ?m (dst + 16) (concat (cbc_dec k (slice m src 16) (blocks ?m (src + 16) n))))"
    using Suc.prems in_mem d by (intro Suc.IH) auto
  also have "blocks ?m (src + 16) n = blocks m (src + 16) n"
    using Suc.prems d by (intro blocks_blit_other) auto
  also have "blit ?m (dst + 16) (concat (cbc_dec k (slice m src 16) (blocks m (src + 16) n))) =
      blit m dst (concat (cbc_dec k c (blocks m src (Suc n))))"
  proof -
    let ?bs = "blocks m (src + 16) n"
    have a16: "all16 ?bs" using Suc.prems(2) by (intro blocks_all16) simp
    have "all16 (cbc_dec k (slice m src 16) ?bs) \<and> length (cbc_dec k (slice m src 16) ?bs) = length ?bs"
      using a16 in_mem length_aes_decrypt[OF _ assms] by (intro cbc_dec_all16 assms) auto
    then have "length (concat (cbc_dec k (slice m src 16) ?bs)) = 16 * n" using length_concat16 by simp
    then show ?thesis
      using blit_blit[of dst d "concat (cbc_dec k (slice m src 16) ?bs)" m] Suc.prems(3) d by (simp add: d_def)
  qed
  finally show ?case .
qed simp

lemma aes_cbc_restores:
  assumes "length key = 16"
    and "dst \<le> src \<or> src + 16 * n \<le> dst" and "out \<le> dst \<or> dst + 16 * n \<le> out"
    and "src + 16 * n \<le> length m" and "dst + 16 * n \<le> length m" and "out + 16 * n \<le> length m"
  shows "\<exists>m1 m2. aes_cbc_encrypt_blocks (aes_expand_key key) m src dst n = Some m1 \<and>
    aes_cbc_decrypt_blocks (aes_expand_key key) m1 dst out n = Some m2 \<and>
    length m1 = length m \<and> length m2 = length m \<and> slice m2 out (16 * n) = slice m src (16 * n)"
proof -
  let ?k = "aes_expand_key key" and ?z = "replicate 16 0 :: u8 list" and ?bs = "blocks m src n"
  have k: "length ?k = 176" by (rule length_aes_expand_key[OF assms(1)])
  have bs: "all16 ?bs" using assms(4) by (rule blocks_all16)
  let ?es = "cbc_enc ?k ?z ?bs"
  have es: "all16 ?es" "length ?es = n" using cbc_enc_all16[OF k _ bs, of ?z] by simp_all
  let ?m1 = "blit m dst (concat ?es)"
  have len: "length (concat ?es) = 16 * n" "length ?m1 = length m" using length_concat16[OF es(1)] es(2) assms(5) by simp_all
  have e: "aes_cbc_encrypt_blocks ?k m src dst n = Some ?m1"
    unfolding aes_cbc_encrypt_blocks_def using assms by (intro encrypt_loop_blit k) auto
  have "blocks ?m1 dst n = ?es" using blocks_blit[OF es(1), of dst m] es(2) assms(5) by simp
  then have d: "aes_cbc_decrypt_blocks ?k ?m1 dst out n = Some (blit ?m1 out (concat ?bs))"
    unfolding aes_cbc_decrypt_blocks_def using assms len decrypt_loop_blit[OF k, of out dst n ?m1 ?z] cbc_dec_enc[OF k _ bs, of ?z] by simp
  have "length (concat ?bs) = 16 * n" using length_concat16[OF bs] by simp
  then have "slice (blit ?m1 out (concat ?bs)) out (16 * n) = slice m src (16 * n)"
    using slice_blit[of out "concat ?bs" ?m1] assms(6) len(2) concat_blocks[OF assms(4)] by metis
  moreover have "length (blit ?m1 out (concat ?bs)) = length m" using len(2) \<open>length (concat ?bs) = 16 * n\<close> assms(6) by simp
  ultimately show ?thesis using e d len(2) by blast
qed

text \<open>C21: AES decryption undoes encryption, for whole messages in memory: for every key, a message of
  any number of blocks that \<open>aes_cbc_encrypt_blocks\<close> encrypts is restored by
  \<open>aes_cbc_decrypt_blocks\<close>, both also in place (destination and source the same area) or into any
  area that does not lie across the source from above. The proof covers the eight tables.\<close>

theorem aes_cbc_roundtrip:
  assumes "length key = 16"
    and "dst \<le> src \<or> src + 16 * n \<le> dst" and "out \<le> dst \<or> dst + 16 * n \<le> out"
    and "src + 16 * n \<le> length m" and "dst + 16 * n \<le> length m" and "out + 16 * n \<le> length m"
  shows "\<exists>m1 m2. aes_cbc_encrypt_blocks (aes_expand_key key) m src dst n = Some m1 \<and>
    aes_cbc_decrypt_blocks (aes_expand_key key) m1 dst out n = Some m2 \<and>
    slice m2 out (16 * n) = slice m src (16 * n)"
  using aes_cbc_restores[OF assms] by blast

theorem aes_cbc_roundtrip_witness:
  "\<exists>m1 m2. aes_cbc_encrypt_blocks (aes_expand_key (replicate 16 7)) (replicate 40 1) 4 0 2 = Some m1 \<and>
    aes_cbc_decrypt_blocks (aes_expand_key (replicate 16 7)) m1 0 0 2 = Some m2 \<and>
    slice m2 0 (16 * 2) = slice (replicate 40 1) 4 (16 * 2)"
  using aes_cbc_roundtrip[of "replicate 16 7" 0 4 2 0 "replicate 40 1"] by simp

end
