(* ===== verification/Stream_Hash.thy ===== *)
theory Stream_Hash
  imports Cstring
begin

text \<open>
  The contract of a hash that absorbs a message in pieces, and the machinery that SHA-1, SHA-256 and
  MD5 share: cutting a message into 64-byte blocks, the buffered update and the padding with the
  64-bit length. The update is the same text in \<open>lib/sha1.c\<close> and \<open>lib/sha256.c\<close>, here once with the
  block function as a parameter. The client lemma says that the digest depends on the message only
  and not on the pieces in which it arrives.
\<close>

section \<open>The contract\<close>

locale stream_hash =
  fixes starts :: "'c \<Rightarrow> 'c"
    and update :: "'c \<Rightarrow> u8 list \<Rightarrow> 'c"
    and finish :: "'c \<Rightarrow> u8 list"
    and absorbed :: "'c \<Rightarrow> u8 list \<Rightarrow> bool"
    and digest :: "u8 list \<Rightarrow> u8 list"
    and wf :: "'c \<Rightarrow> bool"
  assumes absorbed_starts: "wf junk \<Longrightarrow> absorbed (starts junk) []"
    and absorbed_update: "absorbed ctx msg \<Longrightarrow> length xs < 2 ^ 32 \<Longrightarrow> absorbed (update ctx xs) (msg @ xs)"
    and absorbed_finish: "absorbed ctx msg \<Longrightarrow> finish ctx = digest msg"
begin

lemma absorbed_pieces:
  "absorbed ctx msg \<Longrightarrow> \<forall>c\<in>set cs. length c < 2 ^ 32 \<Longrightarrow> absorbed (foldl update ctx cs) (msg @ concat cs)"
proof (induction cs arbitrary: ctx msg)
  case (Cons c cs)
  then show ?case using Cons.IH[of "update ctx c" "msg @ c"] absorbed_update[of ctx msg c] by simp
qed simp

lemma finish_pieces:
  "wf junk \<Longrightarrow> \<forall>c\<in>set cs. length c < 2 ^ 32 \<Longrightarrow> finish (foldl update (starts junk) cs) = digest (concat cs)"
  using absorbed_pieces[OF absorbed_starts, of junk cs] absorbed_finish by simp

end

section \<open>Watchdog loops\<close>

text \<open>
  The loop of the \<open>_wd\<close> variants: \<open>chunk_sz\<close> bytes at a time, with a watchdog reset in between. A
  chunk size of zero makes no progress and never returns, the value \<open>None\<close>.
\<close>

partial_function (option) csum_wd_loop :: "('c \<Rightarrow> u8 list \<Rightarrow> 'c) \<Rightarrow> nat \<Rightarrow> 'c \<Rightarrow> u8 list \<Rightarrow> 'c option" where
  "csum_wd_loop update chunk_sz ctx cur =
     (if cur = [] then Some ctx
      else let chunk = (if length cur > chunk_sz then chunk_sz else length cur)
           in csum_wd_loop update chunk_sz (update ctx (take chunk cur)) (drop chunk cur))"

declare csum_wd_loop.simps [code]

fun pieces :: "nat \<Rightarrow> nat \<Rightarrow> u8 list \<Rightarrow> u8 list list" where
  "pieces k 0 xs = []"
| "pieces k (Suc n) xs = (if xs = [] then [] else take k xs # pieces k n (drop k xs))"

lemma pieces_concat: "0 < k \<Longrightarrow> length xs \<le> n \<Longrightarrow> concat (pieces k n xs) = xs"
  by (induction k n xs rule: pieces.induct) auto

lemma pieces_length: "c \<in> set (pieces k n xs) \<Longrightarrow> length c \<le> k"
  by (induction k n xs rule: pieces.induct) (auto split: if_splits)

lemma csum_wd_loop_pieces:
  "0 < k \<Longrightarrow> length xs \<le> n \<Longrightarrow> csum_wd_loop update k ctx xs = Some (foldl update ctx (pieces k n xs))"
proof (induction k n xs arbitrary: ctx rule: pieces.induct)
  case (2 k n xs)
  show ?case
  proof (cases "xs = []")
    case False
    then have "csum_wd_loop update k ctx xs = csum_wd_loop update k (update ctx (take k xs)) (drop k xs)"
      by (subst csum_wd_loop.simps) (simp add: Let_def)
    then show ?thesis using False 2 by (cases xs) auto
  qed (simp add: csum_wd_loop.simps)
qed (simp add: csum_wd_loop.simps)

context stream_hash
begin

lemma finish_watchdog:
  assumes "wf junk" "0 < k" "k < 2 ^ 32"
  shows "map_option finish (csum_wd_loop update k (starts junk) xs) = Some (digest xs)"
proof -
  have "\<forall>c\<in>set (pieces k (length xs) xs). length c < 2 ^ 32"
    using assms(3) pieces_length by fastforce
  then show ?thesis
    using finish_pieces[OF assms(1)] assms(2) by (simp add: csum_wd_loop_pieces[of k xs "length xs"] pieces_concat)
qed

end

section \<open>Messages in blocks\<close>

record 's hash_ctx =
  total0 :: u32
  total1 :: u32
  hstate :: 's
  hbuffer :: "u8 list"

text \<open>The loop \<open>while (length >= 64)\<close>: the state and the rest of the input.\<close>

function md_blocks :: "('s \<Rightarrow> u8 list \<Rightarrow> 's) \<Rightarrow> 's \<Rightarrow> u8 list \<Rightarrow> 's \<times> u8 list" where
  "md_blocks process st input =
     (if 64 \<le> length input then md_blocks process (process st (take 64 input)) (drop 64 input) else (st, input))"
  by pat_completeness auto
termination
  by (relation "measure (\<lambda>(process, st, input). length input)") auto

declare md_blocks.simps [simp del]

definition md_update :: "('s \<Rightarrow> u8 list \<Rightarrow> 's) \<Rightarrow> 's hash_ctx \<Rightarrow> u8 list \<Rightarrow> 's hash_ctx" where
  "md_update process ctx input =
     (if input = [] then ctx
      else let left = unat (total0 ctx AND 0x3F);
               fill = 64 - left;
               t0 = total0 ctx + word_of_nat (length input);
               t1 = (if t0 < word_of_nat (length input) then total1 ctx + 1 else total1 ctx);
               (st, buf, input, left) =
                 (if left \<noteq> 0 \<and> length input \<ge> fill
                  then let buf = blit (hbuffer ctx) left (take fill input)
                       in (process (hstate ctx) buf, buf, drop fill input, 0)
                  else (hstate ctx, hbuffer ctx, input, left));
               (st, rest) = md_blocks process st input
           in \<lparr>total0 = t0, total1 = t1, hstate = st,
               hbuffer = (if rest \<noteq> [] then blit buf left rest else buf)\<rparr>)"

lemma md_blocks_short: "length xs < 64 \<Longrightarrow> md_blocks p st xs = (st, xs)"
  by (subst md_blocks.simps) simp

lemma md_blocks_step: "length b = 64 \<Longrightarrow> md_blocks p st (b @ xs) = md_blocks p (p st b) xs"
  by (subst md_blocks.simps) simp

lemma md_blocks_append: "md_blocks p st (xs @ ys) = (case md_blocks p st xs of (st', r) \<Rightarrow> md_blocks p st' (r @ ys))"
proof (induction p st xs rule: md_blocks.induct)
  case (1 p st xs)
  show ?case
  proof (cases "64 \<le> length xs")
    case True
    have "md_blocks p st (xs @ ys) = md_blocks p (p st (take 64 xs)) (drop 64 xs @ ys)"
      using True by (subst md_blocks.simps) simp
    then show ?thesis using 1[OF True] True by (simp add: md_blocks.simps[of p st xs])
  next
    case False
    then show ?thesis by (simp add: md_blocks.simps[of p st xs])
  qed
qed

lemma length_md_rest: "length (snd (md_blocks p st xs)) = length xs mod 64"
proof (induction p st xs rule: md_blocks.induct)
  case (1 p st xs)
  show ?case
  proof (cases "64 \<le> length xs")
    case True
    then show ?thesis using 1[OF True] by (simp add: md_blocks.simps[of p st xs] le_mod_geq)
  qed (simp add: md_blocks_short)
qed

section \<open>The buffered update\<close>

text \<open>What a context holds after a message: its length, the state after its whole blocks, and the
  bytes behind them.\<close>

definition md_absorbed :: "('s \<Rightarrow> u8 list \<Rightarrow> 's) \<Rightarrow> 's \<Rightarrow> 's hash_ctx \<Rightarrow> u8 list \<Rightarrow> bool" where
  "md_absorbed p iv ctx msg \<longleftrightarrow>
     length (hbuffer ctx) = 64 \<and>
     (push_bit 32 (ucast (total1 ctx)) + ucast (total0 ctx) :: u64) = word_of_nat (length msg) \<and>
     md_blocks p iv msg = (hstate ctx, take (length msg mod 64) (hbuffer ctx))"

abbreviation md_total :: "u32 \<Rightarrow> u32 \<Rightarrow> u64" where
  "md_total t1 t0 \<equiv> push_bit 32 (ucast t1) + ucast t0"

lemma md_total_nat: "md_total t1 t0 = word_of_nat (unat t1 * 2 ^ 32 + unat t0)"
  by (simp add: push_bit_eq_mult)

lemma word64_eq_iff: "(word_of_nat a :: u64) = word_of_nat b \<longleftrightarrow> a mod 2 ^ 64 = b mod 2 ^ 64"
  by (simp add: word_of_nat_eq_iff take_bit_eq_mod)

lemma md_total_add:
  assumes "n < 2 ^ 32"
  shows "md_total (if t0 + word_of_nat n < (word_of_nat n :: u32) then t1 + 1 else t1) (t0 + word_of_nat n) = md_total t1 t0 + word_of_nat n"
proof -
  let ?s = "t0 + word_of_nat n"
  have n: "unat (word_of_nat n :: u32) = n" using assms by (simp add: unat_of_nat)
  have s: "unat ?s = (unat t0 + n) mod 2 ^ 32" by (simp add: unat_word_ariths n)
  have t0: "unat t0 < 2 ^ 32" by (rule unat_u32_less)
  show ?thesis
  proof (cases "unat t0 + n < 2 ^ 32")
    case True
    then have "\<not> ?s < word_of_nat n" "unat ?s = unat t0 + n" using s n by (simp_all add: word_less_nat_alt)
    then show ?thesis unfolding md_total_nat by (simp add: add.assoc)
  next
    case False
    then have e: "unat ?s + 2 ^ 32 = unat t0 + n" using s t0 assms by (simp add: le_mod_geq)
    then have lt: "?s < word_of_nat n" using n t0 by (simp add: word_less_nat_alt)
    have "(unat (t1 + 1) * 2 ^ 32) mod 2 ^ 64 = ((unat t1 + 1) * 2 ^ 32) mod 2 ^ 64"
    proof -
      have "unat (t1 + 1) = (unat t1 + 1) mod 2 ^ 32" by (simp add: unat_word_ariths)
      then have "unat (t1 + 1) * 2 ^ 32 = ((unat t1 + 1) * 2 ^ 32) mod (2 ^ 32 * 2 ^ 32)" by (simp add: mult_mod_left)
      then show ?thesis by simp
    qed
    then have "(unat (t1 + 1) * 2 ^ 32 + unat ?s) mod 2 ^ 64 = ((unat t1 + 1) * 2 ^ 32 + unat ?s) mod 2 ^ 64"
      by (rule mod_add_cong[OF _ refl])
    also have "(unat t1 + 1) * 2 ^ 32 + unat ?s = unat t1 * 2 ^ 32 + unat t0 + n" using e by simp
    finally have "(word_of_nat (unat (t1 + 1) * 2 ^ 32 + unat ?s) :: u64) = word_of_nat (unat t1 * 2 ^ 32 + unat t0) + word_of_nat n"
      by (simp only: word64_eq_iff of_nat_add[symmetric])
    then show ?thesis using lt unfolding md_total_nat by (simp only: if_True)
  qed
qed

lemma unat_and_3F: "unat (w AND 0x3F :: u32) = unat w mod 64"
proof -
  have "w AND 0x3F = take_bit 6 w" by (simp add: take_bit_eq_mask mask_eq_exp_minus_1)
  moreover have "unat (take_bit 6 w) = take_bit 6 (unat w)" by (rule unsigned_take_bit_eq)
  ultimately show ?thesis by (simp add: take_bit_eq_mod)
qed

lemma md_total_left:
  assumes "md_total t1 t0 = word_of_nat n"
  shows "unat (t0 AND 0x3F) = n mod 64"
proof -
  have "(unat t1 * 2 ^ 32 + unat t0) mod 2 ^ 64 mod 64 = n mod 2 ^ 64 mod 64"
    using assms unfolding md_total_nat by (simp only: word64_eq_iff)
  then have "(unat t1 * 2 ^ 32 + unat t0) mod 64 = n mod 64" by (simp add: mod_mod_cancel)
  moreover have "unat t1 * 2 ^ 32 + unat t0 = unat t0 + 64 * (unat t1 * 2 ^ 26)" by simp
  then have "(unat t1 * 2 ^ 32 + unat t0) mod 64 = unat t0 mod 64" by (simp only: mod_mult_self2)
  ultimately show ?thesis by (simp add: unat_and_3F)
qed

lemma take_blit: "a + length xs \<le> length m \<Longrightarrow> take (a + length xs) (blit m a xs) = take a m @ xs"
  by (simp add: blit_def)

lemma md_update_absorbed:
  assumes abs: "md_absorbed p iv ctx msg" and len: "length xs < 2 ^ 32"
  shows "md_absorbed p iv (md_update p ctx xs) (msg @ xs)"
proof (cases "xs = []")
  case True
  then show ?thesis using abs by (simp add: md_update_def)
next
  case False
  define left where "left = length msg mod 64"
  define r where "r = take left (hbuffer ctx)"
  have buf: "length (hbuffer ctx) = 64" and tot: "md_total (total1 ctx) (total0 ctx) = word_of_nat (length msg)"
    and blk: "md_blocks p iv msg = (hstate ctx, r)"
    using abs by (simp_all add: md_absorbed_def left_def r_def)
  have left: "unat (total0 ctx AND 0x3F) = left" using md_total_left[OF tot] by (simp add: left_def)
  have l64: "left < 64" by (simp add: left_def)
  have rl: "length r = left" using buf l64 by (simp add: r_def)
  have total: "md_total (total1 (md_update p ctx xs)) (total0 (md_update p ctx xs)) = word_of_nat (length (msg @ xs))"
    using md_total_add[OF len, of "total0 ctx" "total1 ctx"] tot False
    by (auto simp: md_update_def Let_def split: prod.splits if_splits)
  have mod: "length (msg @ xs) mod 64 = (left + length xs) mod 64" by (simp add: left_def mod_add_left_eq)
  have all: "md_blocks p iv (msg @ xs) = md_blocks p (hstate ctx) (r @ xs)" by (subst md_blocks_append) (simp add: blk)
  have rest: "length (snd (md_blocks p (hstate ctx) (r @ xs))) = (left + length xs) mod 64" by (simp add: length_md_rest rl)
  show ?thesis
  proof (cases "left \<noteq> 0 \<and> 64 - left \<le> length xs")
    case True
    let ?b = "blit (hbuffer ctx) left (take (64 - left) xs)"
    have b: "?b = r @ take (64 - left) xs" "length ?b = 64" using True l64 buf by (simp_all add: blit_def r_def)
    have e: "md_blocks p (hstate ctx) (r @ xs) = md_blocks p (p (hstate ctx) ?b) (drop (64 - left) xs)"
      using md_blocks_step[OF b(2), of p "hstate ctx" "drop (64 - left) xs"] b(1) by simp
    obtain st rs where sr: "md_blocks p (p (hstate ctx) ?b) (drop (64 - left) xs) = (st, rs)" by (cases "md_blocks p (p (hstate ctx) ?b) (drop (64 - left) xs)")
    have rs: "length rs = (left + length xs) mod 64" using rest e sr by simp
    have "hstate (md_update p ctx xs) = st" "hbuffer (md_update p ctx xs) = (if rs \<noteq> [] then blit ?b 0 rs else ?b)"
      using False True left sr by (simp_all add: md_update_def Let_def)
    moreover have "length rs < 64" using rs by simp
    then have "take (length rs) (if rs \<noteq> [] then blit ?b 0 rs else ?b) = rs" "length (if rs \<noteq> [] then blit ?b 0 rs else ?b) = 64"
      using b(2) take_blit[of 0 rs ?b] length_blit[of 0 rs ?b] by auto
    ultimately show ?thesis using total e sr all rs unfolding md_absorbed_def mod by simp
  next
    case no_fill: False
    obtain st rs where sr: "md_blocks p (hstate ctx) xs = (st, rs)" by (cases "md_blocks p (hstate ctx) xs")
    have upd: "hstate (md_update p ctx xs) = st" "hbuffer (md_update p ctx xs) = (if rs \<noteq> [] then blit (hbuffer ctx) left rs else hbuffer ctx)"
      using False left sr no_fill by (cases "left = 0"; simp add: md_update_def Let_def)+
    have fin: "md_blocks p (hstate ctx) (r @ xs) = (st, r @ rs) \<and> left + length rs = (left + length xs) mod 64"
    proof (cases "left = 0")
      case True
      then show ?thesis using sr rl rest by simp
    next
      case False
      then have "left + length xs < 64" using no_fill l64 by auto
      then show ?thesis using sr rl by (simp add: md_blocks_short)
    qed
    then have "left + length rs < 64" by simp
    then have "take (left + length rs) (hbuffer (md_update p ctx xs)) = r @ rs" "length (hbuffer (md_update p ctx xs)) = 64"
      using buf upd(2) take_blit[of left rs "hbuffer ctx"] by (auto simp: r_def)
    then show ?thesis using total fin upd(1) all unfolding md_absorbed_def mod by simp
  qed
qed

section \<open>Padding\<close>

definition be32 :: "u32 \<Rightarrow> u8 list" where
  "be32 n = [ucast (drop_bit 24 n), ucast (drop_bit 16 n), ucast (drop_bit 8 n), ucast n]"

definition get_be32 :: "u8 list \<Rightarrow> nat \<Rightarrow> u32" where
  "get_be32 b i = push_bit 24 (ucast (b ! i)) OR push_bit 16 (ucast (b ! (i + 1))) OR
     push_bit 8 (ucast (b ! (i + 2))) OR ucast (b ! (i + 3))"

definition get_le32 :: "u8 list \<Rightarrow> nat \<Rightarrow> u32" where
  "get_le32 b i = ucast (b ! i) OR push_bit 8 (ucast (b ! (i + 1))) OR
     push_bit 16 (ucast (b ! (i + 2))) OR push_bit 24 (ucast (b ! (i + 3)))"

definition md_padding :: "u8 list" where
  "md_padding = 0x80 # replicate 63 0"

text \<open>The end of \<open>sha1_finish\<close> and \<open>sha256_finish\<close> up to the output of the state words, with the
  context they leave behind.\<close>

definition md_finish :: "(u32 list \<Rightarrow> u8 list \<Rightarrow> u32 list) \<Rightarrow> u32 list hash_ctx \<Rightarrow> u32 list hash_ctx" where
  "md_finish process ctx =
     (let high = drop_bit 29 (total0 ctx) OR push_bit 3 (total1 ctx);
          low = push_bit 3 (total0 ctx);
          msglen = be32 high @ be32 low;
          last = unat (total0 ctx AND 0x3F);
          padn = (if last < 56 then 56 - last else 120 - last);
          ctx = md_update process ctx (take padn md_padding)
      in md_update process ctx msglen)"

text \<open>The padded message of the standards: a one bit, zeros, and the length in bits.\<close>

definition be64 :: "u64 \<Rightarrow> u8 list" where
  "be64 n = map (\<lambda>k. ucast (drop_bit k n)) [56, 48, 40, 32, 24, 16, 8, 0]"

definition md_pad :: "u8 list \<Rightarrow> u8 list" where
  "md_pad msg = msg @ 0x80 # replicate ((119 - length msg mod 64) mod 64) 0 @ be64 (word_of_nat (8 * length msg))"

lemma length_md_pad: "length (md_pad msg) mod 64 = 0"
proof -
  define l where "l = length msg mod 64"
  have l: "l < 64" by (simp add: l_def)
  have "length (md_pad msg) = length msg + (9 + (119 - l) mod 64)" by (simp add: md_pad_def be64_def l_def)
  then have "length (md_pad msg) mod 64 = (l + (9 + (119 - l) mod 64)) mod 64" by (simp add: l_def mod_add_left_eq)
  also have "\<dots> = (l + 9 + (119 - l)) mod 64" by (simp add: mod_add_right_eq flip: add.assoc)
  also have "\<dots> = 0" using l by simp
  finally show ?thesis .
qed

lemma be_words: "be32 (drop_bit 29 t0 OR push_bit 3 t1) @ be32 (push_bit 3 t0) = be64 (push_bit 3 (push_bit 32 (ucast t1) OR ucast t0))"
  by (simp add: be32_def be64_def) (auto simp: bit_eq_iff bit_simps dest: bit_imp_le_length)

lemma push_or_add: "(push_bit 32 (ucast (t1 :: u32)) OR ucast (t0 :: u32) :: u64) = md_total t1 t0"
proof -
  have "(push_bit 32 (ucast t1) AND ucast t0 :: u64) = 0"
    by (auto simp: bit_eq_iff bit_simps dest: bit_imp_le_length)
  then show ?thesis by (simp add: disjunctive_add_eq_or)
qed

lemma md_finish_absorbed:
  assumes abs: "md_absorbed p iv ctx msg"
  shows "md_absorbed p iv (md_finish p ctx) (md_pad msg)"
proof -
  have tot: "md_total (total1 ctx) (total0 ctx) = word_of_nat (length msg)" using abs by (simp add: md_absorbed_def)
  define l where "l = length msg mod 64"
  have left: "unat (total0 ctx AND 0x3F) = l" using md_total_left[OF tot] by (simp add: l_def)
  define padn where "padn = (if l < 56 then 56 - l else 120 - l)"
  have l: "l < 64" by (simp add: l_def)
  have pad: "take padn md_padding = 0x80 # replicate ((119 - l) mod 64) 0"
    using l by (auto simp: padn_def md_padding_def le_mod_geq take_Cons' min_def)
  have "be32 (drop_bit 29 (total0 ctx) OR push_bit 3 (total1 ctx)) @ be32 (push_bit 3 (total0 ctx)) =
      be64 (word_of_nat (8 * length msg))"
    unfolding be_words push_or_add tot by (simp add: push_bit_eq_mult mult.commute)
  then have "md_finish p ctx = md_update p (md_update p ctx (take padn md_padding)) (be64 (word_of_nat (8 * length msg)))"
    by (simp add: md_finish_def Let_def left flip: padn_def)
  then show ?thesis
    using md_update_absorbed[OF md_update_absorbed[OF abs, of "take padn md_padding"], of "be64 (word_of_nat (8 * length msg))"] l
    unfolding pad by (simp add: md_pad_def l_def be64_def order.strict_trans1[of _ 63])
qed

text \<open>The digest of a message: its padded blocks folded from the initial value, written big-endian.\<close>

definition md_digest :: "(u32 list \<Rightarrow> u8 list \<Rightarrow> u32 list) \<Rightarrow> u32 list \<Rightarrow> u8 list \<Rightarrow> u8 list" where
  "md_digest p iv msg = concat (map be32 (fst (md_blocks p iv (md_pad msg))))"

lemma md_absorbed_start:
  "length (hbuffer ctx) = 64 \<Longrightarrow> total0 ctx = 0 \<Longrightarrow> total1 ctx = 0 \<Longrightarrow> hstate ctx = iv \<Longrightarrow> md_absorbed p iv ctx []"
  by (simp add: md_absorbed_def md_blocks_short)

text \<open>Two block functions that agree on the states that occur give the same digest.\<close>

lemma md_blocks_cong:
  assumes "\<And>st b. P st \<Longrightarrow> p st b = q st b" "\<And>st b. P st \<Longrightarrow> P (p st b)"
  shows "P st \<Longrightarrow> md_blocks p st xs = md_blocks q st xs"
proof (induction "length xs" arbitrary: st xs rule: less_induct)
  case less
  show ?case
  proof (cases "64 \<le> length xs")
    case True
    then have "md_blocks p (p st (take 64 xs)) (drop 64 xs) = md_blocks q (p st (take 64 xs)) (drop 64 xs)"
      using less.prems assms(2) by (intro less.hyps) simp_all
    then show ?thesis using True less.prems assms(1) by (simp add: md_blocks.simps[of _ st xs])
  qed (simp add: md_blocks_short)
qed

lemma md_digest_cong:
  assumes "P iv" "\<And>st b. P st \<Longrightarrow> p st b = q st b" "\<And>st b. P st \<Longrightarrow> P (p st b)"
  shows "md_digest p iv msg = md_digest q iv msg"
  using md_blocks_cong[where P = P, OF assms(2,3,1)] by (simp add: md_digest_def)

lemma md_finish_state:
  "md_absorbed p iv ctx msg \<Longrightarrow> hstate (md_finish p ctx) = fst (md_blocks p iv (md_pad msg))"
  using md_finish_absorbed[of p iv ctx msg] by (simp add: md_absorbed_def)

section \<open>Choice and majority\<close>

text \<open>The bitwise functions of the standards, and the forms in which the code computes them.\<close>

definition Ch :: "u32 \<Rightarrow> u32 \<Rightarrow> u32 \<Rightarrow> u32" where "Ch x y z = (x AND y) XOR (NOT x AND z)"
definition Maj :: "u32 \<Rightarrow> u32 \<Rightarrow> u32 \<Rightarrow> u32" where "Maj x y z = (x AND y) XOR (x AND z) XOR (y AND z)"

lemma Ch_xor: "z XOR (x AND (y XOR z)) = Ch x y z"
  by (auto simp: Ch_def bit_eq_iff bit_simps)

lemma Maj_or: "(x AND y) OR (z AND (x OR y)) = Maj x y z"
  by (auto simp: Maj_def bit_eq_iff bit_simps)

lemma and_all_ones: "x AND 0xFFFFFFFF = (x :: u32)"
proof -
  have "(0xFFFFFFFF :: u32) = - 1" by simp
  then show ?thesis by (simp only: and.right_neutral)
qed

lemma md_blocks_inv:
  assumes "\<And>st b. P st \<Longrightarrow> P (p st b)"
  shows "P st \<Longrightarrow> P (fst (md_blocks p st xs))"
proof (induction "length xs" arbitrary: st xs rule: less_induct)
  case less
  then show ?case using assms by (cases "64 \<le> length xs") (simp_all add: md_blocks.simps[of p st xs])
qed

lemma length_concat_be32: "length (concat (map be32 ws)) = 4 * length ws"
  by (induction ws) (simp_all add: be32_def)

text \<open>A rotation written with two shifts.\<close>

lemma shifts_word_rotl:
  assumes "0 < n" "n < 32"
  shows "push_bit n x OR drop_bit (32 - n) x = word_rotl n (x :: u32)"
proof (rule bit_word_eqI)
  fix i assume i: "i < LENGTH(32)"
  show "bit (push_bit n x OR drop_bit (32 - n) x) i \<longleftrightarrow> bit (word_rotl n x) i"
  proof (cases "n \<le> i")
    case True
    then have "\<not> bit x (32 - n + i)" "(i + (32 - n)) mod 32 = i - n" using assms i
      by (auto dest: bit_imp_le_length simp: le_mod_geq)
    then show ?thesis using True assms i by (auto simp: bit_simps word_rotl_eq_word_rotr)
  next
    case False
    then have "i + (32 - n) < 32" using assms by linarith
    then have "(i + (32 - n)) mod 32 = 32 - n + i" by (simp only: mod_less add.commute)
    then show ?thesis using False assms i by (simp add: bit_simps word_rotl_eq_word_rotr del: Nat.diff_add_assoc)
  qed
qed

end
