(* ===== verification/Sha256.thy ===== *)
theory Sha256
  imports Stream_Hash
begin

text \<open>
  SHA-256, \<open>lib/sha256.c\<close>. The macro \<open>P\<close> works on eight registers whose roles rotate: the table
  \<open>sha256_rounds\<close> lists its 64 calls in the order of the source, each with the registers (0 for A up to
  7 for H) that are passed as \<open>a\<close> to \<open>h\<close> and the constant. The word of a call is \<open>W[t]\<close> below 16 and
  \<open>R(t)\<close>, which appends \<open>W[t]\<close>, from 16 on. The unrolled rounds are then shown to be the round
  function of the standard, and the buffered interface to be a streaming hash.
\<close>

section \<open>The block function\<close>

definition SHR :: "u32 \<Rightarrow> nat \<Rightarrow> u32" where "SHR x n = drop_bit n (x AND 0xFFFFFFFF)"
definition ROTR :: "u32 \<Rightarrow> nat \<Rightarrow> u32" where "ROTR x n = SHR x n OR push_bit (32 - n) x"
definition S0 :: "u32 \<Rightarrow> u32" where "S0 x = ROTR x 7 XOR ROTR x 18 XOR SHR x 3"
definition S1 :: "u32 \<Rightarrow> u32" where "S1 x = ROTR x 17 XOR ROTR x 19 XOR SHR x 10"
definition S2 :: "u32 \<Rightarrow> u32" where "S2 x = ROTR x 2 XOR ROTR x 13 XOR ROTR x 22"
definition S3 :: "u32 \<Rightarrow> u32" where "S3 x = ROTR x 6 XOR ROTR x 11 XOR ROTR x 25"
definition F0 :: "u32 \<Rightarrow> u32 \<Rightarrow> u32 \<Rightarrow> u32" where "F0 x y z = (x AND y) OR (z AND (x OR y))"
definition F1 :: "u32 \<Rightarrow> u32 \<Rightarrow> u32 \<Rightarrow> u32" where "F1 x y z = z XOR (x AND (y XOR z))"

definition sha256_P :: "u32 list \<Rightarrow> nat list \<Rightarrow> u32 \<Rightarrow> u32 \<Rightarrow> u32 list" where
  "sha256_P v r x K =
     (let a = v ! (r ! 0); b = v ! (r ! 1); c = v ! (r ! 2); e = v ! (r ! 4);
          f = v ! (r ! 5); g = v ! (r ! 6); h = v ! (r ! 7);
          temp1 = h + S3 e + F1 e f g + K + x;
          temp2 = S2 a + F0 a b c;
          v = v[r ! 3 := v ! (r ! 3) + temp1]
      in v[r ! 7 := temp1 + temp2])"

definition sha256_rounds :: "(nat list \<times> u32) list" where
  "sha256_rounds = [
     ([0, 1, 2, 3, 4, 5, 6, 7], 0x428A2F98), ([7, 0, 1, 2, 3, 4, 5, 6], 0x71374491),
     ([6, 7, 0, 1, 2, 3, 4, 5], 0xB5C0FBCF), ([5, 6, 7, 0, 1, 2, 3, 4], 0xE9B5DBA5),
     ([4, 5, 6, 7, 0, 1, 2, 3], 0x3956C25B), ([3, 4, 5, 6, 7, 0, 1, 2], 0x59F111F1),
     ([2, 3, 4, 5, 6, 7, 0, 1], 0x923F82A4), ([1, 2, 3, 4, 5, 6, 7, 0], 0xAB1C5ED5),
     ([0, 1, 2, 3, 4, 5, 6, 7], 0xD807AA98), ([7, 0, 1, 2, 3, 4, 5, 6], 0x12835B01),
     ([6, 7, 0, 1, 2, 3, 4, 5], 0x243185BE), ([5, 6, 7, 0, 1, 2, 3, 4], 0x550C7DC3),
     ([4, 5, 6, 7, 0, 1, 2, 3], 0x72BE5D74), ([3, 4, 5, 6, 7, 0, 1, 2], 0x80DEB1FE),
     ([2, 3, 4, 5, 6, 7, 0, 1], 0x9BDC06A7), ([1, 2, 3, 4, 5, 6, 7, 0], 0xC19BF174),
     ([0, 1, 2, 3, 4, 5, 6, 7], 0xE49B69C1), ([7, 0, 1, 2, 3, 4, 5, 6], 0xEFBE4786),
     ([6, 7, 0, 1, 2, 3, 4, 5], 0x0FC19DC6), ([5, 6, 7, 0, 1, 2, 3, 4], 0x240CA1CC),
     ([4, 5, 6, 7, 0, 1, 2, 3], 0x2DE92C6F), ([3, 4, 5, 6, 7, 0, 1, 2], 0x4A7484AA),
     ([2, 3, 4, 5, 6, 7, 0, 1], 0x5CB0A9DC), ([1, 2, 3, 4, 5, 6, 7, 0], 0x76F988DA),
     ([0, 1, 2, 3, 4, 5, 6, 7], 0x983E5152), ([7, 0, 1, 2, 3, 4, 5, 6], 0xA831C66D),
     ([6, 7, 0, 1, 2, 3, 4, 5], 0xB00327C8), ([5, 6, 7, 0, 1, 2, 3, 4], 0xBF597FC7),
     ([4, 5, 6, 7, 0, 1, 2, 3], 0xC6E00BF3), ([3, 4, 5, 6, 7, 0, 1, 2], 0xD5A79147),
     ([2, 3, 4, 5, 6, 7, 0, 1], 0x06CA6351), ([1, 2, 3, 4, 5, 6, 7, 0], 0x14292967),
     ([0, 1, 2, 3, 4, 5, 6, 7], 0x27B70A85), ([7, 0, 1, 2, 3, 4, 5, 6], 0x2E1B2138),
     ([6, 7, 0, 1, 2, 3, 4, 5], 0x4D2C6DFC), ([5, 6, 7, 0, 1, 2, 3, 4], 0x53380D13),
     ([4, 5, 6, 7, 0, 1, 2, 3], 0x650A7354), ([3, 4, 5, 6, 7, 0, 1, 2], 0x766A0ABB),
     ([2, 3, 4, 5, 6, 7, 0, 1], 0x81C2C92E), ([1, 2, 3, 4, 5, 6, 7, 0], 0x92722C85),
     ([0, 1, 2, 3, 4, 5, 6, 7], 0xA2BFE8A1), ([7, 0, 1, 2, 3, 4, 5, 6], 0xA81A664B),
     ([6, 7, 0, 1, 2, 3, 4, 5], 0xC24B8B70), ([5, 6, 7, 0, 1, 2, 3, 4], 0xC76C51A3),
     ([4, 5, 6, 7, 0, 1, 2, 3], 0xD192E819), ([3, 4, 5, 6, 7, 0, 1, 2], 0xD6990624),
     ([2, 3, 4, 5, 6, 7, 0, 1], 0xF40E3585), ([1, 2, 3, 4, 5, 6, 7, 0], 0x106AA070),
     ([0, 1, 2, 3, 4, 5, 6, 7], 0x19A4C116), ([7, 0, 1, 2, 3, 4, 5, 6], 0x1E376C08),
     ([6, 7, 0, 1, 2, 3, 4, 5], 0x2748774C), ([5, 6, 7, 0, 1, 2, 3, 4], 0x34B0BCB5),
     ([4, 5, 6, 7, 0, 1, 2, 3], 0x391C0CB3), ([3, 4, 5, 6, 7, 0, 1, 2], 0x4ED8AA4A),
     ([2, 3, 4, 5, 6, 7, 0, 1], 0x5B9CCA4F), ([1, 2, 3, 4, 5, 6, 7, 0], 0x682E6FF3),
     ([0, 1, 2, 3, 4, 5, 6, 7], 0x748F82EE), ([7, 0, 1, 2, 3, 4, 5, 6], 0x78A5636F),
     ([6, 7, 0, 1, 2, 3, 4, 5], 0x84C87814), ([5, 6, 7, 0, 1, 2, 3, 4], 0x8CC70208),
     ([4, 5, 6, 7, 0, 1, 2, 3], 0x90BEFFFA), ([3, 4, 5, 6, 7, 0, 1, 2], 0xA4506CEB),
     ([2, 3, 4, 5, 6, 7, 0, 1], 0xBEF9A3F7), ([1, 2, 3, 4, 5, 6, 7, 0], 0xC67178F2)]"

text \<open>The word that call \<open>t\<close> uses, and the message schedule with it.\<close>

definition sha256_R :: "u32 list \<Rightarrow> nat \<Rightarrow> u32 list" where
  "sha256_R W t = (if t < 16 then W else W @ [S1 (W ! (t - 2)) + W ! (t - 7) + S0 (W ! (t - 15)) + W ! (t - 16)])"

fun sha256_loop :: "(nat list \<times> u32) list \<Rightarrow> nat \<Rightarrow> u32 list \<Rightarrow> u32 list \<Rightarrow> u32 list" where
  "sha256_loop [] t W v = v"
| "sha256_loop ((r, K) # rs) t W v = (let W = sha256_R W t in sha256_loop rs (t + 1) W (sha256_P v r (W ! t) K))"

definition sha256_process :: "u32 list \<Rightarrow> u8 list \<Rightarrow> u32 list" where
  "sha256_process state data =
     (let W = map (\<lambda>i. get_be32 data (4 * i)) [0..<16]
      in map2 (+) state (sha256_loop sha256_rounds 0 W state))"

section \<open>The interface\<close>

text \<open>The buffer of a fresh context is not initialised; \<open>junk\<close> is what the memory holds.\<close>

definition sha256_iv :: "u32 list" where
  "sha256_iv = [0x6A09E667, 0xBB67AE85, 0x3C6EF372, 0xA54FF53A, 0x510E527F, 0x9B05688C, 0x1F83D9AB, 0x5BE0CD19]"

definition sha256_starts :: "u32 list hash_ctx \<Rightarrow> u32 list hash_ctx" where
  "sha256_starts ctx = ctx\<lparr>total0 := 0, total1 := 0, hstate := sha256_iv\<rparr>"

definition sha256_update :: "u32 list hash_ctx \<Rightarrow> u8 list \<Rightarrow> u32 list hash_ctx" where
  "sha256_update ctx input = md_update sha256_process ctx input"

definition sha256_finish :: "u32 list hash_ctx \<Rightarrow> u8 list" where
  "sha256_finish ctx = concat (map be32 (hstate (md_finish sha256_process ctx)))"

text \<open>The watchdog loop is compiled in when the board has a watchdog.\<close>

definition sha256_csum_wd :: "bool \<Rightarrow> u32 list hash_ctx \<Rightarrow> u8 list \<Rightarrow> nat \<Rightarrow> u8 list option" where
  "sha256_csum_wd watchdog junk input chunk_sz =
     map_option sha256_finish
       (if watchdog then csum_wd_loop sha256_update chunk_sz (sha256_starts junk) input
        else Some (sha256_update (sha256_starts junk) input))"

section \<open>The standard\<close>

text \<open>The compression function of FIPS 180-4: the sums of rotations, the constants, the message schedule and the round that shifts eight working variables.\<close>

definition Sigma0 :: "u32 \<Rightarrow> u32" where "Sigma0 x = word_rotr 2 x XOR word_rotr 13 x XOR word_rotr 22 x"
definition Sigma1 :: "u32 \<Rightarrow> u32" where "Sigma1 x = word_rotr 6 x XOR word_rotr 11 x XOR word_rotr 25 x"
definition sigma0 :: "u32 \<Rightarrow> u32" where "sigma0 x = word_rotr 7 x XOR word_rotr 18 x XOR drop_bit 3 x"
definition sigma1 :: "u32 \<Rightarrow> u32" where "sigma1 x = word_rotr 17 x XOR word_rotr 19 x XOR drop_bit 10 x"

definition K256 :: "u32 list" where
  "K256 = [
     0x428A2F98, 0x71374491, 0xB5C0FBCF, 0xE9B5DBA5, 0x3956C25B, 0x59F111F1, 0x923F82A4, 0xAB1C5ED5,
     0xD807AA98, 0x12835B01, 0x243185BE, 0x550C7DC3, 0x72BE5D74, 0x80DEB1FE, 0x9BDC06A7, 0xC19BF174,
     0xE49B69C1, 0xEFBE4786, 0x0FC19DC6, 0x240CA1CC, 0x2DE92C6F, 0x4A7484AA, 0x5CB0A9DC, 0x76F988DA,
     0x983E5152, 0xA831C66D, 0xB00327C8, 0xBF597FC7, 0xC6E00BF3, 0xD5A79147, 0x06CA6351, 0x14292967,
     0x27B70A85, 0x2E1B2138, 0x4D2C6DFC, 0x53380D13, 0x650A7354, 0x766A0ABB, 0x81C2C92E, 0x92722C85,
     0xA2BFE8A1, 0xA81A664B, 0xC24B8B70, 0xC76C51A3, 0xD192E819, 0xD6990624, 0xF40E3585, 0x106AA070,
     0x19A4C116, 0x1E376C08, 0x2748774C, 0x34B0BCB5, 0x391C0CB3, 0x4ED8AA4A, 0x5B9CCA4F, 0x682E6FF3,
     0x748F82EE, 0x78A5636F, 0x84C87814, 0x8CC70208, 0x90BEFFFA, 0xA4506CEB, 0xBEF9A3F7, 0xC67178F2]"

fun schedule256 :: "nat \<Rightarrow> u32 list \<Rightarrow> u32 list" where
  "schedule256 0 W = W"
| "schedule256 (Suc n) W = (let t = length W in
     schedule256 n (W @ [sigma1 (W ! (t - 2)) + W ! (t - 7) + sigma0 (W ! (t - 15)) + W ! (t - 16)]))"

fun round256 :: "u32 list \<Rightarrow> u32 \<Rightarrow> u32 \<Rightarrow> u32 list" where
  "round256 [a, b, c, d, e, f, g, h] K W =
     (let T1 = h + Sigma1 e + Ch e f g + K + W; T2 = Sigma0 a + Maj a b c in [T1 + T2, a, b, c, d + T1, e, f, g])"
| "round256 v K W = v"

definition compress256 :: "u32 list \<Rightarrow> u8 list \<Rightarrow> u32 list" where
  "compress256 H M =
     (let W = schedule256 48 (map (\<lambda>i. get_be32 M (4 * i)) [0..<16])
      in map2 (+) H (foldl (\<lambda>v (K, w). round256 v K w) H (zip K256 W)))"

section \<open>The unrolled rounds are the standard's\<close>

lemma ROTR_word_rotr:
  assumes "0 < n" "n < 32"
  shows "ROTR x n = word_rotr n x"
proof (rule bit_word_eqI)
  fix i assume "i < LENGTH(32)"
  then show "bit (ROTR x n) i \<longleftrightarrow> bit (word_rotr n x) i"
  proof (cases "n + i < 32")
    case True
    then show ?thesis using assms by (auto simp: ROTR_def SHR_def and_all_ones bit_simps add.commute)
  next
    case False
    then have "\<not> bit x (n + i)" "(i + n) mod 32 = i + n - 32" "32 - n \<le> i" "i - (32 - n) = i + n - 32"
      using assms \<open>i < LENGTH(32)\<close> by (auto dest: bit_imp_le_length simp: le_mod_geq)
    then show ?thesis using assms \<open>i < LENGTH(32)\<close> by (simp add: ROTR_def SHR_def and_all_ones bit_simps)
  qed
qed

lemma SHR_drop_bit: "SHR x n = drop_bit n x"
  by (simp add: SHR_def and_all_ones)

lemma sigma_eqs: "S0 x = sigma0 x" "S1 x = sigma1 x" "S2 x = Sigma0 x" "S3 x = Sigma1 x"
  by (simp_all add: S0_def S1_def S2_def S3_def sigma0_def sigma1_def Sigma0_def Sigma1_def ROTR_word_rotr SHR_drop_bit)

lemma F_eqs: "F0 x y z = Maj x y z" "F1 x y z = Ch x y z"
  by (simp_all add: F0_def F1_def Maj_or Ch_xor)

text \<open>The eight rotations of the register roles, and the table of rounds as those eight in turn.\<close>

definition roles :: "nat \<Rightarrow> nat list" where
  "roles t = map (\<lambda>j. (j + 8 - t mod 8) mod 8) [0, 1, 2, 3, 4, 5, 6, 7]"

fun rounds_from :: "nat \<Rightarrow> (nat list \<times> u32) list \<Rightarrow> u32 list \<Rightarrow> bool" where
  "rounds_from t [] [] = True"
| "rounds_from t ((r, K) # rs) (K' # Ks) \<longleftrightarrow> r = roles t \<and> K = K' \<and> rounds_from (t + 1) rs Ks"
| "rounds_from t _ _ = False"

lemma rounds_table: "rounds_from 0 sha256_rounds K256"
  by (simp add: sha256_rounds_def K256_def roles_def)

lemma list8:
  assumes "length v = 8"
  obtains a b c d e f g h where "v = [a, b, c, d, e, f, g, h]"
  using assms by (auto simp: numeral_eq_Suc length_Suc_conv)

lemma round_step:
  assumes "length v = 8"
  shows "map ((!) (sha256_P v (roles t) x K)) (roles (t + 1)) = round256 (map ((!) v) (roles t)) K x"
proof -
  have "t mod 8 \<in> {0, 1, 2, 3, 4, 5, 6, 7}" by auto
  moreover obtain a b c d e f g h where "v = [a, b, c, d, e, f, g, h]" using list8[OF assms] .
  moreover have "(t + 1) mod 8 = (if t mod 8 = 7 then 0 else t mod 8 + 1)" by (simp add: mod_Suc)
  ultimately show ?thesis
    by (elim insertE emptyE) (simp_all add: roles_def sha256_P_def Let_def sigma_eqs F_eqs)
qed

text \<open>The schedule that the code extends step by step is the one of the standard.\<close>

lemma schedule256_append: "\<exists>ys. schedule256 n W = W @ ys \<and> length ys = n"
proof (induction n arbitrary: W)
  case (Suc n)
  then show ?case unfolding schedule256.simps Let_def by (metis append.assoc append_Cons append_Nil length_Cons)
qed simp

lemma schedule256_nth:
  "16 \<le> length W \<Longrightarrow> length W \<le> t \<Longrightarrow> t < length W + n \<Longrightarrow> schedule256 n W ! t =
    sigma1 (schedule256 n W ! (t - 2)) + schedule256 n W ! (t - 7) + sigma0 (schedule256 n W ! (t - 15)) + schedule256 n W ! (t - 16)"
proof (induction n arbitrary: W)
  case (Suc n)
  let ?w = "sigma1 (W ! (length W - 2)) + W ! (length W - 7) + sigma0 (W ! (length W - 15)) + W ! (length W - 16)"
  have s: "schedule256 (Suc n) W = schedule256 n (W @ [?w])" by (simp add: Let_def)
  show ?case
  proof (cases "t = length W")
    case True
    obtain ys where ys: "schedule256 n (W @ [?w]) = (W @ [?w]) @ ys" using schedule256_append by blast
    have "W \<noteq> []" using Suc.prems(1) by auto
    then show ?thesis unfolding s ys using True Suc.prems(1) by (simp add: nth_append)
  next
    case False
    then show ?thesis unfolding s using Suc.IH[of "W @ [?w]"] Suc.prems by simp
  qed
qed simp

lemma sha256_loop_ref:
  assumes W: "length W = 64" "\<forall>t. 16 \<le> t \<and> t < 64 \<longrightarrow> W ! t = sigma1 (W ! (t - 2)) + W ! (t - 7) + sigma0 (W ! (t - 15)) + W ! (t - 16)"
  shows "rounds_from t rs Ks \<Longrightarrow> t + length Ks = 64 \<Longrightarrow> length v = 8 \<Longrightarrow>
    map ((!) (sha256_loop rs t (take (max 16 t) W) v)) (roles 0) =
      foldl (\<lambda>v (K, w). round256 v K w) (map ((!) v) (roles t)) (zip Ks (drop t W))"
proof (induction t rs Ks arbitrary: v rule: rounds_from.induct)
  case (1 t)
  then show ?case by (simp add: roles_def)
next
  case (2 t r K rs K' Ks)
  have t: "t < 64" using 2(3) by simp
  have R: "sha256_R (take (max 16 t) W) t = take (max 16 (t + 1)) W"
  proof (cases "t < 16")
    case True
    then have "max 16 (t + 1) = 16" "max 16 t = 16" by simp_all
    then show ?thesis using True by (simp add: sha256_R_def)
  next
    case False
    then have "take (max 16 (t + 1)) W = take t W @ [W ! t]" using t W(1) by (simp add: max_def take_Suc_conv_app_nth)
    moreover have "W ! t = S1 (take t W ! (t - 2)) + take t W ! (t - 7) + S0 (take t W ! (t - 15)) + take t W ! (t - 16)"
      using W(2)[rule_format, of t] False t by (simp add: sigma_eqs)
    ultimately show ?thesis using False by (simp add: sha256_R_def max_def)
  qed
  have Wt: "take (max 16 (t + 1)) W ! t = W ! t" by simp
  have len: "length (sha256_P v r (W ! t) K) = 8" using 2(4) by (simp add: sha256_P_def Let_def)
  have r: "r = roles t" "K = K'" "rounds_from (t + 1) rs Ks" using 2(2) by simp_all
  have "sha256_loop ((r, K) # rs) t (take (max 16 t) W) v = sha256_loop rs (t + 1) (take (max 16 (t + 1)) W) (sha256_P v r (W ! t) K)"
    using R Wt by (simp add: Let_def)
  moreover have "drop t W = W ! t # drop (t + 1) W" using t W(1) by (simp add: Cons_nth_drop_Suc)
  ultimately show ?case
    using 2(1)[OF r(3) _ len] 2(3,4) round_step[OF 2(4), of t "W ! t" K] r by simp
qed auto

lemma length_sha256_loop: "length (sha256_loop rs t W v) = length v"
  by (induction rs t W v rule: sha256_loop.induct) (simp_all add: Let_def sha256_P_def)

lemma map_roles0: "length v = 8 \<Longrightarrow> map ((!) v) (roles 0) = v"
  by (elim list8) (simp add: roles_def)

lemma sha256_process_compress:
  assumes "length H = 8"
  shows "sha256_process H M = compress256 H M"
proof -
  let ?W = "map (\<lambda>i. get_be32 M (4 * i)) [0..<16]"
  obtain ys where ys: "schedule256 48 ?W = ?W @ ys" "length ys = 48" using schedule256_append by blast
  then have t16: "take (max 16 0) (schedule256 48 ?W) = ?W" by simp
  have "sha256_loop sha256_rounds 0 ?W H = foldl (\<lambda>v (K, w). round256 v K w) H (zip K256 (schedule256 48 ?W))"
  proof -
    have "length (schedule256 48 ?W) = 64" using ys by simp
    moreover have "\<forall>t. 16 \<le> t \<and> t < 64 \<longrightarrow> schedule256 48 ?W ! t = sigma1 (schedule256 48 ?W ! (t - 2)) +
        schedule256 48 ?W ! (t - 7) + sigma0 (schedule256 48 ?W ! (t - 15)) + schedule256 48 ?W ! (t - 16)"
      using schedule256_nth[of ?W _ 48] by auto
    ultimately have "map ((!) (sha256_loop sha256_rounds 0 (take (max 16 0) (schedule256 48 ?W)) H)) (roles 0) =
        foldl (\<lambda>v (K, w). round256 v K w) (map ((!) H) (roles 0)) (zip K256 (drop 0 (schedule256 48 ?W)))"
      using assms by (intro sha256_loop_ref rounds_table) (simp_all add: K256_def)
    then show ?thesis unfolding t16 using assms by (simp add: map_roles0 length_sha256_loop)
  qed
  then show ?thesis by (simp add: sha256_process_def compress256_def Let_def)
qed


section \<open>The streaming interface\<close>

interpretation sha256: stream_hash sha256_starts sha256_update sha256_finish "md_absorbed sha256_process sha256_iv"
  "md_digest sha256_process sha256_iv" "\<lambda>ctx. length (hbuffer ctx) = 64"
  by unfold_locales
    (simp_all add: sha256_starts_def md_absorbed_start sha256_update_def md_update_absorbed sha256_finish_def
      md_finish_state md_digest_def)

lemma length_sha256_process: "length st = 8 \<Longrightarrow> length (sha256_process st b) = 8"
  by (simp add: sha256_process_def Let_def length_sha256_loop)

text \<open>The digest of the standard: padding, blocks and compression of FIPS 180-4.\<close>

definition sha256_standard :: "u8 list \<Rightarrow> u8 list" where
  "sha256_standard = md_digest compress256 sha256_iv"

lemma md_digest_sha256: "md_digest sha256_process sha256_iv = sha256_standard"
  unfolding sha256_standard_def
  by (intro ext md_digest_cong[where P = "\<lambda>st. length st = 8"])
    (simp_all add: sha256_iv_def sha256_process_compress length_sha256_process flip: sha256_process_compress)

section \<open>Properties\<close>

text \<open>C18: SHA-256 of a message handed over in any pieces: whatever the fresh context held, the digest after
  \<open>sha256_starts\<close>, one \<open>sha256_update\<close> per piece and \<open>sha256_finish\<close> is the digest of the standard of
  the concatenation. The buffering, the two-word length counter with its carry, the padding and the 64
  unrolled rounds with rotating registers all enter.
\<close>

theorem sha256_pieces_standard:
  assumes "length (hbuffer junk) = 64" "\<forall>c\<in>set cs. length c < 2 ^ 32"
  shows "sha256_finish (foldl sha256_update (sha256_starts junk) cs) = sha256_standard (concat cs)"
  using sha256.finish_pieces[OF assms] by (simp add: md_digest_sha256)

theorem sha256_pieces_standard_witness:
  "sha256_finish (foldl sha256_update (sha256_starts \<lparr>total0 = 7, total1 = 8, hstate = [], hbuffer = replicate 64 0xAA\<rparr>)
     [[0x61], [], [0x62, 0x63]]) = sha256_standard [0x61, 0x62, 0x63]"
  using sha256_pieces_standard[of "\<lparr>total0 = 7, total1 = 8, hstate = [], hbuffer = replicate 64 0xAA\<rparr>" "[[0x61], [], [0x62, 0x63]]"]
  by simp

text \<open>C32: \<open>sha256_csum_wd\<close> returns, with or without the watchdog loop and for every positive chunk size, and
  gives the digest of the standard: the chunks and the watchdog resets between them do not show.
\<close>

theorem sha256_csum_wd_standard:
  assumes "length (hbuffer junk) = 64" "0 < chunk_sz" "chunk_sz < 2 ^ 32" "length input < 2 ^ 32"
  shows "sha256_csum_wd watchdog junk input chunk_sz = Some (sha256_standard input)"
  using sha256.finish_watchdog[OF assms(1-3)] sha256.finish_pieces[OF assms(1), of "[input]"] assms(4)
  by (simp add: sha256_csum_wd_def md_digest_sha256)

theorem sha256_csum_wd_standard_witness:
  "sha256_csum_wd True \<lparr>total0 = 7, total1 = 8, hstate = [], hbuffer = replicate 64 0xAA\<rparr> (replicate 100 0x61) 0x10000 =
     Some (sha256_standard (replicate 100 0x61))"
  using sha256_csum_wd_standard[of "\<lparr>total0 = 7, total1 = 8, hstate = [], hbuffer = replicate 64 0xAA\<rparr>" "0x10000" "replicate 100 0x61" True]
  by simp

end
