(* ===== verification/Sha1.thy ===== *)
theory Sha1
  imports Stream_Hash
begin

text \<open>
  SHA-1 and HMAC-SHA-1, \<open>lib/sha1.c\<close>. As in SHA-256 the macro \<open>P\<close> works on registers whose roles rotate,
  and \<open>sha1_rounds\<close> lists its 80 calls with the registers passed as \<open>a\<close> to \<open>e\<close> (0 for A up to 4 for E)
  and the phase, which selects the current definitions of the macros \<open>F\<close> and \<open>K\<close>. The message schedule
  lives in a ring of 16 words that the macro \<open>R\<close> overwrites. \<open>unsigned long\<close> is 32 bits on the target.
\<close>

section \<open>The block function\<close>

definition sha1_S :: "u32 \<Rightarrow> nat \<Rightarrow> u32" where
  "sha1_S x n = push_bit n x OR drop_bit (32 - n) (x AND 0xFFFFFFFF)"

definition sha1_R :: "u32 list \<Rightarrow> nat \<Rightarrow> u32 list \<times> u32" where
  "sha1_R W t =
     (let temp = W ! ((t - 3) mod 16) XOR W ! ((t - 8) mod 16) XOR W ! ((t - 14) mod 16) XOR W ! (t mod 16)
      in (W[t mod 16 := sha1_S temp 1], sha1_S temp 1))"

definition sha1_F :: "nat \<Rightarrow> u32 \<Rightarrow> u32 \<Rightarrow> u32 \<Rightarrow> u32" where
  "sha1_F phase x y z =
     (if phase = 0 then z XOR (x AND (y XOR z))
      else if phase = 2 then (x AND y) OR (z AND (x OR y))
      else x XOR y XOR z)"

definition sha1_K :: "nat \<Rightarrow> u32" where
  "sha1_K phase = [0x5A827999, 0x6ED9EBA1, 0x8F1BBCDC, 0xCA62C1D6] ! phase"

definition sha1_P :: "nat \<Rightarrow> u32 list \<Rightarrow> nat list \<Rightarrow> u32 \<Rightarrow> u32 list" where
  "sha1_P phase v r x =
     (let v = v[r ! 4 := v ! (r ! 4) + (sha1_S (v ! (r ! 0)) 5 +
            sha1_F phase (v ! (r ! 1)) (v ! (r ! 2)) (v ! (r ! 3)) + sha1_K phase + x)]
      in v[r ! 1 := sha1_S (v ! (r ! 1)) 30])"

definition sha1_rounds :: "(nat list \<times> nat) list" where
  "sha1_rounds = [
     ([0, 1, 2, 3, 4], 0), ([4, 0, 1, 2, 3], 0), ([3, 4, 0, 1, 2], 0), ([2, 3, 4, 0, 1], 0),
     ([1, 2, 3, 4, 0], 0), ([0, 1, 2, 3, 4], 0), ([4, 0, 1, 2, 3], 0), ([3, 4, 0, 1, 2], 0),
     ([2, 3, 4, 0, 1], 0), ([1, 2, 3, 4, 0], 0), ([0, 1, 2, 3, 4], 0), ([4, 0, 1, 2, 3], 0),
     ([3, 4, 0, 1, 2], 0), ([2, 3, 4, 0, 1], 0), ([1, 2, 3, 4, 0], 0), ([0, 1, 2, 3, 4], 0),
     ([4, 0, 1, 2, 3], 0), ([3, 4, 0, 1, 2], 0), ([2, 3, 4, 0, 1], 0), ([1, 2, 3, 4, 0], 0),
     ([0, 1, 2, 3, 4], 1), ([4, 0, 1, 2, 3], 1), ([3, 4, 0, 1, 2], 1), ([2, 3, 4, 0, 1], 1),
     ([1, 2, 3, 4, 0], 1), ([0, 1, 2, 3, 4], 1), ([4, 0, 1, 2, 3], 1), ([3, 4, 0, 1, 2], 1),
     ([2, 3, 4, 0, 1], 1), ([1, 2, 3, 4, 0], 1), ([0, 1, 2, 3, 4], 1), ([4, 0, 1, 2, 3], 1),
     ([3, 4, 0, 1, 2], 1), ([2, 3, 4, 0, 1], 1), ([1, 2, 3, 4, 0], 1), ([0, 1, 2, 3, 4], 1),
     ([4, 0, 1, 2, 3], 1), ([3, 4, 0, 1, 2], 1), ([2, 3, 4, 0, 1], 1), ([1, 2, 3, 4, 0], 1),
     ([0, 1, 2, 3, 4], 2), ([4, 0, 1, 2, 3], 2), ([3, 4, 0, 1, 2], 2), ([2, 3, 4, 0, 1], 2),
     ([1, 2, 3, 4, 0], 2), ([0, 1, 2, 3, 4], 2), ([4, 0, 1, 2, 3], 2), ([3, 4, 0, 1, 2], 2),
     ([2, 3, 4, 0, 1], 2), ([1, 2, 3, 4, 0], 2), ([0, 1, 2, 3, 4], 2), ([4, 0, 1, 2, 3], 2),
     ([3, 4, 0, 1, 2], 2), ([2, 3, 4, 0, 1], 2), ([1, 2, 3, 4, 0], 2), ([0, 1, 2, 3, 4], 2),
     ([4, 0, 1, 2, 3], 2), ([3, 4, 0, 1, 2], 2), ([2, 3, 4, 0, 1], 2), ([1, 2, 3, 4, 0], 2),
     ([0, 1, 2, 3, 4], 3), ([4, 0, 1, 2, 3], 3), ([3, 4, 0, 1, 2], 3), ([2, 3, 4, 0, 1], 3),
     ([1, 2, 3, 4, 0], 3), ([0, 1, 2, 3, 4], 3), ([4, 0, 1, 2, 3], 3), ([3, 4, 0, 1, 2], 3),
     ([2, 3, 4, 0, 1], 3), ([1, 2, 3, 4, 0], 3), ([0, 1, 2, 3, 4], 3), ([4, 0, 1, 2, 3], 3),
     ([3, 4, 0, 1, 2], 3), ([2, 3, 4, 0, 1], 3), ([1, 2, 3, 4, 0], 3), ([0, 1, 2, 3, 4], 3),
     ([4, 0, 1, 2, 3], 3), ([3, 4, 0, 1, 2], 3), ([2, 3, 4, 0, 1], 3), ([1, 2, 3, 4, 0], 3)]"

text \<open>The word that call \<open>t\<close> is given: \<open>W[t]\<close> in the first 16 calls and \<open>R (t)\<close> from then on.\<close>

fun sha1_loop :: "(nat list \<times> nat) list \<Rightarrow> nat \<Rightarrow> u32 list \<Rightarrow> u32 list \<Rightarrow> u32 list" where
  "sha1_loop [] t W v = v"
| "sha1_loop ((r, phase) # rs) t W v =
     (let (W, x) = (if t < 16 then (W, W ! t) else sha1_R W t) in sha1_loop rs (t + 1) W (sha1_P phase v r x))"

definition sha1_process :: "u32 list \<Rightarrow> u8 list \<Rightarrow> u32 list" where
  "sha1_process state data =
     (let W = map (\<lambda>i. get_be32 data (4 * i)) [0..<16]
      in map2 (+) state (sha1_loop sha1_rounds 0 W state))"

section \<open>The interface\<close>

definition sha1_iv :: "u32 list" where
  "sha1_iv = [0x67452301, 0xEFCDAB89, 0x98BADCFE, 0x10325476, 0xC3D2E1F0]"

definition sha1_starts :: "u32 list hash_ctx \<Rightarrow> u32 list hash_ctx" where
  "sha1_starts ctx = ctx\<lparr>total0 := 0, total1 := 0, hstate := sha1_iv\<rparr>"

definition sha1_update :: "u32 list hash_ctx \<Rightarrow> u8 list \<Rightarrow> u32 list hash_ctx" where
  "sha1_update ctx input = md_update sha1_process ctx input"

definition sha1_finish :: "u32 list hash_ctx \<Rightarrow> u8 list" where
  "sha1_finish ctx = concat (map be32 (hstate (md_finish sha1_process ctx)))"

definition sha1_csum :: "u32 list hash_ctx \<Rightarrow> u8 list \<Rightarrow> u8 list" where
  "sha1_csum junk input = sha1_finish (sha1_update (sha1_starts junk) input)"

definition sha1_csum_wd :: "bool \<Rightarrow> u32 list hash_ctx \<Rightarrow> u8 list \<Rightarrow> nat \<Rightarrow> u8 list option" where
  "sha1_csum_wd watchdog junk input chunk_sz =
     map_option sha1_finish
       (if watchdog then csum_wd_loop sha1_update chunk_sz (sha1_starts junk) input
        else Some (sha1_update (sha1_starts junk) input))"

text \<open>The key bytes are mixed into both pads; the loop stops after 64 of them. The context that
  the inner \<open>sha1_finish\<close> leaves behind is reused for the outer hash.\<close>

fun hmac_pads :: "u8 list \<Rightarrow> nat \<Rightarrow> u8 list \<Rightarrow> u8 list \<Rightarrow> u8 list \<times> u8 list" where
  "hmac_pads [] i k_ipad k_opad = (k_ipad, k_opad)"
| "hmac_pads (k # key) i k_ipad k_opad =
     (if i \<ge> 64 then (k_ipad, k_opad)
      else hmac_pads key (i + 1) (k_ipad[i := k_ipad ! i XOR k]) (k_opad[i := k_opad ! i XOR k]))"

definition sha1_hmac :: "u32 list hash_ctx \<Rightarrow> u8 list \<Rightarrow> u8 list \<Rightarrow> u8 list" where
  "sha1_hmac junk key input =
     (let (k_ipad, k_opad) = hmac_pads key 0 (replicate 64 0x36) (replicate 64 0x5C);
          ctx = sha1_update (sha1_update (sha1_starts junk) k_ipad) input;
          tmpbuf = sha1_finish ctx;
          ctx = md_finish sha1_process ctx
      in sha1_finish (sha1_update (sha1_update (sha1_starts ctx) k_opad) tmpbuf))"

section \<open>The standard\<close>

text \<open>The compression function of FIPS 180-4 with its 80-word schedule.\<close>

definition f_sha1 :: "nat \<Rightarrow> u32 \<Rightarrow> u32 \<Rightarrow> u32 \<Rightarrow> u32" where
  "f_sha1 t = (if t < 20 then Ch else if 40 \<le> t \<and> t < 60 then Maj else (\<lambda>x y z. x XOR y XOR z))"

definition K_sha1 :: "nat \<Rightarrow> u32" where
  "K_sha1 t = (if t < 20 then 0x5A827999 else if t < 40 then 0x6ED9EBA1 else if t < 60 then 0x8F1BBCDC else 0xCA62C1D6)"

fun schedule1 :: "nat \<Rightarrow> u32 list \<Rightarrow> u32 list" where
  "schedule1 0 W = W"
| "schedule1 (Suc n) W = (let t = length W in
     schedule1 n (W @ [word_rotl 1 (W ! (t - 3) XOR W ! (t - 8) XOR W ! (t - 14) XOR W ! (t - 16))]))"

fun round1 :: "u32 list \<Rightarrow> nat \<Rightarrow> u32 \<Rightarrow> u32 list" where
  "round1 [a, b, c, d, e] t w = [word_rotl 5 a + f_sha1 t b c d + e + K_sha1 t + w, a, word_rotl 30 b, c, d]"
| "round1 v t w = v"

definition compress1 :: "u32 list \<Rightarrow> u8 list \<Rightarrow> u32 list" where
  "compress1 H M =
     (let W = schedule1 64 (map (\<lambda>i. get_be32 M (4 * i)) [0..<16])
      in map2 (+) H (foldl (\<lambda>v t. round1 v t (W ! t)) H [0..<80]))"

section \<open>The unrolled rounds are the standard's\<close>

lemma sha1_S_word_rotl: "0 < n \<Longrightarrow> n < 32 \<Longrightarrow> sha1_S x n = word_rotl n x"
  by (simp only: sha1_S_def and_all_ones shifts_word_rotl)

definition roles1 :: "nat \<Rightarrow> nat list" where
  "roles1 t = map (\<lambda>j. (j + 5 - t mod 5) mod 5) [0, 1, 2, 3, 4]"

fun rounds1_from :: "nat \<Rightarrow> (nat list \<times> nat) list \<Rightarrow> bool" where
  "rounds1_from t [] \<longleftrightarrow> t = 80"
| "rounds1_from t ((r, phase) # rs) \<longleftrightarrow> r = roles1 t \<and> phase = t div 20 \<and> rounds1_from (t + 1) rs"

lemma rounds1_table: "rounds1_from 0 sha1_rounds"
  by (simp add: sha1_rounds_def roles1_def)

lemma rounds1_from_bound: "rounds1_from t rs \<Longrightarrow> t + length rs = 80"
  by (induction t rs rule: rounds1_from.induct) auto

lemma sha1_F_K: "t < 80 \<Longrightarrow> sha1_F (t div 20) = f_sha1 t \<and> sha1_K (t div 20) = K_sha1 t"
proof -
  assume t80: "t < 80"
  define q r where "q = t div 20" and "r = t mod 20"
  have "t = 20 * q + r" "r < 20" by (simp_all add: q_def r_def)
  moreover from this t80 have "q = 0 \<or> q = 1 \<or> q = 2 \<or> q = 3" by arith
  ultimately show ?thesis unfolding q_def[symmetric]
    by (elim disjE) (simp_all add: fun_eq_iff sha1_F_def f_sha1_def sha1_K_def K_sha1_def Ch_xor Maj_or)
qed

lemma list5:
  assumes "length v = 5"
  obtains a b c d e where "v = [a, b, c, d, e]"
  using assms by (auto simp: numeral_eq_Suc length_Suc_conv)

lemma round1_step:
  assumes "length v = 5" "t < 80"
  shows "map ((!) (sha1_P (t div 20) v (roles1 t) x)) (roles1 (t + 1)) = round1 (map ((!) v) (roles1 t)) t x"
proof -
  have "t mod 5 \<in> {0, 1, 2, 3, 4}" by auto
  moreover obtain a b c d e where "v = [a, b, c, d, e]" using list5[OF assms(1)] .
  moreover have "(t + 1) mod 5 = (if t mod 5 = 4 then 0 else t mod 5 + 1)" by (simp add: mod_Suc)
  ultimately show ?thesis using sha1_F_K[OF assms(2)]
    by (elim insertE emptyE) (simp_all add: roles1_def sha1_P_def Let_def sha1_S_word_rotl)
qed

lemma schedule1_append: "\<exists>ys. schedule1 n W = W @ ys \<and> length ys = n"
proof (induction n arbitrary: W)
  case (Suc n)
  then show ?case unfolding schedule1.simps Let_def by (metis append.assoc append_Cons append_Nil length_Cons)
qed simp

lemma schedule1_nth:
  "16 \<le> length W \<Longrightarrow> length W \<le> t \<Longrightarrow> t < length W + n \<Longrightarrow> schedule1 n W ! t =
    word_rotl 1 (schedule1 n W ! (t - 3) XOR schedule1 n W ! (t - 8) XOR schedule1 n W ! (t - 14) XOR schedule1 n W ! (t - 16))"
proof (induction n arbitrary: W)
  case (Suc n)
  let ?w = "word_rotl 1 (W ! (length W - 3) XOR W ! (length W - 8) XOR W ! (length W - 14) XOR W ! (length W - 16))"
  have s: "schedule1 (Suc n) W = schedule1 n (W @ [?w])" by (simp add: Let_def)
  show ?case
  proof (cases "t = length W")
    case True
    obtain ys where ys: "schedule1 n (W @ [?w]) = (W @ [?w]) @ ys" using schedule1_append by blast
    have "W \<noteq> []" using Suc.prems(1) by auto
    then show ?thesis unfolding s ys using True Suc.prems(1) by (simp add: nth_append)
  next
    case False
    then show ?thesis unfolding s using Suc.IH[of "W @ [?w]"] Suc.prems by simp
  qed
qed simp

text \<open>The ring before call \<open>t\<close> holds the last 16 words of the schedule.\<close>

definition ring :: "u32 list \<Rightarrow> nat \<Rightarrow> u32 list \<Rightarrow> bool" where
  "ring W t R \<longleftrightarrow> length R = 16 \<and> (\<forall>j. t - 16 \<le> j \<and> j < max 16 t \<longrightarrow> R ! (j mod 16) = W ! j)"

lemma ring_below: "ring W t R \<Longrightarrow> t < 16 \<Longrightarrow> R ! t = W ! t \<and> ring W (t + 1) R"
  by (auto simp: ring_def)

lemma ring_R:
  assumes R: "ring W t R" and t: "16 \<le> t"
    and W: "W ! t = word_rotl 1 (W ! (t - 3) XOR W ! (t - 8) XOR W ! (t - 14) XOR W ! (t - 16))"
  shows "fst (sha1_R R t) = R[t mod 16 := W ! t] \<and> snd (sha1_R R t) = W ! t"
proof -
  have "R ! ((t - k) mod 16) = W ! (t - k)" if "0 < k" "k \<le> 16" for k
    using R t that by (auto simp: ring_def)
  from this[of 3] this[of 8] this[of 14] this[of 16] t
  have "R ! ((t - 3) mod 16) = W ! (t - 3)" "R ! ((t - 8) mod 16) = W ! (t - 8)" "R ! ((t - 14) mod 16) = W ! (t - 14)"
    "R ! (t mod 16) = W ! (t - 16)" by (simp_all add: le_mod_geq[of 16 t])
  then show ?thesis by (simp add: sha1_R_def Let_def sha1_S_word_rotl W)
qed

lemma ring_next:
  assumes R: "ring W t R" and t: "16 \<le> t"
  shows "ring W (t + 1) (R[t mod 16 := W ! t])"
  unfolding ring_def
proof (intro conjI allI impI)
  fix j assume j: "t + 1 - 16 \<le> j \<and> j < max 16 (t + 1)"
  show "R[t mod 16 := W ! t] ! (j mod 16) = W ! j"
  proof (cases "j = t")
    case False
    then have "j < t" "t < j + 16" using j t by auto
    then have "t mod 16 \<noteq> j mod 16" using mod_eq_dvd_iff_nat[of j t 16] dvd_imp_le[of 16 "t - j"] by auto
    then show ?thesis using R j False t by (auto simp: ring_def)
  qed (use R in \<open>simp add: ring_def\<close>)
qed (use R in \<open>simp add: ring_def\<close>)

lemma length_sha1_loop: "length (sha1_loop rs t R v) = length v"
  by (induction rs t R v rule: sha1_loop.induct) (simp add: sha1_P_def Let_def split: prod.splits)+

lemma sha1_loop_ref:
  assumes W: "\<And>t. 16 \<le> t \<Longrightarrow> t < 80 \<Longrightarrow> W ! t = word_rotl 1 (W ! (t - 3) XOR W ! (t - 8) XOR W ! (t - 14) XOR W ! (t - 16))"
  shows "rounds1_from t rs \<Longrightarrow> ring W t R \<Longrightarrow> length v = 5 \<Longrightarrow>
    map ((!) (sha1_loop rs t R v)) (roles1 0) = foldl (\<lambda>v t. round1 v t (W ! t)) (map ((!) v) (roles1 t)) [t..<80]"
proof (induction t rs arbitrary: R v rule: rounds1_from.induct)
  case (1 t)
  then show ?case by (simp add: roles1_def)
next
  case (2 t r phase rs)
  have t: "t < 80" using rounds1_from_bound[OF 2(2)] by simp
  define R' where "R' = (if t < 16 then R else R[t mod 16 := W ! t])"
  have word: "(if t < 16 then (R, R ! t) else sha1_R R t) = (R', W ! t)"
    using ring_below[OF 2(3)] ring_R[OF 2(3) _ W[OF _ t]] by (auto simp: R'_def prod_eq_iff)
  have R': "ring W (t + 1) R'" using ring_below[OF 2(3)] ring_next[OF 2(3)] by (auto simp: R'_def)
  have r: "r = roles1 t" "phase = t div 20" "rounds1_from (t + 1) rs" using 2(2) by simp_all
  have "length (sha1_P phase v r (W ! t)) = 5" using 2(4) by (simp add: sha1_P_def Let_def)
  from 2(1)[OF r(3) R' this] round1_step[OF 2(4) t, of "W ! t"]
  show ?case using t word by (simp add: r(1,2) upt_rec[of t])
qed

lemma sha1_process_compress:
  assumes "length H = 5"
  shows "sha1_process H M = compress1 H M"
proof -
  let ?W = "map (\<lambda>i. get_be32 M (4 * i)) [0..<16]"
  obtain ys where ys: "schedule1 64 ?W = ?W @ ys" "length ys = 64" using schedule1_append by blast
  have r: "ring (schedule1 64 ?W) 0 ?W" unfolding ring_def ys by (auto simp: nth_append)
  have sched: "schedule1 64 ?W ! t = word_rotl 1 (schedule1 64 ?W ! (t - 3) XOR schedule1 64 ?W ! (t - 8) XOR
      schedule1 64 ?W ! (t - 14) XOR schedule1 64 ?W ! (t - 16))" if "16 \<le> t" "t < 80" for t
    using schedule1_nth[of ?W t 64] that by simp
  have roles0: "map ((!) v) (roles1 0) = v" if "length v = 5" for v :: "u32 list"
    using that by (elim list5) (simp add: roles1_def)
  show ?thesis
    using sha1_loop_ref[OF sched rounds1_table r assms] assms
    by (simp add: sha1_process_def compress1_def Let_def roles0 length_sha1_loop)
qed

section \<open>The streaming interface\<close>

interpretation sha1: stream_hash sha1_starts sha1_update sha1_finish "md_absorbed sha1_process sha1_iv"
  "md_digest sha1_process sha1_iv" "\<lambda>ctx. length (hbuffer ctx) = 64"
  by unfold_locales
    (simp_all add: sha1_starts_def md_absorbed_start sha1_update_def md_update_absorbed sha1_finish_def
      md_finish_state md_digest_def)

lemma length_sha1_process: "length st = 5 \<Longrightarrow> length (sha1_process st b) = 5"
  by (simp add: sha1_process_def Let_def length_sha1_loop)

definition sha1_standard :: "u8 list \<Rightarrow> u8 list" where
  "sha1_standard = md_digest compress1 sha1_iv"

lemma md_digest_sha1: "md_digest sha1_process sha1_iv = sha1_standard"
  unfolding sha1_standard_def
  by (intro ext md_digest_cong[where P = "\<lambda>st. length st = 5"])
    (simp_all add: sha1_iv_def sha1_process_compress length_sha1_process flip: sha1_process_compress)

lemma length_sha1_standard: "length (sha1_standard msg) = 20"
proof -
  have "length (fst (md_blocks sha1_process sha1_iv (md_pad msg))) = 5"
    by (rule md_blocks_inv[where P = "\<lambda>st. length st = 5"]) (simp_all add: sha1_iv_def length_sha1_process)
  then show ?thesis by (simp add: length_concat_be32 md_digest_def flip: md_digest_sha1)
qed

section \<open>HMAC\<close>

text \<open>HMAC of RFC 2104 for keys of at most a block: the key is padded with zeros.\<close>

definition hmac_standard :: "(u8 list \<Rightarrow> u8 list) \<Rightarrow> u8 list \<Rightarrow> u8 list \<Rightarrow> u8 list" where
  "hmac_standard H key text =
     (let K = key @ replicate (64 - length key) 0
      in H (map (\<lambda>k. k XOR 0x5C) K @ H (map (\<lambda>k. k XOR 0x36) K @ text)))"

definition mix_key :: "u8 list \<Rightarrow> nat \<Rightarrow> u8 list \<Rightarrow> u8 list" where
  "mix_key key i pad = map (\<lambda>j. if i \<le> j \<and> j < i + length key then pad ! j XOR key ! (j - i) else pad ! j) [0..<64]"

lemma mix_key_Cons: "i < 64 \<Longrightarrow> length pad = 64 \<Longrightarrow> mix_key key (Suc i) (pad[i := pad ! i XOR k]) = mix_key (k # key) i pad"
  by (auto simp: mix_key_def nth_Cons' nth_list_update)

lemma mix_key_none: "length pad = 64 \<Longrightarrow> key = [] \<or> 64 \<le> i \<Longrightarrow> mix_key key i pad = pad"
  by (rule nth_equalityI) (auto simp: mix_key_def)

lemma hmac_pads_mix:
  "length ip = 64 \<Longrightarrow> length op = 64 \<Longrightarrow> hmac_pads key i ip op = (mix_key key i ip, mix_key key i op)"
  by (induction key i ip op rule: hmac_pads.induct) (simp_all add: mix_key_none mix_key_Cons del: upt_Suc)

lemma mix_key_replicate:
  "mix_key key 0 (replicate 64 c) = map (\<lambda>k. k XOR c) (take 64 key @ replicate (64 - length (take 64 key)) 0)"
  by (rule nth_equalityI) (auto simp: mix_key_def nth_append min_def xor.commute simp del: upt_Suc)

text \<open>\<open>sha1_hmac\<close> computes HMAC-SHA-1 of RFC 2104 for the first 64 bytes of the key: the pads, the two
  hashes of the standard and the reuse of one context. For a key of up to 64 bytes this is the HMAC of
  the key itself; a longer key is cut instead of being hashed first.
\<close>

theorem sha1_hmac_standard:
  assumes junk: "length (hbuffer junk) = 64" and len: "length input < 2 ^ 32"
  shows "sha1_hmac junk key input = hmac_standard sha1_standard (take 64 key) input"
proof -
  define ip op where "ip = mix_key key 0 (replicate 64 0x36)" and "op = mix_key key 0 (replicate 64 0x5C)"
  have l: "length ip = 64" "length op = 64" by (simp_all add: ip_def op_def mix_key_def)
  define ctx where "ctx = sha1_update (sha1_update (sha1_starts junk) ip) input"
  have "md_absorbed sha1_process sha1_iv ctx (ip @ input)"
    using sha1.absorbed_pieces[OF sha1.absorbed_starts[OF junk], of "[ip, input]"] l len by (simp add: ctx_def)
  from md_finish_absorbed[OF this] sha1.absorbed_finish[OF this]
  have buf: "length (hbuffer (md_finish sha1_process ctx)) = 64" and inner: "sha1_finish ctx = sha1_standard (ip @ input)"
    by (simp_all add: md_absorbed_def md_digest_sha1)
  have "sha1_hmac junk key input = sha1_standard (op @ sha1_standard (ip @ input))"
    using sha1.finish_pieces[OF buf, of "[op, sha1_finish ctx]"] l inner
    by (simp add: sha1_hmac_def hmac_pads_mix Let_def length_sha1_standard md_digest_sha1 flip: ip_def op_def ctx_def)
  then show ?thesis
    by (simp add: hmac_standard_def Let_def ip_def op_def mix_key_replicate del: length_take)
qed

theorem sha1_hmac_standard_witness:
  "sha1_hmac \<lparr>total0 = 7, total1 = 8, hstate = [], hbuffer = replicate 64 0xAA\<rparr> [0x4A, 0x65, 0x66, 0x65] [0x77, 0x68] =
     hmac_standard sha1_standard [0x4A, 0x65, 0x66, 0x65] [0x77, 0x68]"
  using sha1_hmac_standard[of "\<lparr>total0 = 7, total1 = 8, hstate = [], hbuffer = replicate 64 0xAA\<rparr>" "[0x77, 0x68]" "[0x4A, 0x65, 0x66, 0x65]"]
  by simp

section \<open>Properties\<close>

text \<open>SHA-1 with the watchdog loop, for every positive chunk size, and without it returns the digest of
  FIPS 180-4, whatever the fresh context held: the ring of schedule words, the rotating registers, the
  buffering, the length counter and the padding included.
\<close>

theorem sha1_csum_wd_standard:
  assumes "length (hbuffer junk) = 64" "0 < chunk_sz" "chunk_sz < 2 ^ 32" "length input < 2 ^ 32"
  shows "sha1_csum_wd watchdog junk input chunk_sz = Some (sha1_standard input) \<and>
    sha1_csum junk input = sha1_standard input \<and> length (sha1_csum junk input) = 20"
  using sha1.finish_watchdog[OF assms(1-3)] sha1.finish_pieces[OF assms(1), of "[input]"] assms(4)
  by (simp add: sha1_csum_wd_def sha1_csum_def md_digest_sha1 length_sha1_standard)

theorem sha1_csum_wd_standard_witness:
  "sha1_csum_wd True \<lparr>total0 = 7, total1 = 8, hstate = [], hbuffer = replicate 64 0xAA\<rparr> (replicate 100 0x61) 0x10000 =
     Some (sha1_standard (replicate 100 0x61))"
  using sha1_csum_wd_standard[of "\<lparr>total0 = 7, total1 = 8, hstate = [], hbuffer = replicate 64 0xAA\<rparr>" "0x10000" "replicate 100 0x61" True]
  by simp

end
