(* ===== verification/Md5.thy ===== *)
theory Md5
  imports Stream_Hash
begin

text \<open>
  MD5, \<open>lib/md5.c\<close>. The context's input buffer is a union of 64 bytes and 16 words; the model keeps the
  bytes and reads and writes words little-endian, the order of the target. \<open>md5_steps\<close> lists the 64
  \<open>MD5STEP\<close> lines: the function, the registers passed as \<open>w\<close> to \<open>z\<close> (0 for a up to 3 for d), the index
  into \<open>in\<close>, the constant and the rotation. The buffering differs from that of the SHA functions, but
  the contract of \<open>stream_hash\<close> is the same.
\<close>

section \<open>Words in memory\<close>

definition le32 :: "u32 \<Rightarrow> u8 list" where
  "le32 n = [ucast n, ucast (drop_bit 8 n), ucast (drop_bit 16 n), ucast (drop_bit 24 n)]"

text \<open>The loop runs at least once; no caller passes zero words.\<close>

fun byteReverse :: "u8 list \<Rightarrow> nat \<Rightarrow> u8 list" where
  "byteReverse buf 0 = buf"
| "byteReverse buf (Suc longs) =
     (let t = push_bit 16 (push_bit 8 (ucast (buf ! 3)) OR ucast (buf ! 2)) OR
            (push_bit 8 (ucast (buf ! 1)) OR ucast (buf ! 0))
      in le32 t @ (if longs = 0 then drop 4 buf else byteReverse (drop 4 buf) longs))"

section \<open>The block function\<close>

definition md5_F1 :: "u32 \<Rightarrow> u32 \<Rightarrow> u32 \<Rightarrow> u32" where "md5_F1 x y z = z XOR (x AND (y XOR z))"
definition md5_F2 :: "u32 \<Rightarrow> u32 \<Rightarrow> u32 \<Rightarrow> u32" where "md5_F2 x y z = md5_F1 z x y"
definition md5_F3 :: "u32 \<Rightarrow> u32 \<Rightarrow> u32 \<Rightarrow> u32" where "md5_F3 x y z = x XOR y XOR z"
definition md5_F4 :: "u32 \<Rightarrow> u32 \<Rightarrow> u32 \<Rightarrow> u32" where "md5_F4 x y z = y XOR (x OR NOT z)"

definition md5_F :: "nat \<Rightarrow> u32 \<Rightarrow> u32 \<Rightarrow> u32 \<Rightarrow> u32" where
  "md5_F n = (if n = 1 then md5_F1 else if n = 2 then md5_F2 else if n = 3 then md5_F3 else md5_F4)"

definition MD5STEP :: "nat \<Rightarrow> u32 list \<Rightarrow> nat list \<Rightarrow> u32 \<Rightarrow> nat \<Rightarrow> u32 list" where
  "MD5STEP f v r data s =
     (let x = v ! (r ! 1);
          w = v ! (r ! 0) + (md5_F f x (v ! (r ! 2)) (v ! (r ! 3)) + data);
          w = push_bit s w OR drop_bit (32 - s) w
      in v[r ! 0 := w + x])"

definition md5_steps :: "(nat \<times> nat list \<times> nat \<times> u32 \<times> nat) list" where
  "md5_steps = [
     (1, [0, 1, 2, 3], 0, 0xd76aa478, 7), (1, [3, 0, 1, 2], 1, 0xe8c7b756, 12), (1, [2, 3, 0, 1], 2, 0x242070db, 17),
     (1, [1, 2, 3, 0], 3, 0xc1bdceee, 22), (1, [0, 1, 2, 3], 4, 0xf57c0faf, 7), (1, [3, 0, 1, 2], 5, 0x4787c62a, 12),
     (1, [2, 3, 0, 1], 6, 0xa8304613, 17), (1, [1, 2, 3, 0], 7, 0xfd469501, 22), (1, [0, 1, 2, 3], 8, 0x698098d8, 7),
     (1, [3, 0, 1, 2], 9, 0x8b44f7af, 12), (1, [2, 3, 0, 1], 10, 0xffff5bb1, 17), (1, [1, 2, 3, 0], 11, 0x895cd7be, 22),
     (1, [0, 1, 2, 3], 12, 0x6b901122, 7), (1, [3, 0, 1, 2], 13, 0xfd987193, 12), (1, [2, 3, 0, 1], 14, 0xa679438e, 17),
     (1, [1, 2, 3, 0], 15, 0x49b40821, 22), (2, [0, 1, 2, 3], 1, 0xf61e2562, 5), (2, [3, 0, 1, 2], 6, 0xc040b340, 9),
     (2, [2, 3, 0, 1], 11, 0x265e5a51, 14), (2, [1, 2, 3, 0], 0, 0xe9b6c7aa, 20), (2, [0, 1, 2, 3], 5, 0xd62f105d, 5),
     (2, [3, 0, 1, 2], 10, 0x02441453, 9), (2, [2, 3, 0, 1], 15, 0xd8a1e681, 14), (2, [1, 2, 3, 0], 4, 0xe7d3fbc8, 20),
     (2, [0, 1, 2, 3], 9, 0x21e1cde6, 5), (2, [3, 0, 1, 2], 14, 0xc33707d6, 9), (2, [2, 3, 0, 1], 3, 0xf4d50d87, 14),
     (2, [1, 2, 3, 0], 8, 0x455a14ed, 20), (2, [0, 1, 2, 3], 13, 0xa9e3e905, 5), (2, [3, 0, 1, 2], 2, 0xfcefa3f8, 9),
     (2, [2, 3, 0, 1], 7, 0x676f02d9, 14), (2, [1, 2, 3, 0], 12, 0x8d2a4c8a, 20), (3, [0, 1, 2, 3], 5, 0xfffa3942, 4),
     (3, [3, 0, 1, 2], 8, 0x8771f681, 11), (3, [2, 3, 0, 1], 11, 0x6d9d6122, 16), (3, [1, 2, 3, 0], 14, 0xfde5380c, 23),
     (3, [0, 1, 2, 3], 1, 0xa4beea44, 4), (3, [3, 0, 1, 2], 4, 0x4bdecfa9, 11), (3, [2, 3, 0, 1], 7, 0xf6bb4b60, 16),
     (3, [1, 2, 3, 0], 10, 0xbebfbc70, 23), (3, [0, 1, 2, 3], 13, 0x289b7ec6, 4), (3, [3, 0, 1, 2], 0, 0xeaa127fa, 11),
     (3, [2, 3, 0, 1], 3, 0xd4ef3085, 16), (3, [1, 2, 3, 0], 6, 0x04881d05, 23), (3, [0, 1, 2, 3], 9, 0xd9d4d039, 4),
     (3, [3, 0, 1, 2], 12, 0xe6db99e5, 11), (3, [2, 3, 0, 1], 15, 0x1fa27cf8, 16), (3, [1, 2, 3, 0], 2, 0xc4ac5665, 23),
     (4, [0, 1, 2, 3], 0, 0xf4292244, 6), (4, [3, 0, 1, 2], 7, 0x432aff97, 10), (4, [2, 3, 0, 1], 14, 0xab9423a7, 15),
     (4, [1, 2, 3, 0], 5, 0xfc93a039, 21), (4, [0, 1, 2, 3], 12, 0x655b59c3, 6), (4, [3, 0, 1, 2], 3, 0x8f0ccc92, 10),
     (4, [2, 3, 0, 1], 10, 0xffeff47d, 15), (4, [1, 2, 3, 0], 1, 0x85845dd1, 21), (4, [0, 1, 2, 3], 8, 0x6fa87e4f, 6),
     (4, [3, 0, 1, 2], 15, 0xfe2ce6e0, 10), (4, [2, 3, 0, 1], 6, 0xa3014314, 15), (4, [1, 2, 3, 0], 13, 0x4e0811a1, 21),
     (4, [0, 1, 2, 3], 4, 0xf7537e82, 6), (4, [3, 0, 1, 2], 11, 0xbd3af235, 10), (4, [2, 3, 0, 1], 2, 0x2ad7d2bb, 15),
     (4, [1, 2, 3, 0], 9, 0xeb86d391, 21)]"

definition MD5Transform :: "u32 list \<Rightarrow> u32 list \<Rightarrow> u32 list" where
  "MD5Transform buf inw =
     map2 (+) buf (foldl (\<lambda>v (f, r, k, c, s). MD5STEP f v r (inw ! k + c) s) buf md5_steps)"

section \<open>The interface\<close>

record MD5Context =
  buf :: "u32 list"
  bits0 :: u32
  bits1 :: u32
  inp :: "u8 list"

definition in32 :: "u8 list \<Rightarrow> u32 list" where
  "in32 b = map (\<lambda>i. get_le32 b (4 * i)) [0..<16]"

definition md5_iv :: "u32 list" where
  "md5_iv = [0x67452301, 0xefcdab89, 0x98badcfe, 0x10325476]"

definition MD5Init :: "MD5Context \<Rightarrow> MD5Context" where
  "MD5Init ctx = ctx\<lparr>buf := md5_iv, bits0 := 0, bits1 := 0\<rparr>"

text \<open>The loop over whole chunks, which go through the buffer, and the copy of the remaining bytes.\<close>

function md5_chunks :: "MD5Context \<Rightarrow> u8 list \<Rightarrow> MD5Context" where
  "md5_chunks ctx input =
     (if 64 \<le> length input
      then let inb = byteReverse (blit (inp ctx) 0 (take 64 input)) 16
           in md5_chunks (ctx\<lparr>inp := inb, buf := MD5Transform (buf ctx) (in32 inb)\<rparr>) (drop 64 input)
      else ctx\<lparr>inp := blit (inp ctx) 0 input\<rparr>)"
  by pat_completeness auto
termination
  by (relation "measure (\<lambda>(ctx, input). length input)") auto

declare md5_chunks.simps [simp del]

definition MD5Update :: "MD5Context \<Rightarrow> u8 list \<Rightarrow> MD5Context" where
  "MD5Update ctx input =
     (let len = word_of_nat (length input);
          t = bits0 ctx;
          b0 = t + push_bit 3 len;
          b1 = (if b0 < t then bits1 ctx + 1 else bits1 ctx);
          b1 = b1 + drop_bit 29 len;
          ctx = ctx\<lparr>bits0 := b0, bits1 := b1\<rparr>;
          t = unat (drop_bit 3 t AND 0x3f)
      in if t \<noteq> 0 then
           let p = t; t = 64 - t
           in if length input < t then ctx\<lparr>inp := blit (inp ctx) p input\<rparr>
              else let inb = byteReverse (blit (inp ctx) p (take t input)) 16
                   in md5_chunks (ctx\<lparr>inp := inb, buf := MD5Transform (buf ctx) (in32 inb)\<rparr>) (drop t input)
         else md5_chunks ctx input)"

text \<open>The digest; the context is wiped afterwards.\<close>

definition MD5Final :: "MD5Context \<Rightarrow> u8 list" where
  "MD5Final ctx =
     (let count = unat (drop_bit 3 (bits0 ctx) AND 0x3F);
          p = count + 1;
          inb = (inp ctx)[count := 0x80];
          count = 64 - 1 - count;
          (inb, st) =
            (if count < 8
             then let inb = byteReverse (blit inb p (replicate count 0)) 16
                  in (blit inb 0 (replicate 56 0), MD5Transform (buf ctx) (in32 inb))
             else (blit inb p (replicate (count - 8) 0), buf ctx));
          inb = byteReverse inb 14;
          inb = blit inb 56 (le32 (bits0 ctx));
          inb = blit inb 60 (le32 (bits1 ctx));
          st = MD5Transform st (in32 inb)
      in byteReverse (concat (map le32 st)) 4)"

definition md5 :: "MD5Context \<Rightarrow> u8 list \<Rightarrow> u8 list" where
  "md5 junk input = MD5Final (MD5Update (MD5Init junk) input)"

definition md5_wd :: "bool \<Rightarrow> MD5Context \<Rightarrow> u8 list \<Rightarrow> nat \<Rightarrow> u8 list option" where
  "md5_wd watchdog junk input chunk_sz =
     map_option MD5Final
       (if watchdog then csum_wd_loop MD5Update chunk_sz (MD5Init junk) input
        else Some (MD5Update (MD5Init junk) input))"

section \<open>Memory is already little-endian\<close>

lemma length_le32 [simp]: "length (le32 w) = 4"
  by (simp add: le32_def)

lemma le32_bytes:
  "le32 (push_bit 16 (push_bit 8 (ucast a3) OR ucast a2) OR (push_bit 8 (ucast a1) OR ucast a0)) = [a0 :: u8, a1, a2, a3]"
  by (auto simp: le32_def bit_eq_iff bit_simps dest: bit_imp_le_length)

lemma list4:
  assumes "length v = 4"
  obtains a b c d where "v = [a, b, c, d]"
  using assms by (auto simp: numeral_eq_Suc length_Suc_conv)

lemma byteReverse_id: "4 * n \<le> length b \<Longrightarrow> byteReverse b n = b"
proof (induction b n rule: byteReverse.induct)
  case (2 b n)
  have "length (take 4 b) = 4" using 2 by simp
  then obtain a0 a1 a2 a3 where t: "take 4 b = [a0, a1, a2, a3]" by (rule list4)
  then have "b ! 0 = a0" "b ! 1 = a1" "b ! 2 = a2" "b ! 3 = a3"
    using nth_take[of 0 4 b] nth_take[of 1 4 b] nth_take[of 2 4 b] nth_take[of 3 4 b] by simp_all
  then have "byteReverse b (Suc n) = take 4 b @ (if n = 0 then drop 4 b else byteReverse (drop 4 b) n)"
    unfolding byteReverse.simps Let_def t by (simp only: le32_bytes)
  then show ?case using 2 by simp
qed simp

lemma length_concat_le32: "length (concat (map le32 ws)) = 4 * length ws"
  by (induction ws) simp_all

section \<open>Absorbing\<close>

definition md5_block :: "u32 list \<Rightarrow> u8 list \<Rightarrow> u32 list" where
  "md5_block st b = MD5Transform st (in32 b)"

definition md5_absorbed :: "MD5Context \<Rightarrow> u8 list \<Rightarrow> bool" where
  "md5_absorbed ctx msg \<longleftrightarrow>
     length (inp ctx) = 64 \<and> md_total (bits1 ctx) (bits0 ctx) = word_of_nat (8 * length msg) \<and>
     md_blocks md5_block md5_iv msg = (buf ctx, take (length msg mod 64) (inp ctx))"

lemma md5_chunks_blocks:
  "length (inp ctx) = 64 \<Longrightarrow>
    length (inp (md5_chunks ctx xs)) = 64 \<and> bits0 (md5_chunks ctx xs) = bits0 ctx \<and> bits1 (md5_chunks ctx xs) = bits1 ctx \<and>
    md_blocks md5_block (buf ctx) xs = (buf (md5_chunks ctx xs), take (length xs mod 64) (inp (md5_chunks ctx xs)))"
proof (induction ctx xs rule: md5_chunks.induct)
  case (1 ctx xs)
  show ?case
  proof (cases "64 \<le> length xs")
    case True
    define inb where "inb = blit (inp ctx) 0 (take 64 xs)"
    have inb: "inb = take 64 xs" using True 1(2) by (simp add: inb_def blit_def)
    then have "byteReverse inb 16 = inb" "length inb = 64" using True by (simp_all add: byteReverse_id)
    then show ?thesis
      using 1(1)[OF True refl] 1(2) True inb
      by (simp add: md5_chunks.simps[of ctx xs] md_blocks.simps[of _ _ xs] Let_def md5_block_def le_mod_geq flip: inb_def)
  next
    case False
    then show ?thesis using 1(2) by (simp add: md5_chunks.simps[of ctx xs] md_blocks_short blit_def)
  qed
qed

lemma md_total_shift: "(word_of_nat (8 * n) :: u64) = md_total (drop_bit 29 (word_of_nat n)) (push_bit 3 (word_of_nat n))" if "n < 2 ^ 32"
proof -
  have "(word_of_nat (8 * n) :: u64) = push_bit 3 (ucast (word_of_nat n :: u32))"
  proof -
    have "(ucast (word_of_nat n :: u32) :: u64) = word_of_nat n" using that by (simp add: unsigned_of_nat take_bit_nat_eq_self)
    then show ?thesis by (simp add: push_bit_eq_mult mult.commute)
  qed
  also have "\<dots> = push_bit 32 (ucast (drop_bit 29 (word_of_nat n :: u32))) OR ucast (push_bit 3 (word_of_nat n :: u32))"
    by (auto simp: bit_eq_iff bit_simps dest: bit_imp_le_length)
  finally show ?thesis by (simp add: push_or_add)
qed

lemma push_ucast_add: "push_bit 32 (ucast (c + y :: u32) :: u64) = push_bit 32 (ucast c) + push_bit 32 (ucast y)"
proof -
  have p: "push_bit 32 (ucast w :: u64) = word_of_nat (unat w * 2 ^ 32)" for w :: u32 by (simp add: push_bit_eq_mult)
  have "unat (c + y) * 2 ^ 32 = ((unat c + unat y) * 2 ^ 32) mod (2 ^ 32 * 2 ^ 32)"
    by (simp add: unat_word_ariths mult_mod_left)
  then have "(unat (c + y) * 2 ^ 32) mod 2 ^ 64 = (unat c * 2 ^ 32 + unat y * 2 ^ 32) mod 2 ^ 64" by (simp add: add_mult_distrib)
  then show ?thesis unfolding p by (simp only: word64_eq_iff flip: of_nat_add)
qed

lemma carry_comm: "b + x < b \<longleftrightarrow> b + x < (x :: u32)"
proof -
  have "unat b < 2 ^ 32" "unat x < 2 ^ 32" by (rule unat_u32_less)+
  then show ?thesis
    by (cases "unat b + unat x < 2 ^ 32") (auto simp: word_less_nat_alt unat_word_ariths le_mod_geq)
qed

lemma md5_bits:
  assumes "n < 2 ^ 32" "md_total b1 b0 = word_of_nat (8 * m)"
  shows "md_total ((if b0 + push_bit 3 (word_of_nat n) < b0 then b1 + 1 else b1) + drop_bit 29 (word_of_nat n))
      (b0 + push_bit 3 (word_of_nat n)) = word_of_nat (8 * (m + n))"
proof -
  define x y where "x = push_bit 3 (word_of_nat n :: u32)" and "y = drop_bit 29 (word_of_nat n :: u32)"
  define c where "c = (if b0 + x < b0 then b1 + 1 else b1)"
  have "md_total c (b0 + x) = md_total b1 b0 + ucast x"
    using md_total_add[OF unat_u32_less, of b0 x b1] carry_comm[of b0 x] by (cases "b0 + x < x") (simp_all add: c_def)
  then have "md_total (c + y) (b0 + x) = md_total b1 b0 + md_total y x"
    unfolding push_ucast_add by (simp add: algebra_simps)
  also have "\<dots> = word_of_nat (8 * (m + n))"
    unfolding assms(2) x_def y_def md_total_shift[OF assms(1), symmetric] by (simp only: distrib_left of_nat_add)
  finally show ?thesis by (simp only: c_def x_def y_def)
qed

lemma md5_left:
  assumes "md_total b1 b0 = word_of_nat (8 * n)"
  shows "unat (drop_bit 3 b0 AND 0x3F) = n mod 64"
proof -
  have "(unat b1 * 2 ^ 32 + unat b0) mod 2 ^ 64 mod 512 = (8 * n) mod 2 ^ 64 mod 512"
    using assms unfolding md_total_nat by (simp only: word64_eq_iff)
  then have "(unat b1 * 2 ^ 32 + unat b0) mod 512 = (8 * n) mod 512" by (simp add: mod_mod_cancel)
  moreover have "unat b1 * 2 ^ 32 + unat b0 = unat b0 + 512 * (unat b1 * 2 ^ 23)" by simp
  ultimately have "unat b0 mod (8 * 64) = 8 * (n mod 64)" by (simp only: mod_mult_self2) (simp add: mult_mod_right)
  then have "8 * (unat b0 div 8 mod 64) + unat b0 mod 8 = 8 * (n mod 64)" by (simp only: mod_mult2_eq)
  moreover have "unat b0 mod 8 < 8" by simp
  ultimately have "unat b0 div 8 mod 64 = n mod 64" by linarith
  moreover have "unat (drop_bit 3 b0) = unat b0 div 8" unfolding unat_drop_bit_eq by (simp add: drop_bit_eq_div)
  ultimately show ?thesis by (simp only: unat_and_3F)
qed

lemma MD5Update_absorbed:
  assumes abs: "md5_absorbed ctx msg" and len: "length xs < 2 ^ 32"
  shows "md5_absorbed (MD5Update ctx xs) (msg @ xs)"
proof -
  define left where "left = length msg mod 64"
  define r where "r = take left (inp ctx)"
  have inp: "length (inp ctx) = 64" and tot: "md_total (bits1 ctx) (bits0 ctx) = word_of_nat (8 * length msg)"
    and blk: "md_blocks md5_block md5_iv msg = (buf ctx, r)"
    using abs by (simp_all add: md5_absorbed_def left_def r_def)
  have left: "unat (drop_bit 3 (bits0 ctx) AND 0x3F) = left" using md5_left[OF tot] by (simp add: left_def)
  have l64: "left < 64" by (simp add: left_def)
  have rl: "length r = left" using inp l64 by (simp add: r_def)
  have mod: "length (msg @ xs) mod 64 = (left + length xs) mod 64" by (simp add: left_def mod_add_left_eq)
  have all: "md_blocks md5_block md5_iv (msg @ xs) = md_blocks md5_block (buf ctx) (r @ xs)"
    by (subst md_blocks_append) (simp add: blk)
  define b0 b1 where "b0 = bits0 ctx + push_bit 3 (word_of_nat (length xs))"
    and "b1 = (if b0 < bits0 ctx then bits1 ctx + 1 else bits1 ctx) + drop_bit 29 (word_of_nat (length xs))"
  have bits: "md_total b1 b0 = word_of_nat (8 * length (msg @ xs))"
    using md5_bits[OF len tot] by (simp only: b0_def b1_def length_append)
  let ?c = "ctx\<lparr>bits0 := b0, bits1 := b1\<rparr>"
  have upd: "MD5Update ctx xs =
      (if left \<noteq> 0 then
         if length xs < 64 - left then ?c\<lparr>inp := blit (inp ctx) left xs\<rparr>
         else let inb = byteReverse (blit (inp ctx) left (take (64 - left) xs)) 16
              in md5_chunks (?c\<lparr>inp := inb, buf := MD5Transform (buf ctx) (in32 inb)\<rparr>) (drop (64 - left) xs)
       else md5_chunks ?c xs)"
    unfolding MD5Update_def Let_def left b1_def b0_def by simp
  consider "left = 0" | "left \<noteq> 0" "length xs < 64 - left" | "left \<noteq> 0" "64 - left \<le> length xs" by linarith
  then show ?thesis
  proof cases
    case 1
    then have "MD5Update ctx xs = md5_chunks ?c xs" using upd by simp
    then show ?thesis using md5_chunks_blocks[of ?c xs] 1 inp bits all rl mod by (simp add: md5_absorbed_def)
  next
    case 2
    then have "take (left + length xs) (blit (inp ctx) left xs) = r @ xs" "(left + length xs) mod 64 = left + length xs"
      using take_blit[of left xs "inp ctx"] inp by (simp_all add: r_def)
    moreover have "MD5Update ctx xs = ?c\<lparr>inp := blit (inp ctx) left xs\<rparr>" using upd 2 by simp
    ultimately show ?thesis using 2 inp bits all rl mod by (simp add: md5_absorbed_def md_blocks_short)
  next
    case 3
    let ?b = "blit (inp ctx) left (take (64 - left) xs)"
    have b: "?b = r @ take (64 - left) xs" "length ?b = 64" "byteReverse ?b 16 = ?b"
      using 3 l64 inp by (simp_all add: blit_def r_def byteReverse_id)
    have e: "md_blocks md5_block (buf ctx) (r @ xs) = md_blocks md5_block (md5_block (buf ctx) ?b) (drop (64 - left) xs)"
      using md_blocks_step[OF b(2), of md5_block "buf ctx" "drop (64 - left) xs"] b(1) by simp
    have "(left + length xs) mod 64 = (length xs - (64 - left)) mod 64" using 3 l64 by (simp add: le_mod_geq add.commute)
    moreover have "MD5Update ctx xs = md5_chunks (?c\<lparr>inp := ?b, buf := md5_block (buf ctx) ?b\<rparr>) (drop (64 - left) xs)"
      using upd 3 b(3) by (simp add: md5_block_def Let_def)
    ultimately show ?thesis
      using md5_chunks_blocks[of "?c\<lparr>inp := ?b, buf := md5_block (buf ctx) ?b\<rparr>" "drop (64 - left) xs"] b(2) bits all e mod
      by (simp add: md5_absorbed_def)
  qed
qed

section \<open>The standard\<close>

text \<open>The block function and the padding of RFC 1321: step \<open>i\<close> uses word \<open>md5_k i\<close> of the block, rotation
  \<open>md5_s i\<close> and the constant \<open>md5_T ! i\<close>, the integer part of 4294967296 times the absolute value of
  the sine of \<open>i + 1\<close>.\<close>

definition md5_T :: "u32 list" where
  "md5_T = [
     0xd76aa478, 0xe8c7b756, 0x242070db, 0xc1bdceee, 0xf57c0faf, 0x4787c62a, 0xa8304613, 0xfd469501,
     0x698098d8, 0x8b44f7af, 0xffff5bb1, 0x895cd7be, 0x6b901122, 0xfd987193, 0xa679438e, 0x49b40821,
     0xf61e2562, 0xc040b340, 0x265e5a51, 0xe9b6c7aa, 0xd62f105d, 0x02441453, 0xd8a1e681, 0xe7d3fbc8,
     0x21e1cde6, 0xc33707d6, 0xf4d50d87, 0x455a14ed, 0xa9e3e905, 0xfcefa3f8, 0x676f02d9, 0x8d2a4c8a,
     0xfffa3942, 0x8771f681, 0x6d9d6122, 0xfde5380c, 0xa4beea44, 0x4bdecfa9, 0xf6bb4b60, 0xbebfbc70,
     0x289b7ec6, 0xeaa127fa, 0xd4ef3085, 0x04881d05, 0xd9d4d039, 0xe6db99e5, 0x1fa27cf8, 0xc4ac5665,
     0xf4292244, 0x432aff97, 0xab9423a7, 0xfc93a039, 0x655b59c3, 0x8f0ccc92, 0xffeff47d, 0x85845dd1,
     0x6fa87e4f, 0xfe2ce6e0, 0xa3014314, 0x4e0811a1, 0xf7537e82, 0xbd3af235, 0x2ad7d2bb, 0xeb86d391]"

definition md5_k :: "nat \<Rightarrow> nat" where
  "md5_k i = (if i < 16 then i else if i < 32 then 5 * i + 1 else if i < 48 then 3 * i + 5 else 7 * i) mod 16"

definition md5_s :: "nat \<Rightarrow> nat" where
  "md5_s i = [[7, 12, 17, 22], [5, 9, 14, 20], [4, 11, 16, 23], [6, 10, 15, 21]] ! (i div 16) ! (i mod 4)"

definition md5_f :: "nat \<Rightarrow> u32 \<Rightarrow> u32 \<Rightarrow> u32 \<Rightarrow> u32" where
  "md5_f i x y z =
     (if i < 16 then (x AND y) OR (NOT x AND z) else if i < 32 then (x AND z) OR (y AND NOT z)
      else if i < 48 then x XOR y XOR z else y XOR (x OR NOT z))"

fun md5_step :: "u32 list \<Rightarrow> u32 list \<Rightarrow> nat \<Rightarrow> u32 list" where
  "md5_step X [a, b, c, d] i = [d, b + word_rotl (md5_s i) (a + md5_f i b c d + X ! md5_k i + md5_T ! i), b, c]"
| "md5_step X v i = v"

definition md5_compress :: "u32 list \<Rightarrow> u8 list \<Rightarrow> u32 list" where
  "md5_compress H M = map2 (+) H (foldl (md5_step (in32 M)) H [0..<64])"

definition md5_pad :: "u8 list \<Rightarrow> u8 list" where
  "md5_pad msg = msg @ 0x80 # replicate ((119 - length msg mod 64) mod 64) 0 @ rev (be64 (word_of_nat (8 * length msg)))"

definition md5_standard :: "u8 list \<Rightarrow> u8 list" where
  "md5_standard msg = concat (map le32 (fst (md_blocks md5_compress md5_iv (md5_pad msg))))"

section \<open>The unrolled steps are the standard's\<close>

definition roles4 :: "nat \<Rightarrow> nat list" where
  "roles4 t = map (\<lambda>j. (j + 4 - t mod 4) mod 4) [0, 1, 2, 3]"

lemma md5_steps_table:
  "md5_steps = map (\<lambda>i. (i div 16 + 1, roles4 i, md5_k i, md5_T ! i, md5_s i)) [0..<64]"
  by (simp add: md5_steps_def roles4_def md5_k_def md5_T_def md5_s_def upt_conv_Cons)

lemma md5_F1_or: "md5_F1 x y z = (x AND y) OR (NOT x AND z)"
  by (auto simp: md5_F1_def bit_eq_iff bit_simps)

lemma md5_F2_or: "md5_F2 x y z = (x AND z) OR (y AND NOT z)"
  unfolding md5_F2_def md5_F1_or by (simp add: and.commute)

lemma md5_F_f:
  assumes "i < 64"
  shows "md5_F (i div 16 + 1) = md5_f i"
proof -
  define q r where "q = i div 16" and "r = i mod 16"
  have "i = 16 * q + r" "r < 16" by (simp_all add: q_def r_def)
  moreover from this assms have "q = 0 \<or> q = 1 \<or> q = 2 \<or> q = 3" by arith
  ultimately show ?thesis unfolding q_def[symmetric]
    by (elim disjE) (simp_all add: fun_eq_iff md5_F_def md5_f_def md5_F1_or md5_F2_or md5_F3_def md5_F4_def)
qed

lemma md5_s_range: "i < 64 \<Longrightarrow> 0 < md5_s i \<and> md5_s i < 32"
proof -
  assume "i < 64"
  then have "i div 16 < 4" "i mod 4 < 4" by auto
  then have "i div 16 = 0 \<or> i div 16 = 1 \<or> i div 16 = 2 \<or> i div 16 = 3" "i mod 4 = 0 \<or> i mod 4 = 1 \<or> i mod 4 = 2 \<or> i mod 4 = 3"
    by arith+
  then show ?thesis by (elim disjE) (simp_all add: md5_s_def)
qed

lemma md5_step_roles:
  assumes "length v = 4" "i < 64"
  shows "map ((!) (MD5STEP (i div 16 + 1) v (roles4 i) (X ! md5_k i + md5_T ! i) (md5_s i))) (roles4 (i + 1)) =
    md5_step X (map ((!) v) (roles4 i)) i"
proof -
  have "i mod 4 = 0 \<or> i mod 4 = 1 \<or> i mod 4 = 2 \<or> i mod 4 = 3" by arith
  moreover obtain a b c d where "v = [a, b, c, d]" using list4[OF assms(1)] .
  moreover have "(i + 1) mod 4 = (if i mod 4 = 3 then 0 else i mod 4 + 1)" by (simp add: mod_Suc)
  ultimately show ?thesis using md5_s_range[OF assms(2)] unfolding MD5STEP_def md5_F_f[OF assms(2)] Let_def
    by (elim disjE) (simp_all add: roles4_def shifts_word_rotl algebra_simps)
qed

lemma MD5Transform_compress:
  assumes "length H = 4"
  shows "MD5Transform H (in32 M) = md5_compress H M"
proof -
  let ?step = "\<lambda>v i. MD5STEP (i div 16 + 1) v (roles4 i) (in32 M ! md5_k i + md5_T ! i) (md5_s i)"
  have len: "length (foldl ?step v ks) = length v" for v ks by (induction ks arbitrary: v) (simp_all add: MD5STEP_def Let_def)
  have "map ((!) (foldl ?step H [0..<n])) (roles4 n) = foldl (md5_step (in32 M)) (map ((!) H) (roles4 0)) [0..<n]" if "n \<le> 64" for n
    using that
  proof (induction n)
    case (Suc n)
    have "length (foldl ?step H [0..<n]) = 4" using assms by (simp only: len)
    from md5_step_roles[OF this, of n "in32 M"] Suc show ?case by simp
  qed simp
  from this[of 64] have "map ((!) (foldl ?step H [0..<64])) (roles4 64) = foldl (md5_step (in32 M)) (map ((!) H) (roles4 0)) [0..<64]" by simp
  moreover have "map ((!) v) (roles4 0) = v" "map ((!) v) (roles4 64) = v" if "length v = 4" for v :: "u32 list"
    using that by (elim list4; simp add: roles4_def)+
  ultimately show ?thesis using assms
    unfolding MD5Transform_def md5_compress_def md5_steps_table foldl_map by (simp only: len prod.case)
qed

section \<open>Finishing\<close>

lemma le_words: "le32 b0 @ le32 b1 = rev (be64 (md_total b1 b0))"
  unfolding push_or_add[symmetric]
  by (simp add: le32_def be64_def) (auto simp: bit_eq_iff bit_simps dest: bit_imp_le_length)

lemma length_md5_block: "length (md5_block st b) = length st"
proof -
  have "length (foldl (\<lambda>v (f, r, k, c, s). MD5STEP f v r (W ! k + c) s) v steps) = length v" for W v steps
    by (induction steps arbitrary: v) (auto simp: MD5STEP_def Let_def)
  then show ?thesis by (simp add: md5_block_def MD5Transform_def)
qed

lemma length_md5_iv: "length md5_iv = 4"
  by (simp add: md5_iv_def)

lemma md_blocks_one: "length b = 64 \<Longrightarrow> md_blocks p st b = (p st b, [])"
  using md_blocks_step[of b p st "[]"] by (simp add: md_blocks_short)

text \<open>The last blocks that \<open>MD5Final\<close> builds are the padding of the standard.\<close>

lemma MD5Final_blocks:
  assumes abs: "md5_absorbed ctx msg"
  shows "MD5Final ctx = concat (map le32 (fst (md_blocks md5_block md5_iv (md5_pad msg))))"
proof -
  define l where "l = length msg mod 64"
  define r where "r = take l (inp ctx)"
  have inp: "length (inp ctx) = 64" and tot: "md_total (bits1 ctx) (bits0 ctx) = word_of_nat (8 * length msg)"
    and blk: "md_blocks md5_block md5_iv msg = (buf ctx, r)"
    using abs by (simp_all add: md5_absorbed_def l_def r_def)
  have left: "unat (drop_bit 3 (bits0 ctx) AND 0x3F) = l" using md5_left[OF tot] by (simp add: l_def)
  have l: "l < 64" and rl: "length r = l" using inp by (simp_all add: l_def r_def)
  have in80: "(inp ctx)[l := 0x80] = r @ 0x80 # drop (l + 1) (inp ctx)"
    using inp l by (simp add: r_def upd_conv_take_nth_drop)
  define size where "size = le32 (bits0 ctx) @ le32 (bits1 ctx)"
  have size: "size = rev (be64 (word_of_nat (8 * length msg)))" "length size = 8"
    using le_words[of "bits0 ctx" "bits1 ctx"] tot by (simp only: size_def) (simp add: size_def)
  have put: "blit (blit m 56 (le32 (bits0 ctx))) 60 (le32 (bits1 ctx)) = take 56 m @ size" if "length m = 64" for m
    using that by (simp add: blit_def size_def)
  have pad: "md_blocks md5_block md5_iv (md5_pad msg) =
      md_blocks md5_block (buf ctx) (r @ 0x80 # replicate ((119 - l) mod 64) 0 @ size)"
    unfolding md5_pad_def size(1)[symmetric] l_def[symmetric] by (subst md_blocks_append) (simp add: blk)
  have out: "byteReverse (concat (map le32 (md5_block st b))) 4 = concat (map le32 (md5_block st b))" if "length st = 4" for st b
    using that by (simp add: byteReverse_id length_concat_le32 length_md5_block)
  have buf4: "length (buf ctx) = 4"
    using md_blocks_inv[of "\<lambda>st. length st = 4" md5_block md5_iv msg] by (simp add: length_md5_block blk length_md5_iv)
  show ?thesis
  proof (cases "l < 56")
    case True
    let ?m = "blit (r @ 0x80 # drop (l + 1) (inp ctx)) (l + 1) (replicate (55 - l) 0)"
    have "56 - l = Suc (55 - l)" using True by simp
    then have m: "length ?m = 64" "take 56 ?m = r @ 0x80 # replicate (55 - l) 0" using True inp rl by (simp_all add: blit_def)
    moreover have "\<not> 64 - 1 - l < 8" "64 - 1 - l - 8 = 55 - l" using True by auto
    ultimately have "MD5Final ctx = concat (map le32 (md5_block (buf ctx) (r @ 0x80 # replicate (55 - l) 0 @ size)))"
      using True in80 put[OF m(1)] out[OF buf4] by (simp add: MD5Final_def Let_def left byteReverse_id md5_block_def)
    moreover have "(119 - l) mod 64 = 55 - l" using True by (simp add: le_mod_geq)
    ultimately show ?thesis using True rl size(2) by (simp add: pad md_blocks_one)
  next
    case False
    let ?b = "r @ 0x80 # replicate (63 - l) 0"
    have b: "blit (r @ 0x80 # drop (l + 1) (inp ctx)) (l + 1) (replicate (63 - l) 0) = ?b" "length ?b = 64"
      using False l inp rl by (simp_all add: blit_def)
    have m: "length (blit ?b 0 (replicate 56 0)) = 64" "take 56 (blit ?b 0 (replicate 56 0)) = replicate 56 0"
      using b(2) by (simp_all add: blit_def)
    have "64 - 1 - l < 8" using False l by auto
    then have "MD5Final ctx = concat (map le32 (md5_block (md5_block (buf ctx) ?b) (replicate 56 0 @ size)))"
      using False l in80 b m put[OF m(1)] out buf4 length_md5_block
      by (simp add: MD5Final_def Let_def left byteReverse_id md5_block_def)
    moreover have "r @ 0x80 # replicate ((119 - l) mod 64) 0 @ size = ?b @ replicate 56 0 @ size"
      using False l by (simp flip: replicate_add)
    then have "fst (md_blocks md5_block md5_iv (md5_pad msg)) = md5_block (md5_block (buf ctx) ?b) (replicate 56 0 @ size)"
      using md_blocks_step[OF b(2), of md5_block "buf ctx" "replicate 56 0 @ size"] size(2) by (simp only: pad) (simp add: md_blocks_one)
    ultimately show ?thesis by simp
  qed
qed

section \<open>The streaming interface\<close>

lemma md5_standard_blocks: "concat (map le32 (fst (md_blocks md5_block md5_iv (md5_pad msg)))) = md5_standard msg"
proof -
  have "md_blocks md5_block md5_iv (md5_pad msg) = md_blocks md5_compress md5_iv (md5_pad msg)"
    by (rule md_blocks_cong[where P = "\<lambda>st. length st = 4"])
      (simp_all add: length_md5_block length_md5_iv, simp add: md5_block_def MD5Transform_compress)
  then show ?thesis by (simp add: md5_standard_def)
qed

interpretation md5: stream_hash MD5Init MD5Update MD5Final md5_absorbed md5_standard "\<lambda>ctx. length (inp ctx) = 64"
  by unfold_locales
    (simp_all add: MD5Init_def md5_absorbed_def[of _ "[]"] md_blocks_short MD5Update_absorbed MD5Final_blocks md5_standard_blocks)

section \<open>Properties\<close>

text \<open>MD5 of a message handed over in any pieces is the digest of RFC 1321 of their concatenation, and
  \<open>md5_wd\<close> returns it for every positive chunk size: the bit counter with its carry, the buffer that is
  filled across calls, the one or two last blocks and the 64 unrolled steps.
\<close>

theorem md5_pieces_standard:
  assumes "length (inp junk) = 64" "\<forall>c\<in>set cs. length c < 2 ^ 32" "0 < chunk_sz" "chunk_sz < 2 ^ 32"
  shows "MD5Final (foldl MD5Update (MD5Init junk) cs) = md5_standard (concat cs) \<and>
    md5_wd True junk (concat cs) chunk_sz = Some (md5_standard (concat cs))"
  using md5.finish_pieces[OF assms(1,2)] md5.finish_watchdog[OF assms(1,3,4)] by (simp add: md5_wd_def)

theorem md5_pieces_standard_witness:
  "MD5Final (foldl MD5Update (MD5Init \<lparr>buf = [], bits0 = 7, bits1 = 8, inp = replicate 64 0xAA\<rparr>) [[0x61], [], [0x62, 0x63]]) =
     md5_standard [0x61, 0x62, 0x63]"
  using md5_pieces_standard[of "\<lparr>buf = [], bits0 = 7, bits1 = 8, inp = replicate 64 0xAA\<rparr>" "[[0x61], [], [0x62, 0x63]]" 1]
  by simp

end
