(* ===== verification/Env_Text.thy ===== *)
theory Env_Text
  imports Hashtable Qsort
begin

text \<open>
  The environment as text, \<open>hexport_r\<close> and \<open>himport_r\<close> of \<open>lib/hashtable.c\<close>: entries written as
  \<open>name=value\<close> with a separator and backslash escapes, and read back into a hash table. The output
  buffer and the working copy of the input are byte arrays whose bounds are checked on every access
  (\<open>None\<close> is an access outside), so that a result is also a proof of memory safety. The regular
  expressions of \<open>slre_compile\<close> and \<open>slre_match\<close> are a parameter: \<open>None\<close> for a pattern that does not
  compile, and otherwise the set of matching strings.
\<close>

section \<open>Export\<close>

abbreviation (input) H_NOCLEAR :: int where "H_NOCLEAR \<equiv> 1"
abbreviation (input) H_HIDE_DOT :: int where "H_HIDE_DOT \<equiv> 8"
abbreviation (input) H_MATCH_KEY :: int where "H_MATCH_KEY \<equiv> 16"
abbreviation (input) H_MATCH_DATA :: int where "H_MATCH_DATA \<equiv> 32"
abbreviation (input) H_MATCH_IDENT :: int where "H_MATCH_IDENT \<equiv> 64"
abbreviation (input) H_MATCH_SUBSTR :: int where "H_MATCH_SUBSTR \<equiv> 128"
abbreviation (input) H_MATCH_REGEX :: int where "H_MATCH_REGEX \<equiv> 256"
abbreviation (input) H_MATCH_METHOD :: int where "H_MATCH_METHOD \<equiv> 448"

abbreviation (input) backslash :: u8 where "backslash \<equiv> 0x5C"
abbreviation (input) equals :: u8 where "equals \<equiv> 0x3D"
abbreviation (input) newline :: u8 where "newline \<equiv> 0x0A"

type_synonym regex = "cstr \<Rightarrow> (cstr \<Rightarrow> bool) option"

definition cmpkey :: "cstr \<times> cstr \<Rightarrow> cstr \<times> cstr \<Rightarrow> int" where
  "cmpkey e1 e2 = str_order (fst e1) (fst e2)"

fun occurs :: "cstr \<Rightarrow> cstr \<Rightarrow> bool" where
  "occurs pat [] \<longleftrightarrow> pat = []"
| "occurs pat (c # str) \<longleftrightarrow> take (length pat) (c # str) = pat \<or> occurs pat str"

text \<open>\<open>strcmp (str, pat) == 0\<close> and \<open>strstr (str, pat)\<close> on the character lists; \<open>priv\<close> is the compiled pattern.\<close>

definition match_string :: "int \<Rightarrow> cstr \<Rightarrow> cstr \<Rightarrow> (cstr \<Rightarrow> bool) \<Rightarrow> bool" where
  "match_string flag str pat priv =
     (if flag AND H_MATCH_METHOD = H_MATCH_IDENT then str = pat
      else if flag AND H_MATCH_METHOD = H_MATCH_SUBSTR then occurs pat str
      else if flag AND H_MATCH_METHOD = H_MATCH_REGEX then priv str
      else False)"

fun match_entry :: "regex \<Rightarrow> cstr \<times> cstr \<Rightarrow> int \<Rightarrow> cstr list \<Rightarrow> bool" where
  "match_entry re ep flag [] = False"
| "match_entry re ep flag (arg # argv) =
     (case re arg of
        None \<Rightarrow> False
      | Some priv \<Rightarrow>
          (if flag AND H_MATCH_KEY \<noteq> 0 \<and> match_string flag (fst ep) arg priv then True
           else if flag AND H_MATCH_DATA \<noteq> 0 \<and> match_string flag (snd ep) arg priv then True
           else match_entry re ep flag argv))"

fun escaped_len :: "u8 \<Rightarrow> cstr \<Rightarrow> nat \<Rightarrow> nat" where
  "escaped_len sep [] totlen = totlen"
| "escaped_len sep (c # s) totlen =
     escaped_len sep s (if c = sep \<or> c = backslash then totlen + 2 else totlen + 1)"

text \<open>Pass 1, from slot \<open>i\<close> on: the selected entries in the order of the table and the total length.\<close>

fun export_scan ::
  "regex \<Rightarrow> hsearch_data \<Rightarrow> u8 \<Rightarrow> int \<Rightarrow> cstr list \<Rightarrow> nat \<Rightarrow> nat \<Rightarrow> (cstr \<times> cstr) list \<Rightarrow> nat \<Rightarrow>
     ((cstr \<times> cstr) list \<times> nat) option" where
  "export_scan re htab sep flag argv i 0 lst totlen = Some (lst, totlen)"
| "export_scan re htab sep flag argv i (Suc n) lst totlen = do {
     s \<leftarrow> slot_at htab i;
     (if used s > 0 then do {
        k \<leftarrow> ekey (hent s);
        d \<leftarrow> edata (hent s);
        (if argv \<noteq> [] \<and> \<not> match_entry re (k, d) flag argv then export_scan re htab sep flag argv (i + 1) n lst totlen
         else if flag AND H_HIDE_DOT \<noteq> 0 \<and> take 1 k = [0x2E] then export_scan re htab sep flag argv (i + 1) n lst totlen
         else
           (let totlen = totlen + length k + 2;
                totlen = (if sep = 0 then totlen + length d else escaped_len sep d totlen)
            in export_scan re htab sep flag argv (i + 1) n (lst @ [(k, d)]) (totlen + 2)))
      } else export_scan re htab sep flag argv (i + 1) n lst totlen)
   }"

fun put_chars :: "mem \<Rightarrow> nat \<Rightarrow> cstr \<Rightarrow> (mem \<times> nat) option" where
  "put_chars res p [] = Some (res, p)"
| "put_chars res p (c # s) = do { res \<leftarrow> arr_set res p c; put_chars res (p + 1) s }"

fun put_escaped :: "u8 \<Rightarrow> mem \<Rightarrow> nat \<Rightarrow> cstr \<Rightarrow> (mem \<times> nat) option" where
  "put_escaped sep res p [] = Some (res, p)"
| "put_escaped sep res p (c # s) = do {
     (res, p) \<leftarrow> (if c = sep \<or> c = backslash
        then do { res \<leftarrow> arr_set res p backslash; Some (res, p + 1) } else Some (res, p));
     res \<leftarrow> arr_set res p c;
     put_escaped sep res (p + 1) s
   }"

text \<open>Pass 2.\<close>

fun export_entries :: "u8 \<Rightarrow> mem \<Rightarrow> nat \<Rightarrow> (cstr \<times> cstr) list \<Rightarrow> (mem \<times> nat) option" where
  "export_entries sep res p [] = Some (res, p)"
| "export_entries sep res p ((k, d) # lst) = do {
     (res, p) \<leftarrow> put_chars res p k;
     res \<leftarrow> arr_set res p equals;
     (res, p) \<leftarrow> put_escaped sep res (p + 1) d;
     res \<leftarrow> arr_set res p sep;
     export_entries sep res (p + 1) lst
   }"

text \<open>
  The return value, \<open>errno\<close> and the buffer. \<open>resp\<close> is the caller's buffer if there is one; \<open>ok\<close> says
  whether \<open>calloc\<close> succeeds.
\<close>

definition hexport_r ::
  "regex \<Rightarrow> bool \<Rightarrow> hsearch_data \<Rightarrow> u8 \<Rightarrow> int \<Rightarrow> mem option \<Rightarrow> nat \<Rightarrow> cstr list \<Rightarrow> (int \<times> herrno option \<times> mem option) option" where
  "hexport_r re ok htab sep flag resp sz argv = do {
     (lst, totlen) \<leftarrow> export_scan re htab sep flag argv 1 (hsize htab) [] 0;
     let lst = qsort cmpkey lst;
     (if sz \<noteq> 0 \<and> sz < totlen + 1 then Some (- 1, Some ENOMEM, resp)
      else do {
        let sz = (if sz \<noteq> 0 then sz else totlen + 1);
        (case resp of
           None \<Rightarrow>
             (if \<not> ok then Some (- 1, Some ENOMEM, None)
              else do {
                (res, p) \<leftarrow> export_entries sep (replicate sz 0) 0 lst;
                res \<leftarrow> arr_set res p 0;
                Some (int sz, None, Some res)
              })
         | Some res \<Rightarrow> do {
             res \<leftarrow> memset res 0 0 sz;
             (res, p) \<leftarrow> export_entries sep res 0 lst;
             res \<leftarrow> arr_set res p 0;
             Some (int sz, None, Some res)
           })
      })
   }"

section \<open>Import\<close>

text \<open>The local list of variable names, with NULL for the ones that were seen.\<close>

definition drop_var_from_set :: "cstr \<Rightarrow> cstr option list \<Rightarrow> bool \<times> cstr option list" where
  "drop_var_from_set name vars =
     (if vars = [] then (True, vars)
      else (Some name \<in> set vars, map (\<lambda>v. if v = Some name then None else v) vars))"

text \<open>Carriage returns in front of line feeds are squeezed out in place; \<open>ign\<close> counts them.\<close>

function crlf_loop :: "mem \<Rightarrow> nat \<Rightarrow> nat \<Rightarrow> nat \<Rightarrow> (mem \<times> nat) option" where
  "crlf_loop data sz dp ign =
     (if dp < sz then
        (case arr_get data dp of
           None \<Rightarrow> None
         | Some c \<Rightarrow>
             (if c = 0 then Some (data, ign)
              else if c = 0x0D \<and> dp < sz - 1 \<and> arr_get data (dp + 1) = Some newline then crlf_loop data sz (dp + 1) (ign + 1)
              else (case arr_set data (dp - ign) c of
                      None \<Rightarrow> None
                    | Some data' \<Rightarrow> crlf_loop data' sz (dp + 1) ign)))
      else Some (data, ign))"
  by pat_completeness auto
termination
  by (relation "measure (\<lambda>(data, sz, dp, ign). sz - dp)") auto

declare crlf_loop.simps [simp del]

text \<open>The value is unescaped in place: read at \<open>dp\<close>, written at \<open>sp\<close>.\<close>

function value_loop :: "u8 \<Rightarrow> mem \<Rightarrow> nat \<Rightarrow> nat \<Rightarrow> (mem \<times> nat \<times> nat) option" where
  "value_loop sep data dp sp =
     (case arr_get data dp of
        None \<Rightarrow> None
      | Some c \<Rightarrow>
          (if c = 0 \<or> c = sep then Some (data, dp, sp)
           else (case (if c = backslash then arr_get data (dp + 1) else Some 0) of
                   None \<Rightarrow> None
                 | Some e \<Rightarrow>
                     (if e \<noteq> 0
                      then (case arr_set data sp e of None \<Rightarrow> None | Some data' \<Rightarrow> value_loop sep data' (dp + 2) (sp + 1))
                      else (case arr_set data sp c of None \<Rightarrow> None | Some data' \<Rightarrow> value_loop sep data' (dp + 1) (sp + 1))))))"
  by pat_completeness auto
termination
  by (relation "measure (\<lambda>(sep, data, dp, sp). length data - dp)") (auto simp: arr_get_def arr_set_def split: if_splits)

declare value_loop.simps [simp del]

text \<open>
  One round of the parse loop: \<open>Inl\<close> a \<open>return 0\<close> with its \<open>errno\<close>, \<open>Inr\<close> the state at the loop
  condition.
\<close>

type_synonym istate = "mem \<times> nat \<times> hsearch_data \<times> cstr option list"

definition import_delete :: "hooks \<Rightarrow> int \<Rightarrow> mem \<Rightarrow> nat \<Rightarrow> nat \<Rightarrow> hsearch_data \<Rightarrow> cstr option list \<Rightarrow> istate option" where
  "import_delete hk flag data name dp htab vars = do {
     c \<leftarrow> arr_get data dp;
     (data, dp) \<leftarrow> (if c = equals then do { data \<leftarrow> arr_set data dp 0; Some (data, dp + 1) } else Some (data, dp));
     data \<leftarrow> arr_set data dp 0;
     nm \<leftarrow> string_at data name;
     let (listed, vars) = drop_var_from_set nm vars;
     (if \<not> listed then Some (data, dp + 1, htab, vars)
      else do {
        (r, err, htab) \<leftarrow> hdelete_r hk nm htab flag;
        Some (data, dp + 1, htab, vars)
      })
   }"

definition import_insert ::
  "hooks \<Rightarrow> u8 \<Rightarrow> int \<Rightarrow> mem \<Rightarrow> nat \<Rightarrow> nat \<Rightarrow> hsearch_data \<Rightarrow> cstr option list \<Rightarrow> ((herrno \<times> hsearch_data) + istate) option" where
  "import_insert hk sep flag data name dp htab vars = do {
     data \<leftarrow> arr_set data dp 0;
     let val = dp + 1;
     (data, dp, sp) \<leftarrow> value_loop sep data val val;
     data \<leftarrow> arr_set data sp 0;
     nm \<leftarrow> string_at data name;
     (if nm = [] then Some (Inl (EINVAL, htab))
      else do {
        let (listed, vars) = drop_var_from_set nm vars;
        (if \<not> listed then Some (Inr (data, dp + 1, htab, vars))
         else do {
           v \<leftarrow> string_at data val;
           (r, err, rv, htab) \<leftarrow> hsearch_r hk nm (Some v) ENTER htab flag;
           Some (Inr (data, dp + 1, htab, vars))
         })
      })
   }"

definition import_step :: "hooks \<Rightarrow> u8 \<Rightarrow> int \<Rightarrow> istate \<Rightarrow> ((herrno \<times> hsearch_data) + istate) option" where
  "import_step hk sep flag st = (case st of (data, dp, htab, vars) \<Rightarrow> do {
     dp \<leftarrow> scan_while isblank data dp;
     c \<leftarrow> arr_get data dp;
     (if c = 0x23 then do {
        dp \<leftarrow> scan_while (\<lambda>c. c \<noteq> 0 \<and> c \<noteq> sep) data dp;
        Some (Inr (data, dp + 1, htab, vars))
      } else do {
        let name = dp;
        dp \<leftarrow> scan_while (\<lambda>c. c \<noteq> equals \<and> c \<noteq> 0 \<and> c \<noteq> sep) data dp;
        c \<leftarrow> arr_get data dp;
        c1 \<leftarrow> (if c = 0 then Some 0 else arr_get data (dp + 1));
        (if c = 0 \<or> c1 = 0 \<or> c = sep \<or> c1 = sep
         then map_option Inr (import_delete hk flag data name dp htab vars)
         else import_insert hk sep flag data name dp htab vars)
      })
   })"

text \<open>
  The loop, with fuel for one round per byte: every round moves \<open>dp\<close> forward.
\<close>

fun import_loop :: "nat \<Rightarrow> hooks \<Rightarrow> u8 \<Rightarrow> int \<Rightarrow> nat \<Rightarrow> istate \<Rightarrow> ((herrno \<times> hsearch_data) + istate) option" where
  "import_loop 0 hk sep flag sz st = None"
| "import_loop (Suc fuel) hk sep flag sz st = do {
     r \<leftarrow> import_step hk sep flag st;
     (case r of
        Inl e \<Rightarrow> Some (Inl e)
      | Inr (data, dp, htab, vars) \<Rightarrow>
          (if dp < sz
           then do {
             c \<leftarrow> arr_get data dp;
             (if c \<noteq> 0 then import_loop fuel hk sep flag sz (data, dp, htab, vars)
              else Some (Inr (data, dp, htab, vars)))
           }
           else Some (Inr (data, dp, htab, vars))))
   }"

fun delete_unseen :: "hooks \<Rightarrow> int \<Rightarrow> cstr option list \<Rightarrow> hsearch_data \<Rightarrow> hsearch_data option" where
  "delete_unseen hk flag [] htab = Some htab"
| "delete_unseen hk flag (None # vars) htab = delete_unseen hk flag vars htab"
| "delete_unseen hk flag (Some v # vars) htab = do {
     (r, err, htab) \<leftarrow> hdelete_r hk v htab flag;
     delete_unseen hk flag vars htab
   }"

abbreviation (input) CONFIG_ENV_MIN_ENTRIES :: nat where "CONFIG_ENV_MIN_ENTRIES \<equiv> 64"
abbreviation (input) CONFIG_ENV_MAX_ENTRIES :: nat where "CONFIG_ENV_MAX_ENTRIES \<equiv> 512"

text \<open>
  The return value, \<open>errno\<close> and the table. \<open>malloc_ok\<close> and \<open>calloc_ok\<close> say whether the working copy
  and the new table can be allocated.
\<close>

definition himport_r ::
  "hooks \<Rightarrow> bool \<Rightarrow> bool \<Rightarrow> hsearch_data \<Rightarrow> cstr \<Rightarrow> u8 \<Rightarrow> int \<Rightarrow> bool \<Rightarrow> cstr list \<Rightarrow> (nat \<times> herrno option \<times> hsearch_data) option" where
  "himport_r hk malloc_ok calloc_ok htab env sep flag crlf_is_lf vars =
     (if \<not> malloc_ok then Some (0, Some ENOMEM, htab)
      else do {
        let sz = length env;
        let data = env @ [0];
        let htab = (if flag AND H_NOCLEAR = 0 \<and> table htab \<noteq> None then hdestroy_r htab else htab);
        let nent = CONFIG_ENV_MIN_ENTRIES + sz div 8;
        let nent = (if nent > CONFIG_ENV_MAX_ENTRIES then CONFIG_ENV_MAX_ENTRIES else nent);
        (ret, htab) \<leftarrow> (if table htab = None then hcreate_r calloc_ok nent htab else Some (1, htab));
        (if ret = 0 then Some (0, None, htab)
         else if sz = 0 then Some (1, None, htab)
         else do {
           (data, ign) \<leftarrow> (if crlf_is_lf then crlf_loop data sz 0 0 else Some (data, 0));
           r \<leftarrow> import_loop (sz + 1) hk sep flag (sz - ign) (data, 0, htab, map Some vars);
           (case r of
              Inl (err, htab) \<Rightarrow> Some (0, Some err, htab)
            | Inr (data, dp, htab, vars) \<Rightarrow> do {
                htab \<leftarrow> delete_unseen hk flag vars htab;
                Some (1, None, htab)
              })
         })
      })"

section \<open>What is exported\<close>

text \<open>The text of an entry, and the length that pass 1 reserves for it.\<close>

definition esc :: "u8 \<Rightarrow> cstr \<Rightarrow> cstr" where
  "esc sep s = concat (map (\<lambda>c. if c = sep \<or> c = backslash then [backslash, c] else [c]) s)"

definition entry_text :: "u8 \<Rightarrow> cstr \<times> cstr \<Rightarrow> cstr" where
  "entry_text sep e = fst e @ equals # esc sep (snd e) @ [sep]"

definition export_text :: "u8 \<Rightarrow> (cstr \<times> cstr) list \<Rightarrow> cstr" where
  "export_text sep lst = concat (map (entry_text sep) lst)"

definition entry_len :: "u8 \<Rightarrow> cstr \<times> cstr \<Rightarrow> nat" where
  "entry_len sep e = length (fst e) + 4 + length (if sep = 0 then snd e else esc sep (snd e))"

definition export_len :: "u8 \<Rightarrow> (cstr \<times> cstr) list \<Rightarrow> nat" where
  "export_len sep lst = sum_list (map (entry_len sep) lst)"

definition exported :: "regex \<Rightarrow> int \<Rightarrow> cstr list \<Rightarrow> cstr \<times> cstr \<Rightarrow> bool" where
  "exported re flag argv e \<longleftrightarrow>
     (argv = [] \<or> match_entry re e flag argv) \<and> \<not> (flag AND H_HIDE_DOT \<noteq> 0 \<and> take 1 (fst e) = [0x2E])"

lemma esc_simps [simp]:
  "esc sep [] = []"
  "esc sep (c # s) = (if c = sep \<or> c = backslash then backslash # c # esc sep s else c # esc sep s)"
  by (simp_all add: esc_def)

lemma escaped_len_esc: "escaped_len sep s n = n + length (esc sep s)"
  by (induction s arbitrary: n) simp_all

lemma esc_plain: "sep \<notin> set s \<Longrightarrow> backslash \<notin> set s \<Longrightarrow> esc sep s = s"
  by (induction s) auto

lemma put_chars_blit: "p + length s \<le> length res \<Longrightarrow> put_chars res p s = Some (blit res p s, p + length s)"
  by (induction s arbitrary: res p) (simp_all add: blit_Cons[simplified])

lemma put_chars_append:
  "put_chars res p (xs @ ys) = do { (res, p) \<leftarrow> put_chars res p xs; put_chars res p ys }"
  by (induction xs arbitrary: res p) (simp_all split: bind_splits)

lemma put_escaped_chars: "put_escaped sep res p s = put_chars res p (esc sep s)"
  by (induction s arbitrary: res p) (simp_all split: bind_splits)

lemma export_entries_chars: "export_entries sep res p lst = put_chars res p (export_text sep lst)"
proof (induction sep res p lst rule: export_entries.induct)
  case (2 sep res p k d lst)
  then show ?case
    by (simp add: export_text_def entry_text_def put_chars_append put_escaped_chars split: bind_splits)
qed (simp add: export_text_def)

lemma export_entries_blit:
  "p + length (export_text sep lst) \<le> length res \<Longrightarrow>
     export_entries sep res p lst = Some (blit res p (export_text sep lst), p + length (export_text sep lst))"
  by (simp add: export_entries_chars put_chars_blit)

text \<open>The entries that pass 1 collects.\<close>

definition slot_entry :: "hslot \<Rightarrow> (cstr \<times> cstr) option" where
  "slot_entry s = (if used s > 0 then do { k \<leftarrow> ekey (hent s); d \<leftarrow> edata (hent s); Some (k, d) } else None)"


fun selected :: "regex \<Rightarrow> int \<Rightarrow> cstr list \<Rightarrow> hslot list \<Rightarrow> (cstr \<times> cstr) list" where
  "selected re flag argv [] = []"
| "selected re flag argv (s # t) =
     (case slot_entry s of
        Some e \<Rightarrow> if exported re flag argv e then e # selected re flag argv t else selected re flag argv t
      | None \<Rightarrow> selected re flag argv t)"

lemma set_selected: "e \<in> set (selected re flag argv t) \<longleftrightarrow> exported re flag argv e \<and> (\<exists>s\<in>set t. slot_entry s = Some e)"
  by (induction t) (auto split: option.splits)

lemma export_scan_selected:
  assumes "table htab = Some t" "\<forall>s\<in>set (drop 1 t). used s > 0 \<longrightarrow> slot_entry s \<noteq> None"
  shows "1 \<le> i \<Longrightarrow> i + n = length t \<Longrightarrow> export_scan re htab sep flag argv i n lst totlen =
    (let new = selected re flag argv (drop i t) in Some (lst @ new, totlen + export_len sep new))"
proof (induction n arbitrary: i lst totlen)
  case (Suc n)
  have s: "slot_at htab i = Some (t ! i)" "drop i t = t ! i # drop (i + 1) t" "t ! i \<in> set (drop 1 t)"
    using Suc.prems assms(1) by (auto simp: slot_at_def Cons_nth_drop_Suc in_set_conv_nth intro!: exI[of _ "i - 1"])
  show ?case
  proof (cases "used (t ! i) > 0")
    case True
    then obtain k d where e: "ekey (hent (t ! i)) = Some k" "edata (hent (t ! i)) = Some d"
      using assms(2) s(3) by (fastforce simp: slot_entry_def split: bind_splits)
    then have "slot_entry (t ! i) = Some (k, d)" using True by (simp add: slot_entry_def)
    then show ?thesis using Suc s True e
      by (auto simp: exported_def export_len_def entry_len_def escaped_len_esc Let_def)
  next
    case False
    then have "slot_entry (t ! i) = None" by (simp add: slot_entry_def)
    then show ?thesis using Suc s False by (simp add: Let_def)
  qed
qed (simp add: export_len_def Let_def)

lemma selected_distinct:
  "sorted_wrt (\<lambda>s s'. \<forall>k d d'. \<not> (slot_entry s = Some (k, d) \<and> slot_entry s' = Some (k, d'))) t \<Longrightarrow>
    distinct (map fst (selected re flag argv t))"
proof (induction t)
  case (Cons s t)
  show ?case
  proof (cases "slot_entry s")
    case (Some e)
    have "fst e \<notin> fst ` set (selected re flag argv t)"
    proof
      assume "fst e \<in> fst ` set (selected re flag argv t)"
      then obtain e' s' where "fst e' = fst e" "s' \<in> set t" "slot_entry s' = Some e'" by (auto simp: set_selected)
      then show False using Cons.prems Some by (cases e; cases e') auto
    qed
    then show ?thesis using Cons Some by simp
  qed (use Cons in simp)
qed simp

lemma slot_entry_live: "slot_entry s = Some (k, d) \<longleftrightarrow> used s > 0 \<and> ekey (hent s) = Some k \<and> edata (hent s) = Some d"
  by (auto simp: slot_entry_def split: bind_splits if_splits)

lemma in_drop1: "s \<in> set (drop 1 t) \<longleftrightarrow> (\<exists>i. 1 \<le> i \<and> i < length t \<and> t ! i = s)"
proof -
  have "s \<in> set (drop 1 t) \<longleftrightarrow> (\<exists>i < length t - 1. t ! Suc i = s)" by (auto simp: in_set_conv_nth)
  also have "\<dots> \<longleftrightarrow> (\<exists>i. 1 \<le> i \<and> i < length t \<and> t ! i = s)"
    by (metis One_nat_def Suc_le_D Suc_le_mono diff_Suc_1 le0 less_diff_conv plus_1_eq_Suc add.commute Suc_less_eq less_Suc_eq_0_disj)
  finally show ?thesis .
qed

lemma table_entries:
  assumes "ht_inv htab" "table htab = Some t"
  shows "hsize htab + 1 = length t" "\<forall>s\<in>set (drop 1 t). used s > 0 \<longrightarrow> slot_entry s \<noteq> None"
    "distinct (map fst (selected re flag argv (drop 1 t)))"
    "set (selected re flag argv (drop 1 t)) = {e. env_of htab (fst e) = Some (snd e) \<and> exported re flag argv e}"
proof -
  have inv: "tab_inv t (hsize htab)" using assms by (auto simp: ht_inv_def)
  then show len: "hsize htab + 1 = length t" by (simp add: tab_inv_def)
  note live = tab_live[OF inv] and uniq = inv[unfolded tab_inv_def]
  show "\<forall>s\<in>set (drop 1 t). used s > 0 \<longrightarrow> slot_entry s \<noteq> None"
  proof (intro ballI impI)
    fix s assume "s \<in> set (drop 1 t)" "used s > 0"
    then obtain i where "1 \<le> i" "i < length t" "t ! i = s" unfolding in_drop1 by blast
    then show "slot_entry s \<noteq> None" using live[of i] len \<open>used s > 0\<close> by (auto simp: live_def slot_entry_def)
  qed
  have "sorted_wrt (\<lambda>s s'. \<forall>k d d'. \<not> (slot_entry s = Some (k, d) \<and> slot_entry s' = Some (k, d'))) (drop 1 t)"
    unfolding sorted_wrt_iff_nth_less
  proof (intro allI impI notI)
    fix i j k d d' assume ij: "i < j" "j < length (drop 1 t)"
      and "slot_entry (drop 1 t ! i) = Some (k, d) \<and> slot_entry (drop 1 t ! j) = Some (k, d')"
    then have "live t (Suc i) k" "live t (Suc j) k" by (auto simp: slot_entry_live live_def)
    moreover have "Suc i \<in> {1..hsize htab}" "Suc j \<in> {1..hsize htab}" using ij len by auto
    ultimately have "Suc i = Suc j" using uniq by blast
    then show False using ij by simp
  qed
  then show "distinct (map fst (selected re flag argv (drop 1 t)))" by (rule selected_distinct)
  show "set (selected re flag argv (drop 1 t)) = {e. env_of htab (fst e) = Some (snd e) \<and> exported re flag argv e}"
  proof (intro set_eqI)
    fix e
    have "(\<exists>s\<in>set (drop 1 t). slot_entry s = Some e) \<longleftrightarrow> env_of htab (fst e) = Some (snd e)"
    proof
      assume "\<exists>s\<in>set (drop 1 t). slot_entry s = Some e"
      then obtain s where "s \<in> set (drop 1 t)" and s: "slot_entry s = Some e" ..
      then obtain i where "1 \<le> i" "i < length t" "t ! i = s" unfolding in_drop1 by (elim exE conjE)
      then show "env_of htab (fst e) = Some (snd e)"
        using env_of_live[OF inv assms(2), of i "fst e"] len s slot_entry_live[of s "fst e" "snd e"] by (auto simp: live_def)
    next
      assume e: "env_of htab (fst e) = Some (snd e)"
      then obtain i where i: "1 \<le> i" "i \<le> hsize htab" "live t i (fst e)"
        using env_of_None[OF inv assms(2), of "fst e"] by auto
      then have "slot_entry (t ! i) = Some e"
        using env_of_live[OF inv assms(2) i] e slot_entry_live[of "t ! i" "fst e" "snd e"] by (simp add: live_def)
      moreover have "t ! i \<in> set (drop 1 t)" unfolding in_drop1 using i len by auto
      ultimately show "\<exists>s\<in>set (drop 1 t). slot_entry s = Some e" by blast
    qed
    then show "e \<in> set (selected re flag argv (drop 1 t)) \<longleftrightarrow> e \<in> {e. env_of htab (fst e) = Some (snd e) \<and> exported re flag argv e}"
      unfolding set_selected by auto
  qed
qed

lemma export_text_len:
  assumes "sep \<noteq> 0 \<or> (\<forall>e\<in>set lst. 0 \<notin> set (snd e) \<and> backslash \<notin> set (snd e))"
  shows "length (export_text sep lst) \<le> export_len sep lst"
  using assms
  by (induction lst) (auto simp: export_text_def export_len_def entry_text_def entry_len_def esc_plain)

text \<open>Comparing keys is a total order on ASCII strings.\<close>

definition ascii_string :: "cstr \<Rightarrow> bool" where
  "ascii_string s \<longleftrightarrow> (\<forall>c\<in>set s. c \<noteq> 0 \<and> unat c < 128)"

lemma str_order_le:
  assumes "ascii_string xs" "ascii_string ys"
  shows "str_order xs ys \<le> 0 \<longleftrightarrow> xs = ys \<or> (xs, ys) \<in> lexord {(a, b). unat a < unat b}"
proof -
  have "str_order xs ys = 0 \<longleftrightarrow> xs = ys" using assms by (intro str_order_eq) (auto simp: ascii_string_def)
  moreover have "str_order xs ys < 0 \<longleftrightarrow> (xs, ys) \<in> lexord {(a, b). unat a < unat b}"
    using assms by (intro str_order_ascii) (auto simp: ascii_string_def)
  ultimately show ?thesis by linarith
qed

lemma cmpkey_preorder:
  assumes "\<forall>e\<in>A. ascii_string (fst e)"
  shows "preorder_on_cmp A cmpkey"
proof -
  let ?R = "{(a, b). unat (a :: u8) < unat b}"
  have "trans ?R" by (auto intro: transI)
  then have tr: "trans (lexord ?R)" by (rule lexord_transI)
  have tot: "xs = ys \<or> (xs, ys) \<in> lexord ?R \<or> (ys, xs) \<in> lexord ?R" for xs ys
  proof -
    have "(a, b) \<in> ?R \<or> a = b \<or> (b, a) \<in> ?R" for a b by (auto simp flip: word_unat_eq_iff)
    then show ?thesis using lexord_linear[of ?R xs ys] by auto
  qed
  show ?thesis unfolding preorder_on_cmp_def cmpkey_def
  proof (intro conjI ballI impI)
    fix a b assume "a \<in> A" "b \<in> A"
    then show "str_order (fst a) (fst b) \<le> 0 \<or> str_order (fst b) (fst a) \<le> 0" 
      using tot[of "fst a" "fst b"] assms by (auto simp: str_order_le)
  next
    fix a b c assume "a \<in> A" "b \<in> A" "c \<in> A" "str_order (fst a) (fst b) \<le> 0" "str_order (fst b) (fst c) \<le> 0"
    then show "str_order (fst a) (fst c) \<le> 0" 
      using assms by (auto simp: str_order_le intro: transD[OF tr])
  qed
qed

lemma hexport_result:
  assumes inv: "ht_inv htab"
    and esc: "sep \<noteq> 0 \<or> (\<forall>k d. env_of htab k = Some d \<longrightarrow> 0 \<notin> set d \<and> backslash \<notin> set d)"
  shows "\<exists>lst. distinct (map fst lst) \<and>
    set lst = {e. env_of htab (fst e) = Some (snd e) \<and> exported re flag argv e} \<and>
    ((\<forall>k\<in>dom (env_of htab). ascii_string k) \<longrightarrow> cmp_sorted cmpkey lst) \<and>
    hexport_r re True htab sep flag None sz argv =
      (if sz \<noteq> 0 \<and> sz < export_len sep lst + 1 then Some (- 1, Some ENOMEM, None)
       else let n = (if sz \<noteq> 0 then sz else export_len sep lst + 1)
            in Some (int n, None, Some (export_text sep lst @ replicate (n - length (export_text sep lst)) 0))) \<and>
    length (export_text sep lst) \<le> export_len sep lst"
proof -
  obtain t where t: "table htab = Some t" using inv by (auto simp: ht_inv_def)
  define raw where "raw = selected re flag argv (drop 1 t)"
  note te = table_entries(1,2)[OF inv t] table_entries(3,4)[OF inv t, of re flag argv, folded raw_def]
  define lst where "lst = qsort cmpkey raw"
  have perm: "mset lst = mset raw" unfolding lst_def by (rule qs.srt_perm) simp
  then have set: "set lst = set raw" by (rule mset_eq_setD)
  have dist: "distinct (map fst lst)" using te(3) perm by (metis mset_eq_imp_distinct_iff mset_map)
  have len: "export_len sep lst = export_len sep raw"
    unfolding export_len_def using perm by (metis mset_map sum_mset_sum_list)
  have sorted: "(\<forall>k\<in>dom (env_of htab). ascii_string k) \<Longrightarrow> cmp_sorted cmpkey lst"
    unfolding lst_def by (intro qs.srt_sorted cmpkey_preorder) (auto simp: te(4))
  have fit: "length (export_text sep lst) \<le> export_len sep lst"
    using esc te(4) set by (intro export_text_len) auto
  have scan: "export_scan re htab sep flag argv 1 (hsize htab) [] 0 = Some (raw, export_len sep raw)"
    using export_scan_selected[OF t te(2), of 1 "hsize htab" re sep flag argv "[]" 0] te(1) by (simp add: raw_def Let_def)
  have wr: "do { (res, p) \<leftarrow> export_entries sep (replicate n 0) 0 lst; res \<leftarrow> arr_set res p 0; Some (int n, None, Some res) } =
      Some (int n, None, Some (export_text sep lst @ replicate (n - length (export_text sep lst)) 0))"
    if "export_len sep lst < n" for n
  proof -
    have "(export_text sep lst @ replicate (n - length (export_text sep lst)) 0)[length (export_text sep lst) := 0] =
        export_text sep lst @ replicate (n - length (export_text sep lst)) 0"
      using that fit by (intro nth_equalityI) (auto simp: nth_list_update nth_append)
    then show ?thesis using that fit by (simp add: export_entries_blit blit_def)
  qed
  have "hexport_r re True htab sep flag None sz argv =
      (if sz \<noteq> 0 \<and> sz < export_len sep lst + 1 then Some (- 1, Some ENOMEM, None)
       else let n = (if sz \<noteq> 0 then sz else export_len sep lst + 1)
            in Some (int n, None, Some (export_text sep lst @ replicate (n - length (export_text sep lst)) 0)))"
  proof (cases "sz \<noteq> 0 \<and> sz < export_len sep lst + 1")
    case True
    then show ?thesis using scan len by (simp add: hexport_r_def)
  next
    case False
    define n where "n = (if sz \<noteq> 0 then sz else export_len sep lst + 1)"
    have "export_len sep lst < n" using False by (auto simp: n_def)
    from wr[OF this] False show ?thesis unfolding hexport_r_def scan len[symmetric] Let_def
      by (cases "sz = 0") (simp_all add: n_def del: replicate_Suc flip: lst_def)
  qed
  with dist set te(4) sorted fit show ?thesis by (intro exI[of _ lst]) simp
qed



section \<open>The lines of a text\<close>

text \<open>
  What one round of the parser sees in the rest of the text, as a function on lists: a comment, a
  deletion or an insertion, and what remains. The tail of the list is the terminating zero and, when
  carriage returns were squeezed out, the bytes left behind the text.
\<close>

datatype line = Comment | Delete cstr | Insert cstr cstr

fun unescape :: "u8 \<Rightarrow> cstr \<Rightarrow> cstr \<times> cstr" where
  "unescape sep [] = ([], [])"
| "unescape sep [c] = (if c = 0 \<or> c = sep then ([], []) else ([c], []))"
| "unescape sep (c # e # s) =
     (if c = 0 \<or> c = sep then ([], e # s)
      else if c = backslash \<and> e \<noteq> 0 then (case unescape sep s of (v, r) \<Rightarrow> (e # v, r))
      else (case unescape sep (e # s) of (v, r) \<Rightarrow> (c # v, r)))"

definition parse_line :: "u8 \<Rightarrow> cstr \<Rightarrow> line \<times> cstr" where
  "parse_line sep xs =
     (let xs = dropWhile isblank xs
      in if hd xs = 0x23 then (Comment, tl (dropWhile (\<lambda>c. c \<noteq> 0 \<and> c \<noteq> sep) xs))
         else
           (let P = (\<lambda>c. c \<noteq> equals \<and> c \<noteq> 0 \<and> c \<noteq> sep);
                name = takeWhile P xs;
                xs = dropWhile P xs
            in if hd xs = 0 \<or> xs ! 1 = 0 \<or> hd xs = sep \<or> xs ! 1 = sep
               then (Delete name, drop (if hd xs = equals then 2 else 1) xs)
               else (case unescape sep (tl xs) of (v, r) \<Rightarrow> (Insert name v, r))))"

definition run_line ::
  "hooks \<Rightarrow> int \<Rightarrow> line \<Rightarrow> hsearch_data \<times> cstr option list \<Rightarrow> ((herrno \<times> hsearch_data) + (hsearch_data \<times> cstr option list)) option" where
  "run_line hk flag l st = (case st of (htab, vars) \<Rightarrow>
     (case l of
        Comment \<Rightarrow> Some (Inr (htab, vars))
      | Delete nm \<Rightarrow>
          (let (listed, vars) = drop_var_from_set nm vars
           in if \<not> listed then Some (Inr (htab, vars))
              else map_option (\<lambda>(r, err, htab). Inr (htab, vars)) (hdelete_r hk nm htab flag))
      | Insert nm v \<Rightarrow>
          (if nm = [] then Some (Inl (EINVAL, htab))
           else let (listed, vars) = drop_var_from_set nm vars
                in if \<not> listed then Some (Inr (htab, vars))
                   else map_option (\<lambda>(r, err, rv, htab). Inr (htab, vars)) (hsearch_r hk nm (Some v) ENTER htab flag))))"

section \<open>The parser works on the rest of the text\<close>

text \<open>The working copy ends in a zero.\<close>

definition zero_ended :: "mem \<Rightarrow> nat \<Rightarrow> bool" where
  "zero_ended data n \<longleftrightarrow> length data = Suc n \<and> data ! n = 0"

lemma zero_ended_cstring:
  assumes "zero_ended data n" "a \<le> n"
  shows "cstring data a (takeWhile (\<lambda>c. c \<noteq> 0) (drop a data))"
proof -
  let ?xs = "takeWhile (\<lambda>c. c \<noteq> 0) (drop a data)"
  have "0 \<in> set (drop a data)"
    using assms by (auto simp: zero_ended_def in_set_conv_nth intro!: exI[of _ "n - a"])
  then have l: "length ?xs < length (drop a data)" unfolding takeWhile_length_less by blast
  then have "drop a data ! length ?xs = 0" using nth_length_takeWhile[of "\<lambda>c. c \<noteq> 0" "drop a data"] by simp
  moreover have "slice data a (length ?xs) = ?xs" by (simp add: slice_def flip: takeWhile_eq_take)
  ultimately show ?thesis using l by (auto simp: cstring_iff dest: set_takeWhileD)
qed

lemma scan_while_drop:
  assumes z: "zero_ended data n" "a \<le> n" and P: "\<not> P 0"
  shows "\<exists>b. scan_while P data a = Some b \<and> a \<le> b \<and> b \<le> n \<and> \<not> P (data ! b) \<and>
    drop b data = dropWhile P (drop a data) \<and> slice data a (b - a) = takeWhile P (drop a data) \<and>
    (\<forall>i. a \<le> i \<and> i < b \<longrightarrow> P (data ! i))"
proof -
  let ?xs = "takeWhile P (drop a data)"
  have "0 \<in> set (drop a data)"
    using z by (auto simp: zero_ended_def in_set_conv_nth intro!: exI[of _ "n - a"])
  then have l: "length ?xs < length (drop a data)" using P unfolding takeWhile_length_less by blast
  have "takeWhile P (takeWhile (\<lambda>c. c \<noteq> 0) (drop a data)) = ?xs"
  proof -
    have "takeWhile P (takeWhile Q xs) = takeWhile P xs" if "\<And>c. P c \<Longrightarrow> Q c" for Q and xs :: cstr
      using that by (induction xs) auto
    from this[of "\<lambda>c. c \<noteq> 0" "drop a data"] show ?thesis using P by auto
  qed
  then have "scan_while P data a = Some (a + length ?xs)"
    using scan_while_cstring[OF zero_ended_cstring[OF z], of P] P by auto
  moreover have "\<not> P (data ! (a + length ?xs))" using nth_length_takeWhile[OF l] l by simp
  moreover have "drop (a + length ?xs) data = dropWhile P (drop a data)"
    by (metis add.commute drop_drop dropWhile_eq_drop)
  moreover have "P (data ! i)" if "a \<le> i" "i < a + length ?xs" for i
  proof -
    have k: "i - a < length ?xs" using that by simp
    then have "P (?xs ! (i - a))" using set_takeWhileD[of "?xs ! (i - a)" P "drop a data"] nth_mem[OF k] by blast
    then show ?thesis using takeWhile_nth[OF k] that l by simp
  qed
  ultimately show ?thesis using l z by (auto simp: zero_ended_def slice_def takeWhile_eq_take[symmetric])
qed

lemma drop_update: "i < j \<Longrightarrow> drop j (xs[i := v]) = drop j xs"
  by (simp add: drop_update_cancel)

text \<open>The value loop: \<open>sp\<close> never overtakes \<open>dp\<close>, so the rest of the text is read unchanged.\<close>

lemma value_loop_unescape:
  "zero_ended data n \<Longrightarrow> sp \<le> dp \<Longrightarrow> dp \<le> n \<Longrightarrow>
    \<exists>data' dp' v. value_loop sep data dp sp = Some (data', dp', sp + length v) \<and> zero_ended data' n \<and>
      sp + length v \<le> dp' \<and> dp \<le> dp' \<and> dp' \<le> n \<and> unescape sep (drop dp data) = (v, drop (dp' + 1) data') \<and>
      take (sp + length v) data' = take sp data @ v \<and> 0 \<notin> set v"
proof (induction sep data dp sp rule: value_loop.induct)
  case (1 sep data dp sp)
  note z = 1(3) and le = 1(4,5)
  have len: "length data = Suc n" and last: "data ! n = 0" using z by (simp_all add: zero_ended_def)
  define c where "c = data ! dp"
  have get: "arr_get data dp = Some c" and d: "drop dp data = c # drop (dp + 1) data"
    using le len by (simp_all add: c_def Cons_nth_drop_Suc)
  show ?case
  proof (cases "c = 0 \<or> c = sep")
    case True
    then have "unescape sep (drop dp data) = ([], drop (dp + 1) data)" unfolding d by (cases "drop (dp + 1) data") auto
    then show ?thesis using True get z le by (intro exI[of _ data] exI[of _ dp] exI[of _ "[]"]) (simp add: value_loop.simps[of sep data])
  next
    case False
    then have "dp \<noteq> n" using last c_def by auto
    then have dn: "dp < n" using le by simp
    define e where "e = data ! (dp + 1)"
    have gete: "arr_get data (dp + 1) = Some e" and de: "drop (dp + 1) data = e # drop (dp + 2) data"
      using dn len by (simp_all add: e_def Cons_nth_drop_Suc)
    have step: "\<exists>data' dp' v. value_loop sep (data[sp := x]) (dp + k) (sp + 1) = Some (data', dp', sp + 1 + length v) \<and> zero_ended data' n \<and>
        sp + 1 + length v \<le> dp' \<and> dp + k \<le> dp' \<and> dp' \<le> n \<and> unescape sep (drop (dp + k) data) = (v, drop (dp' + 1) data') \<and>
        take (sp + 1 + length v) data' = take sp data @ x # v \<and> 0 \<notin> set v"
      if ih: "zero_ended (data[sp := x]) n \<Longrightarrow> sp + 1 \<le> dp + k \<Longrightarrow> dp + k \<le> n \<Longrightarrow>
        \<exists>data' dp' v. value_loop sep (data[sp := x]) (dp + k) (sp + 1) = Some (data', dp', sp + 1 + length v) \<and> zero_ended data' n \<and>
        sp + 1 + length v \<le> dp' \<and> dp + k \<le> dp' \<and> dp' \<le> n \<and> unescape sep (drop (dp + k) (data[sp := x])) = (v, drop (dp' + 1) data') \<and>
        take (sp + 1 + length v) data' = take (sp + 1) (data[sp := x]) @ v \<and> 0 \<notin> set v"
      and k: "0 < k" "dp + k \<le> n" for x k
    proof -
      have "zero_ended (data[sp := x]) n" using z le dn by (auto simp: zero_ended_def)
      moreover have "take (sp + 1) (data[sp := x]) = take sp data @ [x]" using le len by (simp add: take_Suc_conv_app_nth)
      ultimately show ?thesis using ih k le by (simp add: drop_update)
    qed
    have set: "arr_set data sp x = Some (data[sp := x])" for x using le len by simp
    show ?thesis
    proof (cases "c = backslash \<and> e \<noteq> 0")
      case True
      then have sel: "(if c = backslash then arr_get data (dp + 1) else Some 0) = Some e" using gete by simp
      have "dp + 1 \<noteq> n" using True last e_def by auto
      then obtain data' dp' v where ih: "value_loop sep (data[sp := e]) (dp + 2) (sp + 1) = Some (data', dp', sp + 1 + length v)"
        "zero_ended data' n" "sp + 1 + length v \<le> dp'" "dp + 2 \<le> dp'" "dp' \<le> n"
        "unescape sep (drop (dp + 2) data) = (v, drop (dp' + 1) data')"
        "take (sp + 1 + length v) data' = take sp data @ e # v" "0 \<notin> set v"
        using step[OF 1(1)[OF get False sel _ set]] True dn by auto
      have "value_loop sep data dp sp = Some (data', dp', sp + length (e # v))"
        using ih(1) get False sel set True by (subst value_loop.simps) simp
      moreover have "unescape sep (drop dp data) = (e # v, drop (dp' + 1) data')"
        using ih(6) False True unfolding d de by simp
      ultimately show ?thesis using ih True by (intro exI[of _ data'] exI[of _ dp'] exI[of _ "e # v"]) simp
    next
      case plain: False
      define e' where "e' = (if c = backslash then e else 0)"
      have sel: "(if c = backslash then arr_get data (dp + 1) else Some 0) = Some e'" "\<not> e' \<noteq> 0" using gete plain by (auto simp: e'_def)
      obtain data' dp' v where ih: "value_loop sep (data[sp := c]) (dp + 1) (sp + 1) = Some (data', dp', sp + 1 + length v)"
        "zero_ended data' n" "sp + 1 + length v \<le> dp'" "dp + 1 \<le> dp'" "dp' \<le> n"
        "unescape sep (drop (dp + 1) data) = (v, drop (dp' + 1) data')"
        "take (sp + 1 + length v) data' = take sp data @ c # v" "0 \<notin> set v"
        using step[OF 1(2)[OF get False sel set]] dn by auto
      have "value_loop sep data dp sp = Some (data', dp', sp + length (c # v))"
        using ih(1) get False sel set by (subst value_loop.simps) simp
      moreover have "unescape sep (drop dp data) = (c # v, drop (dp' + 1) data')"
        using ih(6) False plain unfolding d de by (simp split: prod.splits)
      ultimately show ?thesis using ih False by (intro exI[of _ data'] exI[of _ dp'] exI[of _ "c # v"]) simp
    qed
  qed
qed

lemma name_string:
  assumes "b < length data" "slice data a (b - a) = nm" "a \<le> b" "0 \<notin> set nm" "take b data' = take b data" "length data' = length data"
    "data' ! b = 0"
  shows "string_at data' a = Some nm"
proof -
  have "slice data' a (b - a) = take (b - a) (drop a (take b data'))" by (simp add: slice_def drop_take)
  then have "slice data' a (b - a) = nm" using assms(2,5) by (simp add: slice_def drop_take)
  moreover have "length nm = b - a" using assms(1-3) by auto
  ultimately have "cstring data' a nm" using assms by (simp add: cstring_iff)
  then show ?thesis by (rule string_at_cstring)
qed

text \<open>One round on the working copy is one line of the rest of the text.\<close>

lemma import_delete_line:
  assumes z: "zero_ended data n" and b: "a \<le> b" "b \<le> n" and nm: "slice data a (b - a) = nm" "0 \<notin> set nm"
    and eq: "data ! b = equals \<Longrightarrow> b < n"
  shows "\<exists>data' dp'. import_delete hk flag data a b htab vars =
      map_option (\<lambda>r. case r of Inr (h, v) \<Rightarrow> (data', dp', h, v)) (run_line hk flag (Delete nm) (htab, vars)) \<and>
      zero_ended data' n \<and> b < dp' \<and> dp' \<le> Suc n \<and> drop dp' data' = drop (b + (if data ! b = equals then 2 else 1)) data"
proof -
  have len: "length data = Suc n" using z by (simp add: zero_ended_def)
  define b' where "b' = (if data ! b = equals then Suc b else b)"
  define data' where "data' = (if data ! b = equals then data[b := 0] else data)[b' := 0]"
  have b': "b' \<le> n" using eq b by (auto simp: b'_def)
  have z': "zero_ended data' n" using z b' b by (auto simp: zero_ended_def data'_def nth_list_update)
  have "string_at data' a = Some nm"
    using b len nm by (intro name_string[of b data a nm data']) (auto simp: data'_def b'_def nth_list_update)
  moreover have "drop (b' + 1) data' = drop (b + (if data ! b = equals then 2 else 1)) data"
    by (simp add: data'_def b'_def drop_update)
  moreover have "import_delete hk flag data a b htab vars =
      map_option (\<lambda>r. case r of Inr (h, v) \<Rightarrow> (data', b' + 1, h, v)) (run_line hk flag (Delete nm) (htab, vars))"
  proof -
    have "import_delete hk flag data a b htab vars = do {
        nm \<leftarrow> string_at data' a;
        let (listed, vars) = drop_var_from_set nm vars;
        (if \<not> listed then Some (data', b' + 1, htab, vars)
         else do { (r, err, htab) \<leftarrow> hdelete_r hk nm htab flag; Some (data', b' + 1, htab, vars) }) }"
      unfolding import_delete_def data'_def b'_def using b eq len
      by (cases "data ! b = equals") simp_all
    then show ?thesis using calculation(1)
      by (cases "drop_var_from_set nm vars"; cases "hdelete_r hk nm htab flag") (auto simp: run_line_def)
  qed
  ultimately show ?thesis using b b' z' by (intro exI[of _ data'] exI[of _ "b' + 1"]) (auto simp: b'_def)
qed

lemma import_insert_line:
  assumes z: "zero_ended data n" and b: "a \<le> b" "b < n" and nm: "slice data a (b - a) = nm" "0 \<notin> set nm"
    and v: "unescape sep (drop (b + 1) data) = (v, rest)"
  shows "\<exists>data' dp'. import_insert hk sep flag data a b htab vars =
      map_option (map_sum id (\<lambda>(h, v). (data', dp', h, v))) (run_line hk flag (Insert nm v) (htab, vars)) \<and>
      zero_ended data' n \<and> b < dp' \<and> dp' \<le> Suc n \<and> drop dp' data' = rest"
proof -
  have len: "length data = Suc n" using z by (simp add: zero_ended_def)
  have z1: "zero_ended (data[b := 0]) n" using z b by (auto simp: zero_ended_def)
  from value_loop_unescape[OF this order_refl, of "b + 1" sep] v b obtain data1 dp1 where
    loop: "value_loop sep (data[b := 0]) (b + 1) (b + 1) = Some (data1, dp1, b + 1 + length v)" "zero_ended data1 n"
      "b + 1 + length v \<le> dp1" "b + 1 \<le> dp1" "dp1 \<le> n" "rest = drop (dp1 + 1) data1"
      "take (b + 1 + length v) data1 = take (b + 1) (data[b := 0]) @ v" "0 \<notin> set v"
    by (auto simp: drop_update)
  define data' where "data' = data1[b + 1 + length v := 0]"
  have len1: "length data1 = Suc n" using loop(2) by (simp add: zero_ended_def)
  have z': "zero_ended data' n" using loop(2,3,5) by (auto simp: data'_def zero_ended_def nth_list_update)
  have tk: "take (b + 1 + length v) data' = take (b + 1) (data[b := 0]) @ v" using loop(7) by (simp add: data'_def)
  have tb: "take (b + 1) data' = take (b + 1) (data[b := 0])"
    using arg_cong[OF tk, of "take (b + 1)"] b len by (simp add: min_def)
  have "take b data' = take b data" using arg_cong[OF tb, of "take b"] by (simp add: min_def)
  moreover have "data' ! b = 0"
    using nth_take[of b "b + 1" data'] b len unfolding tb by simp
  ultimately have name: "string_at data' a = Some nm"
    using b len len1 nm by (intro name_string[of b data a nm data']) (auto simp: data'_def)
  have "slice data' (b + 1) (length v) = v"
    using arg_cong[OF tk, of "drop (b + 1)"] b len by (simp add: slice_def drop_take)
  then have val: "string_at data' (b + 1) = Some v"
    using loop(3,5,8) len1 by (intro string_at_cstring) (simp add: cstring_iff data'_def)
  have "import_insert hk sep flag data a b htab vars =
      map_option (map_sum id (\<lambda>(h, v). (data', dp1 + 1, h, v))) (run_line hk flag (Insert nm v) (htab, vars))"
    using b len len1 loop(1,3,5) name val
    unfolding import_insert_def Let_def
    by (cases "drop_var_from_set nm vars"; cases "hsearch_r hk nm (Some v) ENTER htab flag")
      (simp_all add: run_line_def data'_def split: prod.splits if_splits)
  moreover have "drop (dp1 + 1) data' = rest" using loop(3,6) by (simp add: data'_def drop_update)
  ultimately show ?thesis using z' loop(4,5) by (intro exI[of _ data'] exI[of _ "dp1 + 1"]) auto
qed

lemma import_step_line:
  assumes z: "zero_ended data n" and dp: "dp \<le> n" and pl: "parse_line sep (drop dp data) = (l, rest)"
  shows "\<exists>data' dp'. import_step hk sep flag (data, dp, htab, vars) =
      map_option (map_sum id (\<lambda>(h, v). (data', dp', h, v))) (run_line hk flag l (htab, vars)) \<and>
      zero_ended data' n \<and> dp < dp' \<and> dp' \<le> Suc n \<and> drop dp' data' = rest"
proof -
  have len: "length data = Suc n" using z by (simp add: zero_ended_def)
  have hd: "hd (drop i data) = data ! i" if "i \<le> n" for i using that len by (simp add: hd_drop_conv_nth)
  obtain a where a: "scan_while isblank data dp = Some a" "dp \<le> a" "a \<le> n" "drop a data = dropWhile isblank (drop dp data)"
    using scan_while_drop[OF z dp, of isblank] by (auto simp: isblank_def)
  have geta: "arr_get data a = Some (data ! a)" using a(3) len by simp
  show ?thesis
  proof (cases "data ! a = 0x23")
    case True
    obtain b where b: "scan_while (\<lambda>c. c \<noteq> 0 \<and> c \<noteq> sep) data a = Some b" "a \<le> b" "b \<le> n"
      "drop b data = dropWhile (\<lambda>c. c \<noteq> 0 \<and> c \<noteq> sep) (drop a data)"
      using scan_while_drop[OF z a(3), of "\<lambda>c. c \<noteq> 0 \<and> c \<noteq> sep"] by auto
    have "l = Comment" "rest = drop (b + 1) data"
      using pl True hd[OF a(3)] by (simp_all add: parse_line_def Let_def tl_drop[symmetric] drop_Suc flip: a(4) b(4))
    then show ?thesis using z a b True geta by (intro exI[of _ data] exI[of _ "b + 1"]) (simp add: import_step_def run_line_def)
  next
    case False
    let ?P = "\<lambda>c. c \<noteq> equals \<and> c \<noteq> 0 \<and> c \<noteq> sep"
    obtain b where b: "scan_while ?P data a = Some b" "a \<le> b" "b \<le> n" "\<not> ?P (data ! b)" "drop b data = dropWhile ?P (drop a data)"
      "slice data a (b - a) = takeWhile ?P (drop a data)"
      using scan_while_drop[OF z a(3), of ?P] by auto
    define nm where "nm = takeWhile ?P (drop a data)"
    have nm: "slice data a (b - a) = nm" "0 \<notin> set nm" using b(6) by (auto simp: nm_def dest: set_takeWhileD)
    have getb: "arr_get data b = Some (data ! b)" using b(3) len by simp
    have b1: "data ! b \<noteq> 0 \<Longrightarrow> b < n" using z b(3) by (auto simp: zero_ended_def le_less)
    have nth1: "drop b data ! 1 = data ! (b + 1)" if "b < n" using that len by simp
    let ?del = "data ! b = 0 \<or> data ! (b + 1) = 0 \<or> data ! b = sep \<or> data ! (b + 1) = sep"
    have c1: "(if data ! b = 0 then Some 0 else arr_get data (b + 1)) = Some (if data ! b = 0 then 0 else data ! (b + 1))"
      using b1 len by simp
    have step: "import_step hk sep flag (data, dp, htab, vars) =
        (if data ! b = 0 \<or> ?del then map_option Inr (import_delete hk flag data a b htab vars)
         else import_insert hk sep flag data a b htab vars)"
      using a b(1) geta getb c1 False by (auto simp: import_step_def Let_def)
    have line: "parse_line sep (drop dp data) =
        (if ?del then (Delete nm, drop (b + (if data ! b = equals then 2 else 1)) data)
         else (case unescape sep (drop (b + 1) data) of (v, r) \<Rightarrow> (Insert nm v, r)))"
    proof (cases "data ! b = 0")
      case True
      then show ?thesis using False hd[OF a(3)] hd[OF b(3)]
        by (simp add: parse_line_def Let_def add.commute flip: a(4) b(5) nm_def)
    next
      case nz: False
      then show ?thesis using False hd[OF a(3)] hd[OF b(3)] nth1[OF b1[OF nz]]
        by (simp add: parse_line_def Let_def add.commute tl_drop drop_Suc flip: a(4) b(5) nm_def)
    qed
    show ?thesis
    proof (cases ?del)
      case True
      obtain data' dp' where d: "import_delete hk flag data a b htab vars =
          map_option (\<lambda>r. case r of Inr (h, v) \<Rightarrow> (data', dp', h, v)) (run_line hk flag (Delete nm) (htab, vars))"
        "zero_ended data' n" "b < dp'" "dp' \<le> Suc n" "drop dp' data' = drop (b + (if data ! b = equals then 2 else 1)) data"
        using import_delete_line[OF z b(2,3) nm] b1 by fastforce
      have "l = Delete nm" "rest = drop dp' data'" using pl line True d(5) by simp_all
      moreover have "map_option Inr (import_delete hk flag data a b htab vars) =
          map_option (map_sum id (\<lambda>(h, v). (data', dp', h, v))) (run_line hk flag (Delete nm) (htab, vars))"
        unfolding d(1)
        by (cases "drop_var_from_set nm vars"; cases "hdelete_r hk nm htab flag") (auto simp: run_line_def)
      ultimately show ?thesis using step True d a(2) b(2) by (intro exI[of _ data'] exI[of _ dp']) simp
    next
      case ins: False
      obtain v r where v: "unescape sep (drop (b + 1) data) = (v, r)" by fastforce
      have "b < n" using b1 ins by blast
      from import_insert_line[OF z b(2) this nm v] obtain data' dp' where "import_insert hk sep flag data a b htab vars =
          map_option (map_sum id (\<lambda>(h, v). (data', dp', h, v))) (run_line hk flag (Insert nm v) (htab, vars))"
        "zero_ended data' n" "b < dp'" "dp' \<le> Suc n" "drop dp' data' = r" by blast
      moreover have "l = Insert nm v" "rest = r" using pl line ins v by simp_all
      ultimately show ?thesis using step ins a(2) b(2) by (intro exI[of _ data'] exI[of _ dp']) simp
    qed
  qed
qed

text \<open>The lines of a text whose last \<open>tail\<close> bytes lie behind the size: as many as the loop condition admits.\<close>

lemma length_unescape: "length (snd (unescape sep xs)) \<le> length xs"
  by (induction sep xs rule: unescape.induct) (auto split: prod.splits)

lemma parse_line_shorter: "xs \<noteq> [] \<Longrightarrow> length (snd (parse_line sep xs)) < length xs"
proof -
  assume "xs \<noteq> []"
  let ?ys = "dropWhile isblank xs" and ?P = "\<lambda>c. c \<noteq> equals \<and> c \<noteq> 0 \<and> c \<noteq> sep"
  have tl: "length (tl (dropWhile Q ys)) < length xs" if "length ys \<le> length xs" for Q and ys :: cstr
    using length_dropWhile_le[of Q ys] \<open>xs \<noteq> []\<close> that by (cases xs) auto
  have ys: "length ?ys \<le> length xs" by (rule length_dropWhile_le)
  have d: "length (drop (if c then 2 else 1) (dropWhile Q ?ys)) < length xs" for c Q
  proof -
    have "length (drop (if c then 2 else 1) (dropWhile Q ?ys)) \<le> length (tl (dropWhile Q ?ys))" by (simp add: diff_le_mono2)
    then show ?thesis using tl[OF ys, of Q] by (rule order.strict_trans1)
  qed
  show ?thesis using tl[OF ys] d length_unescape[of sep "tl (dropWhile ?P ?ys)"] order.strict_trans1[OF _ tl[OF ys, of ?P]]
    by (auto simp: parse_line_def Let_def split: prod.splits)
qed

function parse_lines :: "u8 \<Rightarrow> nat \<Rightarrow> cstr \<Rightarrow> line list" where
  "parse_lines sep tail xs =
     (if xs = [] then []
      else case parse_line sep xs of (l, rest) \<Rightarrow>
        l # (if tail < length rest \<and> hd rest \<noteq> 0 then parse_lines sep tail rest else []))"
  by pat_completeness auto
termination
  by (relation "measure (\<lambda>(sep, tail, xs). length xs)") (use parse_line_shorter in \<open>auto, metis snd_conv\<close>)

declare parse_lines.simps [simp del]

fun run_lines ::
  "hooks \<Rightarrow> int \<Rightarrow> line list \<Rightarrow> hsearch_data \<times> cstr option list \<Rightarrow> ((herrno \<times> hsearch_data) + (hsearch_data \<times> cstr option list)) option" where
  "run_lines hk flag [] st = Some (Inr st)"
| "run_lines hk flag (l # ls) st = do {
     r \<leftarrow> run_line hk flag l st;
     (case r of Inl e \<Rightarrow> Some (Inl e) | Inr st \<Rightarrow> run_lines hk flag ls st)
   }"

definition import_result ::
  "((herrno \<times> hsearch_data) + istate) \<Rightarrow> (herrno \<times> hsearch_data) + (hsearch_data \<times> cstr option list)" where
  "import_result r = map_sum id (\<lambda>(data, dp, h, v). (h, v)) r"

lemma import_loop_lines:
  "zero_ended data n \<Longrightarrow> dp \<le> n \<Longrightarrow> n - dp < fuel \<Longrightarrow> sz \<le> n \<Longrightarrow>
    map_option import_result (import_loop fuel hk sep flag sz (data, dp, htab, vars)) =
      run_lines hk flag (parse_lines sep (Suc n - sz) (drop dp data)) (htab, vars)"
proof (induction fuel arbitrary: data dp htab vars)
  case (Suc fuel)
  obtain l rest where pl: "parse_line sep (drop dp data) = (l, rest)" by fastforce
  obtain data' dp' where st: "import_step hk sep flag (data, dp, htab, vars) =
      map_option (map_sum id (\<lambda>(h, v). (data', dp', h, v))) (run_line hk flag l (htab, vars))"
    and z': "zero_ended data' n" and dp': "dp < dp'" "dp' \<le> Suc n" and rest: "drop dp' data' = rest"
    using import_step_line[OF Suc.prems(1,2) pl] by blast
  have len: "length data = Suc n" "length data' = Suc n" using Suc.prems(1) z' by (simp_all add: zero_ended_def)
  have go: "Suc n - sz < length rest \<and> hd rest \<noteq> 0 \<longleftrightarrow> dp' < sz \<and> data' ! dp' \<noteq> 0"
  proof -
    have "length rest = Suc n - dp'" using rest len by auto
    moreover have "hd rest = data' ! dp'" if "dp' < sz" using rest that len Suc.prems(4) by (auto simp: hd_drop_conv_nth)
    ultimately show ?thesis using Suc.prems(4) by (cases "dp' < sz") auto
  qed
  have lines: "parse_lines sep (Suc n - sz) (drop dp data) =
      l # (if dp' < sz \<and> data' ! dp' \<noteq> 0 then parse_lines sep (Suc n - sz) rest else [])"
    using len Suc.prems(2) by (subst parse_lines.simps) (simp add: pl go)
  show ?case
  proof (cases "run_line hk flag l (htab, vars)")
    case None
    then show ?thesis by (simp add: st lines)
  next
    case (Some r)
    show ?thesis
    proof (cases r)
      case (Inl e)
      then show ?thesis using Some by (simp add: st lines import_result_def)
    next
      case (Inr hv)
      then obtain h v where hv: "r = Inr (h, v)" by (cases hv) auto
      show ?thesis
      proof (cases "dp' < sz \<and> data' ! dp' \<noteq> 0")
        case True
        then have "map_option import_result (import_loop fuel hk sep flag sz (data', dp', h, v)) =
            run_lines hk flag (parse_lines sep (Suc n - sz) rest) (h, v)"
          using Suc.IH[OF z', of dp' h v] Suc.prems(3,4) dp' rest by auto
        then show ?thesis using True Some hv Suc.prems(4) len by (simp add: st lines)
      next
        case False
        then show ?thesis using Some hv Suc.prems(4) len by (auto simp: st lines import_result_def)
      qed
    qed
  qed
qed simp
section \<open>Import as a sequence of updates\<close>

fun line_updates :: "line list \<Rightarrow> (cstr, cstr) env_update list" where
  "line_updates [] = []"
| "line_updates (Comment # ls) = line_updates ls"
| "line_updates (Delete k # ls) = Unset k # line_updates ls"
| "line_updates (Insert k v # ls) = Set k v # line_updates ls"

fun inserts :: "line list \<Rightarrow> nat" where
  "inserts [] = 0"
| "inserts (Insert k v # ls) = Suc (inserts ls)"
| "inserts (l # ls) = inserts ls"

fun usable :: "line \<Rightarrow> bool" where
  "usable (Insert k v) \<longleftrightarrow> k \<noteq> []"
| "usable l \<longleftrightarrow> True"

text \<open>Hooks that never refuse a change.\<close>

definition accepting :: "hooks \<Rightarrow> bool" where
  "accepting hk \<longleftrightarrow> change_ok hk = None \<and> (\<forall>c k d opr flag. \<not> callback hk c k d opr flag)"

lemma accepting_rejects: "accepting hk \<Longrightarrow> \<not> rejects hk e d opr flag \<and> \<not> cb_rejects hk e k d opr flag"
  by (simp add: accepting_def rejects_def cb_rejects_def split: option.splits)

lemma accepting_compare:
  "accepting hk \<Longrightarrow> compare_and_overwrite_entry hk k dat act htab flag hval idx = Some (r, err, ep, htab') \<Longrightarrow>
    err \<notin> {Some EPERM, Some EINVAL}"
  by (auto simp: compare_and_overwrite_entry_def accepting_rejects Let_def split: bind_splits if_splits option.splits)

lemma accepting_loop:
  "accepting hk \<Longrightarrow> hsearch_loop hk k dat act htab flag hval hval2 fuel idx = Some (Inl (r, err, ep, htab')) \<Longrightarrow>
    err \<notin> {Some EPERM, Some EINVAL}"
proof (induction hk k dat act htab flag hval hval2 fuel idx rule: hsearch_loop.induct)
  case (2 hk k dat act htab flag hval hval2 fuel idx)
  then show ?case using accepting_compare[OF 2(2)]
    by (fastforce simp: Let_def split: bind_splits if_splits)
qed simp

lemma accepting_finish:
  "accepting hk \<Longrightarrow> hsearch_finish hk k dat act htab flag hval fd idx = Some (r, err, ep, htab') \<Longrightarrow>
    err \<notin> {Some EPERM, Some EINVAL}"
  by (auto simp: hsearch_finish_def hsearch_enter_def accepting_rejects Let_def split: bind_splits if_splits)

lemma accepting_search:
  assumes "accepting hk" "hsearch_r hk k dat act htab flag = Some (r, err, ep, htab')"
  shows "err \<notin> {Some EPERM, Some EINVAL}"
proof -
  let ?h = "hash_key (hsize htab) k"
  obtain s where s: "slot_at htab ?h = Some s" using assms(2) by (auto simp: hsearch_r_def Let_def split: bind_splits)
  show ?thesis
  proof (cases "used s = 0")
    case True
    then show ?thesis using assms(2) s accepting_finish[OF assms(1)] by (simp add: hsearch_r_def Let_def)
  next
    case False
    then obtain q where q: "compare_and_overwrite_entry hk k dat act htab flag ?h ?h = Some q"
      using assms(2) s by (auto simp: hsearch_r_def Let_def split: bind_splits)
    show ?thesis
    proof (cases "fst q = - 1")
      case stop: False
      then show ?thesis using assms(2) s False q accepting_compare[OF assms(1)] by (simp add: hsearch_r_def Let_def)
    next
      case True
      then obtain l where l: "hsearch_loop hk k dat act htab flag ?h (1 + ?h mod (hsize htab - 2)) (hsize htab + 1) ?h = Some l"
        using assms(2) s False q by (auto simp: hsearch_r_def Let_def simp del: hsearch_loop.simps split: bind_splits)
      then show ?thesis
        using assms(2) s False q True accepting_loop[OF assms(1)] accepting_finish[OF assms(1)]
        by (cases l) (simp_all add: hsearch_r_def Let_def del: hsearch_loop.simps)
    qed
  qed
qed

definition refusal :: "bool \<Rightarrow> (cstr, cstr) env_update \<Rightarrow> bool" where
  "refusal b u \<longleftrightarrow> \<not> b \<and> (\<exists>k v. u = Set k v)"

lemma run_line_insert:
  assumes "ht_inv htab" "strdup hk = Some" "0 < free_slots htab" "k \<noteq> []"
  shows "\<exists>b htab'. run_line hk flag (Insert k v) (htab, []) = Some (Inr (htab', [])) \<and> ht_inv htab' \<and>
    env_of htab' = env_apply b (Set k v) (env_of htab) \<and> free_slots htab \<le> Suc (free_slots htab') \<and> (accepting hk \<longrightarrow> b)"
proof -
  obtain r err ep htab' where h: "hsearch_r hk k (Some v) ENTER htab flag = Some (r, err, ep, htab')" "ht_inv htab'"
    "env_of htab' = (if r \<noteq> 0 then (env_of htab)(k \<mapsto> v) else env_of htab)" "r = 0 \<longrightarrow> err \<in> {Some EPERM, Some EINVAL}"
    "free_slots htab \<le> Suc (free_slots htab')"
    using hsearch_enter_env[OF assms(1-3), of k v flag] by blast
  then have "accepting hk \<Longrightarrow> r \<noteq> 0" using accepting_search by blast
  with h assms(4) show ?thesis
    by (intro exI[of _ "r \<noteq> 0"] exI[of _ htab']) (auto simp: run_line_def drop_var_from_set_def env_apply_def)
qed

lemma run_line_delete:
  assumes "ht_inv htab"
  shows "\<exists>b htab'. run_line hk flag (Delete k) (htab, []) = Some (Inr (htab', [])) \<and> ht_inv htab' \<and>
    env_of htab' = env_apply b (Unset k) (env_of htab) \<and> free_slots htab \<le> free_slots htab'"
proof -
  obtain r err htab' where "hdelete_r hk k htab flag = Some (r, err, htab')" "ht_inv htab'"
    "env_of htab' = (if r \<noteq> 0 then (env_of htab)(k := None) else env_of htab)" "free_slots htab \<le> free_slots htab'"
    using hdelete_env[OF assms, of hk k flag] by blast
  then show ?thesis
    by (intro exI[of _ "r \<noteq> 0"] exI[of _ htab']) (auto simp: run_line_def drop_var_from_set_def env_apply_def)
qed

lemma run_lines_env:
  "ht_inv htab \<Longrightarrow> strdup hk = Some \<Longrightarrow> inserts ls \<le> free_slots htab \<Longrightarrow>
    \<exists>bs htab'. run_lines hk flag ls (htab, []) =
        Some (if list_all usable ls then Inr (htab', []) else Inl (EINVAL, htab')) \<and>
      ht_inv htab' \<and> length bs = length (line_updates (takeWhile usable ls)) \<and>
      env_of htab' = env_applies bs (line_updates (takeWhile usable ls)) (env_of htab) \<and>
      (accepting hk \<longrightarrow> list_all2 (\<lambda>b u. \<not> refusal b u) bs (line_updates (takeWhile usable ls)))"
proof (induction ls arbitrary: htab)
  case Nil
  then show ?case by (intro exI[of _ "[]"] exI[of _ htab]) simp
next
  case (Cons l ls)
  show ?case
  proof (cases l)
    case Comment
    then show ?thesis using Cons.IH[OF Cons.prems(1,2)] Cons.prems(3) by (simp add: run_line_def)
  next
    case (Delete k)
    obtain b h where h: "run_line hk flag l (htab, []) = Some (Inr (h, []))" "ht_inv h"
      "env_of h = env_apply b (Unset k) (env_of htab)" "free_slots htab \<le> free_slots h"
      using run_line_delete[OF Cons.prems(1), of hk flag k] Delete by blast
    then obtain bs htab' where "run_lines hk flag ls (h, []) = Some (if list_all usable ls then Inr (htab', []) else Inl (EINVAL, htab'))"
      "ht_inv htab'" "length bs = length (line_updates (takeWhile usable ls))"
      "env_of htab' = env_applies bs (line_updates (takeWhile usable ls)) (env_of h)"
      "accepting hk \<longrightarrow> list_all2 (\<lambda>b u. \<not> refusal b u) bs (line_updates (takeWhile usable ls))"
      using Cons.IH[OF h(2) Cons.prems(2)] Cons.prems(3) Delete by auto
    with h Delete show ?thesis by (intro exI[of _ "b # bs"] exI[of _ htab']) (simp add: refusal_def)
  next
    case (Insert k v)
    show ?thesis
    proof (cases "k = []")
      case True
      then show ?thesis using Insert Cons.prems(1) by (intro exI[of _ "[]"] exI[of _ htab]) (simp add: run_line_def)
    next
      case False
      obtain b h where h: "run_line hk flag l (htab, []) = Some (Inr (h, []))" "ht_inv h"
        "env_of h = env_apply b (Set k v) (env_of htab)" "free_slots htab \<le> Suc (free_slots h)" "accepting hk \<longrightarrow> b"
        using run_line_insert[OF Cons.prems(1,2) _ False, of flag v] Cons.prems(3) Insert by auto
      then obtain bs htab' where "run_lines hk flag ls (h, []) = Some (if list_all usable ls then Inr (htab', []) else Inl (EINVAL, htab'))"
        "ht_inv htab'" "length bs = length (line_updates (takeWhile usable ls))"
        "env_of htab' = env_applies bs (line_updates (takeWhile usable ls)) (env_of h)"
        "accepting hk \<longrightarrow> list_all2 (\<lambda>b u. \<not> refusal b u) bs (line_updates (takeWhile usable ls))"
        using Cons.IH[OF h(2) Cons.prems(2)] Cons.prems(3) Insert by auto
      with h Insert False show ?thesis by (intro exI[of _ "b # bs"] exI[of _ htab']) (simp add: refusal_def)
    qed
  qed
qed

section \<open>Properties of import\<close>

text \<open>The table that the lines are entered into: a new one, or with H_NOCLEAR the given one.\<close>

definition start_env :: "int \<Rightarrow> hsearch_data \<Rightarrow> cstr \<Rightarrow> cstr option" where
  "start_env flag htab = (if flag AND H_NOCLEAR = 0 then Map.empty else env_of htab)"

definition start_room :: "int \<Rightarrow> hsearch_data \<Rightarrow> nat \<Rightarrow> nat" where
  "start_room flag htab n =
     (if flag AND H_NOCLEAR = 0 then min CONFIG_ENV_MAX_ENTRIES (CONFIG_ENV_MIN_ENTRIES + n div 8) else free_slots htab)"

lemma himport_start:
  assumes "flag AND H_NOCLEAR = 0 \<or> ht_inv htab"
  shows "\<exists>h. ht_inv h \<and> env_of h = start_env flag htab \<and> start_room flag htab (length env) \<le> free_slots h \<and>
    himport_r hk True True htab env sep flag False vars =
      (if env = [] then Some (1, None, h)
       else do {
         r \<leftarrow> import_loop (length env + 1) hk sep flag (length env) (env @ [0], 0, h, map Some vars);
         (case r of
            Inl (err, htab) \<Rightarrow> Some (0, Some err, htab)
          | Inr (data, dp, htab, vars) \<Rightarrow> do { htab \<leftarrow> delete_unseen hk flag vars htab; Some (1, None, htab) })
       })"
proof (cases "flag AND H_NOCLEAR = 0")
  case True
  let ?n = "min CONFIG_ENV_MAX_ENTRIES (CONFIG_ENV_MIN_ENTRIES + length env div 8)"
  let ?h = "if table htab \<noteq> None then hdestroy_r htab else htab"
  have tab: "table ?h = None" by (simp add: hdestroy_r_def)
  obtain h where h: "hcreate_r True ?n ?h = Some (1, h)" "ht_inv h" "env_of h = Map.empty" "?n \<le> hsize h" "free_slots h = hsize h"
  proof -
    have "4 \<le> ?n" "?n \<le> 520" by (simp_all add: min_le_iff_disj)
    from hcreate_correct[OF tab this] show ?thesis using that by blast
  qed
  have n: "(if CONFIG_ENV_MIN_ENTRIES + length env div 8 > CONFIG_ENV_MAX_ENTRIES then CONFIG_ENV_MAX_ENTRIES
      else CONFIG_ENV_MIN_ENTRIES + length env div 8) = ?n" by simp
  have flag: "(if flag AND H_NOCLEAR = 0 \<and> table htab \<noteq> None then hdestroy_r htab else htab) = ?h" using True by simp
  show ?thesis
  proof (intro exI conjI)
    show "himport_r hk True True htab env sep flag False vars =
      (if env = [] then Some (1, None, h)
       else do {
         r \<leftarrow> import_loop (length env + 1) hk sep flag (length env) (env @ [0], 0, h, map Some vars);
         (case r of
            Inl (err, htab) \<Rightarrow> Some (0, Some err, htab)
          | Inr (data, dp, htab, vars) \<Rightarrow> do { htab \<leftarrow> delete_unseen hk flag vars htab; Some (1, None, htab) })
       })"
      unfolding himport_r_def Let_def n flag using tab h(1) by (simp del: import_loop.simps One_nat_def)
  qed (use h True in \<open>simp_all add: start_env_def start_room_def\<close>)
next
  case False
  then have inv: "ht_inv htab" using assms by simp
  then obtain t where "table htab = Some t" by (auto simp: ht_inv_def)
  then show ?thesis using False inv
    by (intro exI[of _ htab]) (simp add: himport_r_def Let_def start_env_def start_room_def del: import_loop.simps One_nat_def)
qed

lemma himport_lines:
  assumes "env \<noteq> []"
  shows "do {
      r \<leftarrow> import_loop (length env + 1) hk sep flag (length env) (env @ [0], 0, h, []);
      (case r of
         Inl (err, htab) \<Rightarrow> Some (0, Some err, htab)
       | Inr (data, dp, htab, vars) \<Rightarrow> do { htab \<leftarrow> delete_unseen hk flag vars htab; Some (1, None, htab) })
    } = do {
      r \<leftarrow> run_lines hk flag (parse_lines sep 1 (env @ [0])) (h, []);
      (case r of
         Inl (err, htab) \<Rightarrow> Some (0 :: nat, Some err, htab)
       | Inr (htab, vars) \<Rightarrow> do { htab \<leftarrow> delete_unseen hk flag vars htab; Some (1, None, htab) })
    }"
proof -
  have "zero_ended (env @ [0]) (length env)" by (simp add: zero_ended_def nth_append)
  from import_loop_lines[OF this, of 0 "length env + 1" "length env" hk sep flag h "[]"]
  have "run_lines hk flag (parse_lines sep 1 (env @ [0])) (h, []) =
      map_option import_result (import_loop (length env + 1) hk sep flag (length env) (env @ [0], 0, h, []))"
    by (simp del: import_loop.simps)
  then show ?thesis
    by (simp del: import_loop.simps One_nat_def)
      (auto simp: import_result_def simp del: import_loop.simps split: bind_splits sum.splits option.splits)
qed

lemma himport_result:
  assumes "flag AND H_NOCLEAR = 0 \<or> ht_inv htab" and "strdup hk = Some"
    and "inserts (parse_lines sep 1 (env @ [0])) \<le> start_room flag htab (length env)"
  shows "\<exists>r err htab' bs us. us = line_updates (takeWhile usable (parse_lines sep 1 (env @ [0]))) \<and>
    himport_r hk True True htab env sep flag False [] = Some (r, err, htab') \<and> ht_inv htab' \<and>
    length bs = length us \<and> env_of htab' = env_applies bs us (start_env flag htab) \<and>
    (accepting hk \<longrightarrow> list_all2 (\<lambda>b u. \<not> refusal b u) bs us) \<and>
    (r, err) = (if list_all usable (parse_lines sep 1 (env @ [0])) then (1, None) else (0, Some EINVAL))"
proof -
  obtain h where h: "ht_inv h" "env_of h = start_env flag htab" "start_room flag htab (length env) \<le> free_slots h"
    and imp: "himport_r hk True True htab env sep flag False [] =
      (if env = [] then Some (1, None, h)
       else do {
         r \<leftarrow> import_loop (length env + 1) hk sep flag (length env) (env @ [0], 0, h, map Some []);
         (case r of
            Inl (err, htab) \<Rightarrow> Some (0, Some err, htab)
          | Inr (data, dp, htab, vars) \<Rightarrow> do { htab \<leftarrow> delete_unseen hk flag vars htab; Some (1, None, htab) })
       })"
    using himport_start[OF assms(1), of env hk sep "[]"] by blast
  show ?thesis
  proof (cases "env = []")
    case True
    have "parse_lines sep 1 (env @ [0]) = [Delete []]"
      using True by (subst parse_lines.simps) (simp add: parse_line_def isblank_def)
    then show ?thesis using True h imp
      by (intro exI[of _ 1] exI[of _ None] exI[of _ h] exI[of _ "[False]"]) (simp add: env_apply_def refusal_def)
  next
    case False
    define ls where "ls = parse_lines sep 1 (env @ [0])"
    have "inserts ls \<le> free_slots h" using assms(3) h(3) by (simp add: ls_def)
    from run_lines_env[OF h(1) assms(2) this] obtain bs htab' where
      run: "run_lines hk flag ls (h, []) = Some (if list_all usable ls then Inr (htab', []) else Inl (EINVAL, htab'))"
      and res: "ht_inv htab'" "length bs = length (line_updates (takeWhile usable ls))"
        "env_of htab' = env_applies bs (line_updates (takeWhile usable ls)) (env_of h)"
        "accepting hk \<longrightarrow> list_all2 (\<lambda>b u. \<not> refusal b u) bs (line_updates (takeWhile usable ls))"
      by blast
    have "himport_r hk True True htab env sep flag False [] =
        Some (if list_all usable ls then 1 else 0, if list_all usable ls then None else Some EINVAL, htab')"
      using imp himport_lines[OF False, of hk sep flag h] run False by (simp add: ls_def[symmetric] del: import_loop.simps One_nat_def)
    then show ?thesis using res h(2) unfolding ls_def[symmetric]
      by (intro exI[of _ "if list_all usable ls then 1 else 0"] exI[of _ "if list_all usable ls then None else Some EINVAL"]
          exI[of _ htab'] exI[of _ bs] exI[of _ "line_updates (takeWhile usable ls)"]) simp
  qed
qed



section \<open>Round trip\<close>

text \<open>Names that survive: not empty, no separator, equals sign or NUL, not starting with a blank or a hash sign.\<close>

definition good_name :: "u8 \<Rightarrow> cstr \<Rightarrow> bool" where
  "good_name sep k \<longleftrightarrow> k \<noteq> [] \<and> equals \<notin> set k \<and> 0 \<notin> set k \<and> sep \<notin> set k \<and> \<not> isblank (hd k) \<and> hd k \<noteq> 0x23"

lemma good_name_hd: "good_name sep k \<Longrightarrow> k \<noteq> [] \<and> hd k \<noteq> 0"
  by (cases k) (auto simp: good_name_def)

lemma unescape_esc: "sep \<noteq> backslash \<Longrightarrow> 0 \<notin> set d \<Longrightarrow> unescape sep (esc sep d @ sep # xs) = (d, xs)"
proof (induction d)
  case Nil
  then show ?case by (cases xs) simp_all
next
  case (Cons c d)
  obtain y ys where ys: "esc sep d @ sep # xs = y # ys" by (cases "esc sep d @ sep # xs") auto
  show ?case
  proof (cases "c = sep \<or> c = backslash")
    case True
    then show ?thesis using Cons by auto
  next
    case False
    then show ?thesis using Cons by (simp add: ys)
  qed
qed

lemma takeWhile_stops: "(\<And>x. x \<in> set xs \<Longrightarrow> P x) \<Longrightarrow> \<not> P y \<Longrightarrow> takeWhile P (xs @ y # ys) = xs \<and> dropWhile P (xs @ y # ys) = y # ys"
  by (simp add: takeWhile_append2 dropWhile_append2)

lemma parse_entry:
  assumes k: "good_name sep k" and d: "d \<noteq> []" "0 \<notin> set d" and sep: "sep \<noteq> backslash" "sep \<noteq> equals"
  shows "parse_line sep (entry_text sep (k, d) @ xs) = (Insert k d, xs)"
proof -
  let ?P = "\<lambda>c. c \<noteq> equals \<and> c \<noteq> 0 \<and> c \<noteq> sep"
  let ?v = "esc sep d @ sep # xs"
  have line: "entry_text sep (k, d) @ xs = k @ equals # ?v" by (simp add: entry_text_def)
  obtain c k' where k': "k = c # k'" "\<not> isblank c" "c \<noteq> 0x23" using k by (cases k) (auto simp: good_name_def)
  then have blank: "dropWhile isblank (k @ equals # ?v) = k @ equals # ?v" by simp
  have name: "takeWhile ?P (k @ equals # ?v) = k" "dropWhile ?P (k @ equals # ?v) = equals # ?v"
  proof -
    have "?P c" if "c \<in> set k" for c using k that by (auto simp: good_name_def)
    from takeWhile_stops[of k ?P equals ?v, OF this]
    show "takeWhile ?P (k @ equals # ?v) = k" "dropWhile ?P (k @ equals # ?v) = equals # ?v" by simp_all
  qed
  have "hd ?v \<noteq> 0 \<and> hd ?v \<noteq> sep" using d sep by (cases d) auto
  then have "(equals # ?v) ! 1 \<noteq> 0 \<and> (equals # ?v) ! 1 \<noteq> sep" by (simp add: hd_conv_nth)
  then show ?thesis unfolding line parse_line_def Let_def blank name
    using k' sep unescape_esc[OF sep(1) d(2), of xs] by simp
qed

definition good_entry :: "u8 \<Rightarrow> cstr \<times> cstr \<Rightarrow> bool" where
  "good_entry sep e \<longleftrightarrow> good_name sep (fst e) \<and> snd e \<noteq> [] \<and> 0 \<notin> set (snd e)"

lemma parse_lines_export:
  assumes sep: "sep \<noteq> backslash" "sep \<noteq> equals"
  shows "list_all (good_entry sep) lst \<Longrightarrow> lst \<noteq> [] \<Longrightarrow>
    parse_lines sep 1 (export_text sep lst @ replicate (Suc n) 0) = map (\<lambda>(k, d). Insert k d) lst"
proof (induction lst)
  case (Cons e lst)
  obtain k d where e: "e = (k, d)" by (cases e)
  let ?rest = "export_text sep lst @ replicate (Suc n) 0"
  have "parse_line sep (entry_text sep (k, d) @ ?rest) = (Insert k d, ?rest)"
    using Cons.prems sep e by (intro parse_entry) (auto simp: good_entry_def)
  then have "parse_lines sep 1 (export_text sep (e # lst) @ replicate (Suc n) 0) =
      Insert k d # (if 1 < length ?rest \<and> hd ?rest \<noteq> 0 then parse_lines sep 1 ?rest else [])"
    by (subst parse_lines.simps) (simp add: e export_text_def)
  moreover have "1 < length ?rest \<and> hd ?rest \<noteq> 0 \<longleftrightarrow> lst \<noteq> []"
  proof (cases lst)
    case (Cons f lst')
    then have "good_name sep (fst f)" using Cons.prems by (simp add: good_entry_def)
    from good_name_hd[OF this] have "fst f \<noteq> []" "hd (fst f) \<noteq> 0" by simp_all
    then show ?thesis using Cons by (auto simp: export_text_def entry_text_def hd_append)
  qed (simp add: export_text_def)
  ultimately have "parse_lines sep 1 (export_text sep (e # lst) @ replicate (Suc n) 0) =
      Insert k d # (if lst \<noteq> [] then parse_lines sep 1 ?rest else [])" by (simp only:)
  then show ?case using Cons e by (cases "lst = []") (simp_all del: replicate_Suc)
qed simp

lemma inserts_map: "inserts (map (\<lambda>(k, d). Insert k d) lst) = length lst"
  by (induction lst) auto

lemma updates_map: "line_updates (map (\<lambda>(k, d). Insert k d) lst) = map (\<lambda>(k, d). Set k d) lst"
  by (induction lst) auto

lemma usable_map: "list_all (good_entry sep) lst \<Longrightarrow> list_all usable (map (\<lambda>(k, d). Insert k d) lst)"
  by (induction lst) (auto simp: good_entry_def good_name_def)

lemma env_applies_sets:
  "list_all2 (\<lambda>b u. \<not> refusal b u) bs (map (\<lambda>(k, d). Set k d) lst) \<Longrightarrow> distinct (map fst lst) \<Longrightarrow>
    env_applies bs (map (\<lambda>(k, d). Set k d) lst) m = m ++ map_of lst"
proof (induction lst arbitrary: bs m)
  case (Cons e lst)
  obtain k d where e: "e = (k, d)" by (cases e)
  obtain bs' where "bs = True # bs'" "list_all2 (\<lambda>b u. \<not> refusal b u) bs' (map (\<lambda>(k, d). Set k d) lst)"
    using Cons.prems(1) by (auto simp: e refusal_def list_all2_Cons2)
  moreover have "m(k \<mapsto> d) ++ map_of lst = m ++ map_of (e # lst)"
    using Cons.prems(2) by (auto simp: e fun_eq_iff map_add_def split: option.splits) (metis map_of_SomeD fst_conv image_eqI)+
  moreover have "env_applies (True # bs') (map (\<lambda>(k, d). Set k d) (e # lst)) m = env_applies bs' (map (\<lambda>(k, d). Set k d) lst) (m(k \<mapsto> d))"
    by (simp add: e env_apply_def del: fun_upd_apply)
  ultimately show ?case using Cons.IH[of bs' "m(k \<mapsto> d)"] Cons.prems(2) by (simp del: fun_upd_apply map_of.simps)
qed simp

lemma map_of_entries: "distinct (map fst lst) \<Longrightarrow> set lst = {e. m (fst e) = Some (snd e)} \<Longrightarrow> map_of lst = m"
proof (rule ext)
  fix k assume d: "distinct (map fst lst)" and s: "set lst = {e. m (fst e) = Some (snd e)}"
  show "map_of lst k = m k"
  proof (cases "m k")
    case None
    then have "k \<notin> fst ` set lst" using s by auto
    then show ?thesis using None by (simp add: map_of_eq_None_iff)
  next
    case (Some v)
    then have "(k, v) \<in> set lst" using s by simp
    then show ?thesis using d Some by simp
  qed
qed

lemma export_text_empty: "export_text sep lst = [] \<longleftrightarrow> lst = []"
  by (cases lst) (auto simp: export_text_def entry_text_def)

lemma export_import:
  assumes inv: "ht_inv htab" and hk: "accepting hk" "strdup hk = Some"
    and sep: "sep \<noteq> backslash" "sep \<noteq> equals"
    and good: "\<forall>k d. env_of htab k = Some d \<longrightarrow> good_entry sep (k, d) \<and> (sep = 0 \<longrightarrow> backslash \<notin> set d)"
    and exp: "hexport_r re True htab sep 0 None sz [] = Some (int n, None, Some buf)"
    and room: "card (dom (env_of htab)) \<le> min CONFIG_ENV_MAX_ENTRIES (CONFIG_ENV_MIN_ENTRIES + n div 8)"
  shows "\<exists>htab'. himport_r hk True True htab0 buf sep 0 False [] = Some (1, None, htab') \<and>
    ht_inv htab' \<and> env_of htab' = env_of htab"
proof -
  obtain lst where dist: "distinct (map fst lst)"
    and lst: "set lst = {e. env_of htab (fst e) = Some (snd e) \<and> exported re 0 [] e}"
    and h: "hexport_r re True htab sep 0 None sz [] =
      (if sz \<noteq> 0 \<and> sz < export_len sep lst + 1 then Some (- 1, Some ENOMEM, None)
       else let n = (if sz \<noteq> 0 then sz else export_len sep lst + 1)
            in Some (int n, None, Some (export_text sep lst @ replicate (n - length (export_text sep lst)) 0)))"
    and fit: "length (export_text sep lst) \<le> export_len sep lst"
    using hexport_result[OF inv, of sep re 0 "[]" sz] good by (auto simp: good_entry_def)
  have buf: "buf = export_text sep lst @ replicate (n - length (export_text sep lst)) 0" and n: "export_len sep lst < n"
    using exp h by (auto simp: Let_def split: if_splits)
  have set: "set lst = {e. env_of htab (fst e) = Some (snd e)}" using lst by (simp add: exported_def)
  have all: "list_all (good_entry sep) lst" using set good by (auto simp: list_all_iff)
  have map: "map_of lst = env_of htab" by (rule map_of_entries[OF dist set])
  then have "card (dom (env_of htab)) = length lst" using dist by (metis distinct_card dom_map_of_conv_image_fst length_map set_map)
  then have len: "length lst \<le> start_room 0 htab0 n" using room by (simp add: start_room_def)
  define k where "k = n - length (export_text sep lst)"
  have lbuf: "length buf = n" using buf fit n by simp
  have bytes: "buf @ [0] = export_text sep lst @ replicate (Suc k) 0" using buf by (simp add: k_def replicate_append_same)
  define ls where "ls = parse_lines sep 1 (buf @ [0])"
  have ls: "takeWhile usable ls = (if lst = [] then [Delete []] else map (\<lambda>(k, d). Insert k d) lst) \<and> list_all usable ls \<and> inserts ls = length lst"
  proof (cases "lst = []")
    case True
    then have "ls = [Delete []]" using bytes unfolding ls_def
      by (subst parse_lines.simps) (cases k; simp add: parse_line_def isblank_def export_text_def)
    then show ?thesis using True by simp
  next
    case False
    then have "ls = map (\<lambda>(k, d). Insert k d) lst" unfolding ls_def bytes using parse_lines_export[OF sep all] by simp
    then show ?thesis using False usable_map[OF all] inserts_map[of lst] by (simp add: list_all_iff takeWhile_eq_all_conv)
  qed
  from himport_result[of 0 htab0 hk sep buf, folded ls_def] hk(2) ls len lbuf obtain htab' bs where
    imp: "himport_r hk True True htab0 buf sep 0 False [] = Some (1, None, htab')" "ht_inv htab'"
      "env_of htab' = env_applies bs (line_updates (takeWhile usable ls)) Map.empty"
      "list_all2 (\<lambda>b u. \<not> refusal b u) bs (line_updates (takeWhile usable ls))"
    using hk(1) by (auto simp: start_env_def)
  have "env_of htab' = env_of htab"
  proof (cases "lst = []")
    case True
    then have "env_of htab = Map.empty" using map by simp
    then show ?thesis using True imp(3,4) ls by (auto simp: env_apply_def list_all2_Cons2 fun_eq_iff)
  next
    case False
    then have "line_updates (takeWhile usable ls) = map (\<lambda>(k, d). Set k d) lst" using ls updates_map by simp
    then show ?thesis using imp(3,4) env_applies_sets[OF _ dist, of bs Map.empty] map by simp
  qed
  with imp show ?thesis by blast
qed


lemma one_variable:
  "\<exists>h. ht_inv h \<and> env_of h = [ascii ''a'' \<mapsto> ascii ''1'']"
proof -
  have "accepting plain_hooks" "strdup plain_hooks = Some" "ascii ''a'' \<noteq> []"
    by (simp_all add: accepting_def plain_hooks_def ascii_def)
  then show ?thesis
    using run_line_insert[OF sample_inv(1), of plain_hooks "ascii ''a''" 0 "ascii ''1''"]
    by (auto simp: sample_inv env_apply_def)
qed


section \<open>Carriage returns\<close>

text \<open>
  Squeezing out carriage returns shortens the text in place but does not terminate it again: the last
  value of a text that does not end in a line feed runs on into the bytes that were left behind. Here
  \<open>y=2\<close> becomes \<open>y=22\<close>.
\<close>

lemma himport_crlf_stale:
  "map_option (\<lambda>(r, err, h). (r, env_of h (ascii ''x''), env_of h (ascii ''y'')))
     (himport_r plain_hooks True True sample_htab (ascii ''x=1'' @ [0x0D, 0x0A] @ ascii ''y=2'') newline 1 True []) =
   Some (1, Some (ascii ''1''), Some (ascii ''22''))"
  by code_simp

end
