(* ===== verification/Blk_Layer.thy ===== *)
theory Blk_Layer
  imports Uboot_Prelude
begin

text \<open>
  The block layer: \<open>blk_dread\<close>, \<open>blk_dwrite\<close> and \<open>blk_derase\<close>, in the driver model version of
  drivers/block/blk-uclass.c and in the version of include/blk.h for boards without
  \<open>CONFIG_BLK\<close>. Both sit on a block cache, which is either drivers/block/blkcache.c or the
  empty inline functions of include/blk.h; the contract the block layer relies on is the locale
  \<open>block_cache\<close>, and what it promises in return is proved inside it.

  A device driver is an argument: its functions are fields of the descriptor, as in the code, and
  work on a driver state of any type. A buffer is a list of bytes; the result \<open>None\<close> is an access
  outside a buffer, or a call through a null pointer.
\<close>

section \<open>Descriptors and drivers\<close>

record 'd blk_desc =
  if_type :: int
  bd_devnum :: int
  bd_blksz :: u32
  block_read :: "('d \<Rightarrow> u32 \<Rightarrow> u32 \<Rightarrow> u8 list \<Rightarrow> u32 \<times> u8 list \<times> 'd) option"
  block_write :: "('d \<Rightarrow> u32 \<Rightarrow> u32 \<Rightarrow> u8 list \<Rightarrow> u32 \<times> 'd) option"
  block_erase :: "('d \<Rightarrow> u32 \<Rightarrow> u32 \<Rightarrow> u32 \<times> 'd) option"

type_synonym dev_key = "int \<times> int"

abbreviation key :: "'d blk_desc \<Rightarrow> dev_key" where
  "key bd \<equiv> (if_type bd, bd_devnum bd)"

definition ENOSYS :: nat where
  "ENOSYS = 38"

text \<open>
  What the heap answers when \<open>blkcache_fill\<close> asks for a node and then for its data: whether the
  node is available, and the memory for a given number of bytes.
\<close>

type_synonym heap_reply = "bool \<times> (nat \<Rightarrow> u8 list option)"

definition heap_ok :: "heap_reply \<Rightarrow> bool" where
  "heap_ok h = (\<forall>n c. snd h n = Some c \<longrightarrow> n \<le> length c)"

record 's cache_ops =
  c_read :: "'s \<Rightarrow> int \<Rightarrow> int \<Rightarrow> u32 \<Rightarrow> u32 \<Rightarrow> u32 \<Rightarrow> u8 list \<Rightarrow> (bool \<times> u8 list \<times> 's) option"
  c_fill :: "heap_reply \<Rightarrow> 's \<Rightarrow> int \<Rightarrow> int \<Rightarrow> u32 \<Rightarrow> u32 \<Rightarrow> u32 \<Rightarrow> u8 list \<Rightarrow> 's option"
  c_invalidate :: "'s \<Rightarrow> int \<Rightarrow> int \<Rightarrow> 's"

section \<open>The block operations\<close>

text \<open>
  The state is the cache and the driver state of every device. The part after the null check is
  the same in both versions, but the version of blk.h looks into the cache before it calls
  through the (unchecked) pointer.
\<close>

definition blk_read_device ::
  "'s cache_ops \<Rightarrow> heap_reply \<Rightarrow> 's \<times> (dev_key \<Rightarrow> 'd) \<Rightarrow> 'd blk_desc \<Rightarrow> u32 \<Rightarrow> u32 \<Rightarrow> u8 list \<Rightarrow>
     (u32 \<times> u8 list \<times> 's \<times> (dev_key \<Rightarrow> 'd)) option" where
  "blk_read_device co h st bd start blkcnt buffer = (case st of (s, w) \<Rightarrow>
     do {
       (hit, buffer, s) \<leftarrow> c_read co s (if_type bd) (bd_devnum bd) start blkcnt (bd_blksz bd) buffer;
       if hit then Some (blkcnt, buffer, s, w)
       else do {
         rd \<leftarrow> block_read bd;
         let (blks_read, buffer, d) = rd (w (key bd)) start blkcnt buffer;
         let w = w(key bd := d);
         if blks_read = blkcnt then do {
           s \<leftarrow> c_fill co h s (if_type bd) (bd_devnum bd) start blkcnt (bd_blksz bd) buffer;
           Some (blks_read, buffer, s, w)
         } else Some (blks_read, buffer, s, w)
       }
     })"

text \<open>drivers/block/blk-uclass.c\<close>

definition blk_dread ::
  "'s cache_ops \<Rightarrow> heap_reply \<Rightarrow> 's \<times> (dev_key \<Rightarrow> 'd) \<Rightarrow> 'd blk_desc \<Rightarrow> u32 \<Rightarrow> u32 \<Rightarrow> u8 list \<Rightarrow>
     (u32 \<times> u8 list \<times> 's \<times> (dev_key \<Rightarrow> 'd)) option" where
  "blk_dread co h st bd start blkcnt buffer =
     (case block_read bd of
        None \<Rightarrow> Some (- of_nat ENOSYS, buffer, st)
      | Some rd \<Rightarrow> blk_read_device co h st bd start blkcnt buffer)"

definition blk_dwrite ::
  "'s cache_ops \<Rightarrow> 's \<times> (dev_key \<Rightarrow> 'd) \<Rightarrow> 'd blk_desc \<Rightarrow> u32 \<Rightarrow> u32 \<Rightarrow> u8 list \<Rightarrow>
     u32 \<times> 's \<times> (dev_key \<Rightarrow> 'd)" where
  "blk_dwrite co st bd start blkcnt buffer = (case st of (s, w) \<Rightarrow>
     (case block_write bd of
        None \<Rightarrow> (- of_nat ENOSYS, s, w)
      | Some wr \<Rightarrow>
          (let s = c_invalidate co s (if_type bd) (bd_devnum bd);
               (r, d) = wr (w (key bd)) start blkcnt buffer
           in (r, s, w(key bd := d)))))"

definition blk_derase ::
  "'s cache_ops \<Rightarrow> 's \<times> (dev_key \<Rightarrow> 'd) \<Rightarrow> 'd blk_desc \<Rightarrow> u32 \<Rightarrow> u32 \<Rightarrow> u32 \<times> 's \<times> (dev_key \<Rightarrow> 'd)" where
  "blk_derase co st bd start blkcnt = (case st of (s, w) \<Rightarrow>
     (case block_erase bd of
        None \<Rightarrow> (- of_nat ENOSYS, s, w)
      | Some er \<Rightarrow>
          (let s = c_invalidate co s (if_type bd) (bd_devnum bd);
               (r, d) = er (w (key bd)) start blkcnt
           in (r, s, w(key bd := d)))))"

text \<open>include/blk.h, without \<open>CONFIG_BLK\<close>\<close>

definition legacy_blk_dread ::
  "'s cache_ops \<Rightarrow> heap_reply \<Rightarrow> 's \<times> (dev_key \<Rightarrow> 'd) \<Rightarrow> 'd blk_desc \<Rightarrow> u32 \<Rightarrow> u32 \<Rightarrow> u8 list \<Rightarrow>
     (u32 \<times> u8 list \<times> 's \<times> (dev_key \<Rightarrow> 'd)) option" where
  "legacy_blk_dread co h st bd start blkcnt buffer = blk_read_device co h st bd start blkcnt buffer"

definition legacy_blk_dwrite ::
  "'s cache_ops \<Rightarrow> 's \<times> (dev_key \<Rightarrow> 'd) \<Rightarrow> 'd blk_desc \<Rightarrow> u32 \<Rightarrow> u32 \<Rightarrow> u8 list \<Rightarrow>
     (u32 \<times> 's \<times> (dev_key \<Rightarrow> 'd)) option" where
  "legacy_blk_dwrite co st bd start blkcnt buffer = (case st of (s, w) \<Rightarrow>
     let s = c_invalidate co s (if_type bd) (bd_devnum bd) in
     do {
       wr \<leftarrow> block_write bd;
       let (r, d) = wr (w (key bd)) start blkcnt buffer;
       Some (r, s, w(key bd := d))
     })"

definition legacy_blk_derase ::
  "'s cache_ops \<Rightarrow> 's \<times> (dev_key \<Rightarrow> 'd) \<Rightarrow> 'd blk_desc \<Rightarrow> u32 \<Rightarrow> u32 \<Rightarrow>
     (u32 \<times> 's \<times> (dev_key \<Rightarrow> 'd)) option" where
  "legacy_blk_derase co st bd start blkcnt = (case st of (s, w) \<Rightarrow>
     let s = c_invalidate co s (if_type bd) (bd_devnum bd) in
     do {
       er \<leftarrow> block_erase bd;
       let (r, d) = er (w (key bd)) start blkcnt;
       Some (r, s, w(key bd := d))
     })"

text \<open>The inline functions of include/blk.h without \<open>CONFIG_BLOCK_CACHE\<close>.\<close>

definition no_cache_read ::
  "unit \<Rightarrow> int \<Rightarrow> int \<Rightarrow> u32 \<Rightarrow> u32 \<Rightarrow> u32 \<Rightarrow> u8 list \<Rightarrow> (bool \<times> u8 list \<times> unit) option" where
  "no_cache_read s iftype dev start blkcnt blksz buffer = Some (False, buffer, s)"

definition no_cache_fill ::
  "heap_reply \<Rightarrow> unit \<Rightarrow> int \<Rightarrow> int \<Rightarrow> u32 \<Rightarrow> u32 \<Rightarrow> u32 \<Rightarrow> u8 list \<Rightarrow> unit option" where
  "no_cache_fill h s iftype dev start blkcnt blksz buffer = Some s"

definition no_cache_invalidate :: "unit \<Rightarrow> int \<Rightarrow> int \<Rightarrow> unit" where
  "no_cache_invalidate s iftype dev = s"

definition no_cache :: "unit cache_ops" where
  "no_cache = \<lparr>c_read = no_cache_read, c_fill = no_cache_fill, c_invalidate = no_cache_invalidate\<rparr>"

section \<open>What drivers and caches promise\<close>

text \<open>
  The content of a device is a byte for every offset. A driver meets its description in blk.h when
  reading leaves the content alone and a complete read delivers the blocks asked for.
\<close>

definition blocks :: "(nat \<Rightarrow> u8) \<Rightarrow> u32 \<Rightarrow> u32 \<Rightarrow> u32 \<Rightarrow> u8 list" where
  "blocks c start n bs = map c [unat start * unat bs ..< (unat start + unat n) * unat bs]"

definition range_ok :: "u32 \<Rightarrow> u32 \<Rightarrow> u32 \<Rightarrow> u8 list \<Rightarrow> bool" where
  "range_ok start n bs buffer \<longleftrightarrow> unat start + unat n < 2 ^ 32 \<and> unat n * unat bs < 2 ^ 32 \<and>
     unat n * unat bs \<le> length buffer"

definition driver_ok :: "('d \<Rightarrow> nat \<Rightarrow> u8) \<Rightarrow> 'd blk_desc \<Rightarrow> bool" where
  "driver_ok content bd = (case block_read bd of
     None \<Rightarrow> True
   | Some rd \<Rightarrow> (\<forall>d start n buffer. range_ok start n (bd_blksz bd) buffer \<longrightarrow>
       (case rd d start n buffer of (k, buffer', d') \<Rightarrow>
          content d' = content d \<and> length buffer' = length buffer \<and>
          (k = n \<longrightarrow> take (unat n * unat (bd_blksz bd)) buffer' = blocks (content d) start n (bd_blksz bd)))))"

lemma driver_okD:
  assumes "driver_ok content bd" "block_read bd = Some rd" "range_ok start n (bd_blksz bd) buffer"
    and "rd d start n buffer = (k, buffer', d')"
  shows "content d' = content d" "length buffer' = length buffer"
    and "k = n \<Longrightarrow> take (unat n * unat (bd_blksz bd)) buffer' = blocks (content d) start n (bd_blksz bd)"
proof -
  have "case rd d start n buffer of (k, buffer', d') \<Rightarrow>
          content d' = content d \<and> length buffer' = length buffer \<and>
          (k = n \<longrightarrow> take (unat n * unat (bd_blksz bd)) buffer' = blocks (content d) start n (bd_blksz bd))"
    using assms(1-3) unfolding driver_ok_def by simp
  with assms(4) show "content d' = content d" "length buffer' = length buffer"
    "k = n \<Longrightarrow> take (unat n * unat (bd_blksz bd)) buffer' = blocks (content d) start n (bd_blksz bd)"
    by simp_all
qed

text \<open>
  A cache is coherent with the contents \<open>C\<close> of the devices when a hit delivers the blocks that are
  on the device. Reading and filling with true blocks keep that; after an invalidation the content
  of that device may become anything.
\<close>

locale block_cache =
  fixes co :: "'s cache_ops"
    and coh :: "(dev_key \<Rightarrow> nat \<Rightarrow> u8) \<Rightarrow> 's \<Rightarrow> bool"
  assumes read_law: "coh C s \<Longrightarrow> range_ok start n bs buffer \<Longrightarrow>
      \<exists>hit buffer' s'. c_read co s i d start n bs buffer = Some (hit, buffer', s') \<and> coh C s' \<and>
        length buffer' = length buffer \<and>
        (hit \<longrightarrow> take (unat n * unat bs) buffer' = blocks (C (i, d)) start n bs)"
    and fill_law: "coh C s \<Longrightarrow> range_ok start n bs buffer \<Longrightarrow> heap_ok h \<Longrightarrow>
      take (unat n * unat bs) buffer = blocks (C (i, d)) start n bs \<Longrightarrow>
      \<exists>s'. c_fill co h s i d start n bs buffer = Some s' \<and> coh C s'"
    and invalidate_law: "coh C s \<Longrightarrow> coh (C((i, d) := c)) (c_invalidate co s i d)"
begin

lemma read_device:
  assumes coh: "coh (content \<circ> w) s" and drv: "driver_ok content bd" and rd: "block_read bd \<noteq> None"
    and rng: "range_ok start n (bd_blksz bd) buffer" and h: "heap_ok h"
  shows "\<exists>k buffer' s' w'. blk_read_device co h (s, w) bd start n buffer = Some (k, buffer', s', w') \<and>
      coh (content \<circ> w') s' \<and> content \<circ> w' = content \<circ> w \<and> length buffer' = length buffer \<and>
      (k = n \<longrightarrow> take (unat n * unat (bd_blksz bd)) buffer' = blocks (content (w (key bd))) start n (bd_blksz bd))"
proof -
  obtain hit b1 s1 where 1: "c_read co s (if_type bd) (bd_devnum bd) start n (bd_blksz bd) buffer = Some (hit, b1, s1)"
    "coh (content \<circ> w) s1" "length b1 = length buffer"
    "hit \<Longrightarrow> take (unat n * unat (bd_blksz bd)) b1 = blocks (content (w (key bd))) start n (bd_blksz bd)"
    using read_law[OF coh rng, of "if_type bd" "bd_devnum bd"] by auto
  show ?thesis
  proof (cases hit)
    case True
    with 1 show ?thesis by (simp add: blk_read_device_def)
  next
    case False
    obtain rd where rd: "block_read bd = Some rd" using rd by auto
    obtain k b2 d where 2: "rd (w (key bd)) start n b1 = (k, b2, d)" by (metis prod_cases3)
    have rng1: "range_ok start n (bd_blksz bd) b1" using rng 1(3) by (simp add: range_ok_def)
    note D = driver_okD[OF drv rd rng1 2]
    have w: "content \<circ> (w(key bd := d)) = content \<circ> w" using D(1) by (auto simp: fun_eq_iff)
    show ?thesis
    proof (cases "k = n")
      case True
      have "range_ok start n (bd_blksz bd) b2" using rng1 D(2) by (simp add: range_ok_def)
      then obtain s2 where "c_fill co h s1 (if_type bd) (bd_devnum bd) start n (bd_blksz bd) b2 = Some s2"
        "coh (content \<circ> w) s2"
        using fill_law[OF 1(2) _ h, of start n "bd_blksz bd" b2 "if_type bd" "bd_devnum bd"] D(3)[OF True] by auto
      with 1 2 rd True \<open>\<not> hit\<close> D(2) D(3)[OF True] w show ?thesis
        by (simp add: blk_read_device_def del: fun_upd_apply)
    next
      case False
      with 1 2 rd \<open>\<not> hit\<close> D(2) w show ?thesis
        by (simp add: blk_read_device_def del: fun_upd_apply)
    qed
  qed
qed

lemma dread:
  assumes "coh (content \<circ> w) s" "driver_ok content bd" "range_ok start n (bd_blksz bd) buffer" "heap_ok h"
    and ne: "n \<noteq> - of_nat ENOSYS"
  shows "\<exists>k buffer' s' w'. blk_dread co h (s, w) bd start n buffer = Some (k, buffer', s', w') \<and>
      coh (content \<circ> w') s' \<and> content \<circ> w' = content \<circ> w \<and> length buffer' = length buffer \<and>
      (k = n \<longrightarrow> take (unat n * unat (bd_blksz bd)) buffer' = blocks (content (w (key bd))) start n (bd_blksz bd))"
proof (cases "block_read bd")
  case None
  with assms(1) ne show ?thesis by (auto simp: blk_dread_def)
next
  case (Some rd)
  with read_device[OF assms(1,2) _ assms(3,4)] show ?thesis by (simp add: blk_dread_def)
qed

lemma coh_change: "coh (content \<circ> w) s \<Longrightarrow>
    coh (content \<circ> (w(key bd := d))) (c_invalidate co s (if_type bd) (bd_devnum bd))"
  using invalidate_law[of "content \<circ> w" s "if_type bd" "bd_devnum bd" "content d"] by (simp add: fun_upd_comp)

lemma dwrite:
  assumes "coh (content \<circ> w) s" "blk_dwrite co (s, w) bd start n buffer = (r, s', w')"
  shows "coh (content \<circ> w') s'"
  using assms coh_change[OF assms(1)]
  by (auto simp: blk_dwrite_def Let_def split: option.splits prod.splits)

lemma derase:
  assumes "coh (content \<circ> w) s" "blk_derase co (s, w) bd start n = (r, s', w')"
  shows "coh (content \<circ> w') s'"
  using assms coh_change[OF assms(1)]
  by (auto simp: blk_derase_def Let_def split: option.splits prod.splits)

lemma legacy_write_erase:
  assumes "coh (content \<circ> w) s"
  shows "legacy_blk_dwrite co (s, w) bd start n buffer = Some (r, s', w') \<Longrightarrow> coh (content \<circ> w') s'"
    and "legacy_blk_derase co (s, w) bd start n = Some (r, s', w') \<Longrightarrow> coh (content \<circ> w') s'"
  using coh_change[OF assms]
  by (auto simp: legacy_blk_dwrite_def legacy_blk_derase_def Let_def Option.bind_eq_Some_conv
      case_prod_unfold)

end

interpretation stub: block_cache no_cache "\<lambda>C s. True"
  by unfold_locales (auto simp: no_cache_def no_cache_read_def no_cache_fill_def)

end
