(* ===== verification/Blkcache.thy ===== *)
theory Blkcache
  imports Blk_Layer
begin

text \<open>
  The block cache of drivers/block/blkcache.c. The list \<open>block_cache\<close> is a list of nodes, the
  most recently used one first; the memory a node owns is a list of bytes, which may be longer than
  the blocks it holds, since a reused node keeps a buffer that is large enough. All arithmetic is
  on 32-bit words (\<open>lbaint_t\<close> and \<open>unsigned long\<close>), so products and sums wrap as in the code.
\<close>

section \<open>Model\<close>

record block_cache_node =
  node_iftype :: int
  node_devnum :: int
  node_start :: u32
  node_blkcnt :: u32
  node_blksz :: u32
  node_cache :: "u8 list"

record block_cache_stats =
  hits :: u32
  misses :: u32
  entries :: u32
  max_blocks_per_entry :: u32
  max_entries :: u32

record blkcache =
  block_cache :: "block_cache_node list"
  stats :: block_cache_stats

definition blkcache_init :: blkcache where
  "blkcache_init = \<lparr>block_cache = [], stats = \<lparr>hits = 0, misses = 0, entries = 0,
     max_blocks_per_entry = 2, max_entries = 32\<rparr>\<rparr>"

definition node_covers :: "int \<Rightarrow> int \<Rightarrow> u32 \<Rightarrow> u32 \<Rightarrow> u32 \<Rightarrow> block_cache_node \<Rightarrow> bool" where
  "node_covers iftype devnum start blkcnt blksz node \<longleftrightarrow>
     node_iftype node = iftype \<and> node_devnum node = devnum \<and> node_blksz node = blksz \<and>
     node_start node \<le> start \<and> node_start node + node_blkcnt node \<ge> start + blkcnt"

text \<open>The walk of \<open>cache_find\<close>: \<open>before\<close> are the nodes already passed. The node found is moved to
  the front unless it is there already.\<close>

fun cache_find :: "(block_cache_node \<Rightarrow> bool) \<Rightarrow> block_cache_node list \<Rightarrow> block_cache_node list \<Rightarrow>
    (block_cache_node \<times> block_cache_node list) option" where
  "cache_find P before [] = None"
| "cache_find P before (node # rest) =
     (if P node then Some (node, if before = [] then node # rest else node # before @ rest)
      else cache_find P (before @ [node]) rest)"

text \<open>\<open>memcpy (dst, src + off, n)\<close> between two distinct allocations.\<close>

definition copy_bytes :: "u8 list \<Rightarrow> u8 list \<Rightarrow> nat \<Rightarrow> nat \<Rightarrow> u8 list option" where
  "copy_bytes dst src off n =
     (if n \<le> length dst \<and> off + n \<le> length src then Some (take n (drop off src) @ drop n dst) else None)"

definition blkcache_read :: "blkcache \<Rightarrow> int \<Rightarrow> int \<Rightarrow> u32 \<Rightarrow> u32 \<Rightarrow> u32 \<Rightarrow> u8 list \<Rightarrow>
    (bool \<times> u8 list \<times> blkcache) option" where
  "blkcache_read s iftype devnum start blkcnt blksz buffer =
     (case cache_find (node_covers iftype devnum start blkcnt blksz) [] (block_cache s) of
        Some (node, l) \<Rightarrow> do {
          buffer \<leftarrow> copy_bytes buffer (node_cache node) (unat ((start - node_start node) * blksz)) (unat (blksz * blkcnt));
          Some (True, buffer, s\<lparr>block_cache := l, stats := (stats s)\<lparr>hits := hits (stats s) + 1\<rparr>\<rparr>)
        }
      | None \<Rightarrow> Some (False, buffer, s\<lparr>stats := (stats s)\<lparr>misses := misses (stats s) + 1\<rparr>\<rparr>))"

text \<open>
  \<open>fill_node\<close> is the first half of \<open>blkcache_fill\<close>: the node to fill with the memory it still
  owns (\<open>None\<close> for a null pointer) and the remaining list. \<open>None\<close> of the outer option is the pop from
  an empty list, which would take the list head for a node.
\<close>

definition fill_node :: "heap_reply \<Rightarrow> blkcache \<Rightarrow> u32 \<Rightarrow> (u8 list option \<times> blkcache) option option" where
  "fill_node h s bytes =
     (if max_entries (stats s) \<le> entries (stats s) then
        (if block_cache s = [] then None
         else let node = last (block_cache s);
                  s = s\<lparr>block_cache := butlast (block_cache s), stats := (stats s)\<lparr>entries := entries (stats s) - 1\<rparr>\<rparr>
              in Some (Some (if node_blkcnt node * node_blksz node < bytes then None else Some (node_cache node), s)))
      else if fst h then Some (Some (None, s)) else Some None)"

definition blkcache_fill :: "heap_reply \<Rightarrow> blkcache \<Rightarrow> int \<Rightarrow> int \<Rightarrow> u32 \<Rightarrow> u32 \<Rightarrow> u32 \<Rightarrow> u8 list \<Rightarrow> blkcache option" where
  "blkcache_fill h s iftype devnum start blkcnt blksz buffer =
     (if blkcnt > max_blocks_per_entry (stats s) then Some s
      else if max_entries (stats s) = 0 then Some s
      else let bytes = blksz * blkcnt in
        do {
          r \<leftarrow> fill_node h s bytes;
          (case r of
             None \<Rightarrow> Some s
           | Some (own, s) \<Rightarrow>
               (case (case own of Some c \<Rightarrow> Some c | None \<Rightarrow> snd h (unat bytes)) of
                  None \<Rightarrow> Some s
                | Some c \<Rightarrow> do {
                    c \<leftarrow> copy_bytes c buffer 0 (unat bytes);
                    Some (s\<lparr>block_cache := \<lparr>node_iftype = iftype, node_devnum = devnum, node_start = start,
                              node_blkcnt = blkcnt, node_blksz = blksz, node_cache = c\<rparr> # block_cache s,
                            stats := (stats s)\<lparr>entries := entries (stats s) + 1\<rparr>\<rparr>)
                  }))
        })"

fun invalidate_list :: "int \<Rightarrow> int \<Rightarrow> block_cache_node list \<Rightarrow> u32 \<Rightarrow> block_cache_node list \<times> u32" where
  "invalidate_list iftype devnum [] n = ([], n)"
| "invalidate_list iftype devnum (node # rest) n =
     (if node_iftype node = iftype \<and> node_devnum node = devnum
      then invalidate_list iftype devnum rest (n - 1)
      else let (l, n) = invalidate_list iftype devnum rest n in (node # l, n))"

definition blkcache_invalidate :: "blkcache \<Rightarrow> int \<Rightarrow> int \<Rightarrow> blkcache" where
  "blkcache_invalidate s iftype devnum =
     (let (l, n) = invalidate_list iftype devnum (block_cache s) (entries (stats s))
      in s\<lparr>block_cache := l, stats := (stats s)\<lparr>entries := n\<rparr>\<rparr>)"

fun free_all :: "block_cache_node list \<Rightarrow> block_cache_node list" where
  "free_all [] = []"
| "free_all (node # rest) = free_all rest"

definition blkcache_configure :: "blkcache \<Rightarrow> u32 \<Rightarrow> u32 \<Rightarrow> blkcache" where
  "blkcache_configure s blks ents =
     (let s = (if blks \<noteq> max_blocks_per_entry (stats s) \<or> ents \<noteq> max_entries (stats s)
               then s\<lparr>block_cache := free_all (block_cache s), stats := (stats s)\<lparr>entries := 0\<rparr>\<rparr> else s)
      in s\<lparr>stats := (stats s)\<lparr>max_blocks_per_entry := blks, max_entries := ents, hits := 0, misses := 0\<rparr>\<rparr>)"

definition blkcache_stats :: "blkcache \<Rightarrow> block_cache_stats \<times> blkcache" where
  "blkcache_stats s = (stats s, s\<lparr>stats := (stats s)\<lparr>hits := 0, misses := 0\<rparr>\<rparr>)"

definition blkcache_ops :: "blkcache cache_ops" where
  "blkcache_ops = \<lparr>c_read = blkcache_read, c_fill = blkcache_fill, c_invalidate = blkcache_invalidate\<rparr>"

section \<open>Invariant\<close>

text \<open>
  A node holds what the device holds; the count of entries is the length of the list, within the
  configured bound; a node has no more blocks than configured.
\<close>

definition node_ok :: "(dev_key \<Rightarrow> nat \<Rightarrow> u8) \<Rightarrow> block_cache_node \<Rightarrow> bool" where
  "node_ok C node \<longleftrightarrow> range_ok (node_start node) (node_blkcnt node) (node_blksz node) (node_cache node) \<and>
     take (unat (node_blkcnt node) * unat (node_blksz node)) (node_cache node) =
       blocks (C (node_iftype node, node_devnum node)) (node_start node) (node_blkcnt node) (node_blksz node)"

definition sizes_ok :: "blkcache \<Rightarrow> bool" where
  "sizes_ok s \<longleftrightarrow> unat (entries (stats s)) = length (block_cache s) \<and> entries (stats s) \<le> max_entries (stats s) \<and>
     (\<forall>node \<in> set (block_cache s). node_blkcnt node \<le> max_blocks_per_entry (stats s))"

definition coherent :: "(dev_key \<Rightarrow> nat \<Rightarrow> u8) \<Rightarrow> blkcache \<Rightarrow> bool" where
  "coherent C s \<longleftrightarrow> sizes_ok s \<and> (\<forall>node \<in> set (block_cache s). node_ok C node)"


lemma cache_find_None: "cache_find P before l = None \<longleftrightarrow> (\<forall>x \<in> set l. \<not> P x)"
  by (induction P before l rule: cache_find.induct) auto

lemma cache_find_Some:
  "cache_find P before l = Some (node, l') \<Longrightarrow>
     \<exists>u v. l = u @ node # v \<and> (\<forall>x \<in> set u. \<not> P x) \<and> P node \<and> l' = node # before @ u @ v"
proof (induction P before l rule: cache_find.induct)
  case (2 P before x rest)
  show ?case
  proof (cases "P x")
    case True
    with 2(2) show ?thesis by (intro exI[of _ "[]"] exI[of _ rest]) (auto split: if_splits)
  next
    case False
    with 2 obtain u v where "rest = u @ node # v" "\<forall>x \<in> set u. \<not> P x" "P node" "l' = node # (before @ [x]) @ u @ v"
      by auto
    with False show ?thesis by (intro exI[of _ "x # u"] exI[of _ v]) auto
  qed
qed simp

lemma part_le:
  assumes "ns \<le> s" "s + n \<le> ns + (k :: nat)"
  shows "(s - ns) * bs + n * bs \<le> k * bs"
proof -
  have "(s - ns) + n \<le> k" using assms by simp
  then show ?thesis using mult_le_mono1[of "(s - ns) + n" k bs] by (simp add: add_mult_distrib)
qed

lemma blocks_part:
  assumes "ns \<le> s" "s + n \<le> ns + k" "take (k * bs) c = map f [ns * bs ..< (ns + k) * bs]"
  shows "take (n * bs) (drop ((s - ns) * bs) c) = map f [s * bs ..< (s + n) * bs]"
proof -
  note le = part_le[OF assms(1,2), of bs]
  have sum: "ns * bs + (s - ns) * bs = s * bs"
    using assms(1) by (simp flip: add_mult_distrib)
  have "take (n * bs) (drop ((s - ns) * bs) c) = take (n * bs) (drop ((s - ns) * bs) (take (k * bs) c))"
    using le by (simp add: drop_take)
  also have "\<dots> = map f (take (n * bs) [s * bs ..< (ns + k) * bs])"
    using sum by (simp add: assms(3) drop_map take_map drop_upt)
  also have "take (n * bs) [s * bs ..< (ns + k) * bs] = [s * bs ..< s * bs + n * bs]"
    using assms(2) by (intro take_upt) (simp flip: add_mult_distrib)
  finally show ?thesis by (simp add: add_mult_distrib)
qed

text \<open>A node that matches covers the range asked for, when the range does not wrap.\<close>

lemma node_covers_range:
  assumes "node_ok C node" "node_covers iftype devnum start n bs node" "unat start + unat n < 2 ^ 32"
  shows "unat (node_start node) \<le> unat start"
    and "unat start + unat n \<le> unat (node_start node) + unat (node_blkcnt node)"
  using assms unat_plus_nowrap[of start n] unat_plus_nowrap[of "node_start node" "node_blkcnt node"]
  by (auto simp: node_ok_def range_ok_def node_covers_def word_le_nat_alt)

lemma copy_from_node:
  assumes "node_ok C node" "node_covers iftype devnum start n bs node" "range_ok start n bs buffer"
  shows "copy_bytes buffer (node_cache node) (unat ((start - node_start node) * bs)) (unat (bs * n)) =
    Some (blocks (C (iftype, devnum)) start n bs @ drop (unat n * unat bs) buffer)"
proof -
  let ?ns = "unat (node_start node)" and ?k = "unat (node_blkcnt node)"
  have r: "unat start + unat n < 2 ^ 32" "unat n * unat bs < 2 ^ 32" "unat n * unat bs \<le> length buffer"
    using assms(3) by (auto simp: range_ok_def)
  have bs: "node_blksz node = bs" "node_iftype node = iftype" "node_devnum node = devnum"
    using assms(2) by (auto simp: node_covers_def)
  note cov = node_covers_range[OF assms(1,2) r(1)]
  have nr: "?k * unat bs < 2 ^ 32" "?k * unat bs \<le> length (node_cache node)"
    using assms(1) bs by (auto simp: node_ok_def range_ok_def)
  have le: "(unat start - ?ns) * unat bs + unat n * unat bs \<le> ?k * unat bs"
    using cov by (intro part_le)
  have d: "unat (start - node_start node) = unat start - ?ns"
    using cov by (intro unat_minus_nowrap)
  have off: "unat ((start - node_start node) * bs) = (unat start - ?ns) * unat bs"
    using le nr(1) by (subst unat_mult_nowrap) (simp_all add: d)
  have len: "unat (bs * n) = unat n * unat bs"
    using r(2) by (simp add: unat_mult_nowrap mult.commute)
  have "take (unat n * unat bs) (drop ((unat start - ?ns) * unat bs) (node_cache node)) =
      blocks (C (iftype, devnum)) start n bs"
    using assms(1) bs cov unfolding blocks_def node_ok_def by (intro blocks_part[of ?ns _ _ ?k]) auto
  with off len le nr(2) r(3) show ?thesis by (simp add: copy_bytes_def)
qed

lemma length_dev_blocks [simp]: "length (blocks c start n bs) = unat n * unat bs"
  by (simp add: blocks_def flip: diff_mult_distrib)

lemma blkcache_read_coherent:
  assumes "coherent C s" "range_ok start n bs buffer"
  shows "\<exists>hit buffer' s'. blkcache_read s i d start n bs buffer = Some (hit, buffer', s') \<and> coherent C s' \<and>
    length buffer' = length buffer \<and>
    (hit \<longrightarrow> take (unat n * unat bs) buffer' = blocks (C (i, d)) start n bs)"
proof (cases "cache_find (node_covers i d start n bs) [] (block_cache s)")
  case None
  with assms show ?thesis by (auto simp: blkcache_read_def coherent_def sizes_ok_def)
next
  case (Some r)
  obtain node l where r: "r = (node, l)" by fastforce
  from cache_find_Some[OF Some[unfolded r]] obtain u v where
    uv: "block_cache s = u @ node # v" "node_covers i d start n bs node" "l = node # u @ v" by auto
  have "node_ok C node" using assms(1) uv by (simp add: coherent_def)
  with copy_from_node[OF this uv(2) assms(2)] Some r assms uv show ?thesis
    by (auto simp: blkcache_read_def coherent_def sizes_ok_def range_ok_def)
qed

lemma fill_node_ok:
  assumes coh: "coherent C s" and max: "max_entries (stats s) \<noteq> 0"
  shows "\<exists>r. fill_node h s bytes = Some r \<and>
    (case r of
       None \<Rightarrow> \<not> fst h
     | Some (own, s') \<Rightarrow> coherent C s' \<and> entries (stats s') < max_entries (stats s') \<and>
         max_entries (stats s') = max_entries (stats s) \<and>
         max_blocks_per_entry (stats s') = max_blocks_per_entry (stats s) \<and>
         (\<forall>c. own = Some c \<longrightarrow> unat bytes \<le> length c) \<and>
         block_cache s' = take (unat (max_entries (stats s)) - 1) (block_cache s))"
proof (cases "max_entries (stats s) \<le> entries (stats s)")
  case True
  with coh have full: "entries (stats s) = max_entries (stats s)" by (simp add: coherent_def sizes_ok_def)
  have pos: "0 < unat (entries (stats s))" using max full by (simp add: unat_gt_0)
  with coh have ne: "block_cache s \<noteq> []" by (auto simp: coherent_def sizes_ok_def)
  let ?node = "last (block_cache s)"
  let ?s = "s\<lparr>block_cache := butlast (block_cache s), stats := (stats s)\<lparr>entries := entries (stats s) - 1\<rparr>\<rparr>"
  have e: "unat (entries (stats s) - 1) = unat (entries (stats s)) - 1"
    using pos by (subst unat_minus_nowrap) auto
  have lt: "entries (stats s) - 1 < max_entries (stats s)"
    using e pos full by (simp add: word_less_nat_alt)
  have coh': "coherent C ?s"
    using coh e less_imp_le[OF lt] by (simp add: coherent_def sizes_ok_def) (metis in_set_butlastD)
  have bl: "butlast (block_cache s) = take (unat (max_entries (stats s)) - 1) (block_cache s)"
    using coh full by (simp add: butlast_conv_take coherent_def sizes_ok_def)
  have "node_ok C ?node" using coh ne by (simp add: coherent_def)
  then have own: "unat bytes \<le> length (node_cache ?node)" if "\<not> node_blkcnt ?node * node_blksz ?node < bytes"
    using that by (auto simp: node_ok_def range_ok_def word_less_nat_alt unat_mult_nowrap)
  have "fill_node h s bytes =
      Some (Some (if node_blkcnt ?node * node_blksz ?node < bytes then None else Some (node_cache ?node), ?s))"
    using True ne by (simp add: fill_node_def Let_def)
  with coh' lt bl own show ?thesis by simp
next
  case False
  then have "length (block_cache s) \<le> unat (max_entries (stats s)) - 1"
    using coh by (simp add: coherent_def sizes_ok_def word_le_nat_alt)
  with False coh show ?thesis by (auto simp: fill_node_def)
qed

text \<open>
  What \<open>blkcache_fill\<close> does on a well-formed cache: it changes nothing, or (no memory) only drops the
  entries beyond the bound, or puts the new node in front of them.
\<close>

definition filled_node :: "int \<Rightarrow> int \<Rightarrow> u32 \<Rightarrow> u32 \<Rightarrow> u32 \<Rightarrow> u8 list \<Rightarrow> block_cache_node \<Rightarrow> bool" where
  "filled_node i d start n bs data node \<longleftrightarrow> node_iftype node = i \<and> node_devnum node = d \<and>
     node_start node = start \<and> node_blkcnt node = n \<and> node_blksz node = bs \<and>
     take (unat n * unat bs) (node_cache node) = data \<and> unat n * unat bs \<le> length (node_cache node)"

lemma blkcache_fill_cases:
  assumes coh: "coherent C s" and rng: "range_ok start n bs buffer" and h: "heap_ok h"
  obtains (skip) "blkcache_fill h s i d start n bs buffer = Some s"
      "max_blocks_per_entry (stats s) < n \<or> max_entries (stats s) = 0 \<or> \<not> fst h"
    | (drop) s' where "blkcache_fill h s i d start n bs buffer = Some s'" "coherent C s'"
      "block_cache s' = take (unat (max_entries (stats s)) - 1) (block_cache s)" "snd h (unat n * unat bs) = None"
    | (fill) s1 s' node where "blkcache_fill h s i d start n bs buffer = Some s'" "coherent C s1"
      "block_cache s1 = take (unat (max_entries (stats s)) - 1) (block_cache s)"
      "block_cache s' = node # block_cache s1"
      "filled_node i d start n bs (take (unat n * unat bs) buffer) node"
      "stats s' = (stats s1)\<lparr>entries := entries (stats s1) + 1\<rparr>"
      "entries (stats s1) < max_entries (stats s1)" "n \<le> max_blocks_per_entry (stats s1)"
proof (cases "max_blocks_per_entry (stats s) < n \<or> max_entries (stats s) = 0")
  case True
  then show thesis by (intro skip) (auto simp: blkcache_fill_def)
next
  case False
  have len: "unat (bs * n) = unat n * unat bs"
    using rng by (simp add: range_ok_def unat_mult_nowrap mult.commute)
  obtain r where r: "fill_node h s (bs * n) = Some r" and ok: "case r of
       None \<Rightarrow> \<not> fst h
     | Some (own, s') \<Rightarrow> coherent C s' \<and> entries (stats s') < max_entries (stats s') \<and>
         max_entries (stats s') = max_entries (stats s) \<and>
         max_blocks_per_entry (stats s') = max_blocks_per_entry (stats s) \<and>
         (\<forall>c. own = Some c \<longrightarrow> unat (bs * n) \<le> length c) \<and>
         block_cache s' = take (unat (max_entries (stats s)) - 1) (block_cache s)"
    using fill_node_ok[OF coh, of h "bs * n"] False by blast
  show thesis
  proof (cases r)
    case None
    with r ok False show thesis by (intro skip) (auto simp: blkcache_fill_def Let_def)
  next
    case (Some p)
    obtain own s1 where p: "p = (own, s1)" by fastforce
    let ?mem = "case own of Some c \<Rightarrow> Some c | None \<Rightarrow> snd h (unat (bs * n))"
    show thesis
    proof (cases ?mem)
      case None
      with r p Some ok False len show thesis
        by (intro drop[of s1]) (auto simp: blkcache_fill_def Let_def split: option.splits)
    next
      case (Some c)
      have "unat (bs * n) \<le> length c"
        using Some ok h p \<open>r = Some p\<close> by (auto simp: heap_ok_def split: option.splits)
      then have cp: "copy_bytes c buffer 0 (unat (bs * n)) =
          Some (take (unat n * unat bs) buffer @ drop (unat n * unat bs) c)"
        using rng len by (simp add: copy_bytes_def range_ok_def)
      from r p \<open>r = Some p\<close> ok False len Some cp rng show thesis
        by (intro fill[of _ s1]) (auto simp: blkcache_fill_def Let_def filled_node_def range_ok_def)
    qed
  qed
qed

lemma blkcache_fill_coherent:
  assumes "coherent C s" "range_ok start n bs buffer" "heap_ok h"
    and data: "take (unat n * unat bs) buffer = blocks (C (i, d)) start n bs"
  shows "\<exists>s'. blkcache_fill h s i d start n bs buffer = Some s' \<and> coherent C s'"
  using assms(1-3)
proof (cases rule: blkcache_fill_cases[of C s start n bs buffer h i d])
  case (fill s1 s' node)
  have "unat (entries (stats s1) + 1) = unat (entries (stats s1)) + 1"
    using fill(7) unat_u32_less[of "max_entries (stats s1)"]
    by (subst unat_plus_nowrap) (auto simp: word_less_nat_alt)
  moreover have "node_ok C node"
    using fill(5) assms(2) data by (auto simp: node_ok_def filled_node_def range_ok_def)
  ultimately have "coherent C s'"
    using fill by (auto simp: coherent_def sizes_ok_def filled_node_def word_le_nat_alt word_less_nat_alt)
  with fill(1) show ?thesis by auto
qed (use assms(1) in auto)

lemma invalidate_list_eq:
  "length l \<le> unat n \<Longrightarrow> invalidate_list i d l n =
     (let l' = filter (\<lambda>x. \<not> (node_iftype x = i \<and> node_devnum x = d)) l
      in (l', n - of_nat (length l - length l')))"
proof (induction i d l n rule: invalidate_list.induct)
  case (2 i d node rest n)
  show ?case
  proof (cases "node_iftype node = i \<and> node_devnum node = d")
    case True
    have "length rest \<le> unat (n - 1)"
      using 2(3) by (subst unat_minus_nowrap) auto
    with 2(1)[OF True] True show ?thesis
      by (simp add: Let_def Suc_diff_le length_filter_le algebra_simps)
  next
    case False
    with 2(2)[OF False] 2(3) show ?thesis by (auto simp: Let_def)
  qed
qed simp

lemma blkcache_invalidate_coherent:
  assumes "coherent C s"
  shows "coherent (C((i, d) := c)) (blkcache_invalidate s i d)"
proof -
  let ?P = "\<lambda>x. \<not> (node_iftype x = i \<and> node_devnum x = d)"
  let ?l = "filter ?P (block_cache s)"
  let ?k = "length (block_cache s) - length ?l"
  have len: "unat (entries (stats s)) = length (block_cache s)" using assms by (simp add: coherent_def sizes_ok_def)
  have k: "unat (of_nat ?k :: u32) = ?k"
    using unat_u32_less[of "entries (stats s)"] len by (intro unat_of_nat_u32) simp
  have e: "unat (entries (stats s) - of_nat ?k) = length ?l"
    using len k by (subst unat_minus_nowrap) (auto simp: length_filter_le)
  have inv: "blkcache_invalidate s i d =
      s\<lparr>block_cache := ?l, stats := (stats s)\<lparr>entries := entries (stats s) - of_nat ?k\<rparr>\<rparr>"
    using invalidate_list_eq[of "block_cache s" "entries (stats s)" i d] len
    by (simp add: blkcache_invalidate_def Let_def)
  have "length (block_cache s) \<le> unat (max_entries (stats s))"
    using assms len by (simp add: coherent_def sizes_ok_def word_le_nat_alt)
  then have "length ?l \<le> unat (max_entries (stats s))"
    by (rule le_trans[OF length_filter_le])
  with inv e assms show ?thesis
    by (auto simp: coherent_def sizes_ok_def node_ok_def word_le_nat_alt)
qed

interpretation bc: block_cache blkcache_ops coherent
  by unfold_locales
    (simp_all add: blkcache_ops_def blkcache_read_coherent blkcache_fill_coherent blkcache_invalidate_coherent)
lemma free_all_Nil [simp]: "free_all l = []"
  by (induction l) auto

lemma blkcache_configure_coherent:
  "coherent C s \<Longrightarrow> coherent C (blkcache_configure s blks ents)"
  by (simp add: blkcache_configure_def Let_def coherent_def sizes_ok_def)

lemma blkcache_stats_coherent: "blkcache_stats s = (r, s') \<Longrightarrow> coherent C s \<Longrightarrow> coherent C s'"
  by (auto simp: blkcache_stats_def coherent_def sizes_ok_def)

section \<open>Reachable states\<close>

text \<open>
  The states the cache and the devices get into from the start, by any interleaving of reads,
  writes and erasures through either block layer, of reconfigurations, of reading the statistics
  and of invalidations (as \<open>part_init\<close> does it when a device is initialised again, after which its
  medium may be another one).
\<close>

inductive blk_reach :: "('d \<Rightarrow> nat \<Rightarrow> u8) \<Rightarrow> blkcache \<Rightarrow> (dev_key \<Rightarrow> 'd) \<Rightarrow> bool"
  for content :: "'d \<Rightarrow> nat \<Rightarrow> u8"
where
  init: "blk_reach content blkcache_init w"
| dread: "blk_reach content s w \<Longrightarrow> driver_ok content bd \<Longrightarrow> range_ok start n (bd_blksz bd) buffer \<Longrightarrow> heap_ok h \<Longrightarrow>
    n \<noteq> - of_nat ENOSYS \<Longrightarrow>
    blk_dread blkcache_ops h (s, w) bd start n buffer = Some (k, buffer', s', w') \<Longrightarrow> blk_reach content s' w'"
| legacy_dread: "blk_reach content s w \<Longrightarrow> driver_ok content bd \<Longrightarrow> range_ok start n (bd_blksz bd) buffer \<Longrightarrow>
    heap_ok h \<Longrightarrow> block_read bd \<noteq> None \<Longrightarrow>
    legacy_blk_dread blkcache_ops h (s, w) bd start n buffer = Some (k, buffer', s', w') \<Longrightarrow> blk_reach content s' w'"
| dwrite: "blk_reach content s w \<Longrightarrow>
    blk_dwrite blkcache_ops (s, w) bd start n buffer = (k, s', w') \<Longrightarrow> blk_reach content s' w'"
| legacy_dwrite: "blk_reach content s w \<Longrightarrow>
    legacy_blk_dwrite blkcache_ops (s, w) bd start n buffer = Some (k, s', w') \<Longrightarrow> blk_reach content s' w'"
| derase: "blk_reach content s w \<Longrightarrow>
    blk_derase blkcache_ops (s, w) bd start n = (k, s', w') \<Longrightarrow> blk_reach content s' w'"
| legacy_derase: "blk_reach content s w \<Longrightarrow>
    legacy_blk_derase blkcache_ops (s, w) bd start n = Some (k, s', w') \<Longrightarrow> blk_reach content s' w'"
| configure: "blk_reach content s w \<Longrightarrow> blk_reach content (blkcache_configure s blks ents) w"
| stats: "blk_reach content s w \<Longrightarrow> blkcache_stats s = (r, s') \<Longrightarrow> blk_reach content s' w"
| reinit: "blk_reach content s w \<Longrightarrow> blk_reach content (blkcache_invalidate s i d) (w((i, d) := medium))"

lemma blkcache_init_coherent: "coherent C blkcache_init"
  by (simp add: blkcache_init_def coherent_def sizes_ok_def)

lemma blk_reach_coherent: "blk_reach content s w \<Longrightarrow> coherent (content \<circ> w) s"
proof (induction rule: blk_reach.induct)
  case (dread s w bd start n buffer h k buffer' s' w')
  then show ?case using bc.dread[of content w s bd start n buffer h] by (auto simp: comp_def)
next
  case (legacy_dread s w bd start n buffer h k buffer' s' w')
  then show ?case using bc.read_device[of content w s bd start n buffer h] by (auto simp: legacy_blk_dread_def comp_def)
next
  case (reinit s w i d medium)
  then have "coherent ((content \<circ> w)((i, d) := content medium)) (blkcache_invalidate s i d)"
    by (intro blkcache_invalidate_coherent) (simp add: comp_def)
  then show ?case by (simp only: fun_upd_comp)
next
  case (init w)
  show ?case by (rule blkcache_init_coherent)
next
  case (stats s w r s')
  then show ?case by (blast intro: blkcache_stats_coherent)
qed (erule bc.dwrite bc.derase bc.legacy_write_erase
     blkcache_configure_coherent; assumption)+

text \<open>C1: the block cache is transparent. In every reachable state, whatever was read, written, erased,
  reconfigured or replaced before, a read through either block layer returns (no access is out of
  bounds), and when it reports all blocks the buffer holds the blocks that are on the device now,
  from the cache or not; and the state stays reachable.
\<close>

theorem blk_dread_coherent:
  assumes "blk_reach content s w" and "driver_ok content bd" and "range_ok start n (bd_blksz bd) buffer"
    and "heap_ok h" and "block_read bd \<noteq> None"
  shows "\<exists>k buffer' s' w'.
      legacy_blk_dread blkcache_ops h (s, w) bd start n buffer = Some (k, buffer', s', w') \<and>
      blk_dread blkcache_ops h (s, w) bd start n buffer = Some (k, buffer', s', w') \<and>
      blk_reach content s' w' \<and> content \<circ> w' = content \<circ> w \<and> length buffer' = length buffer \<and>
      (k = n \<longrightarrow> take (unat n * unat (bd_blksz bd)) buffer' = blocks (content (w (key bd))) start n (bd_blksz bd))"
proof -
  obtain k buffer' s' w' where r: "blk_read_device blkcache_ops h (s, w) bd start n buffer = Some (k, buffer', s', w')"
    and ok: "content \<circ> w' = content \<circ> w" "length buffer' = length buffer"
      "k = n \<longrightarrow> take (unat n * unat (bd_blksz bd)) buffer' = blocks (content (w (key bd))) start n (bd_blksz bd)"
    using bc.read_device[OF blk_reach_coherent[OF assms(1)] assms(2,5,3,4)] by auto
  have l: "legacy_blk_dread blkcache_ops h (s, w) bd start n buffer = Some (k, buffer', s', w')"
    using r by (simp add: legacy_blk_dread_def)
  moreover have "blk_dread blkcache_ops h (s, w) bd start n buffer = Some (k, buffer', s', w')"
    using r assms(5) by (auto simp: blk_dread_def)
  moreover have "blk_reach content s' w'"
    using blk_reach.legacy_dread[OF assms l] .
  ultimately show ?thesis using ok by blast
qed

text \<open>C22: in every reachable state the counter \<open>entries\<close> is the number of nodes in the list, it is at
  most \<open>max_entries\<close>, no node has more blocks than \<open>max_blocks_per_entry\<close>, and every node owns
  memory for all its blocks.
\<close>

theorem blkcache_invariant:
  assumes "blk_reach content s w"
  shows "unat (entries (stats s)) = length (block_cache s) \<and> entries (stats s) \<le> max_entries (stats s) \<and>
    (\<forall>node \<in> set (block_cache s). node_blkcnt node \<le> max_blocks_per_entry (stats s) \<and>
       unat (node_blkcnt node * node_blksz node) = unat (node_blkcnt node) * unat (node_blksz node) \<and>
       unat (node_blkcnt node * node_blksz node) \<le> length (node_cache node))"
  using blk_reach_coherent[OF assms]
  by (auto simp: coherent_def sizes_ok_def node_ok_def range_ok_def unat_mult_nowrap)
text \<open>What is filled is found. Filling a well-formed cache with blocks it accepts keeps all but the
  least recently used entries and makes any part of those blocks a hit, which delivers the bytes
  filled in, counts as a hit and leaves the new entry at the front.
\<close>

theorem blkcache_fill_read:
  assumes coh: "coherent C s" and rng: "range_ok start n bs buffer" and h: "heap_ok h" "fst h"
    and mem: "snd h (unat n * unat bs) \<noteq> None"
    and fits: "n \<le> max_blocks_per_entry (stats s)" "max_entries (stats s) \<noteq> 0"
    and part: "unat start \<le> unat start'" "unat start' + unat n' \<le> unat start + unat n"
    and dst: "unat n' * unat bs \<le> length dst"
  shows "\<exists>s' s'' node. blkcache_fill h s i d start n bs buffer = Some s' \<and>
    block_cache s' = node # take (unat (max_entries (stats s)) - 1) (block_cache s) \<and>
    blkcache_read s' i d start' n' bs dst =
      Some (True, take (unat n' * unat bs) (drop ((unat start' - unat start) * unat bs) buffer) @
                  drop (unat n' * unat bs) dst, s'') \<and>
    block_cache s'' = block_cache s' \<and> hits (stats s'') = hits (stats s') + 1"
proof -
  from coh rng h(1) obtain s1 s' :: blkcache and node where f: "blkcache_fill h s i d start n bs buffer = Some s'"
    "block_cache s1 = take (unat (max_entries (stats s)) - 1) (block_cache s)"
    "block_cache s' = node # block_cache s1"
    "filled_node i d start n bs (take (unat n * unat bs) buffer) node"
  proof (cases rule: blkcache_fill_cases[of C s start n bs buffer h i d])
    case skip
    with fits h(2) show thesis by (simp add: not_less[symmetric])
  next
    case (drop s')
    with mem show thesis by simp
  next
    case (fill s1 s' node)
    then show thesis by (intro that[of s' s1 node])
  qed
  define c where "c = (\<lambda>k. buffer ! (k - unat start * unat bs))"
  have take_c: "take (unat n * unat bs) buffer = blocks c start n bs"
    using rng by (auto simp: blocks_def c_def range_ok_def add_mult_distrib intro!: nth_equalityI)
  have ok: "node_ok (\<lambda>_. c) node"
    using f(4) rng take_c by (simp add: node_ok_def filled_node_def range_ok_def)
  have cov: "node_covers i d start' n' bs node"
    using f(4) part rng unat_plus_nowrap[of start n] unat_plus_nowrap[of start' n']
    by (simp add: node_covers_def filled_node_def range_ok_def word_le_nat_alt)
  have le: "unat n' * unat bs \<le> unat n * unat bs" using part by (intro mult_le_mono1) simp
  have rng': "range_ok start' n' bs dst"
    using rng part dst by (simp add: range_ok_def le_less_trans[OF le])
  have sub: "blocks c start' n' bs = take (unat n' * unat bs) (drop ((unat start' - unat start) * unat bs) buffer)"
    using blocks_part[OF part, of "unat bs" buffer c] take_c by (simp add: blocks_def)
  have "blkcache_read s' i d start' n' bs dst = Some (True, blocks c start' n' bs @ drop (unat n' * unat bs) dst,
      s'\<lparr>block_cache := node # block_cache s1, stats := (stats s')\<lparr>hits := hits (stats s') + 1\<rparr>\<rparr>)"
    using copy_from_node[OF ok cov rng'] cov f(3) by (simp add: blkcache_read_def)
  with f(1-3) sub show ?thesis by auto
qed

section \<open>Sample devices\<close>

text \<open>A device with blocks of two bytes, whose state is its content; it reads and writes completely.\<close>

definition sample_rd :: "(nat \<Rightarrow> u8) \<Rightarrow> u32 \<Rightarrow> u32 \<Rightarrow> u8 list \<Rightarrow> u32 \<times> u8 list \<times> (nat \<Rightarrow> u8)" where
  "sample_rd c start n buffer = (n, blocks c start n 2 @ drop (unat n * 2) buffer, c)"

definition sample_wr :: "(nat \<Rightarrow> u8) \<Rightarrow> u32 \<Rightarrow> u32 \<Rightarrow> u8 list \<Rightarrow> u32 \<times> (nat \<Rightarrow> u8)" where
  "sample_wr c start n buffer = (n, \<lambda>k. if unat start * 2 \<le> k \<and> k < (unat start + unat n) * 2
     then buffer ! (k - unat start * 2) else c k)"

definition sample_desc :: "(nat \<Rightarrow> u8) blk_desc" where
  "sample_desc = \<lparr>if_type = 6, bd_devnum = 1, bd_blksz = 2, block_read = Some sample_rd,
     block_write = Some sample_wr, block_erase = None\<rparr>"

lemma sample_driver_ok: "driver_ok id sample_desc"
  by (auto simp: driver_ok_def sample_desc_def sample_rd_def range_ok_def)

definition sample_heap :: heap_reply where
  "sample_heap = (True, \<lambda>n. Some (replicate n 0))"

lemma sample_heap_ok: "heap_ok sample_heap"
  by (auto simp: heap_ok_def sample_heap_def)

text \<open>A read that fills the cache, and a write.\<close>

definition sample_state :: "blkcache \<times> (dev_key \<Rightarrow> nat \<Rightarrow> u8)" where
  "sample_state = (case blk_dread blkcache_ops sample_heap (blkcache_init, \<lambda>_ k. of_nat k) sample_desc 4 2 [0, 0, 0, 0] of
     Some (k, buffer, s, w) \<Rightarrow> (s, w))"

lemma sample_state_reach: "blk_reach id (fst sample_state) (snd sample_state)"
proof -
  let ?w = "\<lambda>(_ :: dev_key) k. of_nat k :: u8"
  have rng: "range_ok 4 2 (bd_blksz sample_desc) [0, 0, 0, 0]" by (simp add: range_ok_def sample_desc_def)
  have ne: "(2 :: u32) \<noteq> - of_nat ENOSYS" by (simp add: ENOSYS_def)
  have init: "blk_reach id blkcache_init ?w" by (rule blk_reach.init)
  obtain k b s w where r: "blk_dread blkcache_ops sample_heap (blkcache_init, ?w) sample_desc 4 2 [0, 0, 0, 0] =
      Some (k, b, s, w)"
    using bc.dread[OF blk_reach_coherent[OF init] sample_driver_ok rng sample_heap_ok ne] by auto
  from blk_reach.dread[OF init sample_driver_ok rng sample_heap_ok ne r] r show ?thesis
    by (simp add: sample_state_def)
qed

theorem blk_dread_coherent_witness:
  "\<exists>k buffer' s' w'.
      legacy_blk_dread blkcache_ops sample_heap (fst sample_state, snd sample_state) sample_desc 5 1 [9, 9, 9] =
        Some (k, buffer', s', w') \<and>
      (k = 1 \<longrightarrow> take 2 buffer' = blocks (snd sample_state (6, 1)) 5 1 2)"
proof -
  have "range_ok 5 1 (bd_blksz sample_desc) [9, 9, 9]" by (simp add: range_ok_def sample_desc_def)
  from blk_dread_coherent[OF sample_state_reach sample_driver_ok this sample_heap_ok] show ?thesis
    by (auto simp: sample_desc_def)
qed

theorem blkcache_invariant_witness:
  "unat (entries (stats (fst sample_state))) = length (block_cache (fst sample_state)) \<and>
   length (block_cache (fst sample_state)) = 1"
  using blkcache_invariant[OF sample_state_reach]
  by (simp add: sample_state_def blk_dread_def blk_read_device_def sample_desc_def blkcache_ops_def blkcache_read_def
      blkcache_init_def sample_rd_def blkcache_fill_def fill_node_def sample_heap_def copy_bytes_def)

theorem blkcache_fill_read_witness:
  "\<exists>s' s''. blkcache_fill sample_heap blkcache_init 6 1 4 2 2 [1, 2, 3, 4] = Some s' \<and>
     blkcache_read s' 6 1 5 1 2 [9, 9, 9] = Some (True, [3, 4, 9], s'')"
proof -
  have "range_ok 4 2 2 [1, 2, 3, 4]" by (simp add: range_ok_def)
  from blkcache_fill_read[OF blkcache_init_coherent this sample_heap_ok, of 5 1 "[9, 9, 9]" 6 1]
  show ?thesis by (auto simp: sample_heap_def blkcache_init_def)
qed

text \<open>
  The comparison in \<open>cache_find\<close> is made after both sums have wrapped: a read of the last block
  of a device with \<open>2 ^ 32\<close> blocks (a disk of 2 TiB) matches any entry of that device, and the copy
  then starts far outside the memory of the entry.
\<close>

lemma blkcache_read_last_block:
  assumes "blkcache_fill sample_heap blkcache_init 6 1 0 1 512 (replicate 512 0) = Some s"
  shows "blkcache_read s 6 1 (- 1) 1 512 (replicate 512 0) = None"
  using assms
  by (auto simp: blkcache_fill_def blkcache_init_def fill_node_def sample_heap_def copy_bytes_def
      blkcache_read_def node_covers_def)

end
