(* ===== verification/Timer.thy ===== *)
theory Timer
  imports Div64
begin

text \<open>
  Time and delays: lib/time.c, and the timer of the OMAP family in
  arch/arm/cpu/armv7/omap-common/timer.c, whose \<open>__udelay\<close>, \<open>get_timer\<close> and \<open>get_ticks\<close> replace the
  weak ones of lib/time.c on this board.

  The hardware counter is an argument: \<open>ctr k\<close> is the true number of ticks since the start when the
  counter is read for the \<open>k\<close>-th time, and the register shows its low 32 bits. A delay loop reads
  the counter until it is far enough; whether it returns depends on the counter, so the loops are
  partial functions, and that they return is proved from the laws of a counter that runs.
\<close>

section \<open>lib/time.c\<close>

definition CONFIG_SYS_HZ :: u64 where
  "CONFIG_SYS_HZ = 1000"

definition CONFIG_WD_PERIOD :: u32 where
  "CONFIG_WD_PERIOD = 10 * 1000 * 1000"

record timer_state =
  reads :: nat
  timebase_h :: u32
  timebase_l :: u32
  wd_resets :: nat

definition timer_read_counter :: "(nat \<Rightarrow> nat) \<Rightarrow> timer_state \<Rightarrow> u32 \<times> timer_state" where
  "timer_read_counter ctr st = (of_nat (ctr (Suc (reads st))), st\<lparr>reads := Suc (reads st)\<rparr>)"

definition get_ticks :: "(nat \<Rightarrow> nat) \<Rightarrow> timer_state \<Rightarrow> u64 \<times> timer_state" where
  "get_ticks ctr st =
     (let (now, st) = timer_read_counter ctr st;
          st = (if now < timebase_l st then st\<lparr>timebase_h := timebase_h st + 1\<rparr> else st);
          st = st\<lparr>timebase_l := now\<rparr>
      in (push_bit 32 (ucast (timebase_h st)) OR ucast (timebase_l st), st))"

definition tick_to_time :: "u32 \<Rightarrow> u64 \<Rightarrow> u64" where
  "tick_to_time tbclk tick = snd (do_div (tick * CONFIG_SYS_HZ) tbclk)"

definition get_timer :: "(nat \<Rightarrow> nat) \<Rightarrow> u32 \<Rightarrow> u32 \<Rightarrow> timer_state \<Rightarrow> u32 \<times> timer_state" where
  "get_timer ctr tbclk base st =
     (let (t, st) = get_ticks ctr st in (ucast (tick_to_time tbclk t - ucast base), st))"

definition timer_get_us :: "(nat \<Rightarrow> nat) \<Rightarrow> u32 \<Rightarrow> timer_state \<Rightarrow> u32 \<times> timer_state" where
  "timer_get_us ctr tbclk st = (let (t, st) = get_ticks ctr st in (ucast (tick_to_time tbclk (t * 1000)), st))"

definition usec_to_tick :: "u32 \<Rightarrow> u32 \<Rightarrow> u64" where
  "usec_to_tick tbclk usec = (let tick = ucast usec; tick = tick * ucast tbclk in snd (do_div tick 1000000))"

text \<open>The loop of \<open>__udelay\<close>\<close>

partial_function (option) ticks_wait :: "(nat \<Rightarrow> nat) \<Rightarrow> u64 \<Rightarrow> timer_state \<Rightarrow> timer_state option" where
  "ticks_wait ctr tmp st =
     (let (t, st) = get_ticks ctr st in if t < tmp + 1 then ticks_wait ctr tmp st else Some st)"

definition udelay_ticks :: "(nat \<Rightarrow> nat) \<Rightarrow> u32 \<Rightarrow> u32 \<Rightarrow> timer_state \<Rightarrow> timer_state option" where
  "udelay_ticks ctr tbclk usec st =
     (let (t, st) = get_ticks ctr st in ticks_wait ctr (t + usec_to_tick tbclk usec) st)"

text \<open>
  \<open>udelay\<close> and \<open>mdelay\<close>, with the \<open>__udelay\<close> the linker chooses and the watchdog reset as
  arguments.
\<close>

lemma wd_chunk:
  fixes usec :: u32
  assumes "usec - (if CONFIG_WD_PERIOD < usec then CONFIG_WD_PERIOD else usec) \<noteq> 0"
  shows "unat (usec - (if CONFIG_WD_PERIOD < usec then CONFIG_WD_PERIOD else usec)) = unat usec - unat CONFIG_WD_PERIOD"
    and "CONFIG_WD_PERIOD < usec"
  using assms by (auto simp: unat_minus_nowrap word_less_nat_alt split: if_splits)

function udelay :: "('s \<Rightarrow> 's) \<Rightarrow> (u32 \<Rightarrow> 's \<Rightarrow> 's option) \<Rightarrow> u32 \<Rightarrow> 's \<Rightarrow> 's option" where
  "udelay wd_reset ud usec st =
     (let kv = (if usec > CONFIG_WD_PERIOD then CONFIG_WD_PERIOD else usec) in
      case ud kv (wd_reset st) of
        None \<Rightarrow> None
      | Some st' \<Rightarrow> (if usec - kv \<noteq> 0 then udelay wd_reset ud (usec - kv) st' else Some st'))"
  by pat_completeness auto
termination
proof (relation "measure (\<lambda>(wd_reset, ud, usec, st). unat usec)")
  fix wd_reset :: "'s \<Rightarrow> 's" and ud usec st kv x2
  assume kv: "kv = (if CONFIG_WD_PERIOD < usec then CONFIG_WD_PERIOD else usec)" "usec - kv \<noteq> 0"
  have "0 < unat CONFIG_WD_PERIOD" by (simp add: CONFIG_WD_PERIOD_def)
  with wd_chunk[OF kv(2)[unfolded kv(1)]] show "((wd_reset, ud, usec - kv, x2), wd_reset, ud, usec, st) \<in>
      measure (\<lambda>(wd_reset, ud, usec, st). unat usec)"
    by (simp add: kv(1) word_less_nat_alt)
qed simp

declare udelay.simps [simp del]

function mdelay :: "('s \<Rightarrow> 's) \<Rightarrow> (u32 \<Rightarrow> 's \<Rightarrow> 's option) \<Rightarrow> u32 \<Rightarrow> 's \<Rightarrow> 's option" where
  "mdelay wd_reset ud msec st =
     (if msec \<noteq> 0 then
        (case udelay wd_reset ud 1000 st of None \<Rightarrow> None | Some st' \<Rightarrow> mdelay wd_reset ud (msec - 1) st')
      else Some st)"
  by pat_completeness auto
termination
  by (relation "measure (\<lambda>(wd_reset, ud, msec, st). unat msec)") (auto simp: unat_minus_nowrap unat_gt_0 Suc_le_eq)

declare mdelay.simps [simp del]

definition watchdog_reset :: "timer_state \<Rightarrow> timer_state" where
  "watchdog_reset st = st\<lparr>wd_resets := Suc (wd_resets st)\<rparr>"

section \<open>The OMAP timer\<close>

text \<open>
  \<open>clk\<close> is \<open>TIMER_CLOCK\<close>, \<open>V_SCLK / (2 << CONFIG_SYS_PTV)\<close>: 2500000 on this board. The fields
  \<open>tbl\<close> and \<open>lastinc\<close> are those of \<open>gd->arch\<close>.
\<close>

record omap_timer =
  o_reads :: nat
  tbl :: u32
  lastinc :: u32
  o_wd_resets :: nat

definition read_tcrr :: "(nat \<Rightarrow> nat) \<Rightarrow> omap_timer \<Rightarrow> u32 \<times> omap_timer" where
  "read_tcrr ctr st = (of_nat (ctr (Suc (o_reads st))), st\<lparr>o_reads := Suc (o_reads st)\<rparr>)"

partial_function (option) omap_udelay_loop :: "(nat \<Rightarrow> nat) \<Rightarrow> u32 \<Rightarrow> u32 \<Rightarrow> omap_timer \<Rightarrow> omap_timer option" where
  "omap_udelay_loop ctr tmo prev st =
     (if 0 <s tmo then
        (let (now, st) = read_tcrr ctr st;
             tmo = (if prev > now then tmo - (0xffffffff - prev + now + 1) else tmo - (now - prev))
         in omap_udelay_loop ctr tmo now st)
      else Some st)"

definition omap_udelay :: "(nat \<Rightarrow> nat) \<Rightarrow> u32 \<Rightarrow> u32 \<Rightarrow> omap_timer \<Rightarrow> omap_timer option" where
  "omap_udelay ctr clk usec st =
     (let tmo = usec * (clk div 1000) div 1000; (prev, st) = read_tcrr ctr st
      in omap_udelay_loop ctr tmo prev st)"

definition get_timer_masked :: "(nat \<Rightarrow> nat) \<Rightarrow> u32 \<Rightarrow> omap_timer \<Rightarrow> u32 \<times> omap_timer" where
  "get_timer_masked ctr clk st =
     (let (r, st) = read_tcrr ctr st;
          now = r div (clk div 1000);
          t = (if now \<ge> lastinc st then tbl st + (now - lastinc st)
               else tbl st + ((0 div (clk div 1000)) - lastinc st + now))
      in (t, st\<lparr>tbl := t, lastinc := now\<rparr>))"

definition omap_get_timer :: "(nat \<Rightarrow> nat) \<Rightarrow> u32 \<Rightarrow> u32 \<Rightarrow> omap_timer \<Rightarrow> u32 \<times> omap_timer" where
  "omap_get_timer ctr clk base st = (let (t, st) = get_timer_masked ctr clk st in (t - base, st))"

definition omap_get_ticks :: "(nat \<Rightarrow> nat) \<Rightarrow> u32 \<Rightarrow> omap_timer \<Rightarrow> u64 \<times> omap_timer" where
  "omap_get_ticks ctr clk st = (let (t, st) = omap_get_timer ctr clk 0 st in (ucast t, st))"

definition omap_watchdog_reset :: "omap_timer \<Rightarrow> omap_timer" where
  "omap_watchdog_reset st = st\<lparr>o_wd_resets := Suc (o_wd_resets st)\<rparr>"

section \<open>Counters that run\<close>

text \<open>The counter starts at zero, never goes back, never stops for good, and is read at least
  once in \<open>gap\<close> ticks.\<close>

definition clock_ok :: "nat \<Rightarrow> (nat \<Rightarrow> nat) \<Rightarrow> bool" where
  "clock_ok gap ctr \<longleftrightarrow> ctr 0 = 0 \<and> (\<forall>k. ctr k \<le> ctr (Suc k) \<and> ctr (Suc k) < ctr k + gap) \<and> (\<forall>n. \<exists>k. n \<le> ctr k)"

lemma clock_mono: "clock_ok gap ctr \<Longrightarrow> j \<le> k \<Longrightarrow> ctr j \<le> ctr k"
  by (rule lift_Suc_mono_le[of ctr]) (auto simp: clock_ok_def)

lemma clock_unbounded: "clock_ok gap ctr \<Longrightarrow> \<exists>k. n \<le> ctr k"
  by (simp add: clock_ok_def)

lemma clock_step: "clock_ok gap ctr \<Longrightarrow> ctr k \<le> ctr (Suc k) \<and> ctr (Suc k) < ctr k + gap"
  by (simp add: clock_ok_def)

text \<open>The time base of the state is the time of the last reading of the counter.\<close>

definition tb_ok :: "(nat \<Rightarrow> nat) \<Rightarrow> timer_state \<Rightarrow> bool" where
  "tb_ok ctr st \<longleftrightarrow> timebase_l st = of_nat (ctr (reads st)) \<and> timebase_h st = of_nat (ctr (reads st) div 2 ^ 32)"

abbreviation (input) now_ticks :: "(nat \<Rightarrow> nat) \<Rightarrow> timer_state \<Rightarrow> nat" where
  "now_ticks ctr st \<equiv> ctr (reads st)"

lemma unat_of_nat_mod: "unat (of_nat n :: u32) = n mod 2 ^ 32"
  by (simp add: unat_of_nat)

lemma rollover:
  fixes t t' :: nat
  assumes "t \<le> t'" "t' < t + 2 ^ 32"
  shows "t' div 2 ^ 32 = t div 2 ^ 32 + (if t' mod 2 ^ 32 < t mod 2 ^ 32 then 1 else 0)"
proof -
  obtain q m q' m' where eq: "q = t div 2 ^ 32" "m = t mod 2 ^ 32" "q' = t' div 2 ^ 32" "m' = t' mod 2 ^ 32" by simp
  have t: "t = q * 2 ^ 32 + m" "t' = q' * 2 ^ 32 + m'" "m < 2 ^ 32" "m' < 2 ^ 32"
    by (simp_all add: eq)
  have "q' = q + (if m' < m then 1 else 0)"
    using assms t(3,4) unfolding t(1,2) by (cases "m' < m") auto
  then show ?thesis by (simp add: eq)
qed

lemma bit_word_of_nat: "bit (of_nat n :: 'a::len word) k \<longleftrightarrow> k < LENGTH('a) \<and> bit n k"
  by transfer (simp add: bit_take_bit_iff bit_of_nat_iff possible_bit_def)

lemma join_u32: "push_bit 32 (ucast (of_nat (t div 2 ^ 32) :: u32)) OR ucast (of_nat t :: u32) = (of_nat t :: u64)"
proof (rule bit_word_eqI)
  fix n assume "n < LENGTH(64)"
  have "of_nat (t div 2 ^ 32) = (word_of_nat (drop_bit 32 t) :: u32)" by (simp add: drop_bit_eq_div)
  then show "bit (push_bit 32 (ucast (of_nat (t div 2 ^ 32) :: u32)) OR ucast (of_nat t :: u32) :: u64) n =
      bit (of_nat t :: u64) n"
    using \<open>n < LENGTH(64)\<close>
    by (auto simp: bit_or_iff bit_push_bit_iff bit_ucast_iff bit_word_of_nat bit_drop_bit_eq
        dest: bit_imp_le_length simp del: of_nat_div)
qed

lemma get_ticks_exact:
  assumes "clock_ok (2 ^ 32) ctr" "tb_ok ctr st"
  shows "\<exists>st'. get_ticks ctr st = (of_nat (now_ticks ctr st'), st') \<and> tb_ok ctr st' \<and> reads st' = Suc (reads st) \<and>
    wd_resets st' = wd_resets st"
proof -
  let ?t = "ctr (reads st)" and ?t' = "ctr (Suc (reads st))"
  note r = rollover[of ?t ?t']
  have le: "?t \<le> ?t'" "?t' < ?t + 2 ^ 32" using clock_step[OF assms(1)] by blast+
  have h: "(if of_nat ?t' < timebase_l st then timebase_h st + 1 else timebase_h st) = of_nat (?t' div 2 ^ 32)"
    using r[OF le] assms(2) by (simp add: tb_ok_def word_less_nat_alt unat_of_nat_mod del: of_nat_div)
  have "get_ticks ctr st = (push_bit 32 (ucast (of_nat (?t' div 2 ^ 32) :: u32)) OR ucast (of_nat ?t' :: u32),
      st\<lparr>reads := Suc (reads st), timebase_h := of_nat (?t' div 2 ^ 32), timebase_l := of_nat ?t'\<rparr>)"
    using h by (auto simp: get_ticks_def timer_read_counter_def Let_def split: if_splits)
  then show ?thesis by (simp only: join_u32) (simp add: tb_ok_def)
qed

section \<open>Delays on top of a short delay\<close>

text \<open>
  What \<open>udelay\<close> and \<open>mdelay\<close> rely on: a short delay of at most \<open>lim\<close> microseconds returns, and
  takes the time asked for, up to a loss of \<open>loss\<close> and an excess of \<open>slack\<close> ticks, where \<open>num / den\<close> is
  the number of ticks in a microsecond, as long as the time stays below \<open>cap\<close>.
\<close>

definition chunks :: "u32 \<Rightarrow> nat" where
  "chunks usec = unat usec div unat CONFIG_WD_PERIOD + 1"

locale short_delay =
  fixes ud :: "u32 \<Rightarrow> 's \<Rightarrow> 's option"
    and wd_reset :: "'s \<Rightarrow> 's"
    and ok :: "'s \<Rightarrow> bool"
    and time resets :: "'s \<Rightarrow> nat"
    and lim :: u32
    and num den loss slack cap :: nat
  assumes delay_law: "ok st \<Longrightarrow> usec \<le> lim \<Longrightarrow> time st * den + unat usec * num + slack * den \<le> cap * den \<Longrightarrow>
      \<exists>st'. ud usec st = Some st' \<and> ok st' \<and> time st \<le> time st' \<and> resets st' = resets st \<and>
        unat usec * num \<le> (time st' - time st + loss) * den \<and>
        time st' * den \<le> time st * den + unat usec * num + slack * den"
    and reset_law: "ok st \<Longrightarrow> ok (wd_reset st) \<and> time (wd_reset st) = time st \<and> resets (wd_reset st) = Suc (resets st)"
begin

lemma udelay_delays:
  "ok st \<Longrightarrow> usec \<le> lim \<or> CONFIG_WD_PERIOD \<le> lim \<Longrightarrow>
   time st * den + unat usec * num + chunks usec * slack * den \<le> cap * den \<Longrightarrow>
   \<exists>st'. udelay wd_reset ud usec st = Some st' \<and> ok st' \<and> time st \<le> time st' \<and>
     resets st < resets st' \<and> resets st' \<le> resets st + chunks usec \<and>
     unat usec * num \<le> (time st' - time st + chunks usec * loss) * den \<and>
     time st' * den \<le> time st * den + unat usec * num + chunks usec * slack * den"
proof (induction "unat usec" arbitrary: usec st rule: less_induct)
  case less
  let ?W = "CONFIG_WD_PERIOD"
  have ok1: "ok (wd_reset st)" "time (wd_reset st) = time st" "resets (wd_reset st) = Suc (resets st)"
    using reset_law[OF less.prems(1)] by auto
  show ?case
  proof (cases "?W < usec")
    case False
    have "usec \<le> lim" using less.prems(2) False by auto
    moreover have "1 * (slack * den) \<le> chunks usec * (slack * den)"
      by (intro mult_le_mono1) (simp add: chunks_def)
    then have sl: "slack * den \<le> chunks usec * slack * den" by (simp add: mult.assoc)
    moreover have ls: "(time st' - time st + loss) * den \<le> (time st' - time st + chunks usec * loss) * den" for st'
      by (intro mult_le_mono1) (simp add: chunks_def)
    moreover have "time (wd_reset st) * den + unat usec * num + slack * den \<le> cap * den"
      unfolding ok1(2) using less.prems(3) sl by linarith
    ultimately obtain st' where 1: "ud usec (wd_reset st) = Some st'" "ok st'" "time st \<le> time st'"
      "resets st' = Suc (resets st)" "unat usec * num \<le> (time st' - time st + loss) * den"
      "time st' * den \<le> time st * den + unat usec * num + slack * den"
      using delay_law[OF ok1(1), of usec] unfolding ok1(2,3) by blast
    from 1(6) sl have "time st' * den \<le> time st * den + unat usec * num + chunks usec * slack * den" by linarith
    moreover have "unat usec * num \<le> (time st' - time st + chunks usec * loss) * den"
      using 1(5) ls by (rule le_trans)
    moreover note 1(1-4)
    ultimately show ?thesis using False by (simp add: udelay.simps chunks_def)
  next
    case True
    define u where "u = usec - ?W"
    have u: "unat u = unat usec - unat ?W" "unat ?W < unat usec" "u \<noteq> 0"
      using True by (auto simp: u_def unat_minus_nowrap word_less_nat_alt)
    then have usec: "unat usec = unat ?W + unat u" by simp
    have W0: "0 < unat ?W" by (simp add: CONFIG_WD_PERIOD_def)
    have ch: "chunks usec = Suc (chunks u)" using W0 by (simp only: chunks_def usec) (simp add: div_add_self1)
    have lim: "?W \<le> lim" using less.prems(2) True by auto
    have sum: "unat usec * num = unat ?W * num + unat u * num" "chunks usec * slack * den = slack * den + chunks u * slack * den"
      by (simp_all add: usec ch add_mult_distrib)
    obtain st1 where 1: "ud ?W (wd_reset st) = Some st1" "ok st1" "time st \<le> time st1" "resets st1 = Suc (resets st)"
      "unat ?W * num \<le> (time st1 - time st + loss) * den"
      "time st1 * den \<le> time st * den + unat ?W * num + slack * den"
      using delay_law[OF ok1(1) lim] less.prems(3) ok1(2,3) sum by auto
    have "time st1 * den + unat u * num + chunks u * slack * den \<le> cap * den"
      using 1(6) less.prems(3) sum by simp
    then obtain st' where 2: "udelay wd_reset ud u st1 = Some st'" "ok st'" "time st1 \<le> time st'"
      "resets st1 < resets st'" "resets st' \<le> resets st1 + chunks u"
      "unat u * num \<le> (time st' - time st1 + chunks u * loss) * den"
      "time st' * den \<le> time st1 * den + unat u * num + chunks u * slack * den"
      using less.hyps[of u st1] 1(2) lim u W0 by auto
    have "time st' - time st + chunks usec * loss = (time st1 - time st + loss) + (time st' - time st1 + chunks u * loss)"
      using 1(3) 2(3) by (simp add: ch)
    then have "(time st' - time st + chunks usec * loss) * den =
        (time st1 - time st + loss) * den + (time st' - time st1 + chunks u * loss) * den"
      by (simp only: add_mult_distrib)
    then have "unat usec * num \<le> (time st' - time st + chunks usec * loss) * den"
      using 1(5) 2(6) sum(1) by linarith
    moreover have "time st' * den \<le> time st * den + unat usec * num + chunks usec * slack * den"
      using 1(6) 2(7) sum by linarith
    moreover have "udelay wd_reset ud usec st = Some st'"
      using True 1(1) 2(1) u(3) by (subst udelay.simps) (simp add: u_def)
    ultimately show ?thesis using 1 2 ch by auto
  qed
qed

text \<open>\<open>mdelay\<close> is a sequence of delays of 1000 microseconds.\<close>

lemma mdelay_delays:
  "ok st \<Longrightarrow> 1000 \<le> lim \<Longrightarrow>
   time st * den + unat msec * (1000 * num + slack * den) \<le> cap * den \<Longrightarrow>
   \<exists>st'. mdelay wd_reset ud msec st = Some st' \<and> ok st' \<and> time st \<le> time st' \<and>
     unat msec * 1000 * num \<le> (time st' - time st + unat msec * loss) * den \<and>
     time st' * den \<le> time st * den + unat msec * (1000 * num + slack * den)"
proof (induction "unat msec" arbitrary: msec st)
  case 0
  then have "msec = 0" by (metis unat_eq_zero)
  with 0 show ?case by (simp add: mdelay.simps)
next
  case (Suc n)
  have m: "n = unat (msec - 1)" "msec \<noteq> 0"
    using Suc.hyps(2) by (auto simp: unat_minus_nowrap)
  have c1: "chunks 1000 = 1" by (simp add: chunks_def CONFIG_WD_PERIOD_def)
  have sum: "unat msec * (1000 * num + slack * den) = 1000 * num + slack * den + n * (1000 * num + slack * den)"
    "unat msec * 1000 * num = 1000 * num + n * 1000 * num"
    by (simp_all add: add_mult_distrib flip: Suc.hyps(2))
  obtain st1 where 1: "udelay wd_reset ud 1000 st = Some st1" "ok st1" "time st \<le> time st1"
    "1000 * num \<le> (time st1 - time st + loss) * den"
    "time st1 * den \<le> time st * den + 1000 * num + slack * den"
    using udelay_delays[of st 1000] Suc.prems sum c1 by auto
  have "time st1 * den + n * (1000 * num + slack * den) \<le> cap * den"
    using 1(5) Suc.prems(3) sum by linarith
  then obtain st' where 2: "mdelay wd_reset ud (msec - 1) st1 = Some st'" "ok st'" "time st1 \<le> time st'"
    "n * 1000 * num \<le> (time st' - time st1 + n * loss) * den"
    "time st' * den \<le> time st1 * den + n * (1000 * num + slack * den)"
    using Suc.hyps(1)[OF m(1) 1(2) Suc.prems(2)] m(1) by auto
  have "time st' - time st + unat msec * loss = (time st1 - time st + loss) + (time st' - time st1 + n * loss)"
    using 1(3) 2(3) by (simp flip: Suc.hyps(2))
  then have "(time st' - time st + unat msec * loss) * den =
      (time st1 - time st + loss) * den + (time st' - time st1 + n * loss) * den"
    by (simp only: add_mult_distrib)
  then have "unat msec * 1000 * num \<le> (time st' - time st + unat msec * loss) * den"
    using 1(4) 2(4) sum(2) by linarith
  moreover have "mdelay wd_reset ud msec st = Some st'"
    using 1(1) 2(1) m(2) by (subst mdelay.simps) simp
  moreover have "time st' * den \<le> time st * den + unat msec * (1000 * num + slack * den)"
    using 1(5) 2(5) sum(1) by linarith
  ultimately show ?case using 1(3) 2(2,3) by auto
qed

end
section \<open>The delay of lib/time.c\<close>

lemma clock_weaken:
  assumes "clock_ok gap ctr" "gap \<le> gap'"
  shows "clock_ok gap' ctr"
proof -
  have "ctr (Suc k) < ctr k + gap'" for k using clock_step[OF assms(1), of k] assms(2) by linarith
  with assms(1) show ?thesis by (simp add: clock_ok_def)
qed

lemma usec_to_tick_exact: "unat (usec_to_tick tbclk usec) = unat usec * unat tbclk div 1000000"
proof -
  have "unat usec * unat tbclk < 2 ^ 32 * 2 ^ 32"
    using unat_u32_less[of usec] unat_u32_less[of tbclk] by (intro mult_strict_mono) auto
  then have lt: "unat usec * unat tbclk < 2 ^ 64" by simp
  then have "unat (ucast usec * ucast tbclk :: u64) = unat usec * unat tbclk"
    using unat_u32_less[of usec] unat_u32_less[of tbclk] by (simp add: unat_word_ariths unat_ucast_mod)
  moreover have "unat usec * unat tbclk div 1000000 < 2 ^ 64"
    using lt by (rule le_less_trans[OF div_le_dividend])
  ultimately show ?thesis
    by (simp add: usec_to_tick_def do_div_spec unat_of_nat_u64)
qed

text \<open>The loop ends at the first reading at or beyond its target.\<close>

lemma ticks_wait_ends:
  assumes clk: "clock_ok gap ctr" and gap: "gap \<le> 2 ^ 32" and T: "unat tmp + 1 + gap < 2 ^ 64"
  shows "tb_ok ctr st \<Longrightarrow> now_ticks ctr st < unat tmp + 1 \<Longrightarrow>
    \<exists>st'. ticks_wait ctr tmp st = Some st' \<and> tb_ok ctr st' \<and> reads st \<le> reads st' \<and> wd_resets st' = wd_resets st \<and>
      unat tmp + 1 \<le> now_ticks ctr st' \<and> now_ticks ctr st' < unat tmp + 1 + gap"
proof -
  note clk32 = clock_weaken[OF clk gap]
  have T1: "unat (tmp + 1) = unat tmp + 1" using T by (subst unat_plus_nowrap) auto
  obtain k where k: "unat tmp + 1 \<le> ctr k" using clock_unbounded[OF clk] by blast
  show "tb_ok ctr st \<Longrightarrow> now_ticks ctr st < unat tmp + 1 \<Longrightarrow> ?thesis"
  proof (induction "k - reads st" arbitrary: st rule: less_induct)
    case less
    obtain st1 where 1: "get_ticks ctr st = (of_nat (now_ticks ctr st1), st1)" "tb_ok ctr st1"
      "reads st1 = Suc (reads st)" "wd_resets st1 = wd_resets st"
      using get_ticks_exact[OF clk32 less.prems(1)] by blast
    have step: "now_ticks ctr st1 < now_ticks ctr st + gap" using clock_step[OF clk] 1(3) by simp
    then have u: "unat (of_nat (now_ticks ctr st1) :: u64) = now_ticks ctr st1"
      using less.prems(2) T by (intro unat_of_nat_u64) simp
    show ?case
    proof (cases "now_ticks ctr st1 < unat tmp + 1")
      case True
      have "reads st < k"
      proof (rule ccontr)
        assume "\<not> reads st < k"
        then have "ctr k \<le> ctr (reads st)" by (intro clock_mono[OF clk]) simp
        with k less.prems(2) show False by simp
      qed
      then have "k - reads st1 < k - reads st" using 1(3) by simp
      then obtain st' where "ticks_wait ctr tmp st1 = Some st'" "tb_ok ctr st'" "reads st1 \<le> reads st'"
        "wd_resets st' = wd_resets st1" "unat tmp + 1 \<le> now_ticks ctr st'" "now_ticks ctr st' < unat tmp + 1 + gap"
        using less.hyps[OF _ 1(2) True] by auto
      moreover have "ticks_wait ctr tmp st = ticks_wait ctr tmp st1"
        using 1(1) True u T1 by (subst ticks_wait.simps) (simp add: word_less_nat_alt)
      ultimately show ?thesis using 1(3,4) by auto
    next
      case False
      then have "ticks_wait ctr tmp st = Some st1"
        using 1(1) u T1 by (subst ticks_wait.simps) (simp add: word_less_nat_alt)
      with False 1 step less.prems(2) show ?thesis by auto
    qed
  qed
qed

lemma udelay_ticks_delays:
  assumes clk: "clock_ok gap ctr" and gap: "gap \<le> 2 ^ 32" and ok: "tb_ok ctr st"
    and cap: "now_ticks ctr st * 1000000 + unat usec * unat tbclk + 2 * gap * 1000000 \<le> (2 ^ 64 - 1) * 1000000"
  shows "\<exists>st'. udelay_ticks ctr tbclk usec st = Some st' \<and> tb_ok ctr st' \<and> now_ticks ctr st \<le> now_ticks ctr st' \<and>
    wd_resets st' = wd_resets st \<and>
    unat usec * unat tbclk \<le> (now_ticks ctr st' - now_ticks ctr st + 0) * 1000000 \<and>
    now_ticks ctr st' * 1000000 \<le> now_ticks ctr st * 1000000 + unat usec * unat tbclk + 2 * gap * 1000000"
proof -
  note clk32 = clock_weaken[OF clk gap]
  obtain st1 where 1: "get_ticks ctr st = (of_nat (now_ticks ctr st1), st1)" "tb_ok ctr st1"
    "reads st1 = Suc (reads st)" "wd_resets st1 = wd_resets st"
    using get_ticks_exact[OF clk32 ok] by blast
  define need where "need = unat usec * unat tbclk div 1000000"
  have need: "need * 1000000 \<le> unat usec * unat tbclk" "unat usec * unat tbclk < (need + 1) * 1000000"
    using div_times_less_eq_dividend[of "unat usec * unat tbclk" 1000000]
      dividend_less_div_times[of 1000000 "unat usec * unat tbclk"] by (simp_all add: need_def)
  have step: "now_ticks ctr st \<le> now_ticks ctr st1" "now_ticks ctr st1 < now_ticks ctr st + gap"
    using clock_step[OF clk] 1(3) by simp_all
  define tmp :: u64 where "tmp = of_nat (now_ticks ctr st1) + usec_to_tick tbclk usec"
  have b: "now_ticks ctr st + need + 2 * gap \<le> 2 ^ 64 - 1" using cap need(1) by linarith
  then have tmp: "unat tmp = now_ticks ctr st1 + need"
    using step by (simp add: tmp_def unat_word_ariths usec_to_tick_exact unat_of_nat_u64 flip: need_def)
  obtain st' where 2: "ticks_wait ctr tmp st1 = Some st'" "tb_ok ctr st'" "reads st1 \<le> reads st'"
    "wd_resets st' = wd_resets st1" "unat tmp + 1 \<le> now_ticks ctr st'" "now_ticks ctr st' < unat tmp + 1 + gap"
    using ticks_wait_ends[OF clk gap _ 1(2), of tmp] tmp step b by auto
  have "udelay_ticks ctr tbclk usec st = Some st'"
    using 1(1) 2(1) by (simp add: udelay_ticks_def tmp_def)
  moreover have "need + 1 \<le> now_ticks ctr st' - now_ticks ctr st"
    using 2(5) tmp step by simp
  then have "(need + 1) * 1000000 \<le> (now_ticks ctr st' - now_ticks ctr st) * 1000000" by (rule mult_le_mono1)
  then have "unat usec * unat tbclk \<le> (now_ticks ctr st' - now_ticks ctr st) * 1000000" using need(2) by linarith
  moreover have "now_ticks ctr st' \<le> now_ticks ctr st + need + 2 * gap" using 2(6) tmp step by simp
  then have "now_ticks ctr st' * 1000000 \<le> now_ticks ctr st * 1000000 + unat usec * unat tbclk + 2 * gap * 1000000"
    using need(1) by linarith
  ultimately show ?thesis using 1(4) 2 tmp step by auto
qed

interpretation td: short_delay "udelay_ticks ctr tbclk" watchdog_reset
    "\<lambda>st. clock_ok gap ctr \<and> gap \<le> 2 ^ 32 \<and> tb_ok ctr st" "now_ticks ctr" wd_resets "- 1"
    "unat tbclk" 1000000 0 "2 * gap" "2 ^ 64 - 1"
  for ctr tbclk gap
proof unfold_locales
  fix st and usec :: u32
  assume "clock_ok gap ctr \<and> gap \<le> 2 ^ 32 \<and> tb_ok ctr st"
    and "now_ticks ctr st * 1000000 + unat usec * unat tbclk + 2 * gap * 1000000 \<le> (2 ^ 64 - 1) * 1000000"
  then show "\<exists>st'. udelay_ticks ctr tbclk usec st = Some st' \<and> (clock_ok gap ctr \<and> gap \<le> 2 ^ 32 \<and> tb_ok ctr st') \<and>
      now_ticks ctr st \<le> now_ticks ctr st' \<and> wd_resets st' = wd_resets st \<and>
      unat usec * unat tbclk \<le> (now_ticks ctr st' - now_ticks ctr st + 0) * 1000000 \<and>
      now_ticks ctr st' * 1000000 \<le> now_ticks ctr st * 1000000 + unat usec * unat tbclk + 2 * gap * 1000000"
    using udelay_ticks_delays[of gap ctr st usec tbclk] by blast
qed (simp add: watchdog_reset_def tb_ok_def)

section \<open>The delay of the OMAP timer\<close>

abbreviation (input) o_now :: "(nat \<Rightarrow> nat) \<Rightarrow> omap_timer \<Rightarrow> nat" where
  "o_now ctr st \<equiv> ctr (o_reads st)"

lemma sint_word_of_int_small: "- (2 ^ 31) \<le> x \<Longrightarrow> x < 2 ^ 31 \<Longrightarrow> sint (word_of_int x :: u32) = x"
  by (simp add: signed_of_int signed_take_bit_int_eq_self)

lemma omap_tmo_step: "(if prev > now then tmo - (0xffffffff - prev + now + 1) else tmo - (now - prev)) = tmo - (now - prev :: u32)"
proof -
  have "(0xffffffff :: u32) = - 1" by simp
  then have "0xffffffff - prev + now + 1 = now - prev" by (simp only:) simp
  then show ?thesis by simp
qed

text \<open>\<open>T\<close> is the time at which the loop may end; \<open>tmo\<close> is what is left of it.\<close>

lemma omap_udelay_loop_ends:
  assumes clk: "clock_ok gap ctr" and gap: "gap \<le> 2 ^ 31"
  shows "T < o_now ctr st + 2 ^ 31 \<Longrightarrow> o_now ctr st \<le> T \<Longrightarrow>
    \<exists>st'. omap_udelay_loop ctr (word_of_int (int T - int (o_now ctr st))) (of_nat (o_now ctr st)) st = Some st' \<and>
      o_reads st \<le> o_reads st' \<and> o_wd_resets st' = o_wd_resets st \<and>
      T \<le> o_now ctr st' \<and> o_now ctr st' \<le> T + gap"
proof -
  obtain k where k: "T \<le> ctr k" using clock_unbounded[OF clk] by blast
  show "T < o_now ctr st + 2 ^ 31 \<Longrightarrow> o_now ctr st \<le> T \<Longrightarrow> ?thesis"
  proof (induction "k - o_reads st" arbitrary: st rule: less_induct)
    case less
    let ?tmo = "word_of_int (int T - int (o_now ctr st)) :: u32" and ?prev = "of_nat (o_now ctr st) :: u32"
    have s: "sint ?tmo = int T - int (o_now ctr st)"
      using less.prems by (intro sint_word_of_int_small) auto
    show ?case
    proof (cases "o_now ctr st = T")
      case True
      then have "omap_udelay_loop ctr ?tmo ?prev st = Some st"
        by (subst omap_udelay_loop.simps) (simp add: word_sless_alt)
      with True show ?thesis by auto
    next
      case False
      define st1 where "st1 = st\<lparr>o_reads := Suc (o_reads st)\<rparr>"
      let ?tmo1 = "word_of_int (int T - int (o_now ctr st1)) :: u32" and ?now = "of_nat (o_now ctr st1) :: u32"
      have step: "o_now ctr st \<le> o_now ctr st1" "o_now ctr st1 < o_now ctr st + gap"
        using clock_step[OF clk] by (simp_all add: st1_def)
      have pos: "0 <s ?tmo" using False less.prems s by (simp add: word_sless_alt)
      have tmo1: "?tmo - (?now - ?prev) = ?tmo1" by (simp add: word_of_int_minus)
      have loop: "omap_udelay_loop ctr ?tmo ?prev st = omap_udelay_loop ctr ?tmo1 ?now st1"
        using pos tmo1 by (subst omap_udelay_loop.simps) (simp only: read_tcrr_def if_True Let_def prod.case omap_tmo_step,
            simp add: st1_def)
      show ?thesis
      proof (cases "o_now ctr st1 < T")
        case True
        have "o_reads st < k"
        proof (rule ccontr)
          assume "\<not> o_reads st < k"
          then have "ctr k \<le> ctr (o_reads st)" by (intro clock_mono[OF clk]) simp
          with k False less.prems show False by simp
        qed
        then have "k - o_reads st1 < k - o_reads st" by (simp add: st1_def)
        moreover have "T < o_now ctr st1 + 2 ^ 31" using less.prems step by simp
        ultimately obtain st' where "omap_udelay_loop ctr ?tmo1 ?now st1 = Some st'" "o_reads st1 \<le> o_reads st'"
          "o_wd_resets st' = o_wd_resets st1" "T \<le> o_now ctr st'" "o_now ctr st' \<le> T + gap"
          using less.hyps[of st1] True by auto
        with loop show ?thesis by (auto simp: st1_def)
      next
        case False
        have "sint ?tmo1 = int T - int (o_now ctr st1)"
          using False step gap less.prems by (intro sint_word_of_int_small) auto
        then have "omap_udelay_loop ctr ?tmo1 ?now st1 = Some st1"
          using False by (subst omap_udelay_loop.simps) (simp add: word_sless_alt)
        with loop False step less.prems show ?thesis by (auto simp: st1_def)
      qed
    qed
  qed
qed

text \<open>The longest delay whose number of ticks times 1000 fits into 32 bits\<close>

definition omap_limit :: "u32 \<Rightarrow> u32" where
  "omap_limit clk = 0xffffffff div (clk div 1000)"

lemma omap_limit_fits:
  assumes "usec \<le> omap_limit clk"
  shows "unat usec * unat (clk div 1000) < 2 ^ 32"
proof -
  have "unat usec \<le> 0xffffffff div unat (clk div 1000)"
    using assms by (simp add: omap_limit_def word_le_nat_alt unat_div_distrib)
  then have "unat usec * unat (clk div 1000) \<le> 0xffffffff div unat (clk div 1000) * unat (clk div 1000)"
    by (rule mult_le_mono1)
  also have "\<dots> \<le> 0xffffffff" by (rule div_times_less_eq_dividend)
  finally show ?thesis by simp
qed

lemma omap_udelay_delays:
  assumes clk: "clock_ok gap ctr" and gap: "gap \<le> 2 ^ 31" and lim: "usec \<le> omap_limit clk"
  shows "\<exists>st'. omap_udelay ctr clk usec st = Some st' \<and> o_now ctr st \<le> o_now ctr st' \<and>
    o_wd_resets st' = o_wd_resets st \<and>
    unat usec * unat (clk div 1000) \<le> (o_now ctr st' - o_now ctr st + 1) * 1000 \<and>
    o_now ctr st' * 1000 \<le> o_now ctr st * 1000 + unat usec * unat (clk div 1000) + 2 * gap * 1000"
proof -
  let ?x = "unat usec * unat (clk div 1000)"
  define need where "need = ?x div 1000"
  have fits: "?x < 2 ^ 32" by (rule omap_limit_fits[OF lim])
  then have tmo: "unat (usec * (clk div 1000) div 1000) = need"
    by (simp add: need_def unat_div_distrib unat_word_ariths)
  have need: "need * 1000 \<le> ?x" "?x < (need + 1) * 1000" "need < 2 ^ 31"
    using div_times_less_eq_dividend[of ?x 1000] dividend_less_div_times[of 1000 ?x] fits
    by (simp_all add: need_def)
  define st1 where "st1 = st\<lparr>o_reads := Suc (o_reads st)\<rparr>"
  have step: "o_now ctr st \<le> o_now ctr st1" "o_now ctr st1 < o_now ctr st + gap"
    using clock_step[OF clk] by (simp_all add: st1_def)
  have w: "usec * (clk div 1000) div 1000 = word_of_int (int (o_now ctr st1 + need) - int (o_now ctr st1))"
    by (simp flip: tmo)
  obtain st' where "omap_udelay_loop ctr (usec * (clk div 1000) div 1000) (of_nat (o_now ctr st1)) st1 = Some st'"
    "o_reads st1 \<le> o_reads st'" "o_wd_resets st' = o_wd_resets st1" "o_now ctr st1 + need \<le> o_now ctr st'"
    "o_now ctr st' \<le> o_now ctr st1 + need + gap"
    using omap_udelay_loop_ends[OF clk gap, of "o_now ctr st1 + need" st1] need(3) unfolding w by auto
  moreover from this(1) have "omap_udelay ctr clk usec st = Some st'"
    by (simp add: omap_udelay_def read_tcrr_def st1_def)
  moreover have "?x \<le> (o_now ctr st' - o_now ctr st + 1) * 1000"
  proof -
    have "need + 1 \<le> o_now ctr st' - o_now ctr st + 1" using calculation(4) step by simp
    then have "(need + 1) * 1000 \<le> (o_now ctr st' - o_now ctr st + 1) * 1000" by (rule mult_le_mono1)
    with need(2) show ?thesis by linarith
  qed
  moreover have "o_now ctr st' * 1000 \<le> o_now ctr st * 1000 + ?x + 2 * gap * 1000"
    using calculation(5) step need(1) by linarith
  ultimately show ?thesis using step by (auto simp: st1_def)
qed

interpretation od: short_delay "omap_udelay ctr clk" omap_watchdog_reset
    "\<lambda>st. clock_ok gap ctr \<and> gap \<le> 2 ^ 31" "o_now ctr" o_wd_resets "omap_limit clk"
    "unat (clk div 1000)" 1000 1 "2 * gap" cap
  for ctr clk gap cap
proof unfold_locales
  fix st and usec :: u32
  assume "clock_ok gap ctr \<and> gap \<le> 2 ^ 31" "usec \<le> omap_limit clk"
  then show "\<exists>st'. omap_udelay ctr clk usec st = Some st' \<and> (clock_ok gap ctr \<and> gap \<le> 2 ^ 31) \<and>
      o_now ctr st \<le> o_now ctr st' \<and> o_wd_resets st' = o_wd_resets st \<and>
      unat usec * unat (clk div 1000) \<le> (o_now ctr st' - o_now ctr st + 1) * 1000 \<and>
      o_now ctr st' * 1000 \<le> o_now ctr st * 1000 + unat usec * unat (clk div 1000) + 2 * gap * 1000"
    using omap_udelay_delays[of gap ctr usec clk st] by blast
qed (simp add: omap_watchdog_reset_def)

lemma ucast_of_nat_diff: "(ucast (of_nat n - ucast base :: u64) :: u32) = of_nat n - base"
proof -
  have d: "(ucast (a - b) :: u32) = ucast a - ucast b" for a b :: u64
    by transfer (simp add: take_bit_eq_mod mod_mod_cancel, rule mod_diff_cong, simp_all add: mod_mod_cancel)
  have "(ucast (of_nat n :: u64) :: u32) = of_nat n"
    by transfer simp
  moreover have "(ucast (ucast base :: u64) :: u32) = base" by transfer simp
  ultimately show ?thesis using d by simp
qed

section \<open>Properties\<close>


text \<open>On the OMAP timer \<open>mdelay\<close> returns for every number of milliseconds, not more than one tick in
  each of them too early and two gaps too late, when the clock is fast enough to be counted in
  kilohertz and a millisecond fits into its arithmetic.
\<close>

theorem omap_mdelay_returns:
  assumes "clock_ok gap ctr" and "gap \<le> 2 ^ 31" and "1000 \<le> omap_limit clk"
  shows "\<exists>st'. mdelay omap_watchdog_reset (omap_udelay ctr clk) msec st = Some st' \<and>
    unat msec * 1000 * unat (clk div 1000) \<le> (ctr (o_reads st') - ctr (o_reads st) + unat msec) * 1000 \<and>
    ctr (o_reads st') * 1000 \<le> ctr (o_reads st) * 1000 + unat msec * (1000 * unat (clk div 1000) + 2 * gap * 1000)"
  using od.mdelay_delays[of gap ctr clk st msec
      "ctr (o_reads st) + unat msec * (1000 * unat (clk div 1000) + 2 * gap * 1000)"] assms
  by (auto simp: add_mult_distrib)

text \<open>C33: \<open>get_timer\<close> measures time: whatever the counter register has done in between (its low 32 bits
  roll over every few minutes), the value read later minus the value read earlier is the difference
  of the true times in milliseconds, as a 32-bit number.
\<close>

theorem get_timer_elapsed:
  assumes clk: "clock_ok (2 ^ 32) ctr" and ok: "tb_ok ctr st" and tb: "tbclk \<noteq> 0"
    and fits: "ctr (Suc (reads st)) * 1000 < 2 ^ 64"
  shows "\<exists>st'. get_timer ctr tbclk base st = (of_nat (ctr (reads st') * 1000 div unat tbclk) - base, st') \<and>
    tb_ok ctr st' \<and> reads st' = Suc (reads st)"
proof -
  obtain st' where 1: "get_ticks ctr st = (of_nat (ctr (reads st')), st')" "tb_ok ctr st'" "reads st' = Suc (reads st)"
    using get_ticks_exact[OF clk ok] by blast
  let ?t = "ctr (reads st')"
  have "unat (of_nat ?t * CONFIG_SYS_HZ) = ?t * 1000"
    using fits 1(3) by (simp add: CONFIG_SYS_HZ_def unat_word_ariths unat_of_nat_u64 unat_of_nat mod_mult_left_eq)
  then have "tick_to_time tbclk (of_nat ?t) = of_nat (?t * 1000 div unat tbclk)"
    using tb by (simp add: tick_to_time_def do_div_spec)
  moreover have "(ucast (of_nat n - ucast base :: u64) :: u32) = of_nat n - base" for n
    by (rule ucast_of_nat_diff)
  ultimately show ?thesis using 1 by (auto simp: get_timer_def)
qed

section \<open>A sample counter\<close>

text \<open>A counter that advances by 1000 ticks between two readings\<close>

definition sample_ctr :: "nat \<Rightarrow> nat" where
  "sample_ctr k = 1000 * k"

lemma sample_ctr_ok: "clock_ok 1001 sample_ctr"
proof -
  have "\<exists>k. n \<le> 1000 * k" for n :: nat by (rule exI[of _ n]) simp
  then show ?thesis by (simp add: clock_ok_def sample_ctr_def)
qed

definition sample_timer :: timer_state where
  "sample_timer = \<lparr>reads = 0, timebase_h = 0, timebase_l = 0, wd_resets = 0\<rparr>"

lemma sample_timer_ok: "tb_ok sample_ctr sample_timer"
  by (simp add: tb_ok_def sample_timer_def sample_ctr_def)

definition sample_omap :: omap_timer where
  "sample_omap = \<lparr>o_reads = 0, tbl = 0, lastinc = 0, o_wd_resets = 0\<rparr>"


theorem omap_mdelay_returns_witness:
  "\<exists>st'. mdelay omap_watchdog_reset (omap_udelay sample_ctr 2500000) 3 sample_omap = Some st' \<and>
     7497 \<le> sample_ctr (o_reads st')"
proof -
  have "1000 \<le> omap_limit 2500000" by (simp add: omap_limit_def word_le_nat_alt unat_div_distrib)
  from omap_mdelay_returns[OF sample_ctr_ok _ this, of 3 sample_omap] show ?thesis
    by (auto simp: sample_omap_def sample_ctr_def)
qed

theorem get_timer_elapsed_witness:
  "\<exists>st'. get_timer sample_ctr 500000 0 sample_timer = (2, st')"
  using get_timer_elapsed[OF clock_weaken[OF sample_ctr_ok] sample_timer_ok, of 500000 0]
  by (auto simp: sample_timer_def sample_ctr_def)

section \<open>Where the OMAP timer falls short\<close>

text \<open>
  The product of microseconds and kilohertz wraps in 32 bits, although \<open>udelay\<close> passes pieces of up
  to ten seconds: with the clock of this board a delay of 1717987 microseconds is none at all.
\<close>

lemma omap_udelay_wraps:
  "udelay omap_watchdog_reset (omap_udelay ctr 2500000) 1717987 st =
     Some (st\<lparr>o_reads := Suc (o_reads st), o_wd_resets := Suc (o_wd_resets st)\<rparr>)"
  by (simp add: udelay.simps CONFIG_WD_PERIOD_def omap_udelay_def read_tcrr_def omap_watchdog_reset_def
      omap_udelay_loop.simps)

text \<open>
  The two branches of \<open>get_timer_masked\<close> compute the same: the branch for the rollover of the counter
  adds nothing for the period that has passed, so the time is always the counter register in
  milliseconds and falls back to zero when the register rolls over.
\<close>

lemma get_timer_masked_rolls_back:
  "fst (get_timer_masked ctr clk st) = tbl st - lastinc st + of_nat (ctr (Suc (o_reads st))) div (clk div 1000)"
  by (simp add: get_timer_masked_def read_tcrr_def Let_def)

end
