(* ===== verification/Cli_Simple.thy ===== *)
theory Cli_Simple
  imports Cstring
begin

text \<open>
  The simple command line of common/cli_simple.c, with the command table of common/command.c and
  \<open>run_command\<close> of common/cli.c in the configuration without the hush shell: a line is cut at
  semicolons, variables are replaced, the result is cut into words, and the command named by the
  first word is called.

  The buffers on the stack are byte arrays of \<open>CONFIG_SYS_CBSIZE\<close> bytes with arbitrary content, and
  \<open>None\<close> is an access outside one of them. What the commands do is an argument: every command of
  the table is a function on a state of any type, and so is the environment they may change.
\<close>

section \<open>The command table\<close>

record 's cmd_tbl =
  cmd_name :: "u8 list"
  maxargs :: nat
  repeatable :: u32
  cmd_fn :: "'s \<Rightarrow> u32 \<Rightarrow> u8 list list \<Rightarrow> int \<times> 's"
  is_do_bootd :: bool

definition CMD_RET_USAGE :: int where "CMD_RET_USAGE = - 1"

definition CMD_RET_FAILURE :: int where "CMD_RET_FAILURE = 1"

definition CMD_FLAG_BOOTD :: u32 where "CMD_FLAG_BOOTD = 2"

text \<open>The loop over the table: the last abbreviated match and the number of matches so far.\<close>

fun find_cmd_loop :: "u8 list \<Rightarrow> nat \<Rightarrow> 's cmd_tbl list \<Rightarrow> 's cmd_tbl option \<Rightarrow> nat \<Rightarrow> 's cmd_tbl option" where
  "find_cmd_loop cmd len [] temp n_found = (if n_found = 1 then temp else None)"
| "find_cmd_loop cmd len (c # cs) temp n_found =
     (if str_order (take len cmd) (take len (cmd_name c)) = 0 then
        (if len = length (cmd_name c) then Some c else find_cmd_loop cmd len cs (Some c) (n_found + 1))
      else find_cmd_loop cmd len cs temp n_found)"

definition find_cmd_tbl :: "u8 list \<Rightarrow> 's cmd_tbl list \<Rightarrow> 's cmd_tbl option" where
  "find_cmd_tbl cmd table =
     (let len = (if 46 \<in> set cmd then length (takeWhile (\<lambda>c. c \<noteq> 46) cmd) else length cmd)
      in find_cmd_loop cmd len table None 0)"

definition cmd_usage :: "'s cmd_tbl \<Rightarrow> int" where
  "cmd_usage c = 1"

definition cmd_process :: "'s cmd_tbl list \<Rightarrow> u32 \<Rightarrow> u8 list list \<Rightarrow> u32 \<Rightarrow> 's \<Rightarrow> int \<times> u32 \<times> 's" where
  "cmd_process table flag args rep s =
     (case find_cmd_tbl (args ! 0) table of
        None \<Rightarrow> (1, rep, s)
      | Some c \<Rightarrow>
          (let (rc, flag) =
                 (if length args > maxargs c then (CMD_RET_USAGE, flag)
                  else if is_do_bootd c then
                    (if flag AND CMD_FLAG_BOOTD \<noteq> 0 then (CMD_RET_FAILURE, flag) else (0, flag OR CMD_FLAG_BOOTD))
                  else (0, flag));
               (rc, rep, s) =
                 (if rc = 0 then (let (rc, s) = cmd_fn c s flag args in (rc, rep AND repeatable c, s))
                  else (rc, rep, s))
           in (if rc = CMD_RET_USAGE then cmd_usage c else rc, rep, s)))"

section \<open>Parsing\<close>

definition CONFIG_SYS_CBSIZE :: nat where "CONFIG_SYS_CBSIZE = 1024"

definition CONFIG_SYS_MAXARGS :: nat where "CONFIG_SYS_MAXARGS = 64"

function parse_line_loop :: "mem \<Rightarrow> nat \<Rightarrow> nat option list \<Rightarrow> nat \<Rightarrow> (nat \<times> nat option list \<times> mem) option" where
  "parse_line_loop m line argv nargs =
     (if nargs < CONFIG_SYS_MAXARGS then
        (case do {
           line \<leftarrow> scan_while isblank m line;
           c \<leftarrow> arr_get m line;
           (if c = 0 then do {
              argv \<leftarrow> arr_set argv nargs None;
              Some (None, nargs, argv, m)
            } else do {
              argv \<leftarrow> arr_set argv nargs (Some line);
              e \<leftarrow> scan_while (\<lambda>c. c \<noteq> 0 \<and> \<not> isblank c) m line;
              c \<leftarrow> arr_get m e;
              (if c = 0 then do {
                 argv \<leftarrow> arr_set argv (nargs + 1) None;
                 Some (None, nargs + 1, argv, m)
               } else do {
                 m \<leftarrow> arr_set m e 0;
                 Some (Some (e + 1), nargs + 1, argv, m)
               })
            })
         } of
           None \<Rightarrow> None
         | Some (None, n, argv', m') \<Rightarrow> Some (n, argv', m')
         | Some (Some line', n, argv', m') \<Rightarrow> parse_line_loop m' line' argv' (nargs + 1))
      else Some (nargs, argv, m))"
  by pat_completeness auto
termination
  by (relation "measure (\<lambda>(m, line, argv, nargs). CONFIG_SYS_MAXARGS - nargs)") auto

declare parse_line_loop.simps [simp del]

definition cli_simple_parse_line :: "mem \<Rightarrow> nat \<Rightarrow> nat option list \<Rightarrow> (nat \<times> nat option list \<times> mem) option" where
  "cli_simple_parse_line m line argv = parse_line_loop m line argv 0"

text \<open>
  Variable replacement. The output cursor is the output array, the position in it and \<open>outputcnt\<close>;
  \<open>macro_step\<close> is the \<open>switch\<close> on the state, after \<open>input\<close> has been advanced past the character.
\<close>

type_synonym obuf = "mem \<times> nat \<times> nat"

definition put :: "u8 \<Rightarrow> obuf \<Rightarrow> obuf option" where
  "put c ob = (case ob of (out, pos, n) \<Rightarrow> do { out \<leftarrow> arr_set out pos c; Some (out, pos + 1, n - 1) })"

definition outputcnt :: "obuf \<Rightarrow> nat" where
  "outputcnt ob = snd (snd ob)"

fun put_env :: "u8 list \<Rightarrow> obuf \<Rightarrow> obuf option" where
  "put_env [] ob = Some ob"
| "put_env (c # cs) ob =
     (if c \<noteq> 0 \<and> outputcnt ob \<noteq> 0 then (case put c ob of None \<Rightarrow> None | Some ob' \<Rightarrow> put_env cs ob') else Some ob)"

definition macro_step :: "(u8 list \<Rightarrow> u8 list option) \<Rightarrow> mem \<Rightarrow> nat \<Rightarrow> u8 \<Rightarrow> u8 \<Rightarrow> nat \<Rightarrow> nat \<Rightarrow> obuf \<Rightarrow>
    (nat \<times> nat \<times> obuf) option" where
  "macro_step getenv inp state prev c input varname_start ob =
     (if state = 0 then
        (if c = 39 \<and> prev \<noteq> 92 then Some (3, varname_start, ob)
         else if c = 36 \<and> prev \<noteq> 92 then Some (state + 1, varname_start, ob)
         else do { ob \<leftarrow> put c ob; Some (state, varname_start, ob) })
      else if state = 1 then
        (if c = 40 \<or> c = 123 then Some (state + 1, input, ob)
         else do {
           ob \<leftarrow> put 36 ob;
           ob \<leftarrow> (if outputcnt ob \<noteq> 0 then put c ob else Some ob);
           Some (0, varname_start, ob)
         })
      else if state = 2 then
        (if c = 41 \<or> c = 125 then
           (let envcnt = input - varname_start - 1 in
            if CONFIG_SYS_CBSIZE \<le> envcnt \<or> length inp < varname_start + envcnt then None
            else do {
              ob \<leftarrow> (case getenv (takeWhile (\<lambda>c. c \<noteq> 0) (slice inp varname_start envcnt)) of
                       None \<Rightarrow> Some ob
                     | Some envval \<Rightarrow> put_env envval ob);
              Some (0, varname_start, ob)
            })
         else Some (state, varname_start, ob))
      else if state = 3 then
        (if c = 39 \<and> prev \<noteq> 92 then Some (0, varname_start, ob)
         else do { ob \<leftarrow> put c ob; Some (state, varname_start, ob) })
      else Some (state, varname_start, ob))"

function macros_loop :: "(u8 list \<Rightarrow> u8 list option) \<Rightarrow> mem \<Rightarrow> nat \<Rightarrow> u8 \<Rightarrow> nat \<Rightarrow> nat \<Rightarrow> nat \<Rightarrow> obuf \<Rightarrow> obuf option" where
  "macros_loop getenv inp state prev input inputcnt varname_start ob =
     (if inputcnt = 0 \<or> outputcnt ob = 0 then Some ob
      else case arr_get inp input of
        None \<Rightarrow> None
      | Some c \<Rightarrow>
          (if state \<noteq> 3 \<and> c = 92 \<and> prev \<noteq> 92 then
             (if inputcnt - 1 = 0 then Some ob
              else case arr_get inp (input + 1) of
                None \<Rightarrow> None
              | Some c' \<Rightarrow>
                  (case macro_step getenv inp state c c' (input + 2) varname_start ob of
                     None \<Rightarrow> None
                   | Some (state', v, ob') \<Rightarrow> macros_loop getenv inp state' c' (input + 2) (inputcnt - 2) v ob'))
           else
             (case macro_step getenv inp state prev c (input + 1) varname_start ob of
                None \<Rightarrow> None
              | Some (state', v, ob') \<Rightarrow> macros_loop getenv inp state' c (input + 1) (inputcnt - 1) v ob')))"
  by pat_completeness auto
termination
  by (relation "measure (\<lambda>(getenv, inp, state, prev, input, inputcnt, v, ob). inputcnt)") auto

declare macros_loop.simps [simp del]

definition cli_simple_process_macros :: "(u8 list \<Rightarrow> u8 list option) \<Rightarrow> mem \<Rightarrow> nat \<Rightarrow> mem \<Rightarrow> mem option" where
  "cli_simple_process_macros getenv inp input output = do {
     inputcnt \<leftarrow> strlen inp input;
     (out, pos, n) \<leftarrow> macros_loop getenv inp 0 0 input inputcnt 0 (output, 0, CONFIG_SYS_CBSIZE);
     (if n \<noteq> 0 then arr_set out pos 0 else if pos = 0 then None else arr_set out (pos - 1) 0)
   }"

section \<open>Running commands\<close>

text \<open>
  The search for a separator from \<open>sep\<close> on, in the token that starts at \<open>str\<close>. Looking at the
  character before the start of the buffer is an access outside of it.
\<close>

definition char_before :: "mem \<Rightarrow> nat \<Rightarrow> u8 option" where
  "char_before m sep = (if sep = 0 then None else arr_get m (sep - 1))"

definition toggles_quote :: "mem \<Rightarrow> nat \<Rightarrow> u8 \<Rightarrow> bool \<Rightarrow> bool option" where
  "toggles_quote m sep c inquotes =
     (if c = 39 then do { p \<leftarrow> char_before m sep; Some (if p \<noteq> 92 then \<not> inquotes else inquotes) } else Some inquotes)"

definition is_separator :: "mem \<Rightarrow> nat \<Rightarrow> nat \<Rightarrow> u8 \<Rightarrow> bool \<Rightarrow> bool option" where
  "is_separator m str sep c inquotes =
     (if \<not> inquotes \<and> c = 59 \<and> sep \<noteq> str then do { p \<leftarrow> char_before m sep; Some (p \<noteq> 92) } else Some False)"

function find_sep :: "mem \<Rightarrow> nat \<Rightarrow> nat \<Rightarrow> bool \<Rightarrow> nat option" where
  "find_sep m str sep inquotes =
     (case arr_get m sep of
        None \<Rightarrow> None
      | Some c \<Rightarrow>
          (if c = 0 then Some sep
           else case toggles_quote m sep c inquotes of
             None \<Rightarrow> None
           | Some q \<Rightarrow>
               (case is_separator m str sep c q of
                  None \<Rightarrow> None
                | Some stop \<Rightarrow> (if stop then Some sep else find_sep m str (sep + 1) q))))"
  by pat_completeness auto
termination
  by (relation "measure (\<lambda>(m, str, sep, inquotes). length m - sep)") (auto simp: arr_get_def split: if_splits)

declare find_sep.simps [simp del]

lemma find_sep_ge: "find_sep m str sep q = Some e \<Longrightarrow> sep \<le> e \<and> e < length m"
proof (induction "length m - sep" arbitrary: sep q rule: less_induct)
  case less
  have "sep < length m" using less.prems by (subst (asm) find_sep.simps) (auto simp: arr_get_def split: if_splits)
  then have "find_sep m str (Suc sep) q' = Some e \<Longrightarrow> Suc sep \<le> e \<and> e < length m" for q'
    by (intro less.hyps) auto
  moreover from less.prems have "sep = e \<or> (\<exists>q'. find_sep m str (Suc sep) q' = Some e)"
    by (subst (asm) find_sep.simps) (auto split: option.splits if_splits)
  ultimately show ?case using \<open>sep < length m\<close> by (meson Suc_leD order_refl)
qed

lemma find_sep_after:
  assumes "find_sep m str str q = Some e" "m ! str \<noteq> 0"
  shows "str < e"
proof -
  have "str < length m" using find_sep_ge[OF assms(1)] by simp
  with assms show ?thesis
    by (subst (asm) find_sep.simps) (auto simp: is_separator_def split: option.splits if_splits dest: find_sep_ge)
qed

text \<open>
  What the command line works with besides its buffers: the table of commands, the environment and
  the record of control-C, all of them in a state of type \<open>'s\<close>; and the uninitialised arrays of the
  stack frame.
\<close>

record 's cli =
  cli_table :: "'s cmd_tbl list"
  cli_getenv :: "'s \<Rightarrow> u8 list \<Rightarrow> u8 list option"
  clear_ctrlc :: "'s \<Rightarrow> 's"
  had_ctrlc :: "'s \<Rightarrow> bool"

record cli_frame =
  cmdbuf :: mem
  finaltoken :: mem
  argv :: "nat option list"

definition arg_strings :: "mem \<Rightarrow> nat option list \<Rightarrow> nat \<Rightarrow> u8 list list option" where
  "arg_strings m av argc = those (map (\<lambda>p. case p of None \<Rightarrow> None | Some a \<Rightarrow> string_at m a) (take argc av))"

text \<open>The body of the loop after the token has been cut: \<open>Inl\<close> returns, \<open>Inr\<close> goes on.\<close>

definition run_token :: "'s cli \<Rightarrow> cli_frame \<Rightarrow> u32 \<Rightarrow> mem \<Rightarrow> nat \<Rightarrow> int \<times> u32 \<times> 's \<Rightarrow> (int \<times> 's + int \<times> u32 \<times> 's) option" where
  "run_token cl fr flag m token st = (case st of (rc, rep, s) \<Rightarrow>
     do {
       out \<leftarrow> cli_simple_process_macros (cli_getenv cl s) m token (finaltoken fr);
       (argc, av, out) \<leftarrow> cli_simple_parse_line out 0 (argv fr);
       (if argc = 0 then Some (Inr (- 1, rep, s))
        else do {
          args \<leftarrow> arg_strings out av argc;
          let (r, rep, s) = cmd_process (cli_table cl) flag args rep s;
          let rc = (if r \<noteq> 0 then - 1 else rc);
          (if had_ctrlc cl s then Some (Inl (- 1, s)) else Some (Inr (rc, rep, s)))
        })
     })"

function run_loop :: "'s cli \<Rightarrow> cli_frame \<Rightarrow> u32 \<Rightarrow> mem \<Rightarrow> nat \<Rightarrow> int \<times> u32 \<times> 's \<Rightarrow> (int \<times> 's) option" where
  "run_loop cl fr flag m str st =
     (case arr_get m str of
        None \<Rightarrow> None
      | Some c0 \<Rightarrow>
          (if c0 = 0 then Some (case st of (rc, rep, s) \<Rightarrow> (if rc \<noteq> 0 then rc else sint rep, s))
           else case find_sep m str str False of
             None \<Rightarrow> None
           | Some sep \<Rightarrow>
               (let str' = (if m ! sep \<noteq> 0 then sep + 1 else sep);
                    m' = (if m ! sep \<noteq> 0 then m[sep := 0] else m)
                in case run_token cl fr flag m' str st of
                     None \<Rightarrow> None
                   | Some (Inl r) \<Rightarrow> Some r
                   | Some (Inr st') \<Rightarrow> run_loop cl fr flag m' str' st')))"
  by pat_completeness auto
termination
  by (relation "measure (\<lambda>(cl, fr, flag, m, str, st). length m - str)")
    (auto simp: arr_get_def split: if_splits dest: find_sep_after find_sep_ge)

declare run_loop.simps [simp del]

definition cli_simple_run_command :: "'s cli \<Rightarrow> cli_frame \<Rightarrow> mem \<Rightarrow> nat option \<Rightarrow> u32 \<Rightarrow> 's \<Rightarrow> (int \<times> 's) option" where
  "cli_simple_run_command cl fr m cmd flag s =
     (let s = clear_ctrlc cl s in
      case cmd of
        None \<Rightarrow> Some (- 1, s)
      | Some p \<Rightarrow> do {
          xs \<leftarrow> string_at m p;
          (if xs = [] then Some (- 1, s)
           else if length xs \<ge> CONFIG_SYS_CBSIZE then Some (- 1, s)
           else if length (cmdbuf fr) \<le> length xs then None
           else run_loop cl fr flag (blit (cmdbuf fr) 0 (xs @ [0])) 0 (0, 1, s))
        })"

definition run_command :: "'s cli \<Rightarrow> cli_frame \<Rightarrow> mem \<Rightarrow> nat option \<Rightarrow> u32 \<Rightarrow> 's \<Rightarrow> (int \<times> 's) option" where
  "run_command cl fr m cmd flag s = do {
     (r, s) \<leftarrow> cli_simple_run_command cl fr m cmd flag s;
     Some (if r = - 1 then 1 else 0, s)
   }"

text \<open>The loop over the lines of a list of commands.\<close>

function run_list_loop :: "'s cli \<Rightarrow> cli_frame \<Rightarrow> mem \<Rightarrow> nat \<Rightarrow> nat \<Rightarrow> 's \<Rightarrow> (bool \<times> mem \<times> nat \<times> 's) option" where
  "run_list_loop cl fr m line nxt s =
     (case arr_get m nxt of
        None \<Rightarrow> None
      | Some c \<Rightarrow>
          (if c = 0 then Some (False, m, line, s)
           else if c = 10 then
             (let m = m[nxt := 0] in
              if m ! line \<noteq> 0 then
                (case cli_simple_run_command cl fr m (Some line) 0 s of
                   None \<Rightarrow> None
                 | Some (r, s) \<Rightarrow>
                     (if r < 0 then Some (True, m, line, s) else run_list_loop cl fr m (nxt + 1) (nxt + 1) s))
              else run_list_loop cl fr m (nxt + 1) (nxt + 1) s)
           else run_list_loop cl fr m line (nxt + 1) s))"
  by pat_completeness auto
termination
  by (relation "measure (\<lambda>(cl, fr, m, line, nxt, s). length m - nxt)") (auto simp: arr_get_def split: if_splits)

declare run_list_loop.simps [simp del]

definition cli_simple_run_command_list :: "'s cli \<Rightarrow> cli_frame \<Rightarrow> mem \<Rightarrow> nat \<Rightarrow> 's \<Rightarrow> (int \<times> mem \<times> 's) option" where
  "cli_simple_run_command_list cl fr m cmd s = do {
     (failed, m, line, s) \<leftarrow> run_list_loop cl fr m cmd cmd s;
     (if failed then Some (1, m, s)
      else do {
        c \<leftarrow> arr_get m line;
        (if c \<noteq> 0 then do {
           (r, s) \<leftarrow> cli_simple_run_command cl fr m (Some line) 0 s;
           Some (if r < 0 then 1 else 0, m, s)
         } else Some (0, m, s))
      })
   }"

section \<open>What the parts compute\<close>

text \<open>The part of a command name before the first dot, and the lookup by name or unique prefix.\<close>

definition base_name :: "u8 list \<Rightarrow> u8 list" where
  "base_name cmd = takeWhile (\<lambda>c. c \<noteq> 46) cmd"

definition table_ok :: "'s cmd_tbl list \<Rightarrow> bool" where
  "table_ok table \<longleftrightarrow> (\<forall>c \<in> set table. 0 \<notin> set (cmd_name c))"

lemma take_prefix_iff: "length b = len \<Longrightarrow> b = take len xs \<longleftrightarrow> (\<exists>r. xs = b @ r)"
  by (metis append_eq_conv_conj append_take_drop_id)

lemma find_cmd_loop_eq:
  assumes "0 \<notin> set b" and "\<forall>c \<in> set table. 0 \<notin> set (cmd_name c)" and "len = length b" and "take len cmd = b"
    and "n = 0 \<longrightarrow> temp = None"
  shows "find_cmd_loop cmd len table temp n =
    (case find (\<lambda>c. cmd_name c = b) table of
       Some c \<Rightarrow> Some c
     | None \<Rightarrow>
         (let cs = filter (\<lambda>c. \<exists>r. cmd_name c = b @ r) table
          in if n + length cs \<noteq> 1 then None else if cs = [] then temp else Some (last cs)))"
  using assms(2,5)
proof (induction table arbitrary: temp n)
  case Nil
  then show ?case by auto
next
  case (Cons c table)
  have eq: "str_order b (take len (cmd_name c)) = 0 \<longleftrightarrow> b = take len (cmd_name c)"
    using assms(1) Cons.prems by (intro str_order_eq) (auto dest: in_set_takeD)
  have pre: "b = take len (cmd_name c) \<longleftrightarrow> (\<exists>r. cmd_name c = b @ r)"
    using assms(3) by (simp add: take_prefix_iff)
  show ?case
  proof (cases "\<exists>r. cmd_name c = b @ r")
    case True
    then have "b = take len (cmd_name c)" using pre by simp
    moreover obtain r where "cmd_name c = b @ r" using True by blast
    then have "len = length (cmd_name c) \<longleftrightarrow> cmd_name c = b" using assms(3) by simp
    ultimately have step: "find_cmd_loop cmd len (c # table) temp n =
        (if cmd_name c = b then Some c else find_cmd_loop cmd len table (Some c) (n + 1))"
      using eq assms(4) by simp
    have "find_cmd_loop cmd len table (Some c) (n + 1) =
      (case find (\<lambda>c. cmd_name c = b) table of
         Some c \<Rightarrow> Some c
       | None \<Rightarrow>
           (let cs = filter (\<lambda>c. \<exists>r. cmd_name c = b @ r) table
            in if n + 1 + length cs \<noteq> 1 then None else if cs = [] then Some c else Some (last cs)))"
      using Cons.prems by (intro Cons.IH) auto
    with step True show ?thesis by (simp add: Let_def split: option.split)
  next
    case False
    then have "find_cmd_loop cmd len (c # table) temp n = find_cmd_loop cmd len table temp n" "cmd_name c \<noteq> b"
      using eq pre assms(4) by auto
    with Cons.IH[of n temp] Cons.prems False show ?thesis
      by (simp del: find_cmd_loop.simps split: option.split)
  qed
qed

text \<open>Variable replacement on lists, character by character: what a character puts out, the next state
  and the variable name read so far.\<close>

definition macro_out :: "(u8 list \<Rightarrow> u8 list option) \<Rightarrow> nat \<Rightarrow> u8 \<Rightarrow> u8 list \<Rightarrow> u8 \<Rightarrow> u8 list \<times> nat \<times> u8 list" where
  "macro_out getenv state prev nm c =
     (if state = 0 then
        (if c = 39 \<and> prev \<noteq> 92 then ([], 3, nm) else if c = 36 \<and> prev \<noteq> 92 then ([], 1, nm) else ([c], 0, nm))
      else if state = 1 then (if c = 40 \<or> c = 123 then ([], 2, []) else ([36, c], 0, nm))
      else if state = 2 then
        (if c = 41 \<or> c = 125 then (case getenv nm of None \<Rightarrow> [] | Some v \<Rightarrow> v, 0, []) else ([], 2, nm @ [c]))
      else if c = 39 \<and> prev \<noteq> 92 then ([], 0, nm) else ([c], 3, nm))"

fun expand :: "(u8 list \<Rightarrow> u8 list option) \<Rightarrow> nat \<Rightarrow> u8 \<Rightarrow> u8 list \<Rightarrow> u8 list \<Rightarrow> u8 list" where
  "expand getenv state prev nm [] = []"
| "expand getenv state prev nm [c] =
     (if state \<noteq> 3 \<and> c = 92 \<and> prev \<noteq> 92 then [] else fst (macro_out getenv state prev nm c))"
| "expand getenv state prev nm (c # c' # xs) =
     (if state \<noteq> 3 \<and> c = 92 \<and> prev \<noteq> 92 then
        (case macro_out getenv state c (if state = 2 then nm @ [c] else nm) c' of
           (ys, state', nm') \<Rightarrow> ys @ expand getenv state' c' nm' xs)
      else (case macro_out getenv state prev nm c of (ys, state', nm') \<Rightarrow> ys @ expand getenv state' c nm' (c' # xs)))"

abbreviation expand_line :: "(u8 list \<Rightarrow> u8 list option) \<Rightarrow> u8 list \<Rightarrow> u8 list" where
  "expand_line getenv xs \<equiv> expand getenv 0 0 [] xs"

text \<open>Writing a list at an output cursor, as far as there is room.\<close>

definition outp :: "obuf \<Rightarrow> u8 list \<Rightarrow> obuf" where
  "outp ob ys = (case ob of (out, pos, n) \<Rightarrow> (blit out pos (take n ys), pos + min n (length ys), n - length ys))"

definition ob_ok :: "obuf \<Rightarrow> bool" where
  "ob_ok ob = (case ob of (out, pos, n) \<Rightarrow> pos + n \<le> length out)"

lemma outp_Nil [simp]: "outp ob [] = ob"
  by (simp add: outp_def split: prod.splits)

lemma outp_outp: "ob_ok ob \<Longrightarrow> outp (outp ob ys) zs = outp ob (ys @ zs)"
  by (auto simp: outp_def ob_ok_def blit_blit min_def split: prod.splits)

lemma outp_ok [simp]: "ob_ok ob \<Longrightarrow> ob_ok (outp ob ys)"
  by (auto simp: outp_def ob_ok_def split: prod.splits)

lemma outputcnt_outp [simp]: "outputcnt (outp ob ys) = outputcnt ob - length ys"
  by (simp add: outputcnt_def outp_def split: prod.splits)

lemma outp_full: "outputcnt ob = 0 \<Longrightarrow> outp ob ys = ob"
  by (cases ob) (simp add: outp_def outputcnt_def)

lemma put_outp: "ob_ok ob \<Longrightarrow> outputcnt ob \<noteq> 0 \<Longrightarrow> put c ob = Some (outp ob [c])"
  by (auto simp: put_def outp_def ob_ok_def outputcnt_def take_Cons' blit_def upd_conv_take_nth_drop split: prod.splits)

lemma put_env_outp: "ob_ok ob \<Longrightarrow> 0 \<notin> set v \<Longrightarrow> put_env v ob = Some (outp ob v)"
proof (induction v arbitrary: ob)
  case (Cons c v)
  then show ?case
    by (cases "outputcnt ob = 0") (auto simp: put_outp outp_outp outp_full)
qed simp

text \<open>In state 2 the name read so far is the text between \<open>varname_start\<close> and the current position.\<close>

definition name_at :: "mem \<Rightarrow> nat \<Rightarrow> u8 list \<Rightarrow> nat \<Rightarrow> nat \<Rightarrow> nat \<Rightarrow> bool" where
  "name_at inp state nm varname_start input rest \<longleftrightarrow>
     (state = 2 \<longrightarrow> varname_start + length nm = input \<and> slice inp varname_start (length nm) = nm \<and> 0 \<notin> set nm \<and>
        length nm + rest < CONFIG_SYS_CBSIZE)"

definition env_ok :: "(u8 list \<Rightarrow> u8 list option) \<Rightarrow> bool" where
  "env_ok getenv \<longleftrightarrow> (\<forall>nm v. getenv nm = Some v \<longrightarrow> 0 \<notin> set v)"

lemma name_at_snoc:
  assumes "name_at inp 2 nm v input (Suc rest)" "input < length inp" "inp ! input = c" "c \<noteq> 0"
  shows "name_at inp 2 (nm @ [c]) v (Suc input) rest"
proof -
  have "slice inp v (Suc (length nm)) = nm @ [c]"
    using assms by (subst slice_snoc) (auto simp: name_at_def)
  with assms show ?thesis by (auto simp: name_at_def)
qed

lemma put_two:
  assumes "ob_ok ob" "outputcnt ob \<noteq> 0"
  shows "(if outputcnt (outp ob [36]) \<noteq> 0 then put c (outp ob [36]) else Some (outp ob [36])) = Some (outp ob [36, c])"
proof (cases "outputcnt (outp ob [36]) = 0")
  case True
  then show ?thesis using outp_outp[OF assms(1), of "[36]" "[c]"] outp_full[OF True, of "[c]"] by simp
next
  case False
  then show ?thesis using assms outp_outp[OF assms(1), of "[36]" "[c]"] put_outp[of "outp ob [36]" c] by simp
qed

lemma macro_step_out:
  assumes env: "env_ok getenv" and ok: "ob_ok ob" "outputcnt ob \<noteq> 0" and st: "state \<le> 3"
    and nm: "name_at inp state nm v input (Suc rest)" and c: "input < length inp" "inp ! input = c" "c \<noteq> 0"
    and rest: "rest < CONFIG_SYS_CBSIZE"
    and out: "macro_out getenv state prev nm c = (ys, state', nm')"
  shows "\<exists>v'. macro_step getenv inp state prev c (Suc input) v ob = Some (state', v', outp ob ys) \<and>
    state' \<le> 3 \<and> name_at inp state' nm' v' (Suc input) rest"
proof -
  consider "state = 0" | "state = 1" | "state = 2" | "state = 3" using st by linarith
  then show ?thesis
  proof cases
    case 1
    with out ok show ?thesis by (auto simp: macro_step_def macro_out_def name_at_def put_outp split: if_splits)
  next
    case 2
    show ?thesis
    proof (cases "c = 40 \<or> c = 123")
      case True
      with 2 out rest show ?thesis by (auto simp: macro_step_def macro_out_def name_at_def slice_def)
    next
      case False
      with 2 out ok put_two[OF ok, of c] show ?thesis
        by (auto simp: macro_step_def macro_out_def name_at_def put_outp)
    qed
  next
    case 3
    show ?thesis
    proof (cases "c = 41 \<or> c = 125")
      case True
      have tw: "takeWhile (\<lambda>c. c \<noteq> 0) nm = nm" using nm 3 by (auto simp: name_at_def takeWhile_eq_all_conv)
      have "Suc input - v - 1 = length nm" "v + length nm \<le> length inp" "length nm < CONFIG_SYS_CBSIZE"
        "slice inp v (length nm) = nm"
        using nm 3 c by (auto simp: name_at_def)
      with True 3 out env ok show ?thesis
        by (auto simp: macro_step_def macro_out_def name_at_def put_env_outp env_ok_def tw split: option.splits)
    next
      case False
      with 3 out name_at_snoc[OF nm[unfolded 3] c] show ?thesis by (simp add: macro_step_def macro_out_def)
    qed
  next
    case 4
    with out ok show ?thesis by (auto simp: macro_step_def macro_out_def name_at_def put_outp split: if_splits)
  qed
qed

lemma expand_escape:
  "state \<noteq> 3 \<and> c = 92 \<and> prev \<noteq> 92 \<Longrightarrow>
   macro_out getenv state c (if state = 2 then nm @ [c] else nm) c' = (ys, state', nm') \<Longrightarrow>
   expand getenv state prev nm (c # c' # xs) = ys @ expand getenv state' c' nm' xs"
  by (simp split: if_splits)

lemma expand_char:
  "\<not> (state \<noteq> 3 \<and> c = 92 \<and> prev \<noteq> 92) \<Longrightarrow> macro_out getenv state prev nm c = (ys, state', nm') \<Longrightarrow>
   expand getenv state prev nm (c # xs) = ys @ expand getenv state' c nm' xs"
  by (cases xs) auto

lemma macros_loop_expand:
  "env_ok getenv \<Longrightarrow> cstring inp input xs \<Longrightarrow> state \<le> 3 \<Longrightarrow> name_at inp state nm v input (length xs) \<Longrightarrow>
   ob_ok ob \<Longrightarrow> length xs < CONFIG_SYS_CBSIZE \<Longrightarrow>
   macros_loop getenv inp state prev input (length xs) v ob = Some (outp ob (expand getenv state prev nm xs))"
proof (induction getenv state prev nm xs arbitrary: input v ob rule: expand.induct)
  case (1 getenv state prev nm)
  then show ?case by (simp add: macros_loop.simps)
next
  case (2 getenv state prev nm c)
  obtain ys state' nm' where o: "macro_out getenv state prev nm c = (ys, state', nm')" by (metis prod_cases3)
  show ?case
  proof (cases "outputcnt ob = 0 \<or> (state \<noteq> 3 \<and> c = 92 \<and> prev \<noteq> 92)")
    case True
    with 2(2) show ?thesis by (subst macros_loop.simps) (auto simp: outp_full)
  next
    case False
    have c: "input < length inp" "inp ! input = c" "c \<noteq> 0" using 2(2) by auto
    obtain v' where "macro_step getenv inp state prev c (Suc input) v ob = Some (state', v', outp ob ys)"
      using macro_step_out[OF 2(1) 2(5) _ 2(3) _ c _ o, of v 0] 2(4,6) False by auto
    with False c o show ?thesis
      by (subst macros_loop.simps) (auto simp: macros_loop.simps[of _ _ _ _ _ 0])
  qed
next
  case (3 getenv state prev nm c c' xs)
  have c: "input < length inp" "inp ! input = c" "c \<noteq> 0" "cstring inp (Suc input) (c' # xs)" using 3(4) by auto
  then have c': "Suc input < length inp" "inp ! Suc input = c'" "c' \<noteq> 0" "cstring inp (Suc (Suc input)) xs" by auto
  show ?case
  proof (cases "outputcnt ob = 0")
    case True
    then show ?thesis by (subst macros_loop.simps) (simp add: outp_full)
  next
    case room: False
    show ?thesis
    proof (cases "state \<noteq> 3 \<and> c = 92 \<and> prev \<noteq> 92")
      case True
      let ?nm = "if state = 2 then nm @ [c] else nm"
      obtain ys state' nm' where o: "macro_out getenv state c ?nm c' = (ys, state', nm')" by (metis prod_cases3)
      have "name_at inp state ?nm v (Suc input) (Suc (length xs))"
        using name_at_snoc[OF _ c(1-3), of nm v "Suc (length xs)"] 3(6) by (auto simp: name_at_def)
      from macro_step_out[OF 3(3) 3(7) room 3(5) this c'(1-3) _ o] 3(8) obtain v' where
        s: "macro_step getenv inp state c c' (Suc (Suc input)) v ob = Some (state', v', outp ob ys)" "state' \<le> 3"
        "name_at inp state' nm' v' (Suc (Suc input)) (length xs)" by auto
      have "macros_loop getenv inp state' c' (Suc (Suc input)) (length xs) v' (outp ob ys) =
          Some (outp (outp ob ys) (expand getenv state' c' nm' xs))"
        using 3 True o s c' by (intro 3(1)[OF True o[symmetric] refl]) auto
      with True room s(1) c c' 3(7) show ?thesis
        unfolding expand_escape[OF True o] by (subst macros_loop.simps) (simp add: outp_outp)
    next
      case False
      obtain ys state' nm' where o: "macro_out getenv state prev nm c = (ys, state', nm')" by (metis prod_cases3)
      from macro_step_out[OF 3(3) 3(7) room 3(5) _ c(1-3) _ o, of v "Suc (length xs)"] 3(6,8) obtain v' where
        s: "macro_step getenv inp state prev c (Suc input) v ob = Some (state', v', outp ob ys)" "state' \<le> 3"
        "name_at inp state' nm' v' (Suc input) (Suc (length xs))" by auto
      have "macros_loop getenv inp state' c (Suc input) (length (c' # xs)) v' (outp ob ys) =
          Some (outp (outp ob ys) (expand getenv state' c nm' (c' # xs)))"
        using 3 False o s c by (intro 3(2)[OF False o[symmetric] refl]) auto
      with False room s(1) c 3(7) show ?thesis
        unfolding expand_char[OF False o] by (subst macros_loop.simps) (auto simp: outp_outp simp del: expand.simps)
    qed
  qed
qed

lemma macro_out_nonzero:
  "env_ok getenv \<Longrightarrow> c \<noteq> 0 \<Longrightarrow> macro_out getenv state prev nm c = (ys, state', nm') \<Longrightarrow> 0 \<notin> set ys"
  by (auto simp: macro_out_def env_ok_def split: if_splits option.splits)

lemma expand_nonzero: "env_ok getenv \<Longrightarrow> 0 \<notin> set xs \<Longrightarrow> 0 \<notin> set (expand getenv state prev nm xs)"
proof (induction getenv state prev nm xs rule: expand.induct)
  case (2 getenv state prev nm c)
  then show ?case by (cases "macro_out getenv state prev nm c") (auto dest: macro_out_nonzero)
next
  case (3 getenv state prev nm c c' xs)
  show ?case
  proof (cases "state \<noteq> 3 \<and> c = 92 \<and> prev \<noteq> 92")
    case True
    obtain ys state' nm' where o: "macro_out getenv state c (if state = 2 then nm @ [c] else nm) c' = (ys, state', nm')"
      by (metis prod_cases3)
    with 3(1)[OF True o[symmetric] refl] 3(3,4) macro_out_nonzero[OF 3(3) _ o] show ?thesis
      unfolding expand_escape[OF True o] by simp
  next
    case False
    obtain ys state' nm' where o: "macro_out getenv state prev nm c = (ys, state', nm')"
      by (metis prod_cases3)
    with 3(2)[OF False o[symmetric] refl] 3(3,4) macro_out_nonzero[OF 3(3) _ o] show ?thesis
      unfolding expand_char[OF False o] by (simp del: expand.simps)
  qed
qed simp

lemma process_macros_expand:
  assumes "env_ok getenv" "cstring inp input xs" "length xs < CONFIG_SYS_CBSIZE" "CONFIG_SYS_CBSIZE \<le> length output"
  shows "\<exists>out. cli_simple_process_macros getenv inp input output = Some out \<and> length out = length output \<and>
    cstring out 0 (take (CONFIG_SYS_CBSIZE - 1) (expand_line getenv xs))"
proof -
  let ?N = CONFIG_SYS_CBSIZE and ?ys = "expand_line getenv xs"
  have N: "0 < ?N" by (simp add: CONFIG_SYS_CBSIZE_def)
  have z: "0 \<notin> set ?ys" using assms(1,2) by (intro expand_nonzero) (auto simp: cstring_iff)
  have loop: "macros_loop getenv inp 0 0 input (length xs) 0 (output, 0, ?N) = Some (outp (output, 0, ?N) ?ys)"
    using assms by (intro macros_loop_expand) (auto simp: name_at_def ob_ok_def)
  let ?out = "blit output 0 (take ?N ?ys)"
  have len: "length ?out = length output" using assms(4) by simp
  show ?thesis
  proof (cases "length ?ys < ?N")
    case True
    then have "cli_simple_process_macros getenv inp input output = Some (?out[length ?ys := 0])"
      using assms(4) len by (simp add: cli_simple_process_macros_def strlen_cstring[OF assms(2)] loop outp_def)
    moreover have "cstring (?out[length ?ys := 0]) 0 ?ys"
      using True assms(4) z by (auto simp: cstring_iff nth_blit slice_def intro!: nth_equalityI)
    ultimately show ?thesis using True len by simp
  next
    case False
    then have "cli_simple_process_macros getenv inp input output = Some (?out[?N - 1 := 0])"
      using assms(4) len N by (simp add: cli_simple_process_macros_def strlen_cstring[OF assms(2)] loop outp_def)
    moreover have "cstring (?out[?N - 1 := 0]) 0 (take (?N - 1) ?ys)"
      using False assms(4) z N by (auto simp: cstring_iff nth_blit slice_def intro!: nth_equalityI dest: in_set_takeD)
    ultimately show ?thesis using len by simp
  qed
qed

text \<open>The words of a line, at most \<open>n\<close> of them.\<close>

fun words_of :: "nat \<Rightarrow> u8 list \<Rightarrow> u8 list list" where
  "words_of 0 xs = []"
| "words_of (Suc n) xs =
     (let ys = dropWhile isblank xs in
      if ys = [] then [] else takeWhile (\<lambda>c. \<not> isblank c) ys # words_of n (dropWhile (\<lambda>c. \<not> isblank c) ys))"

lemma isblank_0 [simp]: "\<not> isblank 0"
  by (simp add: isblank_def)

lemma words_of_blank: "isblank x \<Longrightarrow> words_of n (x # xs) = words_of n xs"
  by (cases n) (simp_all add: Let_def)

lemma words_nonempty: "w \<in> set (words_of n xs) \<Longrightarrow> w \<noteq> []"
proof (induction n arbitrary: xs)
  case (Suc n)
  have "takeWhile (\<lambda>c. \<not> isblank c) (dropWhile isblank xs) \<noteq> []" if "dropWhile isblank xs \<noteq> []"
    using that hd_dropWhile[OF that] by (cases "dropWhile isblank xs") auto
  with Suc show ?case by (auto simp: Let_def split: if_splits)
qed simp

text \<open>
  The result of the parse: the words stand in the buffer as strings, their addresses in \<open>argv\<close> from
  \<open>nargs\<close> on; the buffer before the line and the addresses before \<open>nargs\<close> are as they were.
\<close>

definition args_at :: "mem \<Rightarrow> nat \<Rightarrow> nat option list \<Rightarrow> nat \<Rightarrow> u8 list list \<Rightarrow> bool" where
  "args_at m line av n ws \<longleftrightarrow>
     (\<forall>i < length ws. \<exists>p. av ! (n + i) = Some p \<and> line \<le> p \<and> cstring m p (ws ! i))"

lemma args_at_Cons:
  assumes "av ! n = Some p" "line \<le> p" "cstring m p w" "args_at m line' av (Suc n) ws" "line \<le> line'"
  shows "args_at m line av n (w # ws)"
  unfolding args_at_def
proof (intro allI impI)
  fix i assume "i < length (w # ws)"
  with assms show "\<exists>p. av ! (n + i) = Some p \<and> line \<le> p \<and> cstring m p ((w # ws) ! i)"
    by (cases i) (auto simp: args_at_def)
qed

lemma parse_line_words:
  "cstring m line xs \<Longrightarrow> nargs \<le> CONFIG_SYS_MAXARGS \<Longrightarrow> length av = CONFIG_SYS_MAXARGS + 1 \<Longrightarrow>
   ws = words_of (CONFIG_SYS_MAXARGS - nargs) xs \<Longrightarrow>
   \<exists>av' m'. parse_line_loop m line av nargs = Some (nargs + length ws, av', m') \<and>
     length av' = length av \<and> take nargs av' = take nargs av \<and> length m' = length m \<and>
     (\<forall>i < line. m' ! i = m ! i) \<and> args_at m' line av' nargs ws \<and>
     (nargs + length ws < CONFIG_SYS_MAXARGS \<longrightarrow> av' ! (nargs + length ws) = None)"
proof (induction "CONFIG_SYS_MAXARGS - nargs" arbitrary: m line av nargs xs ws)
  case 0
  then show ?case by (subst parse_line_loop.simps) (auto simp: args_at_def)
next
  case (Suc k)
  let ?P = "\<lambda>c. \<not> isblank c"
  define a where "a = line + length (takeWhile isblank xs)"
  define ys where "ys = dropWhile isblank xs"
  have lt: "nargs < CONFIG_SYS_MAXARGS" using Suc.hyps(2) by simp
  have scan: "scan_while isblank m line = Some a"
    unfolding a_def by (rule scan_while_cstring[OF Suc.prems(1)]) auto
  have ys: "cstring m a ys"
    using cstring_drop[OF Suc.prems(1), of "length (takeWhile isblank xs)"]
    by (simp add: a_def ys_def dropWhile_eq_drop length_takeWhile_le)
  have ws: "ws = (if ys = [] then [] else takeWhile ?P ys # words_of k (dropWhile ?P ys))"
    using Suc.prems(4) unfolding Suc.hyps(2)[symmetric] words_of.simps Let_def ys_def .
  show ?case
  proof (cases ys)
    case Nil
    then have "a < length m" "m ! a = 0" using ys by auto
    then have "parse_line_loop m line av nargs = Some (nargs, av[nargs := None], m)"
      using lt Suc.prems(3) scan by (subst parse_line_loop.simps) simp
    with Nil ws Suc.prems(3) lt show ?thesis by (simp add: args_at_def)
  next
    case (Cons y ys')
    have a: "a < length m" "m ! a \<noteq> 0" using ys Cons by auto
    define e where "e = a + length (takeWhile ?P ys)"
    have z: "0 \<notin> set ys" using ys by (simp add: cstring_iff)
    have "takeWhile (\<lambda>c. c \<noteq> 0 \<and> ?P c) ys = takeWhile ?P ys"
      using z by (intro takeWhile_cong) auto
    then have scan2: "scan_while (\<lambda>c. c \<noteq> 0 \<and> ?P c) m a = Some e"
      using scan_while_cstring[OF ys, of "\<lambda>c. c \<noteq> 0 \<and> ?P c"] by (simp add: e_def)
    note stop = takeWhile_stop[OF ys refl, of ?P, folded e_def]
    have e: "a \<le> e" "e < length m" "line \<le> a" using stop(1) by (simp_all add: e_def a_def)
    show ?thesis
    proof (cases "dropWhile ?P ys")
      case Nil
      then have tw: "takeWhile ?P ys = ys" by (metis append_Nil2 takeWhile_dropWhile_id)
      have "m ! e = 0" by (rule stop(3)) (simp only: tw)
      then have "parse_line_loop m line av nargs = Some (nargs + 1, av[nargs := Some a, nargs + 1 := None], m)"
        using lt Suc.prems(3) scan a scan2 e by (subst parse_line_loop.simps) simp
      moreover have "ws = [ys]" using ws Cons Nil tw by (cases k) auto
      ultimately show ?thesis
        using ys lt Suc.prems(3) e by (simp add: args_at_def)
    next
      case (Cons b rest)
      have b: "isblank b" using hd_dropWhile[of ?P ys] Cons by simp
      have "b \<in> set ys" by (rule set_dropWhileD[of b ?P]) (simp add: Cons)
      with b have k: "length (takeWhile ?P ys) < length ys" by (auto simp: takeWhile_length_less)
      have "drop (length (takeWhile ?P ys)) ys = b # rest" using Cons by (simp add: dropWhile_eq_drop)
      then have "ys ! length (takeWhile ?P ys) = b" by (rule nth_via_drop)
      then have dr: "m ! e = b" "length (takeWhile ?P ys) < length ys" using stop(2)[OF k] k by auto
      have "b \<noteq> 0" using b by auto
      define m1 where "m1 = m[e := 0]"
      define av1 where "av1 = av[nargs := Some a]"
      have step: "parse_line_loop m line av nargs = parse_line_loop m1 (e + 1) av1 (nargs + 1)"
        using lt Suc.prems(3) scan a scan2 e dr \<open>b \<noteq> 0\<close> unfolding m1_def av1_def
        by (subst parse_line_loop.simps) simp
      have "cstring m e (b # rest)"
        using cstring_drop[OF ys, of "length (takeWhile ?P ys)"] dr(2) Cons by (simp add: e_def dropWhile_eq_drop)
      then have rest: "cstring m1 (e + 1) rest"
        unfolding m1_def by (auto intro: cstring_frame[of m])
      have w: "cstring m1 a (takeWhile ?P ys)"
        using cstring_take[OF ys, of "length (takeWhile ?P ys)"] dr(2) by (simp add: m1_def e_def flip: takeWhile_eq_take)
      let ?ws = "words_of k rest"
      have ws': "ws = takeWhile ?P ys # ?ws" using ws \<open>ys = y # ys'\<close> Cons b by (simp add: words_of_blank)
      have kk: "k = CONFIG_SYS_MAXARGS - (nargs + 1)" using Suc.hyps(2) by simp
      obtain av' m' where IH: "parse_line_loop m1 (e + 1) av1 (nargs + 1) = Some (nargs + 1 + length ?ws, av', m')"
        "length av' = length av" "take (nargs + 1) av' = take (nargs + 1) av1" "length m' = length m"
        "\<forall>i < e + 1. m' ! i = m1 ! i" "args_at m' (e + 1) av' (nargs + 1) ?ws"
        "nargs + 1 + length ?ws < CONFIG_SYS_MAXARGS \<longrightarrow> av' ! (nargs + 1 + length ?ws) = None"
        using Suc.hyps(1)[OF kk rest, of av1 ?ws] kk lt Suc.prems(3) by (auto simp: m1_def av1_def)
      have "cstring m' a (takeWhile ?P ys)"
        by (rule cstring_frame[OF w]) (use IH(4,5) in \<open>auto simp: m1_def e_def\<close>)
      moreover have "av' ! nargs = Some a"
        using arg_cong[OF IH(3), of "\<lambda>l. l ! nargs"] lt Suc.prems(3) by (simp add: av1_def)
      ultimately have "args_at m' line av' nargs ws"
        unfolding ws' using IH(6) e by (intro args_at_Cons[of _ _ a _ _ _ "e + 1"]) auto
      moreover have "take nargs av' = take nargs av"
        using arg_cong[OF IH(3), of "take nargs"] by (simp add: av1_def take_take min_def)
      moreover have "\<forall>i < line. m' ! i = m ! i" using IH(5) e by (auto simp: m1_def)
      ultimately show ?thesis using step IH(1,2,4,7) ws' by (intro exI[of _ av'] exI[of _ m']) simp
    qed
  qed
qed
text \<open>
  The length of the first command of a line: up to a semicolon that is not its first character, not
  in quotes and not behind a backslash.
\<close>

fun cmd_end :: "bool \<Rightarrow> u8 \<Rightarrow> bool \<Rightarrow> u8 list \<Rightarrow> nat" where
  "cmd_end first prev q [] = 0"
| "cmd_end first prev q (c # xs) =
     (let q' = (if c = 39 \<and> prev \<noteq> 92 then \<not> q else q) in
      if \<not> q' \<and> c = 59 \<and> \<not> first \<and> prev \<noteq> 92 then 0 else Suc (cmd_end False c q' xs))"

lemma cmd_end_le: "cmd_end first prev q xs \<le> length xs"
  by (induction first prev q xs rule: cmd_end.induct) (auto simp: Let_def)

lemma cmd_end_first: "xs \<noteq> [] \<Longrightarrow> 0 < cmd_end True prev q xs"
  by (cases xs) (auto simp: Let_def)

function split_cmds :: "u8 list \<Rightarrow> u8 list list" where
  "split_cmds xs =
     (if xs = [] then []
      else let k = cmd_end True 0 False xs in take k xs # split_cmds (drop (k + 1) xs))"
  by pat_completeness auto
termination
  by (relation "measure length") (auto simp: Let_def)

declare split_cmds.simps [simp del]

lemma find_sep_end:
  "cstring m sep xs \<Longrightarrow> (sep = 0 \<longrightarrow> sep = str \<and> hd xs \<noteq> 39) \<Longrightarrow> (sep \<noteq> 0 \<longrightarrow> m ! (sep - 1) = prev) \<Longrightarrow>
   sep = 0 \<longrightarrow> prev = 0 \<Longrightarrow> first = (sep = str) \<Longrightarrow> str \<le> sep \<Longrightarrow>
   find_sep m str sep q = Some (sep + cmd_end first prev q xs)"
proof (induction first prev q xs arbitrary: sep rule: cmd_end.induct)
  case (1 first prev q)
  then show ?case by (subst find_sep.simps) simp
next
  case (2 first prev q c xs)
  let ?q = "if c = 39 \<and> prev \<noteq> 92 then \<not> q else q"
  have c: "sep < length m" "m ! sep = c" "c \<noteq> 0" "cstring m (Suc sep) xs" using 2(2) by auto
  have before: "char_before m sep = (if sep = 0 then None else Some prev)"
    using 2(4) c(1) by (auto simp: char_before_def)
  have tq: "toggles_quote m sep c q = Some ?q"
    using before 2(3) by (auto simp: toggles_quote_def)
  have isep: "is_separator m str sep c ?q = Some (\<not> ?q \<and> c = 59 \<and> \<not> first \<and> prev \<noteq> 92)"
    using before 2(3,6) by (auto simp: is_separator_def)
  show ?case
  proof (cases "\<not> ?q \<and> c = 59 \<and> \<not> first \<and> prev \<noteq> 92")
    case True
    with c tq isep show ?thesis by (subst find_sep.simps) (auto simp: Let_def)
  next
    case False
    have "find_sep m str (Suc sep) ?q = Some (Suc sep + cmd_end False c ?q xs)"
      using c 2(7) by (intro 2(1)[OF refl False]) auto
    with c tq isep False show ?thesis by (subst find_sep.simps) (simp only: arr_get_in option.case Let_def cmd_end.simps if_False, simp)
  qed
qed

text \<open>What a list of commands does, command by command.\<close>

definition run_one :: "'s cli \<Rightarrow> u32 \<Rightarrow> u8 list \<Rightarrow> int \<times> u32 \<times> 's \<Rightarrow> int \<times> 's + int \<times> u32 \<times> 's" where
  "run_one cl flag tok st = (case st of (rc, rep, s) \<Rightarrow>
     let args = words_of CONFIG_SYS_MAXARGS (take (CONFIG_SYS_CBSIZE - 1) (expand_line (cli_getenv cl s) tok)) in
     if args = [] then Inr (- 1, rep, s)
     else let (r, rep, s) = cmd_process (cli_table cl) flag args rep s in
       if had_ctrlc cl s then Inl (- 1, s) else Inr (if r \<noteq> 0 then - 1 else rc, rep, s))"

fun run_cmds :: "'s cli \<Rightarrow> u32 \<Rightarrow> u8 list list \<Rightarrow> int \<times> u32 \<times> 's \<Rightarrow> int \<times> 's" where
  "run_cmds cl flag [] (rc, rep, s) = (if rc \<noteq> 0 then rc else sint rep, s)"
| "run_cmds cl flag (t # ts) st =
     (case run_one cl flag t st of Inl r \<Rightarrow> r | Inr st' \<Rightarrow> run_cmds cl flag ts st')"

definition frame_ok :: "cli_frame \<Rightarrow> bool" where
  "frame_ok fr \<longleftrightarrow> length (cmdbuf fr) = CONFIG_SYS_CBSIZE \<and> length (finaltoken fr) = CONFIG_SYS_CBSIZE \<and>
     length (argv fr) = CONFIG_SYS_MAXARGS + 1"

definition cli_ok :: "'s cli \<Rightarrow> bool" where
  "cli_ok cl \<longleftrightarrow> (\<forall>s. env_ok (cli_getenv cl s))"

lemma those_map_Some: "(\<And>i. i < length xs \<Longrightarrow> f (xs ! i) = Some (ys ! i)) \<Longrightarrow> length ys = length xs \<Longrightarrow>
    those (map f xs) = Some ys"
proof (induction xs arbitrary: ys)
  case (Cons x xs)
  then obtain y ys' where "ys = y # ys'" by (cases ys) auto
  moreover have "f x = Some y" using Cons.prems(1)[of 0] calculation by simp
  moreover have "those (map f xs) = Some ys'"
    using Cons.prems calculation by (intro Cons.IH) (fastforce, simp)
  ultimately show ?case by simp
qed simp

lemma arg_strings_at:
  assumes "args_at m line av 0 ws" "length ws \<le> length av"
  shows "arg_strings m av (length ws) = Some ws"
  unfolding arg_strings_def
proof (rule those_map_Some)
  fix i assume "i < length (take (length ws) av)"
  then have "i < length ws" by simp
  with assms(1) obtain p where "av ! i = Some p" "cstring m p (ws ! i)" by (auto simp: args_at_def)
  with \<open>i < length ws\<close> show "(case take (length ws) av ! i of None \<Rightarrow> None | Some a \<Rightarrow> string_at m a) = Some (ws ! i)"
    by (simp add: string_at_cstring)
qed (use assms(2) in simp)

lemma length_words_of: "length (words_of n xs) \<le> n"
  by (induction n xs rule: words_of.induct) (auto simp: Let_def)

lemma run_token_one:
  assumes "frame_ok fr" "cli_ok cl" "cstring m tok xs" "length xs < CONFIG_SYS_CBSIZE"
  shows "run_token cl fr flag m tok st = Some (run_one cl flag xs st)"
proof -
  obtain rc rep s where st: "st = (rc, rep, s)" by (metis prod_cases3)
  let ?ys = "take (CONFIG_SYS_CBSIZE - 1) (expand_line (cli_getenv cl s) xs)"
  let ?ws = "words_of CONFIG_SYS_MAXARGS ?ys"
  obtain out where out: "cli_simple_process_macros (cli_getenv cl s) m tok (finaltoken fr) = Some out" "cstring out 0 ?ys"
    using process_macros_expand[OF _ assms(3,4), of "cli_getenv cl s" "finaltoken fr"] assms(1,2)
    by (auto simp: cli_ok_def frame_ok_def)
  obtain av m' where parse: "cli_simple_parse_line out 0 (argv fr) = Some (length ?ws, av, m')"
    "length av = CONFIG_SYS_MAXARGS + 1" "args_at m' 0 av 0 ?ws"
    using parse_line_words[OF out(2), of 0 "argv fr" ?ws] assms(1)
    by (auto simp: cli_simple_parse_line_def frame_ok_def)
  have "arg_strings m' av (length ?ws) = Some ?ws"
    using parse(2,3) length_words_of[of CONFIG_SYS_MAXARGS ?ys] by (intro arg_strings_at) auto
  with out(1) parse(1) show ?thesis
    by (simp add: st run_token_def run_one_def Let_def split: prod.splits)
qed

lemma run_loop_cmds:
  assumes "frame_ok fr" "cli_ok cl"
  shows "cstring m str xs \<Longrightarrow> length xs < CONFIG_SYS_CBSIZE \<Longrightarrow> (str = 0 \<longrightarrow> xs \<noteq> [] \<and> hd xs \<noteq> 39) \<Longrightarrow>
    (str \<noteq> 0 \<longrightarrow> m ! (str - 1) = 0 \<or> xs = []) \<Longrightarrow>
    run_loop cl fr flag m str st = Some (run_cmds cl flag (split_cmds xs) st)"
proof (induction xs arbitrary: m str st rule: split_cmds.induct)
  case (1 xs)
  show ?case
  proof (cases "xs = []")
    case True
    with 1(2) show ?thesis by (subst run_loop.simps) (auto simp: split_cmds.simps split: prod.splits)
  next
    case False
    define k where "k = cmd_end True 0 False xs"
    have k: "0 < k" "k \<le> length xs" using cmd_end_first[OF False] cmd_end_le[of True 0 False xs] by (simp_all add: k_def)
    have sep: "find_sep m str str False = Some (str + k)"
      unfolding k_def using 1(2,4,5) False by (intro find_sep_end) auto
    have c0: "str < length m" "m ! str \<noteq> 0" using 1(2) False by (cases xs; auto)+
    have len: "str + k < length m" using cstring_bound[OF 1(2)] k by simp
    define str' where "str' = (if m ! (str + k) \<noteq> 0 then str + k + 1 else str + k)"
    define m' where "m' = (if m ! (str + k) \<noteq> 0 then m[str + k := 0] else m)"
    have nz: "m ! (str + k) \<noteq> 0 \<longleftrightarrow> k < length xs"
      using cstring_nonzero[OF 1(2), of k] cstring_end[OF 1(2)] k(2) by (cases "k < length xs") auto
    have tok: "cstring m' str (take k xs)"
      using cstring_take[OF 1(2) k(2)] 1(2) nz k(2) by (auto simp: m'_def)
    have rest: "cstring m' str' (drop (k + 1) xs)"
    proof (cases "k < length xs")
      case True
      have "cstring m (str + (k + 1)) (drop (k + 1) xs)" using True by (intro cstring_drop[OF 1(2)]) simp
      then have "cstring (m[str + k := 0]) (str + (k + 1)) (drop (k + 1) xs)"
        by (rule cstring_frame) auto
      with nz True show ?thesis by (simp add: m'_def str'_def)
    next
      case False
      with nz len k(2) show ?thesis by (simp add: m'_def str'_def)
    qed
    have pre: "m' ! (str' - 1) = 0 \<or> drop (k + 1) xs = []"
      using nz len k(2) by (auto simp: m'_def str'_def)
    have tk: "run_token cl fr flag m' str st = Some (run_one cl flag (take k xs) st)"
      using 1(3) by (intro run_token_one[OF assms tok]) simp
    have loop: "run_loop cl fr flag m str st =
        (case run_one cl flag (take k xs) st of Inl r \<Rightarrow> Some r | Inr st' \<Rightarrow> run_loop cl fr flag m' str' st')"
      using c0 sep tk by (subst run_loop.simps) (simp add: m'_def str'_def Let_def split: sum.splits)
    have IH: "run_loop cl fr flag m' str' st' = Some (run_cmds cl flag (split_cmds (drop (k + 1) xs)) st')" for st'
      using rest pre 1(3) k False by (intro 1(1)[OF False k_def]) (auto simp: str'_def)
    have "split_cmds xs = take k xs # split_cmds (drop (k + 1) xs)"
      using False by (subst split_cmds.simps) (simp add: k_def Let_def)
    with loop IH show ?thesis by (simp split: sum.splits)
  qed
qed

text \<open>A single command line.\<close>

definition run_line :: "'s cli \<Rightarrow> u32 \<Rightarrow> u8 list \<Rightarrow> 's \<Rightarrow> int \<times> 's" where
  "run_line cl flag xs s =
     (let s = clear_ctrlc cl s in
      if xs = [] \<or> length xs \<ge> CONFIG_SYS_CBSIZE then (- 1, s) else run_cmds cl flag (split_cmds xs) (0, 1, s))"

lemma run_command_line:
  assumes "frame_ok fr" "cli_ok cl" "cstring m p xs" "xs \<noteq> [] \<Longrightarrow> hd xs \<noteq> 39"
  shows "cli_simple_run_command cl fr m (Some p) flag s = Some (run_line cl flag xs s)"
proof (cases "xs = [] \<or> length xs \<ge> CONFIG_SYS_CBSIZE")
  case True
  then show ?thesis
    using assms(3) by (auto simp: cli_simple_run_command_def run_line_def string_at_cstring Let_def)
next
  case False
  have z: "0 \<notin> set xs" using assms(3) by (simp add: cstring_iff)
  have len: "length xs < length (cmdbuf fr)" using False assms(1) by (simp add: frame_ok_def)
  have "cstring (blit (cmdbuf fr) 0 (xs @ [0])) 0 xs" using len z by (intro cstring_blit) auto
  with False assms len show ?thesis
    by (simp add: cli_simple_run_command_def run_line_def string_at_cstring Let_def run_loop_cmds)
qed

text \<open>The lines of a script, up to the first that fails.\<close>

fun run_lines :: "'s cli \<Rightarrow> u8 list \<Rightarrow> u8 list \<Rightarrow> 's \<Rightarrow> int \<times> 's" where
  "run_lines cl l [] s =
     (if l = [] then (0, s) else let (r, s) = run_line cl 0 l s in (if r < 0 then 1 else 0, s))"
| "run_lines cl l (c # xs) s =
     (if c = 10 then
        (if l = [] then run_lines cl [] xs s
         else let (r, s) = run_line cl 0 l s in if r < 0 then (1, s) else run_lines cl [] xs s)
      else run_lines cl (l @ [c]) xs s)"

definition no_leading_quote :: "u8 list \<Rightarrow> bool" where
  "no_leading_quote xs \<longleftrightarrow> (\<forall>i < length xs. xs ! i = 39 \<longrightarrow> 0 < i \<and> xs ! (i - 1) \<noteq> 10)"

definition list_end :: "'s cli \<Rightarrow> cli_frame \<Rightarrow> bool \<times> mem \<times> nat \<times> 's \<Rightarrow> (int \<times> mem \<times> 's) option" where
  "list_end cl fr r = (case r of (failed, m, line, s) \<Rightarrow>
     (if failed then Some (1, m, s)
      else do {
        c \<leftarrow> arr_get m line;
        (if c \<noteq> 0 then do {
           (r, s) \<leftarrow> cli_simple_run_command cl fr m (Some line) 0 s;
           Some (if r < 0 then 1 else 0, m, s)
         } else Some (0, m, s))
      }))"

lemma list_end_failed: "list_end cl fr (True, m, line, s) = Some (1, m, s)"
  by (simp add: list_end_def)

lemma run_command_list_end:
  "cli_simple_run_command_list cl fr m cmd s = Option.bind (run_list_loop cl fr m cmd cmd s) (list_end cl fr)"
  by (cases "run_list_loop cl fr m cmd cmd s") (simp_all add: cli_simple_run_command_list_def list_end_def)

lemma run_list_loop_lines:
  assumes ok: "frame_ok fr" "cli_ok cl"
  shows "cstring m line (l @ xs) \<Longrightarrow> no_leading_quote (l @ xs) \<Longrightarrow>
    \<exists>m'. Option.bind (run_list_loop cl fr m line (line + length l) s) (list_end cl fr) =
      Some (fst (run_lines cl l xs s), m', snd (run_lines cl l xs s))"
proof (induction xs arbitrary: m line l s)
  case Nil
  have l: "cstring m line l" using Nil.prems(1) by simp
  have hd: "l \<noteq> [] \<Longrightarrow> hd l \<noteq> 39"
    using Nil.prems(2) by (cases l) (auto simp: no_leading_quote_def)
  have "run_list_loop cl fr m line (line + length l) s = Some (False, m, line, s)"
    using cstring_bound[OF l] cstring_end[OF l] by (subst run_list_loop.simps) simp
  moreover have "m ! line \<noteq> 0 \<longleftrightarrow> l \<noteq> []" "line < length m"
    using l by (cases l; auto)+
  ultimately show ?case
    using run_command_line[OF ok l hd] by (auto simp: list_end_def split: prod.splits)
next
  case (Cons c xs)
  have at: "line + length l < length m" "m ! (line + length l) = c" "c \<noteq> 0"
    using cstring_bound[OF Cons.prems(1)] cstring_nth[OF Cons.prems(1), of "length l"]
      cstring_nonzero[OF Cons.prems(1), of "length l"] by auto
  show ?case
  proof (cases "c = 10")
    case False
    have "run_list_loop cl fr m line (line + length l) s = run_list_loop cl fr m line (line + length (l @ [c])) s"
      using at False by (subst run_list_loop.simps) simp
    with Cons.IH[of m line "l @ [c]" s] Cons.prems False show ?thesis by simp
  next
    case True
    define m1 where "m1 = m[line + length l := 0]"
    have l: "cstring m1 line l" using cstring_take[OF Cons.prems(1), of "length l"] by (simp add: m1_def)
    have "cstring m (line + (length l + 1)) xs"
      using cstring_drop[OF Cons.prems(1), of "length l + 1"] by simp
    then have rest: "cstring m1 (line + length l + 1) xs"
      by (auto simp: m1_def intro: cstring_frame[of m])
    have hd: "l \<noteq> [] \<Longrightarrow> hd l \<noteq> 39"
      using Cons.prems(2) by (cases l) (auto simp: no_leading_quote_def)
    have q: "no_leading_quote xs"
      unfolding no_leading_quote_def
    proof (intro allI impI)
      fix i assume "i < length xs" "xs ! i = 39"
      with Cons.prems(2) have "(l @ c # xs) ! (length l + 1 + i - 1) \<noteq> 10"
        unfolding no_leading_quote_def by (auto dest: spec[of _ "length l + 1 + i"] simp: nth_append)
      with True show "0 < i \<and> xs ! (i - 1) \<noteq> 10" by (cases i) (auto simp: nth_append)
    qed
    have nz: "m1 ! line \<noteq> 0 \<longleftrightarrow> l \<noteq> []" using l by (cases l) auto
    have IH: "\<exists>m'. Option.bind (run_list_loop cl fr m1 (line + length l + 1) (line + length l + 1) s') (list_end cl fr) =
        Some (fst (run_lines cl [] xs s'), m', snd (run_lines cl [] xs s'))" for s'
      using Cons.IH[of m1 "line + length l + 1" "[]" s'] rest q by simp
    obtain r s1 where r: "run_line cl 0 l s = (r, s1)" by fastforce
    have "run_list_loop cl fr m line (line + length l) s =
        (if l \<noteq> [] then (if r < 0 then Some (True, m1, line, s1) else run_list_loop cl fr m1 (line + length l + 1) (line + length l + 1) s1)
         else run_list_loop cl fr m1 (line + length l + 1) (line + length l + 1) s)"
      using at True nz run_command_line[OF ok l hd, of 0 s] r
      by (subst run_list_loop.simps) (simp add: m1_def Let_def)
    with IH[of s] IH[of s1] True r show ?thesis by (auto simp: list_end_failed)
  qed
qed

section \<open>Properties\<close>

text \<open>C13: a line is executed command by command. For every string that fits the buffer and does not
  start with a quote, whatever the stack contains and whatever the commands do,
  \<open>cli_simple_run_command\<close> stays inside its arrays and returns, and it has done exactly this: cut
  the line at the separators, and for each part in turn, in the environment the commands before it
  have left, replaced the variables, cut the result into words and called the command, until the
  end or a control-C; the result is \<open>-1\<close> after any failure and otherwise whether the line may be
  repeated. An empty or too long line does nothing.
\<close>

theorem cli_run_command_correct:
  assumes "frame_ok fr" and "cli_ok cl" and "cstring m p xs" and "xs \<noteq> [] \<longrightarrow> hd xs \<noteq> 39"
  shows "cli_simple_run_command cl fr m (Some p) flag s =
    Some (let s = clear_ctrlc cl s in
      if xs = [] \<or> length xs \<ge> CONFIG_SYS_CBSIZE then (- 1, s) else run_cmds cl flag (split_cmds xs) (0, 1, s))"
  using run_command_line[OF assms(1-3)] assms(4) by (simp add: run_line_def)

text \<open>\<open>cli_simple_run_command_list\<close> runs the lines of a script in order: every non-empty line up to
  the first that fails, and it reports whether one failed. It stays inside the script, in which it
  replaces line feeds by terminators.
\<close>

theorem cli_run_list_correct:
  assumes "frame_ok fr" and "cli_ok cl" and "cstring m p xs" and "no_leading_quote xs"
  shows "\<exists>m'. cli_simple_run_command_list cl fr m p s = Some (fst (run_lines cl [] xs s), m', snd (run_lines cl [] xs s))"
  using run_list_loop_lines[OF assms(1,2), of m p "[]" xs s] assms(3,4)
  by (simp add: run_command_list_end)

text \<open>A command is found by its full name (up to a dot) or else by a prefix that only one command of
  the table has; an ambiguous prefix or an unknown name finds nothing.
\<close>

theorem find_cmd_correct:
  assumes "0 \<notin> set cmd" and "table_ok table"
  shows "find_cmd_tbl cmd table =
    (case find (\<lambda>c. cmd_name c = base_name cmd) table of
       Some c \<Rightarrow> Some c
     | None \<Rightarrow>
         (case filter (\<lambda>c. \<exists>r. cmd_name c = base_name cmd @ r) table of [c] \<Rightarrow> Some c | _ \<Rightarrow> None))"
proof -
  have len: "(if 46 \<in> set cmd then length (takeWhile (\<lambda>c. c \<noteq> 46) cmd) else length cmd) = length (base_name cmd)"
    by (auto simp: base_name_def) (metis (mono_tags, lifting) takeWhile_eq_all_conv)
  have "0 \<notin> set (base_name cmd)" using assms(1) by (auto simp: base_name_def dest: set_takeWhileD)
  moreover have "take (length (base_name cmd)) cmd = base_name cmd" by (simp add: base_name_def flip: takeWhile_eq_take)
  ultimately have "find_cmd_tbl cmd table =
    (case find (\<lambda>c. cmd_name c = base_name cmd) table of
       Some c \<Rightarrow> Some c
     | None \<Rightarrow>
         (let cs = filter (\<lambda>c. \<exists>r. cmd_name c = base_name cmd @ r) table
          in if 0 + length cs \<noteq> 1 then None else if cs = [] then None else Some (last cs)))"
    unfolding find_cmd_tbl_def len Let_def[of "length _"]
    using assms(2) by (intro find_cmd_loop_eq) (auto simp: table_ok_def)
  then show ?thesis by (auto simp: Let_def length_Suc_conv split: option.splits list.splits)
qed

section \<open>The notation for variables and quotes\<close>

text \<open>
  The pieces a line is written in: a character, a character behind a backslash, a dollar sign
  that starts no variable, a variable in braces or parentheses, and quoted text.
\<close>

datatype segment = Plain u8 | Escaped u8 | Dollar u8 | Var bool "u8 list" | Quoted "u8 list"

fun render :: "segment \<Rightarrow> u8 list" where
  "render (Plain c) = [c]"
| "render (Escaped c) = [92, c]"
| "render (Dollar c) = [36, c]"
| "render (Var brace nm) = 36 # (if brace then 123 else 40) # nm @ [if brace then 125 else 41]"
| "render (Quoted cs) = 39 # cs @ [39]"

fun segment_ok :: "segment \<Rightarrow> bool" where
  "segment_ok (Plain c) \<longleftrightarrow> c \<notin> {36, 39, 92}"
| "segment_ok (Escaped c) \<longleftrightarrow> c \<noteq> 92"
| "segment_ok (Dollar c) \<longleftrightarrow> c \<notin> {40, 92, 123}"
| "segment_ok (Var brace nm) \<longleftrightarrow> set nm \<inter> {41, 92, 125} = {}"
| "segment_ok (Quoted cs) \<longleftrightarrow> 39 \<notin> set cs \<and> (cs = [] \<or> last cs \<noteq> 92)"

fun meaning :: "(u8 list \<Rightarrow> u8 list option) \<Rightarrow> segment \<Rightarrow> u8 list" where
  "meaning getenv (Plain c) = [c]"
| "meaning getenv (Escaped c) = [c]"
| "meaning getenv (Dollar c) = [36, c]"
| "meaning getenv (Var brace nm) = (case getenv nm of None \<Rightarrow> [] | Some v \<Rightarrow> v)"
| "meaning getenv (Quoted cs) = cs"

lemma expand_name:
  "set nm \<inter> {41, 92, 125} = {} \<Longrightarrow> c = 41 \<or> c = 125 \<Longrightarrow>
   expand getenv 2 prev acc (nm @ c # xs) =
     (case getenv (acc @ nm) of None \<Rightarrow> [] | Some v \<Rightarrow> v) @ expand getenv 0 c [] xs"
proof (induction nm arbitrary: prev acc)
  case Nil
  then show ?case by (subst append_Nil, subst expand_char) (auto simp: macro_out_def)
next
  case (Cons a nm)
  have "expand getenv 2 prev acc (a # nm @ c # xs) = [] @ expand getenv 2 a (acc @ [a]) (nm @ c # xs)"
    using Cons.prems by (intro expand_char) (auto simp: macro_out_def)
  with Cons show ?case by simp
qed

lemma expand_quoted:
  "39 \<notin> set cs \<Longrightarrow> (if cs = [] then prev else last cs) \<noteq> 92 \<Longrightarrow>
   expand getenv 3 prev nm (cs @ 39 # xs) = cs @ expand getenv 0 39 nm xs"
proof (induction cs arbitrary: prev)
  case Nil
  then show ?case by (subst append_Nil, subst expand_char) (auto simp: macro_out_def)
next
  case (Cons a cs)
  have "expand getenv 3 prev nm (a # cs @ 39 # xs) = [a] @ expand getenv 3 a nm (cs @ 39 # xs)"
    using Cons.prems by (intro expand_char) (auto simp: macro_out_def)
  with Cons.IH[of a] Cons.prems show ?case by (auto split: if_splits)
qed

lemma expand_segment:
  assumes "segment_ok sg" "prev \<noteq> 92"
  shows "\<exists>prev' nm'. prev' \<noteq> 92 \<and> expand getenv 0 prev nm (render sg @ xs) = meaning getenv sg @ expand getenv 0 prev' nm' xs"
proof (cases sg)
  case (Plain c)
  have "expand getenv 0 prev nm (c # xs) = [c] @ expand getenv 0 c nm xs"
    using assms Plain by (intro expand_char) (auto simp: macro_out_def)
  with Plain assms show ?thesis by auto
next
  case (Escaped c)
  have "expand getenv 0 prev nm (92 # c # xs) = [c] @ expand getenv 0 c nm xs"
    using assms Escaped by (intro expand_escape) (auto simp: macro_out_def)
  with Escaped assms show ?thesis by auto
next
  case (Dollar c)
  have "expand getenv 0 prev nm (36 # c # xs) = [] @ expand getenv 1 36 nm (c # xs)"
    using assms Dollar by (intro expand_char) (auto simp: macro_out_def)
  also have "expand getenv 1 36 nm (c # xs) = [36, c] @ expand getenv 0 c nm xs"
    using assms Dollar by (intro expand_char) (auto simp: macro_out_def)
  finally show ?thesis using Dollar assms by auto
next
  case (Var brace vn)
  let ?o = "if brace then 123 else 40 :: u8" and ?c = "if brace then 125 else 41 :: u8"
  have "expand getenv 0 prev nm (36 # ?o # vn @ ?c # xs) = [] @ expand getenv 1 36 nm (?o # vn @ ?c # xs)"
    using assms by (intro expand_char) (auto simp: macro_out_def)
  also have "expand getenv 1 36 nm (?o # vn @ ?c # xs) = [] @ expand getenv 2 ?o [] (vn @ ?c # xs)"
    by (intro expand_char) (auto simp: macro_out_def)
  also have "expand getenv 2 ?o [] (vn @ ?c # xs) = meaning getenv sg @ expand getenv 0 ?c [] xs"
    using assms Var by (subst expand_name) auto
  finally show ?thesis using Var by (intro exI[of _ ?c] exI[of _ "[]"]) auto
next
  case (Quoted cs)
  have "expand getenv 0 prev nm (39 # cs @ 39 # xs) = [] @ expand getenv 3 39 nm (cs @ 39 # xs)"
    using assms by (intro expand_char) (auto simp: macro_out_def)
  also have "expand getenv 3 39 nm (cs @ 39 # xs) = cs @ expand getenv 0 39 nm xs"
    using assms Quoted by (intro expand_quoted) auto
  finally show ?thesis using Quoted by (intro exI[of _ 39] exI[of _ nm]) auto
qed

lemma expand_segments:
  "list_all segment_ok sgs \<Longrightarrow> prev \<noteq> 92 \<Longrightarrow>
   expand getenv 0 prev nm (concat (map render sgs)) = concat (map (meaning getenv) sgs)"
proof (induction sgs arbitrary: prev nm)
  case (Cons sg sgs)
  obtain prev' nm' where "prev' \<noteq> 92" "expand getenv 0 prev nm (render sg @ concat (map render sgs)) =
      meaning getenv sg @ expand getenv 0 prev' nm' (concat (map render sgs))"
    using expand_segment[of sg prev getenv nm "concat (map render sgs)"] Cons.prems by auto
  with Cons show ?case by simp
qed simp

text \<open>C24: variable replacement. For a line made of plain and escaped characters, quoted text, and
  variables in braces or parentheses, \<open>cli_simple_process_macros\<close> writes the line with the quotes and
  escapes removed and the variables replaced by their values (by nothing, where they are not set),
  cut to the size of the output buffer and terminated, whatever the length of the values.
\<close>

theorem process_macros_correct:
  assumes "list_all segment_ok sgs" and "cstring inp input (concat (map render sgs))"
    and "length (concat (map render sgs)) < CONFIG_SYS_CBSIZE" and "CONFIG_SYS_CBSIZE \<le> length output"
    and "env_ok getenv"
  shows "\<exists>out. cli_simple_process_macros getenv inp input output = Some out \<and> length out = length output \<and>
    cstring out 0 (take (CONFIG_SYS_CBSIZE - 1) (concat (map (meaning getenv) sgs)))"
proof -
  have "expand_line getenv (concat (map render sgs)) = concat (map (meaning getenv) sgs)"
    using assms(1) by (intro expand_segments) simp_all
  with process_macros_expand[OF assms(5,2,3,4)] show ?thesis by simp
qed

section \<open>Samples\<close>

text \<open>A command \<open>ec\<close> that records its arguments, and a variable \<open>x\<close>.\<close>

definition sample_cmd :: "u8 list list list cmd_tbl" where
  "sample_cmd = \<lparr>cmd_name = [101, 99], maxargs = 3, repeatable = 1, cmd_fn = (\<lambda>s flag args. (0, s @ [args])),
     is_do_bootd = False\<rparr>"

definition sample_getenv :: "u8 list \<Rightarrow> u8 list option" where
  "sample_getenv nm = (if nm = [120] then Some [104, 105] else None)"

definition sample_cli :: "u8 list list list cli" where
  "sample_cli = \<lparr>cli_table = [sample_cmd], cli_getenv = (\<lambda>s. sample_getenv), clear_ctrlc = (\<lambda>s. s), had_ctrlc = (\<lambda>s. False)\<rparr>"

definition sample_frame :: cli_frame where
  "sample_frame = \<lparr>cmdbuf = replicate 1024 255, finaltoken = replicate 1024 255, argv = replicate 65 None\<rparr>"

lemma sample_cli_ok: "frame_ok sample_frame" "cli_ok sample_cli" "env_ok sample_getenv"
  by (simp_all add: frame_ok_def sample_frame_def CONFIG_SYS_CBSIZE_def CONFIG_SYS_MAXARGS_def cli_ok_def sample_cli_def
      env_ok_def sample_getenv_def)

text \<open>The line \<open>ec a;e ${x}\<close>, and the same two commands on two lines\<close>

definition sample_line :: "u8 list" where
  "sample_line = [101, 99, 32, 97, 59, 101, 32, 36, 123, 120, 125]"

definition sample_script :: "u8 list" where
  "sample_script = [101, 99, 32, 97, 10, 101, 32, 36, 123, 120, 125]"

theorem cli_run_command_correct_witness:
  "cli_simple_run_command sample_cli sample_frame (sample_line @ [0]) (Some 0) 0 [] =
     Some (1, [[[101, 99], [97]], [[101], [104, 105]]])"
proof -
  have "cstring (sample_line @ [0]) 0 sample_line" by (simp add: sample_line_def)
  moreover have "(let s = clear_ctrlc sample_cli [] in
      if sample_line = [] \<or> length sample_line \<ge> CONFIG_SYS_CBSIZE then (- 1, s)
      else run_cmds sample_cli 0 (split_cmds sample_line) (0, 1, s)) = (1, [[[101, 99], [97]], [[101], [104, 105]]])"
    by code_simp
  ultimately show ?thesis
    using cli_run_command_correct[OF sample_cli_ok(1,2), of "sample_line @ [0]" 0 sample_line 0 "[]"]
    by (simp add: sample_line_def)
qed

theorem cli_run_list_correct_witness:
  "\<exists>m'. cli_simple_run_command_list sample_cli sample_frame (sample_script @ [0]) 0 [] =
     Some (0, m', [[[101, 99], [97]], [[101], [104, 105]]])"
proof -
  have "cstring (sample_script @ [0]) 0 sample_script" by (simp add: sample_script_def)
  moreover have "39 \<notin> set sample_script" by (simp add: sample_script_def)
  then have "no_leading_quote sample_script" unfolding no_leading_quote_def by (metis nth_mem)
  moreover have "run_lines sample_cli [] sample_script [] = (0, [[[101, 99], [97]], [[101], [104, 105]]])"
    by code_simp
  ultimately show ?thesis
    using cli_run_list_correct[OF sample_cli_ok(1,2), of "sample_script @ [0]" 0 sample_script "[]"] by simp
qed

theorem find_cmd_correct_witness:
  "find_cmd_tbl [101, 46, 98] [sample_cmd] = Some sample_cmd"
  using find_cmd_correct[of "[101, 46, 98]" "[sample_cmd]"]
  by (simp add: table_ok_def sample_cmd_def base_name_def)

theorem process_macros_correct_witness:
  "\<exists>out. cli_simple_process_macros sample_getenv [97, 36, 123, 120, 125, 39, 36, 39, 0] 0 (replicate 1024 255) = Some out \<and>
     cstring out 0 [97, 104, 105, 36]"
  using process_macros_correct[of "[Plain 97, Var True [120], Quoted [36]]" "[97, 36, 123, 120, 125, 39, 36, 39, 0]" 0
      "replicate 1024 255" sample_getenv] sample_cli_ok(3)
  by (auto simp: CONFIG_SYS_CBSIZE_def sample_getenv_def)

section \<open>Where the code falls short\<close>

text \<open>
  The search for separators looks at the character before a quote, also when the quote is the first
  character of the buffer: the byte before \<open>cmdbuf\<close> decides whether it counts.
\<close>

lemma leading_quote_reads_outside:
  assumes "cstring m p (39 # xs)" "length xs + 1 < CONFIG_SYS_CBSIZE" "frame_ok fr"
  shows "cli_simple_run_command cl fr m (Some p) flag s = None"
proof -
  have len: "Suc (length xs) < length (cmdbuf fr)" using assms(2,3) by (simp add: frame_ok_def)
  let ?m = "blit (cmdbuf fr) 0 (39 # xs @ [0])"
  have "0 < length ?m" "?m ! 0 = 39" using len by (auto simp: blit_def)
  then have "run_loop cl fr flag ?m 0 st = None" for st
    by (subst run_loop.simps, subst find_sep.simps) (simp add: toggles_quote_def char_before_def)
  then show ?thesis
    using assms(2) len string_at_cstring[OF assms(1)] by (simp add: cli_simple_run_command_def Let_def)
qed

text \<open>An escaped backslash hides the character behind it as well: in \<open>\\${x}\<close> the variable is not
  replaced.\<close>

lemma escaped_backslash_escapes:
  "expand_line getenv [92, 92, 36, 123, 120, 125] = [92, 36, 123, 120, 125]"
  by (simp add: macro_out_def)

end
