(* ===== verification/Rsa.thy ===== *)
theory Rsa
  imports Stream_Hash
begin

text \<open>
  RSA signature checks: the Montgomery arithmetic of lib/rsa/rsa-mod-exp.c and the check of a
  PKCS#1 v1.5 signature in lib/rsa/rsa-verify.c. Numbers are arrays of 32-bit words, least
  significant first; products are accumulated in 64-bit words. Arrays are lists, and \<open>None\<close> is an
  access outside of one; errors are values.
\<close>

section \<open>Model\<close>

record rsa_public_key =
  klen :: nat
  n0inv :: u32
  modulus :: "u32 list"
  rr :: "u32 list"
  exponent :: u64

datatype rsa_error = RSA_EIO | RSA_EINVAL | RSA_EACCES | RSA_EFAULT | RSA_EBADF

text \<open>The accumulator of \<open>subtract_modulus\<close> is a signed 64-bit number between \<open>- 2 ^ 32\<close> and \<open>2 ^ 32\<close>;
  its shift to the right rounds down.\<close>

function sub_loop :: "rsa_public_key \<Rightarrow> u32 list \<Rightarrow> int \<Rightarrow> nat \<Rightarrow> u32 list option" where
  "sub_loop key num acc i =
     (if i < klen key then
        (case (arr_get num i, arr_get (modulus key) i) of
           (Some x, Some m) \<Rightarrow>
             (let acc = acc + (uint x - uint m)
              in sub_loop key (num[i := word_of_int acc]) (acc div 2 ^ 32) (i + 1))
         | _ \<Rightarrow> None)
      else Some num)"
  by pat_completeness auto
termination
  by (relation "measure (\<lambda>(key, num, acc, i). klen key - i)") auto

declare sub_loop.simps [simp del]

definition subtract_modulus :: "rsa_public_key \<Rightarrow> u32 list \<Rightarrow> u32 list option" where
  "subtract_modulus key num = sub_loop key num 0 0"

fun ge_loop :: "rsa_public_key \<Rightarrow> u32 list \<Rightarrow> nat \<Rightarrow> bool option" where
  "ge_loop key num 0 = Some True"
| "ge_loop key num (Suc i) = do {
     x \<leftarrow> arr_get num i;
     m \<leftarrow> arr_get (modulus key) i;
     (if x < m then Some False else if x > m then Some True else ge_loop key num i)
   }"

definition greater_equal_modulus :: "rsa_public_key \<Rightarrow> u32 list \<Rightarrow> bool option" where
  "greater_equal_modulus key num = ge_loop key num (klen key)"

function step_loop :: "rsa_public_key \<Rightarrow> u32 \<Rightarrow> u32 \<Rightarrow> u32 list \<Rightarrow> u32 list \<Rightarrow> u64 \<Rightarrow> u64 \<Rightarrow> nat \<Rightarrow>
    (u32 list \<times> u64 \<times> u64 \<times> nat) option" where
  "step_loop key a d0 b result acc_a acc_b i =
     (if i < klen key then
        (case (arr_get b i, arr_get result i, arr_get (modulus key) i) of
           (Some bi, Some ri, Some mi) \<Rightarrow>
             (let acc_a = drop_bit 32 acc_a + ucast a * ucast bi + ucast ri;
                  acc_b = drop_bit 32 acc_b + ucast d0 * ucast mi + ucast (ucast acc_a :: u32)
              in step_loop key a d0 b (result[i - 1 := ucast acc_b]) acc_a acc_b (i + 1))
         | _ \<Rightarrow> None)
      else Some (result, acc_a, acc_b, i))"
  by pat_completeness auto
termination
  by (relation "measure (\<lambda>(key, a, d0, b, result, acc_a, acc_b, i). klen key - i)") auto

declare step_loop.simps [simp del]

definition montgomery_mul_add_step :: "rsa_public_key \<Rightarrow> u32 list \<Rightarrow> u32 \<Rightarrow> u32 list \<Rightarrow> u32 list option" where
  "montgomery_mul_add_step key result a b = do {
     b0 \<leftarrow> arr_get b 0;
     r0 \<leftarrow> arr_get result 0;
     m0 \<leftarrow> arr_get (modulus key) 0;
     let acc_a = (ucast a * ucast b0 + ucast r0 :: u64);
     let d0 = ucast acc_a * n0inv key;
     let acc_b = (ucast d0 * ucast m0 + ucast (ucast acc_a :: u32) :: u64);
     (result, acc_a, acc_b, i) \<leftarrow> step_loop key a d0 b result acc_a acc_b 1;
     let acc_a = drop_bit 32 acc_a + drop_bit 32 acc_b;
     result \<leftarrow> arr_set result (i - 1) (ucast acc_a);
     (if drop_bit 32 acc_a \<noteq> 0 then subtract_modulus key result else Some result)
   }"

text \<open>The two loops of \<open>montgomery_mul\<close>; \<open>result\<close> has its old content.\<close>

fun zero_loop :: "u32 list \<Rightarrow> nat \<Rightarrow> u32 list option" where
  "zero_loop result 0 = Some result"
| "zero_loop result (Suc n) = do { result \<leftarrow> zero_loop result n; arr_set result n 0 }"

fun mul_loop :: "rsa_public_key \<Rightarrow> u32 list \<Rightarrow> u32 list \<Rightarrow> u32 list \<Rightarrow> nat \<Rightarrow> u32 list option" where
  "mul_loop key result a b 0 = Some result"
| "mul_loop key result a b (Suc i) = do {
     result \<leftarrow> mul_loop key result a b i;
     ai \<leftarrow> arr_get a i;
     montgomery_mul_add_step key result ai b
   }"

definition montgomery_mul :: "rsa_public_key \<Rightarrow> u32 list \<Rightarrow> u32 list \<Rightarrow> u32 list \<Rightarrow> u32 list option" where
  "montgomery_mul key result a b = do {
     result \<leftarrow> zero_loop result (klen key);
     mul_loop key result a b (klen key)
   }"

text \<open>\<open>exponent_bits\<close> counts from 1 up to 64; \<open>n\<close> is what is left of that range.\<close>

fun bits_loop :: "u64 \<Rightarrow> nat \<Rightarrow> nat \<Rightarrow> nat option" where
  "bits_loop e exponent_bits 0 = None"
| "bits_loop e exponent_bits (Suc n) =
     (let e = drop_bit 1 e in if e = 0 then Some exponent_bits else bits_loop e (exponent_bits + 1) n)"

definition num_public_exponent_bits :: "rsa_public_key \<Rightarrow> nat option" where
  "num_public_exponent_bits key = (if exponent key = 0 then Some 0 else bits_loop (exponent key) 1 64)"

text \<open>The result of the mask is returned as an \<open>int\<close>, that is, its low 32 bits.\<close>

definition is_public_exponent_bit_set :: "rsa_public_key \<Rightarrow> nat \<Rightarrow> bool" where
  "is_public_exponent_bit_set key pos \<longleftrightarrow> (ucast (exponent key AND push_bit pos 1) :: u32) \<noteq> 0"

definition RSA_MIN_KEY_BITS :: nat where "RSA_MIN_KEY_BITS = 2048"

definition RSA_MAX_KEY_BITS :: nat where "RSA_MAX_KEY_BITS = 4096"

definition RSA_MAX_SIG_BITS :: nat where "RSA_MAX_SIG_BITS = 4096"

definition RSA_DEFAULT_PUBEXP :: u64 where "RSA_DEFAULT_PUBEXP = 65537"

fun pow_loop :: "rsa_public_key \<Rightarrow> u32 list \<Rightarrow> nat \<Rightarrow> u32 list \<Rightarrow> u32 list \<Rightarrow> (u32 list \<times> u32 list) option" where
  "pow_loop key a_scaled 0 acc tmp = Some (acc, tmp)"
| "pow_loop key a_scaled (Suc j) acc tmp = do {
     tmp \<leftarrow> montgomery_mul key tmp acc acc;
     acc \<leftarrow> (if is_public_exponent_bit_set key (Suc j) then montgomery_mul key acc tmp a_scaled else Some tmp);
     pow_loop key a_scaled j acc tmp
   }"

text \<open>Big-endian bytes to little-endian words and back\<close>

definition load_be_words :: "u8 list \<Rightarrow> nat \<Rightarrow> u32 list option" where
  "load_be_words bytes len =
     (if 4 * len \<le> length bytes then Some (map (\<lambda>i. get_be32 bytes (4 * (len - 1 - i))) [0..<len]) else None)"

definition store_be_words :: "u8 list \<Rightarrow> u32 list \<Rightarrow> u8 list" where
  "store_be_words bytes ws = blit bytes 0 (concat (map be32 (rev ws)))"

text \<open>\<open>junk\<close> is the content of the uninitialised arrays.\<close>

definition pow_mod :: "rsa_public_key \<Rightarrow> u32 list \<Rightarrow> u8 list \<Rightarrow> (rsa_error + u8 list) option" where
  "pow_mod key junk inout =
     (if klen key > RSA_MAX_KEY_BITS div 32 then Some (Inl RSA_EINVAL)
      else do {
        val \<leftarrow> load_be_words inout (klen key);
        (case num_public_exponent_bits key of
           None \<Rightarrow> Some (Inl RSA_EINVAL)
         | Some k \<Rightarrow>
             (if k < 2 then Some (Inl RSA_EINVAL)
              else if \<not> is_public_exponent_bit_set key 0 then Some (Inl RSA_EINVAL)
              else do {
                acc \<leftarrow> montgomery_mul key junk val (rr key);
                (acc, tmp) \<leftarrow> pow_loop key acc (k - 2) acc junk;
                tmp \<leftarrow> montgomery_mul key tmp acc acc;
                acc \<leftarrow> montgomery_mul key acc tmp val;
                ge \<leftarrow> greater_equal_modulus key acc;
                result \<leftarrow> (if ge then subtract_modulus key acc else Some acc);
                Some (Inr (store_be_words inout result))
              }))
      })"

record key_prop =
  p_rr :: "u8 list option"
  p_modulus :: "u8 list option"
  p_public_exponent :: "u8 list option"
  p_n0inv :: u32
  p_num_bits :: nat

definition fdt64_to_cpu :: "u8 list \<Rightarrow> u64 option" where
  "fdt64_to_cpu bs = (if 8 \<le> length bs then Some (push_bit 32 (ucast (get_be32 bs 0)) OR ucast (get_be32 bs 4)) else None)"

definition rsa_mod_exp_sw :: "u32 list \<Rightarrow> u8 list \<Rightarrow> nat \<Rightarrow> key_prop option \<Rightarrow> (rsa_error + u8 list) option" where
  "rsa_mod_exp_sw junk sig sig_len prop =
     (case prop of
        None \<Rightarrow> Some (Inl RSA_EBADF)
      | Some prop \<Rightarrow> do {
          e \<leftarrow> (case p_public_exponent prop of None \<Rightarrow> Some RSA_DEFAULT_PUBEXP | Some bs \<Rightarrow> fdt64_to_cpu bs);
          (case (p_modulus prop, p_rr prop) of
             (Some m, Some r) \<Rightarrow>
               (if p_num_bits prop = 0 then Some (Inl RSA_EFAULT)
                else if p_num_bits prop > RSA_MAX_KEY_BITS \<or> p_num_bits prop < RSA_MIN_KEY_BITS then Some (Inl RSA_EFAULT)
                else let len = p_num_bits prop div 32 in
                  do {
                    m \<leftarrow> load_be_words m len;
                    r \<leftarrow> load_be_words r len;
                    (if length sig < sig_len \<or> 4 * (sig_len div 4) < sig_len then None
                     else pow_mod \<lparr>klen = len, n0inv = p_n0inv prop, modulus = m, rr = r, exponent = e\<rparr> junk (take sig_len sig))
                  })
           | _ \<Rightarrow> Some (Inl RSA_EFAULT))
        })"

record checksum_algo =
  a_rsa_padding :: "u8 list"
  a_pad_len :: nat
  a_checksum_len :: nat

text \<open>\<open>rsa_verify_key\<close> of lib/rsa/rsa-verify.c; \<open>device\<close> says whether the modular exponentiation device is
  there, and the exponentiation is the software one. \<open>None\<close> is a comparison that is asked to go past the
  end of an array; the number of key bits and the lengths are not negative.\<close>

definition rsa_verify_key :: "u32 list \<Rightarrow> bool \<Rightarrow> key_prop option \<Rightarrow> u8 list \<Rightarrow> nat \<Rightarrow> u8 list \<Rightarrow> checksum_algo \<Rightarrow>
    (rsa_error option) option" where
  "rsa_verify_key junk device prop sig sig_len hash algo =
     (case prop of
        None \<Rightarrow> Some (Some RSA_EIO)
      | Some p \<Rightarrow>
          (if sig_len \<noteq> p_num_bits p div 8 then Some (Some RSA_EINVAL)
           else if sig_len > RSA_MAX_SIG_BITS div 8 then Some (Some RSA_EINVAL)
           else if \<not> device then Some (Some RSA_EINVAL)
           else do {
             r \<leftarrow> rsa_mod_exp_sw junk sig sig_len prop;
             (case r of
                Inl e \<Rightarrow> Some (Some e)
              | Inr buf \<Rightarrow>
                  (let pad_len = a_pad_len algo - a_checksum_len algo in
                   if a_pad_len algo < a_checksum_len algo \<or> length buf < pad_len \<or> length (a_rsa_padding algo) < pad_len then None
                   else if take pad_len buf \<noteq> take pad_len (a_rsa_padding algo) then Some (Some RSA_EINVAL)
                   else if length hash < sig_len - pad_len then None
                   else if take (sig_len - pad_len) (drop pad_len buf) \<noteq> take (sig_len - pad_len) hash
                   then Some (Some RSA_EACCES)
                   else Some None))
           }))"

section \<open>Numbers\<close>

abbreviation (input) W :: nat where "W \<equiv> 2 ^ 32"

fun num :: "u32 list \<Rightarrow> nat" where
  "num [] = 0"
| "num (x # xs) = unat x + W * num xs"

lemma num_append: "num (xs @ ys) = num xs + W ^ length xs * num ys"
  by (induction xs) (simp_all add: algebra_simps)

lemma num_less: "num xs < W ^ length xs"
proof (induction xs)
  case (Cons x xs)
  have "unat x + W * num xs < W + W * num xs" using unat_u32_less[of x] by simp
  also have "\<dots> = W * Suc (num xs)" by simp
  also have "\<dots> \<le> W * W ^ length xs" using Cons by (intro mult_le_mono2) simp
  finally show ?case by simp
qed simp

lemma num_take_Suc: "i < length xs \<Longrightarrow> num (take (Suc i) xs) = num (take i xs) + W ^ i * unat (xs ! i)"
  by (simp add: take_Suc_conv_app_nth num_append)

lemma num_replicate_0 [simp]: "num (replicate n 0) = 0"
  by (induction n) simp_all

lemma high_word: "unat (drop_bit 32 (x :: u64)) = unat x div W"
  by (simp only: unat_drop_bit_eq drop_bit_eq_div[where ?'a = nat])

text \<open>The multiply-and-add of two words and two carries never overflows 64 bits.\<close>

lemma mac_exact:
  "unat (drop_bit 32 x + ucast (a :: u32) * ucast (b :: u32) + ucast (c :: u32) :: u64) =
     unat x div W + unat a * unat b + unat c"
proof -
  have lt: "unat a \<le> W - 1" "unat b \<le> W - 1" "unat c \<le> W - 1" "unat x div W \<le> W - 1"
    using unat_u32_less[of a] unat_u32_less[of b] unat_u32_less[of c] unsigned_less[of x, where ?'a = nat] by auto
  have "unat a * unat b \<le> (W - 1) * (W - 1)" using lt by (intro mult_le_mono) auto
  then have sum: "unat x div W + unat a * unat b + unat c < 2 ^ 64" using lt by simp
  have u: "unat (ucast a :: u64) = unat a" "unat (ucast b :: u64) = unat b" "unat (ucast c :: u64) = unat c"
    using lt by (simp_all add: unat_ucast_mod)
  have "unat (ucast a * ucast b :: u64) = unat a * unat b"
    using sum u by (subst unat_mult_nowrap) auto
  with sum u high_word[of x] show ?thesis
    by (subst unat_plus_nowrap; (subst unat_plus_nowrap)?) auto
qed

lemma low_word: "unat (ucast (x :: u64) :: u32) = unat x mod W"
  by (simp add: unat_ucast_mod)

definition key_ok :: "rsa_public_key \<Rightarrow> bool" where
  "key_ok key \<longleftrightarrow> 0 < klen key \<and> length (modulus key) = klen key \<and> length (rr key) = klen key \<and>
     W dvd unat (n0inv key) * num (modulus key) + 1"

text \<open>Comparison and subtraction\<close>

lemma ge_loop_num:
  "i \<le> length num' \<Longrightarrow> i \<le> length (modulus key) \<Longrightarrow>
   ge_loop key num' i = Some (num (take i (modulus key)) \<le> num (take i num'))"
proof (induction i)
  case (Suc i)
  let ?x = "num' ! i" and ?m = "modulus key ! i"
  have lo: "num (take i num') < W ^ i" "num (take i (modulus key)) < W ^ i"
    using num_less[of "take i num'"] num_less[of "take i (modulus key)"] Suc.prems by auto
  have big: "num (take i ys) + W ^ i * unat y < num (take i xs) + W ^ i * unat x"
    if "y < x" "num (take i ys) < W ^ i" for x y :: u32 and xs ys
  proof -
    have "W ^ i * (unat y + 1) \<le> W ^ i * unat x" using that(1) by (intro mult_le_mono2) (simp add: word_less_nat_alt)
    with that(2) show ?thesis by (simp add: algebra_simps)
  qed
  consider "?x < ?m" | "?m < ?x" | "?x = ?m" by fastforce
  then show ?case
  proof cases
    case 1
    with big[OF 1 lo(1), of "modulus key"] Suc.prems show ?thesis by (simp add: num_take_Suc del: take_Suc)
  next
    case 2
    with big[OF 2 lo(2), of num'] Suc.prems show ?thesis by (auto simp: num_take_Suc)
  next
    case 3
    with Suc show ?thesis by (simp add: num_take_Suc)
  qed
qed simp

lemma greater_equal_num:
  "key_ok key \<Longrightarrow> length xs = klen key \<Longrightarrow> greater_equal_modulus key xs = Some (num (modulus key) \<le> num xs)"
  by (simp add: greater_equal_modulus_def ge_loop_num key_ok_def)

lemma sub_loop_num:
  "i \<le> klen key \<Longrightarrow> length xs = klen key \<Longrightarrow> length (modulus key) = klen key \<Longrightarrow> length ys = klen key \<Longrightarrow>
   (\<And>j. i \<le> j \<Longrightarrow> j < klen key \<Longrightarrow> ys ! j = xs ! j) \<Longrightarrow>
   int (num (take i ys)) + int (W ^ i) * acc = int (num (take i xs)) - int (num (take i (modulus key))) \<Longrightarrow>
   \<exists>zs c. sub_loop key ys acc i = Some zs \<and> length zs = klen key \<and>
     int (num zs) + int (W ^ klen key) * c = int (num xs) - int (num (modulus key))"
proof (induction "klen key - i" arbitrary: i ys acc)
  case 0
  then have "i = klen key" by simp
  with 0 show ?case by (subst sub_loop.simps) auto
next
  case (Suc k)
  then have i: "i < klen key" by simp
  define a where "a = acc + (uint (xs ! i) - uint (modulus key ! i))"
  have a: "a = acc + (int (unat (xs ! i)) - int (unat (modulus key ! i)))" by (simp add: a_def)
  define y where "y = (word_of_int a :: u32)"
  have y: "int (unat y) + int W * (a div 2 ^ 32) = a"
    by (simp add: y_def uint_word_of_int flip: uint_nat)
  have "sub_loop key ys acc i = sub_loop key (ys[i := y]) (a div 2 ^ 32) (i + 1)"
    using i Suc.prems by (subst sub_loop.simps) (simp add: a_def y_def Let_def)
  moreover have "\<exists>zs c. sub_loop key (ys[i := y]) (a div 2 ^ 32) (i + 1) = Some zs \<and> length zs = klen key \<and>
      int (num zs) + int (W ^ klen key) * c = int (num xs) - int (num (modulus key))"
  proof (rule Suc.hyps(1))
    have "int (num (take (i + 1) (ys[i := y]))) + int (W ^ (i + 1)) * (a div 2 ^ 32) =
        int (num (take i ys)) + int (W ^ i) * (int (unat y) + int W * (a div 2 ^ 32))"
      using i Suc.prems(4) by (simp add: num_take_Suc algebra_simps)
    also have "\<dots> = int (num (take i ys)) + int (W ^ i) * a" by (simp only: y)
    also have "\<dots> = int (num (take i xs)) - int (num (take i (modulus key))) +
        int (W ^ i) * (int (unat (xs ! i)) - int (unat (modulus key ! i)))"
      unfolding a distrib_left using Suc.prems(6) by linarith
    also have "\<dots> = int (num (take (i + 1) xs)) - int (num (take (i + 1) (modulus key)))"
      using i Suc.prems(2,3) by (simp add: num_take_Suc algebra_simps)
    finally show "int (num (take (i + 1) (ys[i := y]))) + int (W ^ (i + 1)) * (a div 2 ^ 32) =
        int (num (take (i + 1) xs)) - int (num (take (i + 1) (modulus key)))" .
  qed (use Suc i in auto)
  ultimately show ?case by simp
qed

lemma subtract_modulus_num:
  assumes "key_ok key" "length xs = klen key" "num (modulus key) \<le> num xs + e * W ^ klen key"
    "num xs + e * W ^ klen key < num (modulus key) + W ^ klen key"
  shows "\<exists>zs. subtract_modulus key xs = Some zs \<and> length zs = klen key \<and>
    num zs + num (modulus key) = num xs + e * W ^ klen key"
proof -
  let ?R = "W ^ klen key" and ?n = "num (modulus key)"
  obtain zs c where z: "subtract_modulus key xs = Some zs" "length zs = klen key"
    "int (num zs) + int ?R * c = int (num xs) - int ?n"
    using sub_loop_num[of 0 key xs xs 0] assms(1,2) by (auto simp: subtract_modulus_def key_ok_def)
  have lt: "num zs < ?R" using num_less[of zs] z(2) by simp
  define d where "d = num xs + e * ?R - ?n"
  have d: "d < ?R" "int d = int (num xs) + int e * int ?R - int ?n" using assms(3,4) by (simp_all add: d_def)
  have "int (num zs) mod int ?R = int d mod int ?R"
  proof -
    have "int d = int (num zs) + int ?R * (c + int e)" using z(3) d(2) by (simp add: algebra_simps)
    then show ?thesis by simp
  qed
  then have "num zs = d" using lt d(1) by (simp flip: zmod_int)
  then show ?thesis using z assms(3) by (auto simp: d_def)
qed

section \<open>The multiply-and-add step\<close>

text \<open>One word: the carries of both accumulators go to the next position.\<close>

lemma accumulate:
  fixes A B :: u64 and a b r d m :: u32
  defines "A' \<equiv> drop_bit 32 A + ucast a * ucast b + ucast r"
  defines "B' \<equiv> drop_bit 32 B + ucast d * ucast m + ucast (ucast A' :: u32)"
  shows "unat A div W + unat B div W + unat r + unat a * unat b + unat d * unat m =
    unat (ucast B' :: u32) + W * (unat A' div W + unat B' div W)"
proof -
  have A': "unat A' = unat A div W + unat a * unat b + unat r" unfolding A'_def by (rule mac_exact)
  have B': "unat B' = unat B div W + unat d * unat m + unat A' mod W" unfolding B'_def mac_exact low_word ..
  have "W * (unat A' div W) + unat A' mod W = unat A'" "W * (unat B' div W) + unat B' mod W = unat B'"
    by (simp_all add: mult_div_mod_eq)
  then show ?thesis using A' B' by (simp only: low_word distrib_left)
qed

lemma step_loop_num:
  "1 \<le> i \<Longrightarrow> i \<le> klen key \<Longrightarrow> length b = klen key \<Longrightarrow> length r = klen key \<Longrightarrow> length (modulus key) = klen key \<Longrightarrow>
   length ys = klen key \<Longrightarrow> (\<And>j. i \<le> j \<Longrightarrow> j < klen key \<Longrightarrow> ys ! j = r ! j) \<Longrightarrow>
   num (take i r) + unat a * num (take i b) + unat d * num (take i (modulus key)) =
     W * num (take (i - 1) ys) + W ^ i * (unat A div W + unat B div W) \<Longrightarrow>
   \<exists>zs A' B'. step_loop key a d b ys A B i = Some (zs, A', B', klen key) \<and> length zs = klen key \<and>
     num r + unat a * num b + unat d * num (modulus key) =
       W * num (take (klen key - 1) zs) + W ^ klen key * (unat A' div W + unat B' div W)"
proof (induction "klen key - i" arbitrary: i ys A B)
  case 0
  then have "i = klen key" by simp
  with 0 show ?case by (subst step_loop.simps) simp
next
  case (Suc k)
  then have i: "i < klen key" "1 \<le> i" by auto
  let ?b = "b ! i" and ?r = "r ! i" and ?m = "modulus key ! i"
  define A' where "A' = drop_bit 32 A + ucast a * ucast ?b + ucast ?r"
  define B' where "B' = drop_bit 32 B + ucast d * ucast ?m + ucast (ucast A' :: u32)"
  let ?ys = "ys[i - 1 := ucast B']"
  have "step_loop key a d b ys A B i = step_loop key a d b ?ys A' B' (i + 1)"
    using i Suc.prems by (subst step_loop.simps) (simp add: A'_def B'_def Let_def)
  moreover have "\<exists>zs A'' B''. step_loop key a d b ?ys A' B' (i + 1) = Some (zs, A'', B'', klen key) \<and> length zs = klen key \<and>
     num r + unat a * num b + unat d * num (modulus key) =
       W * num (take (klen key - 1) zs) + W ^ klen key * (unat A'' div W + unat B'' div W)"
  proof (rule Suc.hyps(1))
    have "take (i + 1 - 1) ?ys = take (i - 1) ys @ [ucast B']"
      using i Suc.prems(6) take_Suc_conv_app_nth[of "i - 1" ?ys] by simp
    then have tk: "num (take (i + 1 - 1) ?ys) = num (take (i - 1) ys) + W ^ (i - 1) * unat (ucast B' :: u32)"
      using i Suc.prems(6) by (simp add: num_append)
    have Wi: "W * W ^ (i - 1) = W ^ i" using i(2) by (simp flip: power_Suc)
    have "num (take (i + 1) r) + unat a * num (take (i + 1) b) + unat d * num (take (i + 1) (modulus key)) =
        (num (take i r) + unat a * num (take i b) + unat d * num (take i (modulus key))) +
        W ^ i * (unat ?r + unat a * unat ?b + unat d * unat ?m)"
      using i Suc.prems(3-5) by (simp add: num_take_Suc algebra_simps)
    also have "\<dots> = W * num (take (i - 1) ys) +
        W ^ i * (unat A div W + unat B div W + unat ?r + unat a * unat ?b + unat d * unat ?m)"
      unfolding Suc.prems(8) by (simp only: distrib_left add.assoc)
    also have "\<dots> = W * num (take (i - 1) ys) + W ^ i * (unat (ucast B' :: u32) + W * (unat A' div W + unat B' div W))"
      unfolding A'_def B'_def accumulate ..
    also have "\<dots> = W * num (take (i + 1 - 1) ?ys) + W ^ (i + 1) * (unat A' div W + unat B' div W)"
      unfolding tk distrib_left mult.assoc[symmetric] Wi power_add power_one_right add.assoc ..
    finally show "num (take (i + 1) r) + unat a * num (take (i + 1) b) + unat d * num (take (i + 1) (modulus key)) =
        W * num (take (i + 1 - 1) ?ys) + W ^ (i + 1) * (unat A' div W + unat B' div W)" .
  qed (use Suc.hyps(2) Suc.prems(2-7) i in auto)
  ultimately show ?case by simp
qed


text \<open>The multiple of the modulus is chosen to make the lowest word zero.\<close>

lemma n0inv_word:
  assumes "key_ok key"
  shows "n0inv key * modulus key ! 0 + 1 = 0"
proof -
  obtain m ms where ms: "modulus key = m # ms" using assms by (cases "modulus key") (auto simp: key_ok_def)
  have "W dvd unat (n0inv key) * (unat m + W * num ms) + 1" using assms ms by (simp add: key_ok_def)
  then have "W dvd (unat (n0inv key) * unat m + 1) + W * (unat (n0inv key) * num ms)" by (simp add: algebra_simps)
  then have "W dvd unat (n0inv key) * unat m + 1" by (simp only: dvd_add_times_triv_right_iff dvd_add_left_iff dvd_triv_left)
  then have "(of_nat (unat (n0inv key) * unat m + 1) :: u32) = 0" by (simp only: word_of_nat_eq_0_iff) simp
  then show ?thesis using ms by (simp add: add.commute)
qed

lemma low_word_zero:
  assumes "key_ok key"
  shows "(ucast (ucast (x * n0inv key) * ucast (modulus key ! 0) + ucast x :: u64) :: u32) = 0"
proof -
  have "(ucast (a * b + c :: u64) :: u32) = ucast a * ucast b + ucast c" for a b c
    by transfer (simp add: take_bit_eq_mod mod_mod_cancel, intro mod_add_cong mod_mult_cong; simp add: mod_mod_cancel)
  moreover have "(ucast (ucast y :: u64) :: u32) = y" for y :: u32 by transfer simp
  ultimately have "(ucast (ucast (x * n0inv key) * ucast (modulus key ! 0) + ucast x :: u64) :: u32) =
      x * (n0inv key * modulus key ! 0 + 1)" by (simp add: algebra_simps)
  then show ?thesis using n0inv_word[OF assms] by simp
qed

lemma mul_add_step_num:
  assumes key: "key_ok key" and len: "length r = klen key" "length b = klen key"
  shows "\<exists>zs. montgomery_mul_add_step key r a b = Some zs \<and> length zs = klen key \<and>
    (W * num zs) mod num (modulus key) = (num r + unat a * num b) mod num (modulus key)"
proof -
  let ?n = "num (modulus key)" and ?l = "klen key" and ?R = "W ^ klen key"
  have l: "0 < ?l" "length (modulus key) = ?l" using key by (auto simp: key_ok_def)
  define A where "A = (ucast a * ucast (b ! 0) + ucast (r ! 0) :: u64)"
  define d where "d = ucast A * n0inv key"
  define B where "B = (ucast d * ucast (modulus key ! 0) + ucast (ucast A :: u32) :: u64)"
  have B0: "(ucast B :: u32) = 0" unfolding B_def d_def by (rule low_word_zero[OF key])
  have AB: "unat (r ! 0) + unat a * unat (b ! 0) + unat d * unat (modulus key ! 0) = W * (unat A div W + unat B div W)"
    using accumulate[of 0 0 "r ! 0" a "b ! 0" d "modulus key ! 0"] B0 by (simp add: A_def B_def)
  have "num (take 1 xs) = unat (xs ! 0)" if "length xs = ?l" for xs
    using that l(1) by (cases xs) auto
  with AB len l have "num (take 1 r) + unat a * num (take 1 b) + unat d * num (take 1 (modulus key)) =
      W * num (take (1 - 1) r) + W ^ 1 * (unat A div W + unat B div W)" by simp
  then obtain ys A' B' where loop: "step_loop key a d b r A B 1 = Some (ys, A', B', ?l)" "length ys = ?l"
    "num r + unat a * num b + unat d * ?n = W * num (take (?l - 1) ys) + ?R * (unat A' div W + unat B' div W)"
    using step_loop_num[of 1 key b r r a d A B] len l by auto
  define C where "C = drop_bit 32 A' + drop_bit 32 B'"
  have C: "unat C = unat A' div W + unat B' div W"
    unfolding C_def using high_word[of A'] high_word[of B'] unsigned_less[of A', where ?'a = nat]
      unsigned_less[of B', where ?'a = nat] by (subst unat_plus_nowrap) auto
  define ws where "ws = ys[?l - 1 := ucast C]"
  have ws: "length ws = ?l" "num ws = num (take (?l - 1) ys) + W ^ (?l - 1) * (unat C mod W)"
  proof -
    have "ws = take (?l - 1) ys @ [ucast C]"
      using loop(2) l(1) take_Suc_conv_app_nth[of "?l - 1" ws] by (simp add: ws_def)
    then show "length ws = ?l" "num ws = num (take (?l - 1) ys) + W ^ (?l - 1) * (unat C mod W)"
      using loop(2) l(1) by (simp_all add: num_append low_word)
  qed
  let ?T = "num r + unat a * num b + unat d * ?n"
  have R: "W * W ^ (?l - 1) = ?R" using l(1) by (simp flip: power_Suc)
  have T: "?T = W * (num ws + ?R * (unat C div W))"
  proof -
    have "?R * unat C = ?R * (unat C mod W) + ?R * (W * (unat C div W))"
      by (simp only: distrib_left[symmetric] mod_mult_div_eq)
    then show ?thesis unfolding loop(3) ws(2) C[symmetric] distrib_left R[symmetric] by (simp add: ac_simps)
  qed
  have n: "?n < ?R" "num r < ?R" "num b < ?R" using num_less[of "modulus key"] num_less[of r] num_less[of b] len l by auto
  have bound: "num ws + ?R * (unat C div W) < ?R + ?n"
  proof -
    have "unat a * num b \<le> (W - 1) * (?R - 1)" "unat d * ?n \<le> (W - 1) * ?n"
      using unat_u32_less[of a] unat_u32_less[of d] n(3) by (intro mult_le_mono; simp)+
    moreover have "(?R - 1) + (W - 1) * (?R - 1) = W * (?R - 1)" by simp
    moreover have "(W - 1) * ?n \<le> W * ?n" by (intro mult_le_mono1) simp
    ultimately have "?T \<le> W * (?R - 1) + W * ?n" using n(2) by linarith
    also have "\<dots> < W * (?R + ?n)" using n(1) by (simp add: algebra_simps)
    finally show ?thesis unfolding T by simp
  qed
  have step: "montgomery_mul_add_step key r a b = (if unat C div W \<noteq> 0 then subtract_modulus key ws else Some ws)"
  proof -
    have "drop_bit 32 C \<noteq> 0 \<longleftrightarrow> unat C div W \<noteq> 0" by (metis high_word unat_eq_zero)
    then show ?thesis
      using len l loop(1,2)
      by (simp add: montgomery_mul_add_step_def C_def ws_def flip: A_def d_def B_def)
  qed
  show ?thesis
  proof (cases "unat C div W = 0")
    case True
    then have "(W * num ws) mod ?n = ?T mod ?n" using T by simp
    with step True ws(1) show ?thesis by simp
  next
    case False
    have "unat C div W = 1"
    proof (rule ccontr)
      assume "unat C div W \<noteq> 1"
      with False have "?R * 2 \<le> ?R * (unat C div W)" by (intro mult_le_mono2) linarith
      with bound n(1) show False by linarith
    qed
    then have X: "?T = W * (num ws + 1 * ?R)" and lt: "num ws + 1 * ?R < ?n + ?R" using T bound by simp_all
    obtain zs where zs: "subtract_modulus key ws = Some zs" "length zs = ?l" "num zs + ?n = num ws + 1 * ?R"
      using subtract_modulus_num[OF key ws(1) _ lt] n(1) by auto
    have "W * num zs + W * ?n = ?T" unfolding X zs(3)[symmetric] by simp
    then have "(W * num zs) mod ?n = ?T mod ?n" by (metis mod_mult_self1)
    with step False zs show ?thesis by simp
  qed
qed

section \<open>Montgomery multiplication and exponentiation\<close>

lemma zero_loop_zeros: "n \<le> length r \<Longrightarrow> zero_loop r n = Some (replicate n 0 @ drop n r)"
proof (induction n)
  case (Suc n)
  then have "(replicate n 0 @ drop n r)[n := 0] = replicate n 0 @ 0 # drop (Suc n) r"
    by (simp add: list_update_append flip: Cons_nth_drop_Suc)
  with Suc show ?case by (simp add: replicate_app_Cons_same)
qed simp

lemma mul_loop_num:
  assumes key: "key_ok key" and len: "length a = klen key" "length b = klen key"
  shows "i \<le> klen key \<Longrightarrow> \<exists>r. mul_loop key (replicate (klen key) 0) a b i = Some r \<and> length r = klen key \<and>
    (W ^ i * num r) mod num (modulus key) = (num (take i a) * num b) mod num (modulus key)"
proof (induction i)
  case (Suc i)
  let ?n = "num (modulus key)"
  obtain r where r: "mul_loop key (replicate (klen key) 0) a b i = Some r" "length r = klen key"
    "(W ^ i * num r) mod ?n = (num (take i a) * num b) mod ?n"
    using Suc by auto
  obtain zs where zs: "montgomery_mul_add_step key r (a ! i) b = Some zs" "length zs = klen key"
    "(W * num zs) mod ?n = (num r + unat (a ! i) * num b) mod ?n"
    using mul_add_step_num[OF key r(2) len(2)] by blast
  have "(W ^ Suc i * num zs) mod ?n = (W ^ i * (W * num zs)) mod ?n" by (simp add: ac_simps)
  also have "\<dots> = (W ^ i * (num r + unat (a ! i) * num b)) mod ?n" using zs(3) by (metis mod_mult_right_eq)
  also have "\<dots> = (W ^ i * num r + W ^ i * unat (a ! i) * num b) mod ?n" by (simp add: algebra_simps)
  also have "\<dots> = (num (take i a) * num b + W ^ i * unat (a ! i) * num b) mod ?n" using r(3) by (metis mod_add_left_eq)
  also have "\<dots> = (num (take (Suc i) a) * num b) mod ?n"
    using Suc.prems len(1) by (simp add: num_take_Suc algebra_simps)
  finally show ?case using r zs Suc.prems len(1) by simp
qed simp

lemma montgomery_mul_num:
  assumes "key_ok key" "length a = klen key" "length b = klen key" "length r = klen key"
  shows "\<exists>zs. montgomery_mul key r a b = Some zs \<and> length zs = klen key \<and>
    (W ^ klen key * num zs) mod num (modulus key) = (num a * num b) mod num (modulus key)"
  using mul_loop_num[OF assms(1-3), of "klen key"] assms(2,4)
  by (auto simp: montgomery_mul_def zero_loop_zeros)

text \<open>The modulus is odd, so the factor of the Montgomery form can be cancelled.\<close>

lemma coprime_W: "key_ok key \<Longrightarrow> coprime (W ^ k) (num (modulus key))"
proof -
  assume "key_ok key"
  then have d: "W dvd unat (n0inv key) * num (modulus key) + 1" by (simp add: key_ok_def)
  have "coprime W (num (modulus key))"
  proof (rule coprimeI)
    fix c assume "c dvd W" "c dvd num (modulus key)"
    then have "c dvd unat (n0inv key) * num (modulus key) + 1" "c dvd unat (n0inv key) * num (modulus key)"
      using d dvd_trans by (blast, simp)
    then show "is_unit c" using dvd_add_right_iff[of c "unat (n0inv key) * num (modulus key)" 1] by simp
  qed
  then show ?thesis by (rule coprime_power_left_iff[THEN iffD2, OF disjI1])
qed

lemma mod_cancel:
  fixes x y :: nat
  assumes "coprime R n" "(R * x) mod n = (R * y) mod n"
  shows "x mod n = y mod n"
proof -
  have "int n dvd int R * int x - int R * int y"
    using assms(2) by (metis mod_eq_dvd_iff of_nat_mult zmod_int)
  then have "int n dvd int R * (int x - int y)" by (simp add: right_diff_distrib)
  moreover have "coprime (int n) (int R)" using assms(1) by (simp add: coprime_commute)
  ultimately have "int n dvd int x - int y" by (simp add: coprime_dvd_mult_right_iff)
  then have "int x mod int n = int y mod int n" by (simp add: mod_eq_dvd_iff)
  then show ?thesis by (metis of_nat_eq_iff zmod_int)
qed

text \<open>\<open>mont key M t xs\<close>: the array holds the power \<open>M ^ t\<close> in Montgomery form.\<close>

definition mont :: "rsa_public_key \<Rightarrow> nat \<Rightarrow> nat \<Rightarrow> u32 list \<Rightarrow> bool" where
  "mont key M t xs \<longleftrightarrow> length xs = klen key \<and>
     num xs mod num (modulus key) = (M ^ t * W ^ klen key) mod num (modulus key)"

lemma mont_mul:
  assumes key: "key_ok key" and ab: "mont key M s a" "mont key M t b" and r: "length r = klen key"
  shows "\<exists>zs. montgomery_mul key r a b = Some zs \<and> mont key M (s + t) zs"
proof -
  let ?n = "num (modulus key)" and ?R = "W ^ klen key"
  obtain zs where zs: "montgomery_mul key r a b = Some zs" "length zs = klen key" "(?R * num zs) mod ?n = (num a * num b) mod ?n"
    using montgomery_mul_num[OF key _ _ r] ab by (auto simp: mont_def)
  note zs(3)
  also have "(num a * num b) mod ?n = ((M ^ s * ?R) * (M ^ t * ?R)) mod ?n"
    using ab by (auto simp: mont_def intro: mod_mult_cong)
  also have "\<dots> = (?R * (M ^ (s + t) * ?R)) mod ?n" by (simp add: power_add ac_simps)
  finally have "num zs mod ?n = (M ^ (s + t) * ?R) mod ?n"
    by (rule mod_cancel[OF coprime_W[OF key]])
  with zs show ?thesis by (simp add: mont_def)
qed

text \<open>Converting into Montgomery form with \<open>R\<^sup>2\<close>, and out of it in the last multiplication\<close>

lemma mont_enter:
  assumes key: "key_ok key" and rr: "num (rr key) mod num (modulus key) = (W ^ klen key * W ^ klen key) mod num (modulus key)"
    and a: "length a = klen key" and r: "length r = klen key"
  shows "\<exists>zs. montgomery_mul key r a (rr key) = Some zs \<and> mont key (num a) 1 zs"
proof -
  let ?n = "num (modulus key)" and ?R = "W ^ klen key"
  obtain zs where zs: "montgomery_mul key r a (rr key) = Some zs" "length zs = klen key"
    "(?R * num zs) mod ?n = (num a * num (rr key)) mod ?n"
    using montgomery_mul_num[OF key a _ r] key by (auto simp: key_ok_def)
  note zs(3)
  also have "(num a * num (rr key)) mod ?n = (num a * (?R * ?R)) mod ?n" using rr by (metis mod_mult_right_eq)
  also have "\<dots> = (?R * (num a ^ 1 * ?R)) mod ?n" by (simp add: ac_simps)
  finally have "num zs mod ?n = (num a ^ 1 * ?R) mod ?n"
    by (rule mod_cancel[OF coprime_W[OF key]])
  with zs show ?thesis by (simp add: mont_def)
qed

lemma mont_leave:
  assumes key: "key_ok key" and a: "mont key (num v) t a" and v: "length v = klen key" and r: "length r = klen key"
  shows "\<exists>zs. montgomery_mul key r a v = Some zs \<and> length zs = klen key \<and>
    num zs mod num (modulus key) = num v ^ (t + 1) mod num (modulus key)"
proof -
  let ?n = "num (modulus key)" and ?R = "W ^ klen key"
  obtain zs where zs: "montgomery_mul key r a v = Some zs" "length zs = klen key" "(?R * num zs) mod ?n = (num a * num v) mod ?n"
    using montgomery_mul_num[OF key _ v r] a by (auto simp: mont_def)
  note zs(3)
  also have "(num a * num v) mod ?n = (num v ^ t * ?R * num v) mod ?n" using a by (auto simp: mont_def intro: mod_mult_cong)
  also have "\<dots> = (?R * num v ^ (t + 1)) mod ?n" by (simp add: ac_simps)
  finally have "num zs mod ?n = num v ^ (t + 1) mod ?n"
    by (rule mod_cancel[OF coprime_W[OF key]])
  with zs show ?thesis by simp
qed

text \<open>The bits of the exponent, from the top\<close>

lemma bits_loop_bits:
  "unat e < 2 ^ n \<Longrightarrow> 0 < n \<Longrightarrow> 0 < unat e \<Longrightarrow>
   \<exists>j. bits_loop e b n = Some (b + j) \<and> unat e < 2 ^ Suc j \<and> 2 ^ j \<le> unat e"
proof (induction n arbitrary: e b)
  case (Suc n)
  have half: "unat (drop_bit 1 e) = unat e div 2" by (simp only: unat_drop_bit_eq drop_bit_eq_div[where ?'a = nat]) simp
  show ?case
  proof (cases "drop_bit 1 e = 0")
    case True
    then have "unat e div 2 = 0" using half by simp
    then have "unat e < 2" by simp
    with True Suc.prems(3) show ?thesis by (intro exI[of _ 0]) simp
  next
    case False
    then have pos: "0 < unat e div 2" using half by (metis neq0_conv unat_eq_zero)
    have "unat (drop_bit 1 e) < 2 ^ n" using Suc.prems(1) half by simp
    moreover have "0 < n" using Suc.prems(1) pos by (cases n) auto
    ultimately obtain j where "bits_loop (drop_bit 1 e) (b + 1) n = Some (b + 1 + j)"
      "unat e div 2 < 2 ^ Suc j" "2 ^ j \<le> unat e div 2"
      using Suc.IH[of "drop_bit 1 e" "b + 1"] half pos by auto
    with False show ?thesis by (intro exI[of _ "Suc j"]) (auto simp: Let_def)
  qed
qed simp

lemma num_public_exponent_bits_exact:
  assumes "0 < unat (exponent key)"
  shows "\<exists>k. num_public_exponent_bits key = Some k \<and> 0 < k \<and> unat (exponent key) < 2 ^ k \<and> 2 ^ (k - 1) \<le> unat (exponent key)"
proof -
  have "unat (exponent key) < 2 ^ 64" using unsigned_less[of "exponent key", where ?'a = nat] by simp
  then obtain j where "bits_loop (exponent key) 1 64 = Some (1 + j)" "unat (exponent key) < 2 ^ Suc j" "2 ^ j \<le> unat (exponent key)"
    using bits_loop_bits[of "exponent key" 64 1] assms by auto
  with assms show ?thesis by (intro exI[of _ "Suc j"]) (auto simp: num_public_exponent_bits_def)
qed

lemma is_public_exponent_bit_set_iff:
  "is_public_exponent_bit_set key pos \<longleftrightarrow> pos < 32 \<and> bit (exponent key) pos"
proof -
  let ?x = "ucast (exponent key AND push_bit pos 1) :: u32"
  have "bit ?x n \<longleftrightarrow> n < 32 \<and> bit (exponent key) n \<and> n = pos" for n
    by (auto simp: bit_simps dest: bit_imp_le_length)
  then have "(\<exists>n. bit ?x n) \<longleftrightarrow> pos < 32 \<and> bit (exponent key) pos" by metis
  moreover have "x = 0 \<longleftrightarrow> (\<forall>n. \<not> bit x n)" for x :: u32
    using bit_imp_le_length[of x] by (simp add: bit_eq_iff) metis
  ultimately show ?thesis unfolding is_public_exponent_bit_set_def by simp
qed

lemma bit_odd_div: "bit e i \<longleftrightarrow> odd (unat (e :: u64) div 2 ^ i)"
  using bit_unsigned_iff[of e i, where ?'a = nat] by (simp add: bit_iff_odd[of "unat e"])

lemma halves: "odd m \<Longrightarrow> m div 2 + m div 2 + 1 = m" "even m \<Longrightarrow> m div 2 + m div 2 = m" for m :: nat
  by presburger+

lemma pow_loop_mont:
  assumes key: "key_ok key" and e: "unat (exponent key) = e"
  shows "j < 32 \<Longrightarrow> mont key M 1 a_scaled \<Longrightarrow> mont key M (e div 2 ^ Suc j) acc \<Longrightarrow> length tmp = klen key \<Longrightarrow>
    \<exists>acc' tmp'. pow_loop key a_scaled j acc tmp = Some (acc', tmp') \<and> mont key M (e div 2) acc' \<and> length tmp' = klen key"
proof (induction j arbitrary: acc tmp)
  case (Suc j)
  let ?t = "e div 2 ^ Suc (Suc j)"
  obtain tmp1 where tmp1: "montgomery_mul key tmp acc acc = Some tmp1" "mont key M (?t + ?t) tmp1"
    using mont_mul[OF key Suc.prems(3,3,4)] by blast
  have half: "e div 2 ^ Suc (Suc j) = e div 2 ^ Suc j div 2" by (simp only: power_Suc2[of 2 "Suc j"] div_mult2_eq)
  have bit: "is_public_exponent_bit_set key (Suc j) \<longleftrightarrow> odd (e div 2 ^ Suc j)"
    using Suc.prems(1) e by (simp only: is_public_exponent_bit_set_iff bit_odd_div) simp
  have "\<exists>acc1. (if is_public_exponent_bit_set key (Suc j) then montgomery_mul key acc tmp1 a_scaled else Some tmp1) = Some acc1 \<and>
      mont key M (e div 2 ^ Suc j) acc1"
  proof (cases "odd (e div 2 ^ Suc j)")
    case True
    obtain acc1 where "montgomery_mul key acc tmp1 a_scaled = Some acc1" "mont key M (?t + ?t + 1) acc1"
      using mont_mul[OF key tmp1(2) Suc.prems(2), of acc] Suc.prems(3) by (auto simp: mont_def)
    moreover have "?t + ?t + 1 = e div 2 ^ Suc j" unfolding half using True by (rule halves)
    ultimately show ?thesis using True bit by simp
  next
    case False
    then have "?t + ?t = e div 2 ^ Suc j" unfolding half by (intro halves) simp
    with False bit tmp1(2) show ?thesis by simp
  qed
  then obtain acc1 where "(if is_public_exponent_bit_set key (Suc j) then montgomery_mul key acc tmp1 a_scaled else Some tmp1) = Some acc1"
    "mont key M (e div 2 ^ Suc j) acc1" by blast
  moreover have "length tmp1 = klen key" using tmp1(2) by (simp add: mont_def)
  ultimately show ?case using Suc.IH[of acc1 tmp1] Suc.prems(1,2) tmp1(1) by simp
qed simp

section \<open>Bytes\<close>

text \<open>The number a string of bytes stands for, most significant byte first\<close>

definition os2ip :: "u8 list \<Rightarrow> nat" where
  "os2ip bs = foldl (\<lambda>v b. v * 256 + unat b) 0 bs"

lemma foldl_256: "foldl (\<lambda>v b. v * 256 + unat b) v bs = v * 256 ^ length bs + foldl (\<lambda>v b. v * 256 + unat b) 0 bs"
proof (induction bs arbitrary: v)
  case (Cons b bs)
  show ?case using Cons[of "v * 256 + unat b"] Cons[of "unat b"] by (simp add: algebra_simps)
qed simp

lemma os2ip_append: "os2ip (xs @ ys) = os2ip xs * 256 ^ length ys + os2ip ys"
  unfolding os2ip_def foldl_append by (subst foldl_256) simp

lemma unat_u8_bound: "unat (b :: u8) < 256"
  using unsigned_less[of b, where ?'a = nat] by simp

lemma os2ip_less: "os2ip bs < 256 ^ length bs"
proof (induction bs rule: rev_induct)
  case (snoc b bs)
  have "os2ip bs * 256 + unat b < (os2ip bs + 1) * 256" using unat_u8_bound[of b] by simp
  also have "\<dots> \<le> 256 ^ length bs * 256" using snoc by (intro mult_le_mono1) simp
  finally show ?case by (simp add: os2ip_append) (simp add: os2ip_def)
qed (simp add: os2ip_def)

lemma os2ip_inject: "length xs = length ys \<Longrightarrow> os2ip xs = os2ip ys \<longleftrightarrow> xs = ys"
proof (induction xs arbitrary: ys rule: rev_induct)
  case (snoc x xs)
  obtain y ys' where ys: "ys = ys' @ [y]" using snoc.prems by (cases ys rule: rev_cases) auto
  have single: "os2ip [b] = unat b" for b by (simp add: os2ip_def)
  have "os2ip (xs @ [x]) = os2ip (ys' @ [y]) \<longleftrightarrow> os2ip xs = os2ip ys' \<and> unat x = unat y"
  proof
    assume "os2ip (xs @ [x]) = os2ip (ys' @ [y])"
    then have "os2ip xs * 256 + unat x = os2ip ys' * 256 + unat y" by (simp add: os2ip_append single)
    then show "os2ip xs = os2ip ys' \<and> unat x = unat y"
      using unat_u8_bound[of x] unat_u8_bound[of y] by (metis div_mult_self3 mod_mult_self3 div_less mod_less add_cancel_right_right zero_neq_numeral)
  qed (simp add: os2ip_append single)
  with snoc ys show ?case by (simp add: word_unat_eq_iff)
qed simp

lemma os2ip_4: "os2ip [a, b, c, d] = unat a * 2 ^ 24 + unat b * 2 ^ 16 + unat c * 2 ^ 8 + unat d"
  by (simp add: os2ip_def)

lemma unat_be32:
  "unat (push_bit 24 (ucast (a :: u8)) OR push_bit 16 (ucast (b :: u8)) OR push_bit 8 (ucast (c :: u8)) OR ucast (d :: u8) :: u32) =
     os2ip [a, b, c, d]"
proof -
  let ?a = "push_bit 24 (ucast a) :: u32" and ?b = "push_bit 16 (ucast b) :: u32" and ?c = "push_bit 8 (ucast c) :: u32"
    and ?d = "ucast d :: u32"
  have 1: "?c OR ?d = ?c + ?d" by (subst disjunctive_add_eq_or) (auto simp: bit_eq_iff bit_simps dest: bit_imp_le_length)
  have 2: "?b OR ?c OR ?d = ?b + (?c OR ?d)" by (subst disjunctive_add_eq_or) (auto simp: bit_eq_iff bit_simps dest: bit_imp_le_length)
  have 3: "?a OR ?b OR ?c OR ?d = ?a + (?b OR ?c OR ?d)" by (subst disjunctive_add_eq_or) (auto simp: bit_eq_iff bit_simps dest: bit_imp_le_length)
  have u: "unat (ucast x :: u32) = unat x" for x :: u8 using unat_u8_bound[of x] by (simp add: unat_ucast_mod)
  have p: "unat ?a = unat a * 2 ^ 24" "unat ?b = unat b * 2 ^ 16" "unat ?c = unat c * 2 ^ 8" "unat ?d = unat d"
    using unat_u8_bound[of a] unat_u8_bound[of b] unat_u8_bound[of c]
    by (simp_all add: push_bit_eq_mult unat_word_ariths u)
  show ?thesis unfolding 3 os2ip_4 unfolding 2 unfolding 1
    using p unat_u8_bound[of a] unat_u8_bound[of b] unat_u8_bound[of c] unat_u8_bound[of d]
    by (subst unat_plus_nowrap; (subst unat_plus_nowrap; (subst unat_plus_nowrap)?)?) auto
qed

lemma get_be32_num: "unat (get_be32 bs i) = os2ip [bs ! i, bs ! (i + 1), bs ! (i + 2), bs ! (i + 3)]"
  by (simp only: get_be32_def unat_be32)

lemma be32_num: "os2ip (be32 w) = unat w"
proof -
  have "push_bit 24 (ucast (ucast (drop_bit 24 w) :: u8)) OR push_bit 16 (ucast (ucast (drop_bit 16 w) :: u8)) OR
      push_bit 8 (ucast (ucast (drop_bit 8 w) :: u8)) OR ucast (ucast w :: u8) = w" (is "?x = w")
  proof (rule bit_word_eqI)
    fix n assume "n < LENGTH(32)"
    then consider "n < 8" | "8 \<le> n" "n < 16" | "16 \<le> n" "n < 24" | "24 \<le> n" "n < 32" by fastforce
    then show "bit ?x n \<longleftrightarrow> bit w n" by cases (auto simp: bit_simps)
  qed
  then show ?thesis by (simp add: be32_def flip: unat_be32)
qed

lemma load_be_words_num:
  assumes "4 * len \<le> length bs"
  shows "\<exists>ws. load_be_words bs len = Some ws \<and> length ws = len \<and> num ws = os2ip (take (4 * len) bs)"
proof -
  have "num (map (\<lambda>i. get_be32 bs (4 * (len - 1 - i))) [0..<len]) = os2ip (take (4 * len) bs)"
    using assms
  proof (induction len)
    case (Suc len)
    have up: "[0..<Suc len] = 0 # map Suc [0..<len]" by (simp add: upt_conv_Cons map_Suc_upt)
    have "take (4 * Suc len) bs = take (4 * len) bs @ [bs ! (4 * len), bs ! (4 * len + 1), bs ! (4 * len + 2), bs ! (4 * len + 3)]"
      using Suc.prems by (auto simp: take_add[of "4 * len" 4, simplified] eval_nat_numeral take_Suc_conv_app_nth)
    then have "os2ip (take (4 * Suc len) bs) = os2ip (take (4 * len) bs) * W + unat (get_be32 bs (4 * len))"
      by (simp only: os2ip_append get_be32_num) simp
    with Suc show ?case unfolding up by (simp add: comp_def)
  qed (simp add: os2ip_def)
  with assms show ?thesis by (simp add: load_be_words_def)
qed

lemma store_be_words_num:
  "os2ip (concat (map be32 (rev ws))) = num ws" "length (concat (map be32 (rev ws))) = 4 * length ws"
proof (induction ws)
  case (Cons w ws)
  { case 1 show ?case using Cons(1) by (simp add: os2ip_append be32_num) (simp add: be32_def) }
  { case 2 show ?case using Cons(2) by (simp add: be32_def) }
qed (simp_all add: os2ip_def)

section \<open>Exponentiation and signatures\<close>

lemma pow_mod_num:
  assumes key: "key_ok key" "klen key \<le> RSA_MAX_KEY_BITS div 32"
    and rr: "num (rr key) mod num (modulus key) = (W ^ klen key * W ^ klen key) mod num (modulus key)"
    and top: "W ^ klen key \<le> 2 * num (modulus key)"
    and e: "odd (unat (exponent key))" "1 < unat (exponent key)" "unat (exponent key) < 2 ^ 33"
    and len: "length inout = 4 * klen key" "length junk = klen key"
  shows "\<exists>out. pow_mod key junk inout = Some (Inr out) \<and> length out = length inout \<and>
    os2ip out = os2ip inout ^ unat (exponent key) mod num (modulus key)"
proof -
  let ?n = "num (modulus key)" and ?e = "unat (exponent key)" and ?l = "klen key"
  obtain val where val: "load_be_words inout ?l = Some val" "length val = ?l" "num val = os2ip inout"
    using load_be_words_num[of ?l inout] len by auto
  obtain k where k: "num_public_exponent_bits key = Some k" "?e < 2 ^ k" "2 ^ (k - 1) \<le> ?e"
    using num_public_exponent_bits_exact[of key] e(2) by auto
  have k2: "2 \<le> k" using k(2) e(2) by (cases k; cases "k - 1") auto
  have k33: "k - 2 < 32"
  proof (rule ccontr)
    assume "\<not> k - 2 < 32"
    then have "(2 :: nat) ^ 33 \<le> 2 ^ (k - 1)" by (intro power_increasing) auto
    with k(3) e(3) show False by linarith
  qed
  have odd: "is_public_exponent_bit_set key 0" using e(1) by (simp add: is_public_exponent_bit_set_iff bit_odd_div)
  obtain acc where acc: "montgomery_mul key junk val (rr key) = Some acc" "mont key (num val) 1 acc"
    using mont_enter[OF key(1) rr val(2) len(2)] by blast
  have "?e div 2 ^ (k - 1) = 1"
  proof -
    have "?e < 2 ^ (k - 1) * 2" using k(2) k2 by (cases k) (auto simp: mult.commute)
    with k(3) show ?thesis by (intro div_nat_eqI) auto
  qed
  then have acc1: "mont key (num val) (?e div 2 ^ Suc (k - 2)) acc"
    using acc(2) k2 by (simp add: Suc_diff_Suc numeral_2_eq_2)
  obtain acc2 tmp2 where loop: "pow_loop key acc (k - 2) acc junk = Some (acc2, tmp2)" "mont key (num val) (?e div 2) acc2"
    "length tmp2 = ?l"
    using pow_loop_mont[OF key(1) refl k33 acc(2) acc1 len(2)] by blast
  obtain tmp3 where tmp3: "montgomery_mul key tmp2 acc2 acc2 = Some tmp3" "mont key (num val) (?e div 2 + ?e div 2) tmp3"
    using mont_mul[OF key(1) loop(2,2,3)] by blast
  have la: "length acc2 = ?l" using loop(2) by (simp add: mont_def)
  obtain res where res: "montgomery_mul key acc2 tmp3 val = Some res" "length res = ?l" "num res mod ?n = num val ^ ?e mod ?n"
    using mont_leave[OF key(1) tmp3(2) val(2) la] halves(1)[OF e(1)] by (metis power_Suc)
  have ge: "greater_equal_modulus key res = Some (?n \<le> num res)"
    using greater_equal_num[OF key(1) res(2)] .
  have bound: "num res < 2 * ?n" using num_less[of res] res(2) top by simp
  have nR: "?n < W ^ ?l" using num_less[of "modulus key"] key(1) by (simp add: key_ok_def)
  have "\<exists>zs. (if ?n \<le> num res then subtract_modulus key res else Some res) = Some zs \<and> length zs = ?l \<and> num zs = num res mod ?n"
  proof (cases "?n \<le> num res")
    case True
    obtain zs where "subtract_modulus key res = Some zs" "length zs = ?l" "num zs + ?n = num res + 0 * W ^ ?l"
      using subtract_modulus_num[OF key(1) res(2), of 0] True num_less[of res] res(2) by auto
    moreover from this bound have "num zs < ?n" "num res = num zs + ?n" by simp_all
    then have "num res mod ?n = num zs" by simp
    ultimately show ?thesis using True by simp
  next
    case False
    with res(2) show ?thesis by simp
  qed
  then obtain zs where zs: "(if ?n \<le> num res then subtract_modulus key res else Some res) = Some zs" "length zs = ?l"
    "num zs = num val ^ ?e mod ?n" using res(3) by auto
  have out: "store_be_words inout zs = concat (map be32 (rev zs))"
    using store_be_words_num(2)[of zs] zs(2) len(1) by (simp add: store_be_words_def blit_def)
  have "pow_mod key junk inout = Some (Inr (store_be_words inout zs))"
    using key(2) val(1) k(1) k2 odd acc(1) loop(1) tmp3(1) res(1) ge zs(1) by (simp add: pow_mod_def)
  with out store_be_words_num[of zs] zs(2,3) val(3) len(1) show ?thesis by simp
qed

text \<open>The bytes of a 64-bit exponent\<close>

lemma unat_hi_lo: "unat (push_bit 32 (ucast (x :: u32)) OR ucast (y :: u32) :: u64) = unat x * W + unat y"
proof -
  let ?x = "push_bit 32 (ucast x) :: u64" and ?y = "ucast y :: u64"
  have "?x AND ?y = 0" by (rule bit_word_eqI) (use bit_imp_le_length[of y] in \<open>force simp: bit_simps\<close>)
  then have "?x OR ?y = ?x + ?y" by (simp add: disjunctive_add_eq_or)
  moreover have "unat ?y = unat y" "unat ?x = unat x * W"
    using unat_u32_less[of x] unat_u32_less[of y] unat_mult_nowrap[of "ucast x :: u64" "2 ^ 32"]
    by (simp_all add: unat_ucast_mod push_bit_eq_mult)
  ultimately show ?thesis
    using unat_u32_less[of x] unat_u32_less[of y] unat_plus_nowrap[of ?x ?y] by simp
qed

lemma take_8: "8 \<le> length bs \<Longrightarrow>
  take 8 bs = [bs ! 0, bs ! 1, bs ! 2, bs ! 3] @ [bs ! 4, bs ! 5, bs ! 6, bs ! 7]"
  by (rule nth_equalityI) (auto simp: nth_Cons' less_Suc_eq numeral_eq_Suc)

lemma fdt64_to_cpu_num: "8 \<le> length bs \<Longrightarrow> \<exists>e. fdt64_to_cpu bs = Some e \<and> unat e = os2ip (take 8 bs)"
  unfolding fdt64_to_cpu_def unat_hi_lo take_8 os2ip_append get_be32_num by (simp add: unat_hi_lo get_be32_num flip: numeral_2_eq_2)

text \<open>The keys that the signing tool writes: \<open>num_bits\<close> is a multiple of the word size in the supported
  range, the modulus has its top bit set, \<open>n0inv\<close> is \<open>- 1 / modulus\<close> modulo \<open>2 ^ 32\<close> and \<open>rr\<close> is
  \<open>(2 ^ num_bits) ^ 2\<close> modulo the modulus.\<close>

definition key_prop_ok :: "key_prop \<Rightarrow> nat \<Rightarrow> nat \<Rightarrow> bool" where
  "key_prop_ok prop n e \<longleftrightarrow>
     (\<exists>m r. p_modulus prop = Some m \<and> p_rr prop = Some r \<and>
       length m = p_num_bits prop div 8 \<and> length r = p_num_bits prop div 8 \<and> n = os2ip m \<and>
       os2ip r mod n = 2 ^ (2 * p_num_bits prop) mod n) \<and>
     32 dvd p_num_bits prop \<and> RSA_MIN_KEY_BITS \<le> p_num_bits prop \<and> p_num_bits prop \<le> RSA_MAX_KEY_BITS \<and>
     2 ^ p_num_bits prop \<le> 2 * n \<and> 2 ^ 32 dvd unat (p_n0inv prop) * n + 1 \<and>
     (case p_public_exponent prop of None \<Rightarrow> e = 65537 | Some bs \<Rightarrow> 8 \<le> length bs \<and> e = os2ip (take 8 bs)) \<and>
     odd e \<and> 1 < e \<and> e < 2 ^ 33"

lemma rsa_mod_exp_sw_num:
  assumes ok: "key_prop_ok prop n e" and sig: "sig_len = p_num_bits prop div 8" "sig_len \<le> length sig"
    and junk: "length junk = p_num_bits prop div 32"
  shows "\<exists>out. rsa_mod_exp_sw junk sig sig_len (Some prop) = Some (Inr out) \<and> length out = sig_len \<and>
    os2ip out = os2ip (take sig_len sig) ^ e mod n"
proof -
  let ?nb = "p_num_bits prop" and ?l = "p_num_bits prop div 32"
  obtain m r where mr: "p_modulus prop = Some m" "p_rr prop = Some r" "length m = ?nb div 8" "length r = ?nb div 8"
    "n = os2ip m" "os2ip r mod n = 2 ^ (2 * ?nb) mod n"
    using ok by (auto simp: key_prop_ok_def)
  have nb: "?nb = 32 * ?l" "?nb div 8 = 4 * ?l" "2048 \<le> ?nb" "?nb \<le> 4096"
    using ok by (auto simp: key_prop_ok_def RSA_MIN_KEY_BITS_def RSA_MAX_KEY_BITS_def elim!: dvdE)
  obtain mw where mw: "load_be_words m ?l = Some mw" "length mw = ?l" "num mw = n"
    using load_be_words_num[of ?l m] mr(3,5) nb(2) by auto
  obtain rw where rw: "load_be_words r ?l = Some rw" "length rw = ?l" "num rw = os2ip r"
    using load_be_words_num[of ?l r] mr(4) nb(2) by auto
  obtain x where x: "(case p_public_exponent prop of None \<Rightarrow> Some RSA_DEFAULT_PUBEXP | Some bs \<Rightarrow> fdt64_to_cpu bs) = Some x"
    "unat x = e"
    using ok fdt64_to_cpu_num by (force simp: key_prop_ok_def RSA_DEFAULT_PUBEXP_def split: option.splits)
  define key where "key = \<lparr>klen = ?l, n0inv = p_n0inv prop, modulus = mw, rr = rw, exponent = x\<rparr>"
  have R: "W ^ ?l = 2 ^ ?nb" by (subst nb(1)) (simp only: power_mult)
  have two: "(2 :: nat) ^ ?nb * 2 ^ ?nb = 2 ^ (2 * ?nb)" by (simp add: mult_2 power_add)
  have "\<exists>out. pow_mod key junk (take sig_len sig) = Some (Inr out) \<and> length out = length (take sig_len sig) \<and>
      os2ip out = os2ip (take sig_len sig) ^ unat (exponent key) mod num (modulus key)"
  proof (rule pow_mod_num)
    show "key_ok key" using ok mw rw nb(1,3) by (simp add: key_def key_ok_def key_prop_ok_def)
    show "num (rr key) mod num (modulus key) = (W ^ klen key * W ^ klen key) mod num (modulus key)"
      using mr(6) mw(3) rw(3) R two by (simp add: key_def)
    show "W ^ klen key \<le> 2 * num (modulus key)" using ok R mw(3) by (simp add: key_def key_prop_ok_def)
  qed (use ok x(2) sig junk nb in \<open>auto simp: key_def key_prop_ok_def RSA_MAX_KEY_BITS_def\<close>)
  moreover have "rsa_mod_exp_sw junk sig sig_len (Some prop) = pow_mod key junk (take sig_len sig)"
    using x(1) mr(1,2) mw(1) rw(1) nb sig
    by (simp add: rsa_mod_exp_sw_def key_def Let_def RSA_MIN_KEY_BITS_def RSA_MAX_KEY_BITS_def)
  ultimately show ?thesis using x(2) mw(3) sig by (simp add: key_def)
qed

text \<open>\<open>is_public_exponent_bit_set\<close> returns an \<open>int\<close>: the bits of the exponent from 32 on read as zero, which is
  why \<open>key_prop_ok\<close> asks for an exponent below \<open>2 ^ 33\<close> (the top bit is never read).\<close>

lemma exponent_high_bits_ignored: "32 \<le> pos \<Longrightarrow> \<not> is_public_exponent_bit_set key pos"
  by (simp add: is_public_exponent_bit_set_iff)

lemma memcmp_split:
  assumes "length buf = length pad + length hash"
  shows "take (length pad) buf = pad \<and> take (length hash) (drop (length pad) buf) = hash \<longleftrightarrow> buf = pad @ hash"
  using assms by (metis append_eq_conv_conj length_drop add_diff_cancel_left' order_refl take_all)

text \<open>C17: For a well-formed key, \<open>rsa_mod_exp_sw\<close> returns the signature to the power of the public exponent modulo
  the modulus, exactly and as big-endian bytes, whatever the uninitialised arrays hold.\<close>

theorem rsa_mod_exp_correct:
  assumes "key_prop_ok prop n e" "sig_len = p_num_bits prop div 8" "sig_len \<le> length sig"
    "length junk = p_num_bits prop div 32"
  shows "\<exists>out. rsa_mod_exp_sw junk sig sig_len (Some prop) = Some (Inr out) \<and> length out = sig_len \<and>
    os2ip out = os2ip (take sig_len sig) ^ e mod n"
  by (rule rsa_mod_exp_sw_num[OF assms])

text \<open>C6: \<open>rsa_verify_key\<close> accepts a signature exactly when the signature to the power of the exponent modulo the
  modulus is the number made of the padding followed by the hash. A signature of another length is
  refused with \<open>EINVAL\<close>, whatever the key.\<close>

theorem rsa_verify_correct:
  assumes ok: "key_prop_ok prop n e" and sig: "sig_len = p_num_bits prop div 8" "sig_len \<le> length sig"
    and junk: "length junk = p_num_bits prop div 32"
    and pad: "a_pad_len algo = sig_len" "a_checksum_len algo \<le> sig_len"
      "length (a_rsa_padding algo) = sig_len - a_checksum_len algo" "length hash = a_checksum_len algo"
  shows "(\<exists>res. rsa_verify_key junk True (Some prop) sig sig_len hash algo = Some res \<and>
      (res = None \<longleftrightarrow> os2ip (take sig_len sig) ^ e mod n = os2ip (a_rsa_padding algo @ hash)) \<and>
      res \<in> {None, Some RSA_EINVAL, Some RSA_EACCES}) \<and>
    (\<forall>len. len \<noteq> sig_len \<longrightarrow> rsa_verify_key junk dev (Some prop) sig len hash algo = Some (Some RSA_EINVAL))"
proof -
  let ?pl = "sig_len - a_checksum_len algo" and ?p = "a_rsa_padding algo"
  obtain out where out: "rsa_mod_exp_sw junk sig sig_len (Some prop) = Some (Inr out)" "length out = sig_len"
    "os2ip out = os2ip (take sig_len sig) ^ e mod n"
    using rsa_mod_exp_sw_num[OF ok sig junk] by blast
  have "length out = length ?p + length hash" using out(2) pad by simp
  from memcmp_split[OF this] os2ip_inject[OF this[folded length_append]]
  have "take ?pl out = ?p \<and> take (a_checksum_len algo) (drop ?pl out) = hash \<longleftrightarrow> os2ip out = os2ip (?p @ hash)"
    using pad by simp
  then have iff: "take ?pl out = ?p \<and> take (a_checksum_len algo) (drop ?pl out) = hash \<longleftrightarrow>
      os2ip (take sig_len sig) ^ e mod n = os2ip (?p @ hash)" by (simp only: out(3))
  have "sig_len \<le> RSA_MAX_SIG_BITS div 8"
    using ok sig(1) by (auto simp: key_prop_ok_def RSA_MAX_SIG_BITS_def RSA_MAX_KEY_BITS_def)
  then have "rsa_verify_key junk True (Some prop) sig sig_len hash algo =
      (if take ?pl out \<noteq> ?p then Some (Some RSA_EINVAL)
       else if take (a_checksum_len algo) (drop ?pl out) \<noteq> hash then Some (Some RSA_EACCES) else Some None)"
    using out(1,2) pad sig(1)[symmetric] by (simp add: rsa_verify_key_def Let_def)
  then have "\<exists>res. rsa_verify_key junk True (Some prop) sig sig_len hash algo = Some res \<and>
      (res = None \<longleftrightarrow> os2ip (take sig_len sig) ^ e mod n = os2ip (?p @ hash)) \<and>
      res \<in> {None, Some RSA_EINVAL, Some RSA_EACCES}"
    unfolding iff[symmetric] by auto
  with sig(1) show ?thesis by (simp add: rsa_verify_key_def)
qed

text \<open>A key of 2048 bits: the modulus \<open>2 ^ 2048 - 1\<close> and the exponent 3.\<close>

definition sample_key :: key_prop where
  "sample_key = \<lparr>p_rr = Some (replicate 255 0 @ [1]), p_modulus = Some (replicate 256 255),
     p_public_exponent = Some [0, 0, 0, 0, 0, 0, 0, 3], p_n0inv = 1, p_num_bits = 2048\<rparr>"

lemma os2ip_zeros [simp]: "os2ip (replicate k 0 @ bs) = os2ip bs"
proof -
  have "os2ip (replicate k 0) = 0" by (induction k) (simp_all add: os2ip_def)
  then show ?thesis by (simp add: os2ip_append)
qed

lemma os2ip_ones: "os2ip (replicate k 255) = 256 ^ k - 1"
proof (induction k)
  case (Suc k)
  have "os2ip (replicate (Suc k) 255) = os2ip ([255] @ replicate k 255)" by simp
  also have "\<dots> = 255 * 256 ^ k + (256 ^ k - 1)" unfolding os2ip_append Suc by (simp add: os2ip_def)
  also have "\<dots> = 256 ^ Suc k - 1" by simp
  finally show ?case .
qed (simp add: os2ip_def)

lemma square_mod_pred: "N * N mod (N - 1) = 1" if "2 < N" for N :: nat
proof -
  define M where "M = N - 1"
  have M: "N = M + 1" "1 < M" using that by (simp_all add: M_def)
  then have "N * N = 1 + M * (M + 2)" by (simp add: algebra_simps)
  then have "N * N mod M = 1" using M(2) by (simp only: mod_mult_self2) simp
  then show ?thesis using M(1) by simp
qed

lemma sample_key_ok: "key_prop_ok sample_key (2 ^ 2048 - 1) 3"
proof -
  define N :: nat where "N = 2 ^ 2048"
  have N: "N * N = 2 ^ (2 * 2048)" "2 ^ 32 dvd N"
    unfolding N_def by (simp_all add: power2_eq_square[symmetric] power_mult[symmetric] le_imp_power_dvd del: power_numeral)
  have "(256 :: nat) = 2 ^ 8" by simp
  then have N2: "256 ^ 256 = N" unfolding N_def by (simp only: power_mult[symmetric]) (simp del: power_numeral)
  have N3: "2 < N" unfolding N_def by simp
  then have N4: "N \<le> 2 * (N - 1)" "3 < (2 :: nat) ^ 33" by simp_all
  have "N * N mod (N - 1) = 1 mod (N - 1)" using square_mod_pred[OF N3] N3 by simp
  moreover have "os2ip [0, 0, 0, 0, 0, 0, 0, 3] = 3" "os2ip [1] = 1" by (simp_all add: os2ip_def)
  ultimately show ?thesis
    unfolding key_prop_ok_def sample_key_def RSA_MIN_KEY_BITS_def RSA_MAX_KEY_BITS_def
    using N N2 N3 N4 by (simp add: os2ip_ones N_def[symmetric] del: power_numeral)
qed

theorem rsa_mod_exp_correct_witness:
  "\<exists>out. rsa_mod_exp_sw (replicate 64 7) (replicate 255 0 @ [2]) 256 (Some sample_key) = Some (Inr out) \<and>
    length out = 256 \<and> os2ip out = 8"
proof -
  have "os2ip [2] ^ 3 mod (2 ^ 2048 - 1) = 8" by (simp add: os2ip_def)
  then show ?thesis
    using rsa_mod_exp_correct[OF sample_key_ok, of 256 "replicate 255 0 @ [2]" "replicate 64 7"]
    by (simp add: sample_key_def)
qed

definition sample_algo :: checksum_algo where
  "sample_algo = \<lparr>a_rsa_padding = replicate 224 0, a_pad_len = 256, a_checksum_len = 32\<rparr>"

theorem rsa_verify_correct_witness:
  "rsa_verify_key (replicate 64 7) True (Some sample_key) (replicate 255 0 @ [2]) 256 (replicate 31 0 @ [8]) sample_algo = Some None"
proof -
  have "os2ip [2] ^ 3 mod (2 ^ 2048 - 1) = os2ip [8]" by (simp add: os2ip_def)
  then show ?thesis
    using rsa_verify_correct[OF sample_key_ok, of 256 "replicate 255 0 @ [2]" "replicate 64 7" sample_algo "replicate 31 0 @ [8]"]
    by (auto simp: sample_key_def sample_algo_def)
qed

end
