(* ===== verification/Xor_Linear.thy ===== *)
theory Xor_Linear
  imports Uboot_Prelude
begin

text \<open>
  Functions on words that are linear over exclusive or, as checksums and error-correcting codes are
  made of: what they do to a table of all bytes, and when they are injective. The shift register of
  the CRC and the column parity of the NAND code are instances.
\<close>

lemma xor_cancel_right: "a XOR c = b XOR c \<longleftrightarrow> a = b" for a b c :: "'a::len word"
proof
  assume "a XOR c = b XOR c"
  then have "(a XOR c) XOR c = (b XOR c) XOR c" by (rule arg_cong)
  then show "a = b" by (simp add: xor.assoc)
qed simp

lemma xor_cancel_left: "c XOR a = c XOR b \<longleftrightarrow> a = b" for a b c :: "'a::len word"
  using xor_cancel_right[of a c b] unfolding xor.commute[of c] .

lemma xor_eq_0: "a XOR b = 0 \<longleftrightarrow> a = b" for a b :: "'a::len word"
  using xor_cancel_right[of a b b] by simp

text \<open>One step of building a table: the values of all numbers below the next power of two.\<close>

definition double_table :: "'b::len word list \<Rightarrow> 'b word \<Rightarrow> 'b word list" where
  "double_table t p = t @ map (\<lambda>x. p XOR x) t"

locale xor_linear =
  fixes f :: "'a::len word \<Rightarrow> 'b::len word"
  assumes f_xor: "f (a XOR b) = f a XOR f b"
begin

lemma f_0 [simp]: "f 0 = 0"
  using f_xor[of 0 0] by simp

lemma f_inject: "(\<And>x. f x = 0 \<Longrightarrow> x = 0) \<Longrightarrow> f a = f b \<longleftrightarrow> a = b"
  using f_xor[of a b] by (metis xor_eq_0)

lemma table_step:
  assumes "k < LENGTH('a)"
  shows "double_table (map (\<lambda>n. f (word_of_nat n)) [0..<2 ^ k]) (f (2 ^ k)) = map (\<lambda>n. f (word_of_nat n)) [0..<2 ^ Suc k]"
proof -
  have "word_of_nat (2 ^ k + n) = (2 ^ k XOR word_of_nat n :: 'a word)" if "n < 2 ^ k" for n
  proof -
    have "(word_of_nat n :: 'a word) = take_bit k (word_of_nat n)"
      using that by (simp add: of_nat_take_bit[symmetric] take_bit_nat_eq_self)
    then have "\<not> bit (word_of_nat n :: 'a word) k" by (metis bit_take_bit_iff less_irrefl)
    then have "(2 ^ k :: 'a word) AND word_of_nat n = 0"
      by (intro bit_word_eqI) (auto simp: bit_and_iff bit_exp_iff)
    then show ?thesis by (simp add: disjunctive_add_eq_xor)
  qed
  then have "map (\<lambda>n. f (word_of_nat n)) [2 ^ k..<2 ^ k + 2 ^ k] = map (\<lambda>n. f (2 ^ k) XOR f (word_of_nat n)) [0..<2 ^ k]"
    by (intro nth_equalityI) (simp_all add: f_xor)
  moreover have "[0..<2 ^ Suc k] = [0..<2 ^ k] @ [2 ^ k..<2 ^ k + 2 ^ k :: nat]" by (simp add: mult_2 flip: upt_add_eq_append)
  ultimately show ?thesis by (simp only: double_table_def map_append map_map comp_def)
qed

lemma table_doubled:
  "j \<le> LENGTH('a) \<Longrightarrow> foldl double_table [0] (map (\<lambda>k. f (2 ^ k)) [0..<j]) = map (\<lambda>n. f (word_of_nat n)) [0..<2 ^ j]"
proof (induction j)
  case (Suc j)
  then show ?case using table_step[of j] by (simp del: power_Suc)
qed simp

end

end
