(* ===== verification/Crc32.thy ===== *)
theory Crc32
  imports Stream_Hash Xor_Linear
begin

text \<open>
  The CRC-32 of lib/crc32.c, which guards the environment and images: a table of 256 words, a byte loop
  up to an aligned address, a loop over words and a byte loop for the rest. A buffer is a byte list at
  an address \<open>a\<close>, of which only the alignment matters; \<open>None\<close> is a read outside of it. The machine is
  little-endian, so the conversions of the table and of the result are the identity.
\<close>

section \<open>Model\<close>

definition crc_table :: "u32 list" where
  "crc_table =
    [0x00000000, 0x77073096, 0xee0e612c, 0x990951ba, 0x076dc419, 0x706af48f, 0xe963a535, 0x9e6495a3,
     0x0edb8832, 0x79dcb8a4, 0xe0d5e91e, 0x97d2d988, 0x09b64c2b, 0x7eb17cbd, 0xe7b82d07, 0x90bf1d91,
     0x1db71064, 0x6ab020f2, 0xf3b97148, 0x84be41de, 0x1adad47d, 0x6ddde4eb, 0xf4d4b551, 0x83d385c7,
     0x136c9856, 0x646ba8c0, 0xfd62f97a, 0x8a65c9ec, 0x14015c4f, 0x63066cd9, 0xfa0f3d63, 0x8d080df5,
     0x3b6e20c8, 0x4c69105e, 0xd56041e4, 0xa2677172, 0x3c03e4d1, 0x4b04d447, 0xd20d85fd, 0xa50ab56b,
     0x35b5a8fa, 0x42b2986c, 0xdbbbc9d6, 0xacbcf940, 0x32d86ce3, 0x45df5c75, 0xdcd60dcf, 0xabd13d59,
     0x26d930ac, 0x51de003a, 0xc8d75180, 0xbfd06116, 0x21b4f4b5, 0x56b3c423, 0xcfba9599, 0xb8bda50f,
     0x2802b89e, 0x5f058808, 0xc60cd9b2, 0xb10be924, 0x2f6f7c87, 0x58684c11, 0xc1611dab, 0xb6662d3d,
     0x76dc4190, 0x01db7106, 0x98d220bc, 0xefd5102a, 0x71b18589, 0x06b6b51f, 0x9fbfe4a5, 0xe8b8d433,
     0x7807c9a2, 0x0f00f934, 0x9609a88e, 0xe10e9818, 0x7f6a0dbb, 0x086d3d2d, 0x91646c97, 0xe6635c01,
     0x6b6b51f4, 0x1c6c6162, 0x856530d8, 0xf262004e, 0x6c0695ed, 0x1b01a57b, 0x8208f4c1, 0xf50fc457,
     0x65b0d9c6, 0x12b7e950, 0x8bbeb8ea, 0xfcb9887c, 0x62dd1ddf, 0x15da2d49, 0x8cd37cf3, 0xfbd44c65,
     0x4db26158, 0x3ab551ce, 0xa3bc0074, 0xd4bb30e2, 0x4adfa541, 0x3dd895d7, 0xa4d1c46d, 0xd3d6f4fb,
     0x4369e96a, 0x346ed9fc, 0xad678846, 0xda60b8d0, 0x44042d73, 0x33031de5, 0xaa0a4c5f, 0xdd0d7cc9,
     0x5005713c, 0x270241aa, 0xbe0b1010, 0xc90c2086, 0x5768b525, 0x206f85b3, 0xb966d409, 0xce61e49f,
     0x5edef90e, 0x29d9c998, 0xb0d09822, 0xc7d7a8b4, 0x59b33d17, 0x2eb40d81, 0xb7bd5c3b, 0xc0ba6cad,
     0xedb88320, 0x9abfb3b6, 0x03b6e20c, 0x74b1d29a, 0xead54739, 0x9dd277af, 0x04db2615, 0x73dc1683,
     0xe3630b12, 0x94643b84, 0x0d6d6a3e, 0x7a6a5aa8, 0xe40ecf0b, 0x9309ff9d, 0x0a00ae27, 0x7d079eb1,
     0xf00f9344, 0x8708a3d2, 0x1e01f268, 0x6906c2fe, 0xf762575d, 0x806567cb, 0x196c3671, 0x6e6b06e7,
     0xfed41b76, 0x89d32be0, 0x10da7a5a, 0x67dd4acc, 0xf9b9df6f, 0x8ebeeff9, 0x17b7be43, 0x60b08ed5,
     0xd6d6a3e8, 0xa1d1937e, 0x38d8c2c4, 0x4fdff252, 0xd1bb67f1, 0xa6bc5767, 0x3fb506dd, 0x48b2364b,
     0xd80d2bda, 0xaf0a1b4c, 0x36034af6, 0x41047a60, 0xdf60efc3, 0xa867df55, 0x316e8eef, 0x4669be79,
     0xcb61b38c, 0xbc66831a, 0x256fd2a0, 0x5268e236, 0xcc0c7795, 0xbb0b4703, 0x220216b9, 0x5505262f,
     0xc5ba3bbe, 0xb2bd0b28, 0x2bb45a92, 0x5cb36a04, 0xc2d7ffa7, 0xb5d0cf31, 0x2cd99e8b, 0x5bdeae1d,
     0x9b64c2b0, 0xec63f226, 0x756aa39c, 0x026d930a, 0x9c0906a9, 0xeb0e363f, 0x72076785, 0x05005713,
     0x95bf4a82, 0xe2b87a14, 0x7bb12bae, 0x0cb61b38, 0x92d28e9b, 0xe5d5be0d, 0x7cdcefb7, 0x0bdbdf21,
     0x86d3d2d4, 0xf1d4e242, 0x68ddb3f8, 0x1fda836e, 0x81be16cd, 0xf6b9265b, 0x6fb077e1, 0x18b74777,
     0x88085ae6, 0xff0f6a70, 0x66063bca, 0x11010b5c, 0x8f659eff, 0xf862ae69, 0x616bffd3, 0x166ccf45,
     0xa00ae278, 0xd70dd2ee, 0x4e048354, 0x3903b3c2, 0xa7672661, 0xd06016f7, 0x4969474d, 0x3e6e77db,
     0xaed16a4a, 0xd9d65adc, 0x40df0b66, 0x37d83bf0, 0xa9bcae53, 0xdebb9ec5, 0x47b2cf7f, 0x30b5ffe9,
     0xbdbdf21c, 0xcabac28a, 0x53b39330, 0x24b4a3a6, 0xbad03605, 0xcdd70693, 0x54de5729, 0x23d967bf,
     0xb3667a2e, 0xc4614ab8, 0x5d681b02, 0x2a6f2b94, 0xb40bbe37, 0xc30c8ea1, 0x5a05df1b, 0x2d02ef8d]"

text \<open>With \<open>DYNAMIC_CRC_TABLE\<close> the table is computed from the exponents of the polynomial.\<close>

definition crc_poly_terms :: "nat list" where
  "crc_poly_terms = [0, 1, 2, 4, 5, 7, 8, 10, 11, 12, 16, 22, 23, 26]"

definition make_poly :: u32 where
  "make_poly = foldl (\<lambda>poly p. poly OR push_bit (31 - p) 1) 0 crc_poly_terms"

fun make_entry :: "nat \<Rightarrow> u32 \<Rightarrow> u32" where
  "make_entry 0 c = c"
| "make_entry (Suc k) c =
     make_entry k (if c AND 1 \<noteq> 0 then make_poly XOR drop_bit 1 c else drop_bit 1 c)"

definition make_crc_table :: "u32 list" where
  "make_crc_table = map (\<lambda>n. make_entry 8 (word_of_nat n)) [0..<256]"

definition DO_CRC :: "u32 \<Rightarrow> u32 \<Rightarrow> u32" where
  "DO_CRC crc x = crc_table ! unat ((crc XOR x) AND 255) XOR drop_bit 8 crc"

text \<open>The position \<open>i\<close> in the buffer and the remaining length\<close>

fun align_loop :: "nat \<Rightarrow> u8 list \<Rightarrow> u32 \<Rightarrow> nat \<Rightarrow> nat \<Rightarrow> (u32 \<times> nat \<times> nat) option" where
  "align_loop a buf crc i 0 = Some (crc, i, 0)"
| "align_loop a buf crc i (Suc len) =
     (if (a + i) mod 4 \<noteq> 0 then do {
        x \<leftarrow> arr_get buf i;
        align_loop a buf (DO_CRC crc (ucast x)) (i + 1) len
      }
      else Some (crc, i, Suc len))"

fun word_loop :: "u8 list \<Rightarrow> u32 \<Rightarrow> nat \<Rightarrow> nat \<Rightarrow> (u32 \<times> nat) option" where
  "word_loop buf crc i 0 = Some (crc, i)"
| "word_loop buf crc i (Suc len) =
     (if i + 4 \<le> length buf then
        (let crc = crc XOR get_le32 buf i;
             crc = DO_CRC crc 0;
             crc = DO_CRC crc 0;
             crc = DO_CRC crc 0;
             crc = DO_CRC crc 0
         in word_loop buf crc (i + 4) len)
      else None)"

fun tail_loop :: "u8 list \<Rightarrow> u32 \<Rightarrow> nat \<Rightarrow> nat \<Rightarrow> u32 option" where
  "tail_loop buf crc i 0 = Some crc"
| "tail_loop buf crc i (Suc len) = do {
     x \<leftarrow> arr_get buf i;
     tail_loop buf (DO_CRC crc (ucast x)) (i + 1) len
   }"

definition crc32_no_comp :: "u32 \<Rightarrow> nat \<Rightarrow> u8 list \<Rightarrow> nat \<Rightarrow> u32 option" where
  "crc32_no_comp crc a buf len = do {
     (crc, i, len) \<leftarrow> align_loop a buf crc 0 len;
     (crc, i) \<leftarrow> word_loop buf crc i (len div 4);
     tail_loop buf crc i (len mod 4)
   }"

definition crc32 :: "u32 \<Rightarrow> nat \<Rightarrow> u8 list \<Rightarrow> nat \<Rightarrow> u32 option" where
  "crc32 crc a p len = map_option (\<lambda>c. c XOR 0xFFFFFFFF) (crc32_no_comp (crc XOR 0xFFFFFFFF) a p len)"

text \<open>With a watchdog the buffer is taken in chunks of \<open>chunk_sz\<close> bytes; for the chunk size zero the
  loop never ends, the value \<open>None\<close>.\<close>

partial_function (option) crc32_wd_loop :: "nat \<Rightarrow> u8 list \<Rightarrow> nat \<Rightarrow> nat \<Rightarrow> u32 \<Rightarrow> nat \<Rightarrow> u32 option" where
  "crc32_wd_loop a buf len chunk_sz crc i =
     (if i < len then do {
        crc \<leftarrow> crc32 crc (a + i) (drop i buf) (if len - i > chunk_sz then chunk_sz else len - i);
        crc32_wd_loop a buf len chunk_sz crc (i + (if len - i > chunk_sz then chunk_sz else len - i))
      }
      else Some crc)"

definition crc32_wd :: "bool \<Rightarrow> u32 \<Rightarrow> nat \<Rightarrow> u8 list \<Rightarrow> nat \<Rightarrow> nat \<Rightarrow> u32 option" where
  "crc32_wd watchdog crc a buf len chunk_sz =
     (if watchdog then crc32_wd_loop a buf len chunk_sz crc 0 else crc32 crc a buf len)"

text \<open>The checksum in network byte order\<close>

definition crc32_wd_buf :: "bool \<Rightarrow> nat \<Rightarrow> u8 list \<Rightarrow> nat \<Rightarrow> u8 list \<Rightarrow> nat \<Rightarrow> u8 list option" where
  "crc32_wd_buf watchdog a input ilen output chunk_sz = do {
     crc \<leftarrow> crc32_wd watchdog 0 a input ilen chunk_sz;
     (if 4 \<le> length output then Some (blit output 0 (be32 crc)) else None)
   }"

section \<open>The shift register\<close>

text \<open>The reference: one bit at a time, least significant bit of each byte first.\<close>

definition crc_poly :: u32 where "crc_poly = 0xEDB88320"

definition crc_bit :: "u32 \<Rightarrow> bool \<Rightarrow> u32" where
  "crc_bit c b = (if bit c 0 \<noteq> b then crc_poly XOR drop_bit 1 c else drop_bit 1 c)"

definition msg_bits :: "u8 list \<Rightarrow> bool list" where
  "msg_bits msg = concat (map (\<lambda>x. map (bit x) [0..<8]) msg)"

definition crc_ref :: "u32 \<Rightarrow> u8 list \<Rightarrow> u32" where
  "crc_ref crc msg = NOT (foldl crc_bit (NOT crc) (msg_bits msg))"

definition crc_step :: "u32 \<Rightarrow> u32" where
  "crc_step c = (if bit c 0 then crc_poly XOR drop_bit 1 c else drop_bit 1 c)"

abbreviation (input) crc_steps :: "nat \<Rightarrow> u32 \<Rightarrow> u32" where "crc_steps n \<equiv> (crc_step ^^ n)"

lemma bit_crc_step: "bit (crc_step c) n \<longleftrightarrow> (bit crc_poly n \<and> bit c 0) \<noteq> bit c (Suc n)"
  by (auto simp: crc_step_def bit_xor_iff bit_drop_bit_eq)

lemma crc_step_xor: "crc_step (a XOR b) = crc_step a XOR crc_step b"
  by (rule bit_word_eqI) (auto simp: bit_crc_step bit_xor_iff)

lemma crc_steps_xor: "crc_steps n (a XOR b) = crc_steps n a XOR crc_steps n b"
  by (induction n) (simp_all add: crc_step_xor)

interpretation crc_1: xor_linear crc_step
  by unfold_locales (rule crc_step_xor)

interpretation crc_n: xor_linear "crc_steps n" for n
  by unfold_locales (rule crc_steps_xor)

lemma crc_step_zero: "crc_step c = 0 \<Longrightarrow> c = 0"
proof (rule bit_word_eqI)
  fix n assume c: "crc_step c = 0" and n: "n < LENGTH(32)"
  have "bit (crc_step c) 31 \<longleftrightarrow> bit c 0"
    using bit_imp_le_length[of c 32] by (auto simp: bit_crc_step crc_poly_def)
  then have b0: "\<not> bit c 0" using c by simp
  then have "drop_bit 1 c = 0" using c by (simp add: crc_step_def)
  then have "\<not> bit c (1 + (n - 1))" using bit_drop_bit_eq[of 1 c] by (metis bit_0_eq bot_apply comp_apply bot_bool_def)
  then show "bit c n \<longleftrightarrow> bit (0 :: u32) n" using b0 by (cases n) auto
qed

lemma crc_step_inject: "crc_step a = crc_step b \<longleftrightarrow> a = b"
  by (rule crc_1.f_inject) (rule crc_step_zero)

lemma crc_steps_inject: "crc_steps n a = crc_steps n b \<longleftrightarrow> a = b"
  by (induction n) (simp_all add: crc_step_inject)

text \<open>Zero bits at the low end only shift the register.\<close>

lemma crc_steps_low: "n \<le> 32 \<Longrightarrow> take_bit n c = 0 \<Longrightarrow> crc_steps n c = drop_bit n c"
proof (induction n arbitrary: c)
  case (Suc n)
  have b: "\<not> bit c k" if "k < Suc n" for k using Suc.prems that by (metis bit_take_bit_iff bit_0_eq bot_apply bot_bool_def)
  have "crc_step c = drop_bit 1 c" using b[of 0] by (simp add: crc_step_def)
  moreover have "take_bit n (drop_bit 1 c) = 0"
    using b by (intro bit_word_eqI) (auto simp: bit_take_bit_iff bit_drop_bit_eq)
  then have "crc_steps n (drop_bit 1 c) = drop_bit n (drop_bit 1 c)" using Suc by simp
  ultimately show ?case by (simp add: funpow_swap1 drop_bit_drop_bit)
qed simp

lemma take_drop_xor: "c = take_bit n c XOR push_bit n (drop_bit n c)" for c :: u32
  by (rule bit_word_eqI) (auto simp: bit_simps)

lemma drop_push_drop: "drop_bit n (push_bit n (drop_bit n c)) = drop_bit n c" for c :: u32
  by (rule bit_word_eqI) (use bit_imp_le_length[of c] in \<open>force simp: bit_simps\<close>)

lemma crc_steps_high: "n \<le> 32 \<Longrightarrow> crc_steps n (push_bit n (drop_bit n c)) = drop_bit n c"
  by (subst crc_steps_low) (simp_all add: take_bit_push_bit drop_push_drop)

lemma crc_steps_split: "n \<le> 32 \<Longrightarrow> crc_steps n c = crc_steps n (take_bit n c) XOR drop_bit n c"
  using crc_steps_xor[of n "take_bit n c" "push_bit n (drop_bit n c)"] take_drop_xor[of c n] crc_steps_high[of n c] by simp

text \<open>Up to 32 bits at once\<close>

lemma crc_bit_step: "crc_bit c b = crc_step (c XOR of_bool b)"
  by (auto simp: crc_bit_def crc_step_def bit_xor_iff drop_bit_xor)

lemma bits_Suc: "map (bit w) [0..<Suc n] = bit w 0 # map (bit (drop_bit 1 w)) [0..<n]" for w :: u32
  by (simp add: upt_conv_Cons map_Suc_upt[symmetric] bit_drop_bit_eq comp_def del: upt_Suc)

lemma crc_bits: "n \<le> 32 \<Longrightarrow> take_bit n w = w \<Longrightarrow> foldl crc_bit c (map (bit w) [0..<n]) = crc_steps n (c XOR w)"
proof (induction n arbitrary: c w)
  case (Suc n)
  have tk: "take_bit n (drop_bit 1 w) = drop_bit 1 w"
  proof (rule bit_word_eqI)
    fix k assume "k < LENGTH(32)"
    have "bit w (Suc k) \<Longrightarrow> k < n" using Suc.prems(2) by (metis bit_take_bit_iff Suc_less_eq)
    then show "bit (take_bit n (drop_bit 1 w)) k \<longleftrightarrow> bit (drop_bit 1 w) k" by (auto simp: bit_take_bit_iff bit_drop_bit_eq)
  qed
  have one: "w = of_bool (bit w 0) XOR push_bit 1 (drop_bit 1 w)"
    using take_drop_xor[of w 1] by (simp add: take_bit_Suc bit_0 mod_2_eq_odd)
  have "crc_step (push_bit 1 (drop_bit 1 w)) = drop_bit 1 w"
    using crc_steps_high[of 1 w] by simp
  then have "crc_step (c XOR w) = crc_step (c XOR of_bool (bit w 0)) XOR drop_bit 1 w"
    using crc_step_xor[of "c XOR of_bool (bit w 0)" "push_bit 1 (drop_bit 1 w)"] one by (simp add: xor.assoc)
  with Suc.IH[OF _ tk] Suc.prems show ?case
    unfolding bits_Suc by (simp add: crc_bit_step funpow_swap1 del: upt_Suc)
qed simp
section \<open>The table\<close>

lemma make_poly_eq: "make_poly = crc_poly"
  by (simp add: make_poly_def crc_poly_terms_def crc_poly_def)

lemma make_entry_steps: "make_entry k c = crc_steps k c"
proof (induction k arbitrary: c)
  case (Suc k)
  have "c AND 1 \<noteq> 0 \<longleftrightarrow> bit c 0" by (simp add: and_one_eq mod_2_eq_odd bit_0)
  then have "make_entry (Suc k) c = make_entry k (crc_step c)" by (simp only: make_entry.simps crc_step_def make_poly_eq)
  then show ?case using Suc by (simp only: funpow_swap1 funpow.simps comp_apply)
qed simp

text \<open>The register is linear, so the table doubles with each power of two.\<close>

lemma crc_step_values:
  "crc_step 1 = 0xEDB88320"
  "crc_step 0xEDB88320 = 0x76DC4190"
  "crc_step 0x76DC4190 = 0x3B6E20C8"
  "crc_step 0x3B6E20C8 = 0x1DB71064"
  "crc_step 0x1DB71064 = 0xEDB8832"
  "crc_step 0xEDB8832 = 0x76DC419"
  "crc_step 0x76DC419 = 0xEE0E612C"
  "crc_step 0xEE0E612C = 0x77073096"
  by (simp_all add: crc_step_def crc_poly_def)

lemma crc_step_double: "k < 31 \<Longrightarrow> crc_step (2 ^ Suc k) = 2 ^ k"
  by (rule bit_word_eqI) (auto simp: bit_crc_step bit_exp_iff simp del: power_Suc)

lemma crc_powers: "crc_steps 8 (2 ^ k) = crc_steps (8 - k) 1" if "k \<le> 8" for k
proof -
  have "crc_steps k (2 ^ k) = 1" if "k \<le> 8" for k
    using that by (induction k) (simp_all add: funpow_swap1 crc_step_double del: power_Suc)
  moreover have "crc_steps (8 - k + k) (2 ^ k) = crc_steps (8 - k) (crc_steps k (2 ^ k))" by (simp only: funpow_add comp_apply)
  ultimately show ?thesis using that by simp
qed

lemma crc_one_values:
  "crc_steps 1 1 = 0xEDB88320"
  "crc_steps 2 1 = 0x76DC4190"
  "crc_steps 3 1 = 0x3B6E20C8"
  "crc_steps 4 1 = 0x1DB71064"
  "crc_steps 5 1 = 0xEDB8832"
  "crc_steps 6 1 = 0x76DC419"
  "crc_steps 7 1 = 0xEE0E612C"
  "crc_steps 8 1 = 0x77073096"
  by (simp_all add: eval_nat_numeral crc_step_values)

lemma crc_power_values:
  "map (\<lambda>k. crc_steps 8 (2 ^ k)) [0..<8] = [0x77073096, 0xEE0E612C, 0x76DC419, 0xEDB8832, 0x1DB71064, 0x3B6E20C8, 0x76DC4190, 0xEDB88320]"
proof -
  have "[0..<8] = [0, 1, 2, 3, 4, 5, 6, 7 :: nat]" by code_simp
  then show ?thesis by (simp only: list.map crc_powers) (simp add: crc_one_values crc_step_values)
qed

lemma crc_table_doubled: "crc_table = foldl double_table [0] (map (\<lambda>k. crc_steps 8 (2 ^ k)) [0..<8])"
  unfolding crc_power_values by (simp add: crc_table_def double_table_def)

text \<open>The table in the source is the one that the source can compute.\<close>

lemma crc_table_steps: "crc_table = map (\<lambda>n. crc_steps 8 (word_of_nat n)) [0..<256]"
  using crc_n.table_doubled[of 8 8] by (simp add: crc_table_doubled del: upt_rec_numeral)

lemma crc_table_made: "crc_table = make_crc_table"
  by (simp add: crc_table_steps make_crc_table_def make_entry_steps del: upt_rec_numeral)

lemma crc_table_nth: "n < 256 \<Longrightarrow> crc_table ! n = crc_steps 8 (word_of_nat n)"
  by (simp add: crc_table_steps del: upt_rec_numeral)

section \<open>The loops\<close>

lemma do_crc_steps: "take_bit 8 x = x \<Longrightarrow> DO_CRC crc x = crc_steps 8 (crc XOR x)"
proof -
  assume x: "take_bit 8 x = x"
  have m: "(crc XOR x) AND 255 = take_bit 8 (crc XOR x)" by (simp add: take_bit_eq_mask mask_eq_exp_minus_1)
  have lt: "unat (take_bit 8 (crc XOR x)) < 256"
    using take_bit_nat_less_exp[of 8 "unat (crc XOR x)"] by (simp only: unsigned_take_bit_eq) simp
  have "\<not> bit x k" if "8 \<le> k" for k using x that by (metis bit_take_bit_iff not_le)
  then have "drop_bit 8 (crc XOR x) = drop_bit 8 crc" by (intro bit_word_eqI) (simp add: bit_drop_bit_eq bit_xor_iff)
  then show ?thesis using crc_table_nth[OF lt] crc_steps_split[of 8 "crc XOR x"] unfolding DO_CRC_def m by simp
qed

lemma do_crc_byte: "DO_CRC crc (ucast (x :: u8)) = foldl crc_bit crc (map (bit x) [0..<8])"
proof -
  have tk: "take_bit 8 (ucast x :: u32) = ucast x"
    by (rule bit_word_eqI) (use bit_imp_le_length[of x] in \<open>auto simp: bit_simps\<close>)
  have "map (bit x) [0..<8] = map (bit (ucast x :: u32)) [0..<8]"
    by (rule map_cong) (auto simp: bit_simps)
  then show ?thesis unfolding do_crc_steps[OF tk] by (simp only: crc_bits[OF _ tk])
qed

lemma msg_bits_simps [simp]: "msg_bits [] = []" "msg_bits (x # xs) = map (bit x) [0..<8] @ msg_bits xs"
  "msg_bits (xs @ ys) = msg_bits xs @ msg_bits ys"
  by (simp_all add: msg_bits_def)

lemma le32_bits: "i + 4 \<le> length b \<Longrightarrow> msg_bits (take 4 (drop i b)) = map (bit (get_le32 b i)) [0..<32]"
proof -
  assume i: "i + 4 \<le> length b"
  have "take 4 (drop i b) = [b ! i, b ! (i + 1), b ! (i + 2), b ! (i + 3)]"
    using i by (intro nth_equalityI) (auto simp: nth_Cons' less_Suc_eq numeral_eq_Suc)
  moreover have "[0..<32] = [0..<8] @ [8..<16] @ [16..<24] @ [24..<32 :: nat]" by code_simp
  moreover have "map (bit (b ! i)) [0..<8] = map (bit (get_le32 b i)) [0..<8]"
    "map (bit (b ! (i + 1))) [0..<8] = map (bit (get_le32 b i)) [8..<16]"
    "map (bit (b ! (i + 2))) [0..<8] = map (bit (get_le32 b i)) [16..<24]"
    "map (bit (b ! (i + 3))) [0..<8] = map (bit (get_le32 b i)) [24..<32]"
    using bit_imp_le_length[where ?'a = 8]
    by (intro nth_equalityI; force simp: get_le32_def bit_simps simp del: upt_rec_numeral)+
  ultimately show ?thesis by (simp del: upt_rec_numeral)
qed

lemma four_steps: "DO_CRC (DO_CRC (DO_CRC (DO_CRC crc 0) 0) 0) 0 = crc_steps 32 crc"
proof -
  have "DO_CRC c 0 = crc_steps 8 c" for c using do_crc_steps[of 0 c] by simp
  moreover have "crc_steps 8 (crc_steps 8 (crc_steps 8 (crc_steps 8 crc))) = crc_steps (8 + (8 + (8 + 8))) crc"
    by (simp only: funpow_add comp_apply)
  ultimately show ?thesis by simp
qed

text \<open>Each loop runs the shift register over the bytes that it reads.\<close>

abbreviation (input) crc_run :: "u32 \<Rightarrow> u8 list \<Rightarrow> u32" where "crc_run c xs \<equiv> foldl crc_bit c (msg_bits xs)"

lemma take_Suc_drop: "i < length xs \<Longrightarrow> take (Suc n) (drop i xs) = xs ! i # take n (drop (i + 1) xs)"
  by (simp add: Cons_nth_drop_Suc[symmetric])

lemma align_loop_run:
  "i + len \<le> length b \<Longrightarrow> \<exists>k. k \<le> len \<and> align_loop a b crc i len = Some (crc_run crc (take k (drop i b)), i + k, len - k)"
proof (induction len arbitrary: crc i)
  case (Suc len)
  show ?case
  proof (cases "(a + i) mod 4 = 0")
    case False
    obtain k where "k \<le> len" "align_loop a b (DO_CRC crc (ucast (b ! i))) (i + 1) len =
        Some (crc_run (DO_CRC crc (ucast (b ! i))) (take k (drop (i + 1) b)), i + 1 + k, len - k)"
      using Suc.IH[of "i + 1"] Suc.prems by auto
    then show ?thesis using False Suc.prems
      by (intro exI[of _ "Suc k"]) (simp add: take_Suc_drop do_crc_byte del: upt_rec_numeral drop_Suc take_Suc_Cons)
  qed (auto intro: exI[of _ 0])
qed simp

lemma word_loop_run:
  "i + 4 * len \<le> length b \<Longrightarrow> word_loop b crc i len = Some (crc_run crc (take (4 * len) (drop i b)), i + 4 * len)"
proof (induction len arbitrary: crc i)
  case (Suc len)
  have "crc_run crc (take 4 (drop i b)) = crc_steps 32 (crc XOR get_le32 b i)"
    using crc_bits[of 32 "get_le32 b i" crc] le32_bits[of i b] Suc.prems
    by (simp add: take_bit_word_eq_self)
  moreover have "take (4 * Suc len) (drop i b) = take 4 (drop i b) @ take (4 * len) (drop (i + 4) b)"
    by (simp add: take_add[symmetric] add.commute take_add)
  ultimately show ?case using Suc.IH[of "i + 4"] Suc.prems by (simp add: four_steps Let_def add_ac)
qed simp

lemma tail_loop_run: "i + len \<le> length b \<Longrightarrow> tail_loop b crc i len = Some (crc_run crc (take len (drop i b)))"
  by (induction len arbitrary: crc i) (simp_all add: take_Suc_drop do_crc_byte del: upt_rec_numeral drop_Suc)

lemma crc32_no_comp_run:
  assumes "len \<le> length b"
  shows "crc32_no_comp crc a b len = Some (crc_run crc (take len b))"
proof -
  obtain k where k: "k \<le> len" "align_loop a b crc 0 len = Some (crc_run crc (take k b), k, len - k)"
    using align_loop_run[of 0 len b a crc] assms by auto
  define w where "w = 4 * ((len - k) div 4)"
  have "len = k + (w + (len - k) mod 4)" using k(1) by (simp add: w_def)
  then have parts: "take len b = take k b @ take w (drop k b) @ take ((len - k) mod 4) (drop (k + w) b)"
    by (metis take_add drop_drop add.commute)
  have "k + w + (len - k) mod 4 \<le> length b" using k(1) assms by (simp add: w_def)
  then show ?thesis unfolding parts using k
    by (simp add: crc32_no_comp_def word_loop_run tail_loop_run w_def del: upt_rec_numeral)
qed

lemma crc32_ref: "len \<le> length b \<Longrightarrow> crc32 crc a b len = Some (crc_ref crc (take len b))"
proof -
  have "c XOR 0xFFFFFFFF = NOT c" for c :: u32
    by (rule bit_word_eqI) (auto simp: bit_simps less_Suc_eq numeral_eq_Suc)
  then show "len \<le> length b \<Longrightarrow> ?thesis" by (simp add: crc32_def crc32_no_comp_run crc_ref_def)
qed

lemma crc_ref_append: "crc_ref crc (xs @ ys) = crc_ref (crc_ref crc xs) ys"
  by (simp add: crc_ref_def)

lemma crc32_wd_loop_ref:
  assumes "0 < chunk_sz" "len \<le> length b"
  shows "i \<le> len \<Longrightarrow> crc32_wd_loop a b len chunk_sz crc i = Some (crc_ref crc (take (len - i) (drop i b)))"
proof (induction "len - i" arbitrary: i crc rule: less_induct)
  case less
  show ?case
  proof (cases "i < len")
    case True
    define c where "c = (if len - i > chunk_sz then chunk_sz else len - i)"
    have c: "0 < c" "i + c \<le> len" using True assms(1) by (auto simp: c_def)
    have "crc32_wd_loop a b len chunk_sz crc i =
        crc32_wd_loop a b len chunk_sz (crc_ref crc (take c (drop i b))) (i + c)"
      using True c assms(2) by (subst crc32_wd_loop.simps) (simp add: crc32_ref flip: c_def)
    also have "\<dots> = Some (crc_ref (crc_ref crc (take c (drop i b))) (take (len - (i + c)) (drop (i + c) b)))"
      using c by (intro less) auto
    also have "\<dots> = Some (crc_ref crc (take (c + (len - (i + c))) (drop i b)))"
      by (simp only: crc_ref_append[symmetric] take_add drop_drop add.commute)
    finally show ?thesis using c by simp
  qed (use less.prems in \<open>simp add: crc32_wd_loop.simps crc_ref_def\<close>)
qed

text \<open>C34: \<open>crc32\<close>, with its table, its alignment loop and its loop over words, computes the CRC of the bitwise
  shift register for every alignment and every length, and reads only the given bytes; \<open>crc32_wd\<close>
  returns the same for every positive chunk size, with and without a watchdog.\<close>

theorem crc32_correct:
  assumes "len \<le> length b"
  shows "crc32 crc a b len = Some (crc_ref crc (take len b)) \<and>
    (0 < chunk_sz \<longrightarrow> crc32_wd watchdog crc a b len chunk_sz = Some (crc_ref crc (take len b)))"
  using assms crc32_ref crc32_wd_loop_ref[of chunk_sz len b 0 a crc] by (simp add: crc32_wd_def)

theorem crc32_correct_witness:
  "crc32 0 3 [0x31, 0x32, 0x33, 0x34, 0x35, 0x36, 0x37, 0x38, 0x39] 9 =
     Some (crc_ref 0 [0x31, 0x32, 0x33, 0x34, 0x35, 0x36, 0x37, 0x38, 0x39])"
  using crc32_correct[of 9 "[0x31, 0x32, 0x33, 0x34, 0x35, 0x36, 0x37, 0x38, 0x39]" 0 3] by simp

section \<open>Detected errors\<close>

lemma crc_bit_inject: "crc_bit c b = crc_bit c' b \<longleftrightarrow> c = c'"
  by (simp add: crc_bit_step crc_step_inject xor_cancel_right)

lemma crc_run_inject: "foldl crc_bit c bs = foldl crc_bit c' bs \<longleftrightarrow> c = c'"
  by (induction bs arbitrary: c c') (simp_all add: crc_bit_inject)

lemma crc_run_burst:
  assumes "length x = length y" "length x \<le> 32" "foldl crc_bit c x = foldl crc_bit c y"
  shows "x = y"
proof -
  have bits: "map (bit (horner_sum of_bool 2 bs :: u32)) [0..<length bs] = bs" "take_bit (length bs) (horner_sum of_bool 2 bs :: u32) = horner_sum of_bool 2 bs"
    if "length bs \<le> 32" for bs
  proof -
    show "map (bit (horner_sum of_bool 2 bs :: u32)) [0..<length bs] = bs"
      using that by (intro nth_equalityI) (simp_all add: bit_horner_sum_bit_word_iff)
    show "take_bit (length bs) (horner_sum of_bool 2 bs :: u32) = horner_sum of_bool 2 bs"
      by (rule bit_word_eqI) (auto simp: bit_horner_sum_bit_word_iff bit_take_bit_iff)
  qed
  let ?x = "horner_sum of_bool 2 x :: u32" and ?y = "horner_sum of_bool 2 y :: u32"
  have run: "foldl crc_bit c bs = crc_steps (length bs) (c XOR horner_sum of_bool 2 bs)" if "length bs \<le> 32" for bs
    using crc_bits[OF that bits(2)[OF that], of c] bits(1)[OF that] by simp
  have "c XOR ?x = c XOR ?y" using assms run[of x] run[of y] by (simp add: crc_steps_inject)
  then have "?x = ?y" by (simp only: xor_cancel_left)
  have "x = map (bit ?x) [0..<length x]" by (rule bits(1)[OF assms(2), symmetric])
  also have "\<dots> = map (bit ?y) [0..<length y]" by (simp only: \<open>?x = ?y\<close> assms(1))
  also have "\<dots> = y" using assms(1,2) by (intro bits(1)) simp
  finally show "x = y" .
qed

lemma crc_ref_burst:
  assumes m: "msg_bits m1 = p @ x @ q" "msg_bits m2 = p @ y @ q"
    and xy: "length x = length y" "length x \<le> 32" "x \<noteq> y"
  shows "crc_ref crc m1 \<noteq> crc_ref crc m2"
proof
  assume "crc_ref crc m1 = crc_ref crc m2"
  then have "foldl crc_bit (foldl crc_bit (NOT crc) p) (x @ q) = foldl crc_bit (foldl crc_bit (NOT crc) p) (y @ q)"
    by (simp add: crc_ref_def m)
  then show False using crc_run_burst[OF xy(1,2)] xy(3) by (simp add: crc_run_inject)
qed

text \<open>C35: A burst error of up to 32 bits always changes the checksum: two messages of the same length that
  differ only inside a window of 32 bits, at any bit position, have different CRCs.\<close>

theorem crc32_detects_bursts:
  assumes m: "msg_bits m1 = p @ x @ q" "msg_bits m2 = p @ y @ q"
    and xy: "length x = length y" "length x \<le> 32" "x \<noteq> y"
  shows "crc32 crc a m1 (length m1) \<noteq> crc32 crc a' m2 (length m2)"
  using crc_ref_burst[OF assms] by (simp add: crc32_ref)

theorem crc32_detects_bursts_witness:
  "crc32 0 0 [1, 2, 3] 3 \<noteq> crc32 0 2 [1, 0, 3] 3"
proof -
  have "\<exists>k\<in>{0..<8}. bit (2 :: u8) k" by (intro bexI[of _ 1]) simp_all
  then have "map (bit (2 :: u8)) [0..<8] \<noteq> map (bit (0 :: u8)) [0..<8]" by auto
  then show ?thesis
    using crc32_detects_bursts[of "[1, 2, 3]" "map (bit (1 :: u8)) [0..<8]" "map (bit (2 :: u8)) [0..<8]" "map (bit (3 :: u8)) [0..<8]"
      "[1, 0, 3]" "map (bit (0 :: u8)) [0..<8]" 0 0 2] by (simp add: numeral_3_eq_3)
qed

end
