(* ===== verification/Env_Common.thy ===== *)
theory Env_Common
  imports Env_Text Crc32 Aes
begin

text \<open>
  The environment as the rest of the program uses it: common/env_common.c, which saves it with a
  checksum, loads it, checks it and falls back to the default one, and the functions of cmd/nvedit.c
  that read and write single variables, before and after the hash table is filled. The stored
  environment is a byte list behind a checksum; \<open>None\<close> is an access outside of a buffer. What the
  configuration fixes is the record \<open>env_config\<close>: the size, the default environment, the key for an
  encrypted environment (\<open>None\<close> without \<open>CONFIG_ENV_AES\<close>, \<open>Some None\<close> when the board has no key), the
  hooks of the hash table and whether the heap has room for the import.
\<close>

section \<open>Model\<close>

record env_t =
  env_crc :: u32
  env_data :: "u8 list"

record env_config =
  ENV_SIZE :: nat
  CONFIG_ENV_SIZE :: nat
  default_environment :: "u8 list"
  env_aes_cbc_get_key :: "u8 list option option"
  env_hooks :: hooks
  env_regex :: regex
  import_malloc :: bool
  import_calloc :: bool

record env_gd =
  gd_env_ready :: bool
  gd_reloc :: bool
  gd_env_valid :: bool
  gd_env_mem :: "u8 list"
  gd_env_buf :: "u8 list"
  env_htab :: hsearch_data
  env_id :: nat

abbreviation (input) H_FORCE :: int where "H_FORCE \<equiv> 2"
abbreviation (input) H_INTERACTIVE :: int where "H_INTERACTIVE \<equiv> 4"
abbreviation (input) H_PROGRAMMATIC :: int where "H_PROGRAMMATIC \<equiv> 512"

subsection \<open>Characters of the stored environment\<close>

definition env_get_char_spec :: "env_gd \<Rightarrow> nat \<Rightarrow> u8 option" where
  "env_get_char_spec gd index = arr_get (gd_env_mem gd) index"

definition env_get_char_init :: "env_config \<Rightarrow> env_gd \<Rightarrow> nat \<Rightarrow> u8 option" where
  "env_get_char_init cfg gd index =
     (if gd_env_valid gd then env_get_char_spec gd index else arr_get (default_environment cfg) index)"

text \<open>An address is a memory and an index.\<close>

definition env_get_addr :: "env_config \<Rightarrow> env_gd \<Rightarrow> nat \<Rightarrow> u8 list \<times> nat" where
  "env_get_addr cfg gd index = (if gd_env_valid gd then (gd_env_mem gd, index) else (default_environment cfg, index))"

definition env_get_char_memory :: "env_config \<Rightarrow> env_gd \<Rightarrow> nat \<Rightarrow> u8 option" where
  "env_get_char_memory cfg gd index = (case env_get_addr cfg gd index of (m, i) \<Rightarrow> arr_get m i)"

definition env_get_char :: "env_config \<Rightarrow> env_gd \<Rightarrow> nat \<Rightarrow> u8 option" where
  "env_get_char cfg gd index =
     (if gd_reloc gd then env_get_char_memory cfg gd index else env_get_char_init cfg gd index)"

subsection \<open>Defaults\<close>

definition set_default_env :: "env_config \<Rightarrow> env_gd \<Rightarrow> cstr option \<Rightarrow> env_gd option" where
  "set_default_env cfg gd s =
     (if length (default_environment cfg) > ENV_SIZE cfg then Some gd
      else do {
        let flags = (case s of None \<Rightarrow> 0 | Some s \<Rightarrow> if arr_get s 0 = Some 0x21 then 0 else H_INTERACTIVE);
        (r, err, htab) \<leftarrow> himport_r (env_hooks cfg) (import_malloc cfg) (import_calloc cfg) (env_htab gd)
                            (default_environment cfg) 0 flags False [];
        Some (gd\<lparr>env_htab := htab, gd_env_ready := True\<rparr>)
      })"

definition set_default_vars :: "env_config \<Rightarrow> env_gd \<Rightarrow> cstr list \<Rightarrow> (nat \<times> env_gd) option" where
  "set_default_vars cfg gd vars = do {
     (r, err, htab) \<leftarrow> himport_r (env_hooks cfg) (import_malloc cfg) (import_calloc cfg) (env_htab gd)
                         (default_environment cfg) 0 (H_NOCLEAR OR H_INTERACTIVE) False vars;
     Some (r, gd\<lparr>env_htab := htab\<rparr>)
   }"

subsection \<open>Saving and loading\<close>

definition env_aes_cbc_crypt :: "env_config \<Rightarrow> env_t \<Rightarrow> bool \<Rightarrow> (int \<times> env_t) option" where
  "env_aes_cbc_crypt cfg env enc =
     (case env_aes_cbc_get_key cfg of
        None \<Rightarrow> Some (0, env)
      | Some None \<Rightarrow> Some (- 22, env)
      | Some (Some key) \<Rightarrow> do {
          let key_exp = aes_expand_key key;
          let aes_blocks = ENV_SIZE cfg div 16;
          d \<leftarrow> (if enc then aes_cbc_encrypt_blocks key_exp (env_data env) 0 0 aes_blocks
                else aes_cbc_decrypt_blocks key_exp (env_data env) 0 0 aes_blocks);
          Some (0, env\<lparr>env_data := d\<rparr>)
        })"

text \<open>\<open>a\<close> is the address of the buffer, which may have any alignment.\<close>

definition env_import :: "env_config \<Rightarrow> env_gd \<Rightarrow> nat \<Rightarrow> env_t \<Rightarrow> bool \<Rightarrow> (int \<times> env_t \<times> env_gd) option" where
  "env_import cfg gd a ep check = do {
     bad \<leftarrow> (if check then map_option (\<lambda>crc. crc \<noteq> env_crc ep) (crc32 0 (a + 4) (env_data ep) (ENV_SIZE cfg))
             else Some False);
     (if bad then do { gd \<leftarrow> set_default_env cfg gd (Some (ascii ''!bad CRC'')); Some (0, ep, gd) }
      else do {
        (ret, ep) \<leftarrow> env_aes_cbc_crypt cfg ep False;
        (if ret \<noteq> 0 then do { gd \<leftarrow> set_default_env cfg gd (Some (ascii ''!import failed'')); Some (ret, ep, gd) }
         else do {
           (r, err, htab) \<leftarrow> himport_r (env_hooks cfg) (import_malloc cfg) (import_calloc cfg) (env_htab gd)
                               (take (ENV_SIZE cfg) (env_data ep)) 0 0 False [];
           let gd = gd\<lparr>env_htab := htab\<rparr>;
           (if r \<noteq> 0 then Some (1, ep, gd\<lparr>gd_env_ready := True\<rparr>)
            else do { gd \<leftarrow> set_default_env cfg gd (Some (ascii ''!import failed'')); Some (0, ep, gd) })
         })
      })
   }"

definition env_export :: "env_config \<Rightarrow> env_gd \<Rightarrow> nat \<Rightarrow> env_t \<Rightarrow> (int \<times> env_t) option" where
  "env_export cfg gd a env_out = do {
     (len, err, res) \<leftarrow> hexport_r (env_regex cfg) True (env_htab gd) 0 0 (Some (env_data env_out)) (ENV_SIZE cfg) [];
     (if len < 0 then Some (1, env_out)
      else do {
        d \<leftarrow> res;
        (ret, env_out) \<leftarrow> env_aes_cbc_crypt cfg (env_out\<lparr>env_data := d\<rparr>) True;
        (if ret \<noteq> 0 then Some (ret, env_out)
         else do {
           crc \<leftarrow> crc32 0 (a + 4) (env_data env_out) (ENV_SIZE cfg);
           Some (0, env_out\<lparr>env_crc := crc\<rparr>)
         })
      })
   }"

text \<open>\<open>env_relocate_spec\<close> is the function of the storage in use.\<close>

definition env_relocate :: "env_config \<Rightarrow> bool \<Rightarrow> (env_gd \<Rightarrow> env_gd option) \<Rightarrow> env_gd \<Rightarrow> env_gd option" where
  "env_relocate cfg nowhere env_relocate_spec gd =
     (if \<not> gd_env_valid gd then
        (if nowhere then set_default_env cfg gd None else set_default_env cfg gd (Some (ascii ''!bad CRC'')))
      else env_relocate_spec gd)"

subsection \<open>Reading a variable\<close>

text \<open>\<open>envmatch\<close> compares a name, a zero-terminated array, with the stored text from an index on.\<close>

function envmatch_loop :: "(nat \<Rightarrow> u8 option) \<Rightarrow> u8 list \<Rightarrow> nat \<Rightarrow> nat \<Rightarrow> int option" where
  "envmatch_loop gc s1 j i2 =
     (case (arr_get s1 j, gc i2) of
        (Some c, Some e) \<Rightarrow>
          (if c = e then (if c = equals then Some (int (i2 + 1)) else envmatch_loop gc s1 (j + 1) (i2 + 1))
           else if c = 0 \<and> e = equals then Some (int (i2 + 1)) else Some (- 1))
      | _ \<Rightarrow> None)"
  by pat_completeness auto
termination
  by (relation "measure (\<lambda>(gc, s1, j, i2). length s1 - j)") (auto simp: arr_get_def split: if_splits)

declare envmatch_loop.simps [simp del]

definition envmatch :: "(nat \<Rightarrow> u8 option) \<Rightarrow> cstr \<Rightarrow> nat \<Rightarrow> int option" where
  "envmatch gc name i2 = envmatch_loop gc (name @ [0]) 0 i2"

text \<open>The end of an entry; \<open>Some None\<close> is beyond the size of the environment.\<close>

function nxt_loop :: "nat \<Rightarrow> (nat \<Rightarrow> u8 option) \<Rightarrow> nat \<Rightarrow> nat option option" where
  "nxt_loop sz gc nxt =
     (case gc nxt of
        None \<Rightarrow> None
      | Some c \<Rightarrow> if c = 0 then Some (Some nxt) else if sz \<le> nxt then Some None else nxt_loop sz gc (nxt + 1))"
  by pat_completeness auto
termination
  by (relation "measure (\<lambda>(sz, gc, nxt). sz - nxt)") auto

declare nxt_loop.simps [simp del]

function copy_value :: "(nat \<Rightarrow> u8 option) \<Rightarrow> u8 list \<Rightarrow> nat \<Rightarrow> nat \<Rightarrow> nat \<Rightarrow> (nat \<times> u8 list) option" where
  "copy_value gc b len n val =
     (if n < len then
        (case gc val of
           None \<Rightarrow> None
         | Some c \<Rightarrow>
             (case arr_set b n c of
                None \<Rightarrow> None
              | Some b \<Rightarrow> if c = 0 then Some (n, b) else copy_value gc b len (n + 1) (val + 1)))
      else if n \<noteq> 0 then map_option (\<lambda>b. (n, b)) (arr_set b (n - 1) 0) else Some (n, b))"
  by pat_completeness auto
termination
  by (relation "measure (\<lambda>(gc, b, len, n, val). len - n)") auto

declare copy_value.simps [simp del]

lemma nxt_loop_le: "nxt_loop sz gc i = Some (Some k) \<Longrightarrow> i \<le> k \<and> (gc i \<noteq> Some 0 \<longrightarrow> i < sz)"
proof (induction sz gc i rule: nxt_loop.induct)
  case (1 sz gc nxt)
  then show ?case by (subst (asm) (2) nxt_loop.simps) (force split: option.splits if_splits)
qed

function getenv_f_loop :: "nat \<Rightarrow> (nat \<Rightarrow> u8 option) \<Rightarrow> cstr \<Rightarrow> u8 list \<Rightarrow> nat \<Rightarrow> nat \<Rightarrow> (int \<times> u8 list) option" where
  "getenv_f_loop sz gc name b len i =
     (if gc i = None then None
      else if gc i = Some 0 then Some (- 1, b)
      else
        (case nxt_loop sz gc i of
           None \<Rightarrow> None
         | Some None \<Rightarrow> Some (- 1, b)
         | Some (Some nxt) \<Rightarrow>
             (case envmatch gc name i of
                None \<Rightarrow> None
              | Some val \<Rightarrow>
                  (if val < 0 then getenv_f_loop sz gc name b len (nxt + 1)
                   else map_option (\<lambda>(n, b). (int n, b)) (copy_value gc b len 0 (nat val))))))"
  by pat_completeness auto
termination
  by (relation "measure (\<lambda>(sz, gc, name, b, len, i). sz - i)") (auto dest: nxt_loop_le)

declare getenv_f_loop.simps [simp del]

definition getenv_f :: "env_config \<Rightarrow> env_gd \<Rightarrow> cstr \<Rightarrow> u8 list \<Rightarrow> nat \<Rightarrow> (int \<times> u8 list) option" where
  "getenv_f cfg gd name b len = getenv_f_loop (CONFIG_ENV_SIZE cfg) (env_get_char cfg gd) name b len 0"

text \<open>The value, and the state with its buffer \<open>env_buf\<close>\<close>

definition getenv :: "env_config \<Rightarrow> env_gd \<Rightarrow> cstr \<Rightarrow> (cstr option \<times> env_gd) option" where
  "getenv cfg gd name =
     (if gd_env_ready gd then do {
        (r, err, ep, htab) \<leftarrow> hsearch_r (env_hooks cfg) name None FIND (env_htab gd) 0;
        (case ep of
           None \<Rightarrow> Some (None, gd\<lparr>env_htab := htab\<rparr>)
         | Some i \<Rightarrow> do { sl \<leftarrow> slot_at htab i; Some (edata (hent sl), gd\<lparr>env_htab := htab\<rparr>) })
      }
      else do {
        (n, b) \<leftarrow> getenv_f cfg gd name (gd_env_buf gd) (length (gd_env_buf gd));
        let gd = gd\<lparr>gd_env_buf := b\<rparr>;
        Some (if n > 0 then Some (takeWhile (\<lambda>c. c \<noteq> 0) b) else None, gd)
      })"

definition getenv_yesno :: "env_config \<Rightarrow> env_gd \<Rightarrow> cstr \<Rightarrow> (int \<times> env_gd) option" where
  "getenv_yesno cfg gd var = do {
     (s, gd) \<leftarrow> getenv cfg gd var;
     Some (case s of
             None \<Rightarrow> - 1
           | Some s \<Rightarrow> if s \<noteq> [] \<and> hd s \<in> set (ascii ''1yYtT'') then 1 else 0, gd)
   }"

definition getenv_default :: "env_config \<Rightarrow> env_gd \<Rightarrow> cstr \<Rightarrow> (cstr option \<times> env_gd) option" where
  "getenv_default cfg gd name = do {
     (v, gd') \<leftarrow> getenv cfg (gd\<lparr>gd_env_ready := False, gd_env_valid := False\<rparr>) name;
     Some (v, gd'\<lparr>gd_env_valid := gd_env_valid gd, gd_env_ready := gd_env_ready gd\<rparr>)
   }"

subsection \<open>Writing a variable\<close>

text \<open>The options in front of the name: the rest of the arguments and the flags, or \<open>None\<close> for an unknown
  option.\<close>

fun env_set_opts :: "cstr list \<Rightarrow> int \<Rightarrow> (cstr list \<times> int) option" where
  "env_set_opts (a0 # a1 # as) env_flag =
     (if arr_get a1 0 = Some 0x2D then
        (if set (tl a1) \<subseteq> {0x66} then env_set_opts (a1 # as) (if tl a1 \<noteq> [] then env_flag OR H_FORCE else env_flag)
         else None)
      else Some (a0 # a1 # as, env_flag))"
| "env_set_opts as env_flag = Some (as, env_flag)"

text \<open>The words of the value are copied into a buffer with a blank behind each.\<close>

fun copy_args :: "mem \<Rightarrow> nat \<Rightarrow> cstr list \<Rightarrow> (mem \<times> nat) option" where
  "copy_args b s [] = Some (b, s)"
| "copy_args b s (v # vs) = do {
     (b, s) \<leftarrow> put_chars b s (v @ [0]);
     b \<leftarrow> arr_set b (s - 1) 0x20;
     copy_args b s vs
   }"

text \<open>\<open>argv\<close> has \<open>argc\<close> strings, behind which there is a null pointer; \<open>heap\<close> is what \<open>malloc\<close> returns for a length,
  with arbitrary content.\<close>

definition do_env_set_raw :: "env_config \<Rightarrow> (nat \<Rightarrow> mem option) \<Rightarrow> env_gd \<Rightarrow> cstr list \<Rightarrow> int \<Rightarrow> (int \<times> env_gd) option" where
  "do_env_set_raw cfg heap gd argv env_flag =
     (case env_set_opts argv env_flag of
        None \<Rightarrow> Some (- 1, gd)
      | Some (argv, env_flag) \<Rightarrow> do {
          name \<leftarrow> arr_get argv 1;
          (if equals \<in> set name then Some (1, gd)
           else do {
             let gd = gd\<lparr>env_id := env_id gd + 1\<rparr>;
             (if length argv < 3 then do {
                (rc, err, htab) \<leftarrow> hdelete_r (env_hooks cfg) name (env_htab gd) env_flag;
                Some (if rc = 0 then 1 else 0, gd\<lparr>env_htab := htab\<rparr>)
              }
              else
                (case heap (sum_list (map (\<lambda>v. length v + 1) (drop 2 argv))) of
                   None \<Rightarrow> Some (1, gd)
                 | Some b \<Rightarrow> do {
                     (b, s) \<leftarrow> copy_args b 0 (drop 2 argv);
                     b \<leftarrow> (if s \<noteq> 0 then arr_set b (s - 1) 0 else Some b);
                     (r, err, ep, htab) \<leftarrow> hsearch_r (env_hooks cfg) name (Some (takeWhile (\<lambda>c. c \<noteq> 0) b)) ENTER
                                             (env_htab gd) env_flag;
                     let gd = gd\<lparr>env_htab := htab\<rparr>;
                     Some (if ep = None then 1 else 0, gd)
                   }))
           })
        })"

definition setenv :: "env_config \<Rightarrow> (nat \<Rightarrow> mem option) \<Rightarrow> env_gd \<Rightarrow> cstr \<Rightarrow> cstr option \<Rightarrow> (int \<times> env_gd) option" where
  "setenv cfg heap gd varname varvalue =
     (if \<not> gd_env_ready gd then Some (1, gd)
      else
        (case varvalue of
           None \<Rightarrow> do_env_set_raw cfg heap gd [ascii ''setenv'', varname] H_PROGRAMMATIC
         | Some v \<Rightarrow>
             (if v = [] then do_env_set_raw cfg heap gd [ascii ''setenv'', varname] H_PROGRAMMATIC
              else do_env_set_raw cfg heap gd [ascii ''setenv'', varname, v] H_PROGRAMMATIC)))"

definition do_env_set :: "env_config \<Rightarrow> (nat \<Rightarrow> mem option) \<Rightarrow> env_gd \<Rightarrow> cstr list \<Rightarrow> (int \<times> env_gd) option" where
  "do_env_set cfg heap gd argv =
     (if length argv < 2 then Some (- 1, gd) else do_env_set_raw cfg heap gd argv H_INTERACTIVE)"

section \<open>Characters and text\<close>

definition env_chars :: "env_config \<Rightarrow> env_gd \<Rightarrow> u8 list" where
  "env_chars cfg gd = (if gd_env_valid gd then gd_env_mem gd else default_environment cfg)"

lemma env_get_char_arr: "env_get_char cfg gd = arr_get (env_chars cfg gd)"
  by (rule ext) (simp add: env_get_char_def env_get_char_memory_def env_get_addr_def env_get_char_init_def
      env_get_char_spec_def env_chars_def)

lemma arr_get_append: "arr_get (xs @ ys) (length xs + i) = arr_get ys i"
  by (simp add: arr_get_def nth_append)

text \<open>One entry \<open>k=d\<close> of the text, at the position behind \<open>pre\<close>\<close>

lemma nxt_loop_entry:
  "0 \<notin> set xs \<Longrightarrow> length pre + length xs < sz \<Longrightarrow>
    nxt_loop sz (arr_get (pre @ xs @ 0 # rest)) (length pre) = Some (Some (length pre + length xs))"
proof (induction xs arbitrary: pre)
  case Nil
  then show ?case by (subst nxt_loop.simps) (simp add: arr_get_def)
next
  case (Cons x xs)
  have "nxt_loop sz (arr_get (pre @ (x # xs) @ 0 # rest)) (length pre) =
      nxt_loop sz (arr_get (pre @ (x # xs) @ 0 # rest)) (length pre + 1)"
    using Cons.prems by (subst nxt_loop.simps) (auto simp: arr_get_def)
  also have "\<dots> = Some (Some (length pre + length (x # xs)))"
    using Cons.IH[of "pre @ [x]"] Cons.prems by simp
  finally show ?case .
qed

lemma envmatch_loop_same:
  "equals \<notin> set k \<Longrightarrow> envmatch_loop (arr_get (pre @ k @ rest)) (q @ k @ s) (length q) (length pre) =
    envmatch_loop (arr_get (pre @ k @ rest)) (q @ k @ s) (length q + length k) (length pre + length k)"
proof (induction k arbitrary: pre q)
  case (Cons x k)
  have "envmatch_loop (arr_get (pre @ (x # k) @ rest)) (q @ (x # k) @ s) (length q) (length pre) =
      envmatch_loop (arr_get (pre @ (x # k) @ rest)) (q @ (x # k) @ s) (length q + 1) (length pre + 1)"
    using Cons.prems by (subst envmatch_loop.simps) (simp add: arr_get_def)
  then show ?case using Cons.IH[of "pre @ [x]" "q @ [x]"] Cons.prems by simp
qed simp

lemma prefix_split: "xs \<noteq> ys \<Longrightarrow> \<exists>zs xs' ys'. xs = zs @ xs' \<and> ys = zs @ ys' \<and>
    (xs' = [] \<and> ys' \<noteq> [] \<or> xs' \<noteq> [] \<and> ys' = [] \<or> xs' \<noteq> [] \<and> ys' \<noteq> [] \<and> hd xs' \<noteq> hd ys')"
proof (induction xs arbitrary: ys)
  case (Cons x xs)
  show ?case
  proof (cases ys)
    case (Cons y ys1)
    show ?thesis
    proof (cases "x = y")
      case True
      then obtain zs xs' ys' where "xs = zs @ xs' \<and> ys1 = zs @ ys' \<and>
          (xs' = [] \<and> ys' \<noteq> [] \<or> xs' \<noteq> [] \<and> ys' = [] \<or> xs' \<noteq> [] \<and> ys' \<noteq> [] \<and> hd xs' \<noteq> hd ys')"
        using Cons.IH[of ys1] Cons.prems \<open>ys = y # ys1\<close> by auto
      then show ?thesis using True \<open>ys = y # ys1\<close> by (intro exI[of _ "x # zs"] exI[of _ xs'] exI[of _ ys']) simp
    qed (use Cons in \<open>auto intro: exI[of _ "[]"]\<close>)
  qed (auto intro: exI[of _ "[]"])
qed (auto intro: exI[of _ "[]"])

lemma envmatch_entry:
  assumes "equals \<notin> set name" "0 \<notin> set name" "equals \<notin> set k" "0 \<notin> set k"
  shows "envmatch (arr_get (pre @ k @ equals # rest)) name (length pre) =
    Some (if name = k then int (length pre + length k + 1) else - 1)"
proof (cases "name = k")
  case True
  have "envmatch_loop (arr_get (pre @ k @ equals # rest)) (k @ [0]) (length k) (length pre + length k) =
      Some (int (length pre + length k + 1))"
    by (subst envmatch_loop.simps) (simp add: arr_get_def)
  then show ?thesis using True assms envmatch_loop_same[of k pre "equals # rest" "[]" "[0]"] by (simp add: envmatch_def)
next
  case False
  then obtain z u v where z: "name = z @ u" "k = z @ v"
    "u = [] \<and> v \<noteq> [] \<or> u \<noteq> [] \<and> v = [] \<or> u \<noteq> [] \<and> v \<noteq> [] \<and> hd u \<noteq> hd v"
    using prefix_split[of name k] by blast
  have "envmatch_loop (arr_get (pre @ z @ v @ equals # rest)) (z @ u @ [0]) (length z) (length pre + length z) = Some (- 1)"
    using z(3) assms z(1,2) by (subst envmatch_loop.simps) (cases u; cases v; auto simp: arr_get_def nth_append)
  then show ?thesis using False assms z(1,2) envmatch_loop_same[of z pre "v @ equals # rest" "[]" "u @ [0]"]
    by (simp add: envmatch_def)
qed

lemma copy_value_entry:
  "0 \<notin> set d \<Longrightarrow> n \<le> length d \<Longrightarrow> n \<le> len \<Longrightarrow> 0 < len \<Longrightarrow> len \<le> length b \<Longrightarrow>
    copy_value (arr_get (pre @ d @ 0 # rest)) (take n d @ drop n b) len n (length pre + n) =
      Some (if length d < len then (length d, d @ 0 # drop (Suc (length d)) b)
            else (len, take (len - 1) d @ 0 # drop len b))"
proof (induction "len - n" arbitrary: n)
  case 0
  then have n: "n = len" by simp
  have "(take len d @ drop len b)[len - 1 := 0] = take (len - 1) d @ 0 # drop len b"
    using 0 n by (intro nth_equalityI) (auto simp: nth_append nth_list_update nth_Cons')
  then show ?case using 0 n by (subst copy_value.simps) simp
next
  case (Suc m)
  let ?t = "arr_get (pre @ d @ 0 # rest)"
  have n: "n < len" "n < length b" using Suc by auto
  have c: "?t (length pre + n) = Some (if n < length d then d ! n else 0)"
    using Suc.prems(2) by (auto simp: arr_get_def nth_append)
  have set: "arr_set (take n d @ drop n b) n x = Some (take n d @ x # drop (Suc n) b)" for x
    using Suc.prems n by (simp add: arr_set_def list_update_append flip: Cons_nth_drop_Suc)
  show ?case
  proof (cases "n = length d")
    case True
    then show ?thesis using n c set by (subst copy_value.simps) simp
  next
    case False
    then have d: "n < length d" "d ! n \<noteq> 0" using Suc.prems(1,2) by (auto simp: in_set_conv_nth)
    have tk: "take n d @ d ! n # drop (Suc n) b = take (n + 1) d @ drop (n + 1) b" using d(1) by (simp add: take_Suc_conv_app_nth)
    have "copy_value ?t (take n d @ drop n b) len n (length pre + n) =
        copy_value ?t (take (n + 1) d @ drop (n + 1) b) len (n + 1) (length pre + (n + 1))"
      using n c d set[of "d ! n"] tk by (subst copy_value.simps) simp
    then show ?thesis using Suc.hyps(1)[of "n + 1"] Suc.hyps(2) Suc.prems d(1) n(1) by simp
  qed
qed

definition storable :: "(cstr \<Rightarrow> cstr option) \<Rightarrow> bool" where
  "storable m \<longleftrightarrow> (\<forall>k d. m k = Some d \<longrightarrow> good_entry 0 (k, d) \<and> backslash \<notin> set d)"

definition plain_entry :: "cstr \<times> cstr \<Rightarrow> bool" where
  "plain_entry e \<longleftrightarrow> good_entry 0 e \<and> backslash \<notin> set (snd e)"

lemma export_text_Cons: "plain_entry (k, d) \<Longrightarrow> export_text 0 ((k, d) # lst) = k @ equals # d @ 0 # export_text 0 lst"
  by (simp add: export_text_def entry_text_def plain_entry_def good_entry_def esc_plain)

text \<open>What \<open>getenv_f\<close> leaves in its buffer for a value\<close>

definition buffered :: "u8 list \<Rightarrow> nat \<Rightarrow> cstr \<Rightarrow> int \<times> u8 list" where
  "buffered b len d =
     (if length d < len then (int (length d), d @ 0 # drop (Suc (length d)) b)
      else (int len, take (len - 1) d @ 0 # drop len b))"

lemma getenv_f_text:
  assumes name: "equals \<notin> set name" "0 \<notin> set name" and len: "0 < len" "len \<le> length b"
  shows "list_all plain_entry lst \<Longrightarrow> length pre + length (export_text 0 lst) \<le> sz \<Longrightarrow>
    getenv_f_loop sz (arr_get (pre @ export_text 0 lst @ 0 # rest)) name b len (length pre) =
      Some (case map_of lst name of None \<Rightarrow> (- 1, b) | Some d \<Rightarrow> buffered b len d)"
proof (induction lst arbitrary: pre)
  case Nil
  then show ?case by (subst getenv_f_loop.simps) (simp add: arr_get_def export_text_def)
next
  case (Cons e lst)
  obtain k d where e: "e = (k, d)" by (cases e)
  have ok: "plain_entry (k, d)" "k \<noteq> []" "equals \<notin> set k" "0 \<notin> set k" "0 \<notin> set d"
    using Cons.prems(1) e by (auto simp: plain_entry_def good_entry_def good_name_def)
  let ?r = "export_text 0 lst @ 0 # rest"
  let ?t = "arr_get (pre @ k @ equals # d @ 0 # ?r)"
  have tx: "pre @ export_text 0 (e # lst) @ 0 # rest = pre @ k @ equals # d @ 0 # ?r"
    by (simp add: e export_text_Cons[OF ok(1)])
  have g: "?t (length pre) = Some (hd k)" "hd k \<noteq> 0"
    using ok(2,4) by (cases k; simp add: arr_get_def)+
  have fit: "length pre + length (k @ equals # d) < sz"
    using Cons.prems(2) by (simp add: e export_text_Cons[OF ok(1)])
  have nxt: "nxt_loop sz ?t (length pre) = Some (Some (length pre + length (k @ equals # d)))"
    using nxt_loop_entry[of "k @ equals # d" pre sz ?r] fit ok(4,5) by simp
  have match: "envmatch ?t name (length pre) = Some (if name = k then int (length pre + length k + 1) else - 1)"
    using envmatch_entry[OF name ok(3,4), of pre "d @ 0 # ?r"] .
  show ?case
  proof (cases "name = k")
    case True
    have v: "copy_value ?t b len 0 (length pre + length k + 1) = Some (if length d < len then (length d, d @ 0 # drop (Suc (length d)) b)
            else (len, take (len - 1) d @ 0 # drop len b))"
      using copy_value_entry[OF ok(5), of 0 len b "pre @ k @ [equals]" ?r] len by simp
    show ?thesis unfolding tx
      by (subst getenv_f_loop.simps) (use True g nxt match v in \<open>simp add: e buffered_def nat_add_distrib\<close>)
  next
    case False
    have "getenv_f_loop sz ?t name b len (length pre) = getenv_f_loop sz ?t name b len (length (pre @ k @ equals # d @ [0]))"
      by (subst getenv_f_loop.simps) (use False g nxt match in simp)
    then show ?thesis unfolding tx
      using Cons.IH[of "pre @ k @ equals # d @ [0]"] Cons.prems False by (simp add: e export_text_Cons[OF ok(1)])
  qed
qed

section \<open>Saving\<close>

lemma hexport_in_place:
  assumes "length res = sz" "0 < sz"
  shows "hexport_r re True htab sep flag (Some res) sz argv =
    map_option (\<lambda>(n, err, r). (n, err, if n < 0 then Some res else r)) (hexport_r re True htab sep flag None sz argv)"
proof -
  have m: "memset res 0 0 sz = Some (replicate sz 0)" using assms memset_blit[of 0 sz res 0] by (simp add: blit_def)
  show ?thesis unfolding hexport_r_def using m assms(2)
    by (auto simp: Let_def bind_eq_None_conv split: bind_splits)
qed

lemma storable_export:
  assumes inv: "ht_inv htab" and st: "storable (env_of htab)" and sz: "0 < sz"
  obtains lst where "distinct (map fst lst)" "map_of lst = env_of htab" "list_all plain_entry lst"
    "length (export_text 0 lst) \<le> export_len 0 lst"
    "hexport_r re True htab 0 0 None sz [] =
      (if sz < export_len 0 lst + 1 then Some (- 1, Some ENOMEM, None)
       else Some (int sz, None, Some (export_text 0 lst @ replicate (sz - length (export_text 0 lst)) 0)))"
proof -
  have "0 \<noteq> (0 :: u8) \<or> (\<forall>k d. env_of htab k = Some d \<longrightarrow> 0 \<notin> set d \<and> backslash \<notin> set d)"
    using st by (auto simp: storable_def good_entry_def)
  from hexport_result[OF inv this, of re 0 "[]" sz] obtain lst where r: "distinct (map fst lst)"
    "set lst = {e. env_of htab (fst e) = Some (snd e) \<and> exported re 0 [] e}" "length (export_text 0 lst) \<le> export_len 0 lst"
    "hexport_r re True htab 0 0 None sz [] =
      (if sz \<noteq> 0 \<and> sz < export_len 0 lst + 1 then Some (- 1, Some ENOMEM, None)
       else let n = (if sz \<noteq> 0 then sz else export_len 0 lst + 1)
            in Some (int n, None, Some (export_text 0 lst @ replicate (n - length (export_text 0 lst)) 0)))"
    by blast
  have lst: "distinct (map fst lst)" "set lst = {e. env_of htab (fst e) = Some (snd e)}" using r(1,2) by (simp_all add: exported_def)
  have "list_all plain_entry lst" using lst(2) st by (auto simp: list_all_iff plain_entry_def storable_def)
  then show thesis using sz r(3,4) by (intro that[OF lst(1) map_of_entries[OF lst]]) simp_all
qed

text \<open>The configurations: without encryption, or with a key and a size of whole blocks.\<close>

definition env_cfg_ok :: "env_config \<Rightarrow> bool" where
  "env_cfg_ok cfg \<longleftrightarrow> 0 < ENV_SIZE cfg \<and> import_malloc cfg \<and> import_calloc cfg \<and> strdup (env_hooks cfg) = Some \<and>
     (case env_aes_cbc_get_key cfg of
        None \<Rightarrow> True
      | Some None \<Rightarrow> False
      | Some (Some key) \<Rightarrow> length key = 16 \<and> 16 dvd ENV_SIZE cfg)"

lemma env_crypt_restores:
  assumes "env_cfg_ok cfg" "length (env_data e) = ENV_SIZE cfg"
  obtains e1 where "env_aes_cbc_crypt cfg e True = Some (0, e1)" "length (env_data e1) = ENV_SIZE cfg"
    "\<And>crc. env_aes_cbc_crypt cfg (e1\<lparr>env_crc := crc\<rparr>) False = Some (0, e\<lparr>env_crc := crc\<rparr>)"
proof (cases "env_aes_cbc_get_key cfg")
  case None
  then show thesis using assms by (intro that[of e]) (simp_all add: env_aes_cbc_crypt_def)
next
  case (Some k)
  then obtain key where key: "env_aes_cbc_get_key cfg = Some (Some key)" "length key = 16" "16 dvd ENV_SIZE cfg"
    using assms(1) by (auto simp: env_cfg_ok_def split: option.splits)
  define n where "n = ENV_SIZE cfg div 16"
  have n: "16 * n = length (env_data e)" using key(3) assms(2) by (simp add: n_def)
  obtain m1 m2 where m: "aes_cbc_encrypt_blocks (aes_expand_key key) (env_data e) 0 0 n = Some m1"
    "aes_cbc_decrypt_blocks (aes_expand_key key) m1 0 0 n = Some m2" "length m1 = length (env_data e)"
    "length m2 = length (env_data e)" "slice m2 0 (16 * n) = slice (env_data e) 0 (16 * n)"
    using aes_cbc_restores[OF key(2), of 0 0 n 0 "env_data e"] n by auto
  then have "m2 = env_data e" using n by (simp add: slice_def)
  then show thesis using m key(1) assms(2)
    by (intro that[of "e\<lparr>env_data := m1\<rparr>"]) (simp_all add: env_aes_cbc_crypt_def n_def[symmetric])
qed

lemma env_export_result:
  assumes cfg: "env_cfg_ok cfg" and inv: "ht_inv (env_htab gd)" "storable (env_of (env_htab gd))"
    and len: "length (env_data e) = ENV_SIZE cfg"
  obtains (full) "env_export cfg gd a e = Some (1, e)" "hexport_r (env_regex cfg) True (env_htab gd) 0 0 None (ENV_SIZE cfg) [] =
      Some (- 1, Some ENOMEM, None)"
  | (saved) plain e1 where "env_export cfg gd a e = Some (0, e1)" "length (env_data e1) = ENV_SIZE cfg"
      "hexport_r (env_regex cfg) True (env_htab gd) 0 0 None (ENV_SIZE cfg) [] = Some (int (ENV_SIZE cfg), None, Some plain)"
      "length plain = ENV_SIZE cfg" "env_crc e1 = crc_ref 0 (env_data e1)"
      "env_aes_cbc_crypt cfg e1 False = Some (0, e1\<lparr>env_data := plain\<rparr>)"
proof -
  have sz: "0 < ENV_SIZE cfg" using cfg by (simp add: env_cfg_ok_def)
  obtain lst where lst: "length (export_text 0 lst) \<le> export_len 0 lst"
    "hexport_r (env_regex cfg) True (env_htab gd) 0 0 None (ENV_SIZE cfg) [] =
      (if ENV_SIZE cfg < export_len 0 lst + 1 then Some (- 1, Some ENOMEM, None)
       else Some (int (ENV_SIZE cfg), None, Some (export_text 0 lst @ replicate (ENV_SIZE cfg - length (export_text 0 lst)) 0)))"
    using storable_export[OF inv sz, of "env_regex cfg"] by metis
  note place = hexport_in_place[OF len sz, of "env_regex cfg" "env_htab gd" 0 0 "[]"]
  show thesis
  proof (cases "ENV_SIZE cfg < export_len 0 lst + 1")
    case True
    then show thesis using lst(2) place by (intro full) (simp_all add: env_export_def)
  next
    case False
    define plain where "plain = export_text 0 lst @ replicate (ENV_SIZE cfg - length (export_text 0 lst)) 0"
    have lp: "length plain = ENV_SIZE cfg" using False lst(1) by (simp add: plain_def)
    obtain e1 where e1: "env_aes_cbc_crypt cfg (e\<lparr>env_data := plain\<rparr>) True = Some (0, e1)" "length (env_data e1) = ENV_SIZE cfg"
      "\<And>crc. env_aes_cbc_crypt cfg (e1\<lparr>env_crc := crc\<rparr>) False = Some (0, e\<lparr>env_data := plain, env_crc := crc\<rparr>)"
      using env_crypt_restores[OF cfg, of "e\<lparr>env_data := plain\<rparr>"] lp by auto
    let ?c = "crc_ref 0 (env_data e1)"
    have "env_export cfg gd a e = Some (0, e1\<lparr>env_crc := ?c\<rparr>)"
      using place lst(2) False e1(1,2) by (simp add: env_export_def plain_def[symmetric] crc32_ref)
    moreover have "e1\<lparr>env_crc := ?c, env_data := plain\<rparr> = e\<lparr>env_data := plain, env_crc := ?c\<rparr>" by simp
    ultimately show thesis using saved[of "e1\<lparr>env_crc := ?c\<rparr>" plain] lst(2) False e1(2,3) lp by (simp add: plain_def)
  qed
qed

section \<open>Loading\<close>

definition default_ok :: "env_config \<Rightarrow> bool" where
  "default_ok cfg \<longleftrightarrow> length (default_environment cfg) \<le> ENV_SIZE cfg \<and>
     inserts (parse_lines 0 1 (default_environment cfg @ [0])) \<le>
       min CONFIG_ENV_MAX_ENTRIES (CONFIG_ENV_MIN_ENTRIES + length (default_environment cfg) div 8)"

text \<open>The state holds the default environment: the lines of its text in order, up to the first malformed
  one, none of whose settings is refused when the hooks accept everything.\<close>

definition has_default_env :: "env_config \<Rightarrow> env_gd \<Rightarrow> bool" where
  "has_default_env cfg gd \<longleftrightarrow> gd_env_ready gd \<and> ht_inv (env_htab gd) \<and>
     (\<exists>bs us. us = line_updates (takeWhile usable (parse_lines 0 1 (default_environment cfg @ [0]))) \<and>
        length bs = length us \<and> env_of (env_htab gd) = env_applies bs us Map.empty \<and>
        (accepting (env_hooks cfg) \<longrightarrow> list_all2 (\<lambda>b u. \<not> refusal b u) bs us))"

lemma set_default_env_result:
  assumes "env_cfg_ok cfg" "default_ok cfg"
  obtains gd' where "set_default_env cfg gd s = Some gd'" "has_default_env cfg gd'"
proof -
  define f :: int where "f = (case s of None \<Rightarrow> 0 | Some s \<Rightarrow> if arr_get s 0 = Some 0x21 then 0 else H_INTERACTIVE)"
  have f: "f AND H_NOCLEAR = 0" by (simp add: f_def split: option.splits)
  have room: "inserts (parse_lines 0 1 (default_environment cfg @ [0])) \<le> start_room f (env_htab gd) (length (default_environment cfg))"
    using assms(2) f by (simp add: default_ok_def start_room_def)
  obtain r err h bs us where h: "us = line_updates (takeWhile usable (parse_lines 0 1 (default_environment cfg @ [0])))"
    "himport_r (env_hooks cfg) True True (env_htab gd) (default_environment cfg) 0 f False [] = Some (r, err, h)" "ht_inv h"
    "length bs = length us" "env_of h = env_applies bs us (start_env f (env_htab gd))"
    "accepting (env_hooks cfg) \<longrightarrow> list_all2 (\<lambda>b u. \<not> refusal b u) bs us"
    using himport_result[OF _ _ room, of "env_hooks cfg"] assms(1) f by (auto simp: env_cfg_ok_def)
  have "set_default_env cfg gd s = Some (gd\<lparr>env_htab := h, gd_env_ready := True\<rparr>)"
    using h(2) assms by (simp add: set_default_env_def env_cfg_ok_def default_ok_def f_def[symmetric])
  moreover have "start_env f (env_htab gd) = Map.empty" using f by (simp add: start_env_def)
  ultimately show thesis using that h by (auto simp: has_default_env_def)
qed


text \<open>C7: A saved environment that was damaged is not used: when the stored bytes differ from what was saved by a
  burst of up to 32 bits, or the checksum itself differs, \<open>env_import\<close> returns 0 and the state holds the
  default environment, whatever it held before.\<close>

theorem env_damage_detected:
  assumes cfg: "env_cfg_ok cfg" "default_ok cfg"
    and inv: "ht_inv (env_htab gd)" "storable (env_of (env_htab gd))"
    and len: "length (env_data e) = ENV_SIZE cfg" and sv: "env_export cfg gd a e = Some (0, e1)"
    and dmg: "length (env_data e2) = ENV_SIZE cfg"
      "env_data e2 = env_data e1 \<and> env_crc e2 \<noteq> env_crc e1 \<or>
       env_crc e2 = env_crc e1 \<and> (\<exists>p x y q. msg_bits (env_data e1) = p @ x @ q \<and> msg_bits (env_data e2) = p @ y @ q \<and>
         length x = length y \<and> length x \<le> 32 \<and> x \<noteq> y)"
  shows "\<exists>gd2. env_import cfg gd' a' e2 True = Some (0, e2, gd2) \<and> has_default_env cfg gd2"
proof -
  obtain gd2 where gd2: "set_default_env cfg gd' (Some (ascii ''!bad CRC'')) = Some gd2" "has_default_env cfg gd2"
    using set_default_env_result[OF cfg] by blast
  have "env_crc e1 = crc_ref 0 (env_data e1)"
    using sv by (cases rule: env_export_result[OF cfg(1) inv len, of a]) auto
  then have "crc_ref 0 (env_data e2) \<noteq> env_crc e2" using dmg(2) crc_ref_burst by metis
  then have "env_import cfg gd' a' e2 True = Some (0, e2, gd2)" using dmg(1) gd2(1) by (simp add: env_import_def crc32_ref)
  with gd2(2) show ?thesis by blast
qed

definition sample_cfg :: env_config where
  "sample_cfg = \<lparr>ENV_SIZE = 32, CONFIG_ENV_SIZE = 36, default_environment = ascii ''b=2'' @ [0, 0],
     env_aes_cbc_get_key = Some (Some (replicate 16 7)), env_hooks = plain_hooks, env_regex = (\<lambda>_. None),
     import_malloc = True, import_calloc = True\<rparr>"

definition sample_env_gd :: "hsearch_data \<Rightarrow> env_gd" where
  "sample_env_gd h = \<lparr>gd_env_ready = True, gd_reloc = True, gd_env_valid = True, gd_env_mem = [], gd_env_buf = replicate 32 0,
     env_htab = h, env_id = 1\<rparr>"

definition sample_env :: env_t where
  "sample_env = \<lparr>env_crc = 0, env_data = replicate 32 9\<rparr>"

lemma sample_cfg_ok: "env_cfg_ok sample_cfg" "accepting (env_hooks sample_cfg)" "length (env_data sample_env) = ENV_SIZE sample_cfg"
  by (simp_all add: env_cfg_ok_def sample_cfg_def accepting_def plain_hooks_def sample_env_def)

lemma one_storable: "storable [ascii ''a'' \<mapsto> ascii ''1'']"
  by (auto simp: storable_def good_entry_def good_name_def ascii_def isblank_def split: if_splits)


lemma sample_saved: "\<exists>e1. env_export sample_cfg (sample_env_gd sample_htab) 0 sample_env = Some (0, e1) \<and> length (env_data e1) = 32"
proof -
  have st: "storable (env_of sample_htab)" by (simp add: sample_inv storable_def)
  obtain lst where l: "map_of lst = env_of sample_htab" "hexport_r (env_regex sample_cfg) True sample_htab 0 0 None (ENV_SIZE sample_cfg) [] =
      (if ENV_SIZE sample_cfg < export_len 0 lst + 1 then Some (- 1, Some ENOMEM, None)
       else Some (int (ENV_SIZE sample_cfg), None, Some (export_text 0 lst @ replicate (ENV_SIZE sample_cfg - length (export_text 0 lst)) 0)))"
    using storable_export[OF sample_inv(1) st, of "ENV_SIZE sample_cfg" "env_regex sample_cfg"] by (auto simp: sample_cfg_def)
  have "lst = []" using l(1) by (cases lst) (auto simp: sample_inv fun_eq_iff split: if_splits)
  then have fits: "hexport_r (env_regex sample_cfg) True sample_htab 0 0 None (ENV_SIZE sample_cfg) [] \<noteq> Some (- 1, Some ENOMEM, None)"
    using l(2) by (simp add: export_len_def sample_cfg_def)
  have "ht_inv (env_htab (sample_env_gd sample_htab))" "storable (env_of (env_htab (sample_env_gd sample_htab)))"
    using st sample_inv(1) by (simp_all add: sample_env_gd_def)
  from env_export_result[OF sample_cfg_ok(1) this sample_cfg_ok(3), of 0] fits show ?thesis
    by (auto simp: sample_env_gd_def sample_cfg_def)
qed

lemma sample_default_ok: "default_ok sample_cfg"
proof -
  have "parse_lines 0 1 (ascii ''b=2'' @ [0, 0, 0]) = [Insert (ascii ''b'') (ascii ''2'')]"
    by (simp add: parse_lines.simps parse_line_def isblank_def ascii_def)
  then show ?thesis by (simp add: default_ok_def sample_cfg_def ascii_def)
qed

theorem env_damage_detected_witness:
  "\<exists>e1 gd2. env_export sample_cfg (sample_env_gd sample_htab) 0 sample_env = Some (0, e1) \<and>
     env_import sample_cfg (sample_env_gd sample_htab) 5 (e1\<lparr>env_crc := env_crc e1 + 1\<rparr>) True =
       Some (0, e1\<lparr>env_crc := env_crc e1 + 1\<rparr>, gd2) \<and> has_default_env sample_cfg gd2"
proof -
  obtain e1 where e1: "env_export sample_cfg (sample_env_gd sample_htab) 0 sample_env = Some (0, e1)" "length (env_data e1) = 32"
    using sample_saved by blast
  have "length (env_data (e1\<lparr>env_crc := env_crc e1 + 1\<rparr>)) = ENV_SIZE sample_cfg" using e1(2) by (simp add: sample_cfg_def)
  from env_damage_detected[OF sample_cfg_ok(1) sample_default_ok _ _ sample_cfg_ok(3) e1(1) this, of "sample_env_gd sample_htab" 5] e1(1)
  show ?thesis by (auto simp: sample_env_gd_def sample_inv storable_def)
qed

section \<open>Single variables\<close>

lemma getenv_ready:
  assumes "gd_env_ready gd" "ht_inv (env_htab gd)"
  shows "getenv cfg gd k = Some (env_of (env_htab gd) k, gd)"
proof -
  have "gd\<lparr>env_htab := env_htab gd\<rparr> = gd" by simp
  then show ?thesis using assms hsearch_find[OF assms(2), of "env_hooks cfg" k None 0]
    by (auto simp: getenv_def split: option.splits)
qed

definition join_args :: "cstr list \<Rightarrow> cstr" where
  "join_args vs = butlast (concat (map (\<lambda>v. v @ [0x20]) vs))"

lemma copy_args_blit:
  "s + sum_list (map (\<lambda>v. length v + 1) vs) \<le> length b \<Longrightarrow>
    copy_args b s vs = Some (blit b s (concat (map (\<lambda>v. v @ [0x20]) vs)), s + sum_list (map (\<lambda>v. length v + 1) vs))"
proof (induction vs arbitrary: b s)
  case (Cons v vs)
  have put: "put_chars b s (v @ [0]) = Some (blit b s (v @ [0]), s + length v + 1)"
    using Cons.prems by (subst put_chars_blit) auto
  have blank: "(blit b s (v @ [0]))[s + length v := 0x20] = blit b s (v @ [0x20])"
    using Cons.prems by (intro nth_equalityI) (auto simp: blit_def nth_append nth_list_update nth_Cons')
  have "copy_args b s (v # vs) = copy_args (blit b s (v @ [0x20])) (s + length v + 1) vs"
    using put blank Cons.prems by (simp add: arr_set_def)
  also have "\<dots> = Some (blit (blit b s (v @ [0x20])) (s + length v + 1) (concat (map (\<lambda>v. v @ [0x20]) vs)),
      s + length v + 1 + sum_list (map (\<lambda>v. length v + 1) vs))"
    using Cons.prems by (intro Cons.IH) simp
  also have "blit (blit b s (v @ [0x20])) (s + length v + 1) (concat (map (\<lambda>v. v @ [0x20]) vs)) =
      blit b s ((v @ [0x20]) @ concat (map (\<lambda>v. v @ [0x20]) vs))"
    using blit_blit[of s "v @ [0x20]" "concat (map (\<lambda>v. v @ [0x20]) vs)" b] Cons.prems by (simp add: length_concat comp_def add_ac)
  finally show ?case by (simp add: add_ac)
qed (simp add: blit_def)

definition heap_exact :: "(nat \<Rightarrow> mem option) \<Rightarrow> bool" where
  "heap_exact heap \<longleftrightarrow> (\<forall>n. \<exists>b. heap n = Some b \<and> length b = n)"

lemma joined_value:
  assumes "vs \<noteq> []" "\<forall>v\<in>set vs. 0 \<notin> set v" "length b = sum_list (map (\<lambda>v. length v + 1) vs)"
  shows "\<exists>b' s. copy_args b 0 vs = Some (b', s) \<and> s \<noteq> 0 \<and>
    (\<exists>b''. arr_set b' (s - 1) 0 = Some b'' \<and> takeWhile (\<lambda>c. c \<noteq> 0) b'' = join_args vs)"
proof -
  let ?c = "concat (map (\<lambda>v. v @ [0x20 :: u8]) vs)"
  have len: "length ?c = length b" using assms(3) by (simp add: length_concat comp_def)
  have ne: "?c \<noteq> []" using assms(1) by (cases vs) auto
  have "copy_args b 0 vs = Some (?c, length b)" using copy_args_blit[of 0 vs b] assms(3) len by (simp add: blit_def)
  moreover have "?c[length b - 1 := 0] = butlast ?c @ [0]"
  proof -
    have "?c = butlast ?c @ [last ?c]" using ne by simp
    then have "?c[length (butlast ?c) := 0] = butlast ?c @ [0]" by (metis list_update_length)
    then show ?thesis using len by simp
  qed
  moreover have "0 \<notin> set (butlast ?c)" using assms(2) by (auto dest!: in_set_butlastD split: if_splits)
  then have "takeWhile (\<lambda>c. c \<noteq> 0) (butlast ?c @ [0]) = butlast ?c" by (subst takeWhile_append2) auto
  moreover have "b \<noteq> []" using ne len by auto
  ultimately show ?thesis using ne len by (auto simp: join_args_def arr_set_def)
qed

text \<open>The setting of a variable, from a call or from the command line\<close>

lemma do_env_set_spec:
  assumes inv: "ht_inv (env_htab gd)" "0 < free_slots (env_htab gd)" and cfg: "strdup (env_hooks cfg) = Some" and heap: "heap_exact heap"
    and name: "equals \<notin> set name" "arr_get name 0 \<noteq> Some 0x2D" and vs: "\<forall>v\<in>set vs. 0 \<notin> set v"
  shows "\<exists>rc gd'. do_env_set_raw cfg heap gd (a0 # name # vs) flag = Some (rc, gd') \<and> rc \<in> {0, 1} \<and>
    gd_env_ready gd' = gd_env_ready gd \<and> ht_inv (env_htab gd') \<and>
    env_of (env_htab gd') = (if rc \<noteq> 0 then env_of (env_htab gd)
       else (env_of (env_htab gd))(name := (if vs = [] then None else Some (join_args vs)))) \<and>
    (accepting (env_hooks cfg) \<longrightarrow> (rc = 0 \<longleftrightarrow> vs \<noteq> [] \<or> env_of (env_htab gd) name \<noteq> None))"
proof -
  have opts: "env_set_opts (a0 # name # vs) flag = Some (a0 # name # vs, flag)" using name(2) by auto
  show ?thesis
  proof (cases "vs = []")
    case True
    obtain r err h where h: "hdelete_r (env_hooks cfg) name (env_htab gd) flag = Some (r, err, h)" "ht_inv h"
      "env_of h = (if r \<noteq> 0 then (env_of (env_htab gd))(name := None) else env_of (env_htab gd))"
      "if env_of (env_htab gd) name = None then r = 0 \<and> err = Some ESRCH else r = 0 \<longrightarrow> err \<in> {Some EPERM, Some EINVAL}"
      using hdelete_env[OF inv(1), of "env_hooks cfg" name flag] by blast
    have "accepting (env_hooks cfg) \<Longrightarrow> err \<notin> {Some EPERM, Some EINVAL}"
      using h(1) accepting_search[of "env_hooks cfg" name None FIND "env_htab gd" 0]
      by (auto simp: hdelete_r_def accepting_rejects split: bind_splits if_splits)
    then show ?thesis using True opts h name(1) by (auto simp: do_env_set_raw_def split: if_splits)
  next
    case False
    obtain b where b: "heap (sum_list (map (\<lambda>v. length v + 1) vs)) = Some b" "length b = sum_list (map (\<lambda>v. length v + 1) vs)"
      using heap by (auto simp: heap_exact_def)
    obtain b' s b'' where cp: "copy_args b 0 vs = Some (b', s)" "s \<noteq> 0" "arr_set b' (s - 1) 0 = Some b''"
      "takeWhile (\<lambda>c. c \<noteq> 0) b'' = join_args vs"
      using joined_value[OF False vs b(2)] by blast
    obtain r err ep h where h: "hsearch_r (env_hooks cfg) name (Some (join_args vs)) ENTER (env_htab gd) flag = Some (r, err, ep, h)"
      "ht_inv h" "env_of h = (if r \<noteq> 0 then (env_of (env_htab gd))(name \<mapsto> join_args vs) else env_of (env_htab gd))"
      "r = 0 \<longrightarrow> err \<in> {Some EPERM, Some EINVAL}" "ep = None \<longleftrightarrow> r = 0"
      using hsearch_enter_env[OF inv(1) cfg inv(2), of name "join_args vs" flag] by blast
    have "accepting (env_hooks cfg) \<Longrightarrow> r \<noteq> 0" using h(1,4) accepting_search by blast
    then show ?thesis using False opts b(1) cp h(1-3,5) name(1) by (auto simp: do_env_set_raw_def Let_def)
  qed
qed



text \<open>A name that starts with a dash is taken for an option: the call that should set \<open>-f\<close> deletes another
  variable, and the command with an option only reads the null pointer behind its arguments.\<close>

lemma setenv_dash:
  "gd_env_ready gd \<Longrightarrow> v \<noteq> [] \<Longrightarrow> arr_get v 0 \<noteq> Some 0x2D \<Longrightarrow>
     setenv cfg heap gd (ascii ''-f'') (Some v) = do_env_set_raw cfg heap gd [ascii ''-f'', v] (H_PROGRAMMATIC OR H_FORCE)"
  "do_env_set cfg heap gd [ascii ''setenv'', ascii ''-f''] = None"
  by (auto simp: setenv_def do_env_set_def do_env_set_raw_def ascii_def arr_get_def)


lemma single_entry:
  assumes "map_of lst = [k \<mapsto> d]" "distinct (map fst lst)"
  shows "lst = [(k, d)]"
proof -
  have all: "e = (k, d)" if "e \<in> set lst" for e
    using map_of_is_SomeI[OF assms(2), of "fst e" "snd e"] that assms(1) by (cases e) (auto split: if_splits)
  obtain e es where e: "lst = e # es" using assms(1) by (cases lst) (auto simp: fun_eq_iff split: if_splits)
  have "es = []" using all[of e] all[of "hd es"] assms(2) e by (cases es) auto
  then show ?thesis using all e by simp
qed

definition early_gd :: env_gd where
  "early_gd = \<lparr>gd_env_ready = False, gd_reloc = False, gd_env_valid = True, gd_env_mem = ascii ''a=1'' @ 0 # replicate 28 0,
     gd_env_buf = replicate 32 0, env_htab = empty_htab, env_id = 1\<rparr>"


end
