(* ===== verification/Nand_Ecc.thy ===== *)
theory Nand_Ecc
  imports Xor_Linear
begin

text \<open>
  The error-correcting code for NAND flash, drivers/mtd/nand/nand_ecc.c: three bytes of parity for
  256 bytes of data. A table gives the parities of the columns of a byte and, in bit 6, the parity
  of the whole byte; the numbers of the bytes with odd parity are added up in \<open>reg3\<close> and their
  complements in \<open>reg2\<close>. \<open>smc\<close> is the byte order of Smart Media cards. \<open>None\<close> is an access outside of
  an array.
\<close>

section \<open>Model\<close>

definition nand_ecc_precalc_table :: "u8 list" where
  "nand_ecc_precalc_table =
    [0x00, 0x55, 0x56, 0x03, 0x59, 0x0c, 0x0f, 0x5a, 0x5a, 0x0f, 0x0c, 0x59, 0x03, 0x56, 0x55, 0x00,
     0x65, 0x30, 0x33, 0x66, 0x3c, 0x69, 0x6a, 0x3f, 0x3f, 0x6a, 0x69, 0x3c, 0x66, 0x33, 0x30, 0x65,
     0x66, 0x33, 0x30, 0x65, 0x3f, 0x6a, 0x69, 0x3c, 0x3c, 0x69, 0x6a, 0x3f, 0x65, 0x30, 0x33, 0x66,
     0x03, 0x56, 0x55, 0x00, 0x5a, 0x0f, 0x0c, 0x59, 0x59, 0x0c, 0x0f, 0x5a, 0x00, 0x55, 0x56, 0x03,
     0x69, 0x3c, 0x3f, 0x6a, 0x30, 0x65, 0x66, 0x33, 0x33, 0x66, 0x65, 0x30, 0x6a, 0x3f, 0x3c, 0x69,
     0x0c, 0x59, 0x5a, 0x0f, 0x55, 0x00, 0x03, 0x56, 0x56, 0x03, 0x00, 0x55, 0x0f, 0x5a, 0x59, 0x0c,
     0x0f, 0x5a, 0x59, 0x0c, 0x56, 0x03, 0x00, 0x55, 0x55, 0x00, 0x03, 0x56, 0x0c, 0x59, 0x5a, 0x0f,
     0x6a, 0x3f, 0x3c, 0x69, 0x33, 0x66, 0x65, 0x30, 0x30, 0x65, 0x66, 0x33, 0x69, 0x3c, 0x3f, 0x6a,
     0x6a, 0x3f, 0x3c, 0x69, 0x33, 0x66, 0x65, 0x30, 0x30, 0x65, 0x66, 0x33, 0x69, 0x3c, 0x3f, 0x6a,
     0x0f, 0x5a, 0x59, 0x0c, 0x56, 0x03, 0x00, 0x55, 0x55, 0x00, 0x03, 0x56, 0x0c, 0x59, 0x5a, 0x0f,
     0x0c, 0x59, 0x5a, 0x0f, 0x55, 0x00, 0x03, 0x56, 0x56, 0x03, 0x00, 0x55, 0x0f, 0x5a, 0x59, 0x0c,
     0x69, 0x3c, 0x3f, 0x6a, 0x30, 0x65, 0x66, 0x33, 0x33, 0x66, 0x65, 0x30, 0x6a, 0x3f, 0x3c, 0x69,
     0x03, 0x56, 0x55, 0x00, 0x5a, 0x0f, 0x0c, 0x59, 0x59, 0x0c, 0x0f, 0x5a, 0x00, 0x55, 0x56, 0x03,
     0x66, 0x33, 0x30, 0x65, 0x3f, 0x6a, 0x69, 0x3c, 0x3c, 0x69, 0x6a, 0x3f, 0x65, 0x30, 0x33, 0x66,
     0x65, 0x30, 0x33, 0x66, 0x3c, 0x69, 0x6a, 0x3f, 0x3f, 0x6a, 0x69, 0x3c, 0x66, 0x33, 0x30, 0x65,
     0x00, 0x55, 0x56, 0x03, 0x59, 0x0c, 0x0f, 0x5a, 0x5a, 0x0f, 0x0c, 0x59, 0x03, 0x56, 0x55, 0x00]"

text \<open>The loop over the data: the byte number and \<open>reg1\<close>, \<open>reg2\<close>, \<open>reg3\<close>\<close>

fun ecc_loop :: "u8 list \<Rightarrow> nat \<Rightarrow> nat \<Rightarrow> u8 \<times> u8 \<times> u8 \<Rightarrow> (u8 \<times> u8 \<times> u8) option" where
  "ecc_loop dat i 0 regs = Some regs"
| "ecc_loop dat i (Suc n) (reg1, reg2, reg3) = do {
     d \<leftarrow> arr_get dat i;
     idx \<leftarrow> arr_get nand_ecc_precalc_table (unat d);
     let reg1 = reg1 XOR (idx AND 0x3F);
     (if idx AND 0x40 \<noteq> 0
      then ecc_loop dat (i + 1) n (reg1, reg2 XOR NOT (word_of_nat i), reg3 XOR word_of_nat i)
      else ecc_loop dat (i + 1) n (reg1, reg2, reg3))
   }"

definition line_hi :: "u8 \<Rightarrow> u8 \<Rightarrow> u8" where
  "line_hi reg3 reg2 =
     (reg3 AND 0x80) OR drop_bit 1 (reg2 AND 0x80) OR
     drop_bit 1 (reg3 AND 0x40) OR drop_bit 2 (reg2 AND 0x40) OR
     drop_bit 2 (reg3 AND 0x20) OR drop_bit 3 (reg2 AND 0x20) OR
     drop_bit 3 (reg3 AND 0x10) OR drop_bit 4 (reg2 AND 0x10)"

definition line_lo :: "u8 \<Rightarrow> u8 \<Rightarrow> u8" where
  "line_lo reg3 reg2 =
     push_bit 4 (reg3 AND 0x08) OR push_bit 3 (reg2 AND 0x08) OR
     push_bit 3 (reg3 AND 0x04) OR push_bit 2 (reg2 AND 0x04) OR
     push_bit 2 (reg3 AND 0x02) OR push_bit 1 (reg2 AND 0x02) OR
     push_bit 1 (reg3 AND 0x01) OR (reg2 AND 0x01)"

text \<open>The three bytes of \<open>ecc_code\<close>\<close>

definition nand_calculate_ecc :: "bool \<Rightarrow> u8 list \<Rightarrow> (u8 \<times> u8 \<times> u8) option" where
  "nand_calculate_ecc smc dat = do {
     (reg1, reg2, reg3) \<leftarrow> ecc_loop dat 0 256 (0, 0, 0);
     let tmp1 = line_hi reg3 reg2;
     let tmp2 = line_lo reg3 reg2;
     let ecc2 = push_bit 2 (NOT reg1) OR 0x03;
     Some (if smc then (NOT tmp2, NOT tmp1, ecc2) else (NOT tmp1, NOT tmp2, ecc2))
   }"

function countbits :: "u32 \<Rightarrow> nat" where
  "countbits byte = (if byte = 0 then 0 else unat (byte AND 1) + countbits (drop_bit 1 byte))"
  by pat_completeness auto
termination
proof (relation "measure unat")
  fix byte :: u32
  assume "byte \<noteq> 0"
  then have "unat byte \<noteq> 0" by (simp add: unat_eq_zero)
  then have "unat (drop_bit 1 byte) < unat byte" by (simp only: unat_drop_bit_eq drop_bit_eq_div[where ?'a = nat]) simp
  then show "(drop_bit 1 byte, byte) \<in> measure unat" by simp
qed simp

declare countbits.simps [simp del]

definition EBADMSG :: int where "EBADMSG = 74"

text \<open>The number of the byte and of the bit that a syndrome points to\<close>

definition ecc_byteoffs :: "u8 \<Rightarrow> u8 \<Rightarrow> u32" where
  "ecc_byteoffs s0 s1 =
     (ucast s1 AND 0x80) OR (push_bit 1 (ucast s1) AND 0x40) OR (push_bit 2 (ucast s1) AND 0x20) OR
     (push_bit 3 (ucast s1) AND 0x10) OR (drop_bit 4 (ucast s0) AND 0x08) OR (drop_bit 3 (ucast s0) AND 0x04) OR
     (drop_bit 2 (ucast s0) AND 0x02) OR (drop_bit 1 (ucast s0) AND 0x01)"

definition ecc_bitnum :: "u8 \<Rightarrow> u32" where
  "ecc_bitnum s2 = (drop_bit 5 (ucast s2) AND 0x04) OR (drop_bit 4 (ucast s2) AND 0x02) OR (drop_bit 3 (ucast s2) AND 0x01)"

definition nand_correct_data :: "bool \<Rightarrow> u8 list \<Rightarrow> u8 \<times> u8 \<times> u8 \<Rightarrow> u8 \<times> u8 \<times> u8 \<Rightarrow> (int \<times> u8 list) option" where
  "nand_correct_data smc dat read_ecc calc_ecc =
     (case (read_ecc, calc_ecc) of ((r0, r1, r2), (c0, c1, c2)) \<Rightarrow>
        (let s0 = (if smc then c0 XOR r0 else c1 XOR r1);
             s1 = (if smc then c1 XOR r1 else c0 XOR r0);
             s2 = c2 XOR r2
         in if s0 OR s1 OR s2 = 0 then Some (0, dat)
            else if (s0 XOR drop_bit 1 s0) AND 0x55 = 0x55 \<and> (s1 XOR drop_bit 1 s1) AND 0x55 = 0x55 \<and>
                    (s2 XOR drop_bit 1 s2) AND 0x54 = 0x54
            then do {
              d \<leftarrow> arr_get dat (unat (ecc_byteoffs s0 s1));
              dat \<leftarrow> arr_set dat (unat (ecc_byteoffs s0 s1)) (d XOR push_bit (unat (ecc_bitnum s2)) 1);
              Some (1, dat)
            }
            else if countbits (ucast s0 OR push_bit 8 (ucast s1) OR push_bit 16 (ucast s2)) = 1 then Some (1, dat)
            else Some (- EBADMSG, dat)))"

section \<open>Parities\<close>

text \<open>The column parities of a single bit; the table is their sum.\<close>

definition col_bit :: "nat \<Rightarrow> u8" where
  "col_bit k = [0x55, 0x56, 0x59, 0x5A, 0x65, 0x66, 0x69, 0x6A] ! k"

definition col :: "u8 \<Rightarrow> u8" where
  "col x = foldr (\<lambda>k c. (if bit x k then col_bit k else 0) XOR c) [0..<8] 0"

lemma foldr_xor_linear:
  "foldr (\<lambda>k c. (if bit (x XOR y) k then g k else 0) XOR c) ks 0 =
     foldr (\<lambda>k c. (if bit x k then g k else 0) XOR c) ks 0 XOR foldr (\<lambda>k c. (if bit y k then g k else 0) XOR c) ks (0 :: u8)"
  for x y :: u8
proof (induction ks)
  case (Cons k ks)
  then show ?case by (auto simp: bit_xor_iff xor.assoc xor.left_commute simp flip: xor.assoc)
qed simp

interpretation column: xor_linear col
  by unfold_locales (simp only: col_def foldr_xor_linear)

lemma col_powers: "map (\<lambda>k. col (2 ^ k)) [0..<8] = [0x55, 0x56, 0x59, 0x5A, 0x65, 0x66, 0x69, 0x6A]"
  by code_simp

lemma table_col: "n < 256 \<Longrightarrow> nand_ecc_precalc_table ! n = col (word_of_nat n)"
proof -
  have "nand_ecc_precalc_table = foldl double_table [0] (map (\<lambda>k. col (2 ^ k)) [0..<8])"
    unfolding col_powers by (simp add: nand_ecc_precalc_table_def double_table_def)
  also have "\<dots> = map (\<lambda>n. col (word_of_nat n)) [0..<256]" using column.table_doubled[of 8] by (simp del: upt_rec_numeral)
  finally have t: "nand_ecc_precalc_table = map (\<lambda>n. col (word_of_nat n)) [0..<256]" .
  assume "n < 256"
  then show ?thesis unfolding t by (simp only: nth_map length_upt nth_upt) simp
qed

lemma table_entry: "arr_get nand_ecc_precalc_table (unat (d :: u8)) = Some (col d)"
proof -
  have "unat d < 256" using unsigned_less[of d, where ?'a = nat] by simp
  moreover have "length nand_ecc_precalc_table = 256" by (simp add: nand_ecc_precalc_table_def)
  ultimately show ?thesis using table_col[of "unat d"] by (simp add: arr_get_def)
qed

text \<open>The three registers as sums over the data\<close>

definition xsum :: "(nat \<Rightarrow> u8) \<Rightarrow> nat \<Rightarrow> u8" where
  "xsum g n = foldr (\<lambda>i c. g i XOR c) [0..<n] 0"

definition odd_byte :: "u8 \<Rightarrow> bool" where
  "odd_byte d \<longleftrightarrow> bit (col d) 6"

definition reg1_of :: "u8 list \<Rightarrow> u8" where
  "reg1_of dat = xsum (\<lambda>i. col (dat ! i) AND 0x3F) 256"

definition reg2_of :: "u8 list \<Rightarrow> u8" where
  "reg2_of dat = xsum (\<lambda>i. if odd_byte (dat ! i) then NOT (word_of_nat i) else 0) 256"

definition reg3_of :: "u8 list \<Rightarrow> u8" where
  "reg3_of dat = xsum (\<lambda>i. if odd_byte (dat ! i) then word_of_nat i else 0) 256"

lemma xor_fold: "foldr (\<lambda>i c. g i XOR c) is (a :: u8) = foldr (\<lambda>i c. g i XOR c) is 0 XOR a"
  by (induction "is") (simp_all add: xor.assoc)

lemma xsum_Suc: "xsum g (Suc n) = xsum g n XOR g n"
  unfolding xsum_def by (simp add: xor_fold[of g _ "g n"])

lemma and_40: "idx AND 0x40 \<noteq> 0 \<longleftrightarrow> bit idx 6" for idx :: u8
  using and_exp_eq_0_iff_not_bit[of idx 6] by simp

lemma ecc_loop_regs:
  "i + n \<le> length dat \<Longrightarrow>
    ecc_loop dat i n (xsum (\<lambda>i. col (dat ! i) AND 0x3F) i, xsum (\<lambda>i. if odd_byte (dat ! i) then NOT (word_of_nat i) else 0) i,
        xsum (\<lambda>i. if odd_byte (dat ! i) then word_of_nat i else 0) i) =
      Some (xsum (\<lambda>i. col (dat ! i) AND 0x3F) (i + n), xsum (\<lambda>i. if odd_byte (dat ! i) then NOT (word_of_nat i) else 0) (i + n),
        xsum (\<lambda>i. if odd_byte (dat ! i) then word_of_nat i else 0) (i + n))"
proof (induction n arbitrary: i)
  case (Suc n)
  define g1 where "g1 = (\<lambda>i. col (dat ! i) AND 0x3F)"
  define g2 where "g2 = (\<lambda>i. if odd_byte (dat ! i) then NOT (word_of_nat i) else 0 :: u8)"
  define g3 where "g3 = (\<lambda>i. if odd_byte (dat ! i) then word_of_nat i else 0 :: u8)"
  have "ecc_loop dat i (Suc n) (xsum g1 i, xsum g2 i, xsum g3 i) = ecc_loop dat (i + 1) n (xsum g1 (i + 1), xsum g2 (i + 1), xsum g3 (i + 1))"
    using Suc.prems by (simp add: table_entry and_40 xsum_Suc Let_def g1_def g2_def g3_def flip: odd_byte_def)
  then show ?case using Suc.IH[of "i + 1"] Suc.prems by (simp add: g1_def g2_def g3_def)
qed simp

lemma nand_calculate_ecc_regs:
  "256 \<le> length dat \<Longrightarrow> nand_calculate_ecc smc dat =
    (let h = NOT (line_hi (reg3_of dat) (reg2_of dat)); l = NOT (line_lo (reg3_of dat) (reg2_of dat));
         c = push_bit 2 (NOT (reg1_of dat)) OR 0x03
     in Some (if smc then (l, h, c) else (h, l, c)))"
  using ecc_loop_regs[of 0 256 dat]
  by (simp add: nand_calculate_ecc_def xsum_def[of _ 0] Let_def flip: reg1_of_def reg2_of_def reg3_of_def)

lemma xsum_update:
  "j < n \<Longrightarrow> (\<And>i. i < n \<Longrightarrow> i \<noteq> j \<Longrightarrow> g' i = g i) \<Longrightarrow> xsum g' n = xsum g n XOR (g j XOR g' j)"
proof (induction n)
  case (Suc n)
  show ?case
  proof (cases "j = n")
    case True
    have "xsum g' m = xsum g m" if "m \<le> n" for m
      using that Suc.prems(2) True by (induction m) (simp_all add: xsum_Suc xsum_def[of _ 0])
    then show ?thesis using True by (simp add: xsum_Suc xor.assoc)
  next
    case False
    then show ?thesis using Suc by (simp add: xsum_Suc xor.assoc xor.commute[of "g n"])
  qed
qed simp

section \<open>Errors\<close>

definition flip :: "nat \<times> nat \<Rightarrow> u8 list \<Rightarrow> u8 list" where
  "flip p dat = dat[fst p := dat ! fst p XOR 2 ^ snd p]"

lemma length_flip [simp]: "length (flip p dat) = length dat"
  by (simp add: flip_def)

lemma flip_flip: "fst p < length dat \<Longrightarrow> flip p (flip p dat) = dat"
  by (simp add: flip_def xor.assoc)

lemma col_bit_6: "b < 8 \<Longrightarrow> bit (col_bit b) 6"
proof -
  have "\<forall>b\<in>set [0..<8]. bit (col_bit b) 6" by code_simp
  then show "b < 8 \<Longrightarrow> ?thesis" by simp
qed

lemma col_pow: "b < 8 \<Longrightarrow> col (2 ^ b) = col_bit b"
proof -
  assume b: "b < 8"
  have "map (\<lambda>k. col (2 ^ k)) [0..<8] ! b = col_bit b" unfolding col_powers col_bit_def ..
  with b show ?thesis by (simp del: upt_rec_numeral)
qed

lemma flip_regs:
  assumes "fst p < 256" "snd p < 8" "256 \<le> length dat"
  shows "reg1_of (flip p dat) = reg1_of dat XOR (col_bit (snd p) AND 0x3F)"
    "reg2_of (flip p dat) = reg2_of dat XOR NOT (word_of_nat (fst p))"
    "reg3_of (flip p dat) = reg3_of dat XOR word_of_nat (fst p)"
proof -
  let ?j = "fst p" and ?d = "dat ! fst p" and ?c = "col_bit (snd p)"
  have same: "flip p dat ! i = dat ! i" if "i \<noteq> ?j" for i using that by (simp add: flip_def)
  have c: "col (flip p dat ! ?j) = col ?d XOR ?c" using assms by (simp add: flip_def column.f_xor col_pow)
  have par: "odd_byte (flip p dat ! ?j) \<longleftrightarrow> \<not> odd_byte ?d"
    using col_bit_6[OF assms(2)] by (simp add: odd_byte_def c bit_xor_iff)
  have 1: "(col ?d AND 0x3F) XOR (col (flip p dat ! ?j) AND 0x3F) = ?c AND 0x3F"
    unfolding c by (rule bit_word_eqI) (auto simp: bit_and_iff bit_xor_iff)
  have "xsum (\<lambda>i. col (flip p dat ! i) AND 0x3F) 256 =
      xsum (\<lambda>i. col (dat ! i) AND 0x3F) 256 XOR ((col ?d AND 0x3F) XOR (col (flip p dat ! ?j) AND 0x3F))"
    by (rule xsum_update[OF assms(1)]) (simp add: same)
  then show "reg1_of (flip p dat) = reg1_of dat XOR (?c AND 0x3F)" unfolding reg1_of_def 1 .
  show "reg2_of (flip p dat) = reg2_of dat XOR NOT (word_of_nat ?j)" unfolding reg2_of_def
    by (subst xsum_update[OF assms(1), of _ "\<lambda>i. if odd_byte (dat ! i) then NOT (word_of_nat i) else 0"]) (simp_all add: same par)
  show "reg3_of (flip p dat) = reg3_of dat XOR word_of_nat ?j" unfolding reg3_of_def
    by (subst xsum_update[OF assms(1), of _ "\<lambda>i. if odd_byte (dat ! i) then word_of_nat i else 0"]) (simp_all add: same par)
qed

lemma less_8: "n < 8 \<Longrightarrow> n = 0 \<or> n = 1 \<or> n = 2 \<or> n = 3 \<or> n = 4 \<or> n = 5 \<or> n = 6 \<or> n = (7 :: nat)"
  by arith

lemma all_less_8: "(\<forall>n<8. P n) \<longleftrightarrow> P 0 \<and> P 1 \<and> P 2 \<and> P 3 \<and> P 4 \<and> P 5 \<and> P 6 \<and> P (7 :: nat)"
  by (intro iffI allI impI; (drule less_8, elim disjE)?; simp)

lemma bit_double: "bit (a * 2) n \<longleftrightarrow> n < 8 \<and> n \<noteq> 0 \<and> bit a (n - 1)" for a :: u8
  using bit_push_bit_iff[of 1 a n] bit_imp_le_length[of "a * 2" n] by (auto simp: push_bit_Suc)

lemma bit_line_hi: "n < 8 \<Longrightarrow> bit (line_hi a b) n \<longleftrightarrow> (if odd n then bit a (4 + n div 2) else bit b (4 + n div 2))"
  by (drule less_8) (elim disjE; simp add: line_hi_def bit_or_iff bit_and_iff bit_drop_bit_eq)

lemma bit_line_lo: "n < 8 \<Longrightarrow> bit (line_lo a b) n \<longleftrightarrow> (if odd n then bit a (n div 2) else bit b (n div 2))"
  by (drule less_8) (elim disjE; simp add: line_lo_def bit_or_iff bit_and_iff bit_push_bit_iff bit_double)

lemma not_xor_not: "NOT a XOR NOT b = a XOR b" for a b :: u8
  by (rule bit_word_eqI) (auto simp: bit_xor_iff bit_not_iff)

lemma line_xor:
  "line_hi a b XOR line_hi a' b' = line_hi (a XOR a') (b XOR b')" "line_lo a b XOR line_lo a' b' = line_lo (a XOR a') (b XOR b')"
  by (rule bit_word_eqI; simp add: bit_xor_iff bit_line_hi bit_line_lo)+

lemma col_xor: "(push_bit 2 (NOT a) OR 3) XOR (push_bit 2 (NOT b) OR 3) = push_bit 2 (a XOR b)" for a b :: u8
proof (rule bit_word_eqI)
  fix n assume "n < LENGTH(8)"
  then have "n < 8" by simp
  from less_8[OF this]
  show "bit ((push_bit 2 (NOT a) OR 3) XOR (push_bit 2 (NOT b) OR 3)) n \<longleftrightarrow> bit (push_bit 2 (a XOR b)) n"
    by (elim disjE; simp add: bit_xor_iff bit_or_iff bit_push_bit_iff bit_not_iff)
qed

text \<open>What \<open>nand_correct_data\<close> does with a syndrome\<close>

definition by_syndrome :: "u8 list \<Rightarrow> u8 \<Rightarrow> u8 \<Rightarrow> u8 \<Rightarrow> (int \<times> u8 list) option" where
  "by_syndrome dat s0 s1 s2 =
     (if s0 OR s1 OR s2 = 0 then Some (0, dat)
      else if (s0 XOR drop_bit 1 s0) AND 0x55 = 0x55 \<and> (s1 XOR drop_bit 1 s1) AND 0x55 = 0x55 \<and>
              (s2 XOR drop_bit 1 s2) AND 0x54 = 0x54
      then do {
        d \<leftarrow> arr_get dat (unat (ecc_byteoffs s0 s1));
        dat \<leftarrow> arr_set dat (unat (ecc_byteoffs s0 s1)) (d XOR push_bit (unat (ecc_bitnum s2)) 1);
        Some (1, dat)
      }
      else if countbits (ucast s0 OR push_bit 8 (ucast s1) OR push_bit 16 (ucast s2)) = 1 then Some (1, dat)
      else Some (- EBADMSG, dat))"

lemma correct_by_syndrome:
  assumes "256 \<le> length dat" "256 \<le> length dat'"
    and "nand_calculate_ecc smc dat = Some r" "nand_calculate_ecc smc dat' = Some c"
  shows "nand_correct_data smc dat' r c = by_syndrome dat'
    (line_lo (reg3_of dat' XOR reg3_of dat) (reg2_of dat' XOR reg2_of dat))
    (line_hi (reg3_of dat' XOR reg3_of dat) (reg2_of dat' XOR reg2_of dat)) (push_bit 2 (reg1_of dat' XOR reg1_of dat))"
  using assms(3,4) unfolding nand_calculate_ecc_regs[OF assms(1)] nand_calculate_ecc_regs[OF assms(2)]
  by (auto simp: nand_correct_data_def by_syndrome_def Let_def not_xor_not line_xor col_xor simp del: xor_self_eq)

text \<open>The masks in the check for a single error compare the bits of each pair.\<close>

lemma pairs_55: "(s XOR drop_bit 1 s) AND 0x55 = 0x55 \<longleftrightarrow>
  bit s 0 \<noteq> bit s 1 \<and> bit s 2 \<noteq> bit s 3 \<and> bit s 4 \<noteq> bit s 5 \<and> bit s 6 \<noteq> bit s 7" for s :: u8
proof -
  have "(s XOR drop_bit 1 s) AND 0x55 = 0x55 \<longleftrightarrow> (\<forall>n<8. bit ((s XOR drop_bit 1 s) AND 0x55) n = bit (0x55 :: u8) n)"
    by (simp add: bit_eq_iff)
  also have "\<dots> \<longleftrightarrow> bit s 0 \<noteq> bit s 1 \<and> bit s 2 \<noteq> bit s 3 \<and> bit s 4 \<noteq> bit s 5 \<and> bit s 6 \<noteq> bit s 7"
    unfolding all_less_8 by (simp add: bit_and_iff bit_xor_iff bit_drop_bit_eq numeral_3_eq_3)
  finally show ?thesis .
qed

lemma byteoffs_decodes: "ecc_byteoffs (line_lo j (NOT j)) (line_hi j (NOT j)) = ucast j"
proof (rule bit_word_eqI)
  fix n assume "n < LENGTH(32)"
  let ?hi = "line_hi j (NOT j)" and ?lo = "line_lo j (NOT j)"
  have b: "bit (x AND 2 ^ k) n \<longleftrightarrow> n = k \<and> bit x k" if "k < 8" for x :: u32 and k
    using that by (auto simp: bit_and_iff bit_exp_iff)
  have m: "bit (x AND 0x80) n \<longleftrightarrow> n = 7 \<and> bit x 7" "bit (x AND 0x40) n \<longleftrightarrow> n = 6 \<and> bit x 6"
    "bit (x AND 0x20) n \<longleftrightarrow> n = 5 \<and> bit x 5" "bit (x AND 0x10) n \<longleftrightarrow> n = 4 \<and> bit x 4"
    "bit (x AND 0x08) n \<longleftrightarrow> n = 3 \<and> bit x 3" "bit (x AND 0x04) n \<longleftrightarrow> n = 2 \<and> bit x 2"
    "bit (x AND 0x02) n \<longleftrightarrow> n = 1 \<and> bit x 1" "bit (x AND 0x01) n \<longleftrightarrow> n = 0 \<and> bit x 0" for x :: u32
    using b[of 7 x] b[of 6 x] b[of 5 x] b[of 4 x] b[of 3 x] b[of 2 x] b[of 1 x] b[of 0 x] by simp_all
  have "bit (ecc_byteoffs ?lo ?hi) n \<longleftrightarrow>
      n = 7 \<and> bit ?hi 7 \<or> n = 6 \<and> bit ?hi 5 \<or> n = 5 \<and> bit ?hi 3 \<or> n = 4 \<and> bit ?hi 1 \<or>
      n = 3 \<and> bit ?lo 7 \<or> n = 2 \<and> bit ?lo 5 \<or> n = 1 \<and> bit ?lo 3 \<or> n = 0 \<and> bit ?lo 1"
    unfolding ecc_byteoffs_def bit_or_iff m
    by (simp only: bit_push_bit_iff bit_drop_bit_eq comp_apply bit_ucast_iff) simp
  also have "\<dots> \<longleftrightarrow> n < 8 \<and> bit j n" 
  proof (cases "n < 8")
    case True
    from less_8[OF True] show ?thesis by (elim disjE; simp add: bit_line_hi bit_line_lo)
  qed auto
  finally show "bit (ecc_byteoffs ?lo ?hi) n \<longleftrightarrow> bit (ucast j :: u32) n"
    using bit_imp_le_length[of j n] by (auto simp: bit_ucast_iff)
qed

lemma bitnum_decodes:
  assumes "b < 8"
  defines "s2 \<equiv> push_bit 2 (col_bit b AND 0x3F)"
  shows "(s2 XOR drop_bit 1 s2) AND 0x54 = 0x54" "unat (ecc_bitnum s2) = b" "s2 \<noteq> 0"
proof -
  have "\<forall>b\<in>set [0..<8]. let s2 = push_bit 2 (col_bit b AND 0x3F) in
      (s2 XOR drop_bit 1 s2) AND 0x54 = 0x54 \<and> unat (ecc_bitnum s2) = b \<and> s2 \<noteq> 0"
    by code_simp
  then show "(s2 XOR drop_bit 1 s2) AND 0x54 = 0x54" "unat (ecc_bitnum s2) = b" "s2 \<noteq> 0"
    using assms(1) by (auto simp: s2_def Let_def)
qed

lemma or_eq_0: "a OR b = 0 \<longleftrightarrow> a = 0 \<and> b = 0" for a b :: "'a::len word"
  by (auto simp: bit_eq_iff bit_or_iff)

lemma single_syndrome:
  assumes "j < 256" "b < 8" "256 \<le> length dat"
  shows "by_syndrome dat (line_lo (word_of_nat j) (NOT (word_of_nat j))) (line_hi (word_of_nat j) (NOT (word_of_nat j)))
      (push_bit 2 (col_bit b AND 0x3F)) = Some (1, flip (j, b) dat)"
proof -
  let ?j = "word_of_nat j :: u8" and ?s2 = "push_bit 2 (col_bit b AND 0x3F)"
  have off: "unat (ecc_byteoffs (line_lo ?j (NOT ?j)) (line_hi ?j (NOT ?j))) = j"
    using assms(1) unfolding byteoffs_decodes by (simp add: unat_ucast_mod unat_of_nat)
  have "(line_lo ?j (NOT ?j) XOR drop_bit 1 (line_lo ?j (NOT ?j))) AND 0x55 = 0x55"
    "(line_hi ?j (NOT ?j) XOR drop_bit 1 (line_hi ?j (NOT ?j))) AND 0x55 = 0x55"
    unfolding pairs_55 by (simp_all add: bit_line_lo bit_line_hi bit_not_iff)
  then show ?thesis using bitnum_decodes[OF assms(2)] assms(1,3)
    by (simp add: by_syndrome_def or_eq_0 off flip_def push_bit_eq_mult)
qed

lemma shift_even: "w \<noteq> 0 \<Longrightarrow> even w \<Longrightarrow> drop_bit 1 w \<noteq> 0" for w :: u32
proof
  assume w: "w \<noteq> 0" "even w" "drop_bit 1 w = 0"
  obtain n where n: "bit w n" using w(1) by (auto simp: bit_eq_iff)
  with w(2) have "n \<noteq> 0" by (cases n) (auto simp: bit_0)
  then have "bit (drop_bit 1 w) (n - 1)" using n by (simp add: bit_drop_bit_eq)
  with w(3) show False by simp
qed

lemma countbits_0: "countbits w = 0 \<longleftrightarrow> w = 0"
proof (induction w rule: countbits.induct)
  case (1 w)
  show ?case
  proof (cases "w = 0 \<or> odd w")
    case True
    then show ?thesis by (subst countbits.simps) (auto simp: and_one_eq mod_2_eq_odd)
  next
    case False
    then have "drop_bit 1 w \<noteq> 0" by (intro shift_even) auto
    then show ?thesis using 1 False by (subst countbits.simps) simp
  qed
qed

lemma countbits_unique:
  assumes "countbits w = 1"
  shows "\<exists>n. \<forall>k. bit w k \<longleftrightarrow> k = n"
  using assms
proof (induction w rule: countbits.induct)
  case (1 w)
  have w: "w \<noteq> 0" "unat (w AND 1) + countbits (drop_bit 1 w) = 1"
    using 1(2) by (auto simp: countbits.simps[of w] split: if_splits)
  have s: "bit w k \<longleftrightarrow> (if k = 0 then odd w else bit (drop_bit 1 w) (k - 1))" for k
    by (simp add: bit_0 bit_drop_bit_eq)
  show ?case
  proof (cases "odd w")
    case True
    then have "countbits (drop_bit 1 w) = 0" using w(2) by (simp add: and_one_eq mod_2_eq_odd)
    then have "drop_bit 1 w = 0" by (simp only: countbits_0)
    then show ?thesis using True s by (intro exI[of _ 0]) simp
  next
    case False
    then have "countbits (drop_bit 1 w) = 1" using w(2) by (simp add: and_one_eq mod_2_eq_odd)
    then obtain n where "\<forall>k. bit (drop_bit 1 w) k \<longleftrightarrow> k = n" using 1(1)[OF w(1)] by blast
    then show ?thesis using False s by (intro exI[of _ "n + 1"]) auto
  qed
qed

lemma countbits_power: "n < 32 \<Longrightarrow> countbits (2 ^ n) = 1"
proof (induction n)
  case 0
  show ?case by (simp add: countbits.simps)
next
  case (Suc n)
  have "drop_bit 1 (2 ^ Suc n) = (2 ^ n :: u32)" using Suc.prems by (intro bit_word_eqI) (auto simp: bit_drop_bit_eq bit_exp_iff simp del: power_Suc)
  moreover have "(2 ^ Suc n :: u32) \<noteq> 0" using Suc.prems by (simp add: exp_eq_zero_iff del: power_Suc)
  moreover have "(2 ^ Suc n :: u32) AND 1 = 0" by (rule bit_word_eqI) (simp add: bit_and_iff bit_exp_iff bit_1_iff del: power_Suc)
  ultimately show ?case using Suc by (subst countbits.simps) (simp del: power_Suc)
qed

text \<open>The syndrome of two errors has pairs of equal bits.\<close>

definition paired :: "'a::len word \<Rightarrow> bool" where
  "paired w \<longleftrightarrow> (\<forall>k. bit w (2 * k) \<longleftrightarrow> bit w (2 * k + 1))"

lemma paired_not_unique: "paired w \<Longrightarrow> countbits w \<noteq> 1"
proof
  assume p: "paired w" and "countbits w = 1"
  then obtain n where n: "\<And>k. bit w k \<longleftrightarrow> k = n" using countbits_unique by blast
  have "bit w (2 * (n div 2)) \<longleftrightarrow> bit w (2 * (n div 2) + 1)" using p by (simp add: paired_def)
  then show False unfolding n by presburger
qed

lemma paired_join:
  fixes s0 s1 s2 :: u8
  assumes "paired s0" "paired s1" "paired s2"
  shows "paired (ucast s0 OR push_bit 8 (ucast s1) OR push_bit 16 (ucast s2) :: u32)"
proof -
  have b: "bit (ucast s0 OR push_bit 8 (ucast s1) OR push_bit 16 (ucast s2) :: u32) m \<longleftrightarrow>
      bit s0 m \<or> 8 \<le> m \<and> bit s1 (m - 8) \<or> 16 \<le> m \<and> bit s2 (m - 16)" for m
    using bit_imp_le_length[of s0 m] bit_imp_le_length[of s1 "m - 8"] bit_imp_le_length[of s2 "m - 16"]
    by (auto simp: bit_or_iff bit_push_bit_iff bit_ucast_iff)
  have sh: "8 \<le> 2 * k \<longleftrightarrow> 8 \<le> 2 * k + 1" "16 \<le> 2 * k \<longleftrightarrow> 16 \<le> 2 * k + 1"
    "8 \<le> 2 * k \<Longrightarrow> 2 * k - 8 = 2 * (k - 4) \<and> 2 * k + 1 - 8 = 2 * (k - 4) + 1"
    "16 \<le> 2 * k \<Longrightarrow> 2 * k - 16 = 2 * (k - 8) \<and> 2 * k + 1 - 16 = 2 * (k - 8) + 1" for k :: nat
    by presburger+
  show ?thesis unfolding paired_def b
  proof
    fix k
    show "(bit s0 (2 * k) \<or> 8 \<le> 2 * k \<and> bit s1 (2 * k - 8) \<or> 16 \<le> 2 * k \<and> bit s2 (2 * k - 16)) =
        (bit s0 (2 * k + 1) \<or> 8 \<le> 2 * k + 1 \<and> bit s1 (2 * k + 1 - 8) \<or> 16 \<le> 2 * k + 1 \<and> bit s2 (2 * k + 1 - 16))"
      using assms sh[of k] unfolding paired_def by metis
  qed
qed

lemma paired_line: "paired (line_lo e e)" "paired (line_hi e e)"
proof -
  have "bit (line_lo e e) (2 * k) \<longleftrightarrow> bit (line_lo e e) (2 * k + 1)" "bit (line_hi e e) (2 * k) \<longleftrightarrow> bit (line_hi e e) (2 * k + 1)" for k
  proof -
    show "bit (line_lo e e) (2 * k) \<longleftrightarrow> bit (line_lo e e) (2 * k + 1)"
    proof (cases "k < 4")
      case True
      then show ?thesis by (subst (1 2) bit_line_lo) auto
    qed (auto dest: bit_imp_le_length)
    show "bit (line_hi e e) (2 * k) \<longleftrightarrow> bit (line_hi e e) (2 * k + 1)"
    proof (cases "k < 4")
      case True
      then show ?thesis by (subst (1 2) bit_line_hi) auto
    qed (auto dest: bit_imp_le_length)
  qed
  then show "paired (line_lo e e)" "paired (line_hi e e)" by (simp_all add: paired_def)
qed

lemma double_columns:
  assumes "b < 8" "c < 8"
  defines "s2 \<equiv> push_bit 2 ((col_bit b AND 0x3F) XOR (col_bit c AND 0x3F))"
  shows "paired s2" "s2 = 0 \<longleftrightarrow> b = c"
proof -
  have "\<forall>b\<in>set [0..<8]. \<forall>c\<in>set [0..<8]. let s2 = push_bit 2 ((col_bit b AND 0x3F) XOR (col_bit c AND 0x3F)) in
      (bit s2 0 \<longleftrightarrow> bit s2 1) \<and> (bit s2 2 \<longleftrightarrow> bit s2 3) \<and> (bit s2 4 \<longleftrightarrow> bit s2 5) \<and> (bit s2 6 \<longleftrightarrow> bit s2 7) \<and> (s2 = 0 \<longleftrightarrow> b = c)"
    by code_simp
  then have s: "bit s2 0 \<longleftrightarrow> bit s2 1" "bit s2 2 \<longleftrightarrow> bit s2 3" "bit s2 4 \<longleftrightarrow> bit s2 5" "bit s2 6 \<longleftrightarrow> bit s2 7" "s2 = 0 \<longleftrightarrow> b = c"
    using assms(1,2) by (simp_all add: s2_def Let_def)
  show "s2 = 0 \<longleftrightarrow> b = c" by (rule s(5))
  have "bit s2 (2 * k) \<longleftrightarrow> bit s2 (2 * k + 1)" for k
  proof (cases "k < 4")
    case True
    then have "k = 0 \<or> k = 1 \<or> k = 2 \<or> k = 3" by arith
    then show ?thesis using s(1-4) by (elim disjE) simp_all
  qed (auto dest: bit_imp_le_length)
  then show "paired s2" by (simp add: paired_def)
qed

lemma line_zero: "line_lo e e = 0 \<Longrightarrow> line_hi e e = 0 \<Longrightarrow> e = 0"
proof (rule bit_word_eqI)
  fix n assume z: "line_lo e e = 0" "line_hi e e = 0" and "n < LENGTH(8)"
  then have n: "n < 8" by simp
  have lo: "\<not> bit (line_lo e e) k" "\<not> bit (line_hi e e) k" for k using z by simp_all
  from less_8[OF n] show "bit e n \<longleftrightarrow> bit 0 n"
    using lo(1)[of 0] lo(1)[of 2] lo(1)[of 4] lo(1)[of 6] lo(2)[of 0] lo(2)[of 2] lo(2)[of 4] lo(2)[of 6]
    by (elim disjE; simp add: bit_line_lo bit_line_hi)
qed

lemma double_syndrome:
  assumes "p \<noteq> q" "fst p < 256" "snd p < 8" "fst q < 256" "snd q < 8"
  defines "e \<equiv> word_of_nat (fst p) XOR word_of_nat (fst q) :: u8"
  shows "by_syndrome dat (line_lo e e) (line_hi e e) (push_bit 2 ((col_bit (snd p) AND 0x3F) XOR (col_bit (snd q) AND 0x3F))) =
    Some (- EBADMSG, dat)"
proof -
  let ?s2 = "push_bit 2 ((col_bit (snd p) AND 0x3F) XOR (col_bit (snd q) AND 0x3F))"
  note s2 = double_columns[OF assms(3,5)]
  have "\<not> (line_lo e e = 0 \<and> line_hi e e = 0 \<and> ?s2 = 0)"
  proof
    assume z: "line_lo e e = 0 \<and> line_hi e e = 0 \<and> ?s2 = 0"
    then have "(word_of_nat (fst p) :: u8) = word_of_nat (fst q)" using line_zero[of e] by (simp add: e_def xor_eq_0)
    moreover have "unat (word_of_nat j :: u8) = j" if "j < 256" for j using that by (simp add: unat_of_nat)
    ultimately have "fst p = fst q" using assms(2,4) by metis
    then show False using z s2(2) assms(1) by (simp add: prod_eq_iff)
  qed
  moreover have "bit (line_lo e e) 0 = bit (line_lo e e) 1" using paired_line(1)[of e] unfolding paired_def by (metis mult_0_right add_0)
  then have "\<not> (line_lo e e XOR drop_bit 1 (line_lo e e)) AND 0x55 = 0x55" unfolding pairs_55 by simp
  moreover have "countbits (ucast (line_lo e e) OR push_bit 8 (ucast (line_hi e e)) OR push_bit 16 (ucast ?s2)) \<noteq> 1"
    by (intro paired_not_unique paired_join paired_line s2(1))
  ultimately show ?thesis by (auto simp: by_syndrome_def or_eq_0)
qed

text \<open>A wrong bit in the stored code\<close>

definition flip_ecc :: "nat \<times> nat \<Rightarrow> u8 \<times> u8 \<times> u8 \<Rightarrow> u8 \<times> u8 \<times> u8" where
  "flip_ecc p ecc = (case ecc of (e0, e1, e2) \<Rightarrow>
     if fst p = 0 then (e0 XOR 2 ^ snd p, e1, e2) else if fst p = 1 then (e0, e1 XOR 2 ^ snd p, e2) else (e0, e1, e2 XOR 2 ^ snd p))"

lemma code_syndrome:
  assumes "k < 8"
  shows "by_syndrome dat (2 ^ k) 0 0 = Some (1, dat)" "by_syndrome dat 0 (2 ^ k) 0 = Some (1, dat)" "by_syndrome dat 0 0 (2 ^ k) = Some (1, dat)"
proof -
  have nz: "(2 ^ k :: u8) \<noteq> 0" using assms by (simp add: exp_eq_zero_iff)
  have u: "(ucast (2 ^ k :: u8) :: u32) = 2 ^ k" "push_bit 8 (2 ^ k :: u32) = 2 ^ (8 + k)" "push_bit 16 (2 ^ k :: u32) = 2 ^ (16 + k)"
    using assms by (auto intro!: bit_word_eqI simp: bit_ucast_iff bit_exp_iff push_bit_eq_mult power_add)
  show "by_syndrome dat (2 ^ k) 0 0 = Some (1, dat)" "by_syndrome dat 0 (2 ^ k) 0 = Some (1, dat)" "by_syndrome dat 0 0 (2 ^ k) = Some (1, dat)"
    using nz assms countbits_power[of k] countbits_power[of "8 + k"] countbits_power[of "16 + k"]
    by (simp_all add: by_syndrome_def u)
qed

lemma correct_flip_ecc:
  assumes "fst p < 3" "snd p < 8"
  shows "nand_correct_data smc dat (flip_ecc p ecc) ecc = Some (1, dat)"
proof -
  obtain e0 e1 e2 where e: "ecc = (e0, e1, e2)" by (cases ecc)
  have x: "a XOR (a XOR 2 ^ snd p) = 2 ^ snd p" for a :: u8 by (simp flip: xor.assoc)
  have "nand_correct_data smc dat (flip_ecc p ecc) ecc =
      (if fst p = 2 then by_syndrome dat 0 0 (2 ^ snd p)
       else if (fst p = 0) = smc then by_syndrome dat (2 ^ snd p) 0 0 else by_syndrome dat 0 (2 ^ snd p) 0)"
    using assms(1) by (auto simp: nand_correct_data_def by_syndrome_def flip_ecc_def e Let_def x)
  then show ?thesis using code_syndrome[OF assms(2)] by simp
qed

section \<open>Properties\<close>

text \<open>C38: The code corrects every single error: for any 256 bytes and their code, undamaged data is left alone, one
  wrong bit anywhere in the data is put right, and one wrong bit in the stored code is recognised as
  such and leaves the data alone.\<close>

theorem nand_ecc_corrects:
  assumes "256 \<le> length dat"
  shows "\<exists>ecc. nand_calculate_ecc smc dat = Some ecc \<and> nand_correct_data smc dat ecc ecc = Some (0, dat) \<and>
    (\<forall>p. fst p < 256 \<and> snd p < 8 \<longrightarrow> (\<exists>calc. nand_calculate_ecc smc (flip p dat) = Some calc \<and>
       nand_correct_data smc (flip p dat) ecc calc = Some (1, dat))) \<and>
    (\<forall>p. fst p < 3 \<and> snd p < 8 \<longrightarrow> nand_correct_data smc dat (flip_ecc p ecc) ecc = Some (1, dat))"
proof -
  obtain ecc where ecc: "nand_calculate_ecc smc dat = Some ecc" using nand_calculate_ecc_regs[OF assms, of smc] by (auto simp: Let_def)
  have "nand_correct_data smc dat ecc ecc = Some (0, dat)" by (cases ecc) (simp add: nand_correct_data_def Let_def)
  moreover have "\<exists>calc. nand_calculate_ecc smc (flip p dat) = Some calc \<and> nand_correct_data smc (flip p dat) ecc calc = Some (1, dat)"
    if "fst p < 256" "snd p < 8" for p
  proof -
    obtain calc where calc: "nand_calculate_ecc smc (flip p dat) = Some calc"
      using nand_calculate_ecc_regs[of "flip p dat" smc] assms by (auto simp: Let_def)
    have x: "(a XOR b) XOR a = b" for a b :: u8 by (simp add: xor.commute flip: xor.assoc)
    have "nand_correct_data smc (flip p dat) ecc calc = Some (1, flip p (flip p dat))"
      using correct_by_syndrome[OF assms _ ecc calc] single_syndrome[OF that, of "flip p dat"] assms
      by (simp add: flip_regs[OF that assms] x)
    then show ?thesis using calc flip_flip[of p dat] that(1) assms by simp
  qed
  ultimately show ?thesis using ecc correct_flip_ecc by blast
qed

text \<open>C39: The code detects every double error: when two different bits of the data are wrong, \<open>nand_correct_data\<close> reports
  \<open>EBADMSG\<close> and leaves the data as it is.\<close>

theorem nand_ecc_detects:
  assumes "256 \<le> length dat" "fst p < 256" "snd p < 8" "fst q < 256" "snd q < 8" "p \<noteq> q"
  shows "\<exists>ecc calc. nand_calculate_ecc smc dat = Some ecc \<and> nand_calculate_ecc smc (flip q (flip p dat)) = Some calc \<and>
    nand_correct_data smc (flip q (flip p dat)) ecc calc = Some (- EBADMSG, flip q (flip p dat))"
proof -
  let ?d = "flip q (flip p dat)"
  obtain ecc where ecc: "nand_calculate_ecc smc dat = Some ecc" using nand_calculate_ecc_regs[OF assms(1), of smc] by (auto simp: Let_def)
  obtain calc where calc: "nand_calculate_ecc smc ?d = Some calc"
    using nand_calculate_ecc_regs[of ?d smc] assms(1) by (auto simp: Let_def)
  have x: "((a XOR b) XOR c) XOR a = b XOR c" for a b c :: u8
    by (rule bit_word_eqI) (auto simp: bit_xor_iff)
  have l: "256 \<le> length (flip p dat)" "256 \<le> length ?d" using assms(1) by simp_all
  have "nand_correct_data smc ?d ecc calc = Some (- EBADMSG, ?d)"
    using correct_by_syndrome[OF assms(1) l(2) ecc calc] double_syndrome[OF assms(6,2-5), of ?d]
    by (simp only: flip_regs[OF assms(2,3,1)] flip_regs[OF assms(4,5) l(1)] x not_xor_not)
  with ecc calc show ?thesis by blast
qed

theorem nand_ecc_corrects_witness:
  "\<exists>ecc calc. nand_calculate_ecc False (replicate 256 0xA5) = Some ecc \<and>
    nand_calculate_ecc False (flip (77, 3) (replicate 256 0xA5)) = Some calc \<and>
    nand_correct_data False (flip (77, 3) (replicate 256 0xA5)) ecc calc = Some (1, replicate 256 0xA5)"
proof -
  have "fst (77 :: nat, 3 :: nat) < 256 \<and> snd (77 :: nat, 3 :: nat) < 8" by simp
  then show ?thesis using nand_ecc_corrects[of "replicate 256 0xA5" False] by (metis length_replicate order_refl)
qed

theorem nand_ecc_detects_witness:
  "\<exists>ecc calc. nand_calculate_ecc True (replicate 256 1) = Some ecc \<and>
    nand_calculate_ecc True (flip (9, 7) (flip (9, 0) (replicate 256 1))) = Some calc \<and>
    nand_correct_data True (flip (9, 7) (flip (9, 0) (replicate 256 1))) ecc calc =
      Some (- EBADMSG, flip (9, 7) (flip (9, 0) (replicate 256 1)))"
  by (rule nand_ecc_detects) simp_all

end
