(* ===== verification/Rtc_Date.thy ===== *)
theory Rtc_Date
  imports Uboot_Prelude "HOL-Library.Signed_Division"
begin

text \<open>
  Dates, drivers/rtc/date.c: seconds since 1970 to a date and back, and the day of the week. The
  fields of a date are C integers that stay far from their limits; divisions round towards zero. The
  static table of month lengths is patched for leap years and restored.
\<close>

section \<open>Model\<close>

record rtc_time =
  tm_sec :: int
  tm_min :: int
  tm_hour :: int
  tm_mday :: int
  tm_mon :: int
  tm_year :: int
  tm_wday :: int
  tm_yday :: int
  tm_isdst :: int

definition SECDAY :: int where "SECDAY = 86400"

definition leapyear :: "int \<Rightarrow> bool" where
  "leapyear year \<longleftrightarrow> year smod 4 = 0"

definition days_in_year :: "int \<Rightarrow> int" where
  "days_in_year a = (if leapyear a then 366 else 365)"

definition month_days :: "int list" where
  "month_days = [31, 28, 31, 30, 31, 30, 31, 31, 30, 31, 30, 31]"

definition MonthOffset :: "int list" where
  "MonthOffset = [0, 31, 59, 90, 120, 151, 181, 212, 243, 273, 304, 334]"

text \<open>The return value and the date with its weekday; \<open>None\<close> is a month outside of the table.\<close>

definition rtc_calc_weekday :: "rtc_time \<Rightarrow> (int \<times> rtc_time) option" where
  "rtc_calc_weekday tm =
     (if tm_year tm < 1753 then Some (- 22, tm)
      else do {
        let lastYear = tm_year tm - 1;
        let leapsToDate = lastYear sdiv 4 - lastYear sdiv 100 + lastYear sdiv 400;
        let day = (if tm_year tm smod 4 = 0 \<and> (tm_year tm smod 100 \<noteq> 0 \<or> tm_year tm smod 400 = 0) \<and> tm_mon tm > 2
                   then 1 else 0);
        m \<leftarrow> (if tm_mon tm < 1 then None else arr_get MonthOffset (nat (tm_mon tm - 1)));
        let day = day + (lastYear * 365 + leapsToDate + m + tm_mday tm);
        Some (0, tm\<lparr>tm_wday := day smod 7\<rparr>)
      })"

function year_loop :: "int \<Rightarrow> int \<Rightarrow> int \<times> int" where
  "year_loop day i = (if day \<ge> days_in_year i then year_loop (day - days_in_year i) (i + 1) else (day, i))"
  by pat_completeness auto
termination
  by (relation "measure (\<lambda>(day, i). nat day)") (auto simp: days_in_year_def split: if_splits)

declare year_loop.simps [simp del]

function month_loop :: "int list \<Rightarrow> int \<Rightarrow> nat \<Rightarrow> (int \<times> nat) option" where
  "month_loop days day i =
     (case arr_get days (i - 1) of
        None \<Rightarrow> None
      | Some m \<Rightarrow> if day \<ge> m then month_loop days (day - m) (i + 1) else Some (day, i))"
  by pat_completeness auto
termination
  by (relation "measure (\<lambda>(days, day, i). length days + 1 - i)") (auto simp: arr_get_def split: if_splits)

declare month_loop.simps [simp del]

definition rtc_to_tm :: "int \<Rightarrow> rtc_time \<Rightarrow> (int \<times> rtc_time) option" where
  "rtc_to_tm tim tm = do {
     let day = tim sdiv SECDAY;
     let hms = tim smod SECDAY;
     let tm = tm\<lparr>tm_hour := hms sdiv 3600, tm_min := (hms smod 3600) sdiv 60, tm_sec := (hms smod 3600) smod 60\<rparr>;
     let (day, i) = year_loop day 1970;
     let tm = tm\<lparr>tm_year := i\<rparr>;
     let days = (if leapyear (tm_year tm) then month_days[1 := 29] else month_days);
     (day, i) \<leftarrow> month_loop days day 1;
     let tm = tm\<lparr>tm_mon := int i, tm_mday := day + 1, tm_yday := 0, tm_isdst := 0\<rparr>;
     rtc_calc_weekday tm
   }"

definition rtc_mktime :: "rtc_time \<Rightarrow> u32" where
  "rtc_mktime tm =
     (let mon = tm_mon tm - 2;
          year = (if 0 \<ge> mon then tm_year tm - 1 else tm_year tm);
          mon = (if 0 \<ge> mon then mon + 12 else mon);
          days = (year sdiv 4 - year sdiv 100 + year sdiv 400 + (367 * mon) sdiv 12 + tm_mday tm) + year * 365 - 719499;
          hours = days * 24 + tm_hour tm
      in word_of_int ((hours * 60 + tm_min tm) * 60 + tm_sec tm))"

section \<open>The calendar\<close>

definition month_lens :: "int \<Rightarrow> int list" where
  "month_lens y = (if leapyear y then month_days[1 := 29] else month_days)"

text \<open>The days from the start of 1970 to the start of a month\<close>

definition epoch_days :: "int \<Rightarrow> nat \<Rightarrow> int" where
  "epoch_days y m = sum_list (map days_in_year [1970..y - 1]) + sum_list (take (m - 1) (month_lens y))"

lemma year_loop_days:
  "0 \<le> day \<Longrightarrow> year_loop day i = (d, y) \<Longrightarrow>
    i \<le> y \<and> 0 \<le> d \<and> d < days_in_year y \<and> day = sum_list (map days_in_year [i..y - 1]) + d"
proof (induction day i rule: year_loop.induct)
  case (1 day i)
  show ?case
  proof (cases "day \<ge> days_in_year i")
    case True
    then have "year_loop (day - days_in_year i) (i + 1) = (d, y)" using 1(3) by (subst (asm) year_loop.simps) simp
    from 1(1)[OF True _ this] True have "i + 1 \<le> y \<and> 0 \<le> d \<and> d < days_in_year y \<and>
        day - days_in_year i = sum_list (map days_in_year [i + 1..y - 1]) + d" by simp
    then show ?thesis using upto_rec1[of i "y - 1"] by auto
  next
    case False
    then show ?thesis using 1(2,3) by (subst (asm) year_loop.simps) auto
  qed
qed

lemma month_loop_days:
  "1 \<le> i \<Longrightarrow> 0 \<le> day \<Longrightarrow> day < sum_list (drop (i - 1) days) \<Longrightarrow>
    \<exists>d m. month_loop days day i = Some (d, m) \<and> i \<le> m \<and> m \<le> length days \<and> 0 \<le> d \<and> d < days ! (m - 1) \<and>
      day = sum_list (take (m - i) (drop (i - 1) days)) + d"
proof (induction days day i rule: month_loop.induct)
  case (1 days day i)
  have i: "i - 1 < length days" using 1(3,4) by (cases "i - 1 < length days") auto
  have dr: "drop (i - 1) days = days ! (i - 1) # drop i days" using i 1(2) by (metis Cons_nth_drop_Suc Suc_diff_1 less_le_trans zero_less_one)
  show ?case
  proof (cases "day \<ge> days ! (i - 1)")
    case True
    have "\<exists>d m. month_loop days (day - days ! (i - 1)) (i + 1) = Some (d, m) \<and> i + 1 \<le> m \<and> m \<le> length days \<and> 0 \<le> d \<and>
        d < days ! (m - 1) \<and> day - days ! (i - 1) = sum_list (take (m - (i + 1)) (drop (i + 1 - 1) days)) + d"
      using i True 1(2,4) dr by (intro 1(1)) (auto simp: arr_get_def)
    then obtain d m where m: "month_loop days (day - days ! (i - 1)) (i + 1) = Some (d, m)" "i + 1 \<le> m" "m \<le> length days" "0 \<le> d"
        "d < days ! (m - 1)" "day - days ! (i - 1) = sum_list (take (m - (i + 1)) (drop i days)) + d" by auto
    have "month_loop days day i = Some (d, m)" using i True m(1) by (subst month_loop.simps) simp
    moreover have "take (m - i) (drop (i - 1) days) = days ! (i - 1) # take (m - (i + 1)) (drop i days)"
      unfolding dr using m(2) by (simp add: take_Cons' Suc_diff_Suc)
    ultimately show ?thesis using m(2-6) by auto
  next
    case False
    then have "month_loop days day i = Some (day, i)" using i by (subst month_loop.simps) simp
    then show ?thesis using False i 1(2,3) by auto
  qed
qed

text \<open>Gauss' formula, for the years that a signed 32-bit number of seconds reaches\<close>

definition gauss :: "int \<Rightarrow> nat \<Rightarrow> int" where
  "gauss year mon =
     (let m = int mon - 2; y = (if 0 \<ge> m then year - 1 else year); m = (if 0 \<ge> m then m + 12 else m)
      in y sdiv 4 - y sdiv 100 + y sdiv 400 + (367 * m) sdiv 12 + y * 365 - 719498)"

definition rata_die :: "int \<Rightarrow> nat \<Rightarrow> int" where
  "rata_die y m = (if y smod 4 = 0 \<and> (y smod 100 \<noteq> 0 \<or> y smod 400 = 0) \<and> int m > 2 then 1 else 0) +
     ((y - 1) * 365 + ((y - 1) sdiv 4 - (y - 1) sdiv 100 + (y - 1) sdiv 400) + MonthOffset ! (m - 1) + 1)"

lemma calendar_months:
  "\<forall>y\<in>set [1970..2038]. \<forall>m\<in>set [1..<13].
     gauss y m = gauss y 1 + sum_list (take (m - 1) (month_lens y)) \<and> rata_die y m = rata_die y 1 + sum_list (take (m - 1) (month_lens y))"
  by code_simp

lemma calendar_years:
  "\<forall>y\<in>set [1970..2037]. gauss (y + 1) 1 = gauss y 1 + days_in_year y \<and> rata_die (y + 1) 1 = rata_die y 1 + days_in_year y"
  "gauss 1970 1 = 0" "rata_die 1970 1 = 719163"
  by code_simp+

lemma calendar_base: "1970 \<le> y \<Longrightarrow> y \<le> 2038 \<Longrightarrow> gauss y 1 = sum_list (map days_in_year [1970..y - 1]) \<and>
    rata_die y 1 = sum_list (map days_in_year [1970..y - 1]) + 719163"
proof (induction "nat (y - 1970)" arbitrary: y)
  case 0
  then have "y = 1970" by simp
  then show ?case using calendar_years(2,3) by simp
next
  case (Suc k)
  then have y: "1970 \<le> y - 1" "y - 1 \<in> set [1970..2037]" unfolding set_upto atLeastAtMost_iff by linarith+
  have up: "[1970..y - 1] = [1970..y - 2] @ [y - 1]" using y(1) upto_rec2[of 1970 "y - 1"] by simp
  have "gauss (y - 1) 1 = sum_list (map days_in_year [1970..y - 1 - 1]) \<and>
      rata_die (y - 1) 1 = sum_list (map days_in_year [1970..y - 1 - 1]) + 719163"
    using Suc by (intro Suc.hyps(1)) auto
  then show ?case using calendar_years(1)[rule_format, OF y(2)] up by simp
qed

lemma calendar:
  assumes "1970 \<le> y" "y \<le> 2038" "1 \<le> m" "m \<le> 12"
  shows "gauss y m = epoch_days y m" "rata_die y m = epoch_days y m + 719163"
proof -
  have "y \<in> set [1970..2038]" "m \<in> set [1..<13]" unfolding set_upto atLeastAtMost_iff using assms by simp_all
  from calendar_months[rule_format, OF this] calendar_base[OF assms(1,2)]
  show "gauss y m = epoch_days y m" "rata_die y m = epoch_days y m + 719163" by (simp_all add: epoch_days_def)
qed

definition valid_date :: "rtc_time \<Rightarrow> bool" where
  "valid_date tm \<longleftrightarrow> 1970 \<le> tm_year tm \<and> tm_year tm \<le> 2038 \<and> 1 \<le> tm_mon tm \<and> tm_mon tm \<le> 12 \<and>
     1 \<le> tm_mday tm \<and> tm_mday tm \<le> month_lens (tm_year tm) ! nat (tm_mon tm - 1) \<and>
     0 \<le> tm_hour tm \<and> tm_hour tm < 24 \<and> 0 \<le> tm_min tm \<and> tm_min tm < 60 \<and> 0 \<le> tm_sec tm \<and> tm_sec tm < 60"

definition date_secs :: "rtc_time \<Rightarrow> int" where
  "date_secs tm = (epoch_days (tm_year tm) (nat (tm_mon tm)) + tm_mday tm - 1) * 86400 + tm_hour tm * 3600 + tm_min tm * 60 + tm_sec tm"

lemma mktime_secs: "valid_date tm \<Longrightarrow> rtc_mktime tm = word_of_int (date_secs tm)"
proof -
  assume v: "valid_date tm"
  have g: "epoch_days (tm_year tm) (nat (tm_mon tm)) = gauss (tm_year tm) (nat (tm_mon tm))"
    using v by (subst calendar) (auto simp: valid_date_def)
  have mon: "int (nat (tm_mon tm)) = tm_mon tm" using v by (simp add: valid_date_def)
  show ?thesis unfolding rtc_mktime_def Let_def date_secs_def g gauss_def mon
    by (intro arg_cong[of _ _ word_of_int]) (cases "tm_mon tm \<le> 2"; simp add: algebra_simps)
qed

lemma weekday_date:
  assumes "valid_date tm"
  shows "rtc_calc_weekday tm = Some (0, tm\<lparr>tm_wday := (epoch_days (tm_year tm) (nat (tm_mon tm)) + tm_mday tm - 1 + 4) mod 7\<rparr>)"
proof -
  let ?e = "epoch_days (tm_year tm) (nat (tm_mon tm))" and ?y = "tm_year tm" and ?m = "nat (tm_mon tm)"
  have v: "1970 \<le> ?y" "?y \<le> 2038" "1 \<le> ?m" "?m \<le> 12" "1 \<le> tm_mday tm" "int ?m = tm_mon tm" "nat (tm_mon tm - 1) = ?m - 1"
    using assms by (auto simp: valid_date_def)
  have r: "rata_die ?y ?m = ?e + 719163" using calendar(2)[OF v(1-4)] .
  have e0: "0 \<le> ?e"
  proof -
    have "0 \<le> sum_list (map days_in_year xs)" for xs by (induction xs) (auto simp: days_in_year_def)
    moreover have "0 \<le> sum_list (take k (month_lens ?y))" for k
      by (intro sum_list_nonneg) (auto simp: month_lens_def month_days_def dest!: in_set_takeD split: if_splits)
    ultimately show ?thesis by (simp add: epoch_days_def)
  qed
  have m: "arr_get MonthOffset (?m - 1) = Some (MonthOffset ! (?m - 1))" using v(3,4) by (simp add: arr_get_def MonthOffset_def)
  have "rtc_calc_weekday tm = Some (0, tm\<lparr>tm_wday := (rata_die ?y ?m + tm_mday tm - 1) smod 7\<rparr>)"
    using v m by (simp add: rtc_calc_weekday_def rata_die_def Let_def algebra_simps)
  also have "(rata_die ?y ?m + tm_mday tm - 1) smod 7 = (?e + tm_mday tm - 1 + 4) mod 7"
  proof -
    have "(rata_die ?y ?m + tm_mday tm - 1) smod 7 = (?e + tm_mday tm - 1 + 4 + 719159) mod 7"
      unfolding r using e0 v(5) by (simp add: signed_modulo_int_def algebra_simps)
    also have "\<dots> = (?e + tm_mday tm - 1 + 4 + 102737 * 7) mod 7" by simp
    finally show ?thesis by (simp only: mod_mult_self1)
  qed
  finally show ?thesis .
qed

lemma pos_sdiv: "0 \<le> k \<Longrightarrow> 0 < l \<Longrightarrow> k sdiv l = k div l" "0 \<le> k \<Longrightarrow> 0 < l \<Longrightarrow> k smod l = k mod l" for k l :: int
  by (simp_all add: signed_divide_int_def signed_modulo_int_def sgn_if)

lemma month_lens_sum: "sum_list (month_lens y) = days_in_year y" "length (month_lens y) = 12"
  by (simp_all add: month_lens_def days_in_year_def month_days_def)

lemma year_bound: "sum_list (map days_in_year [1970..y - 1]) \<ge> 365 * (y - 1970)" if "1970 \<le> y" for y
  using that
proof (induction "nat (y - 1970)" arbitrary: y)
  case (Suc k)
  then have "365 * (y - 1 - 1970) \<le> sum_list (map days_in_year [1970..y - 1 - 1])" by (intro Suc.hyps(1)) auto
  moreover have "[1970..y - 1] = [1970..y - 2] @ [y - 1]" using Suc upto_rec2[of 1970 "y - 1"] by simp
  moreover have "365 \<le> days_in_year (y - 1)" by (simp add: days_in_year_def)
  ultimately show ?case by simp
qed simp

text \<open>C40: Every number of seconds that a signed 32-bit integer can hold, from 1970 on, is turned into a valid date by
  \<open>rtc_to_tm\<close>, with the right day of the week, and \<open>rtc_mktime\<close> turns that date back into the same number of
  seconds.\<close>

theorem rtc_roundtrip:
  assumes "0 \<le> tim" "tim < 2 ^ 31"
  shows "\<exists>tm'. rtc_to_tm tim tm = Some (0, tm') \<and> valid_date tm' \<and> uint (rtc_mktime tm') = tim \<and>
    tm_wday tm' = (tim div 86400 + 4) mod 7"
proof -
  define day hms where "day = tim div 86400" and "hms = tim mod 86400"
  have dh: "0 \<le> day" "day \<le> 24855" "0 \<le> hms" "hms < 86400" "tim = day * 86400 + hms"
    using assms by (auto simp: day_def hms_def)
  obtain d y where yl: "year_loop day 1970 = (d, y)" by (cases "year_loop day 1970")
  note y = year_loop_days[OF dh(1) yl]
  have y38: "y \<le> 2038" using y year_bound[of y] dh(2) by simp
  obtain d' m where m: "month_loop (month_lens y) d 1 = Some (d', m)" "1 \<le> m" "m \<le> 12" "0 \<le> d'" "d' < month_lens y ! (m - 1)"
    "d = sum_list (take (m - 1) (month_lens y)) + d'"
    using month_loop_days[of 1 d "month_lens y"] y month_lens_sum[of y] by auto
  define tm1 where "tm1 = tm\<lparr>tm_hour := hms div 3600, tm_min := (hms mod 3600) div 60, tm_sec := (hms mod 3600) mod 60,
    tm_year := y, tm_mon := int m, tm_mday := d' + 1, tm_yday := 0, tm_isdst := 0\<rparr>"
  have e: "day = epoch_days y m + d'" using y m(6) by (simp add: epoch_days_def)
  have v: "valid_date tm1" using y y38 m(2-5) dh(3,4) by (auto simp: valid_date_def tm1_def nat_diff_distrib)
  have secs: "date_secs tm1 = tim"
  proof -
    have "hms = hms div 3600 * 3600 + hms mod 3600 div 60 * 60 + hms mod 3600 mod 60" by presburger
    then show ?thesis using dh(5) e by (simp add: date_secs_def tm1_def)
  qed
  define tm' where "tm' = tm1\<lparr>tm_wday := (day + 4) mod 7\<rparr>"
  have "rtc_to_tm tim tm = rtc_calc_weekday tm1"
    using assms(1) dh(3) yl m(1)
    by (simp add: rtc_to_tm_def SECDAY_def pos_sdiv Let_def tm1_def flip: day_def hms_def month_lens_def)
  also have "\<dots> = Some (0, tm')" using weekday_date[OF v] e by (simp add: tm'_def tm1_def)
  finally have "rtc_to_tm tim tm = Some (0, tm')" .
  moreover have "valid_date tm'" using v by (simp add: valid_date_def tm'_def)
  moreover have "date_secs tm' = tim" using secs by (simp add: date_secs_def tm'_def)
  then have "rtc_mktime tm' = word_of_int tim" using mktime_secs[OF \<open>valid_date tm'\<close>] by simp
  then have "uint (rtc_mktime tm') = tim" using assms by (simp add: uint_word_of_int)
  ultimately show ?thesis by (auto simp: tm'_def day_def)
qed

definition sample_tm :: rtc_time where
  "sample_tm = \<lparr>tm_sec = 0, tm_min = 0, tm_hour = 0, tm_mday = 0, tm_mon = 0, tm_year = 0, tm_wday = 0, tm_yday = 0, tm_isdst = 0\<rparr>"

theorem rtc_roundtrip_witness:
  "\<exists>tm'. rtc_to_tm 951782400 sample_tm = Some (0, tm') \<and> valid_date tm' \<and> uint (rtc_mktime tm') = 951782400 \<and> tm_wday tm' = 2"
  using rtc_roundtrip[of 951782400 sample_tm] by simp

end
