(* ===== verification/Net.thy ===== *)
theory Net
  imports Cstring
begin

text \<open>
  The network layers below the protocols: the Internet checksum (net/checksum.c), address resolution
  (net/arp.c), echo requests (net/ping.c), and the headers and the packet dispatch of net/net.c. The
  globals of these files are one record. The buffers are byte lists, \<open>None\<close> is an access outside of
  one. Internet addresses are the field \<open>s_addr\<close>, whose bytes are in network order. The driver is not
  modelled: \<open>eth_send\<close> appends the frame to \<open>sent\<close>, and frames come in as an argument. The configuration
  is that of the board: ARP, ping and UDP without fragments, no UDP checksum, no link-local
  addresses (so the ARP handler is always the empty one).
\<close>

section \<open>Model\<close>

subsection \<open>Byte order\<close>

text \<open>A 16-bit field in network byte order, and one in the byte order of the machine\<close>

definition be16 :: "u16 \<Rightarrow> u8 list" where
  "be16 v = [ucast (drop_bit 8 v), ucast v]"

definition get_be16 :: "mem \<Rightarrow> nat \<Rightarrow> u16 option" where
  "get_be16 p i = do {
     a \<leftarrow> arr_get p i;
     b \<leftarrow> arr_get p (i + 1);
     Some (push_bit 8 (ucast a) OR ucast b)
   }"

definition ntohs :: "u16 \<Rightarrow> u16" where
  "ntohs v = push_bit 8 v OR drop_bit 8 v"

definition le16 :: "u16 \<Rightarrow> u8 list" where
  "le16 v = [ucast v, ucast (drop_bit 8 v)]"

definition in_addr_bytes :: "u32 \<Rightarrow> u8 list" where
  "in_addr_bytes a = [byte_of_word32 0 a, byte_of_word32 1 a, byte_of_word32 2 a, byte_of_word32 3 a]"

definition net_read_ip :: "mem \<Rightarrow> nat \<Rightarrow> u32 option" where
  "net_read_ip p i = load32 p i"

text \<open>\<open>memcpy\<close> and stores into a buffer\<close>

definition put_bytes :: "mem \<Rightarrow> nat \<Rightarrow> u8 list \<Rightarrow> mem option" where
  "put_bytes p i bs = (if i + length bs \<le> length p then Some (blit p i bs) else None)"

definition get_bytes :: "mem \<Rightarrow> nat \<Rightarrow> nat \<Rightarrow> u8 list option" where
  "get_bytes p i n = (if i + n \<le> length p then Some (slice p i n) else None)"

subsection \<open>Checksums\<close>

fun checksum_words :: "mem \<Rightarrow> nat \<Rightarrow> nat \<Rightarrow> u32 \<Rightarrow> (u32 \<times> nat \<times> nat) option" where
  "checksum_words p i (Suc (Suc n)) csum = do {
     a \<leftarrow> arr_get p i;
     b \<leftarrow> arr_get p (i + 1);
     checksum_words p (i + 2) n (csum + (ucast a OR push_bit 8 (ucast b)))
   }"
| "checksum_words p i n csum = Some (csum, i, n)"

definition compute_ip_checksum :: "mem \<Rightarrow> nat \<Rightarrow> nat \<Rightarrow> u32 option" where
  "compute_ip_checksum p i nbytes = do {
     (csum, i, n) \<leftarrow> checksum_words p i nbytes 0;
     csum \<leftarrow> (if n = 1 then do { b \<leftarrow> arr_get p i; Some (csum + ucast b) } else Some csum);
     let csum = signed_drop_bit 16 csum + (csum AND 0xFFFF);
     let csum = csum + signed_drop_bit 16 csum;
     Some (NOT csum AND 0xFFFF)
   }"

definition add_ip_checksums :: "u32 \<Rightarrow> u32 \<Rightarrow> u32 \<Rightarrow> u32" where
  "add_ip_checksums offset csum new =
     (let csum = NOT csum AND 0xFFFF;
          new = NOT new AND 0xFFFF;
          new = (if offset AND 1 \<noteq> 0 then (drop_bit 8 new AND 0xFF) OR (push_bit 8 new AND 0xFF00) else new);
          checksum = csum + new;
          checksum = (if checksum > 0xFFFF then checksum - 0xFFFF else checksum)
      in NOT checksum AND 0xFFFF)"

definition ip_checksum_ok :: "mem \<Rightarrow> nat \<Rightarrow> nat \<Rightarrow> bool option" where
  "ip_checksum_ok p i nbytes = do {
     csum \<leftarrow> compute_ip_checksum p i nbytes;
     Some (csum AND 0xFFFE = 0)
   }"

subsection \<open>State\<close>

datatype net_loop_state = NETLOOP_CONTINUE | NETLOOP_RESTART | NETLOOP_SUCCESS | NETLOOP_FAIL

text \<open>The arrays that a pointer to a hardware address can point to\<close>

datatype ether_ref = Server_ethaddr | Bcast_ethaddr

record net =
  net_ip :: u32
  net_netmask :: u32
  net_gateway :: u32
  net_ethaddr :: "u8 list"
  net_server_ethaddr :: "u8 list"
  net_our_vlan :: u16
  net_native_vlan :: u16
  net_ip_id :: u32
  net_tx_packet :: mem
  arp_tx_packet :: mem
  net_arp_wait_packet_ip :: u32
  net_arp_wait_reply_ip :: u32
  arp_wait_packet_ethaddr :: "ether_ref option"
  arp_wait_tx_packet_size :: nat
  arp_wait_timer_start :: u32
  arp_wait_try :: nat
  ping_seq_number :: u16
  net_ping_ip :: u32
  net_state :: net_loop_state
  sent :: "mem list"

definition net_set_state :: "net_loop_state \<Rightarrow> net \<Rightarrow> net" where
  "net_set_state s st = st\<lparr>net_state := s\<rparr>"

definition net_send_packet :: "mem \<Rightarrow> nat \<Rightarrow> net \<Rightarrow> net option" where
  "net_send_packet pkt len st = do {
     f \<leftarrow> get_bytes pkt 0 len;
     Some (st\<lparr>sent := sent st @ [f]\<rparr>)
   }"

definition net_bcast_ethaddr :: "u8 list" where "net_bcast_ethaddr = replicate 6 0xFF"

definition net_null_ethaddr :: "u8 list" where "net_null_ethaddr = replicate 6 0"

fun read_ether :: "ether_ref \<Rightarrow> net \<Rightarrow> u8 list" where
  "read_ether Server_ethaddr st = net_server_ethaddr st"
| "read_ether Bcast_ethaddr st = net_bcast_ethaddr"

definition VLAN_NONE :: u16 where "VLAN_NONE = 4095"
definition VLAN_IDMASK :: u16 where "VLAN_IDMASK = 0x0FFF"

definition PROT_IP :: u16 where "PROT_IP = 0x0800"
definition PROT_ARP :: u16 where "PROT_ARP = 0x0806"
definition PROT_VLAN :: u16 where "PROT_VLAN = 0x8100"

definition ETHER_HDR_SIZE :: nat where "ETHER_HDR_SIZE = 14"
definition E802_HDR_SIZE :: nat where "E802_HDR_SIZE = 22"
definition VLAN_ETHER_HDR_SIZE :: nat where "VLAN_ETHER_HDR_SIZE = 18"
definition IP_HDR_SIZE :: nat where "IP_HDR_SIZE = 20"
definition IP_UDP_HDR_SIZE :: nat where "IP_UDP_HDR_SIZE = 28"
definition ICMP_HDR_SIZE :: nat where "ICMP_HDR_SIZE = 8"
definition ARP_HDR_SIZE :: nat where "ARP_HDR_SIZE = 28"

subsection \<open>Headers\<close>

definition vlan_id :: "u16 \<Rightarrow> u16" where
  "vlan_id v = (if ntohs v = - 1 then VLAN_NONE else ntohs v)"

definition net_eth_hdr_size :: "net \<Rightarrow> nat" where
  "net_eth_hdr_size st = (if vlan_id (net_our_vlan st) AND VLAN_IDMASK = VLAN_NONE then ETHER_HDR_SIZE else VLAN_ETHER_HDR_SIZE)"

definition net_set_ether :: "net \<Rightarrow> mem \<Rightarrow> u8 list \<Rightarrow> u16 \<Rightarrow> (nat \<times> mem) option" where
  "net_set_ether st xet dest_ethaddr prot = do {
     let myvlanid = vlan_id (net_our_vlan st);
     xet \<leftarrow> put_bytes xet 0 (take 6 dest_ethaddr);
     xet \<leftarrow> put_bytes xet 6 (take 6 (net_ethaddr st));
     if myvlanid AND VLAN_IDMASK = VLAN_NONE
     then do { xet \<leftarrow> put_bytes xet 12 (be16 prot); Some (ETHER_HDR_SIZE, xet) }
     else do {
       xet \<leftarrow> put_bytes xet 12 (be16 PROT_VLAN);
       xet \<leftarrow> put_bytes xet 14 (be16 (myvlanid AND VLAN_IDMASK));
       xet \<leftarrow> put_bytes xet 16 (be16 prot);
       Some (VLAN_ETHER_HDR_SIZE, xet)
     }
   }"

definition net_update_ether :: "net \<Rightarrow> mem \<Rightarrow> u8 list \<Rightarrow> u16 \<Rightarrow> (nat \<times> mem) option" where
  "net_update_ether st et addr prot = do {
     et \<leftarrow> put_bytes et 0 (take 6 addr);
     et \<leftarrow> put_bytes et 6 (take 6 (net_ethaddr st));
     protlen \<leftarrow> get_be16 et 12;
     if protlen = PROT_VLAN then do { et \<leftarrow> put_bytes et 16 (be16 prot); Some (VLAN_ETHER_HDR_SIZE, et) }
     else if protlen > 1514 then do { et \<leftarrow> put_bytes et 12 (be16 prot); Some (ETHER_HDR_SIZE, et) }
     else do { et \<leftarrow> put_bytes et 20 (be16 prot); Some (E802_HDR_SIZE, et) }
   }"

text \<open>The headers are written at offset \<open>i\<close> of the buffer; a header without its checksum first.\<close>

definition net_set_ip_header :: "mem \<Rightarrow> nat \<Rightarrow> u32 \<Rightarrow> u32 \<Rightarrow> net \<Rightarrow> (mem \<times> net) option" where
  "net_set_ip_header pkt i dest source st = do {
     pkt \<leftarrow> put_bytes pkt i [0x45];
     pkt \<leftarrow> put_bytes pkt (i + 1) [0];
     pkt \<leftarrow> put_bytes pkt (i + 2) (be16 (word_of_nat IP_HDR_SIZE));
     pkt \<leftarrow> put_bytes pkt (i + 4) (be16 (ucast (net_ip_id st)));
     let st = st\<lparr>net_ip_id := net_ip_id st + 1\<rparr>;
     pkt \<leftarrow> put_bytes pkt (i + 6) (be16 0x4000);
     pkt \<leftarrow> put_bytes pkt (i + 8) [255];
     pkt \<leftarrow> put_bytes pkt (i + 10) [0, 0];
     pkt \<leftarrow> put_bytes pkt (i + 12) (in_addr_bytes source);
     pkt \<leftarrow> put_bytes pkt (i + 16) (in_addr_bytes dest);
     Some (pkt, st)
   }"

definition net_set_udp_header :: "mem \<Rightarrow> nat \<Rightarrow> u32 \<Rightarrow> u32 \<Rightarrow> u32 \<Rightarrow> nat \<Rightarrow> net \<Rightarrow> (mem \<times> net) option" where
  "net_set_udp_header pkt i dest dport sport len st = do {
     pkt \<leftarrow> (if odd len then put_bytes pkt (i + IP_UDP_HDR_SIZE + len) [0] else Some pkt);
     (pkt, st) \<leftarrow> net_set_ip_header pkt i dest (net_ip st) st;
     pkt \<leftarrow> put_bytes pkt (i + 2) (be16 (word_of_nat (IP_UDP_HDR_SIZE + len)));
     pkt \<leftarrow> put_bytes pkt (i + 9) [17];
     csum \<leftarrow> compute_ip_checksum pkt i IP_HDR_SIZE;
     pkt \<leftarrow> put_bytes pkt (i + 10) (le16 (ucast csum));
     pkt \<leftarrow> put_bytes pkt (i + 20) (be16 (ucast sport));
     pkt \<leftarrow> put_bytes pkt (i + 22) (be16 (ucast dport));
     pkt \<leftarrow> put_bytes pkt (i + 24) (be16 (word_of_nat (8 + len)));
     pkt \<leftarrow> put_bytes pkt (i + 26) [0, 0];
     Some (pkt, st)
   }"

subsection \<open>Address resolution\<close>

definition arp_raw_request :: "u32 \<Rightarrow> u8 list \<Rightarrow> u32 \<Rightarrow> net \<Rightarrow> net option" where
  "arp_raw_request source_ip target_ethaddr target_ip st = do {
     (n, pkt) \<leftarrow> net_set_ether st (arp_tx_packet st) net_bcast_ethaddr PROT_ARP;
     pkt \<leftarrow> put_bytes pkt n (be16 1);
     pkt \<leftarrow> put_bytes pkt (n + 2) (be16 PROT_IP);
     pkt \<leftarrow> put_bytes pkt (n + 4) [6];
     pkt \<leftarrow> put_bytes pkt (n + 5) [4];
     pkt \<leftarrow> put_bytes pkt (n + 6) (be16 1);
     pkt \<leftarrow> put_bytes pkt (n + 8) (take 6 (net_ethaddr st));
     pkt \<leftarrow> put_bytes pkt (n + 14) (in_addr_bytes source_ip);
     pkt \<leftarrow> put_bytes pkt (n + 18) (take 6 target_ethaddr);
     pkt \<leftarrow> put_bytes pkt (n + 24) (in_addr_bytes target_ip);
     net_send_packet pkt (n + ARP_HDR_SIZE) (st\<lparr>arp_tx_packet := pkt\<rparr>)
   }"

definition arp_request :: "net \<Rightarrow> net option" where
  "arp_request st =
     (let reply_ip = (if net_arp_wait_packet_ip st AND net_netmask st \<noteq> net_ip st AND net_netmask st then
                        (if net_gateway st = 0 then net_arp_wait_packet_ip st else net_gateway st)
                      else net_arp_wait_packet_ip st)
      in arp_raw_request (net_ip st) net_null_ethaddr reply_ip (st\<lparr>net_arp_wait_reply_ip := reply_ip\<rparr>))"

definition ARP_TIMEOUT :: u32 where "ARP_TIMEOUT = 5000"
definition ARP_TIMEOUT_COUNT :: nat where "ARP_TIMEOUT_COUNT = 10"

definition arp_timeout_check :: "u32 \<Rightarrow> net \<Rightarrow> (int \<times> net) option" where
  "arp_timeout_check t st =
     (if net_arp_wait_packet_ip st = 0 then Some (0, st)
      else if t - arp_wait_timer_start st > ARP_TIMEOUT then
        (let st = st\<lparr>arp_wait_try := arp_wait_try st + 1\<rparr>
         in if arp_wait_try st \<ge> ARP_TIMEOUT_COUNT
            then Some (1, net_set_state NETLOOP_FAIL (st\<lparr>arp_wait_try := 0\<rparr>))
            else map_option (Pair 1) (arp_request (st\<lparr>arp_wait_timer_start := t\<rparr>)))
      else Some (1, st))"

text \<open>The frame \<open>et\<close> with the ARP packet at offset \<open>i\<close>\<close>

definition arp_answer :: "mem \<Rightarrow> nat \<Rightarrow> net \<Rightarrow> net option" where
  "arp_answer et i st = do {
     src \<leftarrow> get_bytes et 6 6;
     (n, et) \<leftarrow> net_update_ether st et src PROT_ARP;
     et \<leftarrow> put_bytes et (i + 6) (be16 2);
     sha \<leftarrow> get_bytes et (i + 8) 6;
     et \<leftarrow> put_bytes et (i + 18) sha;
     spa \<leftarrow> get_bytes et (i + 14) 4;
     et \<leftarrow> put_bytes et (i + 24) spa;
     et \<leftarrow> put_bytes et (i + 8) (take 6 (net_ethaddr st));
     et \<leftarrow> put_bytes et (i + 14) (in_addr_bytes (net_ip st));
     net_send_packet et (n + ARP_HDR_SIZE) st
   }"

definition arp_reply :: "mem \<Rightarrow> nat \<Rightarrow> net \<Rightarrow> net option" where
  "arp_reply et i st =
     (if net_arp_wait_packet_ip st = 0 then Some st
      else do {
        reply_ip_addr \<leftarrow> net_read_ip et (i + 14);
        if reply_ip_addr = net_arp_wait_reply_ip st
        then do {
          sha \<leftarrow> get_bytes et (i + 8) 6;
          let st = (case arp_wait_packet_ethaddr st of
                      Some Server_ethaddr \<Rightarrow> st\<lparr>net_server_ethaddr := sha\<rparr>
                    | _ \<Rightarrow> st);
          tx \<leftarrow> put_bytes (net_tx_packet st) 0 sha;
          let st = st\<lparr>net_tx_packet := tx\<rparr>;
          st \<leftarrow> net_send_packet (net_tx_packet st) (arp_wait_tx_packet_size st) st;
          Some (st\<lparr>net_arp_wait_packet_ip := 0, arp_wait_tx_packet_size := 0, arp_wait_packet_ethaddr := None\<rparr>)
        }
        else Some st
      })"

definition arp_receive :: "mem \<Rightarrow> nat \<Rightarrow> int \<Rightarrow> net \<Rightarrow> net option" where
  "arp_receive et i len st =
     (if len < int ARP_HDR_SIZE then Some st
      else do {
        hrd \<leftarrow> get_be16 et i;
        pro \<leftarrow> get_be16 et (i + 2);
        hln \<leftarrow> arr_get et (i + 4);
        pln \<leftarrow> arr_get et (i + 5);
        if hrd \<noteq> 1 \<or> pro \<noteq> PROT_IP \<or> hln \<noteq> 6 \<or> pln \<noteq> 4 \<or> net_ip st = 0 then Some st
        else do {
          tpa \<leftarrow> net_read_ip et (i + 24);
          if tpa \<noteq> net_ip st then Some st
          else do {
            ar_op \<leftarrow> get_be16 et (i + 6);
            if ar_op = 1 then arp_answer et i st
            else if ar_op = 2 then arp_reply et i st
            else Some st
          }
        }
      })"

subsection \<open>Sending datagrams\<close>

text \<open>The payload stands in the transmit buffer, behind the room for the headers. \<open>Bcast_ethaddr\<close> is
  never the null address, so the pointer that is stored is that of the server.\<close>

definition net_send_udp_packet :: "ether_ref \<Rightarrow> u32 \<Rightarrow> u32 \<Rightarrow> u32 \<Rightarrow> nat \<Rightarrow> u32 \<Rightarrow> net \<Rightarrow> (int \<times> net) option" where
  "net_send_udp_packet ether dest dport sport payload_len now st = do {
     let dest = (if dest = 0 then 0xFFFFFFFF else dest);
     let ether = (if dest = 0xFFFFFFFF then Bcast_ethaddr else ether);
     (eth_hdr_size, pkt) \<leftarrow> net_set_ether st (net_tx_packet st) (read_ether ether st) PROT_IP;
     (pkt, st) \<leftarrow> net_set_udp_header pkt eth_hdr_size dest dport sport payload_len st;
     let st = st\<lparr>net_tx_packet := pkt\<rparr>;
     let pkt_hdr_size = eth_hdr_size + IP_UDP_HDR_SIZE;
     if take 6 (read_ether ether st) = net_null_ethaddr
     then map_option (Pair 1) (arp_request (st\<lparr>net_arp_wait_packet_ip := dest, arp_wait_packet_ethaddr := Some ether,
            arp_wait_tx_packet_size := pkt_hdr_size + payload_len, arp_wait_try := 1, arp_wait_timer_start := now\<rparr>))
     else map_option (Pair 0) (net_send_packet (net_tx_packet st) (pkt_hdr_size + payload_len) st)
   }"

subsection \<open>Ping\<close>

definition set_icmp_header :: "mem \<Rightarrow> nat \<Rightarrow> u32 \<Rightarrow> net \<Rightarrow> (mem \<times> net) option" where
  "set_icmp_header pkt i dest st = do {
     (pkt, st) \<leftarrow> net_set_ip_header pkt i dest (net_ip st) st;
     pkt \<leftarrow> put_bytes pkt (i + 2) (be16 (word_of_nat (IP_HDR_SIZE + ICMP_HDR_SIZE)));
     pkt \<leftarrow> put_bytes pkt (i + 9) [1];
     csum \<leftarrow> compute_ip_checksum pkt i IP_HDR_SIZE;
     pkt \<leftarrow> put_bytes pkt (i + 10) (le16 (ucast csum));
     pkt \<leftarrow> put_bytes pkt (i + 20) [8];
     pkt \<leftarrow> put_bytes pkt (i + 21) [0];
     pkt \<leftarrow> put_bytes pkt (i + 22) [0, 0];
     pkt \<leftarrow> put_bytes pkt (i + 24) [0, 0];
     pkt \<leftarrow> put_bytes pkt (i + 26) (be16 (ping_seq_number st));
     let st = st\<lparr>ping_seq_number := ping_seq_number st + 1\<rparr>;
     csum \<leftarrow> compute_ip_checksum pkt (i + 20) ICMP_HDR_SIZE;
     pkt \<leftarrow> put_bytes pkt (i + 22) (le16 (ucast csum));
     Some (pkt, st)
   }"

definition ping_send :: "u32 \<Rightarrow> net \<Rightarrow> net option" where
  "ping_send now st = do {
     let st = st\<lparr>net_arp_wait_packet_ip := net_ping_ip st\<rparr>;
     (n, pkt) \<leftarrow> net_set_ether st (net_tx_packet st) net_null_ethaddr PROT_IP;
     (pkt, st) \<leftarrow> set_icmp_header pkt n (net_ping_ip st) st;
     arp_request (st\<lparr>net_tx_packet := pkt, arp_wait_tx_packet_size := n + (IP_HDR_SIZE + ICMP_HDR_SIZE),
       arp_wait_try := 1, arp_wait_timer_start := now\<rparr>)
   }"

definition ping_timeout_handler :: "net \<Rightarrow> net" where
  "ping_timeout_handler st = net_set_state NETLOOP_FAIL st"

text \<open>The frame \<open>et\<close> with the IP packet of length \<open>len\<close> at offset \<open>i\<close>\<close>

definition ping_receive :: "mem \<Rightarrow> nat \<Rightarrow> nat \<Rightarrow> net \<Rightarrow> net option" where
  "ping_receive et i len st = do {
     icmp_type \<leftarrow> arr_get et (i + 20);
     if icmp_type = 0 then do {
       src_ip \<leftarrow> net_read_ip et (i + 12);
       Some (if src_ip = net_ping_ip st then net_set_state NETLOOP_SUCCESS st else st)
     }
     else if icmp_type = 8 then do {
       src \<leftarrow> get_bytes et 6 6;
       (n, et) \<leftarrow> net_update_ether st et src PROT_IP;
       et \<leftarrow> put_bytes et (i + 10) [0, 0];
       et \<leftarrow> put_bytes et (i + 6) [0, 0];
       ip_src \<leftarrow> get_bytes et (i + 12) 4;
       et \<leftarrow> put_bytes et (i + 16) ip_src;
       et \<leftarrow> put_bytes et (i + 12) (in_addr_bytes (net_ip st));
       csum \<leftarrow> compute_ip_checksum et i IP_HDR_SIZE;
       et \<leftarrow> put_bytes et (i + 10) (le16 (ucast csum));
       et \<leftarrow> put_bytes et (i + 20) [0];
       et \<leftarrow> put_bytes et (i + 22) [0, 0];
       csum \<leftarrow> compute_ip_checksum et (i + 20) (unat (word_of_nat len - word_of_nat IP_HDR_SIZE :: u32));
       et \<leftarrow> put_bytes et (i + 22) (le16 (ucast csum));
       net_send_packet et (n + len) st
     }
     else Some st
   }"

definition receive_icmp :: "mem \<Rightarrow> nat \<Rightarrow> nat \<Rightarrow> net \<Rightarrow> net option" where
  "receive_icmp et i len st = do {
     icmp_type \<leftarrow> arr_get et (i + 20);
     if icmp_type = 5 then Some st else ping_receive et i len st
   }"

subsection \<open>Received frames\<close>

text \<open>The call of the UDP handler: where the payload begins, the destination port, the address and port
  of the sender and the length.\<close>

datatype udp_call = Udp_call nat u32 u32 u32 u32

definition receive_ip :: "mem \<Rightarrow> nat \<Rightarrow> u32 \<Rightarrow> net \<Rightarrow> (net \<times> udp_call option) option" where
  "receive_ip et i len st =
     (if len < word_of_nat IP_UDP_HDR_SIZE then Some (st, None)
      else do {
        ip_len \<leftarrow> get_be16 et (i + 2);
        if sint len < uint ip_len then Some (st, None)
        else do {
          let len = unat ip_len;
          hl_v \<leftarrow> arr_get et i;
          ok \<leftarrow> ip_checksum_ok et i IP_HDR_SIZE;
          if hl_v AND 0xF0 \<noteq> 0x40 \<or> hl_v AND 0x0F > 5 \<or> \<not> ok then Some (st, None)
          else do {
            dst_ip \<leftarrow> net_read_ip et (i + 16);
            src_ip \<leftarrow> net_read_ip et (i + 12);
            ip_off \<leftarrow> get_be16 et (i + 6);
            ip_p \<leftarrow> arr_get et (i + 9);
            if net_ip st \<noteq> 0 \<and> dst_ip \<noteq> net_ip st \<and> dst_ip \<noteq> 0xFFFFFFFF then Some (st, None)
            else if ip_off AND (0x1FFF OR 0x2000) \<noteq> 0 then Some (st, None)
            else if ip_p = 1 then map_option (\<lambda>st. (st, None)) (receive_icmp et i len st)
            else if ip_p \<noteq> 17 then Some (st, None)
            else do {
              udp_src \<leftarrow> get_be16 et (i + 20);
              udp_dst \<leftarrow> get_be16 et (i + 22);
              udp_len \<leftarrow> get_be16 et (i + 24);
              Some (st, Some (Udp_call (i + IP_UDP_HDR_SIZE) (ucast udp_dst) src_ip (ucast udp_src) (ucast udp_len - 8)))
            }
          }
        }
      })"

text \<open>Where the packet begins, what is left of the length, its protocol and its VLAN; \<open>None\<close> inside is an
  early return.\<close>

definition ether_split :: "mem \<Rightarrow> u32 \<Rightarrow> net \<Rightarrow> (nat \<times> u32 \<times> u16 \<times> u16) option option" where
  "ether_split et len st = do {
     eth_proto \<leftarrow> get_be16 et 12;
     if eth_proto < 1514 then do {
       eth_proto \<leftarrow> get_be16 et 20;
       Some (Some (E802_HDR_SIZE, len - word_of_nat E802_HDR_SIZE, eth_proto, VLAN_NONE))
     }
     else if eth_proto \<noteq> PROT_VLAN then Some (Some (ETHER_HDR_SIZE, len - word_of_nat ETHER_HDR_SIZE, eth_proto, VLAN_NONE))
     else if len < word_of_nat VLAN_ETHER_HDR_SIZE then Some None
     else if ntohs (net_our_vlan st) AND VLAN_IDMASK = VLAN_NONE then Some None
     else do {
       cti \<leftarrow> get_be16 et 14;
       eth_proto \<leftarrow> get_be16 et 16;
       Some (Some (VLAN_ETHER_HDR_SIZE, len - word_of_nat VLAN_ETHER_HDR_SIZE, eth_proto, cti AND VLAN_IDMASK))
     }
   }"

definition net_process_received_packet :: "mem \<Rightarrow> u32 \<Rightarrow> net \<Rightarrow> (net \<times> udp_call option) option" where
  "net_process_received_packet in_packet len st =
     (if len < word_of_nat ETHER_HDR_SIZE then Some (st, None)
      else do {
        let myvlanid = vlan_id (net_our_vlan st);
        let mynvlanid = vlan_id (net_native_vlan st);
        hdr \<leftarrow> ether_split in_packet len st;
        (case hdr of
           None \<Rightarrow> Some (st, None)
         | Some (i, len, eth_proto, vlanid) \<Rightarrow>
             (let vlanid = (if vlanid = VLAN_NONE then mynvlanid AND VLAN_IDMASK else vlanid)
              in if myvlanid AND VLAN_IDMASK \<noteq> VLAN_NONE \<and> vlanid \<noteq> myvlanid AND VLAN_IDMASK then Some (st, None)
                 else if eth_proto = PROT_ARP then map_option (\<lambda>st. (st, None)) (arp_receive in_packet i (sint len) st)
                 else if eth_proto = PROT_IP then receive_ip in_packet i len st
                 else Some (st, None)))
      })"


section \<open>Buffers\<close>

lemma put_bytes_Nil [simp]: "put_bytes X 0 [] = Some X"
  by (simp add: put_bytes_def)

lemma put_bytes_Cons [simp]: "put_bytes (x # X) 0 (b # bs) = map_option ((#) b) (put_bytes X 0 bs)"
  by (simp add: put_bytes_def blit_def)

lemma put_bytes_Suc [simp]: "put_bytes (x # X) (Suc k) bs = map_option ((#) x) (put_bytes X k bs)"
  by (simp add: put_bytes_def blit_def)

lemma put_bytes_numeral [simp]: "put_bytes (x # X) (numeral k) bs = map_option ((#) x) (put_bytes X (pred_numeral k) bs)"
  by (simp only: numeral_eq_Suc put_bytes_Suc)

lemma put_bytes_skip: "put_bytes (A @ X) (length A + k) bs = map_option ((@) A) (put_bytes X k bs)"
  by (simp add: put_bytes_def blit_def)

lemma get_bytes_0 [simp]: "get_bytes X i 0 = (if i \<le> length X then Some [] else None)"
  by (simp add: get_bytes_def slice_def)

lemma get_bytes_Cons [simp]: "get_bytes (x # X) 0 (Suc n) = map_option ((#) x) (get_bytes X 0 n)"
  by (simp add: get_bytes_def slice_def)

lemma get_bytes_numeral [simp]: "get_bytes (x # X) 0 (numeral n) = map_option ((#) x) (get_bytes X 0 (pred_numeral n))"
  by (simp only: numeral_eq_Suc get_bytes_Cons)

lemma get_bytes_Suc [simp]: "get_bytes (x # X) (Suc i) n = get_bytes X i n"
  by (simp add: get_bytes_def slice_def)

lemma get_bytes_numeral2 [simp]: "get_bytes (x # X) (numeral i) n = get_bytes X (pred_numeral i) n"
  by (simp only: numeral_eq_Suc get_bytes_Suc)

lemma get_bytes_skip: "get_bytes (A @ X) (length A + k) n = get_bytes X k n"
  by (simp add: get_bytes_def slice_def)

lemma get_bytes_all: "get_bytes (X @ Y) 0 (length X) = Some X"
  by (simp add: get_bytes_def slice_def)

lemma arr_get_Cons [simp]: "arr_get (x # X) 0 = Some x" "arr_get (x # X) (Suc i) = arr_get X i"
  by (simp_all add: arr_get_def)

lemma arr_get_numeral [simp]: "arr_get (x # X) (numeral i) = arr_get X (pred_numeral i)"
  by (simp only: numeral_eq_Suc arr_get_Cons)

lemma arr_get_skip: "arr_get (A @ X) (length A + k) = arr_get X k"
  by (auto simp: arr_get_def nth_append)

lemma be16_get [simp]: "push_bit 8 (ucast (ucast (drop_bit 8 v) :: u8)) OR ucast (ucast v :: u8) = (v :: u16)"
  by (rule bit_word_eqI) (auto simp: bit_simps)

lemma get_be16_Suc [simp]: "get_be16 (x # X) (Suc i) = get_be16 X i"
  by (simp add: get_be16_def)

lemma get_be16_numeral [simp]: "get_be16 (x # X) (numeral i) = get_be16 X (pred_numeral i)"
  by (simp only: numeral_eq_Suc get_be16_Suc)

lemma get_be16_skip: "get_be16 (A @ X) (length A + k) = get_be16 X k"
  by (simp only: get_be16_def arr_get_skip add.assoc)

lemma get_be16_be16 [simp]: "get_be16 (ucast (drop_bit 8 v) # ucast v # X) 0 = Some v"
  by (simp add: get_be16_def)

lemma word32_of_in_addr: "word32_of_bytes (byte_of_word32 0 a) (byte_of_word32 1 a) (byte_of_word32 2 a) (byte_of_word32 3 a) = a"
proof (rule bit_word_eqI)
  fix n
  assume n: "n < LENGTH(32)"
  have bytes: "bit (byte_of_word32 k a) j = (j < 8 \<and> bit a (8 * k + j))" for k j
    by (auto simp: byte_of_word32_def bit_simps)
  have "n = 8 * (n div 8) + n mod 8" "n mod 8 < 8" by simp_all
  then obtain k j where kj: "n = 8 * k + j" "j < 8" by blast
  then have "k = 0 \<or> k = 1 \<or> k = 2 \<or> k = 3" using n by auto
  then show "bit (word32_of_bytes (byte_of_word32 0 a) (byte_of_word32 1 a) (byte_of_word32 2 a) (byte_of_word32 3 a)) n = bit a n"
    using kj by (elim disjE) (auto simp: word32_of_bytes_def bytes bit_simps simp del: One_nat_def)
qed

lemma net_read_ip_Suc [simp]: "net_read_ip (x # X) (Suc i) = net_read_ip X i"
  by (simp only: net_read_ip_def load32_def add_Suc arr_get_Cons)

lemma net_read_ip_numeral [simp]: "net_read_ip (x # X) (numeral i) = net_read_ip X (pred_numeral i)"
  by (simp only: numeral_eq_Suc net_read_ip_Suc)

lemma net_read_ip_skip: "net_read_ip (A @ X) (length A + k) = net_read_ip X k"
  by (simp only: net_read_ip_def load32_def arr_get_skip add.assoc)

lemma net_read_ip_bytes [simp]:
  "net_read_ip (byte_of_word32 0 a # byte_of_word32 (Suc 0) a # byte_of_word32 2 a # byte_of_word32 3 a # X) 0 = Some a"
  using word32_of_in_addr[of a] by (simp add: net_read_ip_def load32_def)

lemmas skip_simps = put_bytes_skip put_bytes_skip[where k = 0, simplified] put_bytes_skip[where k = 1, simplified]
  put_bytes_skip[where k = 2, simplified] get_bytes_skip get_bytes_skip[where k = 0, simplified]
  arr_get_skip arr_get_skip[where k = 0, simplified] get_be16_skip get_be16_skip[where k = 0, simplified]
  get_be16_skip[where k = 2, simplified] net_read_ip_skip

lemma length_6: "length xs = 6 \<longleftrightarrow> (\<exists>a b c d e f. xs = [a, b, c, d, e, f])"
  by (auto simp: numeral_eq_Suc length_Suc_conv)

section \<open>Checksums\<close>

text \<open>The sum of the 16-bit words of a block in machine byte order; a last single byte is a word with a zero\<close>

fun le_sum :: "u8 list \<Rightarrow> nat" where
  "le_sum (a # b # X) = unat a + 256 * unat b + le_sum X"
| "le_sum [a] = unat a"
| "le_sum [] = 0"

lemma le_sum_append: "even (length X) \<Longrightarrow> le_sum (X @ Y) = le_sum X + le_sum Y"
  by (induction X rule: le_sum.induct) auto

lemma le_sum_le16: "le_sum (le16 v) = unat v"
proof -
  have "unat v mod 256 + 256 * (unat v div 256) = unat v" by simp
  moreover have "unat v < 65536" using unsigned_less[of v, where ?'a = nat] by simp
  then have "unat v div 256 mod 256 = unat v div 256" by simp
  ultimately show ?thesis by (simp add: le16_def unat_ucast_mod unat_drop_bit_eq drop_bit_eq_div[where ?'a = nat])
qed

lemma le_sum_bound: "le_sum X \<le> 65535 * ((length X + 1) div 2)"
proof (induction X rule: le_sum.induct)
  case (1 a b X)
  moreover have "unat a < 256" "unat b < 256" using unsigned_less[of a, where ?'a = nat] unsigned_less[of b, where ?'a = nat] by simp_all
  ultimately show ?case by simp
next
  case (2 a)
  then show ?case using unsigned_less[of a, where ?'a = nat] by simp
qed simp

lemma checksum_words_sum:
  "checksum_words (A @ X @ B) (length A) (length X) s =
     (if even (length X) then Some (s + word_of_nat (le_sum X), length A + length X, 0)
      else Some (s + word_of_nat (le_sum (butlast X)), length A + length X - 1, 1))"
proof (induction X arbitrary: A s rule: le_sum.induct)
  case (1 a b X)
  have w: "ucast a OR push_bit 8 (ucast b) = (word_of_nat (unat a + 256 * unat b) :: u32)"
  proof -
    have "ucast a OR push_bit 8 (ucast b) = (ucast a + push_bit 8 (ucast b) :: u32)"
      by (rule disjunctive_add[symmetric]) (auto simp: bit_simps dest: bit_imp_le_length)
    then show ?thesis by (simp add: push_bit_eq_mult)
  qed
  have IH: "checksum_words (A @ a # b # X @ B) (Suc (Suc (length A))) (length X) s' =
      (if even (length X) then Some (s' + word_of_nat (le_sum X), length A + 2 + length X, 0)
       else Some (s' + word_of_nat (le_sum (butlast X)), length A + 2 + length X - 1, 1))" for s'
    using 1[of "A @ [a, b]" s'] by simp
  have bl: "odd (length X) \<Longrightarrow> butlast (a # b # X) = a # b # butlast X" by auto
  show ?case using bl by (auto simp: IH arr_get_skip[of A _ 0, simplified] arr_get_skip[of A _ 1, simplified] w)
qed auto


text \<open>Sums modulo 65535, with 65535 for a multiple that is not zero\<close>

definition fold16 :: "nat \<Rightarrow> nat" where
  "fold16 s = (if s = 0 then 0 else (s - 1) mod 65535 + 1)"

lemma fold16_two_steps:
  assumes "s < 2 ^ 31" "t = s div 65536 + s mod 65536"
  shows "(t + t div 65536) mod 65536 = fold16 s"
proof -
  define h l where "h = s div 65536" and "l = s mod 65536"
  have hl: "s = 65536 * h + l" "l < 65536" "h < 32768" "t = h + l" using assms by (simp_all add: h_def l_def)
  show ?thesis
  proof (cases "t < 65536")
    case True
    show ?thesis
    proof (cases "s = 0")
      case False
      then have "0 < t" "s - 1 = t - 1 + h * 65535" using hl by auto
      then have "(s - 1) mod 65535 = (t - 1) mod 65535" by (metis mod_mult_self1)
      then show ?thesis using True False \<open>0 < t\<close> by (simp add: fold16_def)
    qed (use assms in \<open>simp add: fold16_def\<close>)
  next
    case False
    then have t: "t div 65536 = 1" "t - 65536 < 65535" using hl by auto
    have "s - 1 = t - 65536 + (h + 1) * 65535" using hl False by auto
    then have "(s - 1) mod 65535 = (t - 65536) mod 65535" by (metis mod_mult_self1)
    moreover have "(t + 1) mod 65536 = t - 65535" using False t(2) by (subst mod_if) (auto simp: mod_if)
    ultimately show ?thesis using t False hl(1,4) by (auto simp: fold16_def)
  qed
qed

lemma signed_drop_bit_nat:
  assumes "s < 2 ^ 31"
  shows "signed_drop_bit 16 (word_of_nat s :: u32) = word_of_nat (s div 65536)"
proof -
  have i: "sint (word_of_nat n :: u32) = int n" if "n < 2 ^ 31" for n
    using that by (simp add: signed_of_nat signed_take_bit_int_eq_self)
  have "sint (signed_drop_bit 16 (word_of_nat s :: u32)) = int (s div 65536)"
    using i[OF assms] by (simp add: sint_signed_drop_bit_eq drop_bit_eq_div zdiv_int)
  also have "\<dots> = sint (word_of_nat (s div 65536) :: u32)" using assms by (intro i[symmetric]) simp
  finally show ?thesis by (simp only: signed_word_eqI)
qed

lemma ffff_mask: "(0xFFFF :: u32) = mask 16"
  by (simp add: mask_eq_exp_minus_1)

lemma and_ffff: "(word_of_nat s :: u32) AND 0xFFFF = word_of_nat (s mod 65536)"
  unfolding ffff_mask by (simp only: take_bit_eq_mask[symmetric] take_bit_of_nat) (simp add: take_bit_eq_mod)

lemma not_and_ffff: "NOT (word_of_nat s :: u32) AND 0xFFFF = word_of_nat (65535 - s mod 65536)"
proof -
  have "s mod 65536 < 65536" by simp
  then have le: "s mod 65536 \<le> 65535" by linarith
  have "NOT (word_of_nat s :: u32) AND 0xFFFF = 0xFFFF - (word_of_nat s AND 0xFFFF)"
    unfolding ffff_mask by (simp only: take_bit_eq_mask[symmetric] take_bit_not_eq_mask_diff)
  also have "\<dots> = word_of_nat 65535 - word_of_nat (s mod 65536)" by (simp only: and_ffff) simp
  finally show ?thesis using of_nat_diff[OF le, where ?'a = u32] by simp
qed

lemma compute_ip_checksum_fold:
  assumes "length X \<le> 65534"
  shows "compute_ip_checksum (A @ X @ B) (length A) (length X) = Some (word_of_nat (65535 - fold16 (le_sum X)))"
proof -
  let ?s = "le_sum X"
  have "(length X + 1) div 2 \<le> 32767" using assms by simp
  then have "65535 * ((length X + 1) div 2) \<le> 65535 * 32767" by (rule mult_le_mono2)
  then have s: "?s < 2 ^ 31" using le_sum_bound[of X] by simp
  have odd: "le_sum X = le_sum (butlast X) + unat (X ! (length X - 1))" if "odd (length X)"
  proof -
    have "X \<noteq> []" "even (length (butlast X))" using that by auto
    then show ?thesis using le_sum_append[of "butlast X" "[last X]"] append_butlast_last_id[of X] by (simp add: last_conv_nth)
  qed
  have "(do { (csum, i, n) \<leftarrow> checksum_words (A @ X @ B) (length A) (length X) 0;
      (if n = 1 then do { b \<leftarrow> arr_get (A @ X @ B) i; Some (csum + ucast b) } else Some csum) }) = Some (word_of_nat ?s)"
  proof (cases "even (length X)")
    case False
    then have "X \<noteq> []" by auto
    then have "arr_get (A @ X @ B) (length A + (length X - 1)) = Some (X ! (length X - 1))"
      by (subst arr_get_skip) (auto simp: nth_append arr_get_def simp flip: length_greater_0_conv)
    moreover have "length A + length X - 1 = length A + (length X - 1)" using \<open>X \<noteq> []\<close> by (simp add: Suc_leI)
    ultimately show ?thesis using False odd by (simp add: checksum_words_sum)
  qed (simp add: checksum_words_sum)
  then have c: "compute_ip_checksum (A @ X @ B) (length A) (length X) =
      (let csum = signed_drop_bit 16 (word_of_nat ?s) + (word_of_nat ?s AND 0xFFFF); csum = csum + signed_drop_bit 16 csum
       in Some (NOT csum AND 0xFFFF))"
    unfolding compute_ip_checksum_def by (auto simp: Let_def split: bind_splits)
  define t where "t = ?s div 65536 + ?s mod 65536"
  have t: "(signed_drop_bit 16 (word_of_nat ?s) + (word_of_nat ?s AND 0xFFFF) :: u32) = word_of_nat t"
    using s by (simp add: signed_drop_bit_nat and_ffff t_def)
  have "t < 2 ^ 31" using s by (simp add: t_def)
  then have "(word_of_nat t + signed_drop_bit 16 (word_of_nat t) :: u32) = word_of_nat (t + t div 65536)"
    by (simp add: signed_drop_bit_nat)
  then show ?thesis unfolding c Let_def t using not_and_ffff[of "t + t div 65536"] fold16_two_steps[OF s t_def] by simp
qed

lemma fold16_bound: "fold16 s \<le> 65535"
proof -
  have "(s - 1) mod 65535 < 65535" by simp
  then show ?thesis by (simp add: fold16_def) linarith
qed

lemma fold16_complement: "fold16 (s + (65535 - fold16 s)) = 65535"
proof (cases "s = 0")
  case False
  define q r where "q = (s - 1) div 65535" and "r = (s - 1) mod 65535"
  have "s = q * 65535 + r + 1" "r < 65535" using False by (simp_all add: q_def r_def)
  then have "s + (65535 - fold16 s) - 1 = 65534 + q * 65535" using False by (simp add: fold16_def r_def[symmetric])
  then have "(s + (65535 - fold16 s) - 1) mod 65535 = 65534" by (simp only: mod_mult_self1) simp
  then show ?thesis using False by (simp add: fold16_def)
qed (simp add: fold16_def)

text \<open>A block with its checksum stored in it has the checksum zero. The checksum field is at an even place.\<close>

definition block_checksum :: "u8 list \<Rightarrow> u16" where
  "block_checksum X = word_of_nat (65535 - fold16 (le_sum X))"

lemma ucast_checksum: "(ucast (block_checksum X) :: u32) = word_of_nat (65535 - fold16 (le_sum X))"
proof -
  have "unat (block_checksum X) = 65535 - fold16 (le_sum X)" by (simp add: block_checksum_def unat_of_nat take_bit_eq_mod)
  then show ?thesis by (metis of_nat_unat)
qed

lemma compute_ip_checksum_block:
  assumes "length X \<le> 65534"
  shows "compute_ip_checksum (A @ X @ B) (length A) (length X) = Some (ucast (block_checksum X))"
  using compute_ip_checksum_fold[OF assms] by (simp add: ucast_checksum)

lemma block_checksum_stored:
  assumes "even (length X)"
  shows "block_checksum (X @ le16 (block_checksum (X @ [0, 0] @ Y)) @ Y) = 0"
proof -
  let ?s = "le_sum X + le_sum Y"
  have l: "length (le16 v) = 2" for v by (simp add: le16_def)
  have e: "le_sum (X @ le16 v @ Y) = ?s + unat v" for v
    using assms le_sum_append[of "le16 v" Y] by (simp add: le_sum_append le_sum_le16 l)
  have "le_sum (X @ [0, 0] @ Y) = ?s" using e[of 0] by (simp add: le16_def)
  moreover have "unat (word_of_nat (65535 - fold16 ?s) :: u16) = 65535 - fold16 ?s"
    by (simp add: unat_of_nat take_bit_eq_mod)
  ultimately show ?thesis by (simp add: block_checksum_def[of "X @ le16 _ @ Y"] e block_checksum_def[of "X @ [0, 0] @ Y", simplified] fold16_complement)
qed

lemma fold16_cong:
  assumes "a mod 65535 = b mod 65535" "a = 0 \<longleftrightarrow> b = 0"
  shows "fold16 a = fold16 b"
proof (cases "a = 0")
  case False
  have m: "(n - 1) mod 65535 = (if n mod 65535 = 0 then 65534 else n mod 65535 - 1)" if "n \<noteq> 0" for n :: nat
    using that by (cases n) (auto simp: mod_Suc)
  show ?thesis unfolding fold16_def using m[of a] m[of b] False assms by simp
qed (use assms in simp)

lemma fold16_mod: "fold16 s mod 65535 = s mod 65535"
proof (cases "s = 0")
  case False
  then have "fold16 s mod 65535 = (s - 1 + 1) mod 65535" unfolding fold16_def by (simp add: mod_simps)
  then show ?thesis using False by simp
qed (simp add: fold16_def)

lemma fold16_zero [simp]: "fold16 s = 0 \<longleftrightarrow> s = 0"
  by (simp add: fold16_def)

lemma fold16_add: "fold16 (fold16 a + fold16 b) = fold16 (a + b)"
  by (rule fold16_cong) (simp_all add: mod_add_cong[OF fold16_mod fold16_mod])

lemma fold16_carry: "c \<le> 131070 \<Longrightarrow> fold16 c = (if c > 65535 then c - 65535 else c)"
  by (auto simp: fold16_def mod_if)

lemma fold16_swap:
  assumes "n \<le> 65535"
  shows "fold16 (256 * n) = n div 256 + 256 * (n mod 256)"
proof -
  define h l where "h = n div 256" and "l = n mod 256"
  have n: "n = 256 * h + l" "h < 256" "l < 256" using assms by (simp_all add: h_def l_def)
  have "256 * n = h + 256 * l + h * 65535" using n(1) by simp
  then have "(256 * n) mod 65535 = (h + 256 * l) mod 65535" by (simp only: mod_mult_self1)
  then have "fold16 (256 * n) = fold16 (h + 256 * l)" using n(1) by (intro fold16_cong) auto
  then show ?thesis using n by (simp add: fold16_carry h_def[symmetric] l_def[symmetric])
qed

text \<open>A block that begins at an odd place counts with its bytes exchanged.\<close>

lemma le_sum_Cons:
  "le_sum (a # Y) mod 65535 = (unat a + 256 * le_sum Y) mod 65535 \<and> (le_sum (a # Y) = 0 \<longleftrightarrow> unat a + 256 * le_sum Y = 0)"
proof (induction Y arbitrary: a rule: le_sum.induct)
  case (1 b c Y)
  have "(unat a + 256 * unat b + le_sum (c # Y)) mod 65535 = (unat a + 256 * unat b + (unat c + 256 * le_sum Y)) mod 65535"
    using 1[of c] by (metis mod_add_right_eq)
  also have "\<dots> = (unat a + 256 * unat b + (unat c + 256 * le_sum Y) + unat c * 65535) mod 65535" by (simp only: mod_mult_self1)
  finally have "le_sum (a # b # c # Y) mod 65535 = (unat a + 256 * le_sum (b # c # Y)) mod 65535" by (simp add: algebra_simps)
  then show ?case using 1[of c] by auto
qed simp_all

lemma le_sum_append_odd:
  assumes "odd (length X)"
  shows "fold16 (le_sum (X @ Y)) = fold16 (le_sum X + 256 * le_sum Y)"
proof -
  obtain Z a where X: "X = Z @ [a]" "even (length Z)" using assms by (cases X rule: rev_cases) auto
  have "(le_sum Z + le_sum (a # Y)) mod 65535 = (le_sum Z + (unat a + 256 * le_sum Y)) mod 65535"
    using le_sum_Cons[of a Y] by (metis mod_add_right_eq)
  then show ?thesis using le_sum_Cons[of a Y] X by (intro fold16_cong) (simp_all add: le_sum_append add.assoc)
qed

lemma swap_bytes:
  assumes "n < 65536"
  shows "(drop_bit 8 (word_of_nat n) AND 0xFF) OR (push_bit 8 (word_of_nat n) AND 0xFF00) = (word_of_nat (n div 256 + 256 * (n mod 256)) :: u32)"
proof -
  have f: "(0xFF :: u32) = mask 8" "(0xFF00 :: u32) = push_bit 8 (mask 8)" by (simp_all add: mask_eq_exp_minus_1 push_bit_eq_mult)
  have "drop_bit 8 (word_of_nat n :: u32) = word_of_nat (n div 256)" using assms
    by (intro iffD2[OF word_unat_eq_iff]) (simp add: unat_drop_bit_eq unat_of_nat take_bit_eq_mod drop_bit_eq_div[where ?'a = nat])
  then have d: "drop_bit 8 (word_of_nat n) AND 0xFF = (word_of_nat (n div 256) :: u32)"
    unfolding f take_bit_eq_mask[symmetric] using assms by (simp add: take_bit_of_nat) (simp add: take_bit_eq_mod)
  have "push_bit 8 (word_of_nat n) AND 0xFF00 = push_bit 8 (word_of_nat n AND mask 8 :: u32)" unfolding f by (simp only: push_bit_and)
  also have "\<dots> = word_of_nat (256 * (n mod 256))"
    by (simp only: take_bit_eq_mask[symmetric] take_bit_of_nat) (simp add: push_bit_of_nat push_bit_eq_mult take_bit_eq_mod mult.commute)
  finally have p: "push_bit 8 (word_of_nat n) AND 0xFF00 = (word_of_nat (256 * (n mod 256)) :: u32)" .
  have "(drop_bit 8 (word_of_nat n) AND 0xFF) OR (push_bit 8 (word_of_nat n) AND 0xFF00) =
      (drop_bit 8 (word_of_nat n) AND 0xFF) + (push_bit 8 (word_of_nat n) AND 0xFF00 :: u32)"
    unfolding f by (rule disjunctive_add[symmetric]) (auto simp: bit_simps)
  then show ?thesis by (simp only: d p of_nat_add)
qed


lemma complement_checksum: "NOT (ucast (block_checksum X) :: u32) AND 0xFFFF = word_of_nat (fold16 (le_sum X))"
  using fold16_bound[of "le_sum X"] by (simp add: ucast_checksum not_and_ffff del: of_nat_diff)

lemma add_folded:
  assumes "a \<le> 65535" "b \<le> 65535"
  shows "(let c = word_of_nat a + word_of_nat b; c = (if c > 0xFFFF then c - 0xFFFF else c) in NOT c AND 0xFFFF) =
    (word_of_nat (65535 - fold16 (a + b)) :: u32)"
proof -
  have u: "unat (word_of_nat a + word_of_nat b :: u32) = a + b"
    unfolding of_nat_add[symmetric] using assms by (subst unat_of_nat) (simp add: take_bit_eq_mod)
  have c: "(if (word_of_nat a + word_of_nat b :: u32) > 0xFFFF then word_of_nat a + word_of_nat b - 0xFFFF else word_of_nat a + word_of_nat b) =
      (word_of_nat (fold16 (a + b)) :: u32)"
    using assms u by (auto simp: fold16_carry word_less_nat_alt)
  show ?thesis unfolding Let_def c using fold16_bound[of "a + b"] by (simp add: not_and_ffff del: of_nat_diff of_nat_add)
qed

text \<open>\<open>add_ip_checksums\<close> puts the checksums of two neighbouring pieces together, also when the second begins at an
  odd offset, so that a block may be summed piece by piece.\<close>

lemma add_ip_checksums_append:
  "add_ip_checksums (word_of_nat (length X)) (ucast (block_checksum X)) (ucast (block_checksum Y)) = ucast (block_checksum (X @ Y))"
proof -
  let ?a = "fold16 (le_sum X)" and ?b = "fold16 (le_sum Y)"
  have off: "(word_of_nat (length X) :: u32) AND 1 \<noteq> 0 \<longleftrightarrow> odd (length X)"
    by (simp add: and_one_eq mod_2_eq_odd)
  define b where "b = (if odd (length X) then ?b div 256 + 256 * (?b mod 256) else ?b)"
  have sw: "b = (if odd (length X) then fold16 (256 * ?b) else ?b)" using fold16_swap[OF fold16_bound[of "le_sum Y"]] by (simp add: b_def)
  then have b: "b \<le> 65535" using fold16_bound by simp
  have "fold16 (256 * ?b) = fold16 (256 * le_sum Y)" by (rule fold16_cong) (simp_all add: mod_mult_cong[OF refl fold16_mod])
  then have "fold16 (?a + b) = fold16 (le_sum (X @ Y))"
    using sw by (auto simp: fold16_add le_sum_append le_sum_append_odd)
  moreover have "add_ip_checksums (word_of_nat (length X)) (ucast (block_checksum X)) (ucast (block_checksum Y)) =
      (let c = word_of_nat ?a + word_of_nat b; c = (if c > 0xFFFF then c - 0xFFFF else c) in NOT c AND 0xFFFF)"
    unfolding add_ip_checksums_def complement_checksum Let_def off using swap_bytes[of ?b] fold16_bound[of "le_sum Y"] by (simp add: b_def)
  ultimately show ?thesis using add_folded[OF fold16_bound b, of "le_sum X"] ucast_checksum[of "X @ Y"] by simp
qed

section \<open>Frames\<close>

definition tagged :: "net \<Rightarrow> bool" where
  "tagged st \<longleftrightarrow> vlan_id (net_our_vlan st) AND VLAN_IDMASK \<noteq> VLAN_NONE"

definition type_field :: "net \<Rightarrow> u16 \<Rightarrow> u8 list" where
  "type_field st prot = (if tagged st then be16 PROT_VLAN @ be16 (vlan_id (net_our_vlan st) AND VLAN_IDMASK) @ be16 prot else be16 prot)"

definition eth_header :: "net \<Rightarrow> u8 list \<Rightarrow> u8 list \<Rightarrow> u16 \<Rightarrow> u8 list" where
  "eth_header st dest src prot = dest @ src @ type_field st prot"

definition ip_header :: "u16 \<Rightarrow> u16 \<Rightarrow> u16 \<Rightarrow> u8 \<Rightarrow> u16 \<Rightarrow> u32 \<Rightarrow> u32 \<Rightarrow> u8 list" where
  "ip_header len ident frag prot csum src dst =
     [0x45, 0] @ be16 len @ be16 ident @ be16 frag @ [255, prot] @ le16 csum @ in_addr_bytes src @ in_addr_bytes dst"

definition ip_block :: "u16 \<Rightarrow> u16 \<Rightarrow> u16 \<Rightarrow> u8 \<Rightarrow> u32 \<Rightarrow> u32 \<Rightarrow> u8 list" where
  "ip_block len ident frag prot src dst =
     ip_header len ident frag prot (block_checksum (ip_header len ident frag prot 0 src dst)) src dst"

definition udp_header :: "u16 \<Rightarrow> u16 \<Rightarrow> u16 \<Rightarrow> u8 list" where
  "udp_header sport dport len = be16 sport @ be16 dport @ be16 len @ [0, 0]"

definition arp_body :: "u16 \<Rightarrow> u8 list \<Rightarrow> u32 \<Rightarrow> u8 list \<Rightarrow> u32 \<Rightarrow> u8 list" where
  "arp_body oper sha spa tha tpa =
     be16 1 @ be16 PROT_IP @ [6, 4] @ be16 oper @ sha @ in_addr_bytes spa @ tha @ in_addr_bytes tpa"

lemma length_fields [simp]:
  "length (be16 v) = 2" "length (le16 v) = 2" "length (in_addr_bytes a) = 4"
  by (simp_all add: be16_def le16_def in_addr_bytes_def)

lemma length_headers [simp]:
  "length (type_field st prot) = (if tagged st then 6 else 2)"
  "length (ip_header l i f p c s d) = 20" "length (ip_block l i f p s d) = 20" "length (udp_header sp dp l) = 8"
  by (simp_all add: type_field_def ip_header_def ip_block_def udp_header_def)

lemma length_eth_header [simp]:
  "length dest = 6 \<Longrightarrow> length src = 6 \<Longrightarrow> length (eth_header st dest src prot) = net_eth_hdr_size st"
  by (simp add: eth_header_def net_eth_hdr_size_def tagged_def ETHER_HDR_SIZE_def VLAN_ETHER_HDR_SIZE_def)

lemma length_arp_body [simp]: "length sha = 6 \<Longrightarrow> length tha = 6 \<Longrightarrow> length (arp_body oper sha spa tha tpa) = 28"
  by (simp add: arp_body_def)

lemma eth_hdr_size_bound: "net_eth_hdr_size st \<le> 18" "14 \<le> net_eth_hdr_size st"
  by (simp_all add: net_eth_hdr_size_def ETHER_HDR_SIZE_def VLAN_ETHER_HDR_SIZE_def)

lemmas size_defs = ETHER_HDR_SIZE_def VLAN_ETHER_HDR_SIZE_def E802_HDR_SIZE_def IP_HDR_SIZE_def IP_UDP_HDR_SIZE_def
  ICMP_HDR_SIZE_def ARP_HDR_SIZE_def

text \<open>A write that covers the front of a buffer, and a write behind a prefix\<close>

lemma put_bytes_front: "length bs \<le> length X \<Longrightarrow> put_bytes X 0 bs = Some (bs @ drop (length bs) X)"
  by (simp add: put_bytes_def blit_def)

lemma put_bytes_behind: "i = length A \<Longrightarrow> length bs \<le> length X \<Longrightarrow> put_bytes (A @ X) i bs = Some (A @ bs @ drop (length bs) X)"
  using put_bytes_skip[of A X 0 bs] put_bytes_front[of bs X] by simp

lemma net_set_ether_header:
  assumes "length dest = 6" "length (net_ethaddr st) = 6" "18 \<le> length p"
  shows "net_set_ether st p dest prot =
    Some (net_eth_hdr_size st, eth_header st dest (net_ethaddr st) prot @ drop (net_eth_hdr_size st) p)"
  using assms put_bytes_behind[of 6 dest "net_ethaddr st" "drop 6 p"] put_bytes_behind[of 12 "dest @ net_ethaddr st" _ "drop 12 p"]
    put_bytes_behind[of 14 "dest @ net_ethaddr st @ be16 PROT_VLAN" _ "drop 14 p"]
    put_bytes_behind[of 16 "dest @ net_ethaddr st @ be16 PROT_VLAN @ be16 (vlan_id (net_our_vlan st) AND VLAN_IDMASK)" _ "drop 16 p"]
  by (simp add: net_set_ether_def put_bytes_front eth_header_def type_field_def tagged_def net_eth_hdr_size_def size_defs Let_def)

lemma list_prefix: "n \<le> length X \<Longrightarrow> \<exists>P. length P = n \<and> X = P @ drop n X"
  by (intro exI[of _ "take n X"]) simp

lemma length_20: "length xs = 20 \<longleftrightarrow> (\<exists>x0 x1 x2 x3 x4 x5 x6 x7 x8 x9 x10 x11 x12 x13 x14 x15 x16 x17 x18 x19.
    xs = [x0, x1, x2, x3, x4, x5, x6, x7, x8, x9, x10, x11, x12, x13, x14, x15, x16, x17, x18, x19])"
  by (auto simp: numeral_eq_Suc length_Suc_conv)

text \<open>Writing an IP header: a packet type and a length are added to what \<open>net_set_ip_header\<close> writes, then the checksum.\<close>

definition write_ip :: "mem \<Rightarrow> nat \<Rightarrow> u32 \<Rightarrow> u16 \<Rightarrow> u8 \<Rightarrow> net \<Rightarrow> (mem \<times> net) option" where
  "write_ip pkt i dest len prot st = do {
     (pkt, st) \<leftarrow> net_set_ip_header pkt i dest (net_ip st) st;
     pkt \<leftarrow> put_bytes pkt (i + 2) (be16 len);
     pkt \<leftarrow> put_bytes pkt (i + 9) [prot];
     csum \<leftarrow> compute_ip_checksum pkt i IP_HDR_SIZE;
     pkt \<leftarrow> put_bytes pkt (i + 10) (le16 (ucast csum));
     Some (pkt, st)
   }"

lemma write_ip_header:
  assumes "i = length A" "length X = 20"
  shows "write_ip (A @ X @ B) i dest len prot st =
    Some (A @ ip_block len (ucast (net_ip_id st)) 0x4000 prot (net_ip st) dest @ B, st\<lparr>net_ip_id := net_ip_id st + 1\<rparr>)"
proof -
  define f where "f = (0x4000 :: u16)"
  let ?h = "ip_header len (ucast (net_ip_id st)) f prot 0 (net_ip st) dest"
  have c: "compute_ip_checksum (A @ ?h @ B) (length A) 20 = Some (ucast (block_checksum ?h))"
    using compute_ip_checksum_block[of ?h A B] by simp
  obtain x0 x1 x2 x3 x4 x5 x6 x7 x8 x9 x10 x11 x12 x13 x14 x15 x16 x17 x18 x19 where
    X: "X = [x0, x1, x2, x3, x4, x5, x6, x7, x8, x9, x10, x11, x12, x13, x14, x15, x16, x17, x18, x19]"
    using assms(2) by (auto simp: length_20)
  have u: "ucast (ucast v :: u32) = v" for v :: u16 by (rule bit_word_eqI) (simp add: bit_simps)
  have w: "(do { (pkt, st) \<leftarrow> net_set_ip_header (A @ X @ B) i dest (net_ip st) st; pkt \<leftarrow> put_bytes pkt (i + 2) (be16 len);
      pkt \<leftarrow> put_bytes pkt (i + 9) [prot]; Some (pkt, st) }) = Some (A @ ?h @ B, st\<lparr>net_ip_id := net_ip_id st + 1\<rparr>)"
    unfolding net_set_ip_header_def assms(1) X f_def[symmetric]
    by (simp add: skip_simps be16_def le16_def in_addr_bytes_def ip_header_def)
  have "write_ip (A @ X @ B) i dest len prot st =
      (do { (pkt, st) \<leftarrow> (do { (pkt, st) \<leftarrow> net_set_ip_header (A @ X @ B) i dest (net_ip st) st; pkt \<leftarrow> put_bytes pkt (i + 2) (be16 len);
        pkt \<leftarrow> put_bytes pkt (i + 9) [prot]; Some (pkt, st) }); csum \<leftarrow> compute_ip_checksum pkt i IP_HDR_SIZE;
        pkt \<leftarrow> put_bytes pkt (i + 10) (le16 (ucast csum)); Some (pkt, st) })"
    by (simp add: write_ip_def split_def)
  also have "\<dots> = Some (A @ ip_block len (ucast (net_ip_id st)) f prot (net_ip st) dest @ B, st\<lparr>net_ip_id := net_ip_id st + 1\<rparr>)"
    unfolding w using assms(1) put_bytes_skip[of A "?h @ B" 10]
    by (simp add: c IP_HDR_SIZE_def u) (simp add: ip_block_def ip_header_def be16_def le16_def in_addr_bytes_def)
  finally show ?thesis by (simp only: f_def)
qed


text \<open>Access behind a header of known length\<close>

lemma head_simps:
  "length H \<le> k \<Longrightarrow> put_bytes (H @ X) k bs = map_option ((@) H) (put_bytes X (k - length H) bs)"
  "length H \<le> k \<Longrightarrow> get_bytes (H @ X) k n = get_bytes X (k - length H) n"
  "length H \<le> k \<Longrightarrow> arr_get (H @ X) k = arr_get X (k - length H)"
  "length H \<le> k \<Longrightarrow> get_be16 (H @ X) k = get_be16 X (k - length H)"
  "length H \<le> k \<Longrightarrow> net_read_ip (H @ X) k = net_read_ip X (k - length H)"
  using put_bytes_skip[of H X "k - length H"] get_bytes_skip[of H X "k - length H"] arr_get_skip[of H X "k - length H"]
    get_be16_skip[of H X "k - length H"] net_read_ip_skip[of H X "k - length H"] by simp_all

lemma length_8: "length xs = 8 \<longleftrightarrow> (\<exists>a b c d e f g h. xs = [a, b, c, d, e, f, g, h])"
  by (auto simp: numeral_eq_Suc length_Suc_conv)

lemma length_28: "length xs = 28 \<longleftrightarrow> (\<exists>ys zs. length ys = 20 \<and> length zs = 8 \<and> xs = ys @ zs)"
proof
  assume "length xs = 28"
  then show "\<exists>ys zs. length ys = 20 \<and> length zs = 8 \<and> xs = ys @ zs"
    by (intro exI[of _ "take 20 xs"] exI[of _ "drop 20 xs"]) simp
qed auto

lemma net_set_udp_header_block:
  assumes "i = length A" "length X = 28" "length P = len" "Z \<noteq> []"
  shows "net_set_udp_header (A @ X @ P @ Z) i dest dport sport len st =
    Some (A @ ip_block (word_of_nat (28 + len)) (ucast (net_ip_id st)) 0x4000 17 (net_ip st) dest @
            udp_header (ucast sport) (ucast dport) (word_of_nat (8 + len)) @ P @ (if odd len then 0 # tl Z else Z),
          st\<lparr>net_ip_id := net_ip_id st + 1\<rparr>)"
proof -
  define Z' where "Z' = (if odd len then 0 # tl Z else Z)"
  obtain Y U where X: "X = Y @ U" "length Y = 20" "length U = 8" using assms(2) by (auto simp: length_28)
  obtain a b c d e f g h where U: "U = [a, b, c, d, e, f, g, h]" using X(3) by (auto simp: length_8)
  have z: "(if odd len then put_bytes (A @ X @ P @ Z) (i + IP_UDP_HDR_SIZE + len) [0] else Some (A @ X @ P @ Z)) = Some (A @ Y @ U @ P @ Z')"
    using assms put_bytes_behind[of "i + 28 + len" "A @ X @ P" "[0]" Z] X by (cases Z) (auto simp: IP_UDP_HDR_SIZE_def Z'_def)
  note w = write_ip_header[OF assms(1) X(2), of "U @ P @ Z'" dest "word_of_nat (IP_UDP_HDR_SIZE + len)" 17 st]
  let ?ip = "ip_block (word_of_nat (IP_UDP_HDR_SIZE + len)) (ucast (net_ip_id st)) 0x4000 17 (net_ip st) dest"
  have "net_set_udp_header (A @ X @ P @ Z) i dest dport sport len st =
      (do { (pkt, st) \<leftarrow> write_ip (A @ Y @ U @ P @ Z') i dest (word_of_nat (IP_UDP_HDR_SIZE + len)) 17 st;
        pkt \<leftarrow> put_bytes pkt (i + 20) (be16 (ucast sport)); pkt \<leftarrow> put_bytes pkt (i + 22) (be16 (ucast dport));
        pkt \<leftarrow> put_bytes pkt (i + 24) (be16 (word_of_nat (8 + len))); pkt \<leftarrow> put_bytes pkt (i + 26) [0, 0]; Some (pkt, st) })"
    unfolding net_set_udp_header_def z write_ip_def by (simp add: split_def)
  also have "\<dots> = Some (A @ ?ip @ udp_header (ucast sport) (ucast dport) (word_of_nat (8 + len)) @ P @ Z', st\<lparr>net_ip_id := net_ip_id st + 1\<rparr>)"
    unfolding w unfolding U using assms(1) by (simp add: be16_def udp_header_def skip_simps head_simps)
  finally show ?thesis by (simp add: IP_UDP_HDR_SIZE_def Z'_def)
qed

definition icmp_echo :: "u8 \<Rightarrow> u16 \<Rightarrow> u16 \<Rightarrow> u8 list" where
  "icmp_echo t csum seqno = [t, 0] @ le16 csum @ [0, 0] @ be16 seqno"

definition icmp_block :: "u8 \<Rightarrow> u16 \<Rightarrow> u8 list" where
  "icmp_block t seqno = icmp_echo t (block_checksum (icmp_echo t 0 seqno)) seqno"

lemma length_icmp [simp]: "length (icmp_echo t c s) = 8" "length (icmp_block t s) = 8"
  by (simp_all add: icmp_echo_def icmp_block_def)

lemma ucast_ucast_16_32: "ucast (ucast v :: u32) = (v :: u16)"
  by (rule bit_word_eqI) (simp add: bit_simps)

lemma set_icmp_header_block:
  assumes "i = length A" "length X = 28"
  shows "set_icmp_header (A @ X @ B) i dest st =
    Some (A @ ip_block 28 (ucast (net_ip_id st)) 0x4000 1 (net_ip st) dest @ icmp_block 8 (ping_seq_number st) @ B,
          st\<lparr>net_ip_id := net_ip_id st + 1, ping_seq_number := ping_seq_number st + 1\<rparr>)"
proof -
  obtain Y U where X: "X = Y @ U" "length Y = 20" "length U = 8" using assms(2) by (auto simp: length_28)
  obtain a b c d e f g h where U: "U = [a, b, c, d, e, f, g, h]" using X(3) by (auto simp: length_8)
  let ?ip = "ip_block 28 (ucast (net_ip_id st)) 0x4000 1 (net_ip st) dest"
  let ?ic = "icmp_echo 8 0 (ping_seq_number st)"
  have w: "write_ip (A @ Y @ U @ B) i dest (word_of_nat (IP_HDR_SIZE + ICMP_HDR_SIZE)) 1 st =
      Some (A @ ?ip @ U @ B, st\<lparr>net_ip_id := net_ip_id st + 1\<rparr>)"
    using write_ip_header[OF assms(1) X(2), of "U @ B" dest "word_of_nat (IP_HDR_SIZE + ICMP_HDR_SIZE)" 1 st]
    by (simp add: IP_HDR_SIZE_def ICMP_HDR_SIZE_def)
  have c: "compute_ip_checksum (A @ ?ip @ ?ic @ B) (length A + 20) 8 = Some (ucast (block_checksum ?ic))"
    using compute_ip_checksum_block[of ?ic "A @ ?ip" B] by simp
  have "set_icmp_header (A @ X @ B) i dest st =
      (do { (pkt, st) \<leftarrow> write_ip (A @ Y @ U @ B) i dest (word_of_nat (IP_HDR_SIZE + ICMP_HDR_SIZE)) 1 st;
        pkt \<leftarrow> put_bytes pkt (i + 20) [8]; pkt \<leftarrow> put_bytes pkt (i + 21) [0]; pkt \<leftarrow> put_bytes pkt (i + 22) [0, 0];
        pkt \<leftarrow> put_bytes pkt (i + 24) [0, 0]; pkt \<leftarrow> put_bytes pkt (i + 26) (be16 (ping_seq_number st));
        let st = st\<lparr>ping_seq_number := ping_seq_number st + 1\<rparr>;
        csum \<leftarrow> compute_ip_checksum pkt (i + 20) ICMP_HDR_SIZE; pkt \<leftarrow> put_bytes pkt (i + 22) (le16 (ucast csum)); Some (pkt, st) })"
    unfolding set_icmp_header_def write_ip_def X(1) by (simp add: split_def)
  also have "\<dots> = (do { csum \<leftarrow> compute_ip_checksum (A @ ?ip @ ?ic @ B) (length A + 20) 8;
        pkt \<leftarrow> put_bytes (A @ ?ip @ ?ic @ B) (length A + 22) (le16 (ucast csum));
        Some (pkt, st\<lparr>net_ip_id := net_ip_id st + 1, ping_seq_number := ping_seq_number st + 1\<rparr>) })"
    unfolding w unfolding U using assms(1) by (simp add: be16_def icmp_echo_def ICMP_HDR_SIZE_def le16_def skip_simps head_simps)
  also have "\<dots> = Some (A @ ?ip @ icmp_block 8 (ping_seq_number st) @ B,
      st\<lparr>net_ip_id := net_ip_id st + 1, ping_seq_number := ping_seq_number st + 1\<rparr>)"
    unfolding c by (simp add: skip_simps head_simps ucast_ucast_16_32) (simp add: icmp_block_def icmp_echo_def be16_def le16_def)
  finally show ?thesis .
qed

lemma arp_raw_request_frame:
  assumes "length (net_ethaddr st) = 6" "length tha = 6" "46 \<le> length (arp_tx_packet st)"
  shows "arp_raw_request spa tha tpa st = Some (st\<lparr>
    arp_tx_packet := eth_header st net_bcast_ethaddr (net_ethaddr st) PROT_ARP @ arp_body 1 (net_ethaddr st) spa tha tpa @
      drop (net_eth_hdr_size st + 28) (arp_tx_packet st),
    sent := sent st @ [eth_header st net_bcast_ethaddr (net_ethaddr st) PROT_ARP @ arp_body 1 (net_ethaddr st) spa tha tpa]\<rparr>)"
proof -
  let ?A = "eth_header st net_bcast_ethaddr (net_ethaddr st) PROT_ARP" and ?n = "net_eth_hdr_size st"
  have n: "length ?A = ?n" "?n \<le> 18" using assms(1) eth_hdr_size_bound[of st] by (simp_all add: net_bcast_ethaddr_def)
  have "28 \<le> length (drop ?n (arp_tx_packet st))" using assms(3) n(2) by simp
  then obtain X where X: "length X = 28" "drop ?n (arp_tx_packet st) = X @ drop (?n + 28) (arp_tx_packet st)"
    using list_prefix[of 28 "drop ?n (arp_tx_packet st)"] by (auto simp: add.commute)
  obtain Y U where Y: "X = Y @ U" "length Y = 20" "length U = 8" using X(1) by (auto simp: length_28)
  obtain a b c d e f where e: "net_ethaddr st = [a, b, c, d, e, f]" using assms(1) by (auto simp: length_6)
  obtain a' b' c' d' e' f' where t: "tha = [a', b', c', d', e', f']" using assms(2) by (auto simp: length_6)
  have s: "net_set_ether st (arp_tx_packet st) net_bcast_ethaddr PROT_ARP = Some (?n, ?A @ Y @ U @ drop (?n + 28) (arp_tx_packet st))"
    using net_set_ether_header[of net_bcast_ethaddr st "arp_tx_packet st" PROT_ARP] assms X(2) Y(1) by (simp add: net_bcast_ethaddr_def)
  have g: "get_bytes (?A @ arp_body 1 (net_ethaddr st) spa tha tpa @ R) 0 (?n + 28) = Some (?A @ arp_body 1 (net_ethaddr st) spa tha tpa)" for R
    using get_bytes_all[of "?A @ arp_body 1 (net_ethaddr st) spa tha tpa" R] assms(1,2) n(1) by simp
  obtain y0 y1 y2 y3 y4 y5 y6 y7 y8 y9 y10 y11 y12 y13 y14 y15 y16 y17 y18 y19 where
    y: "Y = [y0, y1, y2, y3, y4, y5, y6, y7, y8, y9, y10, y11, y12, y13, y14, y15, y16, y17, y18, y19]"
    using Y(2) by (auto simp: length_20)
  obtain u0 u1 u2 u3 u4 u5 u6 u7 where u: "U = [u0, u1, u2, u3, u4, u5, u6, u7]" using Y(3) by (auto simp: length_8)
  let ?R = "drop (?n + 28) (arp_tx_packet st)"
  have "arp_raw_request spa tha tpa st =
      net_send_packet (?A @ arp_body 1 (net_ethaddr st) spa tha tpa @ ?R) (?n + 28)
        (st\<lparr>arp_tx_packet := ?A @ arp_body 1 (net_ethaddr st) spa tha tpa @ ?R\<rparr>)"
    unfolding arp_raw_request_def s y u t n(1)[symmetric]
    by (simp add: skip_simps e be16_def in_addr_bytes_def arp_body_def ARP_HDR_SIZE_def)
  then show ?thesis using g[of ?R] by (simp add: net_send_packet_def)
qed


section \<open>Receiving\<close>

definition host_ok :: "net \<Rightarrow> bool" where
  "host_ok st \<longleftrightarrow> length (net_ethaddr st) = 6 \<and> length (net_server_ethaddr st) = 6 \<and> length (net_tx_packet st) = 1536 \<and>
     length (arp_tx_packet st) = 1536 \<and> net_ip st \<noteq> 0 \<and> net_ip st \<noteq> 0xFFFFFFFF"

lemma prot_values: "PROT_IP > 1514" "PROT_ARP > 1514" "PROT_IP \<noteq> PROT_VLAN" "PROT_ARP \<noteq> PROT_VLAN" "PROT_IP \<noteq> PROT_ARP"
  "\<not> PROT_VLAN < 1514"
  by (simp_all add: PROT_IP_def PROT_ARP_def PROT_VLAN_def)

lemma get_be16_front [simp]: "get_be16 (be16 v @ X) 0 = Some v"
  by (simp add: be16_def)

lemma net_read_ip_front [simp]: "net_read_ip (in_addr_bytes a @ X) 0 = Some a"
  by (simp add: in_addr_bytes_def)

lemma net_update_ether_frame:
  assumes "length dest = 6" "length src = 6" "length addr = 6" "length (net_ethaddr st) = 6" "prot > 1514" "prot \<noteq> PROT_VLAN"
  shows "net_update_ether st (eth_header a dest src prot @ R) addr prot' =
    Some (net_eth_hdr_size a, eth_header a addr (net_ethaddr st) prot' @ R)"
  using assms put_bytes_front[of addr "dest @ src @ type_field a prot @ R"] put_bytes_front[of "net_ethaddr st" "src @ type_field a prot @ R"]
    put_bytes_front[of "be16 prot'" "be16 prot @ R"]
  by (simp add: net_update_ether_def eth_header_def type_field_def head_simps net_eth_hdr_size_def tagged_def size_defs)

lemma vlan_tagged: "ntohs v AND VLAN_IDMASK = VLAN_NONE \<longleftrightarrow> vlan_id v AND VLAN_IDMASK = VLAN_NONE"
  by (simp add: vlan_id_def VLAN_NONE_def VLAN_IDMASK_def)

lemma word_of_nat_less: "m < n \<Longrightarrow> n < 2 ^ 32 \<Longrightarrow> (word_of_nat m :: u32) < word_of_nat n"
  by (simp add: word_less_nat_alt unat_of_nat take_bit_eq_mod)

lemma word_of_nat_not_less: "n \<le> m \<Longrightarrow> m < 2 ^ 32 \<Longrightarrow> \<not> (word_of_nat m :: u32) < word_of_nat n"
  by (simp add: word_less_nat_alt unat_of_nat take_bit_eq_mod not_less)

lemma sint_word_of_nat: "n < 2 ^ 31 \<Longrightarrow> sint (word_of_nat n :: u32) = int n"
  by (simp add: signed_of_nat signed_take_bit_int_eq_self)

lemma ether_split_frame:
  assumes "length dest = 6" "length src = 6" "net_our_vlan b = net_our_vlan a" "\<not> len < 18" "\<not> prot < 1514" "prot \<noteq> PROT_VLAN"
  shows "ether_split (eth_header a dest src prot @ R) len b = Some (Some (net_eth_hdr_size a, len - word_of_nat (net_eth_hdr_size a), prot,
    if tagged a then vlan_id (net_our_vlan a) AND VLAN_IDMASK else VLAN_NONE))"
proof -
  have t: "tagged a \<Longrightarrow> net_eth_hdr_size a = 18" "\<not> tagged a \<Longrightarrow> net_eth_hdr_size a = 14"
    by (simp_all add: net_eth_hdr_size_def tagged_def size_defs)
  have v: "ntohs (net_our_vlan a) AND VLAN_IDMASK = VLAN_NONE \<longleftrightarrow> \<not> tagged a" by (simp add: vlan_tagged tagged_def)
  have m: "(w AND VLAN_IDMASK) AND VLAN_IDMASK = w AND VLAN_IDMASK" for w by (simp add: and.assoc)
  show ?thesis using assms t prot_values(6)
    by (cases "tagged a") (simp_all add: ether_split_def eth_header_def type_field_def head_simps size_defs v m)
qed

lemma receive_frame:
  assumes "length dest = 6" "length src = 6" "net_our_vlan b = net_our_vlan a" "4 \<le> length R" "length R \<le> 60000"
    "prot = PROT_ARP \<or> prot = PROT_IP"
  shows "net_process_received_packet (eth_header a dest src prot @ R) (word_of_nat (length (eth_header a dest src prot @ R))) b =
    (if prot = PROT_ARP
     then map_option (\<lambda>st. (st, None)) (arp_receive (eth_header a dest src prot @ R) (net_eth_hdr_size a) (int (length R)) b)
     else receive_ip (eth_header a dest src prot @ R) (net_eth_hdr_size a) (word_of_nat (length R)) b)"
proof -
  let ?n = "net_eth_hdr_size a" and ?F = "eth_header a dest src prot @ R"
  let ?len = "word_of_nat (length ?F) :: u32" and ?v = "vlan_id (net_our_vlan a) AND VLAN_IDMASK"
  have n: "?n \<le> 18" "14 \<le> ?n" "length ?F = ?n + length R" using eth_hdr_size_bound[of a] assms by simp_all
  have p: "\<not> prot < 1514" "prot \<noteq> PROT_VLAN" using assms(6) prot_values by auto
  have small: "\<not> ?len < word_of_nat 14" "\<not> ?len < word_of_nat 18"
    using n assms(4,5) by (intro word_of_nat_not_less; simp)+
  have "ether_split ?F ?len b = Some (Some (?n, ?len - word_of_nat ?n, prot, if tagged a then ?v else VLAN_NONE))"
    using assms(1-3) p small(2) by (intro ether_split_frame) simp_all
  moreover have "?len - word_of_nat ?n = word_of_nat (length R)" using assms(1,2) by simp
  moreover have "sint (word_of_nat (length R) :: u32) = int (length R)" using assms(5) by (simp add: sint_word_of_nat)
  moreover have "?v \<noteq> VLAN_NONE \<Longrightarrow> tagged a" "tagged a \<Longrightarrow> ?v \<noteq> VLAN_NONE" by (simp_all add: tagged_def)
  ultimately show ?thesis using small assms(3,6) prot_values
    by (auto simp: net_process_received_packet_def Let_def ETHER_HDR_SIZE_def)
qed


lemma arp_receive_body:
  assumes "length sha = 6" "length tha = 6" "net_ip b \<noteq> 0" "28 \<le> len" "n = length A"
  shows "arp_receive (A @ arp_body oper sha spa tha tpa @ Z) n len b =
    (if tpa \<noteq> net_ip b then Some b
     else if oper = 1 then arp_answer (A @ arp_body oper sha spa tha tpa @ Z) n b
     else if oper = 2 then arp_reply (A @ arp_body oper sha spa tha tpa @ Z) n b
     else Some b)"
proof -
  obtain s0 s1 s2 s3 s4 s5 where s: "sha = [s0, s1, s2, s3, s4, s5]" using assms(1) by (auto simp: length_6)
  obtain t0 t1 t2 t3 t4 t5 where t: "tha = [t0, t1, t2, t3, t4, t5]" using assms(2) by (auto simp: length_6)
  let ?F = "A @ arp_body oper sha spa tha tpa @ Z"
  have f: "get_be16 ?F n = Some 1" "get_be16 ?F (n + 2) = Some PROT_IP" "arr_get ?F (n + 4) = Some 6" "arr_get ?F (n + 5) = Some 4"
    "net_read_ip ?F (n + 24) = Some tpa" "get_be16 ?F (n + 6) = Some oper"
    using assms(5) unfolding arp_body_def s t by (simp_all add: skip_simps head_simps del: arr_get_Some arr_get_in)
  show ?thesis unfolding arp_receive_def using assms(3,4) by (simp only: f bind.bind_lunit) (simp add: ARP_HDR_SIZE_def)
qed

lemma arp_answer_frame:
  assumes "length dest = 6" "length sha = 6" "length tha = 6" "length src = 6" "length (net_ethaddr b) = 6"
  shows "arp_answer (eth_header a dest src PROT_ARP @ arp_body 1 sha spa tha tpa @ Z) (net_eth_hdr_size a) b =
    Some (b\<lparr>sent := sent b @ [eth_header a src (net_ethaddr b) PROT_ARP @ arp_body 2 (net_ethaddr b) (net_ip b) sha spa]\<rparr>)"
proof -
  obtain s0 s1 s2 s3 s4 s5 where s: "sha = [s0, s1, s2, s3, s4, s5]" using assms(2) by (auto simp: length_6)
  obtain t0 t1 t2 t3 t4 t5 where t: "tha = [t0, t1, t2, t3, t4, t5]" using assms(3) by (auto simp: length_6)
  obtain e0 e1 e2 e3 e4 e5 where e: "net_ethaddr b = [e0, e1, e2, e3, e4, e5]" using assms(5) by (auto simp: length_6)
  let ?H = "eth_header a src (net_ethaddr b) PROT_ARP" and ?n = "net_eth_hdr_size a"
  have src: "get_bytes (eth_header a dest src PROT_ARP @ arp_body 1 sha spa tha tpa @ Z) 6 6 = Some src"
    using assms(1,4) get_bytes_all[of src] by (simp add: eth_header_def head_simps)
  define A where "A = ?H"
  have u: "net_update_ether b (eth_header a dest src PROT_ARP @ arp_body 1 sha spa tha tpa @ Z) src PROT_ARP =
      Some (?n, A @ arp_body 1 sha spa tha tpa @ Z)"
    unfolding A_def using assms prot_values by (intro net_update_ether_frame) auto
  have n: "?n = length A" using assms by (simp add: A_def)
  have g: "get_bytes (A @ arp_body 2 (net_ethaddr b) (net_ip b) sha spa @ Z) 0 (?n + 28) =
      Some (A @ arp_body 2 (net_ethaddr b) (net_ip b) sha spa)"
    using get_bytes_all[of "A @ arp_body 2 (net_ethaddr b) (net_ip b) sha spa" Z] assms n by simp
  have "arp_answer (eth_header a dest src PROT_ARP @ arp_body 1 sha spa tha tpa @ Z) ?n b =
      net_send_packet (A @ arp_body 2 (net_ethaddr b) (net_ip b) sha spa @ Z) (?n + 28) b"
    unfolding arp_answer_def src bind.bind_lunit u unfolding n s t
    by (simp add: skip_simps arp_body_def be16_def in_addr_bytes_def e ARP_HDR_SIZE_def)
  then show ?thesis using g by (simp add: net_send_packet_def A_def)
qed

lemma arp_reply_frame:
  assumes "length sha = 6" "length tha = 6" "n = length A" "net_arp_wait_packet_ip st \<noteq> 0" "net_arp_wait_reply_ip st = spa"
    "net_tx_packet st = dest @ T @ U" "length dest = 6" "arp_wait_tx_packet_size st = 6 + length T"
  shows "arp_reply (A @ arp_body 2 sha spa tha tpa @ Z) n st =
    Some (st\<lparr>net_server_ethaddr := (if arp_wait_packet_ethaddr st = Some Server_ethaddr then sha else net_server_ethaddr st),
      net_tx_packet := sha @ T @ U, sent := sent st @ [sha @ T],
      net_arp_wait_packet_ip := 0, arp_wait_tx_packet_size := 0, arp_wait_packet_ethaddr := None\<rparr>)"
proof -
  let ?F = "A @ arp_body 2 sha spa tha tpa @ Z"
  obtain s0 s1 s2 s3 s4 s5 where s: "sha = [s0, s1, s2, s3, s4, s5]" using assms(1) by (auto simp: length_6)
  have f: "net_read_ip ?F (n + 14) = Some spa" "get_bytes ?F (n + 8) 6 = Some sha"
    using assms(3) unfolding arp_body_def s by (simp_all add: skip_simps head_simps)
  have p: "put_bytes (dest @ T @ U) 0 sha = Some (sha @ T @ U)" using assms(1,7) put_bytes_front[of sha "dest @ T @ U"] by simp
  have g: "get_bytes (sha @ T @ U) 0 (6 + length T) = Some (sha @ T)" using get_bytes_all[of "sha @ T" U] assms(1) by simp
  show ?thesis unfolding arp_reply_def f using assms(4-6,8) p g
    by (auto simp: net_send_packet_def Let_def split: option.split ether_ref.split)
qed


text \<open>A frame arrives at a host, with padding behind it\<close>

definition deliver :: "mem \<Rightarrow> mem \<Rightarrow> net \<Rightarrow> (net \<times> udp_call option) option" where
  "deliver frame pad st = net_process_received_packet (frame @ pad) (word_of_nat (length (frame @ pad))) st"

text \<open>Address resolution between two hosts on the same network: the request, the answer, and the packet that has waited\<close>

lemma arp_exchange:
  assumes "host_ok b" "length (net_ethaddr st) = 6" "length (arp_tx_packet st) = 1536" "net_ip st \<noteq> 0"
    "net_our_vlan b = net_our_vlan st" "net_arp_wait_packet_ip st = net_ip b"
    "net_ip b AND net_netmask st = net_ip st AND net_netmask st"
    "net_tx_packet st = dest @ T @ U" "length dest = 6" "arp_wait_tx_packet_size st = 6 + length T"
    "length p1 \<le> 1000" "length p2 \<le> 1000"
  shows "\<exists>a1 req rep a2. arp_request st = Some a1 \<and> sent a1 = sent st @ [req] \<and>
    deliver req p1 b = Some (b\<lparr>sent := sent b @ [rep]\<rparr>, None) \<and> deliver rep p2 a1 = Some (a2, None) \<and>
    sent a2 = sent a1 @ [net_ethaddr b @ T] \<and> net_arp_wait_packet_ip a2 = 0 \<and> net_state a2 = net_state st \<and>
    net_ip a2 = net_ip st \<and> net_our_vlan a2 = net_our_vlan st \<and> net_ping_ip a2 = net_ping_ip st \<and>
    (arp_wait_packet_ethaddr st = Some Server_ethaddr \<longrightarrow> net_server_ethaddr a2 = net_ethaddr b)"
proof -
  let ?ea = "net_ethaddr st" and ?eb = "net_ethaddr b"
  let ?req = "eth_header st net_bcast_ethaddr ?ea PROT_ARP @ arp_body 1 ?ea (net_ip st) net_null_ethaddr (net_ip b)"
  let ?rep = "eth_header st ?ea ?eb PROT_ARP @ arp_body 2 ?eb (net_ip b) ?ea (net_ip st)"
  have l: "length ?eb = 6" "length net_bcast_ethaddr = 6" "length net_null_ethaddr = 6" "net_ip b \<noteq> 0"
    using assms(1) by (simp_all add: host_ok_def net_bcast_ethaddr_def net_null_ethaddr_def)
  define s1 where "s1 = st\<lparr>net_arp_wait_reply_ip := net_ip b\<rparr>"
  have h: "eth_header s1 = eth_header st" "net_eth_hdr_size s1 = net_eth_hdr_size st"
    by (simp_all add: fun_eq_iff s1_def eth_header_def type_field_def tagged_def net_eth_hdr_size_def)
  have r: "arp_request st = arp_raw_request (net_ip st) net_null_ethaddr (net_ip b) s1"
    using assms(6,7) by (simp add: arp_request_def s1_def Let_def)
  have "46 \<le> length (arp_tx_packet s1)" "length (net_ethaddr s1) = 6" "sent s1 = sent st" "net_ethaddr s1 = ?ea"
    using assms(2,3) by (simp_all add: s1_def)
  then obtain R where a1: "arp_request st = Some (s1\<lparr>arp_tx_packet := R, sent := sent st @ [?req]\<rparr>)"
    using arp_raw_request_frame[of s1 net_null_ethaddr "net_ip st" "net_ip b"] l(3) unfolding r h by auto
  define a1 where "a1 = s1\<lparr>arp_tx_packet := R, sent := sent st @ [?req]\<rparr>"
  have "deliver ?req p1 b = map_option (\<lambda>st. (st, None)) (arp_receive (?req @ p1) (net_eth_hdr_size st)
      (int (length (arp_body 1 ?ea (net_ip st) net_null_ethaddr (net_ip b) @ p1))) b)"
    unfolding deliver_def append_assoc by (subst receive_frame) (use assms l in simp_all)
  also have "\<dots> = Some (b\<lparr>sent := sent b @ [?rep]\<rparr>, None)"
    using arp_receive_body[of ?ea net_null_ethaddr b "int (28 + length p1)" "net_eth_hdr_size st" "eth_header st net_bcast_ethaddr ?ea PROT_ARP" 1 "net_ip st" "net_ip b" p1]
      arp_answer_frame[of net_bcast_ethaddr ?ea net_null_ethaddr ?ea b st "net_ip st" "net_ip b" p1] assms l by simp
  finally have d1: "deliver ?req p1 b = Some (b\<lparr>sent := sent b @ [?rep]\<rparr>, None)" .
  define a2 where "a2 = a1\<lparr>net_server_ethaddr := (if arp_wait_packet_ethaddr a1 = Some Server_ethaddr then ?eb else net_server_ethaddr a1),
      net_tx_packet := ?eb @ T @ U, sent := sent a1 @ [?eb @ T],
      net_arp_wait_packet_ip := 0, arp_wait_tx_packet_size := 0, arp_wait_packet_ethaddr := None\<rparr>"
  have "deliver ?rep p2 a1 = map_option (\<lambda>st. (st, None)) (arp_receive (?rep @ p2) (net_eth_hdr_size st)
      (int (length (arp_body 2 ?eb (net_ip b) ?ea (net_ip st) @ p2))) a1)"
    unfolding deliver_def append_assoc by (subst receive_frame) (use assms l in \<open>simp_all add: a1_def s1_def\<close>)
  also have "\<dots> = Some (a2, None)"
    using arp_receive_body[of ?eb ?ea a1 "int (28 + length p2)" "net_eth_hdr_size st" "eth_header st ?ea ?eb PROT_ARP" 2 "net_ip b" "net_ip st" p2]
      arp_reply_frame[of ?eb ?ea "net_eth_hdr_size st" "eth_header st ?ea ?eb PROT_ARP" a1 "net_ip b" dest T U "net_ip st" p2] assms l
    by (simp add: a1_def s1_def a2_def)
  finally have d2: "deliver ?rep p2 a1 = Some (a2, None)" .
  show ?thesis
    by (rule exI[of _ a1], rule exI[of _ ?req], rule exI[of _ ?rep], rule exI[of _ a2])
      (use a1 d1 d2 in \<open>simp add: a1_def a2_def s1_def\<close>)
qed

lemma ip_block_checksum: "block_checksum (ip_block len ident frag prot src dst) = 0"
proof -
  let ?X = "[0x45, 0] @ be16 len @ be16 ident @ be16 frag @ [255, prot]" and ?Y = "in_addr_bytes src @ in_addr_bytes dst"
  have h: "ip_header len ident frag prot c src dst = ?X @ le16 c @ ?Y" for c by (simp add: ip_header_def)
  have "le16 0 = [0, 0]" by (simp add: le16_def)
  then show ?thesis using block_checksum_stored[of ?X ?Y] unfolding ip_block_def h by simp
qed

lemma receive_ip_block:
  assumes "i = length A" "dst = net_ip b" "frag AND 0x3FFF = 0" "8 \<le> length B" "20 + length B \<le> 60000" "len \<le> 20 + length B"
  shows "receive_ip (A @ ip_block (word_of_nat len) ident frag prot src dst @ B) i (word_of_nat (20 + length B)) b =
    (let F = A @ ip_block (word_of_nat len) ident frag prot src dst @ B
     in if prot = 1 then map_option (\<lambda>st. (st, None)) (receive_icmp F i len b)
        else if prot \<noteq> 17 then Some (b, None)
        else do {
          udp_src \<leftarrow> get_be16 B 0; udp_dst \<leftarrow> get_be16 B 2; udp_len \<leftarrow> get_be16 B 4;
          Some (b, Some (Udp_call (i + 28) (ucast udp_dst) src (ucast udp_src) (ucast udp_len - 8)))
        })"
proof -
  let ?h = "ip_block (word_of_nat len) ident frag prot src dst"
  define F where "F = A @ ?h @ B"
  have L: "unat (word_of_nat len :: u16) = len" using assms(5,6) by (simp add: unat_of_nat take_bit_eq_mod)
  have ok: "ip_checksum_ok F i 20 = Some True"
    using compute_ip_checksum_block[of ?h A B] assms(1) by (simp add: ip_checksum_ok_def F_def ip_block_checksum)
  have f: "get_be16 F (i + 2) = Some (word_of_nat len)" "arr_get F i = Some 0x45" "net_read_ip F (i + 16) = Some dst"
    "net_read_ip F (i + 12) = Some src" "get_be16 F (i + 6) = Some frag" "arr_get F (i + 9) = Some prot"
    unfolding F_def assms(1) ip_block_def ip_header_def by (simp_all add: skip_simps head_simps del: arr_get_Some arr_get_in)
  have u: "get_be16 F (i + 20) = get_be16 B 0" "get_be16 F (i + 22) = get_be16 B 2" "get_be16 F (i + 24) = get_be16 B 4"
    unfolding F_def assms(1) by (simp_all add: skip_simps head_simps)
  have c: "\<not> (word_of_nat (20 + length B) :: u32) < word_of_nat 28" using assms(4,5) by (intro word_of_nat_not_less) simp_all
  have s: "\<not> sint (word_of_nat (20 + length B) :: u32) < uint (word_of_nat len :: u16)"
    using assms(5,6) L sint_word_of_nat[of "20 + length B"] by (simp add: uint_nat del: of_nat_add)
  have m: "(0x1FFF OR 0x2000 :: u16) = 0x3FFF" by simp
  have v: "\<not> ((0x45 :: u8) AND 0x0F > 5)" "(0x45 :: u8) AND 0xF0 = 0x40" by simp_all
  show ?thesis
    unfolding F_def[symmetric] receive_ip_def size_defs if_not_P[OF c]
    by (simp only: f u ok bind.bind_lunit Let_def if_not_P[OF s] L v m assms(2,3)) simp
qed


lemma sent_irrelevant:
  "eth_header (b\<lparr>sent := s\<rparr>) = eth_header b" "net_eth_hdr_size (b\<lparr>sent := s\<rparr>) = net_eth_hdr_size b"
  by (simp_all add: fun_eq_iff eth_header_def type_field_def tagged_def net_eth_hdr_size_def)

text \<open>The transmit buffer cut into the room for the headers, the payload and the rest\<close>

lemma tx_parts:
  assumes "host_ok a" "len \<le> 1480"
  shows "\<exists>X Z. drop (net_eth_hdr_size a) (net_tx_packet a) = X @ slice (net_tx_packet a) (net_eth_hdr_size a + 28) len @ Z \<and>
    length X = 28 \<and> length (slice (net_tx_packet a) (net_eth_hdr_size a + 28) len) = len \<and> Z \<noteq> []"
proof -
  let ?n = "net_eth_hdr_size a" and ?t = "net_tx_packet a"
  have n: "?n \<le> 18" "length ?t = 1536" using eth_hdr_size_bound[of a] assms(1) by (simp_all add: host_ok_def)
  have "drop ?n ?t = take 28 (drop ?n ?t) @ take len (drop (?n + 28) ?t) @ drop (?n + 28 + len) ?t"
    using append_take_drop_id[of 28 "drop ?n ?t"] append_take_drop_id[of len "drop (?n + 28) ?t"] by (simp add: add.commute add.left_commute)
  moreover have "drop (?n + 28 + len) ?t \<noteq> []" using n assms(2) by simp
  ultimately show ?thesis using n assms(2)
    by (intro exI[of _ "take 28 (drop ?n ?t)"] exI[of _ "drop (?n + 28 + len) ?t"]) (auto simp: slice_def)
qed

lemma deliver_udp:
  assumes "length dest = 6" "length src = 6" "net_our_vlan b = net_our_vlan a" "length P = len" "len \<le> 1480" "length pad \<le> 1000"
    "dport < 65536" "sport < 65536"
  shows "deliver (eth_header a dest src PROT_IP @ ip_block (word_of_nat (28 + len)) ident 0x4000 17 ipa (net_ip b) @
      udp_header (ucast sport) (ucast dport) (word_of_nat (8 + len)) @ P) pad b =
    Some (b, Some (Udp_call (net_eth_hdr_size a + 28) dport ipa sport (word_of_nat len)))"
proof -
  let ?B = "udp_header (ucast sport) (ucast dport) (word_of_nat (8 + len)) @ P @ pad"
  let ?A = "eth_header a dest src PROT_IP" and ?ip = "ip_block (word_of_nat (28 + len)) ident 0x4000 17 ipa (net_ip b)"
  have u: "ucast (ucast p :: u16) = p" if "p < 65536" for p :: u32
  proof -
    have "unat p < 65536" using that by (simp add: word_less_nat_alt)
    then show ?thesis by (intro word_unat_eq_iff[THEN iffD2]) (simp add: unat_ucast_mod)
  qed
  have l: "(ucast (word_of_nat (8 + len) :: u16) - 8 :: u32) = word_of_nat len"
  proof -
    have "unat (word_of_nat (8 + len) :: u16) = 8 + len"
      using assms(5) by (simp only: unat_of_nat take_bit_eq_mod) simp
    then have "(ucast (word_of_nat (8 + len) :: u16) :: u32) = word_of_nat (8 + len)" by (metis of_nat_unat)
    then show ?thesis by simp
  qed
  have "deliver (?A @ ?ip @ udp_header (ucast sport) (ucast dport) (word_of_nat (8 + len)) @ P) pad b =
      receive_ip (?A @ ?ip @ ?B) (net_eth_hdr_size a) (word_of_nat (20 + length ?B)) b"
    unfolding deliver_def append_assoc by (subst receive_frame) (use assms prot_values in simp_all)
  also have "\<dots> = Some (b, Some (Udp_call (net_eth_hdr_size a + 28) (ucast (ucast dport :: u16)) ipa (ucast (ucast sport :: u16)) (word_of_nat len)))"
    by (subst receive_ip_block) (use assms l in \<open>simp_all add: Let_def udp_header_def head_simps\<close>)
  finally show ?thesis using u assms(7,8) by simp
qed

lemma net_send_udp_packet_waits:
  assumes "host_ok a" "dest \<noteq> 0" "dest \<noteq> 0xFFFFFFFF" "net_server_ethaddr a = net_null_ethaddr" "len \<le> 1480"
  shows "\<exists>U. net_send_udp_packet Server_ethaddr dest dport sport len now a = map_option (Pair 1) (arp_request (a\<lparr>net_ip_id := net_ip_id a + 1,
    net_tx_packet := net_null_ethaddr @ (net_ethaddr a @ type_field a PROT_IP @ ip_block (word_of_nat (28 + len)) (ucast (net_ip_id a)) 0x4000 17 (net_ip a) dest @
      udp_header (ucast sport) (ucast dport) (word_of_nat (8 + len)) @ slice (net_tx_packet a) (net_eth_hdr_size a + 28) len) @ U,
    net_arp_wait_packet_ip := dest, arp_wait_packet_ethaddr := Some Server_ethaddr,
    arp_wait_tx_packet_size := net_eth_hdr_size a + 28 + len, arp_wait_try := 1, arp_wait_timer_start := now\<rparr>))"
proof -
  let ?n = "net_eth_hdr_size a" and ?P = "slice (net_tx_packet a) (net_eth_hdr_size a + 28) len"
  obtain X Z where X: "drop ?n (net_tx_packet a) = X @ ?P @ Z" "length X = 28" "length ?P = len" "Z \<noteq> []"
    using tx_parts[OF assms(1,5)] by blast
  have ok: "length (net_ethaddr a) = 6" "18 \<le> length (net_tx_packet a)" "length net_null_ethaddr = 6"
    using assms(1) by (simp_all add: host_ok_def net_null_ethaddr_def)
  let ?A = "eth_header a net_null_ethaddr (net_ethaddr a) PROT_IP"
  have e: "net_set_ether a (net_tx_packet a) net_null_ethaddr PROT_IP = Some (?n, ?A @ X @ ?P @ Z)"
    using net_set_ether_header[OF ok(3,1,2)] X(1) by simp
  have n: "?n = length ?A" using ok by simp
  note u = net_set_udp_header_block[OF n X(2-4), of dest dport sport a]
  define Z' where "Z' = (if odd len then 0 # tl Z else Z)"
  have "net_send_udp_packet Server_ethaddr dest dport sport len now a = map_option (Pair 1) (arp_request (a\<lparr>net_ip_id := net_ip_id a + 1,
    net_tx_packet := ?A @ ip_block (word_of_nat (28 + len)) (ucast (net_ip_id a)) 0x4000 17 (net_ip a) dest @
      udp_header (ucast sport) (ucast dport) (word_of_nat (8 + len)) @ ?P @ Z',
    net_arp_wait_packet_ip := dest, arp_wait_packet_ethaddr := Some Server_ethaddr,
    arp_wait_tx_packet_size := ?n + 28 + len, arp_wait_try := 1, arp_wait_timer_start := now\<rparr>))"
    unfolding net_send_udp_packet_def using assms(2-4) ok(3) by (simp add: Let_def e u IP_UDP_HDR_SIZE_def Z'_def)
  then show ?thesis by (intro exI[of _ Z']) (simp add: eth_header_def)
qed


section \<open>What is not checked\<close>

text \<open>\<open>ip_checksum_ok\<close> masks the checksum with 0xfffe, so a header whose checksum is wrong by one is accepted.\<close>

lemma ip_checksum_off_by_one: "compute_ip_checksum [0xFE, 0xFF] 0 2 = Some 1 \<and> ip_checksum_ok [0xFE, 0xFF] 0 2 = Some True"
  by code_simp

text \<open>The length field of the UDP header is compared neither with the length of the packet nor with that of the header.
  With a value below 8 the length that the handler gets is close to \<open>2 ^ 32\<close>.\<close>

lemma udp_length_unchecked:
  assumes "length dest = 6" "length src = 6" "net_our_vlan b = net_our_vlan a"
  shows "deliver (eth_header a dest src PROT_IP @ ip_block 28 ident 0x4000 17 ipa (net_ip b) @ udp_header sport dport 0) [] b =
    Some (b, Some (Udp_call (net_eth_hdr_size a + 28) (ucast dport) ipa (ucast sport) 0xFFFFFFF8))"
proof -
  let ?A = "eth_header a dest src PROT_IP" and ?B = "udp_header sport dport 0" and ?ip = "ip_block 28 ident 0x4000 17 ipa (net_ip b)"
  have "deliver (?A @ ?ip @ ?B) [] b = receive_ip (?A @ ?ip @ ?B) (net_eth_hdr_size a) (word_of_nat (20 + length ?B)) b"
    unfolding deliver_def append_Nil2 by (subst receive_frame) (use assms prot_values in simp_all)
  also have "\<dots> = Some (b, Some (Udp_call (net_eth_hdr_size a + 28) (ucast dport) ipa (ucast sport) 0xFFFFFFF8))"
    using receive_ip_block[of "net_eth_hdr_size a" ?A "net_ip b" b "0x4000" ?B 28 ident 17 ipa] assms
    by (simp add: Let_def udp_header_def head_simps)
  finally show ?thesis .
qed

section \<open>Unanswered requests\<close>

text \<open>Checks of the ARP time-out at moments of which each finds the last request too old\<close>

fun arp_waits :: "u32 list \<Rightarrow> net \<Rightarrow> net option" where
  "arp_waits [] st = Some st"
| "arp_waits (t # ts) st = do { (r, st) \<leftarrow> arp_timeout_check t st; arp_waits ts st }"

fun each_late :: "u32 \<Rightarrow> u32 list \<Rightarrow> bool" where
  "each_late t0 [] \<longleftrightarrow> True"
| "each_late t0 (t # ts) \<longleftrightarrow> t - t0 > ARP_TIMEOUT \<and> each_late t ts"

definition arp_pending :: "net \<Rightarrow> bool" where
  "arp_pending st \<longleftrightarrow> length (net_ethaddr st) = 6 \<and> 46 \<le> length (arp_tx_packet st) \<and> net_arp_wait_packet_ip st \<noteq> 0"

lemma arp_timeout_resends:
  assumes "arp_pending st" "t - arp_wait_timer_start st > ARP_TIMEOUT" "arp_wait_try st + 1 < ARP_TIMEOUT_COUNT"
  shows "\<exists>st' req. arp_timeout_check t st = Some (1, st') \<and> arp_pending st' \<and> sent st' = sent st @ [req] \<and>
    arp_wait_try st' = arp_wait_try st + 1 \<and> arp_wait_timer_start st' = t \<and> net_state st' = net_state st"
proof -
  define r where "r = (if net_arp_wait_packet_ip st AND net_netmask st \<noteq> net_ip st AND net_netmask st then
    (if net_gateway st = 0 then net_arp_wait_packet_ip st else net_gateway st) else net_arp_wait_packet_ip st)"
  define s where "s = st\<lparr>arp_wait_try := arp_wait_try st + 1, arp_wait_timer_start := t, net_arp_wait_reply_ip := r\<rparr>"
  let ?h = "eth_header s net_bcast_ethaddr (net_ethaddr s) PROT_ARP" and ?b = "arp_body 1 (net_ethaddr s) (net_ip s) net_null_ethaddr r"
  let ?p = "?h @ ?b @ drop (net_eth_hdr_size s + 28) (arp_tx_packet s)"
  have s: "length (net_ethaddr s) = 6" "length net_null_ethaddr = 6" "46 \<le> length (arp_tx_packet s)" "net_arp_wait_packet_ip s \<noteq> 0"
    using assms(1) by (simp_all add: s_def arp_pending_def net_null_ethaddr_def)
  have "arp_timeout_check t st = map_option (Pair 1) (arp_raw_request (net_ip s) net_null_ethaddr r s)"
    using assms by (simp add: arp_timeout_check_def arp_request_def arp_pending_def Let_def s_def r_def)
  also have "\<dots> = Some (1, s\<lparr>arp_tx_packet := ?p, sent := sent s @ [?h @ ?b]\<rparr>)"
    by (simp add: arp_raw_request_frame[OF s(1-3)])
  finally have c: "arp_timeout_check t st = Some (1, s\<lparr>arp_tx_packet := ?p, sent := sent s @ [?h @ ?b]\<rparr>)" .
  have "length ?p = length (arp_tx_packet s)"
    using s eth_hdr_size_bound[of s] by (simp add: net_bcast_ethaddr_def)
  then have "arp_pending (s\<lparr>arp_tx_packet := ?p, sent := sent s @ [?h @ ?b]\<rparr>)" using s by (simp add: arp_pending_def)
  then show ?thesis using c by (intro exI[of _ "s\<lparr>arp_tx_packet := ?p, sent := sent s @ [?h @ ?b]\<rparr>"] exI[of _ "?h @ ?b"]) (simp add: s_def)
qed

lemma arp_waits_resend:
  assumes "arp_pending st" "each_late (arp_wait_timer_start st) ts" "arp_wait_try st + length ts < ARP_TIMEOUT_COUNT"
  shows "\<exists>st' reqs. arp_waits ts st = Some st' \<and> arp_pending st' \<and> sent st' = sent st @ reqs \<and> length reqs = length ts \<and>
    arp_wait_try st' = arp_wait_try st + length ts \<and> arp_wait_timer_start st' = last (arp_wait_timer_start st # ts) \<and> net_state st' = net_state st"
  using assms
proof (induction ts arbitrary: st)
  case (Cons t ts)
  obtain s req where s: "arp_timeout_check t st = Some (1, s)" "arp_pending s" "sent s = sent st @ [req]"
    "arp_wait_try s = arp_wait_try st + 1" "arp_wait_timer_start s = t" "net_state s = net_state st"
    using arp_timeout_resends[of st t] Cons.prems by auto
  obtain s' reqs where "arp_waits ts s = Some s'" "arp_pending s'" "sent s' = sent s @ reqs" "length reqs = length ts"
    "arp_wait_try s' = arp_wait_try s + length ts" "arp_wait_timer_start s' = last (arp_wait_timer_start s # ts)" "net_state s' = net_state s"
    using Cons.IH[of s] Cons.prems s by auto
  then show ?case using s by (intro exI[of _ s'] exI[of _ "req # reqs"]) simp
qed auto

text \<open>A request that is never answered is repeated eight times, and the ninth time-out ends the attempt.\<close>

lemma arp_gives_up:
  assumes "arp_pending st" "arp_wait_try st = 1" "each_late (arp_wait_timer_start st) (ts @ [t])" "length ts = 8"
  shows "\<exists>st' reqs. arp_waits (ts @ [t]) st = Some st' \<and> sent st' = sent st @ reqs \<and> length reqs = 8 \<and> net_state st' = NETLOOP_FAIL"
proof -
  have late: "each_late t0 (xs @ [x]) \<longleftrightarrow> each_late t0 xs \<and> x - last (t0 # xs) > ARP_TIMEOUT" for t0 x xs
    by (induction xs arbitrary: t0) auto
  have app: "arp_waits (xs @ ys) s = arp_waits xs s \<bind> arp_waits ys" for xs ys s
    by (induction xs arbitrary: s) (auto split: bind_splits)
  obtain s reqs where s: "arp_waits ts st = Some s" "arp_pending s" "sent s = sent st @ reqs" "length reqs = 8"
    "arp_wait_try s = 9" "arp_wait_timer_start s = last (arp_wait_timer_start st # ts)"
    using arp_waits_resend[of st ts] assms late by (auto simp: ARP_TIMEOUT_COUNT_def)
  have "t - arp_wait_timer_start s > ARP_TIMEOUT" using assms(3) late s(6) by simp
  then have "arp_timeout_check t s = Some (1, net_set_state NETLOOP_FAIL (s\<lparr>arp_wait_try := 0\<rparr>))"
    using s(2,5) by (simp add: arp_timeout_check_def arp_pending_def ARP_TIMEOUT_COUNT_def)
  then show ?thesis using s app by (simp add: net_set_state_def)
qed

section \<open>Two hosts\<close>

definition same_lan :: "net \<Rightarrow> net \<Rightarrow> bool" where
  "same_lan a b \<longleftrightarrow> host_ok a \<and> host_ok b \<and> net_our_vlan b = net_our_vlan a \<and> net_ip b AND net_netmask a = net_ip a AND net_netmask a"

lemma ping_send_waits:
  assumes "host_ok a"
  shows "\<exists>U. ping_send now a = arp_request (a\<lparr>net_arp_wait_packet_ip := net_ping_ip a, net_ip_id := net_ip_id a + 1, ping_seq_number := ping_seq_number a + 1,
    net_tx_packet := net_null_ethaddr @ (net_ethaddr a @ type_field a PROT_IP @
      ip_block 28 (ucast (net_ip_id a)) 0x4000 1 (net_ip a) (net_ping_ip a) @ icmp_block 8 (ping_seq_number a)) @ U,
    arp_wait_tx_packet_size := net_eth_hdr_size a + 28, arp_wait_try := 1, arp_wait_timer_start := now\<rparr>)"
proof -
  let ?n = "net_eth_hdr_size a"
  obtain X Z where X: "drop ?n (net_tx_packet a) = X @ Z" "length X = 28"
    using tx_parts[OF assms, of 0] by (auto simp: slice_def)
  define a' where "a' = a\<lparr>net_arp_wait_packet_ip := net_ping_ip a\<rparr>"
  have h: "eth_header a' = eth_header a" "net_eth_hdr_size a' = net_eth_hdr_size a" "net_tx_packet a' = net_tx_packet a"
    "net_ethaddr a' = net_ethaddr a" "net_ip_id a' = net_ip_id a" "net_ip a' = net_ip a" "ping_seq_number a' = ping_seq_number a"
    "net_ping_ip a' = net_ping_ip a"
    by (simp_all add: fun_eq_iff a'_def eth_header_def type_field_def tagged_def net_eth_hdr_size_def)
  have ok: "length (net_ethaddr a') = 6" "18 \<le> length (net_tx_packet a')" "length net_null_ethaddr = 6"
    using assms(1) by (simp_all add: host_ok_def net_null_ethaddr_def h)
  let ?A = "eth_header a net_null_ethaddr (net_ethaddr a) PROT_IP"
  have e: "net_set_ether a' (net_tx_packet a') net_null_ethaddr PROT_IP = Some (?n, ?A @ X @ Z)"
    using net_set_ether_header[OF ok(3,1,2)] X(1) by (simp add: h)
  have n: "?n = length ?A" using ok by (simp add: h)
  note u = set_icmp_header_block[OF n X(2), of Z "net_ping_ip a" a', unfolded h]
  have "ping_send now a = arp_request (a'\<lparr>net_ip_id := net_ip_id a + 1, ping_seq_number := ping_seq_number a + 1,
    net_tx_packet := ?A @ ip_block 28 (ucast (net_ip_id a)) 0x4000 1 (net_ip a) (net_ping_ip a) @ icmp_block 8 (ping_seq_number a) @ Z,
    arp_wait_tx_packet_size := ?n + 28, arp_wait_try := 1, arp_wait_timer_start := now\<rparr>)"
    unfolding ping_send_def a'_def[symmetric] Let_def e using u by (simp add: h IP_HDR_SIZE_def ICMP_HDR_SIZE_def)
  then show ?thesis by (intro exI[of _ Z]) (simp add: eth_header_def a'_def)
qed

lemma ping_receive_request:
  assumes "length dest = 6" "length src = 6" "length (net_ethaddr b) = 6"
  shows "ping_receive (eth_header a dest src PROT_IP @ ip_block 28 ident frag 1 ipa ipb @ icmp_block 8 seqno @ Z) (net_eth_hdr_size a) 28 b =
    Some (b\<lparr>sent := sent b @ [eth_header a src (net_ethaddr b) PROT_IP @ ip_block 28 ident 0 1 (net_ip b) ipa @ icmp_block 0 seqno]\<rparr>)"
proof -
  define A n where "A = eth_header a src (net_ethaddr b) PROT_IP" and "n = length A"
  define c d where "c = block_checksum (ip_header 28 ident frag 1 0 ipa ipb)" and "d = block_checksum (icmp_echo 8 0 seqno)"
  define F where "F = eth_header a dest src PROT_IP @ ip_block 28 ident frag 1 ipa ipb @ icmp_block 8 seqno @ Z"
  have n: "net_eth_hdr_size a = n" using assms by (simp add: n_def A_def)
  have src: "get_bytes F 6 6 = Some src"
    using assms(1,2) get_bytes_all[of src] by (simp add: F_def eth_header_def head_simps)
  have u: "net_update_ether b F src PROT_IP = Some (n, A @ ip_header 28 ident frag 1 c ipa ipb @ icmp_echo 8 d seqno @ Z)"
    unfolding F_def A_def n[symmetric] c_def d_def ip_block_def[symmetric] icmp_block_def[symmetric]
    using assms prot_values by (intro net_update_ether_frame) auto
  have t: "arr_get F (n + 20) = Some 8"
    unfolding F_def n[symmetric] using assms by (simp add: head_simps icmp_block_def icmp_echo_def del: arr_get_Some arr_get_in)
  have z: "le16 0 = [0, 0]" "be16 0 = [0, 0]" by (simp_all add: le16_def be16_def)
  have h1: "(do { et \<leftarrow> put_bytes (A @ ip_header 28 ident frag 1 c ipa ipb @ R) (n + 10) [0, 0]; et \<leftarrow> put_bytes et (n + 6) [0, 0];
      ip_src \<leftarrow> get_bytes et (n + 12) 4; et \<leftarrow> put_bytes et (n + 16) ip_src; put_bytes et (n + 12) (in_addr_bytes (net_ip b)) }) =
      Some (A @ ip_header 28 ident 0 1 0 (net_ip b) ipa @ R)" for R
    unfolding n_def ip_header_def z by (simp add: skip_simps be16_def le16_def in_addr_bytes_def)
  have c1: "compute_ip_checksum (A @ ip_header 28 ident 0 1 0 (net_ip b) ipa @ R) n 20 =
      Some (ucast (block_checksum (ip_header 28 ident 0 1 0 (net_ip b) ipa)))" for R
    using compute_ip_checksum_block[of "ip_header 28 ident 0 1 0 (net_ip b) ipa" A R] by (simp add: n_def)
  have h2: "put_bytes (A @ ip_header 28 ident 0 1 0 (net_ip b) ipa @ R) (n + 10) (le16 v) = Some (A @ ip_header 28 ident 0 1 v (net_ip b) ipa @ R)" for R v
    unfolding n_def ip_header_def z by (simp add: skip_simps be16_def le16_def in_addr_bytes_def)
  have h3: "(do { et \<leftarrow> put_bytes (A @ ip_block 28 ident 0 1 (net_ip b) ipa @ icmp_echo 8 d seqno @ Z) (n + 20) [0]; put_bytes et (n + 22) [0, 0] }) =
      Some (A @ ip_block 28 ident 0 1 (net_ip b) ipa @ icmp_echo 0 0 seqno @ Z)"
    unfolding n_def by (simp add: skip_simps head_simps icmp_echo_def le16_def)
  have c2: "compute_ip_checksum (A @ ip_block 28 ident 0 1 (net_ip b) ipa @ icmp_echo 0 0 seqno @ Z) (n + 20) 8 =
      Some (ucast (block_checksum (icmp_echo 0 0 seqno)))"
    using compute_ip_checksum_block[of "icmp_echo 0 0 seqno" "A @ ip_block 28 ident 0 1 (net_ip b) ipa" Z] by (simp add: n_def)
  have h4: "put_bytes (A @ ip_block 28 ident 0 1 (net_ip b) ipa @ icmp_echo 0 0 seqno @ Z) (n + 22) (le16 v) =
      Some (A @ ip_block 28 ident 0 1 (net_ip b) ipa @ icmp_echo 0 v seqno @ Z)" for v
    unfolding n_def by (simp add: skip_simps head_simps icmp_echo_def le16_def)
  have g: "get_bytes (A @ ip_block 28 ident 0 1 (net_ip b) ipa @ icmp_block 0 seqno @ Z) 0 (n + 28) =
      Some (A @ ip_block 28 ident 0 1 (net_ip b) ipa @ icmp_block 0 seqno)"
    using get_bytes_all[of "A @ ip_block 28 ident 0 1 (net_ip b) ipa @ icmp_block 0 seqno" Z] by (simp add: n_def)
  have "ping_receive F n 28 b = (do {
      et \<leftarrow> (do { et \<leftarrow> put_bytes (A @ ip_header 28 ident frag 1 c ipa ipb @ icmp_echo 8 d seqno @ Z) (n + 10) [0, 0]; et \<leftarrow> put_bytes et (n + 6) [0, 0];
        ip_src \<leftarrow> get_bytes et (n + 12) 4; et \<leftarrow> put_bytes et (n + 16) ip_src; put_bytes et (n + 12) (in_addr_bytes (net_ip b)) });
      csum \<leftarrow> compute_ip_checksum et n 20; et \<leftarrow> put_bytes et (n + 10) (le16 (ucast csum));
      et \<leftarrow> (do { et \<leftarrow> put_bytes et (n + 20) [0]; put_bytes et (n + 22) [0, 0] });
      csum \<leftarrow> compute_ip_checksum et (n + 20) 8; et \<leftarrow> put_bytes et (n + 22) (le16 (ucast csum)); net_send_packet et (n + 28) b })"
    unfolding ping_receive_def t src bind.bind_lunit u by (simp add: IP_HDR_SIZE_def)
  also have "\<dots> = Some (b\<lparr>sent := sent b @ [A @ ip_block 28 ident 0 1 (net_ip b) ipa @ icmp_block 0 seqno]\<rparr>)"
    by (simp only: h1 h2 h4 c1 bind.bind_lunit ucast_ucast_16_32 ip_block_def[symmetric] h3 c2 icmp_block_def[symmetric] net_send_packet_def g)
  finally show ?thesis unfolding F_def n A_def .
qed


text \<open>C12: A datagram that a host sends to a peer on its network arrives, even when the hardware address of the peer is not
  known. \<open>net_send_udp_packet\<close> then broadcasts an ARP request and returns 1; the peer answers the request; the answer makes the
  first host store the address and send the datagram that has waited; and the peer hands exactly the
  payload, with the right ports and the sender's address, to its UDP handler. All buffers are accessed
  in bounds, every frame may be padded, and the hosts may be on a tagged VLAN.\<close>

theorem udp_reaches_peer:
  assumes "same_lan a b" "net_server_ethaddr a = net_null_ethaddr" "len \<le> 1480" "dport < 65536" "sport < 65536"
    "length p1 \<le> 1000" "length p2 \<le> 1000" "length p3 \<le> 1000"
  shows "\<exists>a1 req rep a2 frame. net_send_udp_packet Server_ethaddr (net_ip b) dport sport len now a = Some (1, a1) \<and>
    sent a1 = sent a @ [req] \<and> deliver req p1 b = Some (b\<lparr>sent := sent b @ [rep]\<rparr>, None) \<and>
    deliver rep p2 a1 = Some (a2, None) \<and> sent a2 = sent a1 @ [frame] \<and> net_server_ethaddr a2 = net_ethaddr b \<and>
    net_arp_wait_packet_ip a2 = 0 \<and>
    deliver frame p3 b = Some (b, Some (Udp_call (net_eth_hdr_size b + 28) dport (net_ip a) sport (word_of_nat len))) \<and>
    slice frame (net_eth_hdr_size b + 28) len = slice (net_tx_packet a) (net_eth_hdr_size a + 28) len"
proof -
  let ?P = "slice (net_tx_packet a) (net_eth_hdr_size a + 28) len" and ?n = "net_eth_hdr_size a"
  have ok: "host_ok a" "host_ok b" "net_our_vlan b = net_our_vlan a" "net_ip b AND net_netmask a = net_ip a AND net_netmask a"
    using assms(1) by (simp_all add: same_lan_def)
  have l: "length (net_ethaddr a) = 6" "length (net_ethaddr b) = 6" "length (arp_tx_packet a) = 1536" "net_ip a \<noteq> 0" "net_ip b \<noteq> 0"
    "net_ip b \<noteq> 0xFFFFFFFF" "length net_null_ethaddr = 6" using ok by (simp_all add: host_ok_def net_null_ethaddr_def)
  have P: "length ?P = len" using tx_parts[OF ok(1) assms(3)] by blast
  have n: "net_eth_hdr_size b = ?n" using ok(3) by (simp add: net_eth_hdr_size_def)
  let ?T = "net_ethaddr a @ type_field a PROT_IP @ ip_block (word_of_nat (28 + len)) (ucast (net_ip_id a)) 0x4000 17 (net_ip a) (net_ip b) @
      udp_header (ucast sport) (ucast dport) (word_of_nat (8 + len)) @ ?P"
  have f: "net_ethaddr b @ ?T = eth_header a (net_ethaddr b) (net_ethaddr a) PROT_IP @
      ip_block (word_of_nat (28 + len)) (ucast (net_ip_id a)) 0x4000 17 (net_ip a) (net_ip b) @
      udp_header (ucast sport) (ucast dport) (word_of_nat (8 + len)) @ ?P" by (simp add: eth_header_def)
  have sz: "?n + 28 + len = 6 + length ?T"
    using l P by (simp add: net_eth_hdr_size_def tagged_def size_defs)
  obtain U where U: "net_send_udp_packet Server_ethaddr (net_ip b) dport sport len now a = map_option (Pair 1) (arp_request (a\<lparr>net_ip_id := net_ip_id a + 1,
    net_tx_packet := net_null_ethaddr @ ?T @ U, net_arp_wait_packet_ip := net_ip b, arp_wait_packet_ethaddr := Some Server_ethaddr,
    arp_wait_tx_packet_size := ?n + 28 + len, arp_wait_try := 1, arp_wait_timer_start := now\<rparr>))"
    using net_send_udp_packet_waits[OF ok(1) l(5,6) assms(2,3)] by blast
  define s where "s = a\<lparr>net_ip_id := net_ip_id a + 1, net_tx_packet := net_null_ethaddr @ ?T @ U, net_arp_wait_packet_ip := net_ip b,
    arp_wait_packet_ethaddr := Some Server_ethaddr, arp_wait_tx_packet_size := ?n + 28 + len, arp_wait_try := 1, arp_wait_timer_start := now\<rparr>"
  have sf: "length (net_ethaddr s) = 6" "length (arp_tx_packet s) = 1536" "net_ip s \<noteq> 0" "net_our_vlan b = net_our_vlan s"
    "net_arp_wait_packet_ip s = net_ip b" "net_ip b AND net_netmask s = net_ip s AND net_netmask s"
    "net_tx_packet s = net_null_ethaddr @ ?T @ U" "length net_null_ethaddr = 6" "arp_wait_tx_packet_size s = 6 + length ?T"
    unfolding sz[symmetric] using ok l by (simp_all add: s_def)
  obtain a1 req rep a2 where e: "arp_request s = Some a1" "sent a1 = sent s @ [req]" "deliver req p1 b = Some (b\<lparr>sent := sent b @ [rep]\<rparr>, None)"
    "deliver rep p2 a1 = Some (a2, None)" "sent a2 = sent a1 @ [net_ethaddr b @ ?T]" "net_arp_wait_packet_ip a2 = 0"
    "net_server_ethaddr a2 = net_ethaddr b"
    using arp_exchange[OF ok(2) sf assms(6,7)] by (auto simp: s_def)
  have d: "deliver (net_ethaddr b @ ?T) p3 b = Some (b, Some (Udp_call (?n + 28) dport (net_ip a) sport (word_of_nat len)))"
    unfolding f using assms(3-5,8) l ok(3) P by (intro deliver_udp) auto
  have "slice (net_ethaddr b @ ?T) (?n + 28) len = ?P"
    unfolding f using l P by (simp add: slice_def)
  then show ?thesis using U e d n
    by (intro exI[of _ a1] exI[of _ req] exI[of _ rep] exI[of _ a2] exI[of _ "net_ethaddr b @ ?T"]) (simp add: s_def)
qed


definition sample_host :: "u8 \<Rightarrow> net" where
  "sample_host k = \<lparr>net_ip = word32_of_bytes 192 168 1 k, net_netmask = word32_of_bytes 255 255 255 0, net_gateway = 0,
     net_ethaddr = [2, 0, 0, 0, 0, k], net_server_ethaddr = replicate 6 0, net_our_vlan = 0xFFFF, net_native_vlan = 0xFFFF,
     net_ip_id = 7, net_tx_packet = replicate 1536 k, arp_tx_packet = replicate 1536 0, net_arp_wait_packet_ip = 0,
     net_arp_wait_reply_ip = 0, arp_wait_packet_ethaddr = None, arp_wait_tx_packet_size = 0, arp_wait_timer_start = 0,
     arp_wait_try = 0, ping_seq_number = 0, net_ping_ip = word32_of_bytes 192 168 1 2, net_state = NETLOOP_CONTINUE, sent = []\<rparr>"

lemma sample_hosts: "same_lan (sample_host 1) (sample_host 2)"
  by (simp add: same_lan_def host_ok_def sample_host_def word32_of_bytes_def)

theorem udp_reaches_peer_witness:
  "\<exists>a1 req rep a2 frame. net_send_udp_packet Server_ethaddr (net_ip (sample_host 2)) 69 1500 5 0 (sample_host 1) = Some (1, a1) \<and>
    sent a1 = [req] \<and> deliver req [] (sample_host 2) = Some ((sample_host 2)\<lparr>sent := [rep]\<rparr>, None) \<and>
    deliver rep [] a1 = Some (a2, None) \<and> sent a2 = [req, frame] \<and>
    deliver frame [0, 0] (sample_host 2) =
      Some (sample_host 2, Some (Udp_call (net_eth_hdr_size (sample_host 2) + 28) 69 (net_ip (sample_host 1)) 1500 5))"
proof -
  have "net_server_ethaddr (sample_host 1) = net_null_ethaddr" "sent (sample_host 1) = []" "sent (sample_host 2) = []"
    by (simp_all add: sample_host_def net_null_ethaddr_def)
  then show ?thesis using udp_reaches_peer[of "sample_host 1" "sample_host 2" 5 69 1500 "[]" "[]" "[0, 0]" 0, OF sample_hosts] by fastforce
qed


end
