(* ===== verification/Tftp.thy ===== *)
theory Tftp
  imports Net Vsprintf
begin

text \<open>
  The TFTP client, net/tftp.c, in the configuration of the board (reading files only; no multicast, no
  direct writes to flash, no size option), and the parts of net/net.c that it drives: the state of the
  network loop, its time-out handler and its restarts. The statics of the two files are one record.
  Received packets are byte lists, from the TFTP header to the end of the receive buffer; \<open>None\<close> is a
  read behind that. RAM is a function from addresses to bytes. The calls of \<open>net_send_udp_packet\<close>
  (theory Net) are kept in the list \<open>datagrams\<close>. \<open>tftp_start\<close> also clears \<open>net_server_ethaddr\<close>, which is a field
  of the record in Net, so that the first datagram is preceded by an ARP request. Progress output is left
  out.
\<close>

section \<open>Model\<close>

subsection \<open>State\<close>

datatype tftp_phase = STATE_SEND_RRQ | STATE_DATA | STATE_TOO_LARGE | STATE_BAD_MAGIC | STATE_OACK | STATE_RECV_WRQ | STATE_SEND_WRQ

datatype thand = Tftp_timeout_handler | Start_again_timeout_handler

datatype rxhand = Dummy_handler | Tftp_handler

record datagram =
  d_ip :: u32
  d_dport :: u32
  d_sport :: u32
  d_payload :: "u8 list"

record tftp =
  tftp_remote_ip :: u32
  tftp_remote_port :: u32
  tftp_our_port :: u32
  timeout_ms :: u32
  timeout_count :: int
  timeout_count_max :: int
  tftp_timeout_count_max :: int
  tftp_cur_block :: u32
  tftp_prev_block :: u32
  tftp_block_wrap :: u32
  tftp_block_wrap_offset :: u32
  tftp_state :: tftp_phase
  tftp_filename :: "u8 list"
  tftp_block_size :: u16
  tftp_block_size_option :: u16
  loop_state :: net_loop_state
  net_boot_file_size :: u32
  net_try_count :: u32
  net_dev_exists :: bool
  udp_packet_handler :: rxhand
  time_handler :: "thand option"
  time_start :: u32
  time_delta :: u32
  load_addr :: u32
  ram :: "u32 \<Rightarrow> u8"
  datagrams :: "datagram list"

text \<open>What the code asks of its surroundings: the environment, the time in milliseconds, whether
  \<open>eth_try_another\<close> has come back to the first device, and the addresses of this host and its server\<close>

record surroundings =
  env_value :: "u8 list \<Rightarrow> u8 list option"
  now_ms :: u32
  restart_wrap :: bool
  our_ip :: u32
  server_ip :: u32
  boot_file_name :: "u8 list"

definition TIMEOUT :: u32 where "TIMEOUT = 5000"
definition WELL_KNOWN_PORT :: u32 where "WELL_KNOWN_PORT = 69"
definition TFTP_BLOCK_SIZE :: u16 where "TFTP_BLOCK_SIZE = 512"
definition TFTP_SEQUENCE_SIZE :: u32 where "TFTP_SEQUENCE_SIZE = 65536"
definition TFTP_MAX_LEN :: nat where "TFTP_MAX_LEN = 128"

definition TFTP_RRQ :: u16 where "TFTP_RRQ = 1"
definition TFTP_DATA :: u16 where "TFTP_DATA = 3"
definition TFTP_ACK :: u16 where "TFTP_ACK = 4"
definition TFTP_ERROR :: u16 where "TFTP_ERROR = 5"
definition TFTP_OACK :: u16 where "TFTP_OACK = 6"

subsection \<open>The network loop\<close>

definition set_loop_state :: "net_loop_state \<Rightarrow> tftp \<Rightarrow> tftp" where
  "set_loop_state s st = st\<lparr>loop_state := s\<rparr>"

definition net_set_timeout_handler :: "surroundings \<Rightarrow> u32 \<Rightarrow> thand \<Rightarrow> tftp \<Rightarrow> tftp" where
  "net_set_timeout_handler sys iv f st =
     (if iv = 0 then st\<lparr>time_handler := None\<rparr>
      else st\<lparr>time_handler := Some f, time_start := now_ms sys, time_delta := iv * 1000 div 1000\<rparr>)"

text \<open>The value of \<open>netretry\<close>: for ever, or the number of attempts\<close>

definition net_retries :: "u8 list option \<Rightarrow> (bool \<times> u32) option" where
  "net_retries nretry =
     (case nretry of
        None \<Rightarrow> Some (False, 0)
      | Some v \<Rightarrow>
          (if v = ascii ''yes'' then Some (True, 0)
           else if v = ascii ''no'' then Some (False, 0)
           else if v = ascii ''once'' then Some (False, 1)
           else do { (n, e) \<leftarrow> simple_strtoul (v @ [0]) 0 0; Some (False, n) }))"

definition net_start_again :: "surroundings \<Rightarrow> tftp \<Rightarrow> tftp option" where
  "net_start_again sys st = do {
     (retry_forever, retrycnt) \<leftarrow> net_retries (env_value sys (ascii ''netretry''));
     Some (if \<not> retry_forever \<and> net_try_count st \<ge> retrycnt then set_loop_state NETLOOP_FAIL st
       else let st = st\<lparr>net_try_count := net_try_count st + 1\<rparr>
         in if restart_wrap sys
            then (if net_dev_exists st
                  then (net_set_timeout_handler sys 10000 Start_again_timeout_handler st)\<lparr>udp_packet_handler := Dummy_handler\<rparr>
                  else set_loop_state NETLOOP_FAIL st)
            else set_loop_state NETLOOP_RESTART st)
   }"

subsection \<open>Transfer\<close>

definition write_ram :: "(u32 \<Rightarrow> u8) \<Rightarrow> u32 \<Rightarrow> u8 list \<Rightarrow> u32 \<Rightarrow> u8" where
  "write_ram m a bs = (\<lambda>x. if unat (x - a) < length bs then bs ! unat (x - a) else m x)"

text \<open>The data of the block begins at offset \<open>off\<close> of the packet.\<close>

definition store_block :: "u32 \<Rightarrow> mem \<Rightarrow> nat \<Rightarrow> u32 \<Rightarrow> tftp \<Rightarrow> tftp option" where
  "store_block block pkt off len st = do {
     let offset = block * ucast (tftp_block_size st) + tftp_block_wrap_offset st;
     let newsize = offset + len;
     bs \<leftarrow> get_bytes pkt off (unat len);
     let st = st\<lparr>ram := write_ram (ram st) (load_addr st + offset) bs\<rparr>;
     Some (if net_boot_file_size st < newsize then st\<lparr>net_boot_file_size := newsize\<rparr> else st)
   }"

definition new_transfer :: "tftp \<Rightarrow> tftp" where
  "new_transfer st = st\<lparr>tftp_prev_block := 0, tftp_block_wrap := 0, tftp_block_wrap_offset := 0\<rparr>"

definition update_block_number :: "tftp \<Rightarrow> tftp" where
  "update_block_number st =
     (if tftp_cur_block st = 0 \<and> tftp_prev_block st \<noteq> 0
      then st\<lparr>tftp_block_wrap := tftp_block_wrap st + 1,
              tftp_block_wrap_offset := tftp_block_wrap_offset st + ucast (tftp_block_size st) * TFTP_SEQUENCE_SIZE,
              timeout_count := 0\<rparr>
      else st)"

definition tftp_complete :: "tftp \<Rightarrow> tftp" where
  "tftp_complete st = set_loop_state NETLOOP_SUCCESS st"

text \<open>What \<open>sprintf\<close> writes for \<open>%lu\<close> and \<open>%d\<close> of a number that is not negative (theory Vsprintf)\<close>

definition decimal :: "u32 \<Rightarrow> u8 list" where
  "decimal n = rev (put_dec (ucast n))"

definition tftp_message :: "tftp \<Rightarrow> u8 list" where
  "tftp_message st =
     (case tftp_state st of
        STATE_SEND_RRQ \<Rightarrow> be16 TFTP_RRQ @ tftp_filename st @ [0] @ ascii ''octet'' @ [0] @ ascii ''timeout'' @ [0] @
          decimal (timeout_ms st div 1000) @ [0] @ ascii ''blksize'' @ [0] @ decimal (ucast (tftp_block_size_option st)) @ [0]
      | STATE_SEND_WRQ \<Rightarrow> be16 TFTP_RRQ @ tftp_filename st @ [0] @ ascii ''octet'' @ [0] @ ascii ''timeout'' @ [0] @
          decimal (timeout_ms st div 1000) @ [0] @ ascii ''blksize'' @ [0] @ decimal (ucast (tftp_block_size_option st)) @ [0]
      | STATE_OACK \<Rightarrow> be16 TFTP_ACK @ be16 (ucast (tftp_cur_block st))
      | STATE_RECV_WRQ \<Rightarrow> be16 TFTP_ACK @ be16 (ucast (tftp_cur_block st))
      | STATE_DATA \<Rightarrow> be16 TFTP_ACK @ be16 (ucast (tftp_cur_block st))
      | STATE_TOO_LARGE \<Rightarrow> be16 TFTP_ERROR @ be16 3 @ ascii ''File too large'' @ [0]
      | STATE_BAD_MAGIC \<Rightarrow> be16 TFTP_ERROR @ be16 2 @ ascii ''File has bad magic'' @ [0])"

definition tftp_send :: "tftp \<Rightarrow> tftp" where
  "tftp_send st = st\<lparr>datagrams := datagrams st @ [\<lparr>d_ip = tftp_remote_ip st, d_dport = tftp_remote_port st,
     d_sport = tftp_our_port st, d_payload = tftp_message st\<rparr>]\<rparr>"

text \<open>The search for the block size in an option acknowledgement; \<open>len\<close> does not count the opcode. The literal
  of the comparison stands before the packet.\<close>

definition blksize_literal :: mem where
  "blksize_literal = ascii ''blksize'' @ [0]"

function oack_loop :: "mem \<Rightarrow> u32 \<Rightarrow> nat \<Rightarrow> tftp \<Rightarrow> tftp option" where
  "oack_loop pkt len i st =
     (if i + 8 < unat len then
        (case strcmp (blksize_literal @ pkt) (8 + (2 + i)) 0 of
           None \<Rightarrow> None
         | Some r \<Rightarrow>
             (if r = 0
              then (case simple_strtoul pkt (2 + i + 8) 10 of
                      None \<Rightarrow> None
                    | Some (n, e) \<Rightarrow> oack_loop pkt len (i + 1) (st\<lparr>tftp_block_size := ucast n\<rparr>))
              else oack_loop pkt len (i + 1) st))
      else Some st)"
  by pat_completeness auto
termination
  by (relation "measure (\<lambda>(pkt, len, i, st). unat len - i)") auto

declare oack_loop.simps [simp del]

definition receive_data :: "surroundings \<Rightarrow> mem \<Rightarrow> u32 \<Rightarrow> u32 \<Rightarrow> tftp \<Rightarrow> tftp option" where
  "receive_data sys pkt src len st =
     (if len < 2 then Some st
      else do {
        let len = len - 2;
        n \<leftarrow> get_be16 pkt 2;
        let st = update_block_number (st\<lparr>tftp_cur_block := ucast n\<rparr>);
        let first = tftp_state st \<in> {STATE_SEND_RRQ, STATE_OACK, STATE_RECV_WRQ};
        let st = (if first then new_transfer (st\<lparr>tftp_state := STATE_DATA, tftp_remote_port := src\<rparr>) else st);
        if first \<and> tftp_cur_block st \<noteq> 1 then net_start_again sys st
        else if tftp_cur_block st = tftp_prev_block st then Some st
        else do {
          let st = st\<lparr>tftp_prev_block := tftp_cur_block st, timeout_count_max := tftp_timeout_count_max st\<rparr>;
          let st = net_set_timeout_handler sys (timeout_ms st) Tftp_timeout_handler st;
          st \<leftarrow> store_block (tftp_cur_block st - 1) pkt 4 len st;
          let st = tftp_send st;
          Some (if len < ucast (tftp_block_size st) then tftp_complete st else st)
        }
      })"

definition receive_error :: "surroundings \<Rightarrow> mem \<Rightarrow> tftp \<Rightarrow> tftp option" where
  "receive_error sys pkt st = do {
     code \<leftarrow> get_be16 pkt 2;
     if code = 1 \<or> code = 2 then Some (set_loop_state NETLOOP_FAIL st) else net_start_again sys st
   }"

definition tftp_handler :: "surroundings \<Rightarrow> mem \<Rightarrow> u32 \<Rightarrow> u32 \<Rightarrow> u32 \<Rightarrow> tftp \<Rightarrow> tftp option" where
  "tftp_handler sys pkt dest src len st =
     (if dest \<noteq> tftp_our_port st then Some st
      else if tftp_state st \<noteq> STATE_SEND_RRQ \<and> src \<noteq> tftp_remote_port st \<and> tftp_state st \<noteq> STATE_RECV_WRQ \<and>
              tftp_state st \<noteq> STATE_SEND_WRQ then Some st
      else if len < 2 then Some st
      else do {
        let len = len - 2;
        proto \<leftarrow> get_be16 pkt 0;
        if proto = TFTP_OACK then do {
          st \<leftarrow> oack_loop pkt len 0 (st\<lparr>tftp_state := STATE_OACK, tftp_remote_port := src\<rparr>);
          Some (tftp_send st)
        }
        else if proto = TFTP_DATA then receive_data sys pkt src len st
        else if proto = TFTP_ERROR then receive_error sys pkt st
        else Some st
      })"

definition tftp_timeout_handler :: "surroundings \<Rightarrow> tftp \<Rightarrow> tftp option" where
  "tftp_timeout_handler sys st =
     (let st = st\<lparr>timeout_count := timeout_count st + 1\<rparr>
      in if timeout_count st > timeout_count_max st then net_start_again sys st
         else let st = net_set_timeout_handler sys (timeout_ms st) Tftp_timeout_handler st
           in Some (if tftp_state st \<noteq> STATE_RECV_WRQ then tftp_send st else st))"

subsection \<open>Events of the network loop\<close>

definition udp_receive :: "surroundings \<Rightarrow> mem \<Rightarrow> u32 \<Rightarrow> u32 \<Rightarrow> u32 \<Rightarrow> tftp \<Rightarrow> tftp option" where
  "udp_receive sys pkt dest src len st =
     (case udp_packet_handler st of Dummy_handler \<Rightarrow> Some st | Tftp_handler \<Rightarrow> tftp_handler sys pkt dest src len st)"

definition check_timeout :: "surroundings \<Rightarrow> tftp \<Rightarrow> tftp option" where
  "check_timeout sys st =
     (case time_handler st of
        None \<Rightarrow> Some st
      | Some x \<Rightarrow>
          (if now_ms sys - time_start st > time_delta st
           then (case x of
                   Tftp_timeout_handler \<Rightarrow> tftp_timeout_handler sys (st\<lparr>time_handler := None\<rparr>)
                 | Start_again_timeout_handler \<Rightarrow> Some (set_loop_state NETLOOP_RESTART (st\<lparr>time_handler := None\<rparr>)))
           else Some st))"

subsection \<open>Starting\<close>

fun string_to_ip_loop :: "mem \<Rightarrow> nat \<Rightarrow> nat \<Rightarrow> u32 \<Rightarrow> u32 option" where
  "string_to_ip_loop m s 0 addr = Some addr"
| "string_to_ip_loop m s (Suc n) addr = do {
     (val, e) \<leftarrow> simple_strtoul m s 10;
     c \<leftarrow> arr_get m e;
     string_to_ip_loop m (if c \<noteq> 0 then e + 1 else e) n (push_bit 8 addr OR (val AND 0xFF))
   }"

definition htonl :: "u32 \<Rightarrow> u32" where
  "htonl a = word32_of_bytes (byte_of_word32 3 a) (byte_of_word32 2 a) (byte_of_word32 1 a) (byte_of_word32 0 a)"

definition string_to_ip :: "mem \<Rightarrow> nat \<Rightarrow> u32 option" where
  "string_to_ip m s = map_option htonl (string_to_ip_loop m s 4 0)"

definition hex2 :: "u32 \<Rightarrow> u8 list" where
  "hex2 v = [digits16 ! unat (drop_bit 4 v AND 0xF), digits16 ! unat (v AND 0xF)]"

text \<open>The numbers that the environment sets, with their old values as defaults\<close>

definition env_number :: "surroundings \<Rightarrow> string \<Rightarrow> u32 \<Rightarrow> u32 option" where
  "env_number sys name old =
     (case env_value sys (ascii name) of
        None \<Rightarrow> Some old
      | Some ep \<Rightarrow> map_option fst (simple_strtol (ep @ [0]) 0 10))"

definition file_and_server :: "surroundings \<Rightarrow> (u32 \<times> u8 list) option" where
  "file_and_server sys =
     (let name = boot_file_name sys
      in if name = [] then
           (let ip = our_ip sys
            in Some (server_ip sys, hex2 (ip AND 0xFF) @ hex2 (drop_bit 8 ip AND 0xFF) @ hex2 (drop_bit 16 ip AND 0xFF) @
                 hex2 (drop_bit 24 ip AND 0xFF) @ ascii ''.img''))
         else if 0x3A \<notin> set name then Some (server_ip sys, take (TFTP_MAX_LEN - 1) name)
         else do {
           ip \<leftarrow> string_to_ip (name @ [0]) 0;
           Some (ip, take (TFTP_MAX_LEN - 1) (tl (dropWhile (\<lambda>c. c \<noteq> 0x3A) name)))
         })"

definition tftp_start :: "surroundings \<Rightarrow> tftp \<Rightarrow> tftp option" where
  "tftp_start sys st = do {
     opt \<leftarrow> env_number sys ''tftpblocksize'' (ucast (tftp_block_size_option st));
     ms \<leftarrow> env_number sys ''tftptimeout'' (timeout_ms st);
     let ms = (if ms < 1000 then 1000 else ms);
     cnt \<leftarrow> env_number sys ''tftptimeoutcountmax'' (word_of_int (tftp_timeout_count_max st));
     let cnt = (if sint cnt < 0 then 0 else sint cnt);
     (ip, name) \<leftarrow> file_and_server sys;
     let st = st\<lparr>tftp_block_size_option := ucast opt, timeout_ms := ms, tftp_timeout_count_max := cnt,
       tftp_remote_ip := ip, tftp_filename := name, tftp_state := STATE_SEND_RRQ, timeout_count_max := cnt\<rparr>;
     let st = net_set_timeout_handler sys (timeout_ms st) Tftp_timeout_handler st;
     let st = st\<lparr>udp_packet_handler := Tftp_handler, tftp_remote_port := WELL_KNOWN_PORT, timeout_count := 0,
       tftp_our_port := 1024 + now_ms sys mod 3072, tftp_cur_block := 0, tftp_block_size := TFTP_BLOCK_SIZE\<rparr>;
     Some (tftp_send st)
   }"

text \<open>The start of an attempt in \<open>net_loop\<close> for \<open>TFTPGET\<close>\<close>

definition start_attempt :: "surroundings \<Rightarrow> tftp \<Rightarrow> tftp option" where
  "start_attempt sys st =
     tftp_start sys ((set_loop_state NETLOOP_CONTINUE st)\<lparr>net_dev_exists := True, net_boot_file_size := 0\<rparr>)"


section \<open>Files in blocks\<close>

definition file_block :: "nat \<Rightarrow> u8 list \<Rightarrow> nat \<Rightarrow> u8 list" where
  "file_block bs file k = take bs (drop ((k - 1) * bs) file)"

definition nblocks :: "nat \<Rightarrow> u8 list \<Rightarrow> nat" where
  "nblocks bs file = length file div bs + 1"

text \<open>The data packet of a server, RFC 1350: blocks are counted from one, modulo 65536.\<close>

definition data_packet :: "nat \<Rightarrow> u8 list \<Rightarrow> nat \<Rightarrow> u8 list" where
  "data_packet bs file k = be16 TFTP_DATA @ be16 (word_of_nat k) @ file_block bs file k"

definition packet_len :: "u8 list \<Rightarrow> u32" where
  "packet_len p = word_of_nat (length p)"

lemma before_last_full: "k < nblocks bs file \<Longrightarrow> k * bs \<le> length file"
proof -
  assume "k < nblocks bs file"
  then have "k \<le> length file div bs" unfolding nblocks_def by linarith
  then have "k * bs \<le> (length file div bs) * bs" by (rule mult_le_mono1)
  then show ?thesis using div_times_less_eq_dividend[of "length file" bs] by linarith
qed

lemma last_covers:
  assumes "0 < bs"
  shows "length file < nblocks bs file * bs"
proof -
  have "length file < bs + length file div bs * bs" using assms by (simp add: dividend_less_div_times)
  then show ?thesis by (simp add: nblocks_def)
qed

lemma length_file_block:
  assumes "0 < bs" "1 \<le> k" "k \<le> nblocks bs file"
  shows "length (file_block bs file k) = (if k < nblocks bs file then bs else length file - (k - 1) * bs)"
    "k = nblocks bs file \<Longrightarrow> length (file_block bs file k) < bs"
proof -
  have "k * bs = (k - 1) * bs + bs" using assms(2) by (cases k) simp_all
  then show "length (file_block bs file k) = (if k < nblocks bs file then bs else length file - (k - 1) * bs)"
    using before_last_full[of k bs "file"] last_covers[OF assms(1), of "file"] assms(3)
    by (auto simp: file_block_def min_def not_less le_antisym)
  show "length (file_block bs file k) < bs" if "k = nblocks bs file"
    using that last_covers[OF assms(1), of "file"] assms(1) \<open>k * bs = (k - 1) * bs + bs\<close> by (simp add: file_block_def)
qed

lemma take_next_block: "take ((k + 1) * bs) file = take (k * bs) file @ file_block bs file (k + 1)"
  by (simp add: file_block_def take_add[symmetric] add.commute)

lemma take_all_blocks: "0 < bs \<Longrightarrow> take (nblocks bs file * bs) file = file"
  using last_covers[of bs "file"] by simp

section \<open>RAM\<close>

lemma unat_minus_u32: "unat (x - word_of_nat n :: u32) = (if n \<le> unat x then unat x - n else 2 ^ 32 + unat x - n)" if "n < 2 ^ 32"
proof -
  have "unat (word_of_nat n :: u32) = n" using that by (simp add: unat_of_nat take_bit_eq_mod)
  then show ?thesis using that unsigned_less[of x, where ?'a = nat] by (auto simp: unat_sub_if' )
qed

lemma write_ram_append:
  assumes "length xs + length ys \<le> 2 ^ 32"
  shows "write_ram (write_ram m a xs) (a + word_of_nat (length xs)) ys = write_ram m a (xs @ ys)"
proof
  fix x
  show "write_ram (write_ram m a xs) (a + word_of_nat (length xs)) ys x = write_ram m a (xs @ ys) x"
  proof (cases "length xs < 2 ^ 32")
    case False
    then have "length ys = 0" using assms by linarith
    then have "ys = []" by simp
    then show ?thesis by (simp add: write_ram_def)
  next
    case True
    have "x - (a + word_of_nat (length xs)) = (x - a) - word_of_nat (length xs)" by (rule diff_diff_eq[symmetric])
    then have "unat (x - (a + word_of_nat (length xs))) =
        (if length xs \<le> unat (x - a) then unat (x - a) - length xs else 2 ^ 32 + unat (x - a) - length xs)"
      using unat_minus_u32[OF True, of "x - a"] by (simp only:)
    moreover have "2 ^ 32 + unat (x - a) - length xs \<ge> length ys" using assms by simp
    ultimately show ?thesis using assms by (auto simp: write_ram_def nth_append)
  qed
qed


section \<open>One data packet\<close>

lemma timeout_handler_fields [simp]:
  "tftp_state (net_set_timeout_handler sys iv f st) = tftp_state st"
  "tftp_our_port (net_set_timeout_handler sys iv f st) = tftp_our_port st"
  "tftp_remote_port (net_set_timeout_handler sys iv f st) = tftp_remote_port st"
  "tftp_remote_ip (net_set_timeout_handler sys iv f st) = tftp_remote_ip st"
  "tftp_block_size (net_set_timeout_handler sys iv f st) = tftp_block_size st"
  "tftp_cur_block (net_set_timeout_handler sys iv f st) = tftp_cur_block st"
  "tftp_prev_block (net_set_timeout_handler sys iv f st) = tftp_prev_block st"
  "tftp_block_wrap_offset (net_set_timeout_handler sys iv f st) = tftp_block_wrap_offset st"
  "loop_state (net_set_timeout_handler sys iv f st) = loop_state st"
  "net_boot_file_size (net_set_timeout_handler sys iv f st) = net_boot_file_size st"
  "udp_packet_handler (net_set_timeout_handler sys iv f st) = udp_packet_handler st"
  "load_addr (net_set_timeout_handler sys iv f st) = load_addr st"
  "ram (net_set_timeout_handler sys iv f st) = ram st"
  "datagrams (net_set_timeout_handler sys iv f st) = datagrams st"
  by (simp_all add: net_set_timeout_handler_def)

text \<open>The client after a new block with content \<open>blk\<close>: stored and acknowledged, and finished when it is short\<close>

definition put_block :: "u32 \<Rightarrow> u8 list \<Rightarrow> tftp \<Rightarrow> tftp" where
  "put_block block blk st =
     (let offset = block * ucast (tftp_block_size st) + tftp_block_wrap_offset st;
          newsize = offset + word_of_nat (length blk);
          st = st\<lparr>ram := write_ram (ram st) (load_addr st + offset) blk\<rparr>
      in if net_boot_file_size st < newsize then st\<lparr>net_boot_file_size := newsize\<rparr> else st)"

definition take_block :: "surroundings \<Rightarrow> u8 list \<Rightarrow> tftp \<Rightarrow> tftp" where
  "take_block sys blk st =
     (let st = st\<lparr>tftp_prev_block := tftp_cur_block st, timeout_count_max := tftp_timeout_count_max st\<rparr>;
          st = net_set_timeout_handler sys (timeout_ms st) Tftp_timeout_handler st;
          st = put_block (tftp_cur_block st - 1) blk st;
          st = tftp_send st
      in if word_of_nat (length blk) < (ucast (tftp_block_size st) :: u32) then tftp_complete st else st)"

definition data_step :: "surroundings \<Rightarrow> u32 \<Rightarrow> u16 \<Rightarrow> u8 list \<Rightarrow> tftp \<Rightarrow> tftp option" where
  "data_step sys src n blk st =
     (let st = update_block_number (st\<lparr>tftp_cur_block := ucast n\<rparr>);
          first = tftp_state st \<in> {STATE_SEND_RRQ, STATE_OACK, STATE_RECV_WRQ};
          st = (if first then new_transfer (st\<lparr>tftp_state := STATE_DATA, tftp_remote_port := src\<rparr>) else st)
      in if first \<and> tftp_cur_block st \<noteq> 1 then net_start_again sys st
         else if tftp_cur_block st = tftp_prev_block st then Some st
         else Some (take_block sys blk st))"

lemma handler_data:
  assumes "length (file_block bs file k) \<le> 65535" "dest = tftp_our_port st"
    "tftp_state st \<noteq> STATE_SEND_RRQ \<longrightarrow> src = tftp_remote_port st"
  shows "tftp_handler sys (data_packet bs file k @ rest) dest src (packet_len (data_packet bs file k)) st =
    data_step sys src (word_of_nat k) (file_block bs file k) st"
proof -
  let ?b = "file_block bs file k" and ?p = "data_packet bs file k @ rest"
  have len: "length (data_packet bs file k) = 4 + length ?b" by (simp add: data_packet_def)
  have pl: "packet_len (data_packet bs file k) = word_of_nat (4 + length ?b)" by (simp only: packet_len_def len)
  have d: "packet_len (data_packet bs file k) - 2 = word_of_nat (2 + length ?b)"
    "packet_len (data_packet bs file k) - 2 - 2 = word_of_nat (length ?b)" unfolding pl by simp_all
  have le: "\<not> packet_len (data_packet bs file k) < 2" "\<not> word_of_nat (2 + length ?b) < (2 :: u32)"
    using word_of_nat_not_less[of 2 "4 + length ?b"] word_of_nat_not_less[of 2 "2 + length ?b"] assms(1) unfolding pl by simp_all
  have g: "get_be16 ?p 0 = Some TFTP_DATA" "get_be16 ?p 2 = Some (word_of_nat k)" "get_bytes ?p 4 (length ?b) = Some ?b"
    using get_bytes_all[of ?b rest] by (simp_all add: data_packet_def head_simps)
  define L :: u32 where "L = word_of_nat (length ?b)"
  have "unat L = length ?b" using assms(1) by (simp add: L_def unat_of_nat take_bit_eq_mod)
  then have sb: "store_block block ?p 4 L st = Some (put_block block ?b st)" for block st
    by (simp add: store_block_def put_block_def g(3) L_def Let_def)
  have "tftp_handler sys ?p dest src (packet_len (data_packet bs file k)) st = receive_data sys ?p src (packet_len (data_packet bs file k) - 2) st"
    unfolding tftp_handler_def using assms(2,3) le(1) g(1) by (auto simp: TFTP_DATA_def TFTP_OACK_def TFTP_ERROR_def)
  also have "\<dots> = data_step sys src (word_of_nat k) ?b st"
    unfolding receive_data_def data_step_def take_block_def d(2) unfolding d(1) if_not_P[OF le(2)] L_def[symmetric]
    by (simp only: Let_def g(2) bind.bind_lunit sb)
  finally show ?thesis .
qed


section \<open>Blocks in order\<close>

definition ack_datagram :: "u32 \<Rightarrow> u32 \<Rightarrow> u32 \<Rightarrow> nat \<Rightarrow> datagram" where
  "ack_datagram ip dport sport k = \<lparr>d_ip = ip, d_dport = dport, d_sport = sport, d_payload = be16 TFTP_ACK @ be16 (word_of_nat k)\<rparr>"

text \<open>The client \<open>c\<close> has received the first \<open>k\<close> blocks from the port \<open>src\<close>, starting from \<open>c0\<close>.\<close>

definition received :: "nat \<Rightarrow> u8 list \<Rightarrow> u32 \<Rightarrow> tftp \<Rightarrow> nat \<Rightarrow> tftp \<Rightarrow> bool" where
  "received bs file src c0 k c \<longleftrightarrow>
     tftp_state c = STATE_DATA \<and> tftp_remote_port c = src \<and> tftp_our_port c = tftp_our_port c0 \<and>
     tftp_remote_ip c = tftp_remote_ip c0 \<and> tftp_block_size c = word_of_nat bs \<and> load_addr c = load_addr c0 \<and>
     udp_packet_handler c = Tftp_handler \<and>
     tftp_prev_block c = word_of_nat (k mod 65536) \<and> tftp_cur_block c = tftp_prev_block c \<and>
     tftp_block_wrap_offset c = word_of_nat (k div 65536 * 65536 * bs) \<and>
     ram c = write_ram (ram c0) (load_addr c0) (take (k * bs) file) \<and>
     net_boot_file_size c = word_of_nat (length (take (k * bs) file)) \<and>
     datagrams c = datagrams c0 @ map (ack_datagram (tftp_remote_ip c0) src (tftp_our_port c0)) [1..<Suc k] \<and>
     loop_state c = (if k < nblocks bs file then NETLOOP_CONTINUE else NETLOOP_SUCCESS)"

lemma ucast_block_number: "(ucast (word_of_nat k :: u16) :: u32) = word_of_nat (k mod 65536)"
proof -
  have "k mod 65536 mod 4294967296 = k mod 65536" by (intro mod_less) (rule less_trans[of _ 65536], simp_all)
  then show ?thesis by (intro word_unat_eq_iff[THEN iffD2]) (simp add: unat_ucast_mod unat_of_nat take_bit_eq_mod)
qed

lemma block_number_eq_iff: "(word_of_nat (j mod 65536) :: u32) = word_of_nat (k mod 65536) \<longleftrightarrow> j mod 65536 = k mod 65536"
proof -
  have "unat (word_of_nat (n mod 65536) :: u32) = n mod 65536" for n
    by (simp add: unat_of_nat take_bit_eq_mod mod_less less_trans[of _ 65536])
  then show ?thesis by metis
qed

lemma block_offset:
  assumes "1 \<le> k"
  shows "(word_of_nat (k mod 65536) - 1) * word_of_nat bs + word_of_nat (k div 65536 * 65536 * bs) = (word_of_nat ((k - 1) * bs) :: u32)"
proof -
  have k: "(word_of_nat k :: u32) = word_of_nat (k mod 65536) + word_of_nat (k div 65536 * 65536)"
    by (simp only: of_nat_add[symmetric]) simp
  have "(word_of_nat ((k - 1) * bs) :: u32) = (word_of_nat k - 1) * word_of_nat bs"
    using assms by (simp add: of_nat_diff)
  then show ?thesis unfolding k by (simp add: algebra_simps)
qed


lemma take_block_fields:
  "tftp_state (take_block sys blk st) = tftp_state st" "tftp_remote_port (take_block sys blk st) = tftp_remote_port st"
  "tftp_our_port (take_block sys blk st) = tftp_our_port st" "tftp_remote_ip (take_block sys blk st) = tftp_remote_ip st"
  "tftp_block_size (take_block sys blk st) = tftp_block_size st" "load_addr (take_block sys blk st) = load_addr st"
  "udp_packet_handler (take_block sys blk st) = udp_packet_handler st" "tftp_cur_block (take_block sys blk st) = tftp_cur_block st"
  "tftp_prev_block (take_block sys blk st) = tftp_cur_block st" "tftp_block_wrap_offset (take_block sys blk st) = tftp_block_wrap_offset st"
  by (simp_all add: take_block_def put_block_def tftp_send_def tftp_complete_def set_loop_state_def Let_def)

lemma take_block_effects:
  "ram (take_block sys blk st) =
     write_ram (ram st) (load_addr st + ((tftp_cur_block st - 1) * ucast (tftp_block_size st) + tftp_block_wrap_offset st)) blk"
  "net_boot_file_size (take_block sys blk st) =
     max (net_boot_file_size st) ((tftp_cur_block st - 1) * ucast (tftp_block_size st) + tftp_block_wrap_offset st + word_of_nat (length blk))"
  "tftp_state st = STATE_DATA \<Longrightarrow> datagrams (take_block sys blk st) =
     datagrams st @ [\<lparr>d_ip = tftp_remote_ip st, d_dport = tftp_remote_port st, d_sport = tftp_our_port st,
       d_payload = be16 TFTP_ACK @ be16 (ucast (tftp_cur_block st))\<rparr>]"
  "loop_state (take_block sys blk st) =
     (if word_of_nat (length blk) < (ucast (tftp_block_size st) :: u32) then NETLOOP_SUCCESS else loop_state st)"
  by (auto simp: take_block_def put_block_def tftp_send_def tftp_message_def tftp_complete_def set_loop_state_def Let_def max_def)

lemma ucast_block_size: "bs < 65536 \<Longrightarrow> (ucast (word_of_nat bs :: u16) :: u32) = word_of_nat bs"
  by (simp add: ucast_block_number)

lemma word_of_nat_less_iff: "m < 2 ^ 32 \<Longrightarrow> n < 2 ^ 32 \<Longrightarrow> (word_of_nat m :: u32) < word_of_nat n \<longleftrightarrow> m < n"
  by (simp add: word_less_nat_alt unat_of_nat take_bit_eq_mod)

lemma take_block_received:
  assumes "tftp_state st = STATE_DATA" "tftp_remote_port st = src" "tftp_our_port st = tftp_our_port c0"
    "tftp_remote_ip st = tftp_remote_ip c0" "tftp_block_size st = word_of_nat bs" "load_addr st = load_addr c0"
    "udp_packet_handler st = Tftp_handler" "tftp_cur_block st = word_of_nat (k mod 65536)"
    "tftp_block_wrap_offset st = word_of_nat (k div 65536 * 65536 * bs)"
    "ram st = write_ram (ram c0) (load_addr c0) (take ((k - 1) * bs) file)"
    "net_boot_file_size st = word_of_nat (length (take ((k - 1) * bs) file))"
    "datagrams st = datagrams c0 @ map (ack_datagram (tftp_remote_ip c0) src (tftp_our_port c0)) [1..<k]"
    "loop_state st = NETLOOP_CONTINUE" "1 \<le> k" "k \<le> nblocks bs file" "0 < bs" "bs < 65536" "length file < 2 ^ 32"
  shows "received bs file src c0 k (take_block sys (file_block bs file k) st)"
proof -
  let ?b = "file_block bs file k" and ?pre = "take ((k - 1) * bs) file"
  have pre: "length ?pre = (k - 1) * bs"
    using before_last_full[of "k - 1" bs "file"] assms(14,15) by simp
  have t: "take (k * bs) file = ?pre @ ?b" using take_next_block[of "k - 1" bs "file"] assms(14) by simp
  have lt: "length ?pre + length ?b \<le> length file" using arg_cong[OF t, of length] by simp
  have off: "(tftp_cur_block st - 1) * ucast (tftp_block_size st) + tftp_block_wrap_offset st = word_of_nat (length ?pre)"
    using block_offset[OF assms(14), of bs] assms(5,8,9,17) pre by (simp only: ucast_block_size)
  have r: "ram (take_block sys ?b st) = write_ram (ram c0) (load_addr c0) (take (k * bs) file)"
    unfolding take_block_effects off t assms(6,10) using lt assms(18) by (intro write_ram_append) simp
  have s: "net_boot_file_size (take_block sys ?b st) = word_of_nat (length (take (k * bs) file))"
  proof -
    have "\<not> (word_of_nat (length ?pre + length ?b) :: u32) < word_of_nat (length ?pre)"
      using lt assms(18) by (intro word_of_nat_not_less) simp_all
    then show ?thesis unfolding take_block_effects off assms(11) t by (simp add: max_def not_less)
  qed
  have u: "(ucast (word_of_nat (k mod 65536) :: u32) :: u16) = word_of_nat k"
    by (rule word_unat_eq_iff[THEN iffD2]) (simp add: unat_ucast_mod unat_of_nat take_bit_eq_mod mod_mod_cancel)
  have d: "datagrams (take_block sys ?b st) = datagrams c0 @ map (ack_datagram (tftp_remote_ip c0) src (tftp_our_port c0)) [1..<Suc k]"
    using assms(2-4,14) unfolding take_block_effects(3)[OF assms(1)] assms(12) by (simp add: ack_datagram_def assms(8) u)
  have "word_of_nat (length ?b) < (ucast (tftp_block_size st) :: u32) \<longleftrightarrow> \<not> k < nblocks bs file"
  proof -
    have "length ?b \<le> bs" by (simp add: file_block_def)
    then have "word_of_nat (length ?b) < (ucast (tftp_block_size st) :: u32) \<longleftrightarrow> length ?b < bs"
      using assms(5,17) word_of_nat_less_iff[of "length ?b" bs] by (simp add: ucast_block_size)
    then show ?thesis using length_file_block[OF assms(16,14,15)] assms(15) by auto
  qed
  then have l: "loop_state (take_block sys ?b st) = (if k < nblocks bs file then NETLOOP_CONTINUE else NETLOOP_SUCCESS)"
    unfolding take_block_effects assms(13) by simp
  show ?thesis unfolding received_def r s d l take_block_fields using assms(1-9) by simp
qed

text \<open>The first block, a block again, and the next block\<close>

lemma data_step_first:
  assumes "tftp_state c0 = STATE_SEND_RRQ \<or> tftp_state c0 = STATE_OACK" "tftp_block_size c0 = word_of_nat bs"
    "udp_packet_handler c0 = Tftp_handler" "net_boot_file_size c0 = 0" "loop_state c0 = NETLOOP_CONTINUE"
    "0 < bs" "bs < 65536" "length file < 2 ^ 32"
  shows "\<exists>c. data_step sys src (word_of_nat 1) (file_block bs file 1) c0 = Some c \<and> received bs file src c0 1 c"
proof -
  let ?st = "new_transfer (c0\<lparr>tftp_cur_block := 1, tftp_state := STATE_DATA, tftp_remote_port := src\<rparr>)"
  have "data_step sys src (word_of_nat 1) (file_block bs file 1) c0 = Some (take_block sys (file_block bs file 1) ?st)"
    using assms(1) by (auto simp: data_step_def update_block_number_def new_transfer_def)
  moreover have "received bs file src c0 1 (take_block sys (file_block bs file 1) ?st)"
    using assms by (intro take_block_received) (simp_all add: new_transfer_def write_ram_def nblocks_def)
  ultimately show ?thesis by blast
qed

lemma data_step_again:
  assumes "received bs file src c0 k c"
  shows "data_step sys src (word_of_nat k) blk c = Some c"
proof -
  have "c\<lparr>tftp_cur_block := tftp_prev_block c\<rparr> = c" using assms by (simp add: received_def)
  moreover have "(ucast (word_of_nat k :: u16) :: u32) = tftp_prev_block c" using assms by (simp add: received_def ucast_block_number)
  ultimately show ?thesis using assms by (simp add: data_step_def update_block_number_def received_def)
qed

lemma data_step_next:
  assumes "received bs file src c0 k c" "1 \<le> k" "k < nblocks bs file" "0 < bs" "bs < 65536" "length file < 2 ^ 32"
  shows "\<exists>c'. data_step sys src (word_of_nat (k + 1)) (file_block bs file (k + 1)) c = Some c' \<and> received bs file src c0 (k + 1) c'"
proof -
  let ?st = "update_block_number (c\<lparr>tftp_cur_block := word_of_nat ((k + 1) mod 65536)\<rparr>)"
  have ne: "(word_of_nat ((k + 1) mod 65536) :: u32) \<noteq> word_of_nat (k mod 65536)"
    unfolding block_number_eq_iff by (auto simp: mod_Suc split: if_splits)
  have f: "tftp_state ?st = STATE_DATA" "tftp_cur_block ?st = word_of_nat ((k + 1) mod 65536)" "tftp_prev_block ?st = word_of_nat (k mod 65536)"
    "tftp_remote_port ?st = src" "tftp_our_port ?st = tftp_our_port c0" "tftp_remote_ip ?st = tftp_remote_ip c0"
    "tftp_block_size ?st = word_of_nat bs" "load_addr ?st = load_addr c0" "udp_packet_handler ?st = Tftp_handler"
    "ram ?st = write_ram (ram c0) (load_addr c0) (take (k * bs) file)" "net_boot_file_size ?st = word_of_nat (length (take (k * bs) file))"
    "datagrams ?st = datagrams c0 @ map (ack_datagram (tftp_remote_ip c0) src (tftp_our_port c0)) [1..<k + 1]" "loop_state ?st = NETLOOP_CONTINUE"
    using assms(1,3) by (auto simp: update_block_number_def received_def)
  have w: "tftp_block_wrap_offset ?st = word_of_nat ((k + 1) div 65536 * 65536 * bs)"
  proof (cases "(k + 1) mod 65536 = 0")
    case True
    then have m: "k mod 65536 = 65535" "(k + 1) div 65536 = k div 65536 + 1" by (simp_all add: mod_Suc div_Suc split: if_splits)
    have "(word_of_nat (k mod 65536) :: u32) \<noteq> word_of_nat (0 mod 65536)" unfolding block_number_eq_iff m(1) by simp
    then have p: "tftp_prev_block c \<noteq> 0" using assms(1) unfolding received_def by simp
    have o': "tftp_block_wrap_offset c = word_of_nat (k div 65536 * 65536 * bs)" "tftp_block_size c = word_of_nat bs"
      using assms(1) by (simp_all add: received_def)
    show ?thesis unfolding m(2) using True p assms(5)
      by (simp add: update_block_number_def o' ucast_block_size TFTP_SEQUENCE_SIZE_def algebra_simps)
  next
    case False
    then have "(k + 1) div 65536 = k div 65536" by (simp add: div_Suc)
    moreover have "(word_of_nat ((k + 1) mod 65536) :: u32) \<noteq> 0" using False block_number_eq_iff[of "k + 1" 0] by simp
    ultimately show ?thesis using assms(1) by (simp add: update_block_number_def received_def)
  qed
  have "data_step sys src (word_of_nat (k + 1)) (file_block bs file (k + 1)) c = Some (take_block sys (file_block bs file (k + 1)) ?st)"
    unfolding data_step_def ucast_block_number Let_def using f(1-3) ne by simp
  moreover have "received bs file src c0 (k + 1) (take_block sys (file_block bs file (k + 1)) ?st)"
    using assms(3-6) f w by (intro take_block_received) simp_all
  ultimately show ?thesis by blast
qed


fun deliver_blocks :: "nat \<Rightarrow> u8 list \<Rightarrow> u32 \<Rightarrow> (surroundings \<times> nat \<times> u8 list) list \<Rightarrow> tftp \<Rightarrow> tftp option" where
  "deliver_blocks bs file src [] c = Some c"
| "deliver_blocks bs file src ((sys, k, rest) # es) c = do {
     c \<leftarrow> udp_receive sys (data_packet bs file k @ rest) (tftp_our_port c) src (packet_len (data_packet bs file k)) c;
     deliver_blocks bs file src es c
   }"

fun block_no :: "surroundings \<times> nat \<times> u8 list \<Rightarrow> nat" where
  "block_no (sys, k, rest) = k"

lemma deliver_blocks_append:
  "deliver_blocks bs file src (es @ es') c = deliver_blocks bs file src es c \<bind> deliver_blocks bs file src es'"
proof (induction es arbitrary: c)
  case (Cons e es)
  then show ?case by (cases e) (auto split: bind_splits)
qed simp

lemma udp_receive_block:
  assumes "bs < 65536" "udp_packet_handler c = Tftp_handler" "tftp_state c \<noteq> STATE_SEND_RRQ \<longrightarrow> src = tftp_remote_port c"
  shows "udp_receive sys (data_packet bs file k @ rest) (tftp_our_port c) src (packet_len (data_packet bs file k)) c =
    data_step sys src (word_of_nat k) (file_block bs file k) c"
proof -
  have "length (file_block bs file k) \<le> 65535" using assms(1) by (simp add: file_block_def)
  then show ?thesis unfolding udp_receive_def assms(2) using assms(3) by (simp add: handler_data)
qed

lemma deliver_again:
  assumes "received bs file src c0 k c" "bs < 65536" "map block_no es = replicate n k"
  shows "deliver_blocks bs file src es c = Some c"
  using assms(3)
proof (induction es arbitrary: n)
  case (Cons e es)
  obtain sys rest where e: "e = (sys, k, rest)" using Cons.prems by (cases n; cases e) auto
  have "deliver_blocks bs file src es c = Some c" using Cons by (cases n) auto
  then show ?case using udp_receive_block[OF assms(2), of c src] data_step_again[OF assms(1)] assms(1)
    by (simp add: e received_def)
qed simp

lemma deliver_next:
  assumes "received bs file src c0 k c" "1 \<le> k" "k < nblocks bs file" "0 < bs" "bs < 65536" "length file < 2 ^ 32"
    "map block_no es = replicate (Suc n) (k + 1)" "n = 0 \<or> k + 1 < nblocks bs file"
  shows "\<exists>c'. deliver_blocks bs file src es c = Some c' \<and> received bs file src c0 (k + 1) c'"
proof -
  obtain sys rest es' where es: "es = (sys, k + 1, rest) # es'" "map block_no es' = replicate n (k + 1)"
    using assms(7) by (cases es) auto
  obtain c' where c': "data_step sys src (word_of_nat (k + 1)) (file_block bs file (k + 1)) c = Some c'" "received bs file src c0 (k + 1) c'"
    using data_step_next[OF assms(1-6)] by blast
  have "udp_packet_handler c = Tftp_handler" "tftp_state c \<noteq> STATE_SEND_RRQ \<longrightarrow> src = tftp_remote_port c"
    using assms(1) by (simp_all add: received_def)
  from udp_receive_block[OF assms(5) this, of sys "file" "k + 1" rest] show ?thesis
    using c' deliver_again[OF c'(2) assms(5) es(2)] by (simp add: es(1))
qed

text \<open>The order in which blocks arrive from a server that waits for acknowledgements, on a network that keeps the order
  but can deliver a packet several times: block \<open>k\<close> arrives \<open>1 + dup k\<close> times.\<close>

definition arrivals :: "nat \<Rightarrow> (nat \<Rightarrow> nat) \<Rightarrow> nat list" where
  "arrivals n dup = concat (map (\<lambda>k. replicate (Suc (dup k)) k) [1..<n]) @ [n]"

lemma deliver_prefix:
  assumes "tftp_state c0 = STATE_SEND_RRQ \<or> tftp_state c0 = STATE_OACK \<and> tftp_remote_port c0 = src" "tftp_block_size c0 = word_of_nat bs"
    "udp_packet_handler c0 = Tftp_handler" "net_boot_file_size c0 = 0" "loop_state c0 = NETLOOP_CONTINUE"
    "0 < bs" "bs < 65536" "length file < 2 ^ 32"
  shows "1 \<le> j \<Longrightarrow> j < nblocks bs file \<Longrightarrow> map block_no es = concat (map (\<lambda>k. replicate (Suc (dup k)) k) [1..<Suc j]) \<Longrightarrow>
    \<exists>c. deliver_blocks bs file src es c0 = Some c \<and> received bs file src c0 j c"
proof (induction j arbitrary: es rule: nat_induct_at_least)
  case base
  obtain sys rest es' where es: "es = (sys, 1, rest) # es'" "map block_no es' = replicate (dup 1) 1"
    using base by (cases es) auto
  obtain c where c: "data_step sys src (word_of_nat 1) (file_block bs file 1) c0 = Some c" "received bs file src c0 1 c"
    using data_step_first[of c0 bs "file" sys src] assms by blast
  have "tftp_state c0 \<noteq> STATE_SEND_RRQ \<longrightarrow> src = tftp_remote_port c0" using assms(1) by auto
  from udp_receive_block[OF assms(7,3) this, of sys "file" 1 rest] show ?case
    using c deliver_again[OF c(2) assms(7) es(2)] by (simp add: es(1))
next
  case (Suc j)
  have "map block_no es = concat (map (\<lambda>k. replicate (Suc (dup k)) k) [1..<Suc j]) @ replicate (Suc (dup (Suc j))) (j + 1)"
    using Suc.prems(2) Suc.hyps by simp
  then obtain es1 es2 where es: "es = es1 @ es2" "map block_no es1 = concat (map (\<lambda>k. replicate (Suc (dup k)) k) [1..<Suc j])"
    "map block_no es2 = replicate (Suc (dup (Suc j))) (j + 1)" by (auto simp: map_eq_append_conv)
  obtain c where c: "deliver_blocks bs file src es1 c0 = Some c" "received bs file src c0 j c"
    using Suc.IH[OF _ es(2)] Suc.prems(1) by auto
  have "\<exists>c'. deliver_blocks bs file src es2 c = Some c' \<and> received bs file src c0 (j + 1) c'"
    using deliver_next[OF c(2) Suc.hyps _ assms(6-8) es(3)] Suc.prems(1) by simp
  then show ?case using c(1) by (auto simp: es(1) deliver_blocks_append)
qed

lemma deliver_all:
  assumes "tftp_state c0 = STATE_SEND_RRQ \<or> tftp_state c0 = STATE_OACK \<and> tftp_remote_port c0 = src" "tftp_block_size c0 = word_of_nat bs"
    "udp_packet_handler c0 = Tftp_handler" "net_boot_file_size c0 = 0" "loop_state c0 = NETLOOP_CONTINUE"
    "0 < bs" "bs < 65536" "length file < 2 ^ 32" "map block_no es = arrivals (nblocks bs file) dup"
  shows "\<exists>c. deliver_blocks bs file src es c0 = Some c \<and> received bs file src c0 (nblocks bs file) c"
proof (cases "nblocks bs file = 1")
  case True
  then obtain sys rest where es: "es = [(sys, 1, rest)]" using assms(9) by (auto simp: arrivals_def)
  have "tftp_state c0 \<noteq> STATE_SEND_RRQ \<longrightarrow> src = tftp_remote_port c0" using assms(1) by auto
  from udp_receive_block[OF assms(7,3) this, of sys "file" 1 rest] show ?thesis
    using data_step_first[of c0 bs "file" sys src] assms True by (auto simp: es)
next
  case False
  define j where "j = nblocks bs file - 1"
  have j: "1 \<le> j" "j < nblocks bs file" "nblocks bs file = Suc j" using False by (auto simp: j_def nblocks_def)
  obtain es1 es2 where es: "es = es1 @ es2" "map block_no es1 = concat (map (\<lambda>k. replicate (Suc (dup k)) k) [1..<Suc j])"
    "map block_no es2 = replicate (Suc 0) (j + 1)" using assms(9) j(3) by (auto simp: arrivals_def map_eq_append_conv)
  obtain c where c: "deliver_blocks bs file src es1 c0 = Some c" "received bs file src c0 j c"
    using deliver_prefix[OF assms(1-8) j(1,2) es(2)] by blast
  show ?thesis using deliver_next[OF c(2) j(1,2) assms(6-8) es(3)] c(1) j(3) by (auto simp: es(1) deliver_blocks_append)
qed


section \<open>Negotiation\<close>

text \<open>The option acknowledgement of a server, RFC 2347 and 2348, with other options around the block size\<close>

definition oack_packet :: "u8 list \<Rightarrow> nat \<Rightarrow> u8 list \<Rightarrow> u8 list" where
  "oack_packet pre bs post = be16 TFTP_OACK @ pre @ blksize_literal @ rev (dec_digits bs) @ [0] @ post"

lemma strcmp_blksize_differs:
  assumes "i < length pkt" "pkt ! i \<noteq> 0x62"
  shows "\<exists>r. strcmp (blksize_literal @ pkt) (8 + i) 0 = Some r \<and> r \<noteq> 0"
proof -
  have l: "length blksize_literal = 8" "blksize_literal ! 0 = 0x62" by (simp_all add: blksize_literal_def ascii_def)
  then have "arr_get (blksize_literal @ pkt) (8 + i) = Some (pkt ! i)" "arr_get (blksize_literal @ pkt) 0 = Some 0x62"
    using assms(1) by (simp_all add: nth_append)
  then have "strcmp (blksize_literal @ pkt) (8 + i) 0 = Some (sint (pkt ! i - 0x62))"
    using assms(2) by (subst strcmp.simps) simp
  moreover have "sint (pkt ! i - 0x62) \<noteq> 0" using assms(2) by (simp add: signed_eq_0_iff)
  ultimately show ?thesis by blast
qed

lemma oack_loop_skip:
  assumes "\<forall>j. i \<le> j \<and> j < n \<longrightarrow> 2 + j < length pkt \<and> pkt ! (2 + j) \<noteq> 0x62" "i \<le> n"
  shows "oack_loop pkt len i st = oack_loop pkt len n st \<or> oack_loop pkt len i st = Some st \<and> unat len \<le> n + 8"
  using assms
proof (induction "n - i" arbitrary: i)
  case (Suc d)
  then have lt: "i < n" by simp
  show ?case
  proof (cases "i + 8 < unat len")
    case True
    obtain r where "strcmp (blksize_literal @ pkt) (8 + (2 + i)) 0 = Some r" "r \<noteq> 0"
      using strcmp_blksize_differs[of "2 + i" pkt] Suc.prems lt by auto
    then have "oack_loop pkt len i st = oack_loop pkt len (i + 1) st" using True by (subst oack_loop.simps) simp
    moreover have "oack_loop pkt len (i + 1) st = oack_loop pkt len n st \<or> oack_loop pkt len (i + 1) st = Some st \<and> unat len \<le> n + 8"
      using Suc by (intro Suc.hyps) auto
    ultimately show ?thesis by simp
  next
    case False
    then show ?thesis using lt by (subst (3) oack_loop.simps) simp
  qed
qed simp


lemma cstring_inside: "0 \<notin> set xs \<Longrightarrow> s = length A \<Longrightarrow> cstring (A @ xs @ 0 # B) s xs"
  by (simp add: cstring_iff slice_def nth_append)

lemma dec_digits_text:
  assumes "0 < n"
  shows "fst (strto_parse (rev (dec_digits n)) 10) = n" "0 \<notin> set (dec_digits n)" "0x62 \<notin> set (dec_digits n)" "dec_digits n \<noteq> []"
proof -
  show ne: "dec_digits n \<noteq> []" by (subst dec_digits.simps) simp
  have d: "\<not> is_digit_of 10 0" "\<not> is_digit_of 10 0x62" by code_simp+
  show "0 \<notin> set (dec_digits n)" "0x62 \<notin> set (dec_digits n)" using d dec_digits_value[of n] by auto
  have "strto_parse (rev (dec_digits n)) 10 = (digits_value 10 (rev (dec_digits n)), length (rev (dec_digits n)))"
    using ne dec_digits_head[OF assms] dec_digits_value[of n] by (intro strto_parse_digits) (auto simp: hd_rev)
  then show "fst (strto_parse (rev (dec_digits n)) 10) = n" using dec_digits_value[of n] by simp
qed

lemma ucast_of_nat_16: "(ucast (word_of_nat n :: u32) :: u16) = word_of_nat n"
  by (rule word_unat_eq_iff[THEN iffD2]) (simp add: unat_ucast_mod unat_of_nat take_bit_eq_mod mod_mod_cancel)

lemma oack_loop_result:
  assumes "0x62 \<notin> set pre" "0x62 \<notin> set post" "0 < bs" "unat len = length pre + 9 + length (dec_digits bs) + length post"
  shows "oack_loop (oack_packet pre bs post @ rest) len 0 st = Some (st\<lparr>tftp_block_size := word_of_nat bs\<rparr>)"
proof -
  let ?d = "rev (dec_digits bs)" and ?n = "length pre"
  define pkt where "pkt = oack_packet pre bs post @ rest"
  have lit: "blksize_literal = [0x62, 0x6C, 0x6B, 0x73, 0x69, 0x7A, 0x65, 0]" by (simp add: blksize_literal_def ascii_def)
  have a: "ascii ''blksize'' = [0x62, 0x6C, 0x6B, 0x73, 0x69, 0x7A, 0x65]" by (simp add: ascii_def)
  define M where "M = pre @ blksize_literal @ ?d @ [0] @ post"
  have M: "pkt = be16 TFTP_OACK @ M @ rest" "length M = unat len" by (simp_all add: pkt_def oack_packet_def M_def assms(4) lit)
  have at: "pkt ! (2 + j) = M ! j" if "j < unat len" for j
    using that M by (simp add: be16_def nth_append)
  have lp: "unat len + 2 \<le> length pkt" by (simp add: pkt_def oack_packet_def assms(4) lit)
  have "M ! j \<noteq> 0x62" if "j < unat len" "j \<noteq> ?n" for j
  proof (cases "j < ?n")
    case True
    then have "M ! j = pre ! j" by (simp add: nth_append M_def)
    then show ?thesis using assms(1) nth_mem[OF True] by metis
  next
    case False
    then have "j - ?n - 1 < length (tl blksize_literal @ ?d @ [0] @ post)" "j = ?n + Suc (j - ?n - 1)"
      using that assms(4) by (auto simp: lit)
    moreover have "M ! (?n + Suc m) = (tl blksize_literal @ ?d @ [0] @ post) ! m" for m
      by (simp add: nth_append lit M_def)
    moreover have "0x62 \<notin> set (tl blksize_literal @ ?d @ [0] @ post)" using dec_digits_text[OF assms(3)] assms(2) by (simp add: lit)
    ultimately show ?thesis by (metis nth_mem)
  qed
  then have nb: "2 + j < length pkt \<and> pkt ! (2 + j) \<noteq> 0x62" if "j < unat len" "j \<noteq> ?n" for j
    using that at lp by auto
  have s1: "oack_loop pkt len 0 st = oack_loop pkt len ?n st"
    using oack_loop_skip[of 0 ?n pkt len st] nb assms(4) by auto
  have c1: "cstring (blksize_literal @ pkt) (8 + (2 + ?n)) (ascii ''blksize'')"
    using cstring_inside[of "ascii ''blksize''" "8 + (2 + ?n)" "blksize_literal @ be16 TFTP_OACK @ pre" "?d @ [0] @ post @ rest"]
    by (simp add: pkt_def oack_packet_def lit a)
  have c2: "cstring (blksize_literal @ pkt) 0 (ascii ''blksize'')"
    using cstring_inside[of "ascii ''blksize''" 0 "[]" pkt] by (simp add: lit a)
  have "strcmp (blksize_literal @ pkt) (8 + (2 + ?n)) 0 = Some 0" using strcmp_cstring[OF c1 c2] by (simp add: a)
  moreover have "cstring pkt (2 + ?n + 8) ?d"
    using cstring_inside[of ?d "2 + ?n + 8" "be16 TFTP_OACK @ pre @ blksize_literal" "post @ rest"] dec_digits_text[OF assms(3)]
    by (simp add: pkt_def oack_packet_def lit)
  then have "\<exists>e. simple_strtoul pkt (2 + ?n + 8) 10 = Some (word_of_nat bs, e)"
    using dec_digits_text(1)[OF assms(3)] by (simp add: simple_strtoul_cstring)
  ultimately have s2: "oack_loop pkt len ?n st = oack_loop pkt len (?n + 1) (st\<lparr>tftp_block_size := word_of_nat bs\<rparr>)"
    using assms(4) by (subst oack_loop.simps) (auto simp: ucast_of_nat_16)
  have "oack_loop pkt len (?n + 1) st' = Some st'" for st'
  proof -
    have "oack_loop pkt len (unat len) st' = Some st'" by (subst oack_loop.simps) simp
    then show ?thesis using oack_loop_skip[of "?n + 1" "unat len" pkt len st'] nb assms(4) by auto
  qed
  then show ?thesis using s1 s2 by (simp add: pkt_def)
qed


lemma udp_receive_oack:
  assumes "0x62 \<notin> set pre" "0x62 \<notin> set post" "0 < bs" "length pre + length post \<le> 60000" "bs < 65536"
    "udp_packet_handler c = Tftp_handler" "tftp_state c = STATE_SEND_RRQ \<or> tftp_remote_port c = src"
  shows "udp_receive sys (oack_packet pre bs post @ rest) (tftp_our_port c) src (packet_len (oack_packet pre bs post)) c =
    Some (tftp_send (c\<lparr>tftp_state := STATE_OACK, tftp_remote_port := src, tftp_block_size := word_of_nat bs\<rparr>))"
proof -
  let ?p = "oack_packet pre bs post" and ?m = "length pre + 9 + length (dec_digits bs) + length post"
  have d: "length (dec_digits bs) \<le> Suc 4" using assms(5) by (intro length_dec_digits) simp
  have l: "length ?p = 2 + ?m" by (simp add: oack_packet_def blksize_literal_def ascii_def)
  have s: "packet_len ?p - 2 = word_of_nat ?m" "\<not> packet_len ?p < 2"
    using word_of_nat_not_less[of 2 "length ?p"] d assms(4) l unfolding packet_len_def by simp_all
  have u: "unat (packet_len ?p - 2) = ?m" unfolding s(1) using d assms(4) by (subst unat_of_nat) (simp add: take_bit_eq_mod)
  have g: "get_be16 (?p @ rest) 0 = Some TFTP_OACK" by (simp add: oack_packet_def)
  have "tftp_handler sys (?p @ rest) (tftp_our_port c) src (packet_len ?p) c =
      (oack_loop (?p @ rest) (packet_len ?p - 2) 0 (c\<lparr>tftp_state := STATE_OACK, tftp_remote_port := src\<rparr>) \<bind> (\<lambda>st. Some (tftp_send st)))"
    unfolding tftp_handler_def using assms(7) s(2) g by (auto simp: Let_def)
  then show ?thesis using oack_loop_result[OF assms(1-3) u, of rest "c\<lparr>tftp_state := STATE_OACK, tftp_remote_port := src\<rparr>"] assms(6)
    by (simp add: udp_receive_def)
qed

section \<open>Start of a transfer\<close>

definition strings_ok :: "surroundings \<Rightarrow> bool" where
  "strings_ok sys \<longleftrightarrow> (\<forall>n v. env_value sys n = Some v \<longrightarrow> 0 \<notin> set v) \<and> 0 \<notin> set (boot_file_name sys)"

lemma strtol_total: "0 \<notin> set v \<Longrightarrow> \<exists>r. simple_strtol (v @ [0]) 0 b = Some r"
proof -
  assume v: "0 \<notin> set v"
  have c: "cstring (v @ [0]) 0 v" using cstring_inside[OF v, of 0 "[]" "[]"] by simp
  show ?thesis
  proof (cases "v \<noteq> [] \<and> hd v = 0x2D")
    case True
    then have "cstring (v @ [0]) 1 (tl v)" using c cstring_drop[OF c, of 1] by (cases v) auto
    then show ?thesis using True by (cases v) (auto simp: simple_strtol_def simple_strtoul_cstring split: prod.split)
  next
    case False
    then show ?thesis using simple_strtoul_cstring[OF c] by (cases v) (auto simp: simple_strtol_def)
  qed
qed

lemma string_to_ip_total: "cstring m s xs \<Longrightarrow> \<exists>a. string_to_ip_loop m s n addr = Some a"
proof (induction n arbitrary: s xs addr)
  case (Suc n)
  define k where "k = snd (strto_parse xs 10)"
  have k: "k \<le> length xs" using strto_parse_bound[of xs 10] by (simp add: k_def)
  have p: "simple_strtoul m s 10 = Some (word_of_nat (fst (strto_parse xs 10)), s + k)"
    using simple_strtoul_cstring[OF Suc.prems, of 10] by (simp add: k_def)
  have c: "cstring m (s + k) (drop k xs)" using cstring_drop[OF Suc.prems k] .
  then obtain x where x: "arr_get m (s + k) = Some x" using cstring_bound[OF Suc.prems] k by simp
  have "\<exists>ys. cstring m (if x \<noteq> 0 then s + k + 1 else s + k) ys"
  proof (cases "x = 0")
    case False
    then obtain y ys where "drop k xs = y # ys" using c x by (cases "drop k xs") auto
    then show ?thesis using c False by auto
  qed (use c in auto)
  then show ?case using Suc.IH p x by auto
qed simp

lemma start_attempt_state:
  assumes "strings_ok sys"
  shows "\<exists>c. start_attempt sys st = Some c \<and> tftp_state c = STATE_SEND_RRQ \<and> tftp_block_size c = TFTP_BLOCK_SIZE \<and>
    udp_packet_handler c = Tftp_handler \<and> net_boot_file_size c = 0 \<and> loop_state c = NETLOOP_CONTINUE \<and>
    ram c = ram st \<and> load_addr c = load_addr st \<and> tftp_cur_block c = 0 \<and>
    (\<exists>d. datagrams c = datagrams st @ [d] \<and> take 2 (d_payload d) = be16 TFTP_RRQ)"
proof -
  have e: "\<exists>n. env_number sys name old = Some n" for name old
    using assms strtol_total by (fastforce simp: env_number_def strings_ok_def split: option.split)
  have "\<exists>r. string_to_ip (boot_file_name sys @ [0]) 0 = Some r"
    using string_to_ip_total[of "boot_file_name sys @ [0]" 0 "boot_file_name sys"] cstring_inside[of "boot_file_name sys" 0 "[]" "[]"] assms
    by (fastforce simp: string_to_ip_def strings_ok_def)
  then have f: "\<exists>p. file_and_server sys = Some p" by (auto simp: file_and_server_def Let_def)
  obtain opt ms cnt ip name where s: "env_number sys ''tftpblocksize'' (ucast (tftp_block_size_option st)) = Some opt"
    "env_number sys ''tftptimeout'' (timeout_ms st) = Some ms"
    "env_number sys ''tftptimeoutcountmax'' (word_of_int (tftp_timeout_count_max st)) = Some cnt" "file_and_server sys = Some (ip, name)"
    using e f by (metis prod.exhaust)
  show ?thesis
    by (simp add: start_attempt_def tftp_start_def set_loop_state_def s tftp_send_def tftp_message_def Let_def be16_def)
qed


section \<open>Transfers on a network that keeps the order\<close>

text \<open>The answer of a server that knows options; a server that does not answers with the first block.\<close>

definition negotiate :: "nat \<Rightarrow> u32 \<Rightarrow> (surroundings \<times> u8 list \<times> u8 list \<times> u8 list) option \<Rightarrow> tftp \<Rightarrow> tftp option" where
  "negotiate bs src opt c =
     (case opt of
        None \<Rightarrow> Some c
      | Some (sys, pre, post, rest) \<Rightarrow>
          udp_receive sys (oack_packet pre bs post @ rest) (tftp_our_port c) src (packet_len (oack_packet pre bs post)) c)"

definition options_ok :: "nat \<Rightarrow> (surroundings \<times> u8 list \<times> u8 list \<times> u8 list) option \<Rightarrow> bool" where
  "options_ok bs opt \<longleftrightarrow>
     (case opt of
        None \<Rightarrow> bs = 512
      | Some (sys, pre, post, rest) \<Rightarrow> 0x62 \<notin> set pre \<and> 0x62 \<notin> set post \<and> length pre + length post \<le> 60000)"

lemma negotiate_state:
  assumes "options_ok bs opt" "0 < bs" "bs < 65536" "tftp_state c = STATE_SEND_RRQ" "tftp_block_size c = TFTP_BLOCK_SIZE"
    "udp_packet_handler c = Tftp_handler"
  shows "\<exists>c'. negotiate bs src opt c = Some c' \<and> (tftp_state c' = STATE_SEND_RRQ \<or> tftp_state c' = STATE_OACK \<and> tftp_remote_port c' = src) \<and>
    tftp_block_size c' = word_of_nat bs \<and> udp_packet_handler c' = Tftp_handler \<and> net_boot_file_size c' = net_boot_file_size c \<and>
    loop_state c' = loop_state c \<and> ram c' = ram c \<and> load_addr c' = load_addr c"
proof (cases opt)
  case None
  then show ?thesis using assms by (simp add: negotiate_def options_ok_def TFTP_BLOCK_SIZE_def)
next
  case (Some o')
  obtain sys pre post rest where o': "o' = (sys, pre, post, rest)" by (cases o')
  have "negotiate bs src opt c = Some (tftp_send (c\<lparr>tftp_state := STATE_OACK, tftp_remote_port := src, tftp_block_size := word_of_nat bs\<rparr>))"
    unfolding negotiate_def Some o' using assms Some o' by (simp add: udp_receive_oack options_ok_def)
  then show ?thesis using assms(6) by (simp add: tftp_send_def)
qed

text \<open>C11: A transfer succeeds. The client is started with any settings of the environment and any state of its
  variables; the server acknowledges a block size among other options, or answers with blocks of 512
  bytes; then its blocks arrive in order, each as often as the network likes. The client ends with
  \<open>NETLOOP_SUCCESS\<close>, the file stands at the load address and no other byte of RAM has changed, its size is right, and every
  block was acknowledged exactly once. Files may have more than 65535 blocks, so that the block numbers
  start again from zero.\<close>

theorem tftp_get_file:
  assumes "strings_ok sys" "options_ok bs opt" "0 < bs" "bs < 65536" "length file < 2 ^ 32"
    "map block_no es = arrivals (nblocks bs file) dup"
  shows "\<exists>c sent_before ip port. start_attempt sys st \<bind> negotiate bs src opt \<bind> deliver_blocks bs file src es = Some c \<and>
    loop_state c = NETLOOP_SUCCESS \<and> net_boot_file_size c = word_of_nat (length file) \<and>
    ram c = write_ram (ram st) (load_addr st) file \<and>
    datagrams c = sent_before @ map (ack_datagram ip src port) [1..<Suc (nblocks bs file)]"
proof -
  obtain c0 where c0: "start_attempt sys st = Some c0" "tftp_state c0 = STATE_SEND_RRQ" "tftp_block_size c0 = TFTP_BLOCK_SIZE"
    "udp_packet_handler c0 = Tftp_handler" "net_boot_file_size c0 = 0" "loop_state c0 = NETLOOP_CONTINUE" "ram c0 = ram st" "load_addr c0 = load_addr st"
    using start_attempt_state[OF assms(1), of st] by blast
  obtain c1 where c1: "negotiate bs src opt c0 = Some c1" "tftp_state c1 = STATE_SEND_RRQ \<or> tftp_state c1 = STATE_OACK \<and> tftp_remote_port c1 = src"
    "tftp_block_size c1 = word_of_nat bs" "udp_packet_handler c1 = Tftp_handler" "net_boot_file_size c1 = 0" "loop_state c1 = NETLOOP_CONTINUE"
    "ram c1 = ram st" "load_addr c1 = load_addr st"
    using negotiate_state[OF assms(2-4) c0(2-4)] c0(5-8) by metis
  obtain c where c: "deliver_blocks bs file src es c1 = Some c" "received bs file src c1 (nblocks bs file) c"
    using deliver_all[OF c1(2-6) assms(3-6)] by blast
  have "loop_state c = NETLOOP_SUCCESS" "net_boot_file_size c = word_of_nat (length file)" "ram c = write_ram (ram st) (load_addr st) file"
    "datagrams c = datagrams c1 @ map (ack_datagram (tftp_remote_ip c1) src (tftp_our_port c1)) [1..<Suc (nblocks bs file)]"
    using c(2) c1(7,8) take_all_blocks[OF assms(3), of "file"] by (simp_all add: received_def del: upt_Suc)
  moreover have "start_attempt sys st \<bind> negotiate bs src opt \<bind> deliver_blocks bs file src es = Some c" using c0(1) c1(1) c(1) by simp
  ultimately show ?thesis by blast
qed

text \<open>The block number zero is taken for a wrap whenever another block was stored before. When block 65536 arrives again after block
  65537, the offset moves on a second time, and all blocks behind it go to the wrong place.\<close>

lemma late_duplicate_shifts:
  assumes "received bs file src c0 65537 c" "bs < 65536"
  shows "tftp_block_wrap_offset (update_block_number (c\<lparr>tftp_cur_block := ucast (word_of_nat 65536 :: u16)\<rparr>)) = 2 * 65536 * word_of_nat bs"
  using assms by (simp add: received_def update_block_number_def ucast_block_size TFTP_SEQUENCE_SIZE_def)


section \<open>Transfers on any network\<close>

text \<open>
  The client together with a server that waits for acknowledgements, on a network that loses, repeats, delays and
  reorders packets: nothing that was sent ever disappears, and each event takes any of it. The
  server is at block \<open>n\<close>; it goes on when an acknowledgement of that block has been sent. With options its first answer
  is the acknowledgement of them (\<open>n = 0\<close>), without it is block 1. Packets for other ports or from
  other ports, and time-outs, happen at any moment. \<open>c0\<close> is the client after the start.
\<close>

inductive transfer :: "nat \<Rightarrow> u8 list \<Rightarrow> u32 \<Rightarrow> bool \<Rightarrow> tftp \<Rightarrow> tftp \<Rightarrow> nat \<Rightarrow> bool"
  for bs "file" src oack c0 where
  start: "transfer bs file src oack c0 c0 (if oack then 0 else 1)"
| acked: "transfer bs file src oack c0 c n \<Longrightarrow> n < nblocks bs file \<Longrightarrow>
    ack_datagram (tftp_remote_ip c0) src (tftp_our_port c0) n \<in> set (datagrams c) \<Longrightarrow> transfer bs file src oack c0 c (n + 1)"
| data: "transfer bs file src oack c0 c n \<Longrightarrow> loop_state c = NETLOOP_CONTINUE \<Longrightarrow> 1 \<le> k \<Longrightarrow> k \<le> n \<Longrightarrow>
    udp_receive sys (data_packet bs file k @ rest) (tftp_our_port c0) src (packet_len (data_packet bs file k)) c = Some c' \<Longrightarrow>
    transfer bs file src oack c0 c' n"
| options: "transfer bs file src oack c0 c n \<Longrightarrow> loop_state c = NETLOOP_CONTINUE \<Longrightarrow> oack \<Longrightarrow>
    0x62 \<notin> set pre \<Longrightarrow> 0x62 \<notin> set post \<Longrightarrow> length pre + length post \<le> 60000 \<Longrightarrow>
    udp_receive sys (oack_packet pre bs post @ rest) (tftp_our_port c0) src (packet_len (oack_packet pre bs post)) c = Some c' \<Longrightarrow>
    transfer bs file src oack c0 c' n"
| stray: "transfer bs file src oack c0 c n \<Longrightarrow> loop_state c = NETLOOP_CONTINUE \<Longrightarrow>
    dest \<noteq> tftp_our_port c0 \<or> tftp_state c \<noteq> STATE_SEND_RRQ \<and> sport \<noteq> src \<Longrightarrow>
    udp_receive sys pkt dest sport len c = Some c' \<Longrightarrow> transfer bs file src oack c0 c' n"
| timeout: "transfer bs file src oack c0 c n \<Longrightarrow> loop_state c = NETLOOP_CONTINUE \<Longrightarrow>
    check_timeout sys c = Some c' \<Longrightarrow> transfer bs file src oack c0 c' n"

text \<open>Block \<open>k\<close> is in RAM\<close>

definition held :: "nat \<Rightarrow> u8 list \<Rightarrow> u32 \<Rightarrow> (u32 \<Rightarrow> u8) \<Rightarrow> nat \<Rightarrow> bool" where
  "held bs file a m k \<longleftrightarrow> (\<forall>i. (k - 1) * bs \<le> i \<and> i < k * bs \<and> i < length file \<longrightarrow> m (a + word_of_nat i) = file ! i)"

lemma write_file_part:
  assumes "p \<le> length file" "length file < 2 ^ 32" "i < length file"
  shows "write_ram m (a + word_of_nat p) (take bs (drop p file)) (a + word_of_nat i) =
    (if p \<le> i \<and> i < p + bs then file ! i else m (a + word_of_nat i))"
proof -
  have "a + word_of_nat i - (a + word_of_nat p) = (word_of_nat i - word_of_nat p :: u32)" by simp
  moreover have "unat (word_of_nat i :: u32) = i" using assms by (simp add: unat_of_nat take_bit_eq_mod)
  ultimately have "unat (a + word_of_nat i - (a + word_of_nat p)) = (if p \<le> i then i - p else 2 ^ 32 + i - p)"
    using unat_minus_u32[of p "word_of_nat i"] assms by simp
  then show ?thesis using assms by (auto simp: write_ram_def)
qed

lemma write_file_frame:
  assumes "p \<le> length file" "length file < 2 ^ 32" "length file \<le> unat (x - a)"
  shows "write_ram m (a + word_of_nat p) (take bs (drop p file)) x = m x"
proof -
  have "x - (a + word_of_nat p) = (x - a) - word_of_nat p" by (rule diff_diff_eq[symmetric])
  moreover have "unat ((x - a) - word_of_nat p) = unat (x - a) - p" using unat_minus_u32[of p "x - a"] assms by simp
  ultimately have "unat (x - (a + word_of_nat p)) = unat (x - a) - p" by (simp only:)
  then show ?thesis using assms by (auto simp: write_ram_def)
qed

text \<open>What a step of the client can change besides the transfer\<close>

definition same_transfer :: "tftp \<Rightarrow> tftp \<Rightarrow> bool" where
  "same_transfer c c' \<longleftrightarrow> tftp_our_port c' = tftp_our_port c \<and> tftp_remote_ip c' = tftp_remote_ip c \<and> load_addr c' = load_addr c \<and>
     ram c' = ram c \<and> net_boot_file_size c' = net_boot_file_size c \<and> datagrams c' = datagrams c \<and> tftp_state c' = tftp_state c \<and>
     tftp_remote_port c' = tftp_remote_port c \<and> tftp_block_size c' = tftp_block_size c \<and> tftp_cur_block c' = tftp_cur_block c \<and>
     tftp_prev_block c' = tftp_prev_block c \<and> tftp_block_wrap_offset c' = tftp_block_wrap_offset c"

lemma net_start_again_cases:
  assumes "net_start_again sys c = Some c'"
  shows "c' = set_loop_state NETLOOP_FAIL c \<or> c' = set_loop_state NETLOOP_FAIL (c\<lparr>net_try_count := net_try_count c + 1\<rparr>) \<or>
    c' = set_loop_state NETLOOP_RESTART (c\<lparr>net_try_count := net_try_count c + 1\<rparr>) \<or>
    c' = (net_set_timeout_handler sys 10000 Start_again_timeout_handler (c\<lparr>net_try_count := net_try_count c + 1\<rparr>))\<lparr>udp_packet_handler := Dummy_handler\<rparr>"
proof -
  define d where "d = c\<lparr>net_try_count := net_try_count c + 1\<rparr>"
  obtain f n where "net_retries (env_value sys (ascii ''netretry'')) = Some (f, n)"
    using assms unfolding net_start_again_def by (cases "net_retries (env_value sys (ascii ''netretry''))") auto
  then show ?thesis using assms unfolding net_start_again_def Let_def d_def[symmetric] by (simp split: if_split_asm)
qed

lemma net_start_again_effect:
  assumes "net_start_again sys c = Some c'"
  shows "same_transfer c c'" "loop_state c' = NETLOOP_SUCCESS \<Longrightarrow> loop_state c = NETLOOP_SUCCESS"
    "loop_state c' = NETLOOP_CONTINUE \<Longrightarrow> udp_packet_handler c' = Dummy_handler \<and> time_handler c' = Some Start_again_timeout_handler"
  using net_start_again_cases[OF assms]
  by (elim disjE; simp add: same_transfer_def set_loop_state_def net_set_timeout_handler_def)+

text \<open>
  The invariant. RAM outside of the file is as before; the server is at block \<open>n\<close> only when the blocks before it are in RAM, and
  only such blocks have been acknowledged. As long as packets go to the client, the current and the
  previous block are in RAM too.
\<close>

definition ram_ok :: "nat \<Rightarrow> u8 list \<Rightarrow> tftp \<Rightarrow> tftp \<Rightarrow> nat \<Rightarrow> bool" where
  "ram_ok bs file c0 c n \<longleftrightarrow>
     load_addr c = load_addr c0 \<and> net_boot_file_size c \<le> word_of_nat (length file) \<and>
     (\<forall>x. length file \<le> unat (x - load_addr c0) \<longrightarrow> ram c x = ram c0 x) \<and>
     (\<forall>j. 1 \<le> j \<and> j < n \<longrightarrow> held bs file (load_addr c0) (ram c) j)"

definition acks_ok :: "nat \<Rightarrow> u8 list \<Rightarrow> u32 \<Rightarrow> tftp \<Rightarrow> tftp \<Rightarrow> nat \<Rightarrow> bool" where
  "acks_ok bs file src c0 c n \<longleftrightarrow> tftp_our_port c = tftp_our_port c0 \<and> tftp_remote_ip c = tftp_remote_ip c0 \<and>
     (\<forall>k. 1 \<le> k \<and> k < 65536 \<and> ack_datagram (tftp_remote_ip c0) src (tftp_our_port c0) k \<in> set (datagrams c) \<longrightarrow>
        k \<le> n \<and> held bs file (load_addr c0) (ram c) k)"

definition phase_ok :: "nat \<Rightarrow> u32 \<Rightarrow> bool \<Rightarrow> tftp \<Rightarrow> nat \<Rightarrow> bool" where
  "phase_ok bs src oack c n \<longleftrightarrow>
     (tftp_state c = STATE_SEND_RRQ \<or> (tftp_state c = STATE_OACK \<or> tftp_state c = STATE_DATA) \<and> tftp_remote_port c = src) \<and>
     (tftp_block_size c = word_of_nat bs \<or> oack \<and> n = 0 \<and> tftp_state c = STATE_SEND_RRQ) \<and>
     (tftp_state c = STATE_SEND_RRQ \<longrightarrow> (\<forall>d\<in>set (datagrams c). take 2 (d_payload d) = be16 TFTP_RRQ)) \<and>
     (udp_packet_handler c = Dummy_handler \<longrightarrow> time_handler c \<noteq> Some Tftp_timeout_handler)"

text \<open>Block \<open>k\<close> is the current one and may be acknowledged.\<close>

definition at_block :: "nat \<Rightarrow> u8 list \<Rightarrow> tftp \<Rightarrow> tftp \<Rightarrow> nat \<Rightarrow> u32 \<Rightarrow> bool" where
  "at_block bs file c0 c n w \<longleftrightarrow>
     (\<exists>k. w = word_of_nat k \<and> k \<le> n \<and> (k = 0 \<or> held bs file (load_addr c0) (ram c) k))"

definition client_ok :: "nat \<Rightarrow> u8 list \<Rightarrow> tftp \<Rightarrow> tftp \<Rightarrow> nat \<Rightarrow> bool" where
  "client_ok bs file c0 c n \<longleftrightarrow>
     (loop_state c = NETLOOP_CONTINUE \<and> udp_packet_handler c = Tftp_handler \<longrightarrow>
        at_block bs file c0 c n (tftp_cur_block c) \<and> (tftp_state c = STATE_SEND_RRQ \<longrightarrow> tftp_cur_block c = 0) \<and>
        (tftp_state c = STATE_DATA \<longrightarrow> at_block bs file c0 c n (tftp_prev_block c) \<and> tftp_block_wrap_offset c = 0)) \<and>
     (loop_state c = NETLOOP_SUCCESS \<longrightarrow>
        (\<forall>j. 1 \<le> j \<and> j \<le> nblocks bs file \<longrightarrow> held bs file (load_addr c0) (ram c) j) \<and>
        net_boot_file_size c = word_of_nat (length file))"

definition transfer_inv :: "nat \<Rightarrow> u8 list \<Rightarrow> u32 \<Rightarrow> bool \<Rightarrow> tftp \<Rightarrow> tftp \<Rightarrow> nat \<Rightarrow> bool" where
  "transfer_inv bs file src oack c0 c n \<longleftrightarrow> n \<le> nblocks bs file \<and> ram_ok bs file c0 c n \<and> acks_ok bs file src c0 c n \<and>
     phase_ok bs src oack c n \<and> client_ok bs file c0 c n"

lemmas inv_defs = transfer_inv_def ram_ok_def acks_ok_def phase_ok_def client_ok_def at_block_def

lemma held_after_write:
  assumes "1 \<le> k" "(k - 1) * bs \<le> length file" "length file < 2 ^ 32"
  shows "held bs file a (write_ram m (a + word_of_nat ((k - 1) * bs)) (file_block bs file k)) k"
    "held bs file a m j \<Longrightarrow> held bs file a (write_ram m (a + word_of_nat ((k - 1) * bs)) (file_block bs file k)) j"
proof -
  have "k * bs = (k - 1) * bs + bs" using assms(1) by (cases k) simp_all
  then show "held bs file a (write_ram m (a + word_of_nat ((k - 1) * bs)) (file_block bs file k)) k"
    "held bs file a m j \<Longrightarrow> held bs file a (write_ram m (a + word_of_nat ((k - 1) * bs)) (file_block bs file k)) j"
    using write_file_part[OF assms(2,3)] by (auto simp: held_def file_block_def)
qed

text \<open>The restart ends the session or leaves no handler; nothing else changes.\<close>

lemma start_again_inv:
  assumes "n \<le> nblocks bs file" "ram_ok bs file c0 c n" "acks_ok bs file src c0 c n" "phase_ok bs src oack c n"
    "loop_state c \<noteq> NETLOOP_SUCCESS" "net_start_again sys c = Some c'"
  shows "transfer_inv bs file src oack c0 c' n"
proof -
  note e = net_start_again_effect[OF assms(6)]
  have h: "udp_packet_handler c' = Dummy_handler \<longrightarrow> time_handler c' \<noteq> Some Tftp_timeout_handler"
    using net_start_again_cases[OF assms(6)] assms(4)
    by (elim disjE) (auto simp: set_loop_state_def net_set_timeout_handler_def phase_ok_def)
  show ?thesis using assms(1-5) e h by (auto simp: inv_defs same_transfer_def)
qed


lemma be16_inject: "be16 v = be16 w \<longleftrightarrow> v = w"
proof
  assume "be16 v = be16 w"
  then have "get_be16 (be16 v @ []) 0 = get_be16 (be16 w @ []) 0" by simp
  then show "v = w" by (simp only: get_be16_front option.inject)
qed simp

lemma block_number_unique: "j < 65536 \<Longrightarrow> k < 65536 \<Longrightarrow> (ucast (word_of_nat j :: u32) :: u16) = word_of_nat k \<Longrightarrow> j = k"
proof -
  assume "j < 65536" "k < 65536" "(ucast (word_of_nat j :: u32) :: u16) = word_of_nat k"
  then have "unat (word_of_nat j :: u16) = unat (word_of_nat k :: u16)" by (simp add: ucast_of_nat_16)
  then show ?thesis using \<open>j < 65536\<close> \<open>k < 65536\<close> by (simp add: unat_of_nat take_bit_eq_mod)
qed

lemma send_acks_ok:
  assumes "acks_ok bs file src c0 c n" "tftp_state c = STATE_SEND_RRQ \<or> tftp_state c = STATE_OACK \<or> tftp_state c = STATE_DATA"
    "tftp_state c \<noteq> STATE_SEND_RRQ \<Longrightarrow> at_block bs file c0 c n (tftp_cur_block c)" "n < 65536"
  shows "acks_ok bs file src c0 (tftp_send c) n"
proof -
  have "k \<le> n \<and> held bs file (load_addr c0) (ram c) k"
    if k: "1 \<le> k" "k < 65536" "ack_datagram ip src port k = \<lparr>d_ip = tftp_remote_ip c, d_dport = tftp_remote_port c, d_sport = tftp_our_port c, d_payload = tftp_message c\<rparr>"
    for k ip port
  proof -
    have m: "tftp_message c = be16 TFTP_ACK @ be16 (word_of_nat k)" using k(3) by (simp add: ack_datagram_def)
    have "tftp_state c \<noteq> STATE_SEND_RRQ"
    proof
      assume "tftp_state c = STATE_SEND_RRQ"
      then have "be16 TFTP_RRQ = be16 TFTP_ACK" using arg_cong[OF m, of "take 2"] by (simp add: tftp_message_def)
      then show False by (simp add: be16_inject TFTP_RRQ_def TFTP_ACK_def)
    qed
    moreover from this have "ucast (tftp_cur_block c) = (word_of_nat k :: u16)"
      using m assms(2) by (auto simp: tftp_message_def be16_inject)
    moreover obtain j where "tftp_cur_block c = word_of_nat j" "j \<le> n" "j = 0 \<or> held bs file (load_addr c0) (ram c) j"
      using assms(3)[OF calculation(1)] by (auto simp: at_block_def)
    ultimately show ?thesis using block_number_unique[of j k] k assms(4) by auto
  qed
  then show ?thesis using assms(1) by (auto simp: acks_ok_def tftp_send_def)
qed

lemma take_block_inv:
  assumes "tftp_state c = STATE_DATA" "tftp_remote_port c = src" "tftp_block_size c = word_of_nat bs" "tftp_block_wrap_offset c = 0"
    "tftp_cur_block c = word_of_nat k" "1 \<le> k" "k \<le> n" "n \<le> nblocks bs file" "nblocks bs file < 65536" "0 < bs" "bs < 65536"
    "length file < 2 ^ 32" "ram_ok bs file c0 c n" "acks_ok bs file src c0 c n" "udp_packet_handler c = Tftp_handler"
    "loop_state c = NETLOOP_CONTINUE"
  shows "transfer_inv bs file src oack c0 (take_block sys (file_block bs file k) c) n"
proof -
  let ?b = "file_block bs file k" and ?c = "take_block sys (file_block bs file k) c" and ?a = "load_addr c0"
  have kN: "k \<le> nblocks bs file" "(k - 1) * bs \<le> length file" using assms(6-8) before_last_full[of "k - 1" bs "file"] by auto
  have off: "(tftp_cur_block c - 1) * ucast (tftp_block_size c) + tftp_block_wrap_offset c = (word_of_nat ((k - 1) * bs) :: u32)"
    using block_offset[of k bs] assms(3-9,11) by (simp add: ucast_block_size)
  have la: "load_addr c = ?a" using assms(13) by (simp add: ram_ok_def)
  have r: "ram ?c = write_ram (ram c) (?a + word_of_nat ((k - 1) * bs)) ?b"
    unfolding take_block_effects off la ..
  have k: "held bs file ?a (ram ?c) k" and old: "held bs file ?a (ram c) j \<Longrightarrow> held bs file ?a (ram ?c) j" for j
    unfolding r using held_after_write[OF assms(6) kN(2) assms(12)] by blast+
  have fr: "length file \<le> unat (x - ?a) \<Longrightarrow> ram ?c x = ram c x" for x
    unfolding r unfolding file_block_def using write_file_frame[OF kN(2) assms(12)] by blast
  have lb: "(k - 1) * bs + length ?b \<le> length file" using kN(2) by (simp add: file_block_def)
  have le: "word_of_nat ((k - 1) * bs) + word_of_nat (length ?b) \<le> (word_of_nat (length file) :: u32)"
    using lb assms(12) word_of_nat_not_less[of "(k - 1) * bs + length ?b" "length file"] by (simp add: not_less)
  have s: "net_boot_file_size ?c \<le> word_of_nat (length file)"
    using assms(13) le unfolding take_block_effects off by (simp add: ram_ok_def)
  have ram: "ram_ok bs file c0 ?c n"
    using assms(13) s fr old by (simp add: ram_ok_def take_block_fields)
  have cur: "at_block bs file c0 ?c n (word_of_nat k)" using k assms(7) by (auto simp: at_block_def)
  have acks: "acks_ok bs file src c0 ?c n"
  proof -
    have same: "k' = k" if "k' < 65536" "word_of_nat k' = (ucast (word_of_nat k :: u32) :: u16)" for k'
      using block_number_unique[of k k'] that kN(1) assms(9) by simp
    show ?thesis using assms(14) k old assms(7) unfolding acks_ok_def take_block_fields take_block_effects(3)[OF assms(1)]
      by (auto simp: ack_datagram_def be16_inject assms(5) dest: same)
  qed
  have short: "word_of_nat (length ?b) < (ucast (tftp_block_size c) :: u32) \<longleftrightarrow> k = nblocks bs file"
  proof -
    have "length ?b \<le> bs" by (simp add: file_block_def)
    then have "word_of_nat (length ?b) < (ucast (tftp_block_size c) :: u32) \<longleftrightarrow> length ?b < bs"
      using assms(3,11) word_of_nat_less_iff[of "length ?b" bs] by (simp add: ucast_block_size)
    then show ?thesis using length_file_block[OF assms(10,6) kN(1)] kN(1) by auto
  qed
  have fin: "(\<forall>j. 1 \<le> j \<and> j \<le> nblocks bs file \<longrightarrow> held bs file ?a (ram ?c) j) \<and> net_boot_file_size ?c = word_of_nat (length file)"
    if "loop_state ?c = NETLOOP_SUCCESS"
  proof -
    have kn: "k = nblocks bs file" using that short assms(16) unfolding take_block_effects by (simp split: if_splits)
    then have n: "n = k" using assms(7,8) by simp
    have "held bs file ?a (ram ?c) j" if "1 \<le> j" "j \<le> nblocks bs file" for j
      using that ram k kn n by (cases "j = k") (auto simp: ram_ok_def)
    moreover have "(k - 1) * bs + length ?b = length file"
      using length_file_block(1)[OF assms(10,6) kN(1)] kn kN(2) by simp
    then have "word_of_nat ((k - 1) * bs) + word_of_nat (length ?b) = (word_of_nat (length file) :: u32)"
      by (simp only: of_nat_add[symmetric])
    then have "word_of_nat (length file) \<le> net_boot_file_size ?c" unfolding take_block_effects off by simp
    ultimately show ?thesis using s by auto
  qed
  have "phase_ok bs src oack ?c n" using assms(1-3,15) by (simp add: phase_ok_def take_block_fields)
  moreover have "client_ok bs file c0 ?c n"
    unfolding client_ok_def take_block_fields using cur fin assms(1,4,5) by auto
  ultimately show ?thesis using ram acks assms(8) by (simp add: transfer_inv_def)
qed


lemma acked_inv:
  assumes "transfer_inv bs file src oack c0 c n" "n < nblocks bs file" "nblocks bs file < 65536"
    "ack_datagram (tftp_remote_ip c0) src (tftp_our_port c0) n \<in> set (datagrams c)"
  shows "transfer_inv bs file src oack c0 c (n + 1)"
proof -
  have "take 2 (d_payload (ack_datagram (tftp_remote_ip c0) src (tftp_our_port c0) n)) = be16 TFTP_ACK" by (simp add: ack_datagram_def)
  moreover have "be16 TFTP_ACK \<noteq> be16 TFTP_RRQ" by (simp add: be16_inject TFTP_ACK_def TFTP_RRQ_def)
  ultimately have "tftp_state c \<noteq> STATE_SEND_RRQ" using assms(1,4) by (auto simp: transfer_inv_def phase_ok_def)
  then have p: "phase_ok bs src oack c (n + 1)" using assms(1) by (auto simp: transfer_inv_def phase_ok_def)
  have h: "1 \<le> n \<Longrightarrow> held bs file (load_addr c0) (ram c) n"
    using assms by (auto simp: transfer_inv_def acks_ok_def)
  have "ram_ok bs file c0 c (n + 1)" using assms(1) h unfolding transfer_inv_def ram_ok_def by (auto simp: less_Suc_eq)
  moreover have "acks_ok bs file src c0 c (n + 1)" using assms(1) unfolding transfer_inv_def acks_ok_def by (auto intro: le_SucI)
  moreover have "at_block bs file c0 c n w \<Longrightarrow> at_block bs file c0 c (n + 1) w" for w by (auto simp: at_block_def intro: le_SucI)
  then have "client_ok bs file c0 c (n + 1)" using assms(1) unfolding transfer_inv_def client_ok_def by blast
  ultimately show ?thesis using p assms(2) by (simp add: transfer_inv_def)
qed

lemma data_inv:
  assumes "transfer_inv bs file src oack c0 c n" "loop_state c = NETLOOP_CONTINUE" "1 \<le> k" "k \<le> n"
    "nblocks bs file < 65536" "0 < bs" "bs < 65536" "length file < 2 ^ 32"
    "udp_receive sys (data_packet bs file k @ rest) (tftp_our_port c0) src (packet_len (data_packet bs file k)) c = Some c'"
  shows "transfer_inv bs file src oack c0 c' n"
proof (cases "udp_packet_handler c")
  case Dummy_handler
  then show ?thesis using assms(1,9) by (simp add: udp_receive_def)
next
  case Tftp_handler
  have i: "n \<le> nblocks bs file" "ram_ok bs file c0 c n" "acks_ok bs file src c0 c n" "phase_ok bs src oack c n" "client_ok bs file c0 c n"
    using assms(1) by (simp_all add: transfer_inv_def)
  have port: "tftp_our_port c0 = tftp_our_port c" using i(3) by (simp add: acks_ok_def)
  have k: "k mod 65536 = k" "k < 65536" using assms(4,5) i(1) by simp_all
  have bs: "tftp_block_size c = word_of_nat bs" using i(4) assms(3,4) by (auto simp: phase_ok_def)
  have src: "tftp_state c \<noteq> STATE_SEND_RRQ \<longrightarrow> src = tftp_remote_port c" using i(4) by (auto simp: phase_ok_def)
  have step: "data_step sys src (word_of_nat k) (file_block bs file k) c = Some c'"
    using assms(9) udp_receive_block[OF assms(7) Tftp_handler src] by (simp add: port)
  define s1 where "s1 = c\<lparr>tftp_cur_block := word_of_nat k\<rparr>"
  have "(word_of_nat k :: u32) \<noteq> 0" using block_number_eq_iff[of k 0] k assms(3) by simp
  then have u: "update_block_number (c\<lparr>tftp_cur_block := ucast (word_of_nat k :: u16)\<rparr>) = s1"
    by (simp add: update_block_number_def s1_def ucast_block_number k)
  define s2 where "s2 = new_transfer (s1\<lparr>tftp_state := STATE_DATA, tftp_remote_port := src\<rparr>)"
  have inv2: "ram_ok bs file c0 s2 n" "acks_ok bs file src c0 s2 n" "phase_ok bs src oack s2 n"
    using i(2-4) bs by (simp_all add: ram_ok_def acks_ok_def phase_ok_def s2_def s1_def new_transfer_def)
  have inv1: "ram_ok bs file c0 s1 n" "acks_ok bs file src c0 s1 n" "phase_ok bs src oack s1 n"
    using i(2-4) by (simp_all add: ram_ok_def acks_ok_def phase_ok_def s1_def)
  consider (first) "tftp_state c = STATE_SEND_RRQ \<or> tftp_state c = STATE_OACK" | (later) "tftp_state c = STATE_DATA"
    using i(4) by (auto simp: phase_ok_def)
  then show ?thesis
  proof cases
    case first
    then have r: "(if word_of_nat k \<noteq> (1 :: u32) then net_start_again sys s2 else Some (take_block sys (file_block bs file k) s2)) = Some c'"
      using step unfolding data_step_def u Let_def by (auto simp: s2_def s1_def new_transfer_def split: if_splits)
    show ?thesis
    proof (cases "word_of_nat k = (1 :: u32)")
      case True
      then show ?thesis using r i(1) inv2 bs assms(2-8) Tftp_handler
        by (auto intro!: take_block_inv simp: s2_def s1_def new_transfer_def)
    next
      case False
      then show ?thesis using r i(1) inv2 assms(2) by (auto intro!: start_again_inv[of n bs "file" c0 s2 src oack sys c'] simp: s2_def s1_def new_transfer_def)
    qed
  next
    case later
    then have r: "(if word_of_nat k = tftp_prev_block c then Some s1 else Some (take_block sys (file_block bs file k) s1)) = Some c'"
      using step unfolding data_step_def u Let_def by (auto simp: s1_def)
    show ?thesis
    proof (cases "word_of_nat k = tftp_prev_block c")
      case True
      then have "client_ok bs file c0 s1 n" using i(5) later assms(2) Tftp_handler by (simp add: client_ok_def s1_def at_block_def)
      then show ?thesis using r True i(1) inv1 by (simp add: transfer_inv_def)
    next
      case False
      have "tftp_block_wrap_offset c = 0" using i(5) later assms(2) Tftp_handler by (simp add: client_ok_def)
      then show ?thesis using r False i(1) inv1 bs assms(2-8) Tftp_handler later src by (auto intro!: take_block_inv simp: s1_def)
    qed
  qed
qed


lemma options_inv:
  assumes "transfer_inv bs file src oack c0 c n" "loop_state c = NETLOOP_CONTINUE" "0x62 \<notin> set pre" "0x62 \<notin> set post"
    "length pre + length post \<le> 60000" "nblocks bs file < 65536" "0 < bs" "bs < 65536"
    "udp_receive sys (oack_packet pre bs post @ rest) (tftp_our_port c0) src (packet_len (oack_packet pre bs post)) c = Some c'"
  shows "transfer_inv bs file src oack c0 c' n"
proof (cases "udp_packet_handler c")
  case Dummy_handler
  then show ?thesis using assms(1,9) by (simp add: udp_receive_def)
next
  case Tftp_handler
  have i: "n \<le> nblocks bs file" "ram_ok bs file c0 c n" "acks_ok bs file src c0 c n" "phase_ok bs src oack c n" "client_ok bs file c0 c n"
    using assms(1) by (simp_all add: transfer_inv_def)
  define s where "s = c\<lparr>tftp_state := STATE_OACK, tftp_remote_port := src, tftp_block_size := word_of_nat bs\<rparr>"
  have "tftp_our_port c0 = tftp_our_port c" "tftp_state c = STATE_SEND_RRQ \<or> tftp_remote_port c = src"
    using i(3,4) by (auto simp: acks_ok_def phase_ok_def)
  then have c': "c' = tftp_send s" using assms(9) udp_receive_oack[OF assms(3,4,7,5,8) Tftp_handler] by (simp add: s_def)
  have cur: "at_block bs file c0 s n (tftp_cur_block s)" using i(5) assms(2) Tftp_handler by (simp add: client_ok_def at_block_def s_def)
  have "acks_ok bs file src c0 s n" using i(3) by (simp add: acks_ok_def s_def)
  then have "acks_ok bs file src c0 c' n" unfolding c' using cur i(1) assms(6) by (intro send_acks_ok) (simp_all add: s_def)
  moreover have "ram_ok bs file c0 c' n" using i(2) by (simp add: ram_ok_def c' s_def tftp_send_def)
  moreover have "phase_ok bs src oack c' n" using Tftp_handler by (simp add: phase_ok_def c' s_def tftp_send_def)
  moreover have "client_ok bs file c0 c' n"
    using cur assms(2) by (simp add: client_ok_def c' tftp_send_def at_block_def s_def)
  ultimately show ?thesis using i(1) by (simp add: transfer_inv_def)
qed

lemma stray_inv:
  assumes "transfer_inv bs file src oack c0 c n" "dest \<noteq> tftp_our_port c0 \<or> tftp_state c \<noteq> STATE_SEND_RRQ \<and> sport \<noteq> src"
    "udp_receive sys pkt dest sport len c = Some c'"
  shows "c' = c"
proof (cases "udp_packet_handler c")
  case Tftp_handler
  have "tftp_our_port c = tftp_our_port c0" "tftp_state c = STATE_SEND_RRQ \<or> (tftp_state c = STATE_OACK \<or> tftp_state c = STATE_DATA) \<and> tftp_remote_port c = src"
    using assms(1) by (auto simp: transfer_inv_def acks_ok_def phase_ok_def)
  then show ?thesis using assms(2,3) Tftp_handler by (auto simp: udp_receive_def tftp_handler_def split: if_splits)
qed (use assms(3) in \<open>simp add: udp_receive_def\<close>)

lemma timeout_inv:
  assumes "transfer_inv bs file src oack c0 c n" "loop_state c = NETLOOP_CONTINUE" "nblocks bs file < 65536" "check_timeout sys c = Some c'"
  shows "transfer_inv bs file src oack c0 c' n"
proof (cases "time_handler c = None \<or> \<not> now_ms sys - time_start c > time_delta c")
  case True
  then show ?thesis using assms(1,4) by (auto simp: check_timeout_def split: option.splits)
next
  case False
  have i: "n \<le> nblocks bs file" "ram_ok bs file c0 c n" "acks_ok bs file src c0 c n" "phase_ok bs src oack c n" "client_ok bs file c0 c n"
    using assms(1) by (simp_all add: transfer_inv_def)
  obtain h where h: "time_handler c = Some h" using False by auto
  show ?thesis
  proof (cases h)
    case Start_again_timeout_handler
    then have "c' = set_loop_state NETLOOP_RESTART (c\<lparr>time_handler := None\<rparr>)" using assms(4) False h by (simp add: check_timeout_def)
    then show ?thesis using i by (simp add: inv_defs set_loop_state_def)
  next
    case Tftp_timeout_handler
    then have udp: "udp_packet_handler c = Tftp_handler" using i(4) h by (cases "udp_packet_handler c") (auto simp: phase_ok_def)
    define s where "s = c\<lparr>time_handler := None, timeout_count := timeout_count c + 1\<rparr>"
    have s: "ram_ok bs file c0 s n" "acks_ok bs file src c0 s n" "phase_ok bs src oack s n"
      using i(2-4) by (simp_all add: ram_ok_def acks_ok_def phase_ok_def s_def)
    have t: "tftp_timeout_handler sys (c\<lparr>time_handler := None\<rparr>) = Some c'" using assms(4) False h Tftp_timeout_handler by (simp add: check_timeout_def)
    show ?thesis
    proof (cases "timeout_count s > timeout_count_max s")
      case True
      then have "net_start_again sys s = Some c'" using t by (simp add: tftp_timeout_handler_def s_def Let_def)
      then show ?thesis using s i(1) assms(2) by (intro start_again_inv) (simp_all add: s_def)
    next
      case False
      define d where "d = net_set_timeout_handler sys (timeout_ms s) Tftp_timeout_handler s"
      have st: "tftp_state d = STATE_SEND_RRQ \<or> tftp_state d = STATE_OACK \<or> tftp_state d = STATE_DATA"
        using s(3) by (auto simp: phase_ok_def d_def)
      then have c': "c' = tftp_send d" using t False by (auto simp: tftp_timeout_handler_def s_def d_def Let_def)
      have cur: "at_block bs file c0 d n (tftp_cur_block d)" using i(5) assms(2) udp by (simp add: client_ok_def at_block_def d_def s_def)
      have "acks_ok bs file src c0 d n" using s(2) by (simp add: acks_ok_def d_def)
      then have "acks_ok bs file src c0 c' n" unfolding c' using st cur i(1) assms(3) by (intro send_acks_ok) simp_all
      moreover have "ram_ok bs file c0 c' n" using s(1) by (simp add: ram_ok_def c' d_def tftp_send_def)
      moreover have "phase_ok bs src oack c' n"
        using s(3) udp by (auto simp: phase_ok_def c' d_def tftp_send_def tftp_message_def s_def)
      moreover have "client_ok bs file c0 c' n"
        using i(5) assms(2) udp by (simp add: client_ok_def c' tftp_send_def at_block_def d_def s_def)
      ultimately show ?thesis using i(1) by (simp add: transfer_inv_def)
    qed
  qed
qed

lemma transfer_keeps_inv:
  assumes "transfer bs file src oack c0 c n" "transfer_inv bs file src oack c0 c0 (if oack then 0 else 1)"
    "nblocks bs file < 65536" "0 < bs" "bs < 65536" "length file < 2 ^ 32"
  shows "transfer_inv bs file src oack c0 c n"
  using assms(1)
proof induction
  case start
  then show ?case using assms(2) .
next
  case (acked c n)
  then show ?case using assms(3) by (intro acked_inv)
next
  case (data c n k sys rest c')
  then show ?case using data_inv assms(3-6) by blast
next
  case (options c n pre post sys rest c')
  then show ?case using options_inv assms(3-5) by blast
next
  case (stray c n dest sport sys pkt len c')
  then show ?case using stray_inv by blast
next
  case (timeout c n sys c')
  then show ?case using timeout_inv assms(3) by blast
qed

text \<open>C5: No network can make the client accept a damaged file. Packets may be lost, repeated, delayed and reordered,
  time-outs may happen at any moment, and packets for other ports or from other ports may come in
  between. In every reachable state RAM outside of the area of the file is as it was, and when the client reports
  success, the whole file is at the load address and its size is right. The file has at most 65534 full
  blocks, so that block numbers do not repeat.\<close>

theorem tftp_file_intact:
  assumes "strings_ok sys" "datagrams st = []" "start_attempt sys st = Some c0" "transfer bs file src oack c0 c n"
    "oack \<or> bs = 512" "0 < bs" "bs < 65536" "nblocks bs file < 65536" "length file < 2 ^ 32"
  shows "(\<forall>x. length file \<le> unat (x - load_addr st) \<longrightarrow> ram c x = ram st x) \<and>
    (loop_state c = NETLOOP_SUCCESS \<longrightarrow>
       (\<forall>i<length file. ram c (load_addr st + word_of_nat i) = file ! i) \<and> net_boot_file_size c = word_of_nat (length file))"
proof -
  obtain c1 d where c1: "start_attempt sys st = Some c1" "tftp_state c1 = STATE_SEND_RRQ" "tftp_block_size c1 = TFTP_BLOCK_SIZE"
    "udp_packet_handler c1 = Tftp_handler" "net_boot_file_size c1 = 0" "loop_state c1 = NETLOOP_CONTINUE"
    "ram c1 = ram st" "load_addr c1 = load_addr st" "tftp_cur_block c1 = 0" "datagrams c1 = datagrams st @ [d]" "take 2 (d_payload d) = be16 TFTP_RRQ"
    using start_attempt_state[OF assms(1), of st] by blast
  then have c: "c1 = c0" using assms(3) by simp
  have nd: "ack_datagram ip src port k \<noteq> d" for ip port k
    using c1(11) by (auto simp: ack_datagram_def be16_inject TFTP_ACK_def TFTP_RRQ_def)
  have "transfer_inv bs file src oack c0 c0 (if oack then 0 else 1)"
    using c1 nd assms(2,5,6) unfolding c by (auto simp: inv_defs TFTP_BLOCK_SIZE_def nblocks_def intro!: exI[of _ "0 :: nat"])
  then have "transfer_inv bs file src oack c0 c n" using transfer_keeps_inv[OF assms(4)] assms(6-9) by simp
  then have f: "\<forall>x. length file \<le> unat (x - load_addr c0) \<longrightarrow> ram c x = ram c0 x"
    and h: "loop_state c = NETLOOP_SUCCESS \<Longrightarrow> (\<forall>j. 1 \<le> j \<and> j \<le> nblocks bs file \<longrightarrow> held bs file (load_addr c0) (ram c) j) \<and>
        net_boot_file_size c = word_of_nat (length file)"
    by (auto simp: transfer_inv_def ram_ok_def client_ok_def)
  have "ram c (load_addr c0 + word_of_nat i) = file ! i" if "loop_state c = NETLOOP_SUCCESS" "i < length file" for i
  proof -
    have "i div bs \<le> length file div bs" using that(2) by (simp add: div_le_mono)
    then have "held bs file (load_addr c0) (ram c) (i div bs + 1)" using h[OF that(1)] by (simp add: nblocks_def)
    moreover have "i div bs * bs \<le> i" "i < (i div bs + 1) * bs" using assms(6) by (simp_all add: dividend_less_div_times)
    ultimately show ?thesis using that(2) by (simp add: held_def)
  qed
  then show ?thesis using f h c1(7,8) unfolding c by simp
qed


section \<open>Instances\<close>

definition sample_surroundings :: surroundings where
  "sample_surroundings = \<lparr>env_value = (\<lambda>n. if n = ascii ''tftptimeout'' then Some (ascii ''2000'') else None), now_ms = 1234,
     restart_wrap = False, our_ip = 0x0201A8C0, server_ip = 0x0101A8C0, boot_file_name = ascii ''10.0.0.1:zImage''\<rparr>"

definition sample_tftp :: tftp where
  "sample_tftp = \<lparr>tftp_remote_ip = 0, tftp_remote_port = 0, tftp_our_port = 0, timeout_ms = TIMEOUT, timeout_count = 0, timeout_count_max = 20,
     tftp_timeout_count_max = 20, tftp_cur_block = 0, tftp_prev_block = 0, tftp_block_wrap = 0, tftp_block_wrap_offset = 0,
     tftp_state = STATE_SEND_RRQ, tftp_filename = [], tftp_block_size = 512, tftp_block_size_option = 1468,
     loop_state = NETLOOP_CONTINUE, net_boot_file_size = 0, net_try_count = 1, net_dev_exists = True, udp_packet_handler = Dummy_handler,
     time_handler = None, time_start = 0, time_delta = 0, load_addr = 0x82000000, ram = (\<lambda>x. 0), datagrams = []\<rparr>"

lemma sample_strings: "strings_ok sample_surroundings"
  by (auto simp: strings_ok_def sample_surroundings_def ascii_def)

theorem tftp_get_file_witness:
  "\<exists>c. start_attempt sample_surroundings sample_tftp \<bind> negotiate 2 2000 (Some (sample_surroundings, ascii ''timeout'' @ [0] @ ascii ''2'' @ [0], [], [])) \<bind>
      deliver_blocks 2 [1, 2, 3] 2000 [(sample_surroundings, 1, []), (sample_surroundings, 1, [7]), (sample_surroundings, 2, [])] = Some c \<and>
    loop_state c = NETLOOP_SUCCESS \<and> net_boot_file_size c = 3 \<and> ram c = write_ram (\<lambda>x. 0) 0x82000000 [1, 2, 3]"
proof -
  have o: "options_ok 2 (Some (sample_surroundings, ascii ''timeout'' @ [0] @ ascii ''2'' @ [0], [], []))" by (simp add: options_ok_def ascii_def)
  have a: "map block_no [(sample_surroundings, 1, []), (sample_surroundings, 1, [7]), (sample_surroundings, 2, [])] =
      arrivals (nblocks 2 [1, 2, 3]) (\<lambda>k. if k = 1 then 1 else 0)"
    by (simp add: arrivals_def nblocks_def)
  show ?thesis using tftp_get_file[OF sample_strings o _ _ _ a, of sample_tftp 2000] by (auto simp: sample_tftp_def)
qed

theorem tftp_file_intact_witness:
  "\<exists>c. transfer 512 [1, 2, 3] 2000 False (the (start_attempt sample_surroundings sample_tftp)) c 1 \<and> loop_state c = NETLOOP_SUCCESS \<and>
    (\<forall>i<3. ram c (0x82000000 + word_of_nat i) = [1, 2, 3] ! i) \<and> net_boot_file_size c = 3"
proof -
  obtain c0 where c0: "start_attempt sample_surroundings sample_tftp = Some c0" "tftp_state c0 = STATE_SEND_RRQ" "tftp_block_size c0 = TFTP_BLOCK_SIZE"
    "udp_packet_handler c0 = Tftp_handler" "net_boot_file_size c0 = 0" "loop_state c0 = NETLOOP_CONTINUE"
    using start_attempt_state[OF sample_strings, of sample_tftp] by blast
  obtain c where c: "data_step sample_surroundings 2000 (word_of_nat 1) (file_block 512 [1, 2, 3] 1) c0 = Some c" "received 512 [1, 2, 3] 2000 c0 1 c"
    using data_step_first[of c0 512 "[1, 2, 3]" sample_surroundings 2000] c0 by (auto simp: TFTP_BLOCK_SIZE_def)
  have "transfer 512 [1, 2, 3] 2000 False c0 c0 1" using transfer.start[of 512 "[1, 2, 3]" 2000 False c0] by simp
  moreover have "udp_receive sample_surroundings (data_packet 512 [1, 2, 3] 1 @ []) (tftp_our_port c0) 2000 (packet_len (data_packet 512 [1, 2, 3] 1)) c0 = Some c"
    using udp_receive_block[of 512 c0 2000 sample_surroundings "[1, 2, 3]" 1 "[]"] c0 c(1) by simp
  ultimately have t: "transfer 512 [1, 2, 3] 2000 False c0 c 1" using c0(6) transfer.data[of 512 "[1, 2, 3]" 2000 False c0 c0 1 1] by (metis order_refl)
  have "loop_state c = NETLOOP_SUCCESS" using c(2) by (simp add: received_def nblocks_def)
  moreover have f: "datagrams sample_tftp = []" "load_addr sample_tftp = 0x82000000" by (simp_all add: sample_tftp_def)
  moreover have n: "nblocks 512 [1, 2, 3] < 65536" by (simp add: nblocks_def)
  ultimately have "(\<forall>i<length [1, 2, 3 :: u8]. ram c (load_addr sample_tftp + word_of_nat i) = [1, 2, 3] ! i) \<and>
      net_boot_file_size c = word_of_nat (length [1, 2, 3 :: u8])"
    using tftp_file_intact[OF sample_strings f(1) c0(1) t _ _ _ n] by simp
  then show ?thesis using t c0(1) \<open>loop_state c = NETLOOP_SUCCESS\<close> unfolding f(2) by (intro exI[of _ c]) simp
qed

end
